(* ===== verification/Prelude.thy ===== *)
theory Prelude
  imports Main "HOL-Library.Word"
begin

text \<open>
  Shared vocabulary of the development: the machine types of the shipped targets
  (ar71xx is 32-bit MIPS, x86full is 32-bit x86, so \<open>unsigned long\<close> has 32 bits),
  pointers, the collections of simplification rules the component theories extend, and
  generic facts on lists and maps that several components use.
\<close>

type_synonym ulong = "32 word"
type_synonym u8 = "8 word"
type_synonym u16 = "16 word"
type_synonym u32 = "32 word"
type_synonym u64 = "64 word"

text \<open>A \<open>void*\<close>: \<open>None\<close> is \<open>NULL\<close>.\<close>

type_synonym 'v ptr = "'v option"

named_theorems map_facts \<open>lookups in sorted association lists\<close>
named_theorems heap_facts \<open>reads and writes of the object store\<close>

subsection \<open>Strictly sorted association lists\<close>

definition sorted_keys :: "('k::linorder \<times> 'v) list \<Rightarrow> bool" where
  "sorted_keys xs \<longleftrightarrow> sorted_wrt (<) (map fst xs)"

lemma sorted_keys_Nil [simp]: "sorted_keys []"
  by (simp add: sorted_keys_def)

lemma sorted_keys_Cons [simp]:
  "sorted_keys ((k, v) # xs) \<longleftrightarrow> (\<forall>b \<in> set xs. k < fst b) \<and> sorted_keys xs"
  by (auto simp: sorted_keys_def)

lemma sorted_keys_app [map_facts]:
  "sorted_keys (xs @ ys) \<longleftrightarrow>
    sorted_keys xs \<and> sorted_keys ys \<and> (\<forall>a \<in> set xs. \<forall>b \<in> set ys. fst a < fst b)"
  by (auto simp: sorted_keys_def sorted_wrt_append)

lemma sorted_keys_mid [map_facts]:
  "sorted_keys (xs @ (k, v) # ys) \<longleftrightarrow>
    sorted_keys xs \<and> sorted_keys ys \<and> (\<forall>a \<in> set xs. fst a < k) \<and> (\<forall>b \<in> set ys. k < fst b)"
  by (fastforce simp: sorted_keys_app)

lemma sorted_keys_distinct: "sorted_keys xs \<Longrightarrow> distinct (map fst xs)"
  by (simp add: sorted_keys_def strict_sorted_iff)

lemma map_of_outside: "\<forall>a \<in> set xs. fst a \<noteq> k \<Longrightarrow> map_of xs k = None"
  by (auto simp: map_of_eq_None_iff)

lemma map_of_above: "\<forall>b \<in> set ys. (k::'k::linorder) < fst b \<Longrightarrow> map_of ys k = None"
  by (rule map_of_outside) auto

lemma map_of_below: "\<forall>a \<in> set xs. fst a < (k::'k::linorder) \<Longrightarrow> map_of xs k = None"
  by (rule map_of_outside) auto

lemma map_of_mid_hit [map_facts]:
  "\<forall>a \<in> set xs. fst a < (k::'k::linorder) \<Longrightarrow> map_of (xs @ (k, v) # ys) k = Some v"
  by (simp add: map_add_def map_of_below)

lemma map_of_mid_update:
  "\<forall>a \<in> set xs. fst a < (k::'k::linorder) \<Longrightarrow>
    map_of (xs @ (k, v) # ys) = (map_of (xs @ ys))(k \<mapsto> v)"
  by (rule ext) (auto simp: map_add_def map_of_below split: option.split)

lemma map_of_mid_remove:
  "\<forall>a \<in> set xs. fst a < (k::'k::linorder) \<Longrightarrow> \<forall>b \<in> set ys. k < fst b \<Longrightarrow>
    map_of (xs @ ys) = (map_of (xs @ (k, v) # ys))(k := None)"
  by (rule ext) (auto simp: map_add_def map_of_below map_of_above split: option.split)

text \<open>A strictly sorted association list is determined by the map it stands for.\<close>

lemma sorted_keys_inject:
  "sorted_keys xs \<Longrightarrow> sorted_keys ys \<Longrightarrow> map_of xs = map_of ys \<Longrightarrow> xs = ys"
proof (induction xs arbitrary: ys)
  case Nil
  then have "map_of ys = Map.empty" by simp
  then show ?case by simp
next
  case (Cons p xs)
  obtain k v where p: "p = (k, v)" by (cases p)
  from Cons.prems(3) p have "map_of ys k = Some v" by (metis map_of_Cons_code(2))
  then obtain k' v' ys' where ys: "ys = (k', v') # ys'" by (cases ys) auto
  have "map_of (p # xs) k' = Some v'" using fun_cong[OF Cons.prems(3), of k'] ys by simp
  then have "(k', v') \<in> set (p # xs)" by (rule map_of_SomeD)
  moreover have "(k, v) \<in> set ys" using \<open>map_of ys k = Some v\<close> by (rule map_of_SomeD)
  moreover have "\<not> ((k', v') \<in> set xs \<and> (k, v) \<in> set ys')"
  proof
    assume a: "(k', v') \<in> set xs \<and> (k, v) \<in> set ys'"
    with Cons.prems(1) p have "k < k'" by fastforce
    moreover from a Cons.prems(2) ys have "k' < k" by fastforce
    ultimately show False by simp
  qed
  ultimately have e: "k' = k" "v' = v" using Cons.prems(1,2) p ys by auto
  have "map_of xs = (map_of (p # xs))(k := None)" "map_of ys' = (map_of ys)(k := None)"
    using Cons.prems(1,2) p ys e by (auto simp: map_of_above fun_eq_iff)
  then have "map_of xs = map_of ys'" by (simp only: Cons.prems(3))
  moreover have "sorted_keys xs" "sorted_keys ys'" using Cons.prems(1,2) p ys by simp_all
  ultimately have "xs = ys'" by (intro Cons.IH)
  with p ys e show ?case by simp
qed

subsection \<open>Buffers\<close>

text \<open>A write through an index: outside the allocation it is \<open>None\<close>.\<close>

definition buf_write :: "'a list \<Rightarrow> nat \<Rightarrow> 'a \<Rightarrow> 'a list option" where
  "buf_write buf i x = (if i < length buf then Some (buf[i := x]) else None)"

lemma buf_write_mid [simp]: "buf_write (xs @ y # ys) (length xs) x = Some (xs @ x # ys)"
  by (simp add: buf_write_def)

lemma buf_write_at [simp]: "i = length xs \<Longrightarrow> buf_write (xs @ y # ys) i x = Some (xs @ x # ys)"
  by simp

lemma buf_write_Some: "i < length buf \<Longrightarrow> buf_write buf i x = Some (buf[i := x])"
  by (simp add: buf_write_def)

end
