(* ===== verification/MapContract.thy ===== *)
theory MapContract
  imports Prelude "HOL-Library.Monad_Syntax"
begin

text \<open>
  What a map of libericstools promises its clients, as an interface: lookups and updates
  go through a projection \<open>h\<close> of the key (the identity for \<open>long_map\<close>, the string hash
  for \<open>string_map\<close>), values are pointers, and an operation that would read through
  \<open>NULL\<close> is \<open>None\<close>. The lemmas inside the locales hold for every implementation that
  keeps the laws.
\<close>

text \<open>\<open>NULL\<close> stands both for a missing key and for a stored \<open>NULL\<close>.\<close>

definition deref_opt :: "'v ptr option \<Rightarrow> 'v ptr" where
  "deref_opt x = (case x of None \<Rightarrow> None | Some v \<Rightarrow> v)"

lemma deref_opt_simps [simp]: "deref_opt None = None" "deref_opt (Some v) = v"
  by (simp_all add: deref_opt_def)

datatype ('k, 'v) map_op = SetOp 'k "'v ptr" | RemoveOp 'k

text \<open>A sequence of updates, on an implementation and on the abstract map.\<close>

fun run_ops :: "('m \<Rightarrow> 'k \<Rightarrow> 'v ptr \<Rightarrow> ('m \<times> 'v ptr) option) \<Rightarrow> ('m \<Rightarrow> 'k \<Rightarrow> ('m \<times> 'v ptr) option)
    \<Rightarrow> 'm \<Rightarrow> ('k, 'v) map_op list \<Rightarrow> 'm option" where
  "run_ops put del m [] = Some m"
| "run_ops put del m (SetOp k v # ops) = do { (m', _) \<leftarrow> put m k v; run_ops put del m' ops }"
| "run_ops put del m (RemoveOp k # ops) = do { (m', _) \<leftarrow> del m k; run_ops put del m' ops }"

fun spec_ops :: "('k \<Rightarrow> 'h) \<Rightarrow> ('h \<rightharpoonup> 'v ptr) \<Rightarrow> ('k, 'v) map_op list \<Rightarrow> ('h \<rightharpoonup> 'v ptr)" where
  "spec_ops h a [] = a"
| "spec_ops h a (SetOp k v # ops) = spec_ops h (a(h k \<mapsto> v)) ops"
| "spec_ops h a (RemoveOp k # ops) = spec_ops h (a(h k := None)) ops"

locale map_contract =
  fixes h :: "'k \<Rightarrow> 'h" and invar :: "'m \<Rightarrow> bool" and abs :: "'m \<Rightarrow> 'h \<rightharpoonup> 'v ptr"
    and get :: "'m \<Rightarrow> 'k \<Rightarrow> 'v ptr"
    and put :: "'m \<Rightarrow> 'k \<Rightarrow> 'v ptr \<Rightarrow> ('m \<times> 'v ptr) option"
    and del :: "'m \<Rightarrow> 'k \<Rightarrow> ('m \<times> 'v ptr) option"
  assumes get_law: "invar m \<Longrightarrow> get m k = deref_opt (abs m (h k))"
    and put_law: "invar m \<Longrightarrow> \<exists>m'. put m k v = Some (m', deref_opt (abs m (h k))) \<and>
      invar m' \<and> abs m' = (abs m)(h k \<mapsto> v)"
    and del_law: "invar m \<Longrightarrow> \<exists>m'. del m k = Some (m', deref_opt (abs m (h k))) \<and>
      invar m' \<and> abs m' = (abs m)(h k := None)"
begin

lemma putE:
  assumes "invar m" and "put m k v = Some (m', old)"
  shows "invar m'" and "abs m' = (abs m)(h k \<mapsto> v)" and "old = get m k"
  using put_law[OF assms(1), of k v] assms by (auto simp: get_law)

lemma delE:
  assumes "invar m" and "del m k = Some (m', old)"
  shows "invar m'" and "abs m' = (abs m)(h k := None)" and "old = get m k"
  using del_law[OF assms(1), of k] assms by (auto simp: get_law)

lemma get_put:
  assumes "invar m" and "put m k v = Some (m', old)"
  shows "get m' k' = (if h k' = h k then v else get m k')"
  using assms by (simp add: putE[OF assms] get_law)

lemma get_del:
  assumes "invar m" and "del m k = Some (m', old)"
  shows "get m' k' = (if h k' = h k then None else get m k')"
  using assms by (simp add: delE[OF assms] get_law)

lemma run_ops_refine:
  "invar m \<Longrightarrow> \<exists>m'. run_ops put del m ops = Some m' \<and> invar m' \<and> abs m' = spec_ops h (abs m) ops"
proof (induction ops arbitrary: m)
  case (Cons op ops)
  show ?case
  proof (cases op)
    case (SetOp k v)
    from put_law[OF Cons.prems, of k v] obtain m1 where m1:
      "put m k v = Some (m1, deref_opt (abs m (h k)))" "invar m1" "abs m1 = (abs m)(h k \<mapsto> v)"
      by blast
    show ?thesis using Cons.IH[OF m1(2)] by (simp add: SetOp m1(1) m1(3)[symmetric])
  next
    case (RemoveOp k)
    from del_law[OF Cons.prems, of k] obtain m1 where m1:
      "del m k = Some (m1, deref_opt (abs m (h k)))" "invar m1" "abs m1 = (abs m)(h k := None)"
      by blast
    show ?thesis using Cons.IH[OF m1(2)] by (simp add: RemoveOp m1(1) m1(3)[symmetric])
  qed
qed simp

end

text \<open>A map that also counts its keys in an \<open>unsigned long\<close>.\<close>

locale counted_map = map_contract h invar abs get put del
  for h :: "'k \<Rightarrow> 'h" and invar :: "'m \<Rightarrow> bool" and abs :: "'m \<Rightarrow> 'h \<rightharpoonup> 'v ptr"
    and get :: "'m \<Rightarrow> 'k \<Rightarrow> 'v ptr" and put and del +
  fixes count :: "'m \<Rightarrow> ulong"
  assumes fin: "invar m \<Longrightarrow> finite (dom (abs m))"
    and count_law: "invar m \<Longrightarrow> count m = of_nat (card (dom (abs m)))"
begin

lemma count_put:
  assumes "invar m" and "put m k v = Some (m', old)"
  shows "count m' = (if abs m (h k) = None then count m + 1 else count m)"
  using count_law[OF putE(1)[OF assms]] fin[OF assms(1)]
  by (auto simp: putE(2)[OF assms] count_law[OF assms(1)] domIff insert_absorb)

lemma count_del:
  assumes "invar m" and "del m k = Some (m', old)"
  shows "count m' = (if abs m (h k) = None then count m else count m - 1)"
proof (cases "abs m (h k)")
  case None
  then have "(abs m)(h k := None) = abs m" by (simp add: fun_upd_idem)
  with None show ?thesis
    using count_law[OF delE(1)[OF assms]] by (simp add: delE(2)[OF assms] count_law[OF assms(1)])
next
  case (Some v)
  then have "card (dom (abs m)) = Suc (card (dom (abs m) - {h k}))"
    using fin[OF assms(1)] by (intro card.remove) auto
  with Some show ?thesis
    using count_law[OF delE(1)[OF assms]]
    by (simp add: delE(2)[OF assms] count_law[OF assms(1)])
qed

end

end
