(* ===== verification/LongMap.thy ===== *)
theory LongMap
  imports MapContract
begin

text \<open>
  The balanced search tree of \<open>package/libericstools/src/tree_map.c\<close>: the record
  \<open>long_map\<close> and every operation on it. A tree node is owned by exactly one parent, so
  the tree is a datatype; the singly linked list of \<open>stack_node\<close>s, each holding the
  address \<open>node_ptr\<close> of a node and the direction taken below it, is the list of frames
  of a zipper: a frame is the node at \<open>*node_ptr\<close> without its child in that direction.
  A step that reads through \<open>NULL\<close> is \<open>None\<close>.
\<close>

subsection \<open>Nodes, rotations and rebalancing\<close>

datatype 'v long_map_node =
    NullNode
  | LNode (node_key: ulong) (node_value: "'v ptr") (node_balance: int)
      (node_left: "'v long_map_node") (node_right: "'v long_map_node")

record 'v long_map =
  root :: "'v long_map_node"
  num_elements :: ulong

fun balance_of :: "'v long_map_node \<Rightarrow> int option" where
  "balance_of NullNode = None"
| "balance_of (LNode k v b l r) = Some b"

fun set_balance :: "int \<Rightarrow> 'v long_map_node \<Rightarrow> 'v long_map_node option" where
  "set_balance b' NullNode = None"
| "set_balance b' (LNode k v b l r) = Some (LNode k v b' l r)"

fun with_left :: "('v long_map_node \<Rightarrow> 'v long_map_node option) \<Rightarrow> 'v long_map_node
    \<Rightarrow> 'v long_map_node option" where
  "with_left f NullNode = None"
| "with_left f (LNode k v b l r) = map_option (\<lambda>l'. LNode k v b l' r) (f l)"

fun with_right :: "('v long_map_node \<Rightarrow> 'v long_map_node option) \<Rightarrow> 'v long_map_node
    \<Rightarrow> 'v long_map_node option" where
  "with_right f NullNode = None"
| "with_right f (LNode k v b l r) = map_option (\<lambda>r'. LNode k v b l r') (f r)"

fun rotate_right :: "'v long_map_node \<Rightarrow> 'v long_map_node option" where
  "rotate_right (LNode k v b (LNode kp vp bp lp rp) r) =
     Some (LNode kp vp bp lp (LNode k v b rp r))"
| "rotate_right _ = None"

fun rotate_left :: "'v long_map_node \<Rightarrow> 'v long_map_node option" where
  "rotate_left (LNode k v b l (LNode kp vp bp lp rp)) =
     Some (LNode kp vp bp (LNode k v b l lp) rp)"
| "rotate_left _ = None"

text \<open>The block of \<open>rebalance\<close> for \<open>(*n)->balance < -1\<close>.\<close>

definition rebalance_left_heavy :: "'v long_map_node \<Rightarrow> 'v long_map_node option" where
  "rebalance_left_heavy n = do {
     bl \<leftarrow> (case n of NullNode \<Rightarrow> None | LNode _ _ _ l _ \<Rightarrow> balance_of l);
     if bl < 0 then do {
       n \<leftarrow> rotate_right n;
       n \<leftarrow> with_right (set_balance 0) n;
       set_balance 0 n }
     else if bl = 0 then do {
       n \<leftarrow> rotate_right n;
       n \<leftarrow> with_right (set_balance (-1)) n;
       set_balance 1 n }
     else do {
       n \<leftarrow> with_left rotate_left n;
       n \<leftarrow> rotate_right n;
       b \<leftarrow> balance_of n;
       n \<leftarrow> with_left (set_balance (if b > 0 then -1 else 0)) n;
       n \<leftarrow> with_right (set_balance (if b < 0 then 1 else 0)) n;
       set_balance 0 n }
   }"

text \<open>The block for \<open>(*n)->balance > 1\<close>.\<close>

definition rebalance_right_heavy :: "'v long_map_node \<Rightarrow> 'v long_map_node option" where
  "rebalance_right_heavy n = do {
     br \<leftarrow> (case n of NullNode \<Rightarrow> None | LNode _ _ _ _ r \<Rightarrow> balance_of r);
     if br > 0 then do {
       n \<leftarrow> rotate_left n;
       n \<leftarrow> with_left (set_balance 0) n;
       set_balance 0 n }
     else if br = 0 then do {
       n \<leftarrow> rotate_left n;
       n \<leftarrow> with_left (set_balance 1) n;
       set_balance (-1) n }
     else do {
       n \<leftarrow> with_right rotate_right n;
       n \<leftarrow> rotate_left n;
       b \<leftarrow> balance_of n;
       n \<leftarrow> with_left (set_balance (if b > 0 then -1 else 0)) n;
       n \<leftarrow> with_right (set_balance (if b < 0 then 1 else 0)) n;
       set_balance 0 n }
   }"

definition rebalance :: "'v long_map_node \<Rightarrow> int \<Rightarrow> int \<Rightarrow> ('v long_map_node \<times> int) option" where
  "rebalance n direction update_op = do {
     b \<leftarrow> balance_of n;
     n \<leftarrow> set_balance (b + update_op * direction) n;
     b \<leftarrow> balance_of n;
     n \<leftarrow> (if b < -1 then rebalance_left_heavy n else Some n);
     b \<leftarrow> balance_of n;
     n \<leftarrow> (if b > 1 then rebalance_right_heavy n else Some n);
     b \<leftarrow> balance_of n;
     Some (n, b)
   }"

subsection \<open>The stack of parents\<close>

datatype 'v stack_node =
  Frame (direction: int) (frame_key: ulong) (frame_value: "'v ptr") (frame_balance: int)
    (frame_sibling: "'v long_map_node")

fun unframe :: "'v stack_node \<Rightarrow> 'v long_map_node \<Rightarrow> 'v long_map_node" where
  "unframe (Frame d k v b s) t = (if d = -1 then LNode k v b t s else LNode k v b s t)"

fun plug :: "'v long_map_node \<Rightarrow> 'v stack_node list \<Rightarrow> 'v long_map_node" where
  "plug t [] = t"
| "plug t (f # fs) = plug (unframe f t) fs"

text \<open>
  The descent shared by insertion and removal: it stops at the node that holds the key or
  at the last node on the way to where the key would be.
\<close>

fun descend :: "ulong \<Rightarrow> 'v long_map_node \<Rightarrow> 'v stack_node list
    \<Rightarrow> 'v long_map_node \<times> 'v stack_node list" where
  "descend key NullNode st = (NullNode, st)"
| "descend key (LNode k v b l r) st =
     (if key \<noteq> k \<and> (if key < k then l else r) \<noteq> NullNode
      then if key < k then descend key l (Frame (-1) k v b r # st)
           else descend key r (Frame 1 k v b l # st)
      else (LNode k v b l r, st))"

subsection \<open>Operations\<close>

definition initialize_long_map :: "'v long_map" where
  "initialize_long_map = \<lparr>root = NullNode, num_elements = 0\<rparr>"

fun get_long_map_node :: "'v long_map_node \<Rightarrow> ulong \<Rightarrow> 'v ptr" where
  "get_long_map_node NullNode key = None"
| "get_long_map_node (LNode k v b l r) key =
     (if key \<noteq> k \<and> (if key < k then l else r) \<noteq> NullNode
      then get_long_map_node (if key < k then l else r) key
      else if k = key then v else None)"

definition get_long_map_element :: "'v long_map \<Rightarrow> ulong \<Rightarrow> 'v ptr" where
  "get_long_map_element m key = get_long_map_node (root m) key"

fun smallest_node :: "'v long_map_node \<Rightarrow> (ulong \<times> 'v ptr) option" where
  "smallest_node NullNode = None"
| "smallest_node (LNode k v b l r) = (if l \<noteq> NullNode then smallest_node l else Some (k, v))"

fun largest_node :: "'v long_map_node \<Rightarrow> (ulong \<times> 'v ptr) option" where
  "largest_node NullNode = None"
| "largest_node (LNode k v b l r) = (if r \<noteq> NullNode then largest_node r else Some (k, v))"

text \<open>
  The out-parameter \<open>*smallest_key\<close> keeps its old value on an empty map, so the
  operations take it and return it.
\<close>

definition get_smallest_long_map_element :: "'v long_map \<Rightarrow> ulong \<Rightarrow> 'v ptr \<times> ulong" where
  "get_smallest_long_map_element m smallest_key =
     (case smallest_node (root m) of None \<Rightarrow> (None, smallest_key) | Some (k, v) \<Rightarrow> (v, k))"

definition get_largest_long_map_element :: "'v long_map \<Rightarrow> ulong \<Rightarrow> 'v ptr \<times> ulong" where
  "get_largest_long_map_element m largest_key =
     (case largest_node (root m) of None \<Rightarrow> (None, largest_key) | Some (k, v) \<Rightarrow> (v, k))"

text \<open>The loop that rebalances after an insertion stops as soon as a balance is 0.\<close>

fun rebalance_insert :: "'v long_map_node \<Rightarrow> 'v stack_node list \<Rightarrow> 'v long_map_node option" where
  "rebalance_insert t [] = Some t"
| "rebalance_insert t (f # fs) = do {
     (t', new_balance) \<leftarrow> rebalance (unframe f t) (direction f) 1;
     if new_balance \<noteq> 0 then rebalance_insert t' fs else Some (plug t' fs) }"

text \<open>After a removal it stops as soon as a balance is not 0.\<close>

fun rebalance_remove :: "'v long_map_node \<Rightarrow> 'v stack_node list \<Rightarrow> 'v long_map_node option" where
  "rebalance_remove t [] = Some t"
| "rebalance_remove t (f # fs) = do {
     (t', new_balance) \<leftarrow> rebalance (unframe f t) (direction f) (-1);
     if new_balance = 0 then rebalance_remove t' fs else Some (plug t' fs) }"

definition set_long_map_element :: "'v long_map \<Rightarrow> ulong \<Rightarrow> 'v ptr
    \<Rightarrow> ('v long_map \<times> 'v ptr) option" where
  "set_long_map_element m key value =
     (let new_node = LNode key value 0 NullNode NullNode in
      case descend key (root m) [] of
        (NullNode, _) \<Rightarrow>
          Some (m\<lparr>root := new_node, num_elements := num_elements m + 1\<rparr>, None)
      | (LNode k v b l r, parent_list) \<Rightarrow>
          if key = k
          then Some (m\<lparr>root := plug (LNode k value b l r) parent_list\<rparr>, v)
          else do {
            root' \<leftarrow> rebalance_insert new_node
              ((if key < k then Frame (-1) k v b r else Frame 1 k v b l) # parent_list);
            Some (m\<lparr>root := root', num_elements := num_elements m + 1\<rparr>, None) })"

text \<open>
  The search for the smallest node of the right subtree: each step pushes the node whose
  left child is visited next; the result is the key and value of the replacement, its
  right child (which takes its place) and the extended stack.
\<close>

fun find_replacement :: "'v long_map_node \<Rightarrow> 'v stack_node list
    \<Rightarrow> ((ulong \<times> 'v ptr \<times> 'v long_map_node) \<times> 'v stack_node list) option" where
  "find_replacement NullNode st = None"
| "find_replacement (LNode k v b l r) st =
     (if l = NullNode then Some ((k, v, r), st)
      else find_replacement l (Frame (-1) k v b r # st))"

definition unlink_node :: "int \<Rightarrow> 'v long_map_node \<Rightarrow> 'v long_map_node \<Rightarrow> 'v stack_node list
    \<Rightarrow> ('v long_map_node \<times> 'v stack_node list) option" where
  "unlink_node b l r parent_list =
     (case r of
        NullNode \<Rightarrow> Some (l, parent_list)
      | LNode kr vr br lr rr \<Rightarrow>
          if lr = NullNode then Some (rr, Frame 1 kr vr b l # parent_list)
          else do {
            ((kx, vx, rx), down) \<leftarrow> find_replacement lr [Frame (-1) kr vr br rr];
            Some (rx, down @ Frame 1 kx vx b l # parent_list) })"

definition remove_long_map_element :: "'v long_map \<Rightarrow> ulong \<Rightarrow> ('v long_map \<times> 'v ptr) option" where
  "remove_long_map_element m key =
     (case descend key (root m) [] of
        (NullNode, _) \<Rightarrow> Some (m, None)
      | (LNode k v b l r, parent_list) \<Rightarrow>
          if key = k
          then do {
            (t, stack) \<leftarrow> unlink_node b l r parent_list;
            root' \<leftarrow> rebalance_remove t stack;
            Some (m\<lparr>root := root', num_elements := num_elements m - 1\<rparr>, v) }
          else Some (m, None))"

definition remove_smallest_long_map_element :: "'v long_map \<Rightarrow> ulong
    \<Rightarrow> ('v long_map \<times> 'v ptr \<times> ulong) option" where
  "remove_smallest_long_map_element m smallest_key = do {
     let (_, k) = get_smallest_long_map_element m smallest_key;
     (m', v) \<leftarrow> remove_long_map_element m k;
     Some (m', v, k) }"

definition remove_largest_long_map_element :: "'v long_map \<Rightarrow> ulong
    \<Rightarrow> ('v long_map \<times> 'v ptr \<times> ulong) option" where
  "remove_largest_long_map_element m largest_key = do {
     let (_, k) = get_largest_long_map_element m largest_key;
     (m', v) \<leftarrow> remove_long_map_element m k;
     Some (m', v, k) }"

text \<open>
  The key list is an allocation of \<open>num_elements\<close> cells (uninitialised cells are
  \<open>None\<close>) that the in-order traversal fills through \<open>*next_key_index\<close>.
\<close>

fun get_sorted_node_keys :: "'v long_map_node \<Rightarrow> ulong option list \<times> nat
    \<Rightarrow> (ulong option list \<times> nat) option" where
  "get_sorted_node_keys NullNode (key_list, next_key_index) = Some (key_list, next_key_index)"
| "get_sorted_node_keys (LNode k v b l r) (key_list, next_key_index) = do {
     (key_list, next_key_index) \<leftarrow> get_sorted_node_keys l (key_list, next_key_index);
     key_list \<leftarrow> buf_write key_list next_key_index (Some k);
     get_sorted_node_keys r (key_list, next_key_index + 1) }"

fun get_sorted_node_values :: "'v long_map_node \<Rightarrow> 'v ptr option list \<times> nat
    \<Rightarrow> ('v ptr option list \<times> nat) option" where
  "get_sorted_node_values NullNode (value_list, next_value_index) = Some (value_list, next_value_index)"
| "get_sorted_node_values (LNode k v b l r) (value_list, next_value_index) = do {
     (value_list, next_value_index) \<leftarrow> get_sorted_node_values l (value_list, next_value_index);
     value_list \<leftarrow> buf_write value_list next_value_index (Some v);
     get_sorted_node_values r (value_list, next_value_index + 1) }"

definition get_sorted_long_map_keys :: "'v long_map \<Rightarrow> (ulong option list \<times> ulong) option" where
  "get_sorted_long_map_keys m = do {
     (key_list, _) \<leftarrow>
       get_sorted_node_keys (root m) (replicate (unat (num_elements m)) None, 0);
     Some (key_list, num_elements m) }"

definition get_sorted_long_map_values :: "'v long_map \<Rightarrow> ('v ptr option list \<times> ulong) option" where
  "get_sorted_long_map_values m = do {
     (value_list, _) \<leftarrow>
       get_sorted_node_values (root m) (replicate (unat (num_elements m + 1)) None, 0);
     value_list \<leftarrow> buf_write value_list (unat (num_elements m)) (Some None);
     Some (value_list, num_elements m) }"

text \<open>\<open>apply_func\<close> is a callback with effects on the client's state \<open>'s\<close>.\<close>

fun apply_to_every_long_map_node :: "(ulong \<Rightarrow> 'v ptr \<Rightarrow> 's \<Rightarrow> 's) \<Rightarrow> 'v long_map_node \<Rightarrow> 's \<Rightarrow> 's" where
  "apply_to_every_long_map_node apply_func NullNode s = s"
| "apply_to_every_long_map_node apply_func (LNode k v b l r) s =
     apply_to_every_long_map_node apply_func r
       (apply_func k v (apply_to_every_long_map_node apply_func l s))"

definition apply_to_every_long_map_value :: "(ulong \<Rightarrow> 'v ptr \<Rightarrow> 's \<Rightarrow> 's) \<Rightarrow> 'v long_map \<Rightarrow> 's \<Rightarrow> 's" where
  "apply_to_every_long_map_value apply_func m s = apply_to_every_long_map_node apply_func (root m) s"

text \<open>What becomes of the values when a map or list is destroyed.\<close>

definition DESTROY_MODE_RETURN_VALUES :: int where "DESTROY_MODE_RETURN_VALUES = 20"
definition DESTROY_MODE_FREE_VALUES :: int where "DESTROY_MODE_FREE_VALUES = 21"
definition DESTROY_MODE_IGNORE_VALUES :: int where "DESTROY_MODE_IGNORE_VALUES = 22"

lemmas destroy_modes =
  DESTROY_MODE_RETURN_VALUES_def DESTROY_MODE_FREE_VALUES_def DESTROY_MODE_IGNORE_VALUES_def

text \<open>
  The loop \<open>while(map->num_elements > 0)\<close>: the state is the map, the array of returned
  values, the number of values removed and the list of values freed. It is a partial
  function, so not returning is \<open>None\<close> as well.
\<close>

partial_function (option) destroy_values_loop :: "int \<Rightarrow> 'v long_map \<Rightarrow> 'v ptr option list
    \<Rightarrow> nat \<Rightarrow> 'v ptr list \<Rightarrow> ('v long_map \<times> 'v ptr option list \<times> nat \<times> 'v ptr list) option" where
  "destroy_values_loop mode m return_values return_index freed =
     (if num_elements m > 0
      then do {
        (m, removed_value, _) \<leftarrow> remove_smallest_long_map_element m 0;
        return_values \<leftarrow> (if mode = DESTROY_MODE_RETURN_VALUES
          then buf_write return_values return_index (Some removed_value) else Some return_values);
        destroy_values_loop mode m return_values (return_index + 1)
          (if mode = DESTROY_MODE_FREE_VALUES then freed @ [removed_value] else freed) }
      else Some (m, return_values, return_index, freed))"

record 'v destroyed =
  returned :: "'v ptr option list ptr"
  num_destroyed :: nat
  freed_values :: "'v ptr list"

definition destroy_long_map_values :: "'v long_map \<Rightarrow> int \<Rightarrow> ('v long_map \<times> 'v destroyed) option" where
  "destroy_long_map_values m mode = do {
     return_values \<leftarrow> (if mode = DESTROY_MODE_RETURN_VALUES
       then buf_write (replicate (unat (num_elements m + 1)) None) (unat (num_elements m)) (Some None)
       else Some []);
     (m, return_values, n, freed) \<leftarrow> destroy_values_loop mode m return_values 0 [];
     Some (m, \<lparr>returned = (if mode = DESTROY_MODE_RETURN_VALUES then Some return_values else None),
       num_destroyed = n, freed_values = freed\<rparr>) }"

text \<open>\<open>destroy_long_map\<close> has the same body and frees the map afterwards.\<close>

definition destroy_long_map :: "'v long_map \<Rightarrow> int \<Rightarrow> 'v destroyed option" where
  "destroy_long_map m mode = do {
     return_values \<leftarrow> (if mode = DESTROY_MODE_RETURN_VALUES
       then buf_write (replicate (unat (num_elements m + 1)) None) (unat (num_elements m)) (Some None)
       else Some []);
     (m, return_values, n, freed) \<leftarrow> destroy_values_loop mode m return_values 0 [];
     Some \<lparr>returned = (if mode = DESTROY_MODE_RETURN_VALUES then Some return_values else None),
       num_destroyed = n, freed_values = freed\<rparr> }"

subsection \<open>Invariant: balance, order and the element count\<close>

fun height :: "'v long_map_node \<Rightarrow> nat" where
  "height NullNode = 0"
| "height (LNode k v b l r) = 1 + max (height l) (height r)"

fun inorder :: "'v long_map_node \<Rightarrow> (ulong \<times> 'v ptr) list" where
  "inorder NullNode = []"
| "inorder (LNode k v b l r) = inorder l @ (k, v) # inorder r"

fun avl :: "'v long_map_node \<Rightarrow> bool" where
  "avl NullNode = True"
| "avl (LNode k v b l r) =
     (avl l \<and> avl r \<and> b = int (height r) - int (height l) \<and> -1 \<le> b \<and> b \<le> 1)"

definition long_map_invar :: "'v long_map \<Rightarrow> bool" where
  "long_map_invar m \<longleftrightarrow> avl (root m) \<and> sorted_keys (inorder (root m)) \<and>
     num_elements m = of_nat (length (inorder (root m)))"

definition long_map_abs :: "'v long_map \<Rightarrow> ulong \<rightharpoonup> 'v ptr" where
  "long_map_abs m = map_of (inorder (root m))"

text \<open>The same three facts for a stack of parents, below which a tree of height \<open>h\<close> hangs.\<close>

fun stack_avl :: "'v stack_node list \<Rightarrow> nat \<Rightarrow> bool" where
  "stack_avl [] h = True"
| "stack_avl (Frame d k v b s # fs) h =
     ((d = -1 \<or> d = 1) \<and> avl s \<and> b = d * (int h - int (height s)) \<and> -1 \<le> b \<and> b \<le> 1 \<and>
      stack_avl fs (1 + max h (height s)))"

fun before :: "'v stack_node list \<Rightarrow> (ulong \<times> 'v ptr) list" where
  "before [] = []"
| "before (Frame d k v b s # fs) =
     (if d = -1 then before fs else before fs @ inorder s @ [(k, v)])"

fun after :: "'v stack_node list \<Rightarrow> (ulong \<times> 'v ptr) list" where
  "after [] = []"
| "after (Frame d k v b s # fs) =
     (if d = -1 then (k, v) # inorder s @ after fs else after fs)"

lemma inorder_plug: "inorder (plug t fs) = before fs @ inorder t @ after fs"
proof (induction fs arbitrary: t)
  case (Cons f fs)
  then show ?case by (cases f) auto
qed simp

lemma before_append [simp]: "before (fs @ gs) = before gs @ before fs"
proof (induction fs)
  case (Cons f fs)
  then show ?case by (cases f) auto
qed simp

lemma after_append [simp]: "after (fs @ gs) = after fs @ after gs"
proof (induction fs)
  case (Cons f fs)
  then show ?case by (cases f) auto
qed simp

lemma avl_plug: "avl t \<Longrightarrow> stack_avl fs (height t) \<Longrightarrow> avl (plug t fs)"
proof (induction fs arbitrary: t)
  case (Cons f fs)
  then show ?case by (cases f) (auto simp: max.commute)
qed simp

lemma avl_unplug: "avl (plug t fs) \<Longrightarrow> \<forall>f \<in> set fs. direction f = -1 \<or> direction f = 1 \<Longrightarrow>
    avl t \<and> stack_avl fs (height t)"
proof (induction fs arbitrary: t)
  case (Cons f fs)
  then have "avl (unframe f t) \<and> stack_avl fs (height (unframe f t))" by simp
  with Cons.prems show ?case by (cases f) (auto simp: max.commute split: if_splits)
qed simp

subsection \<open>Rebalancing keeps order and balance\<close>

text \<open>
  One call of \<open>rebalance\<close> on a node whose children are balanced and differ in height by
  at most two: it never reads through \<open>NULL\<close>, keeps the order and restores the balance;
  the height shrinks exactly when a rotation ends with balance 0, which it does unless the
  heavy child was itself in balance.
\<close>

definition rebalanced :: "'v long_map_node \<Rightarrow> 'v long_map_node \<Rightarrow> 'v long_map_node \<Rightarrow> int \<Rightarrow> bool" where
  "rebalanced l r t' nb \<longleftrightarrow> avl t' \<and> t' \<noteq> NullNode \<and> node_balance t' = nb \<and>
     (let d = int (height r) - int (height l) in
      if \<bar>d\<bar> = 2
      then height t' = (if nb = 0 then 0 else 1) + max (height l) (height r) \<and>
           (nb = 0 \<longleftrightarrow> node_balance (if d < 0 then l else r) \<noteq> 0)
      else nb = d \<and> height t' = 1 + max (height l) (height r))"

lemma avl_NullNode_height: "avl t \<Longrightarrow> height t = 0 \<longleftrightarrow> t = NullNode"
  by (cases t) auto

lemma left_heavy_ok:
  assumes "avl l" and "avl r" and "int (height r) - int (height l) = -2"
  shows "\<exists>t' nb. rebalance_left_heavy (LNode k v (-2) l r) = Some t' \<and> nb = node_balance t' \<and>
    rebalanced l r t' nb \<and> nb \<le> 1 \<and> inorder t' = inorder l @ (k, v) # inorder r"
proof -
  from assms(1,3) obtain kl vl bl ll lr where l: "l = LNode kl vl bl ll lr"
    by (cases l) auto
  show ?thesis
  proof (cases "bl > 0")
    case True
    with assms l obtain km vm bm ml mr where "lr = LNode km vm bm ml mr"
      by (cases lr) auto
    with True assms l show ?thesis
      by (auto simp: rebalance_left_heavy_def rebalanced_def Let_def max_def split: if_splits)
  next
    case False
    with assms l show ?thesis
      by (auto simp: rebalance_left_heavy_def rebalanced_def Let_def max_def split: if_splits)
  qed
qed

lemma right_heavy_ok:
  assumes "avl l" and "avl r" and "int (height r) - int (height l) = 2"
  shows "\<exists>t' nb. rebalance_right_heavy (LNode k v 2 l r) = Some t' \<and> nb = node_balance t' \<and>
    rebalanced l r t' nb \<and> inorder t' = inorder l @ (k, v) # inorder r"
proof -
  from assms(2,3) obtain kr vr br rl rr where r: "r = LNode kr vr br rl rr"
    by (cases r) auto
  show ?thesis
  proof (cases "br < 0")
    case True
    with assms r obtain km vm bm ml mr where "rl = LNode km vm bm ml mr"
      by (cases rl) auto
    with True assms r show ?thesis
      by (auto simp: rebalance_right_heavy_def rebalanced_def Let_def max_def split: if_splits)
  next
    case False
    with assms r show ?thesis
      by (auto simp: rebalance_right_heavy_def rebalanced_def Let_def max_def split: if_splits)
  qed
qed

lemma balance_of_node [simp]: "t \<noteq> NullNode \<Longrightarrow> balance_of t = Some (node_balance t)"
  by (cases t) auto

lemma rebalance_ok:
  assumes "avl l" and "avl r" and d: "b + op * dir = int (height r) - int (height l)"
    and "\<bar>int (height r) - int (height l)\<bar> \<le> 2"
  shows "\<exists>t' nb. rebalance (LNode k v b l r) dir op = Some (t', nb) \<and>
    rebalanced l r t' nb \<and> inorder t' = inorder l @ (k, v) # inorder r"
proof -
  from assms(4) consider "int (height r) - int (height l) = -2"
    | "int (height r) - int (height l) = 2" | "\<bar>int (height r) - int (height l)\<bar> \<le> 1"
    by linarith
  then show ?thesis
  proof cases
    case 1
    from left_heavy_ok[OF assms(1,2) 1, of k v] obtain t' nb where t':
      "rebalance_left_heavy (LNode k v (-2) l r) = Some t'" "nb = node_balance t'"
      "rebalanced l r t' nb" "nb \<le> 1" "inorder t' = inorder l @ (k, v) # inorder r" by blast
    then have "t' \<noteq> NullNode" by (simp add: rebalanced_def)
    with t' 1 d show ?thesis by (simp add: rebalance_def)
  next
    case 2
    from right_heavy_ok[OF assms(1,2) 2, of k v] obtain t' nb where t':
      "rebalance_right_heavy (LNode k v 2 l r) = Some t'" "nb = node_balance t'"
      "rebalanced l r t' nb" "inorder t' = inorder l @ (k, v) # inorder r" by blast
    then have "t' \<noteq> NullNode" by (simp add: rebalanced_def)
    with t' 2 d show ?thesis by (simp add: rebalance_def)
  next
    case 3
    then have "\<not> int (height r) - int (height l) < -1" "\<not> 1 < int (height r) - int (height l)"
      by linarith+
    with 3 assms(1,2) d show ?thesis by (simp add: rebalance_def rebalanced_def Let_def)
  qed
qed

text \<open>The two loops over the stack: a subtree that grew, or shrank, by one.\<close>

lemma rebalance_insert_ok:
  assumes "stack_avl fs h" and "avl t" and "height t = Suc h" and "h = 0 \<or> node_balance t \<noteq> 0"
  shows "\<exists>t'. rebalance_insert t fs = Some t' \<and> avl t' \<and>
    inorder t' = before fs @ inorder t @ after fs"
  using assms
proof (induction fs arbitrary: t h)
  case (Cons f fs)
  obtain d k v b s where f: "f = Frame d k v b s" by (cases f)
  with Cons.prems have s: "avl s" "-1 \<le> b" "b \<le> 1" "d = -1 \<or> d = 1"
    "b = d * (int h - int (height s))" "stack_avl fs (1 + max h (height s))" by auto
  define l r where "l = (if d = -1 then t else s)" and "r = (if d = -1 then s else t)"
  from s Cons.prems have "avl l" "avl r" "b + 1 * d = int (height r) - int (height l)"
    "\<bar>int (height r) - int (height l)\<bar> \<le> 2"
    by (auto simp: l_def r_def)
  from rebalance_ok[OF this, of k v] obtain t' nb where t':
    "rebalance (LNode k v b l r) d 1 = Some (t', nb)" "rebalanced l r t' nb"
    "inorder t' = inorder l @ (k, v) # inorder r" by blast
  have u: "unframe f t = LNode k v b l r" by (simp add: f l_def r_def)
  have ord: "before fs @ inorder t' @ after fs = before (f # fs) @ inorder t @ after (f # fs)"
    using s(4) by (auto simp: t'(3) f l_def r_def)
  show ?case
  proof (cases "nb = 0")
    case True
    with t'(2) s Cons.prems(3,4) have "height t' = 1 + max h (height s)"
      by (auto simp: rebalanced_def Let_def l_def r_def split: if_splits)
    with t'(2) s(6) have "avl (plug t' fs)" by (intro avl_plug) (auto simp: rebalanced_def)
    with True t'(1) u ord show ?thesis by (simp add: f inorder_plug)
  next
    case False
    with t'(2) s Cons.prems(3,4) have "height t' = Suc (1 + max h (height s))"
      by (auto simp: rebalanced_def Let_def l_def r_def split: if_splits)
    with Cons.IH[OF s(6), of t'] t'(2) False obtain t'' where
      "rebalance_insert t' fs = Some t''" "avl t''" "inorder t'' = before fs @ inorder t' @ after fs"
      by (auto simp: rebalanced_def)
    with False t'(1) u ord show ?thesis by (simp add: f)
  qed
qed simp

lemma rebalance_remove_ok:
  assumes "stack_avl fs (Suc (height t))" and "avl t"
  shows "\<exists>t'. rebalance_remove t fs = Some t' \<and> avl t' \<and>
    inorder t' = before fs @ inorder t @ after fs"
  using assms
proof (induction fs arbitrary: t)
  case (Cons f fs)
  obtain d k v b s where f: "f = Frame d k v b s" by (cases f)
  with Cons.prems have s: "avl s" "-1 \<le> b" "b \<le> 1" "d = -1 \<or> d = 1"
    "b = d * (int (Suc (height t)) - int (height s))"
    "stack_avl fs (1 + max (Suc (height t)) (height s))" by auto
  define l r where "l = (if d = -1 then t else s)" and "r = (if d = -1 then s else t)"
  from s Cons.prems have "avl l" "avl r" "b + -1 * d = int (height r) - int (height l)"
    "\<bar>int (height r) - int (height l)\<bar> \<le> 2"
    by (auto simp: l_def r_def)
  from rebalance_ok[OF this, of k v] obtain t' nb where t':
    "rebalance (LNode k v b l r) d (-1) = Some (t', nb)" "rebalanced l r t' nb"
    "inorder t' = inorder l @ (k, v) # inorder r" by blast
  have u: "unframe f t = LNode k v b l r" by (simp add: f l_def r_def)
  have ord: "before fs @ inorder t' @ after fs = before (f # fs) @ inorder t @ after (f # fs)"
    using s(4) by (auto simp: t'(3) f l_def r_def)
  show ?case
  proof (cases "nb = 0")
    case True
    with t'(2) s have "Suc (height t') = 1 + max (Suc (height t)) (height s)"
      by (auto simp: rebalanced_def Let_def l_def r_def split: if_splits)
    with Cons.IH[of t'] s(6) t'(2) obtain t'' where
      "rebalance_remove t' fs = Some t''" "avl t''" "inorder t'' = before fs @ inorder t' @ after fs"
      by (auto simp: rebalanced_def)
    with True t'(1) u ord show ?thesis by (simp add: f)
  next
    case False
    with t'(2) s have "height t' = 1 + max (Suc (height t)) (height s)"
      by (auto simp: rebalanced_def Let_def l_def r_def split: if_splits)
    with t'(2) s(6) have "avl (plug t' fs)" by (intro avl_plug) (auto simp: rebalanced_def)
    with False t'(1) u ord show ?thesis by (simp add: f inorder_plug)
  qed
qed simp

subsection \<open>The descent\<close>

lemma descend_plug: "descend key t st = (t', st') \<Longrightarrow> plug t' st' = plug t st"
  by (induction key t st rule: descend.induct) (auto split: if_splits)

lemma descend_directions:
  "descend key t st = (t', st') \<Longrightarrow> \<forall>f \<in> set st. direction f = -1 \<or> direction f = 1 \<Longrightarrow>
    \<forall>f \<in> set st'. direction f = -1 \<or> direction f = 1"
  by (induction key t st rule: descend.induct) (auto split: if_splits)

lemma descend_Null: "descend key t st = (NullNode, st') \<longleftrightarrow> t = NullNode \<and> st' = st"
  by (induction key t st rule: descend.induct) (auto split: if_splits)

text \<open>Everything left of the place where the descent stops is smaller than the key.\<close>

lemma descend_bounds:
  assumes "descend key t st = (t', st')" and "sorted_keys (inorder t)"
    and "\<forall>a \<in> set (before st). fst a < key" and "\<forall>b \<in> set (after st). key < fst b"
  shows "(\<forall>a \<in> set (before st'). fst a < key) \<and> (\<forall>b \<in> set (after st'). key < fst b)"
  using assms
proof (induction key t st rule: descend.induct)
  case (2 key k v b l r st)
  note keys = "2.prems"(2)[simplified map_facts inorder.simps]
  consider "key < k" "key \<noteq> k" "l \<noteq> NullNode"
    | "\<not> key < k" "k < key" "key \<noteq> k" "r \<noteq> NullNode"
    | "st' = st" using "2.prems"(1) by (auto split: if_splits simp: not_less le_less)
  then show ?case
  proof cases
    case 1
    with "2.prems" keys have "\<forall>b \<in> set (after (Frame (-1) k v b r # st)). key < fst b" by auto
    with 1 "2.IH"(1) "2.prems" keys show ?thesis by simp
  next
    case 2
    with "2.prems" keys have "\<forall>a \<in> set (before (Frame 1 k v b l # st)). fst a < key" by auto
    with 2 "2.IH"(2) "2.prems" keys show ?thesis by simp
  qed (use "2.prems" in simp)
qed simp

text \<open>Where it stops, the node holds the key or has no child on the key's side.\<close>

lemma descend_stop:
  "descend key t st = (LNode k v b l r, st') \<Longrightarrow>
    key = k \<or> (key < k \<and> l = NullNode) \<or> (k < key \<and> r = NullNode)"
  by (induction key t st rule: descend.induct) (auto split: if_splits)

lemma get_long_map_node_descend:
  "get_long_map_node t key = (case fst (descend key t st) of
     NullNode \<Rightarrow> None | LNode k v b l r \<Rightarrow> if key = k then v else None)"
  by (induction key t st rule: descend.induct) auto

text \<open>What the descent shows of a map that satisfies the invariant, in one fact.\<close>

lemma descend_invar:
  assumes "long_map_invar m" and d: "descend key (root m) [] = (LNode k v b l r, st)"
  shows "inorder (root m) = before st @ inorder l @ (k, v) # inorder r @ after st"
    and "\<forall>a \<in> set (before st). fst a < key" and "\<forall>b \<in> set (after st). key < fst b"
    and "\<forall>a \<in> set (inorder l). fst a < key" and "\<forall>b \<in> set (inorder r). key < fst b"
    and "avl (LNode k v b l r)" and "stack_avl st (height (LNode k v b l r))"
    and "key = k \<or> (key < k \<and> l = NullNode) \<or> (k < key \<and> r = NullNode)"
proof -
  from assms(1) have a: "avl (root m)" and s: "sorted_keys (inorder (root m))"
    by (auto simp: long_map_invar_def)
  from descend_plug[OF d] have p: "plug (LNode k v b l r) st = root m" by simp
  show i: "inorder (root m) = before st @ inorder l @ (k, v) # inorder r @ after st"
    by (simp add: p[symmetric] inorder_plug)
  from descend_bounds[OF d s]
  show "\<forall>a \<in> set (before st). fst a < key" "\<forall>b \<in> set (after st). key < fst b" by auto
  from s have "\<forall>a \<in> set (inorder l). fst a < k" "\<forall>b \<in> set (inorder r). k < fst b"
    by (auto simp: i map_facts)
  with descend_stop[OF d]
  show "\<forall>a \<in> set (inorder l). fst a < key" "\<forall>b \<in> set (inorder r). key < fst b"
    by (auto dest: less_trans)
  from avl_unplug[of "LNode k v b l r" st] p a descend_directions[OF d]
  show "avl (LNode k v b l r)" "stack_avl st (height (LNode k v b l r))" by auto
  from descend_stop[OF d]
  show "key = k \<or> (key < k \<and> l = NullNode) \<or> (k < key \<and> r = NullNode)" .
qed

subsection \<open>Lookup, insertion and removal meet their contract\<close>

lemma long_map_get:
  assumes "long_map_invar m"
  shows "get_long_map_element m key = deref_opt (long_map_abs m key)"
proof (cases "descend key (root m) []")
  case (Pair t st)
  show ?thesis
  proof (cases t)
    case NullNode
    with Pair have "root m = NullNode" by (simp add: descend_Null)
    then show ?thesis by (simp add: get_long_map_element_def long_map_abs_def)
  next
    case (LNode k v b l r)
    note D = descend_invar[OF assms Pair[unfolded LNode]]
    have g: "get_long_map_element m key = (if key = k then v else None)"
      using get_long_map_node_descend[of "root m" key "[]"] Pair LNode
      by (simp add: get_long_map_element_def)
    have "long_map_abs m key = (if key = k then Some v else None)"
      unfolding long_map_abs_def D(1) using D(2-5,8)
      by (auto simp: map_add_def map_of_below map_of_above split: option.split)
    with g show ?thesis by simp
  qed
qed

lemma long_map_set:
  assumes "long_map_invar m"
  shows "\<exists>m'. set_long_map_element m key value = Some (m', deref_opt (long_map_abs m key)) \<and>
    long_map_invar m' \<and> long_map_abs m' = (long_map_abs m)(key \<mapsto> value)"
proof (cases "descend key (root m) []")
  case (Pair t st)
  show ?thesis
  proof (cases t)
    case NullNode
    with Pair have "root m = NullNode" by (simp add: descend_Null)
    then show ?thesis using assms
      by (simp add: set_long_map_element_def long_map_abs_def long_map_invar_def fun_upd_def)
  next
    case (LNode k v b l r)
    note D = descend_invar[OF assms Pair[unfolded LNode]]
    show ?thesis
    proof (cases "key = k")
      case True
      define m' where "m' = m\<lparr>root := plug (LNode k value b l r) st\<rparr>"
      have i: "inorder (root m') = before st @ inorder l @ (k, value) # inorder r @ after st"
        by (simp add: m'_def inorder_plug)
      from D(6,7) have "avl (root m')" by (auto simp: m'_def intro!: avl_plug)
      with assms i D(1) have "long_map_invar m'"
        by (simp add: long_map_invar_def m'_def map_facts)
      moreover have "long_map_abs m' = (long_map_abs m)(key \<mapsto> value)"
        unfolding long_map_abs_def i D(1) using D(2,4) True
        by (auto simp: map_of_append map_add_def map_of_below map_of_above fun_eq_iff
            split: option.split)
      moreover have "long_map_abs m key = Some v"
        unfolding long_map_abs_def D(1) using D(2,4) True
        by (auto simp: map_add_def map_of_below split: option.split)
      ultimately show ?thesis using Pair LNode True
        by (auto simp: set_long_map_element_def m'_def)
    next
      case False
      define f where "f = (if key < k then Frame (-1) k v b r else Frame 1 k v b l)"
      have sa: "stack_avl (f # st) 0" using D(6-8) False by (auto simp: f_def)
      have f_ord: "before (f # st) @ after (f # st) = inorder (root m)"
        and f_lt: "\<forall>a \<in> set (before (f # st)). fst a < key"
        and f_gt: "\<forall>a \<in> set (after (f # st)). key < fst a"
        using D(1-5,8) False by (auto simp: f_def)
      from rebalance_insert_ok[OF sa, of "LNode key value 0 NullNode NullNode"]
      obtain t' where t': "rebalance_insert (LNode key value 0 NullNode NullNode) (f # st) = Some t'"
        "avl t'" "inorder t' = before (f # st) @ (key, value) # after (f # st)" by auto
      define m' where "m' = m\<lparr>root := t', num_elements := num_elements m + 1\<rparr>"
      have "long_map_invar m'"
        using assms t'(2) f_lt f_gt unfolding long_map_invar_def m'_def
        by (simp add: t'(3) map_facts f_ord[symmetric])
      moreover have "long_map_abs m' = (long_map_abs m)(key \<mapsto> value)"
        unfolding long_map_abs_def f_ord[symmetric] map_of_mid_update[OF f_lt, symmetric]
        by (simp add: m'_def t'(3))
      moreover have "long_map_abs m key = None"
        unfolding long_map_abs_def f_ord[symmetric] map_of_append using f_lt f_gt
        by (simp add: map_add_def map_of_below map_of_above)
      moreover have "set_long_map_element m key value = Some (m', None)"
        using Pair LNode False t'(1) unfolding f_def
        by (simp add: set_long_map_element_def m'_def del: rebalance_insert.simps)
      ultimately show ?thesis by simp
    qed
  qed
qed

subsection \<open>Removal\<close>

fun stack_height :: "'v stack_node list \<Rightarrow> nat \<Rightarrow> nat" where
  "stack_height [] h = h"
| "stack_height (f # fs) h = stack_height fs (1 + max h (height (frame_sibling f)))"

lemma stack_height_append [simp]:
  "stack_height (fs @ gs) h = stack_height gs (stack_height fs h)"
  by (induction fs arbitrary: h) auto

lemma stack_avl_append [simp]:
  "stack_avl (fs @ gs) h \<longleftrightarrow> stack_avl fs h \<and> stack_avl gs (stack_height fs h)"
proof (induction fs arbitrary: h)
  case (Cons f fs)
  then show ?case by (cases f) auto
qed simp

lemma find_replacement_ok:
  assumes "avl t" and "t \<noteq> NullNode"
  shows "\<exists>kx vx rx down. find_replacement t fs = Some ((kx, vx, rx), down @ fs) \<and> avl rx \<and>
    before down = [] \<and> inorder t = (kx, vx) # inorder rx @ after down \<and>
    stack_avl down (Suc (height rx)) \<and> stack_height down (Suc (height rx)) = height t"
  using assms
proof (induction t arbitrary: fs)
  case (LNode k v b l r)
  show ?case
  proof (cases "l = NullNode")
    case True
    with LNode.prems show ?thesis by (auto intro!: exI[of _ "[]"])
  next
    case False
    with LNode.prems LNode.IH(1)[of "Frame (-1) k v b r # fs"] obtain kx vx rx down where
      "find_replacement l (Frame (-1) k v b r # fs) = Some ((kx, vx, rx), down @ Frame (-1) k v b r # fs)"
      "avl rx" "before down = []" "inorder l = (kx, vx) # inorder rx @ after down"
      "stack_avl down (Suc (height rx))" "stack_height down (Suc (height rx)) = height l" by auto
    with False LNode.prems show ?thesis
      by (auto intro!: exI[of _ "down @ [Frame (-1) k v b r]"])
  qed
qed simp

lemma unlink_node_ok:
  assumes "avl (LNode k v b l r)" and "stack_avl st (height (LNode k v b l r))"
  shows "\<exists>t stack. unlink_node b l r st = Some (t, stack) \<and> avl t \<and>
    stack_avl stack (Suc (height t)) \<and>
    before stack @ inorder t @ after stack = before st @ inorder l @ inorder r @ after st"
proof (cases r)
  case NullNode
  with assms show ?thesis by (auto simp: unlink_node_def)
next
  case (LNode kr vr br lr rr)
  show ?thesis
  proof (cases "lr = NullNode")
    case True
    with assms LNode show ?thesis by (auto simp: unlink_node_def max.commute)
  next
    case False
    with assms(1) LNode find_replacement_ok[of lr "[Frame (-1) kr vr br rr]"]
    obtain kx vx rx down where
      "find_replacement lr [Frame (-1) kr vr br rr] = Some ((kx, vx, rx), down @ [Frame (-1) kr vr br rr])"
      "avl rx" "before down = []" "inorder lr = (kx, vx) # inorder rx @ after down"
      "stack_avl down (Suc (height rx))" "stack_height down (Suc (height rx)) = height lr" by auto
    with False LNode assms show ?thesis
      by (auto simp: unlink_node_def max.commute)
  qed
qed

lemma long_map_remove:
  assumes "long_map_invar m"
  shows "\<exists>m'. remove_long_map_element m key = Some (m', deref_opt (long_map_abs m key)) \<and>
    long_map_invar m' \<and> long_map_abs m' = (long_map_abs m)(key := None)"
proof (cases "descend key (root m) []")
  case (Pair t st)
  show ?thesis
  proof (cases t)
    case NullNode
    with Pair have "root m = NullNode" by (simp add: descend_Null)
    with assms show ?thesis
      by (simp add: remove_long_map_element_def long_map_abs_def fun_upd_def)
  next
    case (LNode k v b l r)
    note D = descend_invar[OF assms Pair[unfolded LNode]]
    have get: "long_map_abs m key = (if key = k then Some v else None)"
      unfolding long_map_abs_def D(1) using D(2-5,8)
      by (auto simp: map_add_def map_of_below map_of_above split: option.split)
    show ?thesis
    proof (cases "key = k")
      case True
      from unlink_node_ok[OF D(6,7)] obtain t stack where t:
        "unlink_node b l r st = Some (t, stack)" "avl t" "stack_avl stack (Suc (height t))"
        "before stack @ inorder t @ after stack = before st @ inorder l @ inorder r @ after st"
        by blast
      from rebalance_remove_ok[OF t(3,2)] obtain t' where t':
        "rebalance_remove t stack = Some t'" "avl t'"
        "inorder t' = (before st @ inorder l) @ inorder r @ after st" by (auto simp: t(4))
      define m' where "m' = m\<lparr>root := t', num_elements := num_elements m - 1\<rparr>"
      have i: "inorder (root m) = (before st @ inorder l) @ (k, v) # inorder r @ after st"
        by (simp add: D(1))
      have lt: "\<forall>a \<in> set (before st @ inorder l). fst a < k"
        and gt: "\<forall>b \<in> set (inorder r @ after st). k < fst b" using D(2-5) True by auto
      have "long_map_invar m'"
        using assms t'(2) unfolding long_map_invar_def m'_def i
        by (auto simp: t'(3) map_facts)
      moreover have "long_map_abs m' = (long_map_abs m)(key := None)"
        using map_of_mid_remove[OF lt gt] unfolding long_map_abs_def i True
        by (simp add: m'_def t'(3))
      ultimately show ?thesis using Pair LNode True t(1) t'(1) get
        by (simp add: remove_long_map_element_def m'_def)
    next
      case False
      with assms Pair LNode get show ?thesis
        by (auto simp: remove_long_map_element_def fun_upd_def)
    qed
  qed
qed

subsection \<open>The map contract\<close>

lemma dom_long_map_abs: "dom (long_map_abs m) = fst ` set (inorder (root m))"
  by (simp add: long_map_abs_def dom_map_of_conv_image_fst)

lemma long_map_count:
  assumes "long_map_invar m"
  shows "num_elements m = of_nat (card (dom (long_map_abs m)))"
proof -
  from assms have "distinct (map fst (inorder (root m)))"
    by (simp add: long_map_invar_def sorted_keys_distinct)
  then have "card (fst ` set (inorder (root m))) = length (inorder (root m))"
    using distinct_card by fastforce
  with assms show ?thesis by (simp add: dom_long_map_abs long_map_invar_def)
qed

lemma long_map_invar_init: "long_map_invar initialize_long_map"
  and long_map_abs_init: "long_map_abs initialize_long_map = Map.empty"
  by (simp_all add: long_map_invar_def long_map_abs_def initialize_long_map_def)

lemma initialize_long_map_simps [simp]:
  "get_long_map_element initialize_long_map k = None" "num_elements initialize_long_map = 0"
  by (simp_all add: get_long_map_element_def initialize_long_map_def)

interpretation longmap: counted_map "\<lambda>k. k" long_map_invar long_map_abs get_long_map_element
  set_long_map_element remove_long_map_element num_elements
  by unfold_locales (simp_all add: long_map_get long_map_set long_map_remove dom_long_map_abs
      long_map_count)

text \<open>
  A 32-bit address space cannot hold \<open>2 ^ 32 - 1\<close> nodes; the functions that allocate an
  array of \<open>num_elements + 1\<close> cells rely on it.
\<close>

definition long_map_fits :: "'v long_map \<Rightarrow> bool" where
  "long_map_fits m \<longleftrightarrow> length (inorder (root m)) < 2 ^ 32 - 1"

lemma num_elements_unat:
  assumes "long_map_invar m" and "long_map_fits m"
  shows "unat (num_elements m) = length (inorder (root m))"
    and "unat (num_elements m + 1) = Suc (length (inorder (root m)))"
proof -
  have n: "num_elements m = of_nat (length (inorder (root m)))"
    using assms(1) by (simp add: long_map_invar_def)
  have b: "length (inorder (root m)) < 2 ^ LENGTH(32)" "Suc (length (inorder (root m))) < 2 ^ LENGTH(32)"
    using assms(2) by (simp_all add: long_map_fits_def)
  show "unat (num_elements m) = length (inorder (root m))"
    unfolding n using b(1) by (simp add: unat_of_nat)
  have "num_elements m + 1 = of_nat (Suc (length (inorder (root m))))" by (simp add: n)
  then show "unat (num_elements m + 1) = Suc (length (inorder (root m)))"
    using b(2) by (simp add: unat_of_nat del: of_nat_Suc)
qed

subsection \<open>Traversals\<close>

text \<open>Both traversals write one cell per node, in order; \<open>cell\<close> says what is written.\<close>

fun fill_cells :: "(ulong \<Rightarrow> 'v ptr \<Rightarrow> 'c) \<Rightarrow> 'v long_map_node \<Rightarrow> 'c list \<times> nat \<Rightarrow> ('c list \<times> nat) option" where
  "fill_cells cell NullNode (buf, i) = Some (buf, i)"
| "fill_cells cell (LNode k v b l r) (buf, i) = do {
     (buf, i) \<leftarrow> fill_cells cell l (buf, i);
     buf \<leftarrow> buf_write buf i (cell k v);
     fill_cells cell r (buf, i + 1) }"

lemma get_sorted_node_fill:
  "get_sorted_node_keys t bi = fill_cells (\<lambda>k v. Some k) t bi"
  "get_sorted_node_values t bj = fill_cells (\<lambda>k v. Some v) t bj"
  by (induction t arbitrary: bi bj) (auto split: Option.bind_split)

lemma fill_cells_ok:
  "length rest = length (inorder t) \<Longrightarrow>
    fill_cells cell t (front @ rest @ tail, length front) =
      Some (front @ map (case_prod cell) (inorder t) @ tail, length front + length (inorder t))"
proof (induction t arbitrary: front rest tail)
  case (LNode k v b l r)
  define n where "n = length (inorder l)"
  define front2 where "front2 = front @ map (case_prod cell) (inorder l)"
  from LNode.prems have "n < length rest" by (simp add: n_def)
  then have rest: "rest = take n rest @ rest ! n # drop (Suc n) rest" by (rule id_take_nth_drop)
  have len: "length (take n rest) = length (inorder l)" "length (drop (Suc n) rest) = length (inorder r)"
    using LNode.prems by (simp_all add: n_def)
  have l: "fill_cells cell l (front @ rest @ tail, length front) =
      Some (front2 @ rest ! n # drop (Suc n) rest @ tail, length front2)"
    using LNode.IH(1)[OF len(1), of front "rest ! n # drop (Suc n) rest @ tail"]
    by (subst rest) (simp add: front2_def)
  have r: "fill_cells cell r (front2 @ cell k v # drop (Suc n) rest @ tail, Suc (length front2)) =
      Some (front2 @ cell k v # map (case_prod cell) (inorder r) @ tail,
        Suc (length front2) + length (inorder r))"
    using LNode.IH(2)[OF len(2), of "front2 @ [cell k v]" tail] by simp
  show ?case by (simp add: l r) (simp add: front2_def)
qed simp

lemma fill_cells_all:
  assumes "length (inorder t) \<le> n"
  shows "fill_cells cell t (replicate n c, 0) =
    Some (map (case_prod cell) (inorder t) @ replicate (n - length (inorder t)) c, length (inorder t))"
  using fill_cells_ok[of "replicate (length (inorder t)) c" t cell "[]" "replicate (n - length (inorder t)) c"]
    assms by (simp add: replicate_add[symmetric])

lemma sorted_keys_buffer:
  assumes "long_map_invar m" and "long_map_fits m"
  shows "get_sorted_long_map_keys m = Some (map (Some \<circ> fst) (inorder (root m)), num_elements m)"
  using fill_cells_all[of "root m" "unat (num_elements m)" "\<lambda>k v. Some k" None]
  by (simp add: get_sorted_long_map_keys_def get_sorted_node_fill num_elements_unat[OF assms]
      comp_def split_def)

lemma sorted_values_buffer:
  assumes "long_map_invar m" and "long_map_fits m"
  shows "get_sorted_long_map_values m =
    Some (map (Some \<circ> snd) (inorder (root m)) @ [Some None], num_elements m)"
  using fill_cells_all[of "root m" "unat (num_elements m + 1)" "\<lambda>k v. Some v" None]
    buf_write_mid[of "map (Some \<circ> snd) (inorder (root m))" None "[]" "Some None"]
  by (simp add: get_sorted_long_map_values_def get_sorted_node_fill num_elements_unat[OF assms]
      comp_def split_def)

lemma apply_to_every_node_fold:
  "apply_to_every_long_map_node f t s = fold (\<lambda>(k, v). f k v) (inorder t) s"
  by (induction t arbitrary: s) auto

subsection \<open>The ends of the map, and destruction\<close>

lemma smallest_node_hd: "t \<noteq> NullNode \<Longrightarrow> smallest_node t = Some (hd (inorder t))"
  by (induction t) (auto simp: hd_append dest: arg_cong[of _ _ inorder] elim: inorder.elims)

lemma largest_node_last: "t \<noteq> NullNode \<Longrightarrow> largest_node t = Some (last (inorder t))"
  by (induction t) (auto elim: inorder.elims)

lemma remove_smallest_ok:
  assumes "long_map_invar m" and i: "inorder (root m) = (k, v) # rest"
  shows "\<exists>m'. remove_smallest_long_map_element m s = Some (m', v, k) \<and> long_map_invar m' \<and>
    inorder (root m') = rest"
proof -
  from i have "smallest_node (root m) = Some (k, v)" by (subst smallest_node_hd) auto
  then have g: "get_smallest_long_map_element m s = (v, k)"
    by (simp add: get_smallest_long_map_element_def)
  from long_map_remove[OF assms(1), of k] obtain m' where m':
    "remove_long_map_element m k = Some (m', deref_opt (long_map_abs m k))"
    "long_map_invar m'" "long_map_abs m' = (long_map_abs m)(k := None)" by blast
  have srt: "sorted_keys ((k, v) # rest)" "sorted_keys (inorder (root m'))"
    using assms m'(2) by (auto simp: long_map_invar_def)
  then have "map_of rest = (map_of ((k, v) # rest))(k := None)"
    by (auto simp: map_of_above fun_eq_iff)
  then have "inorder (root m') = rest"
    using m'(3) srt by (intro sorted_keys_inject) (auto simp: long_map_abs_def i)
  moreover have "long_map_abs m k = Some v" by (simp add: long_map_abs_def i)
  ultimately show ?thesis using m' g by (simp add: remove_smallest_long_map_element_def)
qed

lemma remove_largest_ok:
  assumes "long_map_invar m" and i: "inorder (root m) = rest @ [(k, v)]"
  shows "\<exists>m'. remove_largest_long_map_element m s = Some (m', v, k) \<and> long_map_invar m' \<and>
    inorder (root m') = rest"
proof -
  from i have "largest_node (root m) = Some (k, v)" by (subst largest_node_last) auto
  then have g: "get_largest_long_map_element m s = (v, k)"
    by (simp add: get_largest_long_map_element_def)
  from long_map_remove[OF assms(1), of k] obtain m' where m':
    "remove_long_map_element m k = Some (m', deref_opt (long_map_abs m k))"
    "long_map_invar m'" "long_map_abs m' = (long_map_abs m)(k := None)" by blast
  have srt: "sorted_keys (rest @ [(k, v)])" "sorted_keys (inorder (root m'))"
    using assms m'(2) by (auto simp: long_map_invar_def)
  have lt: "\<forall>a \<in> set rest. fst a < k" "sorted_keys rest" using srt(1) by (auto simp: map_facts)
  have a: "long_map_abs m = (map_of rest)(k \<mapsto> v)"
    using map_of_mid_update[OF lt(1), of v "[]"] by (simp add: long_map_abs_def i)
  have "(map_of rest)(k := None) = map_of rest"
    using map_of_below[OF lt(1)] by (simp add: fun_upd_idem)
  then have "inorder (root m') = rest"
    using m'(3) srt(2) lt(2) a by (intro sorted_keys_inject) (auto simp: long_map_abs_def)
  then show ?thesis using m' g a by (simp add: remove_largest_long_map_element_def)
qed

lemma num_elements_pos:
  assumes "long_map_invar m" and "long_map_fits m"
  shows "num_elements m > 0 \<longleftrightarrow> inorder (root m) \<noteq> []"
  using num_elements_unat(1)[OF assms]
  by (auto simp: word_greater_zero_iff unat_eq_zero)

lemma destroy_loop_return:
  assumes "long_map_invar m" and "long_map_fits m" and "length rest = length (inorder (root m))"
  shows "\<exists>m'. destroy_values_loop DESTROY_MODE_RETURN_VALUES m (front @ rest @ tail) (length front) freed =
    Some (m', front @ map (Some \<circ> snd) (inorder (root m)) @ tail,
      length front + length (inorder (root m)), freed) \<and> inorder (root m') = [] \<and> long_map_invar m'"
  using assms
proof (induction "inorder (root m)" arbitrary: m front rest)
  case Nil
  then show ?case
    by (subst destroy_values_loop.simps) (simp add: num_elements_pos Nil(1)[symmetric])
next
  case (Cons p xs)
  obtain k v where p: "p = (k, v)" by (cases p)
  have "length rest = Suc (length xs)" using Cons.prems(3) by (simp add: Cons.hyps(2)[symmetric])
  then obtain c cs where rest: "rest = c # cs" "length cs = length xs" by (cases rest) auto
  from remove_smallest_ok[OF Cons.prems(1), of k v xs 0] Cons.hyps(2) p obtain m' where m':
    "remove_smallest_long_map_element m 0 = Some (m', v, k)" "long_map_invar m'"
    "inorder (root m') = xs" by auto
  have "long_map_fits m'" using Cons.prems(2) Cons.hyps(2)[symmetric] m'(3)
    by (simp add: long_map_fits_def)
  from Cons.hyps(1)[OF m'(3)[symmetric] m'(2) this, of cs "front @ [Some v]"] m'(3) rest
  obtain m'' where "destroy_values_loop DESTROY_MODE_RETURN_VALUES m' (front @ Some v # cs @ tail)
      (Suc (length front)) freed = Some (m'', front @ Some v # map (Some \<circ> snd) xs @ tail,
      Suc (length front) + length xs, freed)" "inorder (root m'') = []" "long_map_invar m''"
    by auto
  moreover have "num_elements m > 0"
    using num_elements_pos[OF Cons.prems(1,2)] Cons.hyps(2)[symmetric] by simp
  ultimately show ?case using m'(1) rest Cons.hyps(2)[symmetric] p
    by (subst destroy_values_loop.simps) (simp add: destroy_modes)
qed

lemma destroy_loop_other:
  assumes "long_map_invar m" and "long_map_fits m" and "mode \<noteq> DESTROY_MODE_RETURN_VALUES"
  shows "\<exists>m'. destroy_values_loop mode m buf i freed =
    Some (m', buf, i + length (inorder (root m)),
      freed @ (if mode = DESTROY_MODE_FREE_VALUES then map snd (inorder (root m)) else [])) \<and>
    inorder (root m') = [] \<and> long_map_invar m'"
  using assms(1,2)
proof (induction "inorder (root m)" arbitrary: m i freed)
  case Nil
  then show ?case
    by (subst destroy_values_loop.simps) (simp add: num_elements_pos Nil(1)[symmetric])
next
  case (Cons p xs)
  obtain k v where p: "p = (k, v)" by (cases p)
  from remove_smallest_ok[OF Cons.prems(1), of k v xs 0] Cons.hyps(2) p obtain m' where m':
    "remove_smallest_long_map_element m 0 = Some (m', v, k)" "long_map_invar m'"
    "inorder (root m') = xs" by auto
  have "long_map_fits m'" using Cons.prems(2) Cons.hyps(2)[symmetric] m'(3)
    by (simp add: long_map_fits_def)
  from Cons.hyps(1)[OF m'(3)[symmetric] m'(2) this, of "Suc i"
      "if mode = DESTROY_MODE_FREE_VALUES then freed @ [v] else freed"]
  obtain m'' where "destroy_values_loop mode m' buf (Suc i)
      (if mode = DESTROY_MODE_FREE_VALUES then freed @ [v] else freed) =
      Some (m'', buf, Suc i + length xs, freed @ (if mode = DESTROY_MODE_FREE_VALUES
        then v # map snd xs else []))" "inorder (root m'') = []" "long_map_invar m''"
    using m'(3) by (auto split: if_splits)
  moreover have "num_elements m > 0"
    using num_elements_pos[OF Cons.prems(1,2)] Cons.hyps(2)[symmetric] by simp
  ultimately show ?case
    using m'(1) Cons.hyps(2)[symmetric] p assms(3)
    by (subst destroy_values_loop.simps) simp
qed

text \<open>Logarithmic height: a tree of height \<open>h\<close> has at least \<open>2 ^ (h div 2) - 1\<close> nodes.\<close>

lemma avl_height_size: "avl t \<Longrightarrow> 2 ^ (height t div 2) \<le> Suc (length (inorder t))"
proof (induction "height t" arbitrary: t rule: less_induct)
  case less
  show ?case
  proof (cases t)
    case (LNode k v b l r)
    with less.prems have a: "avl l" "avl r" "height t \<le> 2 + height l" "height t \<le> 2 + height r"
      by (auto simp: max_def)
    have "2 ^ ((height t - 2) div 2) \<le> (2::nat) ^ (height l div 2)"
      "2 ^ ((height t - 2) div 2) \<le> (2::nat) ^ (height r div 2)"
      using a by (auto intro!: power_increasing div_le_mono)
    moreover have "2 ^ (height l div 2) \<le> Suc (length (inorder l))"
      "2 ^ (height r div 2) \<le> Suc (length (inorder r))"
      using less.hyps[of l] less.hyps[of r] a LNode by auto
    ultimately have b: "2 * 2 ^ ((height t - 2) div 2) \<le> Suc (length (inorder t))"
      unfolding LNode inorder.simps length_append list.size(4) by linarith
    show ?thesis
    proof (cases "height t \<ge> 2")
      case True
      then have "height t div 2 = Suc ((height t - 2) div 2)" by presburger
      with b show ?thesis by simp
    next
      case False
      then have "height t div 2 = 0" by presburger
      then show ?thesis by simp
    qed
  qed simp
qed

definition destroyed_of :: "int \<Rightarrow> 'v ptr list \<Rightarrow> 'v destroyed" where
  "destroyed_of mode vs =
    \<lparr>returned = (if mode = DESTROY_MODE_RETURN_VALUES then Some (map Some vs @ [Some None]) else None),
     num_destroyed = length vs,
     freed_values = (if mode = DESTROY_MODE_FREE_VALUES then vs else [])\<rparr>"

lemma destroy_values_ok:
  fixes m :: "'v long_map"
  assumes "long_map_invar m" and "long_map_fits m"
  shows "\<exists>m'. destroy_long_map_values m mode = Some (m', destroyed_of mode (map snd (inorder (root m)))) \<and>
    inorder (root m') = []"
proof (cases "mode = DESTROY_MODE_RETURN_VALUES")
  case True
  have "buf_write (replicate (unat (num_elements m + 1)) (None :: 'v ptr option))
      (unat (num_elements m)) (Some None) = Some (replicate (length (inorder (root m))) None @ [Some None])"
    using buf_write_mid[of "replicate (length (inorder (root m))) None" None "[]" "Some None"]
    by (simp add: num_elements_unat[OF assms] replicate_append_same)
  moreover from destroy_loop_return[OF assms, of "replicate (length (inorder (root m))) None" "[]" "[Some None]" "[]"]
  obtain m' where "destroy_values_loop mode m (replicate (length (inorder (root m))) None @ [Some None]) 0 [] =
      Some (m', map (Some \<circ> snd) (inorder (root m)) @ [Some None], length (inorder (root m)), [])"
    "inorder (root m') = []" using True by auto
  ultimately show ?thesis using True
    by (simp add: destroy_long_map_values_def destroyed_of_def num_elements_unat[OF assms] destroy_modes)
next
  case False
  with destroy_loop_other[OF assms False, of "[]" 0 "[]"] show ?thesis
    by (auto simp: destroy_long_map_values_def destroyed_of_def num_elements_unat[OF assms])
qed

lemma destroy_long_map_via:
  "destroy_long_map m mode = map_option snd (destroy_long_map_values m mode)"
  by (auto simp: destroy_long_map_def destroy_long_map_values_def map_option_case
      split: Option.bind_splits option.splits)

subsection \<open>Properties\<close>

text \<open>C1: Any sequence of \<open>set_long_map_element\<close> and \<open>remove_long_map_element\<close> calls that
  starts from \<open>initialize_long_map\<close> runs to its end without a read through \<open>NULL\<close> (every
  rotation finds the nodes it needs), and afterwards every lookup returns what the finite map
  obtained by the same updates holds, with \<open>num_elements\<close> its size.\<close>

theorem long_map_ops_refine:
  "\<exists>m. run_ops set_long_map_element remove_long_map_element initialize_long_map ops = Some m \<and>
    (\<forall>key. get_long_map_element m key = deref_opt (spec_ops (\<lambda>k. k) Map.empty ops key)) \<and>
    num_elements m = of_nat (card (dom (spec_ops (\<lambda>k. k) Map.empty ops)))"
  using longmap.run_ops_refine[OF long_map_invar_init, of ops]
  by (auto simp: long_map_get long_map_count long_map_abs_init)

text \<open>C10: After any such sequence the tree is balanced in the sense of the \<open>balance\<close> fields
  (each is the height difference of its node's subtrees, between -1 and 1), its keys are in strict
  order, and its height is at most logarithmic in the number of elements.\<close>

theorem long_map_balanced:
  "\<exists>m. run_ops set_long_map_element remove_long_map_element initialize_long_map ops = Some m \<and>
    avl (root m) \<and> sorted_keys (inorder (root m)) \<and>
    2 ^ (height (root m) div 2) \<le> Suc (length (inorder (root m)))"
  using longmap.run_ops_refine[OF long_map_invar_init, of ops]
  by (auto simp: long_map_invar_def intro: avl_height_size)

text \<open>On a map that satisfies the invariant, \<open>set_long_map_element\<close> returns the value it
  replaces (\<open>NULL\<close> if there was none), makes the key map to the new value, leaves every other
  lookup alone, and counts one element more exactly when the key is new.\<close>

theorem set_long_map_element_correct:
  assumes "long_map_invar m"
  shows "\<exists>m'. set_long_map_element m key value = Some (m', get_long_map_element m key) \<and>
    long_map_invar m' \<and>
    (\<forall>k. get_long_map_element m' k = (if k = key then value else get_long_map_element m k)) \<and>
    num_elements m' = num_elements m + (if key \<in> dom (long_map_abs m) then 0 else 1)"
proof -
  from long_map_set[OF assms, of key "value"] obtain m' where m':
    "set_long_map_element m key value = Some (m', deref_opt (long_map_abs m key))"
    "long_map_invar m'" by blast
  with longmap.get_put[OF assms m'(1)] longmap.count_put[OF assms m'(1)] show ?thesis
    by (auto simp: long_map_get[OF assms] domIff)
qed

theorem set_long_map_element_correct_witness:
  "\<exists>m'. set_long_map_element (initialize_long_map :: nat long_map) 7 (Some 70) = Some (m', None) \<and>
    get_long_map_element m' 7 = Some 70 \<and> num_elements m' = 1"
proof -
  have "long_map_invar (initialize_long_map :: nat long_map)" by (rule long_map_invar_init)
  from set_long_map_element_correct[OF this, of 7 "Some 70"] show ?thesis
    by (auto simp: long_map_abs_init)
qed

text \<open>\<open>get_sorted_long_map_keys\<close> and \<open>get_sorted_long_map_values\<close> write exactly inside
  their allocations and fill every cell: the keys in strictly ascending order, the values in the
  order of their keys with a terminating \<open>NULL\<close>.\<close>

theorem get_sorted_long_map_correct:
  assumes "long_map_invar m" and "long_map_fits m"
  shows "\<exists>ks vs. get_sorted_long_map_keys m = Some (map Some ks, num_elements m) \<and>
    get_sorted_long_map_values m = Some (map Some vs @ [Some None], num_elements m) \<and>
    sorted_wrt (<) ks \<and> length vs = length ks \<and> long_map_abs m = map_of (zip ks vs) \<and>
    set ks = dom (long_map_abs m)"
  using assms(1) sorted_keys_buffer[OF assms] sorted_values_buffer[OF assms]
  by (intro exI[of _ "map fst (inorder (root m))"] exI[of _ "map snd (inorder (root m))"])
    (auto simp: long_map_abs_def zip_map_fst_snd sorted_keys_def long_map_invar_def
      dom_map_of_conv_image_fst)

definition sample_long_map :: "nat long_map" where
  "sample_long_map = \<lparr>root = LNode 5 (Some 50) 0 (LNode 2 (Some 20) 0 NullNode NullNode)
     (LNode 9 (Some 90) 0 NullNode NullNode), num_elements = 3\<rparr>"

lemma sample_long_map_ok: "long_map_invar sample_long_map" "long_map_fits sample_long_map"
  by (simp_all add: sample_long_map_def long_map_invar_def long_map_fits_def)

theorem get_sorted_long_map_correct_witness:
  "\<exists>ks. get_sorted_long_map_keys sample_long_map = Some (map Some ks, 3) \<and> sorted_wrt (<) ks \<and>
    set ks = {2, 5, 9}"
  using get_sorted_long_map_correct[OF sample_long_map_ok]
  by (auto simp: sample_long_map_def dom_long_map_abs insert_commute)

text \<open>C28: \<open>destroy_long_map\<close> stops after \<open>num_elements\<close> removals and disposes of every
  value exactly once, in the order of the keys: returned in a \<open>NULL\<close>-terminated array, freed, or
  ignored, as the mode says; no write leaves the array.\<close>

theorem destroy_long_map_correct:
  assumes "long_map_invar m" and "long_map_fits m"
  shows "destroy_long_map m mode = Some (destroyed_of mode (map snd (inorder (root m))))"
  using destroy_values_ok[OF assms, of mode] by (auto simp: destroy_long_map_via)

theorem destroy_long_map_correct_witness:
  "destroy_long_map sample_long_map DESTROY_MODE_RETURN_VALUES = Some
    \<lparr>returned = Some [Some (Some 20), Some (Some 50), Some (Some 90), Some None],
     num_destroyed = 3, freed_values = []\<rparr>"
  using destroy_long_map_correct[OF sample_long_map_ok, of DESTROY_MODE_RETURN_VALUES]
  by (simp add: sample_long_map_def destroy_modes destroyed_of_def)

end
