(* ===== verification/StringMap.thy ===== *)
theory StringMap
  imports LongMap
begin

unbundle bit_operations_syntax

text \<open>
  The string map of \<open>package/libericstools/src/tree_map.c\<close>: a \<open>long_map\<close> indexed by a
  32-bit hash of the key. With \<open>store_keys\<close> the tree holds pointers to
  \<open>string_map_key_value\<close> records, otherwise the client's pointers. A \<open>char*\<close> is the list of
  its characters without the terminating NUL.
\<close>

subsection \<open>The hash\<close>

text \<open>\<open>nextch = key[index]\<close> converts a signed \<open>char\<close> to \<open>unsigned int\<close>.\<close>

definition nextch :: "char \<Rightarrow> ulong" where
  "nextch c = signed_take_bit 7 (of_char c)"

fun sdbm_loop :: "string \<Rightarrow> ulong \<Rightarrow> ulong" where
  "sdbm_loop [] hashed_key = hashed_key"
| "sdbm_loop (c # cs) hashed_key =
     sdbm_loop cs (nextch c + push_bit 6 hashed_key + push_bit 16 hashed_key - hashed_key)"

definition sdbm_string_hash :: "string \<Rightarrow> ulong" where
  "sdbm_string_hash key = sdbm_loop key 0"

subsection \<open>Data\<close>

datatype 'v sm_cell = KeyValue (kv_key: string) (kv_value: "'v ptr") | Plain 'v

record 'v string_map =
  lm :: "'v sm_cell long_map"
  store_keys :: bool
  sm_num_elements :: ulong

text \<open>
  Reading a \<open>void*\<close> of the tree as a \<open>string_map_key_value*\<close>, or as the client's pointer:
  the other kind of record is not there to be read.
\<close>

fun as_key_value :: "'v sm_cell ptr \<Rightarrow> (string \<times> 'v ptr) option" where
  "as_key_value (Some (KeyValue k v)) = Some (k, v)"
| "as_key_value _ = None"

fun as_client_value :: "'v sm_cell ptr \<Rightarrow> 'v ptr option" where
  "as_client_value None = Some None"
| "as_client_value (Some (Plain v)) = Some (Some v)"
| "as_client_value (Some (KeyValue k v)) = None"

subsection \<open>Operations\<close>

definition initialize_string_map :: "bool \<Rightarrow> 'v string_map" where
  "initialize_string_map sk =
     \<lparr>lm = \<lparr>root = NullNode, num_elements = 0\<rparr>, store_keys = sk, sm_num_elements = 0\<rparr>"

text \<open>\<open>return_value\<close> as every operation reads it from the pointer the tree returned.\<close>

definition read_return_value :: "bool \<Rightarrow> 'v sm_cell ptr \<Rightarrow> 'v ptr option" where
  "read_return_value sk return_value =
     (if return_value \<noteq> None \<and> sk then map_option snd (as_key_value return_value)
      else as_client_value return_value)"

definition get_string_map_element :: "'v string_map \<Rightarrow> string \<Rightarrow> ('v string_map \<times> 'v ptr) option" where
  "get_string_map_element m key = do {
     let hashed_key = sdbm_string_hash key;
     return_value \<leftarrow> read_return_value (store_keys m) (get_long_map_element (lm m) hashed_key);
     Some (m\<lparr>sm_num_elements := num_elements (lm m)\<rparr>, return_value) }"

definition set_string_map_element :: "'v string_map \<Rightarrow> string \<Rightarrow> 'v ptr
    \<Rightarrow> ('v string_map \<times> 'v ptr) option" where
  "set_string_map_element m key value = do {
     let hashed_key = sdbm_string_hash key;
     (l, old) \<leftarrow> set_long_map_element (lm m) hashed_key
       (if store_keys m then Some (KeyValue key value) else map_option Plain value);
     return_value \<leftarrow> read_return_value (store_keys m) old;
     Some (m\<lparr>lm := l, sm_num_elements := num_elements l\<rparr>, return_value) }"

definition remove_string_map_element :: "'v string_map \<Rightarrow> string
    \<Rightarrow> ('v string_map \<times> 'v ptr) option" where
  "remove_string_map_element m key = do {
     let hashed_key = sdbm_string_hash key;
     (l, old) \<leftarrow> remove_long_map_element (lm m) hashed_key;
     return_value \<leftarrow> read_return_value (store_keys m) old;
     Some (m\<lparr>lm := l, sm_num_elements := num_elements l\<rparr>, return_value) }"

text \<open>
  The key array: \<open>num_elements + 1\<close> cells, the first \<open>NULL\<close>; each round copies one key
  and counts it in \<open>*num_keys_returned\<close>.
\<close>

fun copy_keys_loop :: "'v sm_cell ptr option list \<Rightarrow> nat \<Rightarrow> string ptr option list \<Rightarrow> nat
    \<Rightarrow> string ptr option list option" where
  "copy_keys_loop long_values 0 str_keys key_index = Some str_keys"
| "copy_keys_loop long_values (Suc left) str_keys key_index = do {
     v \<leftarrow> (if key_index < length long_values then long_values ! key_index else None);
     (k, _) \<leftarrow> as_key_value v;
     str_keys \<leftarrow> buf_write str_keys key_index (Some (Some k));
     copy_keys_loop long_values left str_keys (key_index + 1) }"

definition get_string_map_keys :: "'v string_map \<Rightarrow> (string ptr option list \<times> nat) option" where
  "get_string_map_keys m = do {
     str_keys \<leftarrow> buf_write (replicate (unat (sm_num_elements m + 1)) None) 0 (Some None);
     if store_keys m \<and> sm_num_elements m > 0
     then do {
       (long_values, list_length) \<leftarrow> get_sorted_long_map_values (lm m);
       str_keys \<leftarrow> copy_keys_loop long_values (unat list_length) str_keys 0;
       str_keys \<leftarrow> buf_write str_keys (unat list_length) (Some None);
       Some (str_keys, unat list_length) }
     else Some (str_keys, 0) }"

definition get_string_map_values :: "'v string_map ptr
    \<Rightarrow> (('v sm_cell ptr option list \<times> ulong) ptr) option" where
  "get_string_map_values m =
     (case m of None \<Rightarrow> Some None
      | Some m \<Rightarrow> map_option Some (get_sorted_long_map_values (lm m)))"

text \<open>
  The loop over the \<open>*num_destroyed\<close> records of a map with \<open>store_keys\<close>: it frees each
  record and, by mode, frees the client's value or puts it back into the array.
\<close>

fun destroy_kvs_loop :: "int \<Rightarrow> nat \<Rightarrow> 'v sm_cell ptr option list \<Rightarrow> nat \<Rightarrow> 'v ptr option list
    \<Rightarrow> 'v ptr list \<Rightarrow> ('v ptr option list \<times> 'v ptr list) option" where
  "destroy_kvs_loop mode 0 kvs kv_index out freed = Some (out, freed)"
| "destroy_kvs_loop mode (Suc left) kvs kv_index out freed = do {
     kv \<leftarrow> (if kv_index < length kvs then kvs ! kv_index else None);
     (_, value) \<leftarrow> as_key_value kv;
     out \<leftarrow> (if mode = DESTROY_MODE_RETURN_VALUES
       then buf_write out kv_index (Some value) else Some out);
     destroy_kvs_loop mode left kvs (kv_index + 1) out
       (if mode = DESTROY_MODE_FREE_VALUES then freed @ [value] else freed) }"

definition destroy_string_map :: "'v string_map ptr \<Rightarrow> int \<Rightarrow> 'v destroyed ptr option" where
  "destroy_string_map m mode =
     (case m of None \<Rightarrow> Some None
      | Some m \<Rightarrow>
         if store_keys m
         then do {
           (_, d) \<leftarrow> destroy_long_map_values (lm m) DESTROY_MODE_RETURN_VALUES;
           kvs \<leftarrow> returned d;
           (out, freed) \<leftarrow> destroy_kvs_loop mode (num_destroyed d) kvs 0
             (replicate (num_destroyed d) None @ [Some None]) [];
           Some (Some \<lparr>returned = (if mode = DESTROY_MODE_RETURN_VALUES then Some out else None),
             num_destroyed = num_destroyed d, freed_values = freed\<rparr>) }
         else do {
           (_, d) \<leftarrow> destroy_long_map_values (lm m) mode;
           freed \<leftarrow> those (map as_client_value (freed_values d));
           out \<leftarrow> (case returned d of None \<Rightarrow> Some None
             | Some cells \<Rightarrow> map_option Some (those (map (\<lambda>c. case c of None \<Rightarrow> Some None
                 | Some v \<Rightarrow> map_option Some (as_client_value v)) cells)));
           Some (Some \<lparr>returned = out, num_destroyed = num_destroyed d, freed_values = freed\<rparr>) })"

fun apply_to_every_string_map_node :: "bool \<Rightarrow> (string ptr \<Rightarrow> 'v ptr \<Rightarrow> 's \<Rightarrow> 's)
    \<Rightarrow> 'v sm_cell long_map_node \<Rightarrow> 's \<Rightarrow> 's option" where
  "apply_to_every_string_map_node has_key apply_func NullNode s = Some s"
| "apply_to_every_string_map_node has_key apply_func (LNode h c b l r) s = do {
     s \<leftarrow> apply_to_every_string_map_node has_key apply_func l s;
     s \<leftarrow> (if has_key
       then do { (k, v) \<leftarrow> as_key_value c; Some (apply_func (Some k) v s) }
       else do { v \<leftarrow> as_client_value c; Some (apply_func None v s) });
     apply_to_every_string_map_node has_key apply_func r s }"

definition apply_to_every_string_map_value :: "(string ptr \<Rightarrow> 'v ptr \<Rightarrow> 's \<Rightarrow> 's)
    \<Rightarrow> 'v string_map \<Rightarrow> 's \<Rightarrow> 's option" where
  "apply_to_every_string_map_value apply_func m s =
     apply_to_every_string_map_node (store_keys m) apply_func (root (lm m)) s"

subsection \<open>Invariant and abstraction\<close>

text \<open>Each cell is of the kind that \<open>store_keys\<close> says and sits under the hash of its key.\<close>

definition cell_ok :: "bool \<Rightarrow> ulong \<times> 'v sm_cell ptr \<Rightarrow> bool" where
  "cell_ok sk hc \<longleftrightarrow>
     (case snd hc of
        Some (KeyValue k v) \<Rightarrow> sk \<and> sdbm_string_hash k = fst hc
      | _ \<Rightarrow> \<not> sk)"

definition string_map_invar :: "'v string_map \<Rightarrow> bool" where
  "string_map_invar m \<longleftrightarrow> long_map_invar (lm m) \<and>
     (\<forall>h c. long_map_abs (lm m) h = Some c \<longrightarrow> cell_ok (store_keys m) (h, c)) \<and>
     sm_num_elements m = num_elements (lm m)"

fun cell_value :: "'v sm_cell ptr \<Rightarrow> 'v ptr" where
  "cell_value None = None"
| "cell_value (Some (Plain v)) = Some v"
| "cell_value (Some (KeyValue k v)) = v"

definition string_map_abs :: "'v string_map \<Rightarrow> ulong \<rightharpoonup> 'v ptr" where
  "string_map_abs m h = map_option cell_value (long_map_abs (lm m) h)"

text \<open>Lookup as a function of the map and the key.\<close>

definition string_map_value :: "'v string_map \<Rightarrow> string \<Rightarrow> 'v ptr" where
  "string_map_value m key = (case get_string_map_element m key of None \<Rightarrow> None | Some (_, v) \<Rightarrow> v)"

lemma string_map_invar_init: "string_map_invar (initialize_string_map sk)"
  and string_map_abs_init: "string_map_abs (initialize_string_map sk) = Map.empty"
  by (auto simp: string_map_invar_def initialize_string_map_def long_map_invar_def
      long_map_abs_def string_map_abs_def)

lemma read_return_ok:
  "cell_ok sk (h, c) \<Longrightarrow> read_return_value sk c = Some (cell_value c)"
  by (auto simp: cell_ok_def read_return_value_def split: option.splits sm_cell.splits
      elim: cell_value.elims)

lemma read_return_abs:
  assumes "string_map_invar m"
  shows "read_return_value (store_keys m) (deref_opt (long_map_abs (lm m) h)) =
    Some (deref_opt (string_map_abs m h))"
proof (cases "long_map_abs (lm m) h")
  case None
  then show ?thesis by (simp add: string_map_abs_def read_return_value_def)
next
  case (Some c)
  with assms have "cell_ok (store_keys m) (h, c)" by (simp add: string_map_invar_def)
  with Some show ?thesis by (simp add: string_map_abs_def read_return_ok)
qed

lemma string_map_get:
  assumes "string_map_invar m"
  shows "get_string_map_element m key = Some (m, deref_opt (string_map_abs m (sdbm_string_hash key)))"
proof -
  from assms have "long_map_invar (lm m)" "m\<lparr>sm_num_elements := num_elements (lm m)\<rparr> = m"
    by (simp_all add: string_map_invar_def)
  then show ?thesis
    by (simp add: get_string_map_element_def long_map_get read_return_abs[OF assms])
qed

lemma string_map_set:
  assumes "string_map_invar m"
  shows "\<exists>m'. set_string_map_element m key value =
      Some (m', deref_opt (string_map_abs m (sdbm_string_hash key))) \<and> string_map_invar m' \<and>
    string_map_abs m' = (string_map_abs m)(sdbm_string_hash key \<mapsto> value)"
proof -
  define cell where "cell = (if store_keys m then Some (KeyValue key value) else map_option Plain value)"
  have ok: "cell_ok (store_keys m) (sdbm_string_hash key, cell)" "cell_value cell = value"
    by (auto simp: cell_def cell_ok_def map_option_case split: option.split)
  from assms have "long_map_invar (lm m)" by (simp add: string_map_invar_def)
  from long_map_set[OF this, of "sdbm_string_hash key" cell] obtain l where l:
    "set_long_map_element (lm m) (sdbm_string_hash key) cell =
      Some (l, deref_opt (long_map_abs (lm m) (sdbm_string_hash key)))"
    "long_map_invar l" "long_map_abs l = (long_map_abs (lm m))(sdbm_string_hash key \<mapsto> cell)"
    by blast
  have "string_map_invar (m\<lparr>lm := l, sm_num_elements := num_elements l\<rparr>)"
    using assms l(2,3) ok(1) by (auto simp: string_map_invar_def)
  moreover have "string_map_abs (m\<lparr>lm := l, sm_num_elements := num_elements l\<rparr>) =
      (string_map_abs m)(sdbm_string_hash key \<mapsto> value)"
    using l(3) ok(2) by (auto simp: string_map_abs_def)
  ultimately show ?thesis using l(1)
    by (simp add: set_string_map_element_def read_return_abs[OF assms] cell_def)
qed

lemma string_map_remove:
  assumes "string_map_invar m"
  shows "\<exists>m'. remove_string_map_element m key =
      Some (m', deref_opt (string_map_abs m (sdbm_string_hash key))) \<and> string_map_invar m' \<and>
    string_map_abs m' = (string_map_abs m)(sdbm_string_hash key := None)"
proof -
  from assms have "long_map_invar (lm m)" by (simp add: string_map_invar_def)
  from long_map_remove[OF this, of "sdbm_string_hash key"] obtain l where l:
    "remove_long_map_element (lm m) (sdbm_string_hash key) =
      Some (l, deref_opt (long_map_abs (lm m) (sdbm_string_hash key)))"
    "long_map_invar l" "long_map_abs l = (long_map_abs (lm m))(sdbm_string_hash key := None)"
    by blast
  have "string_map_invar (m\<lparr>lm := l, sm_num_elements := num_elements l\<rparr>)"
    using assms l(2,3) by (auto simp: string_map_invar_def)
  moreover have "string_map_abs (m\<lparr>lm := l, sm_num_elements := num_elements l\<rparr>) =
      (string_map_abs m)(sdbm_string_hash key := None)"
    using l(3) by (auto simp: string_map_abs_def)
  ultimately show ?thesis using l(1)
    by (simp add: remove_string_map_element_def read_return_abs[OF assms])
qed

lemma dom_string_map_abs: "dom (string_map_abs m) = dom (long_map_abs (lm m))"
  by (auto simp: string_map_abs_def)

interpretation stringmap: counted_map sdbm_string_hash string_map_invar string_map_abs
  string_map_value set_string_map_element remove_string_map_element sm_num_elements
proof unfold_locales
  fix m :: "'v string_map" and k v
  assume m: "string_map_invar m"
  then have l: "long_map_invar (lm m)" "sm_num_elements m = num_elements (lm m)"
    by (auto simp: string_map_invar_def)
  show "string_map_value m k = deref_opt (string_map_abs m (sdbm_string_hash k))"
    using m by (simp add: string_map_value_def string_map_get)
  show "\<exists>m'. set_string_map_element m k v =
      Some (m', deref_opt (string_map_abs m (sdbm_string_hash k))) \<and> string_map_invar m' \<and>
      string_map_abs m' = (string_map_abs m)(sdbm_string_hash k \<mapsto> v)"
    using m by (rule string_map_set)
  show "\<exists>m'. remove_string_map_element m k =
      Some (m', deref_opt (string_map_abs m (sdbm_string_hash k))) \<and> string_map_invar m' \<and>
      string_map_abs m' = (string_map_abs m)(sdbm_string_hash k := None)"
    using m by (rule string_map_remove)
  show "finite (dom (string_map_abs m))"
    by (simp add: dom_string_map_abs dom_long_map_abs)
  show "sm_num_elements m = of_nat (card (dom (string_map_abs m)))"
    using l by (simp add: dom_string_map_abs long_map_count)
qed

subsection \<open>The hash as a polynomial\<close>

lemma sdbm_loop_append: "sdbm_loop (s @ t) h = sdbm_loop t (sdbm_loop s h)"
  by (induction s arbitrary: h) auto

lemma sdbm_step: "nextch c + push_bit 6 h + push_bit 16 h - h = nextch c + 65599 * h"
proof -
  have "push_bit 6 h = 64 * h" "push_bit 16 h = 65536 * h"
    by (simp_all add: push_bit_eq_mult)
  then show ?thesis by (simp add: algebra_simps)
qed

lemma sdbm_snoc: "sdbm_string_hash (s @ [c]) = nextch c + 65599 * sdbm_string_hash s"
  by (simp add: sdbm_string_hash_def sdbm_loop_append sdbm_step)

lemma sdbm_polynomial_rev:
  "sdbm_string_hash s = (\<Sum>i<length s. nextch (rev s ! i) * 65599 ^ i)"
proof (induction s rule: rev_induct)
  case (snoc c s)
  then show ?case
    by (simp add: sdbm_snoc sum.lessThan_Suc_shift sum_distrib_left mult.left_commute del: sum.lessThan_Suc)
qed (simp add: sdbm_string_hash_def)

subsection \<open>Maps keyed by strings\<close>

text \<open>
  Among keys whose hashes differ, the map keyed by hashes is the map keyed by strings.
\<close>

fun op_key :: "('k, 'v) map_op \<Rightarrow> 'k" where
  "op_key (SetOp k v) = k"
| "op_key (RemoveOp k) = k"

lemma spec_ops_inj:
  assumes "inj_on h K" and "op_key ` set ops \<subseteq> K" and "k \<in> K"
    and "\<forall>k \<in> K. a (h k) = a' k"
  shows "spec_ops h a ops (h k) = spec_ops (\<lambda>k. k) a' ops k"
  using assms(2,4)
proof (induction ops arbitrary: a a')
  case Nil
  then show ?case using assms(3) by simp
next
  case (Cons op ops)
  obtain x y where sp: "spec_ops h a (op # ops) = spec_ops h (a(h x := y)) ops"
    "spec_ops (\<lambda>k. k) a' (op # ops) = spec_ops (\<lambda>k. k) (a'(x := y)) ops" "op_key op = x"
    by (cases op) auto
  with Cons.prems have "x \<in> K" by auto
  then have 2: "\<forall>k \<in> K. (a(h x := y)) (h k) = (a'(x := y)) k"
    using Cons.prems(2) assms(1) by (auto simp: inj_on_eq_iff)
  from Cons.prems(1) have 1: "op_key ` set ops \<subseteq> K" by simp
  show ?case unfolding sp(1,2) by (rule Cons.IH[OF 1 2])
qed

subsection \<open>Key arrays and destruction\<close>

definition stored_keys :: "'v string_map \<Rightarrow> string list" where
  "stored_keys m = map (\<lambda>(h, c). fst (the (as_key_value c))) (inorder (root (lm m)))"

definition stored_values :: "'v string_map \<Rightarrow> 'v ptr list" where
  "stored_values m = map (\<lambda>(h, c). cell_value c) (inorder (root (lm m)))"

lemma cells_ok:
  assumes "string_map_invar m"
  shows "\<forall>hc \<in> set (inorder (root (lm m))). cell_ok (store_keys m) hc"
proof
  fix hc assume hc: "hc \<in> set (inorder (root (lm m)))"
  have "distinct (map fst (inorder (root (lm m))))"
    using assms by (simp add: string_map_invar_def long_map_invar_def sorted_keys_distinct)
  then have "long_map_abs (lm m) (fst hc) = Some (snd hc)"
    using hc by (simp add: long_map_abs_def)
  with assms show "cell_ok (store_keys m) hc"
    unfolding string_map_invar_def by (metis prod.collapse)
qed

lemma kv_cell:
  "cell_ok True (h, c) \<Longrightarrow> \<exists>k v. c = Some (KeyValue k v) \<and> sdbm_string_hash k = h"
  by (auto simp: cell_ok_def split: option.splits sm_cell.splits)

lemma copy_keys_ok:
  "\<forall>c \<in> set cells. \<exists>k v. c = Some (KeyValue k v) \<Longrightarrow> length rest = length cells \<Longrightarrow>
    length front = length lv \<Longrightarrow>
    copy_keys_loop (lv @ map Some cells @ lv') (length cells) (front @ rest @ tail) (length front) =
      Some (front @ map (\<lambda>c. Some (Some (fst (the (as_key_value c))))) cells @ tail)"
proof (induction cells arbitrary: rest front lv)
  case (Cons c cells)
  then obtain k v x xs where c: "c = Some (KeyValue k v)" and rest: "rest = x # xs"
    by (cases rest) auto
  from Cons.prems rest
  have "copy_keys_loop ((lv @ [Some c]) @ map Some cells @ lv') (length cells)
      ((front @ [Some (Some k)]) @ xs @ tail) (length (front @ [Some (Some k)])) =
    Some ((front @ [Some (Some k)]) @ map (\<lambda>c. Some (Some (fst (the (as_key_value c))))) cells @ tail)"
    by (intro Cons.IH) auto
  with Cons.prems c rest show ?case by (simp add: nth_append)
qed simp

lemma destroy_kvs_ok:
  "\<forall>c \<in> set cells. \<exists>k v. c = Some (KeyValue k v) \<Longrightarrow> length rest = length cells \<Longrightarrow>
    length front = length lv \<Longrightarrow>
    destroy_kvs_loop mode (length cells) (lv @ map Some cells @ lv') (length front)
        (front @ rest @ tail) freed =
      Some (if mode = DESTROY_MODE_RETURN_VALUES
          then front @ map (Some \<circ> cell_value) cells @ tail else front @ rest @ tail,
        if mode = DESTROY_MODE_FREE_VALUES then freed @ map cell_value cells else freed)"
proof (induction cells arbitrary: rest front lv freed)
  case (Cons c cells)
  then obtain k v x xs where c: "c = Some (KeyValue k v)" and rest: "rest = x # xs"
    by (cases rest) auto
  define y where "y = (if mode = DESTROY_MODE_RETURN_VALUES then Some v else x)"
  define f where "f = (if mode = DESTROY_MODE_FREE_VALUES then freed @ [v] else freed)"
  from Cons.prems rest
  have "destroy_kvs_loop mode (length cells) ((lv @ [Some c]) @ map Some cells @ lv')
      (length (front @ [y])) ((front @ [y]) @ xs @ tail) f =
    Some (if mode = DESTROY_MODE_RETURN_VALUES
          then (front @ [y]) @ map (Some \<circ> cell_value) cells @ tail else (front @ [y]) @ xs @ tail,
        if mode = DESTROY_MODE_FREE_VALUES then f @ map cell_value cells else f)"
    by (intro Cons.IH) auto
  with Cons.prems c rest show ?case by (auto simp: nth_append y_def f_def)
qed simp

lemma those_client_values:
  "\<forall>c \<in> set cells. \<forall>k v. c \<noteq> Some (KeyValue k v) \<Longrightarrow>
    those (map as_client_value cells) = Some (map cell_value cells)"
proof (induction cells)
  case (Cons c cells)
  then show ?case by (cases c rule: cell_value.cases) auto
qed simp

lemma those_client_buffer:
  "\<forall>c \<in> set cells. \<forall>k v. c \<noteq> Some (KeyValue k v) \<Longrightarrow>
    those (map (\<lambda>c. case c of None \<Rightarrow> Some None | Some v \<Rightarrow> map_option Some (as_client_value v))
      (map Some cells @ [Some None])) = Some (map (Some \<circ> cell_value) cells @ [Some None])"
proof (induction cells)
  case (Cons c cells)
  then show ?case by (cases c rule: cell_value.cases) auto
qed simp

lemma stored_keys_hash:
  "string_map_invar m \<Longrightarrow> store_keys m \<Longrightarrow>
    map sdbm_string_hash (stored_keys m) = map fst (inorder (root (lm m)))"
  using cells_ok[of m] by (auto simp: stored_keys_def dest!: bspec dest: kv_cell)

lemma string_map_keys_ok:
  fixes m :: "'v string_map"
  assumes "string_map_invar m" and "store_keys m" and fits: "long_map_fits (lm m)"
  shows "get_string_map_keys m = Some (map (Some \<circ> Some) (stored_keys m) @ [Some None], length (stored_keys m))"
proof -
  define cells where "cells = map snd (inorder (root (lm m)))"
  define n where "n = length cells"
  have inv: "long_map_invar (lm m)" "sm_num_elements m = num_elements (lm m)"
    using assms(1) by (simp_all add: string_map_invar_def)
  note size = num_elements_unat[OF inv(1) fits]
  have kvs: "\<forall>c \<in> set cells. \<exists>k v. c = Some (KeyValue k v)"
    using cells_ok[OF assms(1)] assms(2) kv_cell by (fastforce simp: cells_def)
  have keys: "map (\<lambda>c. Some (Some (fst (the (as_key_value c))))) cells = map (Some \<circ> Some) (stored_keys m)"
    by (simp add: cells_def stored_keys_def split_def)
  show ?thesis
  proof (cases "n = 0")
    case True
    then have "num_elements (lm m) = 0" "stored_keys m = []" "inorder (root (lm m)) = []"
      using num_elements_pos[OF inv(1) fits] size
      by (simp_all add: n_def cells_def stored_keys_def word_greater_zero_iff)
    then show ?thesis by (simp add: get_string_map_keys_def inv buf_write_def)
  next
    case False
    then have "sm_num_elements m > 0"
      using num_elements_pos[OF inv(1) fits] inv(2) by (auto simp: n_def cells_def)
    moreover have "copy_keys_loop (map Some cells @ [Some None]) n (Some None # replicate n None) 0 =
        Some (map (Some \<circ> Some) (stored_keys m) @ [None])"
    proof -
      obtain k where k: "n = Suc k" using False by (cases n) auto
      have "length (Some None # replicate k None) = length cells" using k by (simp add: n_def)
      from copy_keys_ok[OF kvs this, of "[]" "[]" "[Some None]" "[None]"] show ?thesis
        by (simp add: keys flip: n_def) (simp add: k replicate_append_same)
    qed
    moreover have "get_sorted_long_map_values (lm m) = Some (map Some cells @ [Some None], num_elements (lm m))"
      using sorted_values_buffer[OF inv(1) fits] by (simp add: cells_def)
    moreover have "buf_write (map (Some \<circ> Some) (stored_keys m) @ [None]) n (Some None) =
        Some (map (Some \<circ> Some) (stored_keys m) @ [Some None])"
      by (rule buf_write_at) (simp add: n_def cells_def stored_keys_def)
    moreover have "unat (num_elements (lm m)) = n" "unat (num_elements (lm m) + 1) = Suc n"
      "length (stored_keys m) = n"
      using size by (simp_all add: n_def cells_def stored_keys_def)
    ultimately show ?thesis using assms(2) inv(2)
      by (simp add: get_string_map_keys_def buf_write_def[of "_ # _" 0])
  qed
qed

lemma string_map_destroy_ok:
  assumes "string_map_invar m" and fits: "long_map_fits (lm m)"
  shows "destroy_string_map (Some m) mode = Some (Some (destroyed_of mode (stored_values m)))"
proof -
  define cells where "cells = map snd (inorder (root (lm m)))"
  have inv: "long_map_invar (lm m)" using assms(1) by (simp add: string_map_invar_def)
  from destroy_values_ok[OF inv fits] obtain l where l:
    "\<And>mode. destroy_long_map_values (lm m) mode = Some (l mode, destroyed_of mode cells)"
    unfolding cells_def by metis
  have vals: "map cell_value cells = stored_values m"
    by (simp add: cells_def stored_values_def split_def)
  show ?thesis
  proof (cases "store_keys m")
    case True
    have kvs: "\<forall>c \<in> set cells. \<exists>k v. c = Some (KeyValue k v)"
      using cells_ok[OF assms(1)] True kv_cell by (fastforce simp: cells_def)
    show ?thesis
      using destroy_kvs_ok[OF kvs, of "replicate (length cells) None" "[]" "[]" mode "[Some None]" "[Some None]" "[]"]
        True l vals arg_cong[OF vals, of length]
      by (simp add: destroy_string_map_def destroyed_of_def comp_def flip: vals)
  next
    case False
    have pl: "\<forall>c \<in> set cells. \<forall>k v. c \<noteq> Some (KeyValue k v)"
      using cells_ok[OF assms(1)] False by (fastforce simp: cells_def cell_ok_def)
    show ?thesis
      using those_client_values[OF pl] those_client_buffer[OF pl] False l arg_cong[OF vals, of length]
      by (simp add: destroy_string_map_def destroyed_of_def comp_def flip: vals)
  qed
qed

subsection \<open>Properties\<close>

text \<open>C11: Whatever sequence of \<open>set_string_map_element\<close> and \<open>remove_string_map_element\<close>
  calls is run on a fresh map, in either \<open>store_keys\<close> mode, no step goes wrong and the map
  behaves as a finite map from hashes to client values; \<open>num_elements\<close> of the string map
  tracks that of the tree.\<close>

theorem string_map_ops_refine:
  "\<exists>m. run_ops set_string_map_element remove_string_map_element (initialize_string_map sk) ops = Some m \<and>
    (\<forall>key. get_string_map_element m key =
      Some (m, deref_opt (spec_ops sdbm_string_hash Map.empty ops (sdbm_string_hash key)))) \<and>
    sm_num_elements m = of_nat (card (dom (spec_ops sdbm_string_hash Map.empty ops)))"
  using stringmap.run_ops_refine[OF string_map_invar_init[of sk], of ops]
  by (auto simp: string_map_get stringmap.count_law string_map_abs_init)

text \<open>As long as no two of the keys in use share a hash, the string map is the finite map
  keyed by the strings themselves.\<close>

theorem string_map_keyed_by_string:
  assumes "inj_on sdbm_string_hash K" and "op_key ` set ops \<subseteq> K" and "key \<in> K"
  shows "\<exists>m. run_ops set_string_map_element remove_string_map_element (initialize_string_map sk) ops = Some m \<and>
    get_string_map_element m key = Some (m, deref_opt (spec_ops (\<lambda>k. k) Map.empty ops key))"
  using stringmap.run_ops_refine[OF string_map_invar_init[of sk], of ops]
    spec_ops_inj[OF assms, of Map.empty Map.empty]
  by (auto simp: string_map_get string_map_abs_init)

theorem string_map_keyed_by_string_witness:
  "\<exists>m. run_ops set_string_map_element remove_string_map_element (initialize_string_map True)
      [SetOp ''eth0'' (Some 1), SetOp ''eth1'' (Some (2::nat)), RemoveOp ''eth0''] = Some m \<and>
    get_string_map_element m ''eth1'' = Some (m, Some 2)"
proof -
  have "inj_on sdbm_string_hash {''eth0'', ''eth1''}"
    by (simp add: sdbm_string_hash_def nextch_def)
  from string_map_keyed_by_string[OF this,
      of "[SetOp ''eth0'' (Some 1), SetOp ''eth1'' (Some (2::nat)), RemoveOp ''eth0'']" "''eth1''" True]
  show ?thesis by simp
qed

text \<open>C29: The hash is the polynomial with base 65599 over the (sign-extended) characters, modulo
  \<open>2 ^ 32\<close>, the first character having the highest power.\<close>

theorem sdbm_hash_polynomial:
  "sdbm_string_hash s = (\<Sum>i<length s. nextch (rev s ! i) * 65599 ^ i)"
  by (rule sdbm_polynomial_rev)

text \<open>The keys themselves are never compared: two different file-name-like keys with the same
  32-bit hash share one entry. Storing under the second returns and overwrites the value of the
  first, which then reads back the second's value, and the map counts one element.\<close>

lemma string_map_conflates_keys:
  "\<exists>m1 m2. set_string_map_element (initialize_string_map sk) ''zaaaha'' (Some (1::nat)) = Some (m1, None) \<and>
    set_string_map_element m1 ''apbcaq'' (Some 2) = Some (m2, Some 1) \<and>
    get_string_map_element m2 ''zaaaha'' = Some (m2, Some 2) \<and> sm_num_elements m2 = 1"
proof -
  have collide: "sdbm_string_hash ''apbcaq'' = sdbm_string_hash ''zaaaha''" by code_simp
  obtain m1 where m1: "set_string_map_element (initialize_string_map sk) ''zaaaha'' (Some (1::nat)) = Some (m1, None)"
    "string_map_invar m1" "string_map_abs m1 = [sdbm_string_hash ''zaaaha'' \<mapsto> Some 1]"
    using string_map_set[OF string_map_invar_init[of sk], of "''zaaaha''" "Some (1::nat)"]
    by (auto simp: string_map_abs_init)
  obtain m2 where m2: "set_string_map_element m1 ''apbcaq'' (Some 2) = Some (m2, Some 1)"
    "string_map_invar m2" "string_map_abs m2 = [sdbm_string_hash ''zaaaha'' \<mapsto> Some 2]"
    using string_map_set[OF m1(2), of "''apbcaq''" "Some 2"] by (auto simp: m1(3) collide)
  have "get_string_map_element m2 ''zaaaha'' = Some (m2, Some 2)" "sm_num_elements m2 = 1"
    using string_map_get[OF m2(2), of "''zaaaha''"] stringmap.count_law[OF m2(2)]
    by (simp_all add: m2(3))
  with m1(1) m2(1) show ?thesis by blast
qed

text \<open>With \<open>store_keys\<close>, \<open>get_string_map_keys\<close> returns a \<open>NULL\<close>-terminated copy
  of every key stored, once each and in the order of the hashes, inside its allocation, and
  reports their number.\<close>

theorem get_string_map_keys_correct:
  assumes "string_map_invar m" and "store_keys m" and "long_map_fits (lm m)"
  shows "\<exists>ks. get_string_map_keys m = Some (map (Some \<circ> Some) ks @ [Some None], length ks) \<and>
    sorted_wrt (<) (map sdbm_string_hash ks) \<and>
    sdbm_string_hash ` set ks = dom (string_map_abs m) \<and> length ks = unat (sm_num_elements m)"
proof -
  have inv: "long_map_invar (lm m)" "sm_num_elements m = num_elements (lm m)"
    using assms(1) by (simp_all add: string_map_invar_def)
  note h = stored_keys_hash[OF assms(1,2)]
  have "sdbm_string_hash ` set (stored_keys m) = dom (string_map_abs m)"
    using arg_cong[OF h, of set] by (simp add: dom_string_map_abs dom_long_map_abs)
  moreover have "sorted_wrt (<) (map sdbm_string_hash (stored_keys m))"
    using inv(1) by (simp add: h long_map_invar_def sorted_keys_def)
  moreover have "length (stored_keys m) = unat (sm_num_elements m)"
    using num_elements_unat(1)[OF inv(1) assms(3)] inv(2) by (simp add: stored_keys_def)
  ultimately show ?thesis using string_map_keys_ok[OF assms] by blast
qed

definition sample_string_map :: "nat string_map" where
  "sample_string_map =
     \<lparr>lm = \<lparr>root = LNode (sdbm_string_hash ''wan'') (Some (KeyValue ''wan'' (Some 7))) 0 NullNode NullNode,
       num_elements = 1\<rparr>, store_keys = True, sm_num_elements = 1\<rparr>"

lemma sample_string_map_ok: "string_map_invar sample_string_map" "store_keys sample_string_map"
  "long_map_fits (lm sample_string_map)"
  by (auto simp: sample_string_map_def string_map_invar_def long_map_invar_def long_map_abs_def
      long_map_fits_def cell_ok_def)

theorem get_string_map_keys_correct_witness:
  "\<exists>ks. get_string_map_keys sample_string_map = Some (map (Some \<circ> Some) ks @ [Some None], 1) \<and>
    sdbm_string_hash ` set ks = {sdbm_string_hash ''wan''}"
  using get_string_map_keys_correct[OF sample_string_map_ok]
  by (auto simp: dom_string_map_abs dom_long_map_abs) (auto simp: sample_string_map_def)

text \<open>\<open>destroy_string_map\<close> hands back, frees or ignores exactly the client values, in the
  order of the hashes and each once, in both \<open>store_keys\<close> modes; the internal key records are
  never returned.\<close>

theorem destroy_string_map_correct:
  assumes "string_map_invar m" and "long_map_fits (lm m)"
  shows "destroy_string_map (Some m) mode = Some (Some (destroyed_of mode (stored_values m))) \<and>
    length (stored_values m) = unat (sm_num_elements m)"
proof -
  have inv: "long_map_invar (lm m)" "sm_num_elements m = num_elements (lm m)"
    using assms(1) by (simp_all add: string_map_invar_def)
  then show ?thesis using string_map_destroy_ok[OF assms] num_elements_unat(1)[OF inv(1) assms(2)]
    by (simp add: stored_values_def)
qed

theorem destroy_string_map_correct_witness:
  "destroy_string_map (Some sample_string_map) DESTROY_MODE_RETURN_VALUES =
    Some (Some \<lparr>returned = Some [Some (Some 7), Some None], num_destroyed = 1, freed_values = []\<rparr>)"
  using destroy_string_map_correct[OF sample_string_map_ok(1,3), of DESTROY_MODE_RETURN_VALUES]
  by (simp add: destroyed_of_def stored_values_def destroy_modes) (simp add: sample_string_map_def)

end
