(* ===== verification/LinkedList.thy ===== *)
theory LinkedList
  imports LongMap "HOL-Library.Signed_Division"
begin

text \<open>
  The doubly linked list of \<open>package/libericstools/src/list.c\<close> over an explicit store:
  nodes live at addresses, \<open>malloc\<close> takes a fresh one, \<open>free\<close> removes it, and a read or
  write through \<open>NULL\<close> or a freed address is \<open>None\<close>. The relation \<open>list_at\<close> says which
  sequence of nodes the pointers of a list struct describe.
\<close>

subsection \<open>The store\<close>

type_synonym addr = nat

record 'v list_node =
  nxt :: "addr ptr"
  previous :: "addr ptr"
  node_val :: "'v ptr"

record list_struct =
  len :: int
  head :: "addr ptr"
  tail :: "addr ptr"

record 'v store =
  mem :: "addr \<rightharpoonup> 'v list_node"
  brk :: addr

definition empty_store :: "'v store" where
  "empty_store = \<lparr>mem = Map.empty, brk = 0\<rparr>"

text \<open>A write to a field of the node at an address.\<close>

definition update_node :: "'v store \<Rightarrow> addr \<Rightarrow> ('v list_node \<Rightarrow> 'v list_node) \<Rightarrow> 'v store option" where
  "update_node s a f = (case mem s a of None \<Rightarrow> None | Some n \<Rightarrow> Some (s\<lparr>mem := (mem s)(a \<mapsto> f n)\<rparr>))"

text \<open>The same, skipped when the pointer is \<open>NULL\<close>.\<close>

definition update_if :: "'v store \<Rightarrow> addr ptr \<Rightarrow> ('v list_node \<Rightarrow> 'v list_node) \<Rightarrow> 'v store option" where
  "update_if s p f = (case p of None \<Rightarrow> Some s | Some a \<Rightarrow> update_node s a f)"

subsection \<open>Operations on nodes\<close>

definition initialize_list :: list_struct where
  "initialize_list = \<lparr>len = 0, head = None, tail = None\<rparr>"

definition create_list_node :: "'v store \<Rightarrow> 'v ptr \<Rightarrow> 'v store \<times> addr" where
  "create_list_node s v =
     (s\<lparr>mem := (mem s)(brk s \<mapsto> \<lparr>nxt = None, previous = None, node_val = v\<rparr>), brk := Suc (brk s)\<rparr>,
      brk s)"

definition free_list_node :: "'v store \<Rightarrow> addr ptr \<Rightarrow> ('v store \<times> 'v ptr) option" where
  "free_list_node s delete_node =
     (case delete_node of None \<Rightarrow> Some (s, None)
      | Some a \<Rightarrow> do { n \<leftarrow> mem s a; Some (s\<lparr>mem := (mem s)(a := None)\<rparr>, node_val n) })"

definition shift_list_node :: "'v store \<Rightarrow> list_struct ptr
    \<Rightarrow> ('v store \<times> list_struct ptr \<times> addr ptr) option" where
  "shift_list_node s l =
     (case l of None \<Rightarrow> Some (s, None, None)
      | Some l \<Rightarrow>
         (case head l of None \<Rightarrow> Some (s, Some l, None)
          | Some return_node \<Rightarrow> do {
              n \<leftarrow> mem s return_node;
              let l = l\<lparr>head := nxt n\<rparr>;
              s \<leftarrow> update_if s (head l) (\<lambda>n. n\<lparr>previous := None\<rparr>);
              let l = l\<lparr>tail := (if tail l = Some return_node then None else tail l)\<rparr>;
              let l = l\<lparr>len := len l - 1\<rparr>;
              s \<leftarrow> update_node s return_node (\<lambda>n. n\<lparr>previous := None\<rparr>);
              s \<leftarrow> update_node s return_node (\<lambda>n. n\<lparr>nxt := None\<rparr>);
              Some (s, Some l, Some return_node) }))"

definition unshift_list_node :: "'v store \<Rightarrow> list_struct ptr \<Rightarrow> addr ptr
    \<Rightarrow> ('v store \<times> list_struct ptr) option" where
  "unshift_list_node s l new_node =
     (case (l, new_node) of
        (Some l, Some a) \<Rightarrow> do {
          s \<leftarrow> update_node s a (\<lambda>n. n\<lparr>previous := None\<rparr>);
          (s, l) \<leftarrow> (case head l of
             None \<Rightarrow> do {
               s \<leftarrow> update_node s a (\<lambda>n. n\<lparr>nxt := None\<rparr>);
               Some (s, l\<lparr>tail := Some a\<rparr>) }
           | Some b \<Rightarrow> do {
               s \<leftarrow> update_node s a (\<lambda>n. n\<lparr>nxt := Some b\<rparr>);
               s \<leftarrow> update_node s b (\<lambda>n. n\<lparr>previous := Some a\<rparr>);
               Some (s, l) });
          Some (s, Some (l\<lparr>head := Some a, len := len l + 1\<rparr>)) }
      | _ \<Rightarrow> Some (s, l))"

definition pop_list_node :: "'v store \<Rightarrow> list_struct ptr
    \<Rightarrow> ('v store \<times> list_struct ptr \<times> addr ptr) option" where
  "pop_list_node s l =
     (case l of None \<Rightarrow> Some (s, None, None)
      | Some l \<Rightarrow>
         (case tail l of None \<Rightarrow> Some (s, Some l, None)
          | Some return_node \<Rightarrow> do {
              n \<leftarrow> mem s return_node;
              let l = l\<lparr>tail := previous n\<rparr>;
              s \<leftarrow> update_if s (tail l) (\<lambda>n. n\<lparr>nxt := None\<rparr>);
              let l = l\<lparr>head := (if head l = Some return_node then None else head l)\<rparr>;
              let l = l\<lparr>len := len l - 1\<rparr>;
              s \<leftarrow> update_node s return_node (\<lambda>n. n\<lparr>previous := None\<rparr>);
              s \<leftarrow> update_node s return_node (\<lambda>n. n\<lparr>nxt := None\<rparr>);
              Some (s, Some l, Some return_node) }))"

definition push_list_node :: "'v store \<Rightarrow> list_struct ptr \<Rightarrow> addr ptr
    \<Rightarrow> ('v store \<times> list_struct ptr) option" where
  "push_list_node s l new_node =
     (case (l, new_node) of
        (Some l, Some a) \<Rightarrow> do {
          s \<leftarrow> update_node s a (\<lambda>n. n\<lparr>nxt := None\<rparr>);
          (s, l) \<leftarrow> (case tail l of
             None \<Rightarrow> do {
               s \<leftarrow> update_node s a (\<lambda>n. n\<lparr>previous := None\<rparr>);
               Some (s, l\<lparr>head := Some a\<rparr>) }
           | Some b \<Rightarrow> do {
               s \<leftarrow> update_node s a (\<lambda>n. n\<lparr>previous := Some b\<rparr>);
               s \<leftarrow> update_node s b (\<lambda>n. n\<lparr>nxt := Some a\<rparr>);
               Some (s, l) });
          Some (s, Some (l\<lparr>tail := Some a, len := len l + 1\<rparr>)) }
      | _ \<Rightarrow> Some (s, l))"

definition remove_internal_list_node :: "'v store \<Rightarrow> list_struct ptr \<Rightarrow> addr ptr
    \<Rightarrow> ('v store \<times> list_struct ptr) option" where
  "remove_internal_list_node s l internal =
     (case (l, internal) of
        (Some l, Some a) \<Rightarrow> do {
          n \<leftarrow> mem s a;
          let next_node = nxt n;
          let prev_node = previous n;
          (s, l) \<leftarrow> (if prev_node = None
            then do {
              let l = l\<lparr>head := next_node\<rparr>;
              s \<leftarrow> update_if s (head l) (\<lambda>n. n\<lparr>previous := None\<rparr>);
              Some (s, l) }
            else Some (s, l));
          (s, l) \<leftarrow> (if next_node = None
            then do {
              let l = l\<lparr>tail := prev_node\<rparr>;
              s \<leftarrow> update_if s (tail l) (\<lambda>n. n\<lparr>nxt := None\<rparr>);
              Some (s, l) }
            else Some (s, l));
          s \<leftarrow> (case (prev_node, next_node) of
             (Some p, Some q) \<Rightarrow> do {
               s \<leftarrow> update_node s p (\<lambda>n. n\<lparr>nxt := Some q\<rparr>);
               update_node s q (\<lambda>n. n\<lparr>previous := Some p\<rparr>) }
           | _ \<Rightarrow> Some s);
          s \<leftarrow> update_node s a (\<lambda>n. n\<lparr>nxt := None\<rparr>);
          s \<leftarrow> update_node s a (\<lambda>n. n\<lparr>previous := None\<rparr>);
          Some (s, Some (l\<lparr>len := len l - 1\<rparr>)) }
      | _ \<Rightarrow> Some (s, l))"

subsection \<open>Operations on values\<close>

definition shift_list :: "'v store \<Rightarrow> list_struct ptr
    \<Rightarrow> ('v store \<times> list_struct ptr \<times> 'v ptr) option" where
  "shift_list s l = do {
     (s, l, n) \<leftarrow> shift_list_node s l;
     (s, v) \<leftarrow> free_list_node s n;
     Some (s, l, v) }"

definition unshift_list :: "'v store \<Rightarrow> list_struct ptr \<Rightarrow> 'v ptr
    \<Rightarrow> ('v store \<times> list_struct ptr) option" where
  "unshift_list s l v = (let (s, new_node) = create_list_node s v in
     unshift_list_node s l (Some new_node))"

definition pop_list :: "'v store \<Rightarrow> list_struct ptr
    \<Rightarrow> ('v store \<times> list_struct ptr \<times> 'v ptr) option" where
  "pop_list s l = do {
     (s, l, n) \<leftarrow> pop_list_node s l;
     (s, v) \<leftarrow> free_list_node s n;
     Some (s, l, v) }"

definition push_list :: "'v store \<Rightarrow> list_struct ptr \<Rightarrow> 'v ptr
    \<Rightarrow> ('v store \<times> list_struct ptr) option" where
  "push_list s l v = (let (s, new_node) = create_list_node s v in
     push_list_node s l (Some new_node))"

text \<open>
  \<open>destroy_list\<close>: the loop \<open>for(value_index=0; l->length > 0; value_index++)\<close> as a partial
  function; an array of values is an allocation whose cells are \<open>None\<close> until written.
\<close>

partial_function (option) destroy_list_loop :: "int \<Rightarrow> 'v store \<Rightarrow> list_struct
    \<Rightarrow> 'v ptr option list \<Rightarrow> nat \<Rightarrow> 'v ptr list
    \<Rightarrow> ('v store \<times> 'v ptr option list \<times> nat \<times> 'v ptr list) option" where
  "destroy_list_loop mode s l values value_index freed =
     (if len l > 0
      then do {
        (s, l', value) \<leftarrow> shift_list s (Some l);
        l \<leftarrow> l';
        values \<leftarrow> (if mode = DESTROY_MODE_RETURN_VALUES
          then buf_write values value_index (Some value) else Some values);
        destroy_list_loop mode s l values (value_index + 1)
          (if mode = DESTROY_MODE_FREE_VALUES then freed @ [value] else freed) }
      else Some (s, values, value_index, freed))"

definition destroy_list :: "'v store \<Rightarrow> list_struct ptr \<Rightarrow> int
    \<Rightarrow> ('v store \<times> 'v destroyed) option" where
  "destroy_list s l mode =
     (case l of
        None \<Rightarrow> Some (s, \<lparr>returned = None, num_destroyed = 0, freed_values = []\<rparr>)
      | Some l \<Rightarrow> do {
          let values = (if mode = DESTROY_MODE_RETURN_VALUES
            then replicate (nat (1 + len l)) None else []);
          (s, values, value_index, freed) \<leftarrow> destroy_list_loop mode s l values 0 [];
          values \<leftarrow> (if mode = DESTROY_MODE_RETURN_VALUES
            then buf_write values value_index (Some None) else Some values);
          Some (s, \<lparr>returned = (if mode = DESTROY_MODE_RETURN_VALUES then Some values else None),
            num_destroyed = value_index, freed_values = freed\<rparr>) })"

text \<open>
  \<open>list_element_at\<close> starts at the tail unless the unsigned difference
  \<open>index - length / 2\<close> is 0, and walks towards the index.
\<close>

partial_function (option) list_walk :: "'v store \<Rightarrow> ulong \<Rightarrow> ulong \<Rightarrow> addr ptr \<Rightarrow> addr ptr option" where
  "list_walk s index current_index current_node =
     (if current_index \<noteq> index \<and> current_node \<noteq> None
      then do {
        n \<leftarrow> mem s (the current_node);
        list_walk s index
          (if current_index > index then current_index - 1 else current_index + 1)
          (if current_index > index then previous n else nxt n) }
      else Some current_node)"

definition list_element_at :: "'v store \<Rightarrow> list_struct ptr \<Rightarrow> ulong \<Rightarrow> 'v ptr option" where
  "list_element_at s l index =
     (case l of None \<Rightarrow> Some None
      | Some l \<Rightarrow> do {
          let current_index = (if index - word_of_int (len l sdiv 2) > 0
            then word_of_int (len l - 1) else 0);
          let current_node = (if current_index = 0 then head l else tail l);
          current_node \<leftarrow> list_walk s index current_index current_node;
          (case current_node of None \<Rightarrow> Some None | Some a \<Rightarrow> map_option node_val (mem s a)) })"

fun list_values_loop :: "'v store \<Rightarrow> nat \<Rightarrow> addr ptr \<Rightarrow> 'v ptr option list \<Rightarrow> nat
    \<Rightarrow> 'v ptr option list option" where
  "list_values_loop s 0 current_node values value_index = Some values"
| "list_values_loop s (Suc left) current_node values value_index = do {
     a \<leftarrow> current_node;
     n \<leftarrow> mem s a;
     values \<leftarrow> buf_write values value_index (Some (node_val n));
     list_values_loop s left (nxt n) values (value_index + 1) }"

definition get_list_values :: "'v store \<Rightarrow> list_struct ptr \<Rightarrow> ('v ptr option list ptr \<times> nat) option" where
  "get_list_values s l =
     (case l of None \<Rightarrow> Some (None, 0)
      | Some l \<Rightarrow> do {
          values \<leftarrow> list_values_loop s (nat (len l)) (head l) (replicate (nat (1 + len l)) None) 0;
          values \<leftarrow> buf_write values (nat (len l)) (Some None);
          Some (Some values, nat (len l)) })"

subsection \<open>What the pointers describe\<close>

definition first_opt :: "addr list \<Rightarrow> addr ptr \<Rightarrow> addr ptr" where
  "first_opt as q = (case as of [] \<Rightarrow> q | a # _ \<Rightarrow> Some a)"

definition last_opt :: "addr list \<Rightarrow> addr ptr \<Rightarrow> addr ptr" where
  "last_opt as p = (if as = [] then p else Some (last as))"

lemma first_last_simps [simp]:
  "first_opt [] q = q" "first_opt (a # as) q = Some a" "last_opt [] p = p"
  "last_opt (as @ [a]) p = Some a" "last_opt (a # as) p = last_opt as (Some a)"
  by (simp_all add: first_opt_def last_opt_def)

lemma first_opt_append: "first_opt (as @ bs) q = first_opt as (first_opt bs q)"
  by (cases as) auto

lemma last_opt_append: "last_opt (as @ bs) p = last_opt bs (last_opt as p)"
  by (simp add: last_opt_def)

lemma last_opt_neq [simp]: "a \<notin> set as \<Longrightarrow> p \<noteq> Some a \<Longrightarrow> last_opt as p \<noteq> Some a"
  using last_in_set[of as] by (auto simp: last_opt_def)

lemma first_opt_neq [simp]: "a \<notin> set as \<Longrightarrow> p \<noteq> Some a \<Longrightarrow> first_opt as p \<noteq> Some a"
  by (cases as) auto

text \<open>
  \<open>linked m p as q\<close>: the nodes \<open>as\<close> are chained in both directions, the first one's
  \<open>previous\<close> is \<open>p\<close> and the last one's \<open>next\<close> is \<open>q\<close>.
\<close>

fun linked :: "(addr \<rightharpoonup> 'v list_node) \<Rightarrow> addr ptr \<Rightarrow> addr list \<Rightarrow> addr ptr \<Rightarrow> bool" where
  "linked m p [] q = True"
| "linked m p (a # as) q =
     (\<exists>n. m a = Some n \<and> previous n = p \<and> nxt n = first_opt as q \<and> linked m (Some a) as q)"

definition list_at :: "'v store \<Rightarrow> list_struct \<Rightarrow> addr list \<Rightarrow> bool" where
  "list_at s l as \<longleftrightarrow> linked (mem s) None as None \<and> distinct as \<and>
     head l = first_opt as None \<and> tail l = last_opt as None \<and> len l = int (length as)"

definition store_ok :: "'v store \<Rightarrow> bool" where
  "store_ok s \<longleftrightarrow> (\<forall>a n. mem s a = Some n \<longrightarrow> a < brk s)"

definition vals :: "'v store \<Rightarrow> addr list \<Rightarrow> 'v ptr list" where
  "vals s as = map (\<lambda>a. node_val (the (mem s a))) as"

text \<open>
  The frame of an operation on the links of some nodes: nothing is allocated or freed, other
  nodes are untouched and no node changes its value.
\<close>

definition relinked :: "addr set \<Rightarrow> 'v store \<Rightarrow> 'v store \<Rightarrow> bool" where
  "relinked A s s' \<longleftrightarrow> brk s' = brk s \<and> (\<forall>b. b \<notin> A \<longrightarrow> mem s' b = mem s b) \<and>
     (\<forall>b. map_option node_val (mem s' b) = map_option node_val (mem s b))"

lemma linked_notin [simp]: "a \<notin> set as \<Longrightarrow> linked (m(a := x)) p as q = linked m p as q"
  by (induction as arbitrary: p) auto

lemma linked_append:
  "linked m p (as @ bs) q \<longleftrightarrow> linked m p as (first_opt bs q) \<and> linked m (last_opt as p) bs q"
  by (induction as arbitrary: p) (auto simp: first_opt_append)

lemma linked_cong: "(\<And>a. a \<in> set as \<Longrightarrow> m' a = m a) \<Longrightarrow> linked m' p as q = linked m p as q"
  by (induction as arbitrary: p) auto

lemma linked_alloc: "linked m p as q \<Longrightarrow> a \<in> set as \<Longrightarrow> \<exists>n. m a = Some n"
  by (induction as arbitrary: p) auto

lemma linked_set_previous [heap_facts]:
  "linked m p (b # bs) q \<Longrightarrow> distinct (b # bs) \<Longrightarrow> m b = Some n \<Longrightarrow>
    linked (m(b \<mapsto> n\<lparr>previous := p'\<rparr>)) p' (b # bs) q"
  by auto

lemma linked_set_next [heap_facts]:
  "linked m p (as @ [b]) q \<Longrightarrow> distinct (as @ [b]) \<Longrightarrow> m b = Some n \<Longrightarrow>
    linked (m(b \<mapsto> n\<lparr>nxt := q'\<rparr>)) p (as @ [b]) q'"
  by (auto simp: linked_append)

lemma update_node_simps [simp]:
  "mem s a = Some n \<Longrightarrow> update_node s a f = Some (s\<lparr>mem := (mem s)(a \<mapsto> f n)\<rparr>)"
  "update_if s None f = Some s" "update_if s (Some a) f = update_node s a f"
  by (simp_all add: update_node_def update_if_def)

lemma relinked_vals: "relinked A s s' \<Longrightarrow> (\<forall>a \<in> set as. mem s a \<noteq> None) \<Longrightarrow> vals s' as = vals s as"
  unfolding relinked_def vals_def
  by (auto simp: option.map_sel) (metis option.distinct(1) option.exhaust_sel option.map_sel option.map_disc_iff)

lemma relinked_list_at:
  "relinked A s s' \<Longrightarrow> A \<inter> set as = {} \<Longrightarrow> list_at s' l as = list_at s l as"
  unfolding list_at_def relinked_def by (auto intro: linked_cong[THEN iffD1] linked_cong[THEN iffD2])

lemma relinked_store_ok: "relinked A s s' \<Longrightarrow> store_ok s \<Longrightarrow> store_ok s'"
  unfolding relinked_def store_ok_def by (metis map_option_eq_Some)

subsection \<open>The node operations on a list\<close>

lemma shift_node_ok:
  assumes "list_at s l (a # as)"
  shows "\<exists>s' l'. shift_list_node s (Some l) = Some (s', Some l', Some a) \<and> list_at s' l' as \<and>
    relinked (set (a # as)) s s' \<and> (\<exists>n. mem s' a = Some n)"
proof (cases as)
  case Nil
  with assms show ?thesis
    by (auto simp: shift_list_node_def list_at_def relinked_def)
next
  case (Cons b bs)
  with assms show ?thesis
    by (auto simp: shift_list_node_def list_at_def relinked_def Let_def)
qed

lemma unshift_node_ok:
  assumes "list_at s l as" and "mem s a = Some n" and "a \<notin> set as"
  shows "\<exists>s' l'. unshift_list_node s (Some l) (Some a) = Some (s', Some l') \<and>
    list_at s' l' (a # as) \<and> relinked (set (a # as)) s s'"
proof (cases as)
  case Nil
  with assms show ?thesis
    by (auto simp: unshift_list_node_def list_at_def relinked_def)
next
  case (Cons b bs)
  with assms show ?thesis
    by (auto simp: unshift_list_node_def list_at_def relinked_def Let_def)
qed

lemma pop_node_ok:
  assumes "list_at s l (as @ [a])"
  shows "\<exists>s' l'. pop_list_node s (Some l) = Some (s', Some l', Some a) \<and> list_at s' l' as \<and>
    relinked (set (as @ [a])) s s' \<and> (\<exists>n. mem s' a = Some n)"
proof (cases as rule: rev_cases)
  case Nil
  with assms show ?thesis
    by (auto simp: pop_list_node_def list_at_def relinked_def)
next
  case (snoc bs b)
  with assms show ?thesis
    by (auto simp: pop_list_node_def list_at_def relinked_def Let_def linked_append first_opt_append
        last_opt_append)
qed

lemma push_node_ok:
  assumes "list_at s l as" and "mem s a = Some n" and "a \<notin> set as"
  shows "\<exists>s' l'. push_list_node s (Some l) (Some a) = Some (s', Some l') \<and>
    list_at s' l' (as @ [a]) \<and> relinked (set (as @ [a])) s s'"
proof (cases as rule: rev_cases)
  case Nil
  with assms show ?thesis
    by (auto simp: push_list_node_def list_at_def relinked_def)
next
  case (snoc bs b)
  with assms show ?thesis
    by (auto simp: push_list_node_def list_at_def relinked_def Let_def linked_append first_opt_append
        last_opt_append)
qed

lemma remove_internal_ok:
  assumes l: "list_at s l (xs @ a # ys)"
  shows "\<exists>s' l'. remove_internal_list_node s (Some l) (Some a) = Some (s', Some l') \<and>
    list_at s' l' (xs @ ys) \<and> relinked (set (xs @ a # ys)) s s' \<and> (\<exists>n. mem s' a = Some n \<and> nxt n = None \<and> previous n = None)"
proof (cases xs rule: rev_cases; cases ys)
  assume "xs = []" "ys = []"
  with l show ?thesis
    by (auto simp: remove_internal_list_node_def list_at_def relinked_def Let_def)
next
  fix q qs assume "xs = []" "ys = q # qs"
  with l show ?thesis
    by (auto simp: remove_internal_list_node_def list_at_def relinked_def Let_def)
next
  fix ps p assume "xs = ps @ [p]" "ys = []"
  with l show ?thesis
    by (auto simp: remove_internal_list_node_def list_at_def relinked_def Let_def linked_append
        first_opt_append last_opt_append)
next
  fix ps p q qs assume "xs = ps @ [p]" "ys = q # qs"
  with l show ?thesis
    by (auto simp: remove_internal_list_node_def list_at_def relinked_def Let_def linked_append
        first_opt_append last_opt_append)
qed

subsection \<open>Allocation and release\<close>

lemma store_ok_fresh [heap_facts]: "store_ok s \<Longrightarrow> mem s (brk s) = None"
  unfolding store_ok_def by (metis less_irrefl option.exhaust)

lemma list_at_alloc: "list_at s l as \<Longrightarrow> a \<in> set as \<Longrightarrow> \<exists>n. mem s a = Some n"
  by (auto simp: list_at_def dest: linked_alloc)

lemma create_node_ok:
  assumes "store_ok s" and "list_at s l as" and "create_list_node s v = (s', a)"
  shows "store_ok s'" and "list_at s' l as" and "a \<notin> set as" and "vals s' as = vals s as"
    and "mem s' a = Some \<lparr>nxt = None, previous = None, node_val = v\<rparr>"
proof -
  from assms(3) have s': "a = brk s" "mem s' = (mem s)(a \<mapsto> \<lparr>nxt = None, previous = None, node_val = v\<rparr>)"
    "brk s' = Suc a" by (auto simp: create_list_node_def)
  show "store_ok s'" using assms(1) by (fastforce simp: store_ok_def s')
  show na: "a \<notin> set as"
    using list_at_alloc[OF assms(2), of a] store_ok_fresh[OF assms(1)] by (auto simp: s')
  show "list_at s' l as" using assms(2) na by (simp add: list_at_def s')
  show "vals s' as = vals s as" using na by (auto simp: vals_def s')
  show "mem s' a = Some \<lparr>nxt = None, previous = None, node_val = v\<rparr>" by (simp add: s')
qed

lemma free_node_ok:
  assumes "store_ok s" and "list_at s l as" and "mem s a = Some n" and "a \<notin> set as"
  shows "\<exists>s'. free_list_node s (Some a) = Some (s', node_val n) \<and> store_ok s' \<and> list_at s' l as \<and>
    vals s' as = vals s as"
  using assms by (auto simp: free_list_node_def store_ok_def list_at_def vals_def)

subsection \<open>A deque of values\<close>

datatype 'v deque_op = Push "'v ptr" | Unshift "'v ptr" | Pop | Shift

fun run_deque :: "('s \<Rightarrow> 'v ptr \<Rightarrow> 's option) \<Rightarrow> ('s \<Rightarrow> 'v ptr \<Rightarrow> 's option) \<Rightarrow> ('s \<Rightarrow> ('s \<times> 'v ptr) option)
    \<Rightarrow> ('s \<Rightarrow> ('s \<times> 'v ptr) option) \<Rightarrow> 's \<Rightarrow> 'v deque_op list \<Rightarrow> ('s \<times> 'v ptr list) option" where
  "run_deque push unshift pop shift s [] = Some (s, [])"
| "run_deque push unshift pop shift s (op # ops) = do {
     (s, out) \<leftarrow> (case op of
        Push v \<Rightarrow> map_option (\<lambda>s. (s, [])) (push s v)
      | Unshift v \<Rightarrow> map_option (\<lambda>s. (s, [])) (unshift s v)
      | Pop \<Rightarrow> map_option (\<lambda>(s, v). (s, [v])) (pop s)
      | Shift \<Rightarrow> map_option (\<lambda>(s, v). (s, [v])) (shift s));
     (s, outs) \<leftarrow> run_deque push unshift pop shift s ops;
     Some (s, out @ outs) }"

text \<open>The same operations on a list: taking from an empty list yields \<open>NULL\<close>.\<close>

fun spec_deque :: "'v ptr list \<Rightarrow> 'v deque_op list \<Rightarrow> 'v ptr list \<times> 'v ptr list" where
  "spec_deque vs [] = (vs, [])"
| "spec_deque vs (Push v # ops) = spec_deque (vs @ [v]) ops"
| "spec_deque vs (Unshift v # ops) = spec_deque (v # vs) ops"
| "spec_deque vs (Pop # ops) = (let (r, outs) = spec_deque (butlast vs) ops in
     (r, (if vs = [] then None else last vs) # outs))"
| "spec_deque vs (Shift # ops) = (let (r, outs) = spec_deque (tl vs) ops in
     (r, (if vs = [] then None else hd vs) # outs))"

locale deque =
  fixes rep :: "'s \<Rightarrow> 'v ptr list \<Rightarrow> bool"
    and push unshift :: "'s \<Rightarrow> 'v ptr \<Rightarrow> 's option"
    and pop shift :: "'s \<Rightarrow> ('s \<times> 'v ptr) option"
  assumes push_law: "rep s vs \<Longrightarrow> \<exists>s'. push s v = Some s' \<and> rep s' (vs @ [v])"
    and unshift_law: "rep s vs \<Longrightarrow> \<exists>s'. unshift s v = Some s' \<and> rep s' (v # vs)"
    and pop_law: "rep s vs \<Longrightarrow> \<exists>s'. pop s = Some (s', if vs = [] then None else last vs) \<and> rep s' (butlast vs)"
    and shift_law: "rep s vs \<Longrightarrow> \<exists>s'. shift s = Some (s', if vs = [] then None else hd vs) \<and> rep s' (tl vs)"
begin

lemma run_deque_refine:
  "rep s vs \<Longrightarrow> \<exists>s'. run_deque push unshift pop shift s ops = Some (s', snd (spec_deque vs ops)) \<and>
    rep s' (fst (spec_deque vs ops))"
proof (induction ops arbitrary: s vs)
  case (Cons op ops)
  show ?case
  proof (cases op)
    case (Push v)
    with push_law[OF Cons.prems, of v] Cons.IH show ?thesis by fastforce
  next
    case (Unshift v)
    with unshift_law[OF Cons.prems, of v] Cons.IH show ?thesis by fastforce
  next
    case Pop
    from pop_law[OF Cons.prems] obtain s1 where
      "pop s = Some (s1, if vs = [] then None else last vs)" "rep s1 (butlast vs)" by blast
    with Pop Cons.IH[of s1 "butlast vs"] show ?thesis by (auto split: prod.split)
  next
    case Shift
    from shift_law[OF Cons.prems] obtain s1 where
      "shift s = Some (s1, if vs = [] then None else hd vs)" "rep s1 (tl vs)" by blast
    with Shift Cons.IH[of s1 "tl vs"] show ?thesis by (auto split: prod.split)
  qed
qed simp

end

definition list_rep :: "'v store \<times> list_struct ptr \<Rightarrow> 'v ptr list \<Rightarrow> bool" where
  "list_rep sl vs \<longleftrightarrow> (\<exists>s l as. sl = (s, Some l) \<and> store_ok s \<and> list_at s l as \<and> vals s as = vs)"

lemma push_list_ok:
  assumes "store_ok s" and "list_at s l as"
  shows "\<exists>s' l' as'. push_list s (Some l) v = Some (s', Some l') \<and> store_ok s' \<and> list_at s' l' as' \<and>
    vals s' as' = vals s as @ [v]"
proof -
  obtain s1 a where c: "create_list_node s v = (s1, a)" by (cases "create_list_node s v")
  note C = create_node_ok[OF assms c]
  from push_node_ok[OF C(2,5,3)] obtain s2 l' where p:
    "push_list_node s1 (Some l) (Some a) = Some (s2, Some l')" "list_at s2 l' (as @ [a])"
    "relinked (set (as @ [a])) s1 s2" by blast
  have "vals s2 (as @ [a]) = vals s1 (as @ [a])"
    using C(5) list_at_alloc[OF C(2)] by (intro relinked_vals[OF p(3)]) auto
  with C(4,5) have "vals s2 (as @ [a]) = vals s as @ [v]" by (simp add: vals_def)
  with p c C(1) relinked_store_ok[OF p(3)] show ?thesis by (auto simp: push_list_def)
qed

lemma unshift_list_ok:
  assumes "store_ok s" and "list_at s l as"
  shows "\<exists>s' l' as'. unshift_list s (Some l) v = Some (s', Some l') \<and> store_ok s' \<and> list_at s' l' as' \<and>
    vals s' as' = v # vals s as"
proof -
  obtain s1 a where c: "create_list_node s v = (s1, a)" by (cases "create_list_node s v")
  note C = create_node_ok[OF assms c]
  from unshift_node_ok[OF C(2,5,3)] obtain s2 l' where p:
    "unshift_list_node s1 (Some l) (Some a) = Some (s2, Some l')" "list_at s2 l' (a # as)"
    "relinked (set (a # as)) s1 s2" by blast
  have "vals s2 (a # as) = vals s1 (a # as)"
    using C(5) list_at_alloc[OF C(2)] by (intro relinked_vals[OF p(3)]) auto
  with C(4,5) have "vals s2 (a # as) = v # vals s as" by (simp add: vals_def)
  with p c C(1) relinked_store_ok[OF p(3)] show ?thesis by (auto simp: unshift_list_def)
qed

lemma shift_list_ok:
  assumes "store_ok s" and "list_at s l (a # as)"
  shows "\<exists>s' l'. shift_list s (Some l) = Some (s', Some l', hd (vals s (a # as))) \<and> store_ok s' \<and>
    list_at s' l' as \<and> vals s' as = vals s as"
proof -
  from shift_node_ok[OF assms(2)] obtain s1 l' n where p:
    "shift_list_node s (Some l) = Some (s1, Some l', Some a)" "list_at s1 l' as"
    "relinked (set (a # as)) s s1" "mem s1 a = Some n" by blast
  have v: "vals s1 (a # as) = vals s (a # as)"
    using list_at_alloc[OF assms(2)] by (intro relinked_vals[OF p(3)]) auto
  have "a \<notin> set as" using assms(2) by (simp add: list_at_def)
  from free_node_ok[OF relinked_store_ok[OF p(3) assms(1)] p(2,4) this] obtain s2 where
    "free_list_node s1 (Some a) = Some (s2, node_val n)" "store_ok s2" "list_at s2 l' as"
    "vals s2 as = vals s1 as" by blast
  with p v show ?thesis by (simp add: shift_list_def vals_def)
qed

lemma pop_list_ok:
  assumes "store_ok s" and "list_at s l (as @ [a])"
  shows "\<exists>s' l'. pop_list s (Some l) = Some (s', Some l', last (vals s (as @ [a]))) \<and> store_ok s' \<and>
    list_at s' l' as \<and> vals s' as = vals s as"
proof -
  from pop_node_ok[OF assms(2)] obtain s1 l' n where p:
    "pop_list_node s (Some l) = Some (s1, Some l', Some a)" "list_at s1 l' as"
    "relinked (set (as @ [a])) s s1" "mem s1 a = Some n" by blast
  have v: "vals s1 (as @ [a]) = vals s (as @ [a])"
    using list_at_alloc[OF assms(2)] by (intro relinked_vals[OF p(3)]) auto
  have "a \<notin> set as" using assms(2) by (simp add: list_at_def)
  from free_node_ok[OF relinked_store_ok[OF p(3) assms(1)] p(2,4) this] obtain s2 where
    "free_list_node s1 (Some a) = Some (s2, node_val n)" "store_ok s2" "list_at s2 l' as"
    "vals s2 as = vals s1 as" by blast
  with p v show ?thesis by (simp add: pop_list_def vals_def)
qed

text \<open>The operations of \<open>list.c\<close> on a store and the list struct in it.\<close>

definition push_op :: "'v store \<times> list_struct ptr \<Rightarrow> 'v ptr \<Rightarrow> ('v store \<times> list_struct ptr) option" where
  "push_op sl v = push_list (fst sl) (snd sl) v"

definition unshift_op :: "'v store \<times> list_struct ptr \<Rightarrow> 'v ptr \<Rightarrow> ('v store \<times> list_struct ptr) option" where
  "unshift_op sl v = unshift_list (fst sl) (snd sl) v"

definition pop_op :: "'v store \<times> list_struct ptr \<Rightarrow> (('v store \<times> list_struct ptr) \<times> 'v ptr) option" where
  "pop_op sl = map_option (\<lambda>(s, l, v). ((s, l), v)) (pop_list (fst sl) (snd sl))"

definition shift_op :: "'v store \<times> list_struct ptr \<Rightarrow> (('v store \<times> list_struct ptr) \<times> 'v ptr) option" where
  "shift_op sl = map_option (\<lambda>(s, l, v). ((s, l), v)) (shift_list (fst sl) (snd sl))"

lemma shift_empty: "list_at s l [] \<Longrightarrow> shift_list s (Some l) = Some (s, Some l, None)"
  by (simp add: list_at_def shift_list_def shift_list_node_def free_list_node_def)

lemma pop_empty: "list_at s l [] \<Longrightarrow> pop_list s (Some l) = Some (s, Some l, None)"
  by (simp add: list_at_def pop_list_def pop_list_node_def free_list_node_def)

interpretation linkedlist: deque list_rep push_op unshift_op pop_op shift_op
proof unfold_locales
  fix sl :: "'v store \<times> list_struct ptr" and vs v
  assume "list_rep sl vs"
  then obtain s l as where sl: "sl = (s, Some l)" "store_ok s" "list_at s l as" "vals s as = vs"
    by (auto simp: list_rep_def)
  show "\<exists>sl'. push_op sl v = Some sl' \<and> list_rep sl' (vs @ [v])"
    using push_list_ok[OF sl(2,3), of v] sl(1,4) by (auto simp: push_op_def list_rep_def)
  show "\<exists>sl'. unshift_op sl v = Some sl' \<and> list_rep sl' (v # vs)"
    using unshift_list_ok[OF sl(2,3), of v] sl(1,4) by (auto simp: unshift_op_def list_rep_def)
  show "\<exists>sl'. pop_op sl = Some (sl', if vs = [] then None else last vs) \<and> list_rep sl' (butlast vs)"
  proof (cases as rule: rev_cases)
    case Nil
    with sl pop_empty[of s l] show ?thesis by (auto simp: pop_op_def list_rep_def vals_def)
  next
    case (snoc bs a)
    from pop_list_ok[OF sl(2) sl(3)[unfolded snoc]] obtain s' l' where s':
      "pop_list s (Some l) = Some (s', Some l', last vs)" "store_ok s'" "list_at s' l' bs"
      "vals s' bs = vals s bs" by (auto simp: snoc sl(4)[symmetric])
    have "vs \<noteq> []" "butlast vs = vals s bs" using snoc by (auto simp: sl(4)[symmetric] vals_def)
    with s' sl(1) show ?thesis by (auto simp: pop_op_def list_rep_def)
  qed
  show "\<exists>sl'. shift_op sl = Some (sl', if vs = [] then None else hd vs) \<and> list_rep sl' (tl vs)"
  proof (cases as)
    case Nil
    with sl shift_empty[of s l] show ?thesis by (auto simp: shift_op_def list_rep_def vals_def)
  next
    case (Cons a bs)
    from shift_list_ok[OF sl(2) sl(3)[unfolded Cons]] obtain s' l' where s':
      "shift_list s (Some l) = Some (s', Some l', hd vs)" "store_ok s'" "list_at s' l' bs"
      "vals s' bs = vals s bs" by (auto simp: Cons sl(4)[symmetric])
    have "vs \<noteq> []" "tl vs = vals s bs" using Cons by (auto simp: sl(4)[symmetric] vals_def)
    with s' sl(1) show ?thesis by (auto simp: shift_op_def list_rep_def)
  qed
qed

lemma list_rep_init: "list_rep (empty_store, Some initialize_list) []"
  by (auto simp: list_rep_def empty_store_def initialize_list_def store_ok_def list_at_def vals_def)

subsection \<open>Destruction\<close>

lemma destroy_loop_list:
  assumes "store_ok s" and "list_at s l as"
    and "mode = DESTROY_MODE_RETURN_VALUES \<longrightarrow>
      buf = front @ rest @ back \<and> i = length front \<and> length rest = length as"
  shows "\<exists>s'. destroy_list_loop mode s l buf i freed =
    Some (s', if mode = DESTROY_MODE_RETURN_VALUES then front @ map Some (vals s as) @ back else buf,
      i + length as, if mode = DESTROY_MODE_FREE_VALUES then freed @ vals s as else freed)"
  using assms
proof (induction as arbitrary: s l front rest buf i freed)
  case Nil
  then show ?case by (subst destroy_list_loop.simps) (auto simp: list_at_def vals_def)
next
  case (Cons a as)
  from shift_list_ok[OF Cons.prems(1,2)] obtain s1 l1 where s1:
    "shift_list s (Some l) = Some (s1, Some l1, hd (vals s (a # as)))" "store_ok s1" "list_at s1 l1 as"
    "vals s1 as = vals s as" by blast
  define v where "v = hd (vals s (a # as))"
  have vs: "vals s (a # as) = v # vals s as" by (simp add: vals_def v_def)
  define f where "f = (if mode = DESTROY_MODE_FREE_VALUES then freed @ [v] else freed)"
  have pos: "len l > 0" using Cons.prems(2) by (simp add: list_at_def)
  show ?case
  proof (cases "mode = DESTROY_MODE_RETURN_VALUES")
    case True
    with Cons.prems(3) obtain c cs where rest: "rest = c # cs" "length cs = length as" by (cases rest) auto
    from Cons.IH[OF s1(2,3), of "front @ Some v # cs @ back" "front @ [Some v]" cs "Suc i" f] True rest(2)
      Cons.prems(3) obtain s' where
      "destroy_list_loop mode s1 l1 (front @ Some v # cs @ back) (Suc i) f =
        Some (s', front @ Some v # map Some (vals s1 as) @ back, Suc i + length as,
          if mode = DESTROY_MODE_FREE_VALUES then f @ vals s1 as else f)" by auto
    with True rest s1 vs pos Cons.prems(3) show ?thesis
      by (subst destroy_list_loop.simps) (simp add: f_def v_def[symmetric] destroy_modes)
  next
    case False
    from Cons.IH[OF s1(2,3), of buf front rest "Suc i" f] False obtain s' where
      "destroy_list_loop mode s1 l1 buf (Suc i) f =
        Some (s', buf, Suc i + length as,
          if mode = DESTROY_MODE_FREE_VALUES then f @ vals s1 as else f)" by auto
    with False s1 vs pos show ?thesis
      by (subst destroy_list_loop.simps) (simp add: f_def v_def[symmetric])
  qed
qed

lemma destroy_list_ok:
  fixes s :: "'v store"
  assumes "store_ok s" and "list_at s l as"
  shows "\<exists>s'. destroy_list s (Some l) mode = Some (s', destroyed_of mode (vals s as))"
proof -
  define buf where "buf = (if mode = DESTROY_MODE_RETURN_VALUES
    then replicate (nat (1 + len l)) None else ([] :: 'v ptr option list))"
  have b: "mode = DESTROY_MODE_RETURN_VALUES \<longrightarrow> buf = [] @ replicate (length as) None @ [None] \<and>
      0 = length ([] :: 'v ptr option list) \<and> length (replicate (length as) (None :: 'v ptr option)) = length as"
    using assms(2) by (auto simp: buf_def list_at_def nat_add_distrib replicate_append_same)
  define out where "out = (if mode = DESTROY_MODE_RETURN_VALUES then map Some (vals s as) @ [None] else buf)"
  from destroy_loop_list[OF assms b, of "[]"] obtain s' where
    "destroy_list_loop mode s l buf 0 [] =
      Some (s', out, length as, if mode = DESTROY_MODE_FREE_VALUES then vals s as else [])"
    by (auto simp: out_def)
  moreover have "length (vals s as) = length as" by (simp add: vals_def)
  ultimately show ?thesis unfolding destroy_list_def destroyed_of_def Let_def option.case buf_def[symmetric]
    by (simp add: out_def)
qed

subsection \<open>Access by index\<close>

lemma linked_nth:
  "linked m p as q \<Longrightarrow> i < length as \<Longrightarrow>
    \<exists>n. m (as ! i) = Some n \<and> previous n = (if i = 0 then p else Some (as ! (i - 1))) \<and>
      nxt n = (if Suc i = length as then q else Some (as ! Suc i))"
proof (induction as arbitrary: p i)
  case (Cons a as)
  show ?case
  proof (cases i)
    case 0
    with Cons.prems show ?thesis by (cases as) auto
  next
    case (Suc j)
    with Cons.prems Cons.IH[of "Some a" j] show ?thesis by (auto simp: nth_Cons')
  qed
qed simp

lemma of_nat_ulong_cmp:
  assumes "c < 2 ^ 32" and "i < 2 ^ 32"
  shows "(of_nat c :: ulong) = of_nat i \<longleftrightarrow> c = i" and "(of_nat c :: ulong) > of_nat i \<longleftrightarrow> c > i"
proof -
  have u: "unat (of_nat c :: ulong) = c" "unat (of_nat i :: ulong) = i"
    using assms by (simp_all add: unat_of_nat)
  then show "(of_nat c :: ulong) > of_nat i \<longleftrightarrow> c > i" by (simp add: word_less_nat_alt)
  show "(of_nat c :: ulong) = of_nat i \<longleftrightarrow> c = i" using u by metis
qed

lemma list_walk_back:
  assumes l: "list_at s l as" and b: "length as < 2 ^ 31"
  shows "i \<le> c \<Longrightarrow> c < length as \<Longrightarrow>
    list_walk s (of_nat i) (of_nat c) (Some (as ! c)) = Some (Some (as ! i))"
proof (induction "c - i" arbitrary: c)
  case 0
  then show ?case by (subst list_walk.simps) simp
next
  case (Suc d)
  have lt: "c < 2 ^ 32" "i < 2 ^ 32" using Suc.prems b by auto
  from Suc.hyps(2) have c: "c > i" "c > 0" by auto
  from l linked_nth[of "mem s" None as None c] Suc.prems(2) c obtain n where
    n: "mem s (as ! c) = Some n" "previous n = Some (as ! (c - 1))" by (auto simp: list_at_def)
  have step: "list_walk s (of_nat i) (of_nat c) (Some (as ! c)) =
      list_walk s (of_nat i) (of_nat c - 1) (previous n)"
    using n(1) c by (subst list_walk.simps) (simp add: of_nat_ulong_cmp[OF lt])
  have eq: "(of_nat c :: ulong) - 1 = of_nat (c - 1)" using c by (simp add: of_nat_diff)
  show ?case unfolding step eq n(2) using Suc.hyps(2) Suc.prems c by (intro Suc.hyps(1)) auto
qed

lemma list_walk_forward:
  assumes l: "list_at s l as" and b: "length as < 2 ^ 31" and i: "i < 2 ^ 32"
  shows "c \<le> i \<Longrightarrow> c < length as \<Longrightarrow>
    list_walk s (of_nat i) (of_nat c) (Some (as ! c)) = Some (if i < length as then Some (as ! i) else None)"
proof (induction "length as - c" arbitrary: c)
  case (Suc d)
  have lt: "c < 2 ^ 32" "i < 2 ^ 32" using Suc.prems b i by auto
  show ?case
  proof (cases "c = i")
    case True
    with Suc.prems show ?thesis by (subst list_walk.simps) simp
  next
    case False
    from l linked_nth[of "mem s" None as None c] Suc.prems(2) obtain n where n: "mem s (as ! c) = Some n"
      "nxt n = (if Suc c = length as then None else Some (as ! Suc c))" by (auto simp: list_at_def)
    have s: "list_walk s (of_nat i) (of_nat c) (Some (as ! c)) =
        list_walk s (of_nat i) (of_nat (Suc c)) (nxt n)"
      using False Suc.prems n(1) by (subst list_walk.simps) (simp add: of_nat_ulong_cmp[OF lt] add.commute)
    have d: "d = length as - Suc c" using Suc.hyps(2) by simp
    show ?thesis
    proof (cases "Suc c = length as")
      case True
      with False Suc.prems n show ?thesis unfolding s by (subst list_walk.simps) simp
    next
      case ne: False
      then have "nxt n = Some (as ! Suc c)" using n(2) by simp
      then show ?thesis unfolding s using ne False Suc.prems by (simp only:) (rule Suc.hyps(1)[OF d], auto)
    qed
  qed
qed simp

lemma list_element_at_ok:
  assumes l: "list_at s l as" and b: "length as < 2 ^ 31"
  shows "list_element_at s (Some l) index =
    Some (if unat index < length as then vals s as ! unat index else None)"
proof -
  define i where "i = unat index"
  have i: "index = of_nat i" "i < 2 ^ 32" using unsigned_less[of index] by (simp_all add: i_def)
  have ll: "len l = int (length as)" using l by (simp add: list_at_def)
  define c where "c = (if index - word_of_int (len l sdiv 2) > 0 then word_of_int (len l - 1) else (0 :: ulong))"
  define n where "n = (if c = 0 then head l else tail l)"
  have walk: "list_walk s index c n = Some (if i < length as then Some (as ! i) else None)"
  proof (cases "as = []")
    case True
    then have "n = None" using l by (simp add: n_def list_at_def)
    with True show ?thesis by (subst list_walk.simps) simp
  next
    case ne: False
    show ?thesis
    proof (cases "c = 0")
      case True
      then have "n = Some (as ! 0)" using l ne by (cases as) (auto simp: n_def list_at_def)
      with list_walk_forward[OF l b i(2), of 0] ne True i show ?thesis by simp
    next
      case False
      have c: "c = of_nat (length as - 1)"
      proof -
        have "c = word_of_int (len l - 1)" using False by (auto simp: c_def split: if_splits)
        moreover have "len l - 1 = int (length as - 1)" using ne by (simp add: ll of_nat_diff Suc_le_eq)
        ultimately show ?thesis by simp
      qed
      have n: "n = Some (as ! (length as - 1))"
        using False l ne by (simp add: n_def list_at_def last_opt_def last_conv_nth)
      show ?thesis
      proof (cases "i \<le> length as - 1")
        case True
        then have "i < length as" using ne by (cases as) auto
        with list_walk_back[OF l b, of i "length as - 1"] ne True show ?thesis
          by (simp add: n c i(1))
      next
        case gt: False
        with list_walk_forward[OF l b i(2), of "length as - 1"] ne show ?thesis
          by (simp add: n c i(1))
      qed
    qed
  qed
  have e: "list_element_at s (Some l) index = do {
      current_node \<leftarrow> list_walk s index c n;
      (case current_node of None \<Rightarrow> Some None | Some a \<Rightarrow> map_option node_val (mem s a)) }"
    by (simp add: list_element_at_def c_def n_def Let_def)
  show ?thesis
  proof (cases "i < length as")
    case True
    with l linked_nth[of "mem s" None as None i] obtain m where "mem s (as ! i) = Some m"
      by (auto simp: list_at_def)
    with True show ?thesis unfolding e walk by (simp add: vals_def i_def)
  qed (simp add: e walk i_def)
qed

lemma list_values_loop_ok:
  "linked (mem s) p as q \<Longrightarrow> left = length as \<Longrightarrow>
    list_values_loop s left (first_opt as q) (front @ replicate left None @ back) (length front) =
      Some (front @ map Some (vals s as) @ back)"
proof (induction as arbitrary: p front left)
  case Nil
  then show ?case by (simp add: vals_def)
next
  case (Cons a as)
  then obtain n where n: "mem s a = Some n" "nxt n = first_opt as q" "linked (mem s) (Some a) as q"
    by auto
  from Cons.IH[OF n(3) refl, of "front @ [Some (node_val n)]"] Cons.prems(2) n show ?case
    by (simp add: vals_def)
qed

lemma get_list_values_ok:
  assumes "list_at s l as"
  shows "get_list_values s (Some l) = Some (Some (map Some (vals s as) @ [Some None]), length as)"
proof -
  have l: "linked (mem s) None as None" "head l = first_opt as None" "len l = int (length as)"
    using assms by (simp_all add: list_at_def)
  have "replicate (nat (1 + len l)) None = [] @ replicate (length as) None @ [None :: 'a ptr option]"
    by (simp add: l(3) nat_add_distrib replicate_append_same)
  with list_values_loop_ok[OF l(1) refl, of "[]" "[None]"] l(2,3)
  have "list_values_loop s (nat (len l)) (head l) (replicate (nat (1 + len l)) None) 0 =
      Some (map Some (vals s as) @ [None])" by simp
  moreover have "nat (len l) = length as" "length (vals s as) = length as" by (simp_all add: l(3) vals_def)
  ultimately show ?thesis by (simp add: get_list_values_def buf_write_def list_update_append)
qed

subsection \<open>Properties\<close>

text \<open>A list of three values, as three pushes leave it.\<close>

definition sample_store :: "nat store" where
  "sample_store = \<lparr>mem = [0 \<mapsto> \<lparr>nxt = Some 1, previous = None, node_val = Some 10\<rparr>,
      1 \<mapsto> \<lparr>nxt = Some 2, previous = Some 0, node_val = None\<rparr>,
      2 \<mapsto> \<lparr>nxt = None, previous = Some 1, node_val = Some 30\<rparr>], brk = 3\<rparr>"

definition sample_list :: list_struct where
  "sample_list = \<lparr>len = 3, head = Some 0, tail = Some 2\<rparr>"

lemma sample_list_ok: "store_ok sample_store" "list_at sample_store sample_list [0, 1, 2]"
  "vals sample_store [0, 1, 2] = [Some 10, None, Some 30]"
  by (auto simp: sample_store_def sample_list_def store_ok_def list_at_def vals_def split: if_splits)

text \<open>C13: Any sequence of pushes, unshifts, pops and shifts on a fresh list runs without touching
  \<open>NULL\<close> or freed memory and returns, value for value, what the same sequence does on a plain list.\<close>

theorem list_ops_refine:
  "\<exists>sl. run_deque push_op unshift_op pop_op shift_op (empty_store, Some initialize_list) ops =
      Some (sl, snd (spec_deque [] ops)) \<and> list_rep sl (fst (spec_deque [] ops))"
  by (rule linkedlist.run_deque_refine[OF list_rep_init])

text \<open>Removing a node of the list through its address takes exactly this node out, wherever it
  stands, keeps the order and the values of the others and leaves the node itself without links.\<close>

theorem remove_internal_list_node_correct:
  assumes "list_at s l (xs @ a # ys)"
  shows "\<exists>s' l'. remove_internal_list_node s (Some l) (Some a) = Some (s', Some l') \<and>
    list_at s' l' (xs @ ys) \<and> vals s' (xs @ ys) = vals s (xs @ ys) \<and>
    (\<exists>n. mem s' a = Some n \<and> nxt n = None \<and> previous n = None)"
proof -
  from remove_internal_ok[OF assms] obtain s' l' where r:
    "remove_internal_list_node s (Some l) (Some a) = Some (s', Some l')" "list_at s' l' (xs @ ys)"
    "relinked (set (xs @ a # ys)) s s'" "\<exists>n. mem s' a = Some n \<and> nxt n = None \<and> previous n = None"
    by blast
  have "vals s' (xs @ ys) = vals s (xs @ ys)"
    using list_at_alloc[OF assms] by (intro relinked_vals[OF r(3)]) auto
  with r show ?thesis by blast
qed

lemma remove_internal_list_node_correct_witness:
  "\<exists>s' l'. remove_internal_list_node sample_store (Some sample_list) (Some 1) = Some (s', Some l') \<and>
    list_at s' l' [0, 2] \<and> vals s' [0, 2] = [Some 10, Some 30]"
proof -
  have "list_at sample_store sample_list ([0] @ 1 # [2])" using sample_list_ok(2) by simp
  from remove_internal_list_node_correct[OF this] show ?thesis
    using sample_list_ok(3) by (auto simp: vals_def)
qed

text \<open>Destroying a list stops; the array it returns, the values it frees and the count it
  reports are those of every element of the list, in list order, once each.\<close>

theorem destroy_list_correct:
  assumes "store_ok s" and "list_at s l as"
  shows "\<exists>s'. destroy_list s (Some l) mode = Some (s', destroyed_of mode (vals s as))"
  using assms by (rule destroy_list_ok)

lemma destroy_list_correct_witness:
  "\<exists>s'. destroy_list sample_store (Some sample_list) DESTROY_MODE_FREE_VALUES =
    Some (s', \<lparr>returned = None, num_destroyed = 3, freed_values = [Some 10, None, Some 30]\<rparr>)"
  using destroy_list_correct[OF sample_list_ok(1,2), of DESTROY_MODE_FREE_VALUES] sample_list_ok(3)
  by (simp add: destroyed_of_def destroy_modes numeral_3_eq_3)

text \<open>Reading a list by index walks from either end and returns the element of that position,
  or \<open>NULL\<close> when there is none, for lists below \<open>2^31\<close> elements; \<open>get_list_values\<close> copies
  all the values, in order, inside its allocation, and terminates the array.\<close>

theorem list_access_correct:
  assumes "list_at s l as" and "length as < 2 ^ 31"
  shows "list_element_at s (Some l) index =
      Some (if unat index < length as then vals s as ! unat index else None) \<and>
    get_list_values s (Some l) = Some (Some (map Some (vals s as) @ [Some None]), length as)"
  using list_element_at_ok[OF assms] get_list_values_ok[OF assms(1)] ..

lemma list_access_correct_witness:
  "list_element_at sample_store (Some sample_list) 2 = Some (Some 30) \<and>
    list_element_at sample_store (Some sample_list) 7 = Some None"
  using list_access_correct[OF sample_list_ok(2), of 2] list_access_correct[OF sample_list_ok(2), of 7]
    sample_list_ok(3) by simp

end
