(* ===== verification/Simulation.thy ===== *)
theory Simulation
  imports Prelude "HOL-Library.Monad_Syntax"
begin

text \<open>
  Functional refinement of a stateful component, as an interface: an operation of the code and
  the operation its specification gives for it, related by an abstraction relation. Both are
  partial: the code where it would use \<open>NULL\<close> or freed memory, the specification where the
  caller breaks the contract. The lemmas lift one step to any sequence of operations.
\<close>

fun run_all :: "('s \<Rightarrow> 'o \<Rightarrow> ('s \<times> 'r) option) \<Rightarrow> 's \<Rightarrow> 'o list \<Rightarrow> ('s \<times> 'r list) option" where
  "run_all step s [] = Some (s, [])"
| "run_all step s (op # ops) = do {
     (s, r) \<leftarrow> step s op;
     (s, rs) \<leftarrow> run_all step s ops;
     Some (s, r # rs) }"

locale simulation =
  fixes rep :: "'s \<Rightarrow> 'a \<Rightarrow> bool"
    and step :: "'s \<Rightarrow> 'o \<Rightarrow> ('s \<times> 'r) option"
    and spec :: "'a \<Rightarrow> 'o \<Rightarrow> ('a \<times> 'r) option"
  assumes step_law: "rep s a \<Longrightarrow> spec a op = Some (a', r) \<Longrightarrow> \<exists>s'. step s op = Some (s', r) \<and> rep s' a'"
begin

lemma run_refines:
  "rep s a \<Longrightarrow> run_all spec a ops = Some (a', rs) \<Longrightarrow>
    \<exists>s'. run_all step s ops = Some (s', rs) \<and> rep s' a'"
proof (induction ops arbitrary: s a rs)
  case (Cons op ops)
  from Cons.prems(2) obtain a1 r rs1 where spec: "spec a op = Some (a1, r)"
    "run_all spec a1 ops = Some (a', rs1)" "rs = r # rs1"
    by (auto split: Option.bind_splits)
  from step_law[OF Cons.prems(1) spec(1)] obtain s1 where "step s op = Some (s1, r)" "rep s1 a1" by blast
  with Cons.IH[OF _ spec(2)] spec(3) show ?case by fastforce
qed simp

end

end
