(* ===== verification/PriorityQueue.thy ===== *)
theory PriorityQueue
  imports StringMap LinkedList Simulation
begin

text \<open>
  The priority queue of \<open>package/libericstools/src/priority_queue.c\<close>: a \<open>long_map\<close> from
  priorities to lists of nodes, a \<open>string_map\<close> from ids to the place of a node in its list, and
  a pointer to the first node. It composes the three other containers over one heap, with an
  address space per C type; \<open>None\<close> is a use of \<open>NULL\<close> or of freed memory.
\<close>

subsection \<open>Data\<close>

record 'v priority_queue_node =
  pn_priority :: ulong
  pn_id :: string
  pn_value :: "'v ptr"

record id_map_node =
  id_list :: "addr ptr"
  id_node :: "addr ptr"

record priority_queue =
  priorities :: "addr long_map"
  ids :: "addr string_map"
  pq_first :: "addr ptr"
  pq_length :: int

text \<open>The heap: list nodes (whose values are addresses of queue nodes), list structs, queue
  nodes, id records, and the next address \<open>malloc\<close> gives to the last three.\<close>

record 'v pq_heap =
  list_nodes :: "addr store"
  list_structs :: "addr \<rightharpoonup> list_struct"
  pnodes :: "addr \<rightharpoonup> 'v priority_queue_node"
  idnodes :: "addr \<rightharpoonup> id_map_node"
  fresh :: addr

definition empty_pq_heap :: "'v pq_heap" where
  "empty_pq_heap = \<lparr>list_nodes = empty_store, list_structs = Map.empty, pnodes = Map.empty,
     idnodes = Map.empty, fresh = 0\<rparr>"

definition malloc_list :: "'v pq_heap \<Rightarrow> 'v pq_heap \<times> addr" where
  "malloc_list h = (h\<lparr>list_structs := (list_structs h)(fresh h \<mapsto> initialize_list), fresh := Suc (fresh h)\<rparr>, fresh h)"

definition malloc_idnode :: "'v pq_heap \<Rightarrow> addr ptr \<Rightarrow> addr ptr \<Rightarrow> 'v pq_heap \<times> addr" where
  "malloc_idnode h l n = (h\<lparr>idnodes := (idnodes h)(fresh h \<mapsto> \<lparr>id_list = l, id_node = n\<rparr>),
     fresh := Suc (fresh h)\<rparr>, fresh h)"

text \<open>\<open>free\<close> of a list struct and of an id record; freeing \<open>NULL\<close> does nothing, freeing what is
  not allocated is undefined.\<close>

definition free_list :: "'v pq_heap \<Rightarrow> addr ptr \<Rightarrow> 'v pq_heap option" where
  "free_list h p = (case p of None \<Rightarrow> Some h
     | Some a \<Rightarrow> if list_structs h a = None then None else Some (h\<lparr>list_structs := (list_structs h)(a := None)\<rparr>))"

definition free_idnode :: "'v pq_heap \<Rightarrow> addr ptr \<Rightarrow> 'v pq_heap option" where
  "free_idnode h p = (case p of None \<Rightarrow> Some h
     | Some a \<Rightarrow> if idnodes h a = None then None else Some (h\<lparr>idnodes := (idnodes h)(a := None)\<rparr>))"

text \<open>An operation of \<open>list.c\<close> on the list struct at an address.\<close>

definition on_list :: "'v pq_heap \<Rightarrow> addr ptr
    \<Rightarrow> (addr store \<Rightarrow> list_struct ptr \<Rightarrow> (addr store \<times> list_struct ptr \<times> 'r) option)
    \<Rightarrow> ('v pq_heap \<times> 'r) option" where
  "on_list h p f = (case p of
     None \<Rightarrow> do { (s, _, r) \<leftarrow> f (list_nodes h) None; Some (h\<lparr>list_nodes := s\<rparr>, r) }
   | Some a \<Rightarrow> do {
       l \<leftarrow> list_structs h a;
       (s, l', r) \<leftarrow> f (list_nodes h) (Some l);
       l' \<leftarrow> l';
       Some (h\<lparr>list_nodes := s, list_structs := (list_structs h)(a \<mapsto> l')\<rparr>, r) })"

definition no_result :: "('s \<times> list_struct ptr) option \<Rightarrow> ('s \<times> list_struct ptr \<times> unit) option" where
  "no_result r = map_option (\<lambda>(s, l). (s, l, ())) r"

definition push_at :: "'v pq_heap \<Rightarrow> addr ptr \<Rightarrow> addr ptr \<Rightarrow> 'v pq_heap option" where
  "push_at h p n = map_option fst (on_list h p (\<lambda>s l. no_result (push_list_node s l n)))"

definition unshift_at :: "'v pq_heap \<Rightarrow> addr ptr \<Rightarrow> addr ptr \<Rightarrow> 'v pq_heap option" where
  "unshift_at h p n = map_option fst (on_list h p (\<lambda>s l. no_result (unshift_list_node s l n)))"

definition remove_at :: "'v pq_heap \<Rightarrow> addr ptr \<Rightarrow> addr ptr \<Rightarrow> 'v pq_heap option" where
  "remove_at h p n = map_option fst (on_list h p (\<lambda>s l. no_result (remove_internal_list_node s l n)))"

definition shift_at :: "'v pq_heap \<Rightarrow> addr ptr \<Rightarrow> ('v pq_heap \<times> addr ptr) option" where
  "shift_at h p = on_list h p shift_list_node"

text \<open>\<open>free_list_node\<close> on the heap, \<open>list->length\<close>, and \<open>destroy_list\<close> with
  \<open>DESTROY_MODE_IGNORE_VALUES\<close>, which also frees the struct.\<close>

definition free_node_at :: "'v pq_heap \<Rightarrow> addr ptr \<Rightarrow> ('v pq_heap \<times> addr ptr) option" where
  "free_node_at h n = map_option (\<lambda>(s, v). (h\<lparr>list_nodes := s\<rparr>, v)) (free_list_node (list_nodes h) n)"

definition length_at :: "'v pq_heap \<Rightarrow> addr ptr \<Rightarrow> int option" where
  "length_at h p = do { a \<leftarrow> p; map_option len (list_structs h a) }"

definition destroy_at :: "'v pq_heap \<Rightarrow> addr ptr \<Rightarrow> 'v pq_heap option" where
  "destroy_at h p = (case p of None \<Rightarrow> Some h
     | Some a \<Rightarrow> do {
         l \<leftarrow> list_structs h a;
         (s, _) \<leftarrow> destroy_list (list_nodes h) (Some l) DESTROY_MODE_IGNORE_VALUES;
         free_list (h\<lparr>list_nodes := s\<rparr>) (Some a) })"

subsection \<open>Nodes\<close>

definition initialize_priority_queue :: priority_queue where
  "initialize_priority_queue = \<lparr>priorities = initialize_long_map, ids = initialize_string_map False,
     pq_first = None, pq_length = 0\<rparr>"

definition create_priority_node :: "'v pq_heap \<Rightarrow> ulong \<Rightarrow> string \<Rightarrow> 'v ptr \<Rightarrow> 'v pq_heap \<times> addr" where
  "create_priority_node h priority ident value =
     (h\<lparr>pnodes := (pnodes h)(fresh h \<mapsto> \<lparr>pn_priority = priority, pn_id = ident, pn_value = value\<rparr>),
        fresh := Suc (fresh h)\<rparr>, fresh h)"

definition free_priority_queue_node :: "'v pq_heap \<Rightarrow> addr ptr \<Rightarrow> ('v pq_heap \<times> 'v ptr) option" where
  "free_priority_queue_node h pn =
     (case pn of None \<Rightarrow> Some (h, None)
      | Some a \<Rightarrow> do {
          n \<leftarrow> pnodes h a;
          Some (h\<lparr>pnodes := (pnodes h)(a := None)\<rparr>, pn_value n) })"

subsection \<open>Operations on nodes\<close>

definition push_priority_queue_node :: "'v pq_heap \<Rightarrow> priority_queue ptr \<Rightarrow> addr ptr
    \<Rightarrow> ('v pq_heap \<times> priority_queue ptr) option" where
  "push_priority_queue_node h pq pn =
     (case (pq, pn) of
        (Some pq, Some a) \<Rightarrow> do {
          let (s, lpn) = create_list_node (list_nodes h) (Some a);
          let (h, new_list) = malloc_list (h\<lparr>list_nodes := s\<rparr>);
          h \<leftarrow> push_at h (Some new_list) (Some lpn);
          n \<leftarrow> pnodes h a;
          (m, old_list) \<leftarrow> set_long_map_element (priorities pq) (pn_priority n) (Some new_list);
          (h, m, new_list) \<leftarrow> (case old_list of
             None \<Rightarrow> Some (h, m, new_list)
           | Some old \<Rightarrow> do {
               h \<leftarrow> push_at h (Some old) (Some lpn);
               (m, _) \<leftarrow> set_long_map_element m (pn_priority n) (Some old);
               h \<leftarrow> free_list h (Some new_list);
               Some (h, m, old) });
          first \<leftarrow> (case pq_first pq of
             None \<Rightarrow> Some a
           | Some f \<Rightarrow> do {
               fn \<leftarrow> pnodes h f;
               Some (if pn_priority n < pn_priority fn then a else f) });
          let (h, idn) = malloc_idnode h (Some new_list) (Some lpn);
          (i, _) \<leftarrow> set_string_map_element (ids pq) (pn_id n) (Some idn);
          Some (h, Some \<lparr>priorities = m, ids = i, pq_first = Some first, pq_length = pq_length pq + 1\<rparr>) }
      | _ \<Rightarrow> Some (h, pq))"

text \<open>The tail shared by shift and remove: \<open>first\<close> becomes the value of the first node of the
  given list, read by shifting that node out and putting it back.\<close>

definition reset_first :: "'v pq_heap \<Rightarrow> addr ptr \<Rightarrow> ('v pq_heap \<times> addr ptr) option" where
  "reset_first h next_first_list =
     (case next_first_list of
        None \<Rightarrow> Some (h, None)
      | Some _ \<Rightarrow> do {
          (h, next_first_node) \<leftarrow> shift_at h next_first_list;
          a \<leftarrow> next_first_node;
          n \<leftarrow> mem (list_nodes h) a;
          h \<leftarrow> unshift_at h next_first_list next_first_node;
          Some (h, node_val n) })"

definition shift_priority_queue_node :: "'v pq_heap \<Rightarrow> priority_queue ptr
    \<Rightarrow> ('v pq_heap \<times> priority_queue ptr \<times> addr ptr) option" where
  "shift_priority_queue_node h pq =
     (case pq of None \<Rightarrow> Some (h, None, None)
      | Some pq \<Rightarrow>
         (case pq_first pq of None \<Rightarrow> Some (h, Some pq, None)
          | Some f \<Rightarrow> do {
              fn \<leftarrow> pnodes h f;
              (m, next_list) \<leftarrow> remove_long_map_element (priorities pq) (pn_priority fn);
              (h, smallest_list_node) \<leftarrow> shift_at h next_list;
              n \<leftarrow> length_at h next_list;
              (h, m, next_first_list) \<leftarrow> (if n = 0
                then do {
                  h \<leftarrow> destroy_at h next_list;
                  Some (h, m, fst (get_smallest_long_map_element m 0)) }
                else do {
                  (m, _) \<leftarrow> set_long_map_element m (pn_priority fn) next_list;
                  Some (h, m, next_list) });
              (h, return_node) \<leftarrow> free_node_at h smallest_list_node;
              r \<leftarrow> return_node;
              rn \<leftarrow> pnodes h r;
              (i, idn) \<leftarrow> remove_string_map_element (ids pq) (pn_id rn);
              h \<leftarrow> free_idnode h idn;
              (h, first) \<leftarrow> reset_first h next_first_list;
              Some (h, Some \<lparr>priorities = m, ids = i, pq_first = first, pq_length = pq_length pq - 1\<rparr>,
                return_node) }))"

definition get_priority_queue_node_with_id :: "'v pq_heap \<Rightarrow> priority_queue ptr \<Rightarrow> string ptr
    \<Rightarrow> (priority_queue ptr \<times> addr ptr) option" where
  "get_priority_queue_node_with_id h pq ident =
     (case (pq, ident) of
        (Some pq, Some ident) \<Rightarrow> do {
          (i, idn) \<leftarrow> get_string_map_element (ids pq) ident;
          let pq = pq\<lparr>ids := i\<rparr>;
          (case idn of None \<Rightarrow> Some (Some pq, None)
           | Some d \<Rightarrow> do {
               rec \<leftarrow> idnodes h d;
               a \<leftarrow> id_node rec;
               n \<leftarrow> mem (list_nodes h) a;
               Some (Some pq, node_val n) }) }
      | _ \<Rightarrow> Some (pq, None))"

definition remove_priority_queue_node_with_id :: "'v pq_heap \<Rightarrow> priority_queue ptr \<Rightarrow> string ptr
    \<Rightarrow> ('v pq_heap \<times> priority_queue ptr \<times> addr ptr) option" where
  "remove_priority_queue_node_with_id h pq ident =
     (case (pq, ident) of
        (Some pq, Some ident) \<Rightarrow> do {
          (i, idn) \<leftarrow> remove_string_map_element (ids pq) ident;
          let pq = pq\<lparr>ids := i\<rparr>;
          (case idn of None \<Rightarrow> Some (h, Some pq, None)
           | Some d \<Rightarrow> do {
               rec \<leftarrow> idnodes h d;
               h \<leftarrow> remove_at h (id_list rec) (id_node rec);
               (h, return_node) \<leftarrow> free_node_at h (id_node rec);
               n \<leftarrow> length_at h (id_list rec);
               (h, m) \<leftarrow> (if n = 0
                 then do {
                   r \<leftarrow> return_node;
                   rn \<leftarrow> pnodes h r;
                   (m, _) \<leftarrow> remove_long_map_element (priorities pq) (pn_priority rn);
                   h \<leftarrow> destroy_at h (id_list rec);
                   Some (h, m) }
                 else Some (h, priorities pq));
               h \<leftarrow> free_idnode h idn;
               (h, first) \<leftarrow> (if return_node = pq_first pq
                 then reset_first h (fst (get_smallest_long_map_element m 0))
                 else Some (h, pq_first pq));
               Some (h, Some (pq\<lparr>priorities := m, pq_first := first, pq_length := pq_length pq - 1\<rparr>),
                 return_node) }) }
      | _ \<Rightarrow> Some (h, pq, None))"

definition set_priority_for_id_in_priority_queue :: "'v pq_heap \<Rightarrow> priority_queue ptr \<Rightarrow> string ptr
    \<Rightarrow> ulong \<Rightarrow> ('v pq_heap \<times> priority_queue ptr) option" where
  "set_priority_for_id_in_priority_queue h pq ident priority =
     (if pq \<noteq> None \<and> ident \<noteq> None
      then do {
        (h, pq, id_pq_node) \<leftarrow> remove_priority_queue_node_with_id h pq ident;
        a \<leftarrow> id_pq_node;
        n \<leftarrow> pnodes h a;
        push_priority_queue_node (h\<lparr>pnodes := (pnodes h)(a \<mapsto> n\<lparr>pn_priority := priority\<rparr>)\<rparr>) pq id_pq_node }
      else Some (h, pq))"

definition peek_priority_queue_node :: "priority_queue ptr \<Rightarrow> addr ptr option" where
  "peek_priority_queue_node pq = map_option pq_first pq"

subsection \<open>Operations on values\<close>

definition push_priority_queue :: "'v pq_heap \<Rightarrow> priority_queue ptr \<Rightarrow> ulong \<Rightarrow> string ptr \<Rightarrow> 'v ptr
    \<Rightarrow> ('v pq_heap \<times> priority_queue ptr) option" where
  "push_priority_queue h pq priority ident value =
     (case (pq, ident) of
        (Some _, Some i) \<Rightarrow> (let (h, pn) = create_priority_node h priority i value in
          push_priority_queue_node h pq (Some pn))
      | _ \<Rightarrow> Some (h, pq))"

text \<open>The out-parameters \<open>*priority\<close> and \<open>*id\<close> are passed in and out.\<close>

definition shift_priority_queue :: "'v pq_heap \<Rightarrow> priority_queue ptr \<Rightarrow> ulong \<times> string ptr
    \<Rightarrow> ('v pq_heap \<times> priority_queue ptr \<times> (ulong \<times> string ptr) \<times> 'v ptr) option" where
  "shift_priority_queue h pq out = do {
     (h, pq, pn) \<leftarrow> shift_priority_queue_node h pq;
     (case pn of None \<Rightarrow> Some (h, pq, out, None)
      | Some a \<Rightarrow> do {
          n \<leftarrow> pnodes h a;
          (h, value) \<leftarrow> free_priority_queue_node h pn;
          Some (h, pq, (pn_priority n, Some (pn_id n)), value) }) }"

definition peek_priority_queue :: "'v pq_heap \<Rightarrow> priority_queue ptr
    \<Rightarrow> ((ulong \<times> string ptr) \<times> 'v ptr) option" where
  "peek_priority_queue h pq =
     (case pq of None \<Rightarrow> Some ((0, None), None)
      | Some pq \<Rightarrow>
         (case pq_first pq of None \<Rightarrow> Some ((0, None), None)
          | Some a \<Rightarrow> do {
              n \<leftarrow> pnodes h a;
              Some ((pn_priority n, Some (pn_id n)), pn_value n) }))"

definition get_priority_queue_element_with_id :: "'v pq_heap \<Rightarrow> priority_queue ptr \<Rightarrow> string ptr
    \<Rightarrow> ('v pq_heap \<times> priority_queue ptr \<times> ulong \<times> 'v ptr) option" where
  "get_priority_queue_element_with_id h pq ident = do {
     (pq, pn) \<leftarrow> get_priority_queue_node_with_id h pq ident;
     (case pn of None \<Rightarrow> Some (h, pq, 0, None)
      | Some a \<Rightarrow> do {
          n \<leftarrow> pnodes h a;
          (h, value) \<leftarrow> free_priority_queue_node h pn;
          Some (h, pq, pn_priority n, value) }) }"

definition remove_priority_queue_element_with_id :: "'v pq_heap \<Rightarrow> priority_queue ptr \<Rightarrow> string ptr
    \<Rightarrow> ('v pq_heap \<times> priority_queue ptr \<times> ulong \<times> 'v ptr) option" where
  "remove_priority_queue_element_with_id h pq ident = do {
     (h, pq, pn) \<leftarrow> remove_priority_queue_node_with_id h pq ident;
     (case pn of None \<Rightarrow> Some (h, pq, 0, None)
      | Some a \<Rightarrow> do {
          n \<leftarrow> pnodes h a;
          (h, value) \<leftarrow> free_priority_queue_node h pn;
          Some (h, pq, pn_priority n, value) }) }"

subsection \<open>Destruction\<close>

partial_function (option) destroy_pq_loop :: "int \<Rightarrow> 'v pq_heap \<Rightarrow> priority_queue
    \<Rightarrow> 'v ptr option list \<Rightarrow> nat \<Rightarrow> 'v ptr list
    \<Rightarrow> ('v pq_heap \<times> priority_queue \<times> 'v ptr option list \<times> nat \<times> 'v ptr list) option" where
  "destroy_pq_loop mode h pq values num freed =
     (if pq_length pq > 0
      then do {
        (h, pq', pqn) \<leftarrow> shift_priority_queue_node h (Some pq);
        pq \<leftarrow> pq';
        (h, next_value) \<leftarrow> free_priority_queue_node h pqn;
        values \<leftarrow> (if mode = DESTROY_MODE_RETURN_VALUES
          then buf_write values num (Some next_value) else Some values);
        destroy_pq_loop mode h pq values (num + 1)
          (if mode = DESTROY_MODE_FREE_VALUES then freed @ [next_value] else freed) }
      else Some (h, pq, values, num, freed))"

definition destroy_priority_queue :: "'v pq_heap \<Rightarrow> priority_queue ptr \<Rightarrow> int
    \<Rightarrow> ('v pq_heap \<times> 'v destroyed) option" where
  "destroy_priority_queue h pq mode =
     (case pq of None \<Rightarrow> Some (h, \<lparr>returned = None, num_destroyed = 0, freed_values = []\<rparr>)
      | Some pq \<Rightarrow> do {
          let values = (if mode = DESTROY_MODE_RETURN_VALUES
            then replicate (nat (pq_length pq + 1)) None else []);
          (h, pq, values, num, freed) \<leftarrow> destroy_pq_loop mode h pq values 0 [];
          values \<leftarrow> (if mode = DESTROY_MODE_RETURN_VALUES
            then buf_write values num (Some None) else Some values);
          d \<leftarrow> destroy_long_map (priorities pq) DESTROY_MODE_FREE_VALUES;
          h \<leftarrow> fold (\<lambda>p h. Option.bind h (\<lambda>h. free_list h p)) (freed_values d) (Some h);
          e \<leftarrow> destroy_string_map (Some (ids pq)) DESTROY_MODE_FREE_VALUES;
          e \<leftarrow> e;
          h \<leftarrow> fold (\<lambda>p h. Option.bind h (\<lambda>h. free_idnode h p)) (freed_values e) (Some h);
          Some (h, \<lparr>returned = (if mode = DESTROY_MODE_RETURN_VALUES then Some values else None),
            num_destroyed = num, freed_values = freed\<rparr>) })"

subsection \<open>What the heap describes\<close>

text \<open>An entry of the queue, with the addresses of its queue node, list node and id record. The
  function \<open>la\<close> gives the address of the list struct of each priority in use.\<close>

record 'v entry =
  e_prio :: ulong
  e_id :: string
  e_val :: "'v ptr"
  e_pn :: addr
  e_ln :: addr
  e_idn :: addr

definition e_hash :: "'v entry \<Rightarrow> ulong" where
  "e_hash e = sdbm_string_hash (e_id e)"

definition node_of :: "'v entry \<Rightarrow> 'v priority_queue_node" where
  "node_of e = \<lparr>pn_priority = e_prio e, pn_id = e_id e, pn_value = e_val e\<rparr>"

definition grp :: "'v entry list \<Rightarrow> ulong \<Rightarrow> 'v entry list" where
  "grp es p = filter (\<lambda>e. e_prio e = p) es"

definition list_ok :: "'v pq_heap \<Rightarrow> addr \<Rightarrow> addr list \<Rightarrow> bool" where
  "list_ok h a as \<longleftrightarrow> (\<exists>l. list_structs h a = Some l \<and> list_at (list_nodes h) l as)"

definition entry_ok :: "'v pq_heap \<Rightarrow> (ulong \<Rightarrow> addr) \<Rightarrow> 'v entry \<Rightarrow> bool" where
  "entry_ok h la e \<longleftrightarrow> pnodes h (e_pn e) = Some (node_of e) \<and>
     idnodes h (e_idn e) = Some \<lparr>id_list = Some (la (e_prio e)), id_node = Some (e_ln e)\<rparr> \<and>
     map_option node_val (mem (list_nodes h) (e_ln e)) = Some (Some (e_pn e))"

definition alloc_ok :: "'v pq_heap \<Rightarrow> bool" where
  "alloc_ok h \<longleftrightarrow> store_ok (list_nodes h) \<and>
     (\<forall>a. list_structs h a \<noteq> None \<or> pnodes h a \<noteq> None \<or> idnodes h a \<noteq> None \<longrightarrow> a < fresh h)"

definition heap_ok :: "'v pq_heap \<Rightarrow> (ulong \<Rightarrow> addr) \<Rightarrow> 'v entry list \<Rightarrow> bool" where
  "heap_ok h la es \<longleftrightarrow> alloc_ok h \<and> inj_on la (e_prio ` set es) \<and>
     distinct (map e_ln es) \<and> distinct (map e_pn es) \<and> distinct (map e_idn es) \<and>
     (\<forall>e \<in> set es. entry_ok h la e \<and> list_ok h (la (e_prio e)) (map e_ln (grp es (e_prio e))))"

definition prio_map :: "(ulong \<Rightarrow> addr) \<Rightarrow> 'v entry list \<Rightarrow> ulong \<rightharpoonup> addr ptr" where
  "prio_map la es p = (if p \<in> e_prio ` set es then Some (Some (la p)) else None)"

definition id_map :: "'v entry list \<Rightarrow> ulong \<rightharpoonup> addr ptr" where
  "id_map es = map_of (map (\<lambda>e. (e_hash e, Some (e_idn e))) es)"

definition maps_ok :: "addr long_map \<Rightarrow> addr string_map \<Rightarrow> (ulong \<Rightarrow> addr) \<Rightarrow> 'v entry list \<Rightarrow> bool" where
  "maps_ok m i la es \<longleftrightarrow> long_map_invar m \<and> string_map_invar i \<and>
     long_map_abs m = prio_map la es \<and> string_map_abs i = id_map es"

text \<open>The entries are in order of priority, and no two ids share a hash.\<close>

definition queue_ok :: "'v entry list \<Rightarrow> bool" where
  "queue_ok es \<longleftrightarrow> sorted (map e_prio es) \<and> distinct (map e_hash es)"

definition first_of :: "'v entry list \<Rightarrow> addr ptr" where
  "first_of es = (case es of [] \<Rightarrow> None | e # _ \<Rightarrow> Some (e_pn e))"

definition pq_at :: "'v pq_heap \<Rightarrow> priority_queue \<Rightarrow> (ulong \<Rightarrow> addr) \<Rightarrow> 'v entry list \<Rightarrow> bool" where
  "pq_at h pq la es \<longleftrightarrow> queue_ok es \<and> heap_ok h la es \<and> maps_ok (priorities pq) (ids pq) la es \<and>
     pq_first pq = first_of es \<and> pq_length pq = int (length es)"

text \<open>Where a new entry goes: behind the entries of its priority.\<close>

definition insert_entry :: "'v entry \<Rightarrow> 'v entry list \<Rightarrow> 'v entry list" where
  "insert_entry e es = takeWhile (\<lambda>x. e_prio x \<le> e_prio e) es @ e # dropWhile (\<lambda>x. e_prio x \<le> e_prio e) es"

lemma grp_append [simp]: "grp (xs @ ys) p = grp xs p @ grp ys p"
  by (simp add: grp_def)

lemma grp_Cons [simp]: "grp (e # es) p = (if e_prio e = p then e # grp es p else grp es p)"
  by (simp add: grp_def)

lemma grp_Nil [simp]: "grp [] p = []"
  by (simp add: grp_def)

lemma grp_empty_iff: "grp es p = [] \<longleftrightarrow> p \<notin> e_prio ` set es"
  by (auto simp: grp_def filter_empty_conv)

lemma set_grp [simp]: "set (grp es p) = {e \<in> set es. e_prio e = p}"
  by (auto simp: grp_def)

lemma set_insert_entry [simp]: "set (insert_entry e es) = insert e (set es)"
  unfolding insert_entry_def by (auto dest: set_takeWhileD set_dropWhileD)
    (metis Un_iff set_append takeWhile_dropWhile_id)

lemma dropWhile_above:
  "sorted (map e_prio es) \<Longrightarrow> x \<in> set (dropWhile (\<lambda>x. e_prio x \<le> p) es) \<Longrightarrow> e_prio x > p"
  by (induction es) (auto split: if_splits)

lemma grp_insert:
  assumes "sorted (map e_prio es)"
  shows "grp (insert_entry e es) p = (if p = e_prio e then grp es p @ [e] else grp es p)"
proof -
  define xs ys where "xs = takeWhile (\<lambda>x. e_prio x \<le> e_prio e) es" and "ys = dropWhile (\<lambda>x. e_prio x \<le> e_prio e) es"
  have es: "es = xs @ ys" by (simp add: xs_def ys_def)
  have "grp ys (e_prio e) = []" using dropWhile_above[OF assms, of _ "e_prio e"] by (fastforce simp: ys_def grp_empty_iff)
  then show ?thesis by (simp add: insert_entry_def xs_def[symmetric] ys_def[symmetric]) (simp add: es)
qed

lemma distinct_insert:
  "distinct (map f (insert_entry e es)) \<longleftrightarrow> distinct (map f es) \<and> f e \<notin> f ` set es"
proof -
  define xs ys where "xs = takeWhile (\<lambda>x. e_prio x \<le> e_prio e) es" and "ys = dropWhile (\<lambda>x. e_prio x \<le> e_prio e) es"
  have es: "es = xs @ ys" by (simp add: xs_def ys_def)
  show ?thesis by (simp add: insert_entry_def xs_def[symmetric] ys_def[symmetric]) (auto simp: es)
qed

lemma insert_entry_simps [simp]:
  "insert_entry e [] = [e]"
  "insert_entry e (x # xs) = (if e_prio x \<le> e_prio e then x # insert_entry e xs else e # x # xs)"
  by (simp_all add: insert_entry_def)

lemma sorted_insert: "sorted (map e_prio es) \<Longrightarrow> sorted (map e_prio (insert_entry e es))"
  by (induction es) auto

lemma length_insert [simp]: "length (insert_entry e es) = Suc (length es)"
  by (induction es) auto

lemma id_map_insert:
  "e_hash e \<notin> e_hash ` set es \<Longrightarrow> id_map (insert_entry e es) = (id_map es)(e_hash e \<mapsto> Some (e_idn e))"
proof -
  define xs ys where "xs = takeWhile (\<lambda>x. e_prio x \<le> e_prio e) es" and "ys = dropWhile (\<lambda>x. e_prio x \<le> e_prio e) es"
  have es: "es = xs @ ys" by (simp add: xs_def ys_def)
  assume "e_hash e \<notin> e_hash ` set es"
  then have "map_of (map (\<lambda>e. (e_hash e, Some (e_idn e))) xs) (e_hash e) = None"
    by (auto simp: es map_of_eq_None_iff)
  then show ?thesis
    by (simp add: insert_entry_def xs_def[symmetric] ys_def[symmetric])
      (auto simp: es id_map_def map_add_def fun_eq_iff split: option.split)
qed

lemma id_map_delete:
  assumes "distinct (map e_hash (xs @ e # ys))"
  shows "id_map (xs @ ys) = (id_map (xs @ e # ys))(e_hash e := None)" and
    "id_map (xs @ e # ys) (e_hash e) = Some (Some (e_idn e))"
proof -
  from assms have n: "map_of (map (\<lambda>e. (e_hash e, Some (e_idn e))) xs) (e_hash e) = None"
    "map_of (map (\<lambda>e. (e_hash e, Some (e_idn e))) ys) (e_hash e) = None"
    by (auto simp: map_of_eq_None_iff)
  then show "id_map (xs @ ys) = (id_map (xs @ e # ys))(e_hash e := None)"
    "id_map (xs @ e # ys) (e_hash e) = Some (Some (e_idn e))"
    by (auto simp: id_map_def map_add_def fun_eq_iff split: option.split)
qed

lemma id_map_None: "id_map es k = None \<longleftrightarrow> k \<notin> e_hash ` set es"
  by (simp add: id_map_def map_of_eq_None_iff image_image)

subsection \<open>List operations on the heap\<close>

text \<open>The frame of an operation on the list structs \<open>A\<close> and the list nodes \<open>N\<close>: no other object
  changes, nothing is allocated or freed, no node changes its value.\<close>

definition relisted :: "addr set \<Rightarrow> addr set \<Rightarrow> 'v pq_heap \<Rightarrow> 'v pq_heap \<Rightarrow> bool" where
  "relisted A N h h' \<longleftrightarrow> relinked N (list_nodes h) (list_nodes h') \<and>
     (\<forall>b. b \<notin> A \<longrightarrow> list_structs h' b = list_structs h b) \<and> (\<forall>b. list_structs h' b = None \<longleftrightarrow> list_structs h b = None) \<and>
     pnodes h' = pnodes h \<and> idnodes h' = idnodes h \<and> fresh h' = fresh h"

lemma relisted_list_ok:
  "relisted A N h h' \<Longrightarrow> a \<notin> A \<Longrightarrow> N \<inter> set as = {} \<Longrightarrow> list_ok h' a as = list_ok h a as"
  using relinked_list_at[of N "list_nodes h" "list_nodes h'" as] by (simp add: relisted_def list_ok_def)

lemma relisted_alloc_ok: "relisted A N h h' \<Longrightarrow> alloc_ok h \<Longrightarrow> alloc_ok h'"
  unfolding relisted_def alloc_ok_def by (metis relinked_store_ok)

lemma relisted_entry_ok: "relisted A N h h' \<Longrightarrow> entry_ok h' la e = entry_ok h la e"
  by (simp add: relisted_def entry_ok_def relinked_def)

lemma relinked_trans:
  "relinked A s s' \<Longrightarrow> relinked B s' s'' \<Longrightarrow> relinked (A \<union> B) s s''"
  by (simp add: relinked_def)

lemma relisted_trans:
  "relisted A N h h' \<Longrightarrow> relisted B M h' h'' \<Longrightarrow> relisted (A \<union> B) (N \<union> M) h h''"
  unfolding relisted_def by (auto dest: relinked_trans)

lemma list_ok_nodes: "list_ok h a as \<Longrightarrow> n \<in> set as \<Longrightarrow> \<exists>nd. mem (list_nodes h) n = Some nd"
  by (auto simp: list_ok_def dest: list_at_alloc)

lemma push_at_ok:
  assumes "list_ok h a as" and "mem (list_nodes h) n = Some nd" and "n \<notin> set as"
  shows "\<exists>h'. push_at h (Some a) (Some n) = Some h' \<and> list_ok h' a (as @ [n]) \<and>
    relisted {a} (set (as @ [n])) h h'"
proof -
  from assms(1) obtain l where l: "list_structs h a = Some l" "list_at (list_nodes h) l as"
    by (auto simp: list_ok_def)
  from push_node_ok[OF l(2) assms(2,3)] l(1) show ?thesis
    by (auto simp: push_at_def on_list_def no_result_def list_ok_def relisted_def)
qed

lemma unshift_at_ok:
  assumes "list_ok h a as" and "mem (list_nodes h) n = Some nd" and "n \<notin> set as"
  shows "\<exists>h'. unshift_at h (Some a) (Some n) = Some h' \<and> list_ok h' a (n # as) \<and>
    relisted {a} (set (n # as)) h h'"
proof -
  from assms(1) obtain l where l: "list_structs h a = Some l" "list_at (list_nodes h) l as"
    by (auto simp: list_ok_def)
  from unshift_node_ok[OF l(2) assms(2,3)] l(1) show ?thesis
    by (auto simp: unshift_at_def on_list_def no_result_def list_ok_def relisted_def)
qed

lemma shift_at_ok:
  assumes "list_ok h a (n # as)"
  shows "\<exists>h'. shift_at h (Some a) = Some (h', Some n) \<and> list_ok h' a as \<and>
    relisted {a} (set (n # as)) h h'"
proof -
  from assms(1) obtain l where l: "list_structs h a = Some l" "list_at (list_nodes h) l (n # as)"
    by (auto simp: list_ok_def)
  from shift_node_ok[OF l(2)] l(1) show ?thesis
    by (auto simp: shift_at_def on_list_def list_ok_def relisted_def)
qed

lemma remove_at_ok:
  assumes "list_ok h a (xs @ n # ys)"
  shows "\<exists>h'. remove_at h (Some a) (Some n) = Some h' \<and> list_ok h' a (xs @ ys) \<and>
    relisted {a} (set (xs @ n # ys)) h h'"
proof -
  from assms(1) obtain l where l: "list_structs h a = Some l" "list_at (list_nodes h) l (xs @ n # ys)"
    by (auto simp: list_ok_def)
  from remove_internal_ok[OF l(2)] l(1) show ?thesis
    by (auto simp: remove_at_def on_list_def no_result_def list_ok_def relisted_def)
qed

lemma length_at_ok: "list_ok h a as \<Longrightarrow> length_at h (Some a) = Some (int (length as))"
  by (auto simp: list_ok_def length_at_def list_at_def)

lemma destroy_at_empty:
  assumes "list_ok h a []"
  shows "destroy_at h (Some a) = Some (h\<lparr>list_structs := (list_structs h)(a := None)\<rparr>)"
proof -
  from assms obtain l where l: "list_structs h a = Some l" "len l = 0"
    by (auto simp: list_ok_def list_at_def)
  then show ?thesis
    by (simp add: destroy_at_def destroy_list_def free_list_def Let_def destroy_modes destroy_list_loop.simps)
qed

lemma reset_first_ok:
  assumes "list_ok h a (n # ns)"
  shows "\<exists>h'. reset_first h (Some a) = Some (h', node_val (the (mem (list_nodes h) n))) \<and>
    list_ok h' a (n # ns) \<and> relisted {a} (set (n # ns)) h h'"
proof -
  from shift_at_ok[OF assms] obtain h1 where h1: "shift_at h (Some a) = Some (h1, Some n)"
    "list_ok h1 a ns" "relisted {a} (set (n # ns)) h h1" by blast
  from list_ok_nodes[OF assms, of n] obtain nd where nd: "mem (list_nodes h) n = Some nd" by auto
  from h1(3) nd have "map_option node_val (mem (list_nodes h1) n) = Some (node_val nd)"
    by (simp add: relisted_def relinked_def)
  then obtain nd1 where nd1: "mem (list_nodes h1) n = Some nd1" "node_val nd1 = node_val nd" by auto
  have "n \<notin> set ns" using assms by (auto simp: list_ok_def list_at_def)
  from unshift_at_ok[OF h1(2) nd1(1) this] obtain h2 where h2: "unshift_at h1 (Some a) (Some n) = Some h2"
    "list_ok h2 a (n # ns)" "relisted {a} (set (n # ns)) h1 h2" by blast
  from relisted_trans[OF h1(3) h2(3)] have "relisted {a} (set (n # ns)) h h2" by simp
  with h1(1) nd nd1 h2 show ?thesis by (simp add: reset_first_def)
qed

text \<open>Relinking the list of one priority keeps the heap in order.\<close>

lemma heap_ok_groups_disjoint:
  assumes "heap_ok h la es" and "p \<noteq> q"
  shows "set (map e_ln (grp es p)) \<inter> set (map e_ln (grp es q)) = {}"
  using assms by (auto simp: heap_ok_def distinct_map inj_on_def)

lemma heap_ok_relisted:
  assumes h: "heap_ok h la es" and p: "p \<in> e_prio ` set es"
    and r: "relisted {la p} (set (map e_ln (grp es p))) h h'"
    and l: "list_ok h' (la p) (map e_ln (grp es p))"
  shows "heap_ok h' la es"
proof -
  have "list_ok h' (la (e_prio e)) (map e_ln (grp es (e_prio e)))" if e: "e \<in> set es" for e
  proof (cases "e_prio e = p")
    case False
    from h p e have "la (e_prio e) \<noteq> la p" using False by (auto simp: heap_ok_def inj_on_def)
    with relisted_list_ok[OF r, of "la (e_prio e)" "map e_ln (grp es (e_prio e))"]
      heap_ok_groups_disjoint[OF h, of p "e_prio e"] False h e
    show ?thesis by (auto simp: heap_ok_def)
  qed (use l in simp)
  with h show ?thesis
    using relisted_alloc_ok[OF r] by (simp add: heap_ok_def relisted_entry_ok[OF r])
qed

subsection \<open>Adding and dropping an entry\<close>

lemma heap_ok_group:
  "heap_ok h la es \<Longrightarrow> q \<in> e_prio ` set es \<Longrightarrow> list_ok h (la q) (map e_ln (grp es q))"
  by (auto simp: heap_ok_def)

lemma heap_okI:
  assumes "alloc_ok h" "inj_on la (e_prio ` set es)" "distinct (map e_ln es)" "distinct (map e_pn es)"
    "distinct (map e_idn es)" "\<And>e. e \<in> set es \<Longrightarrow> entry_ok h la e"
    "\<And>q. q \<in> e_prio ` set es \<Longrightarrow> list_ok h (la q) (map e_ln (grp es q))"
  shows "heap_ok h la es"
  using assms by (simp add: heap_ok_def)

lemma heap_insert:
  assumes h: "heap_ok h1 la es" and srt: "sorted (map e_prio es)"
    and fr: "e_ln e \<notin> e_ln ` set es" "e_pn e \<notin> e_pn ` set es" "e_idn e = fresh h3"
    and nl: "nl \<notin> la ` e_prio ` set es"
    and la': "la' = (if e_prio e \<in> e_prio ` set es then la else la(e_prio e := nl))"
    and r: "relisted {nl, la' (e_prio e)} (insert (e_ln e) (set (map e_ln (grp es (e_prio e))))) h1 h3"
    and l: "list_ok h3 (la' (e_prio e)) (map e_ln (grp es (e_prio e)) @ [e_ln e])"
    and pn: "pnodes h1 (e_pn e) = Some (node_of e)"
    and val: "map_option node_val (mem (list_nodes h1) (e_ln e)) = Some (Some (e_pn e))"
    and h4: "list_structs h4 = (if e_prio e \<in> e_prio ` set es then (list_structs h3)(nl := None) else list_structs h3)"
      "list_nodes h4 = list_nodes h3" "pnodes h4 = pnodes h3" "fresh h4 = Suc (fresh h3)"
      "idnodes h4 = (idnodes h3)(fresh h3 \<mapsto> \<lparr>id_list = Some (la' (e_prio e)), id_node = Some (e_ln e)\<rparr>)"
  shows "heap_ok h4 la' (insert_entry e es)"
proof -
  let ?p = "e_prio e"
  have eq: "la' (e_prio x) = la (e_prio x)" if "x \<in> set es" for x
    using imageI[OF that, of e_prio] by (auto simp: la')
  have a3: "alloc_ok h3" using h relisted_alloc_ok[OF r] by (simp add: heap_ok_def)
  have old: "entry_ok h3 la x" "idnodes h3 (e_idn x) \<noteq> None" if "x \<in> set es" for x
    using that h relisted_entry_ok[OF r, of la x] by (auto simp: heap_ok_def entry_ok_def)
  have idn: "e_idn x \<noteq> fresh h3" if "x \<in> set es" for x
    using old(2)[OF that] a3 by (auto simp: alloc_ok_def)
  have entries: "entry_ok h4 la' x" if "x \<in> set (insert_entry e es)" for x
  proof (cases "x = e")
    case True
    with pn val r fr(3) show ?thesis by (simp add: entry_ok_def h4 relisted_def relinked_def)
  next
    case False
    with that have "x \<in> set es" by simp
    with old(1) idn eq show ?thesis by (auto simp: entry_ok_def h4)
  qed
  have groups: "list_ok h4 (la' q) (map e_ln (grp (insert_entry e es) q))"
    if q: "q \<in> e_prio ` set (insert_entry e es)" for q
  proof (cases "q = ?p")
    case True
    have "?p \<in> e_prio ` set es \<Longrightarrow> la' ?p \<noteq> nl" using nl by (auto simp: la')
    with l True show ?thesis by (simp add: grp_insert[OF srt] list_ok_def h4)
  next
    case False
    with q have q: "q \<in> e_prio ` set es" by auto
    then have nq: "la q \<noteq> nl" "la' q = la q" using nl False by (auto simp: la')
    have inj: "inj_on la (e_prio ` set es)" using h by (simp add: heap_ok_def)
    have "la q \<noteq> la' ?p"
    proof (cases "?p \<in> e_prio ` set es")
      case True
      with inj_onD[OF inj _ q] False show ?thesis by (metis la')
    qed (use nq in \<open>simp add: la'\<close>)
    note ne = nq this
    have "insert (e_ln e) (set (map e_ln (grp es ?p))) \<inter> set (map e_ln (grp es q)) = {}"
      using heap_ok_groups_disjoint[OF h, of ?p q] False fr(1) by auto
    then have "list_ok h3 (la q) (map e_ln (grp es q)) = list_ok h1 (la q) (map e_ln (grp es q))"
      using ne by (intro relisted_list_ok[OF r]) simp_all
    then have "list_ok h3 (la q) (map e_ln (grp es q))" using heap_ok_group[OF h q] by simp
    then show ?thesis using ne False by (simp add: grp_insert[OF srt] list_ok_def h4)
  qed
  show ?thesis
  proof (rule heap_okI[OF _ _ _ _ _ entries groups])
    show "alloc_ok h4" using a3 by (auto simp: alloc_ok_def h4 less_Suc_eq)
    show "inj_on la' (e_prio ` set (insert_entry e es))"
      using h nl by (auto simp: heap_ok_def la' inj_on_def image_iff)
    show "distinct (map e_ln (insert_entry e es))" "distinct (map e_pn (insert_entry e es))"
      using h fr by (simp_all add: heap_ok_def distinct_insert)
    show "distinct (map e_idn (insert_entry e es))"
      using h idn by (fastforce simp: heap_ok_def distinct_insert fr(3))
  qed
qed

lemma heap_drop:
  assumes h: "heap_ok h la (xs @ e # ys)" and p: "p = e_prio e"
    and r: "relisted {la p} (set (map e_ln (grp (xs @ e # ys) p))) h h1"
    and l: "list_ok h1 (la p) (map e_ln (grp (xs @ ys) p))"
    and h2: "list_nodes h2 = (list_nodes h1)\<lparr>mem := (mem (list_nodes h1))(e_ln e := None)\<rparr>"
      "list_structs h2 = (if grp (xs @ ys) p = [] then (list_structs h1)(la p := None) else list_structs h1)"
      "pnodes h2 = pnodes h1" "idnodes h2 = (idnodes h1)(e_idn e := None)" "fresh h2 = fresh h1"
  shows "heap_ok h2 la (xs @ ys)"
proof -
  have a1: "alloc_ok h1" using h relisted_alloc_ok[OF r] by (simp add: heap_ok_def)
  then have "alloc_ok h2" by (auto simp: alloc_ok_def store_ok_def h2)
  moreover have "inj_on la (e_prio ` set (xs @ ys))"
    using h by (auto simp: heap_ok_def intro: inj_on_subset)
  moreover have "entry_ok h2 la x" if x: "x \<in> set (xs @ ys)" for x
  proof -
    have "entry_ok h1 la x" using h x relisted_entry_ok[OF r, of la x] by (auto simp: heap_ok_def)
    moreover have "e_ln x \<in> e_ln ` set (xs @ ys)" "e_idn x \<in> e_idn ` set (xs @ ys)" using x by blast+
    then have "e_ln x \<noteq> e_ln e" "e_idn x \<noteq> e_idn e" using h by (auto simp: heap_ok_def)
    ultimately show ?thesis by (simp add: entry_ok_def h2)
  qed
  moreover have "list_ok h2 (la q) (map e_ln (grp (xs @ ys) q))" if q: "q \<in> e_prio ` set (xs @ ys)" for q
  proof -
    have n: "e_ln e \<notin> set (map e_ln (grp (xs @ ys) q))" using h by (auto simp: heap_ok_def)
    have "list_ok h1 (la q) (map e_ln (grp (xs @ ys) q)) \<and>
      list_structs h2 (la q) = list_structs h1 (la q)"
    proof (cases "q = p")
      case True
      with q l show ?thesis by (auto simp: h2 grp_empty_iff simp del: grp_append)
    next
      case False
      with h p q have ne: "la q \<noteq> la p" by (auto simp: heap_ok_def inj_on_def)
      from q have "list_ok h (la q) (map e_ln (grp (xs @ e # ys) q))" by (intro heap_ok_group[OF h]) auto
      with ne have "list_ok h1 (la q) (map e_ln (grp (xs @ e # ys) q))"
        using relisted_list_ok[OF r, of "la q" "map e_ln (grp (xs @ e # ys) q)"]
          heap_ok_groups_disjoint[OF h, of p q] False by auto
      with False p ne show ?thesis by (simp add: h2)
    qed
    with n show ?thesis by (auto simp: list_ok_def list_at_def h2(1) simp del: grp_append map_append set_map)
  qed
  ultimately show ?thesis using h by (auto simp: heap_ok_def)
qed

text \<open>The maps.\<close>

lemma prio_map_insert:
  "la' = (if e_prio e \<in> e_prio ` set es then la else la(e_prio e := nl)) \<Longrightarrow>
    prio_map la' (insert_entry e es) = (prio_map la es)(e_prio e \<mapsto> Some (la' (e_prio e)))"
  by (auto simp: prio_map_def fun_eq_iff)

lemma prio_map_drop:
  "prio_map la (xs @ ys) = (if grp (xs @ ys) (e_prio e) = []
    then (prio_map la (xs @ e # ys))(e_prio e := None) else prio_map la (xs @ e # ys))"
  by (auto simp: prio_map_def fun_eq_iff grp_empty_iff simp del: grp_append)

lemma smallest_list:
  assumes m: "long_map_invar m" "long_map_abs m = prio_map la es" and srt: "sorted (map e_prio es)"
  shows "fst (get_smallest_long_map_element m k) = (case es of [] \<Rightarrow> None | e # _ \<Rightarrow> Some (la (e_prio e)))"
proof (cases es)
  case Nil
  then have "dom (long_map_abs m) = {}" by (simp add: m(2) prio_map_def dom_def)
  then have "inorder (root m) = []" by (simp add: dom_long_map_abs)
  then have "root m = NullNode" by (cases "root m") auto
  with Nil show ?thesis by (simp add: get_smallest_long_map_element_def)
next
  case (Cons e es')
  have d: "fst ` set (inorder (root m)) = e_prio ` set es"
    unfolding dom_long_map_abs[of m, symmetric] m(2) by (auto simp: prio_map_def dom_def)
  then obtain q v rest where i: "inorder (root m) = (q, v) # rest"
    using Cons by (cases "inorder (root m)") auto
  have "q \<le> e_prio e"
  proof -
    have "e_prio e \<in> fst ` set (inorder (root m))" using d Cons by simp
    then show ?thesis using m(1) by (auto simp: i long_map_invar_def)
  qed
  moreover have "e_prio e \<le> q"
  proof -
    have "q \<in> e_prio ` set es" using d i by auto
    then show ?thesis using srt Cons by auto
  qed
  ultimately have q: "q = e_prio e" by simp
  have "long_map_abs m q = Some v" by (simp add: long_map_abs_def i)
  then have "v = Some (la q)" by (simp add: m(2) prio_map_def split: if_splits)
  moreover have "root m \<noteq> NullNode" using i by auto
  ultimately show ?thesis
    by (simp add: get_smallest_long_map_element_def smallest_node_hd i q Cons)
qed

subsection \<open>The node operations\<close>

text \<open>What the allocations at the start of a push leave.\<close>

lemma push_alloc:
  assumes h: "heap_ok h la es" and c: "create_list_node (list_nodes h) (Some a) = (s, n)"
    and m: "malloc_list (h\<lparr>list_nodes := s\<rparr>) = (h1, nl)"
  shows "heap_ok h1 la es" and "list_ok h1 nl []" and "nl \<notin> la ` e_prio ` set es"
    and "n \<notin> e_ln ` set es" and "mem (list_nodes h1) n = Some \<lparr>nxt = None, previous = None, node_val = Some a\<rparr>"
    and "pnodes h1 = pnodes h"
proof -
  from c have s: "mem s = (mem (list_nodes h))(n \<mapsto> \<lparr>nxt = None, previous = None, node_val = Some a\<rparr>)"
    "brk s = Suc n" "n = brk (list_nodes h)" by (auto simp: create_list_node_def)
  from m have h1: "list_nodes h1 = s" "list_structs h1 = (list_structs h)(nl \<mapsto> initialize_list)"
    "pnodes h1 = pnodes h" "idnodes h1 = idnodes h" "fresh h1 = Suc nl" "nl = fresh h"
    by (auto simp: malloc_list_def)
  have al: "alloc_ok h" using h by (simp add: heap_ok_def)
  have nn: "mem (list_nodes h) n = None" "list_structs h nl = None"
    using al store_ok_fresh[of "list_nodes h"] by (auto simp: alloc_ok_def s(3) h1(6))
  have ent: "entry_ok h la e" if "e \<in> set es" for e using h that by (simp add: heap_ok_def)
  show ln: "n \<notin> e_ln ` set es" using ent nn(1) by (fastforce simp: entry_ok_def)
  show nl: "nl \<notin> la ` e_prio ` set es"
    using heap_ok_group[OF h] nn(2) by (fastforce simp: list_ok_def)
  show "mem (list_nodes h1) n = Some \<lparr>nxt = None, previous = None, node_val = Some a\<rparr>" "pnodes h1 = pnodes h"
    by (simp_all add: h1 s(1))
  show "list_ok h1 nl []" by (simp add: list_ok_def h1 list_at_def initialize_list_def)
  show "heap_ok h1 la es"
  proof (rule heap_okI)
    show "alloc_ok h1" using al by (fastforce simp: alloc_ok_def store_ok_def h1 s)
    fix e assume "e \<in> set es"
    with ent ln show "entry_ok h1 la e" by (auto simp: entry_ok_def h1 s(1))
  next
    fix q assume q: "q \<in> e_prio ` set es"
    then have "la q \<noteq> nl" "n \<notin> set (map e_ln (grp es q))" using nl ln by auto
    with heap_ok_group[OF h q] show "list_ok h1 (la q) (map e_ln (grp es q))"
      by (auto simp: list_ok_def list_at_def h1 s(1) simp del: set_map)
  qed (use h in \<open>simp_all add: heap_ok_def\<close>)
qed

text \<open>The two ways the list of the new node comes about, as one step.\<close>

definition pushed_list :: "'v pq_heap \<Rightarrow> addr long_map \<Rightarrow> addr ptr \<Rightarrow> ulong \<Rightarrow> addr \<Rightarrow> addr
    \<Rightarrow> ('v pq_heap \<times> addr long_map \<times> addr) option" where
  "pushed_list h m old_list p new_list lpn = (case old_list of
     None \<Rightarrow> Some (h, m, new_list)
   | Some old \<Rightarrow> do {
       h \<leftarrow> push_at h (Some old) (Some lpn);
       (m, _) \<leftarrow> set_long_map_element m p (Some old);
       h \<leftarrow> free_list h (Some new_list);
       Some (h, m, old) })"

lemma pushed_list_ok:
  assumes h: "heap_ok h1 la es" and nl: "list_ok h1 nl []" "nl \<notin> la ` e_prio ` set es"
    and n: "n \<notin> e_ln ` set es" "mem (list_nodes h1) n = Some nd"
    and la': "la' = (if p \<in> e_prio ` set es then la else la(p := nl))"
    and m: "long_map_invar m" "long_map_abs m = prio_map la es"
  shows "\<exists>h2 m1 old h3 h4 m'. push_at h1 (Some nl) (Some n) = Some h2 \<and> pnodes h2 = pnodes h1 \<and>
    set_long_map_element m p (Some nl) = Some (m1, old) \<and>
    pushed_list h2 m1 old p nl n = Some (h4, m', la' p) \<and>
    long_map_invar m' \<and> long_map_abs m' = (prio_map la es)(p \<mapsto> Some (la' p)) \<and>
    relisted {nl, la' p} (insert n (set (map e_ln (grp es p)))) h1 h3 \<and>
    list_ok h3 (la' p) (map e_ln (grp es p) @ [n]) \<and>
    h4 = h3\<lparr>list_structs := (if p \<in> e_prio ` set es then (list_structs h3)(nl := None) else list_structs h3)\<rparr>"
proof -
  from push_at_ok[OF nl(1) n(2)] obtain h2 where h2: "push_at h1 (Some nl) (Some n) = Some h2"
    "list_ok h2 nl [n]" "relisted {nl} {n} h1 h2" by auto
  from long_map_set[OF m(1), of p "Some nl"] obtain m1 where m1:
    "set_long_map_element m p (Some nl) = Some (m1, deref_opt (long_map_abs m p))" "long_map_invar m1"
    "long_map_abs m1 = (long_map_abs m)(p \<mapsto> Some nl)" by blast
  have pn2: "pnodes h2 = pnodes h1" using h2(3) by (simp add: relisted_def)
  show ?thesis
  proof (cases "p \<in> e_prio ` set es")
    case False
    then have g: "grp es p = []" by (simp add: grp_empty_iff)
    have "long_map_abs m p = None" using False by (simp add: m(2) prio_map_def)
    then have "pushed_list h2 m1 (deref_opt (long_map_abs m p)) p nl n = Some (h2, m1, la' p)"
      using False by (simp add: pushed_list_def la')
    moreover have "h2 = h2\<lparr>list_structs := list_structs h2\<rparr>" by simp
    ultimately show ?thesis using h2 m1 pn2 False m(2) la' g
      by (intro exI[of _ h2] exI[of _ m1] exI[of _ "deref_opt (long_map_abs m p)"]) simp
  next
    case True
    have lp: "la' p = la p" "la p \<noteq> nl" using True nl(2) by (auto simp: la')
    have old: "deref_opt (long_map_abs m p) = Some (la p)" using True by (simp add: m(2) prio_map_def)
    have nn: "n \<notin> set (map e_ln (grp es p))" using n(1) by auto
    have "list_ok h2 (la p) (map e_ln (grp es p)) = list_ok h1 (la p) (map e_ln (grp es p))"
      using lp(2) nn by (intro relisted_list_ok[OF h2(3)]) auto
    then have l2: "list_ok h2 (la p) (map e_ln (grp es p))" using heap_ok_group[OF h True] by simp
    from list_ok_nodes[OF h2(2), of n] obtain nd2 where "mem (list_nodes h2) n = Some nd2" by auto
    from push_at_ok[OF l2 this nn] obtain h3 where h3: "push_at h2 (Some (la p)) (Some n) = Some h3"
      "list_ok h3 (la p) (map e_ln (grp es p) @ [n])"
      "relisted {la p} (set (map e_ln (grp es p) @ [n])) h2 h3" by blast
    have r: "relisted {nl, la' p} (insert n (set (map e_ln (grp es p)))) h1 h3"
      using relisted_trans[OF h2(3) h3(3)] lp by (simp add: Un_commute insert_commute)
    have "list_structs h3 nl \<noteq> None" using r nl(1) by (auto simp: relisted_def list_ok_def)
    then have f: "free_list h3 (Some nl) = Some (h3\<lparr>list_structs := (list_structs h3)(nl := None)\<rparr>)"
      by (simp add: free_list_def)
    from long_map_set[OF m1(2), of p "Some (la p)"] obtain m2 where m2:
      "set_long_map_element m1 p (Some (la p)) = Some (m2, deref_opt (long_map_abs m1 p))"
      "long_map_invar m2" "long_map_abs m2 = (long_map_abs m1)(p \<mapsto> Some (la p))" by blast
    have "pushed_list h2 m1 (Some (la p)) p nl n =
        Some (h3\<lparr>list_structs := (list_structs h3)(nl := None)\<rparr>, m2, la' p)"
      by (simp add: pushed_list_def h3(1) m2(1) f lp(1))
    then show ?thesis using h2(1) pn2 m1(1) old m2(2,3) m1(3) m(2) r h3(2) True lp(1)
      by (intro exI[of _ h2] exI[of _ m1] exI[of _ "Some (la p)"] exI[of _ h3]
          exI[of _ "h3\<lparr>list_structs := (list_structs h3)(nl := None)\<rparr>"] exI[of _ m2]) simp
  qed
qed

lemma push_node_via:
  "push_priority_queue_node h (Some pq) (Some a) = do {
     let (s, lpn) = create_list_node (list_nodes h) (Some a);
     let (h, new_list) = malloc_list (h\<lparr>list_nodes := s\<rparr>);
     h \<leftarrow> push_at h (Some new_list) (Some lpn);
     n \<leftarrow> pnodes h a;
     (m, old_list) \<leftarrow> set_long_map_element (priorities pq) (pn_priority n) (Some new_list);
     (h, m, new_list) \<leftarrow> pushed_list h m old_list (pn_priority n) new_list lpn;
     first \<leftarrow> (case pq_first pq of
        None \<Rightarrow> Some a
      | Some f \<Rightarrow> do {
          fn \<leftarrow> pnodes h f;
          Some (if pn_priority n < pn_priority fn then a else f) });
     let (h, idn) = malloc_idnode h (Some new_list) (Some lpn);
     (i, _) \<leftarrow> set_string_map_element (ids pq) (pn_id n) (Some idn);
     Some (h, Some \<lparr>priorities = m, ids = i, pq_first = Some first, pq_length = pq_length pq + 1\<rparr>) }"
  by (simp add: push_priority_queue_node_def pushed_list_def)

lemma first_insert:
  "first_of (insert_entry e es) = Some (case es of [] \<Rightarrow> e_pn e
     | f # _ \<Rightarrow> if e_prio e < e_prio f then e_pn e else e_pn f)"
  by (cases es) (auto simp: first_of_def)

text \<open>The entry a push of the node \<open>pn\<close> at \<open>a\<close> adds.\<close>

lemma push_node_at:
  assumes pq: "pq_at h pq la es" and pn: "pnodes h a = Some pn" and a: "a \<notin> e_pn ` set es"
    and hs: "sdbm_string_hash (pn_id pn) \<notin> e_hash ` set es"
  shows "\<exists>h' pq' la' e. push_priority_queue_node h (Some pq) (Some a) = Some (h', Some pq') \<and>
    pq_at h' pq' la' (insert_entry e es) \<and> node_of e = pn \<and> e_pn e = a \<and> pnodes h' = pnodes h"
proof -
  have q: "queue_ok es" "heap_ok h la es" "maps_ok (priorities pq) (ids pq) la es"
    "pq_first pq = first_of es" "pq_length pq = int (length es)" using pq by (auto simp: pq_at_def)
  then have m: "long_map_invar (priorities pq)" "long_map_abs (priorities pq) = prio_map la es"
    "string_map_invar (ids pq)" "string_map_abs (ids pq) = id_map es" "sorted (map e_prio es)"
    by (auto simp: maps_ok_def queue_ok_def)
  obtain s n where c: "create_list_node (list_nodes h) (Some a) = (s, n)" by fastforce
  obtain h1 nl where ml: "malloc_list (h\<lparr>list_nodes := s\<rparr>) = (h1, nl)" by fastforce
  note A = push_alloc[OF q(2) c ml]
  define p where "p = pn_priority pn"
  define la' where "la' = (if p \<in> e_prio ` set es then la else la(p := nl))"
  from pushed_list_ok[OF A(1,2,3,4,5) la'_def m(1,2)] obtain h2 m1 old h3 h4 m' where
    P: "push_at h1 (Some nl) (Some n) = Some h2" "pnodes h2 = pnodes h1"
      "set_long_map_element (priorities pq) p (Some nl) = Some (m1, old)"
      "pushed_list h2 m1 old p nl n = Some (h4, m', la' p)"
      "long_map_invar m'" "long_map_abs m' = (prio_map la es)(p \<mapsto> Some (la' p))"
      "relisted {nl, la' p} (insert n (set (map e_ln (grp es p)))) h1 h3"
      "list_ok h3 (la' p) (map e_ln (grp es p) @ [n])"
      "h4 = h3\<lparr>list_structs := (if p \<in> e_prio ` set es then (list_structs h3)(nl := None) else list_structs h3)\<rparr>"
    by blast
  define e where "e = \<lparr>e_prio = p, e_id = pn_id pn, e_val = pn_value pn, e_pn = a, e_ln = n, e_idn = fresh h3\<rparr>"
  have e: "node_of e = pn" "e_prio e = p" "e_pn e = a" "e_ln e = n" "e_idn e = fresh h3"
    "e_hash e = sdbm_string_hash (pn_id pn)"
    by (simp_all add: e_def node_of_def p_def e_hash_def)
  define h5 where "h5 = fst (malloc_idnode h4 (Some (la' p)) (Some n))"
  have m5: "malloc_idnode h4 (Some (la' p)) (Some n) = (h5, fresh h3)" "list_structs h5 = list_structs h4"
    "list_nodes h5 = list_nodes h3" "pnodes h5 = pnodes h3" "fresh h5 = Suc (fresh h3)"
    "idnodes h5 = (idnodes h3)(fresh h3 \<mapsto> \<lparr>id_list = Some (la' p), id_node = Some n\<rparr>)"
    by (simp_all add: h5_def malloc_idnode_def P(9))
  have pns: "pnodes h3 = pnodes h" "pnodes h4 = pnodes h" using P(7) A(6) by (simp_all add: relisted_def P(9))
  have heap: "heap_ok h5 la' (insert_entry e es)"
    using A(4,5,6) a pn P(7,8) by (intro heap_insert[OF A(1) m(5) _ _ _ A(3)]) (simp_all add: e m5 P(9) la'_def)
  from string_map_set[OF m(3), of "pn_id pn" "Some (fresh h3)"] obtain i where i:
    "set_string_map_element (ids pq) (pn_id pn) (Some (fresh h3)) =
      Some (i, deref_opt (string_map_abs (ids pq) (sdbm_string_hash (pn_id pn))))"
    "string_map_invar i" "string_map_abs i = (string_map_abs (ids pq))(sdbm_string_hash (pn_id pn) \<mapsto> Some (fresh h3))"
    by blast
  have maps: "maps_ok m' i la' (insert_entry e es)"
    using P(5,6) i(2,3) m(4) hs 
    by (simp add: maps_ok_def prio_map_insert[of la' e es la nl, unfolded e(2), OF la'_def] e id_map_insert)
  have first: "(case first_of es of None \<Rightarrow> Some a
      | Some f \<Rightarrow> do { fn \<leftarrow> pnodes h4 f; Some (if pn_priority pn < pn_priority fn then a else f) }) =
      first_of (insert_entry e es)"
    unfolding pns(2) using q(2) by (cases es) (auto simp: e first_of_def heap_ok_def entry_ok_def node_of_def p_def not_less)
  have "first_of (insert_entry e es) \<noteq> None" by (simp add: first_insert)
  then obtain f where f: "first_of (insert_entry e es) = Some f" by blast
  have "pq_at h5 \<lparr>priorities = m', ids = i, pq_first = Some f, pq_length = pq_length pq + 1\<rparr> la' (insert_entry e es)"
    using heap maps f q(1,5) hs by (simp add: pq_at_def queue_ok_def sorted_insert distinct_insert e)
  moreover have "push_priority_queue_node h (Some pq) (Some a) =
      Some (h5, Some \<lparr>priorities = m', ids = i, pq_first = Some f, pq_length = pq_length pq + 1\<rparr>)"
    using first f i(1) P(1-4) pn A(6)
    by (simp add: push_node_via c ml p_def[symmetric] q(4) m5(1))
  moreover have "pnodes h5 = pnodes h" by (simp add: m5(4) pns(1))
  ultimately show ?thesis using e(1,3) by blast
qed

text \<open>Releasing the list node of a dropped entry, and reading the next first one.\<close>

lemma free_node_at_ok:
  assumes h: "heap_ok h la es" "e \<in> set es" and r: "relisted A N h h1"
  shows "free_node_at (h1\<lparr>list_structs := ls\<rparr>) (Some (e_ln e)) =
    Some (h1\<lparr>list_nodes := (list_nodes h1)\<lparr>mem := (mem (list_nodes h1))(e_ln e := None)\<rparr>,
      list_structs := ls\<rparr>, Some (e_pn e))"
proof -
  have "entry_ok h1 la e" using h relisted_entry_ok[OF r] by (simp add: heap_ok_def)
  then show ?thesis by (auto simp: entry_ok_def free_node_at_def free_list_node_def)
qed

definition next_list_of :: "(ulong \<Rightarrow> addr) \<Rightarrow> 'v entry list \<Rightarrow> addr ptr" where
  "next_list_of la es = (case es of [] \<Rightarrow> None | e # _ \<Rightarrow> Some (la (e_prio e)))"

lemma reset_first_heap:
  assumes h: "heap_ok h la es"
  shows "\<exists>h'. reset_first h (next_list_of la es) = Some (h', first_of es) \<and> heap_ok h' la es \<and>
    pnodes h' = pnodes h"
proof (cases es)
  case Nil
  with h show ?thesis by (simp add: next_list_of_def reset_first_def first_of_def)
next
  case (Cons e es')
  let ?p = "e_prio e"
  have p: "?p \<in> e_prio ` set es" by (simp add: Cons)
  from heap_ok_group[OF h p] have g: "list_ok h (la ?p) (e_ln e # map e_ln (grp es' ?p))" by (simp add: Cons)
  from reset_first_ok[OF g] obtain h' where h': "reset_first h (Some (la ?p)) =
      Some (h', node_val (the (mem (list_nodes h) (e_ln e))))"
    "list_ok h' (la ?p) (e_ln e # map e_ln (grp es' ?p))"
    "relisted {la ?p} (set (e_ln e # map e_ln (grp es' ?p))) h h'" by blast
  have "entry_ok h la e" using h by (simp add: heap_ok_def Cons)
  then have "node_val (the (mem (list_nodes h) (e_ln e))) = Some (e_pn e)" by (auto simp: entry_ok_def)
  moreover have "heap_ok h' la es" using h' by (intro heap_ok_relisted[OF h p]) (simp_all add: Cons)
  ultimately show ?thesis using h'(1,3)
    by (auto simp: next_list_of_def first_of_def Cons relisted_def)
qed

text \<open>What shift does with the list it has taken a node from.\<close>

definition shifted_list :: "'v pq_heap \<Rightarrow> addr long_map \<Rightarrow> ulong \<Rightarrow> addr ptr \<Rightarrow> int
    \<Rightarrow> ('v pq_heap \<times> addr long_map \<times> addr ptr) option" where
  "shifted_list h m p next_list n = (if n = 0
    then do {
      h \<leftarrow> destroy_at h next_list;
      Some (h, m, fst (get_smallest_long_map_element m 0)) }
    else do {
      (m, _) \<leftarrow> set_long_map_element m p next_list;
      Some (h, m, next_list) })"

lemma shift_node_via:
  "pq_first pq = Some f \<Longrightarrow> shift_priority_queue_node h (Some pq) = do {
     fn \<leftarrow> pnodes h f;
     (m, next_list) \<leftarrow> remove_long_map_element (priorities pq) (pn_priority fn);
     (h, smallest_list_node) \<leftarrow> shift_at h next_list;
     n \<leftarrow> length_at h next_list;
     (h, m, next_first_list) \<leftarrow> shifted_list h m (pn_priority fn) next_list n;
     (h, return_node) \<leftarrow> free_node_at h smallest_list_node;
     r \<leftarrow> return_node;
     rn \<leftarrow> pnodes h r;
     (i, idn) \<leftarrow> remove_string_map_element (ids pq) (pn_id rn);
     h \<leftarrow> free_idnode h idn;
     (h, first) \<leftarrow> reset_first h next_first_list;
     Some (h, Some \<lparr>priorities = m, ids = i, pq_first = first, pq_length = pq_length pq - 1\<rparr>,
       return_node) }"
  by (simp add: shift_priority_queue_node_def shifted_list_def)

lemma shift_node_at:
  assumes pq: "pq_at h pq la (e # es)"
  shows "\<exists>h' pq'. shift_priority_queue_node h (Some pq) = Some (h', Some pq', Some (e_pn e)) \<and>
    pq_at h' pq' la es \<and> pnodes h' = pnodes h"
proof -
  let ?p = "e_prio e"
  have q: "queue_ok (e # es)" "heap_ok h la (e # es)" "pq_first pq = Some (e_pn e)"
    "pq_length pq = int (Suc (length es))" using pq by (auto simp: pq_at_def first_of_def)
  have m: "long_map_invar (priorities pq)" "long_map_abs (priorities pq) = prio_map la (e # es)"
    "string_map_invar (ids pq)" "string_map_abs (ids pq) = id_map (e # es)"
    "sorted (map e_prio es)" "\<forall>x \<in> set es. ?p \<le> e_prio x"
    using pq by (auto simp: pq_at_def maps_ok_def queue_ok_def)
  have ent: "pnodes h (e_pn e) = Some (node_of e)" "idnodes h (e_idn e) \<noteq> None"
    using q(2) by (auto simp: heap_ok_def entry_ok_def)
  from long_map_remove[OF m(1), of ?p] obtain m1 where m1:
    "remove_long_map_element (priorities pq) ?p = Some (m1, Some (la ?p))" "long_map_invar m1"
    "long_map_abs m1 = (prio_map la (e # es))(?p := None)"
    by (auto simp: m(2) prio_map_def)
  have "list_ok h (la ?p) (e_ln e # map e_ln (grp es ?p))"
    using heap_ok_group[OF q(2), of ?p] by simp
  from shift_at_ok[OF this] obtain h1 where h1: "shift_at h (Some (la ?p)) = Some (h1, Some (e_ln e))"
    "list_ok h1 (la ?p) (map e_ln (grp es ?p))"
    "relisted {la ?p} (set (e_ln e # map e_ln (grp es ?p))) h h1" by blast
  define ls where "ls = (if grp es ?p = [] then (list_structs h1)(la ?p := None) else list_structs h1)"
  have "\<exists>m'. shifted_list h1 m1 ?p (Some (la ?p)) (int (length (map e_ln (grp es ?p)))) =
        Some (h1\<lparr>list_structs := ls\<rparr>, m', next_list_of la es) \<and>
      long_map_invar m' \<and> long_map_abs m' = prio_map la es"
  proof (cases "grp es ?p = []")
    case True
    then have a: "long_map_abs m1 = prio_map la es"
      using m1(3) prio_map_drop[of la "[]" es e] by simp
    show ?thesis using True h1(2) m1(2) a smallest_list[OF m1(2) a m(5)]
      by (simp add: shifted_list_def ls_def destroy_at_empty next_list_of_def)
  next
    case False
    from long_map_set[OF m1(2), of ?p "Some (la ?p)"] obtain m2 where m2:
      "set_long_map_element m1 ?p (Some (la ?p)) = Some (m2, deref_opt (long_map_abs m1 ?p))"
      "long_map_invar m2" "long_map_abs m2 = (long_map_abs m1)(?p \<mapsto> Some (la ?p))" by blast
    have in_es: "?p \<in> e_prio ` set es" using False by (simp add: grp_empty_iff)
    then have "long_map_abs m2 = prio_map la es"
      by (auto simp: m2(3) m1(3) prio_map_def fun_eq_iff)
    moreover have "next_list_of la es = Some (la ?p)"
    proof (cases es)
      case (Cons x xs)
      have "e_prio x = ?p" using in_es m(5,6) Cons by (auto intro: order.antisym)
      then show ?thesis by (simp add: Cons next_list_of_def)
    qed (use in_es in simp)
    ultimately show ?thesis using False m2(1,2) by (simp add: shifted_list_def ls_def)
  qed
  then obtain m' where m': "shifted_list h1 m1 ?p (Some (la ?p)) (int (length (map e_ln (grp es ?p)))) =
        Some (h1\<lparr>list_structs := ls\<rparr>, m', next_list_of la es)"
      "long_map_invar m'" "long_map_abs m' = prio_map la es" by blast
  define h2 where "h2 = h1\<lparr>list_nodes := (list_nodes h1)\<lparr>mem := (mem (list_nodes h1))(e_ln e := None)\<rparr>,
      list_structs := ls\<rparr>"
  have fn: "free_node_at (h1\<lparr>list_structs := ls\<rparr>) (Some (e_ln e)) = Some (h2, Some (e_pn e))"
    using free_node_at_ok[OF q(2) _ h1(3)] by (simp add: h2_def)
  have same: "pnodes h2 = pnodes h" "idnodes h2 = idnodes h" using h1(3) by (simp_all add: h2_def relisted_def)
  have ids: "id_map es = (id_map (e # es))(e_hash e := None)" "id_map (e # es) (e_hash e) = Some (Some (e_idn e))"
    using id_map_delete[of "[]" e es] q(1) by (simp_all add: queue_ok_def)
  from string_map_remove[OF m(3), of "e_id e"] obtain i where i:
    "remove_string_map_element (ids pq) (e_id e) = Some (i, Some (e_idn e))" "string_map_invar i"
    "string_map_abs i = id_map es" by (auto simp: m(4) e_hash_def[symmetric] ids)
  define h3 where "h3 = h2\<lparr>idnodes := (idnodes h2)(e_idn e := None)\<rparr>"
  have fi: "free_idnode h2 (Some (e_idn e)) = Some h3" using ent(2) by (simp add: free_idnode_def same h3_def)
  have "heap_ok h3 la ([] @ es)"
    by (rule heap_drop[where h = h and ?h1.0 = h1 and p = ?p and e = e])
      (use q(2) h1(2,3) in \<open>simp_all add: h3_def h2_def ls_def\<close>)
  then have "heap_ok h3 la es" by simp
  from reset_first_heap[OF this] obtain h4 where h4:
    "reset_first h3 (next_list_of la es) = Some (h4, first_of es)" "heap_ok h4 la es" "pnodes h4 = pnodes h3"
    by blast
  define pq' where "pq' = \<lparr>priorities = m', ids = i, pq_first = first_of es, pq_length = pq_length pq - 1\<rparr>"
  have "pq_at h4 pq' la es"
    using h4(2) m'(2,3) i(2,3) q(1,4) by (simp add: pq_at_def pq'_def maps_ok_def queue_ok_def)
  moreover have "pnodes h4 = pnodes h" using h4(3) same by (simp add: h3_def)
  moreover have "shift_priority_queue_node h (Some pq) = Some (h4, Some pq', Some (e_pn e))"
    using ent(1) m1(1) h1(1) length_at_ok[OF h1(2)] m'(1) fn fi h4(1) i(1)
    by (simp add: shift_node_via[OF q(3)] same pq'_def node_of_def)
  ultimately show ?thesis by blast
qed

text \<open>Removing by id: nothing happens when no entry has the hash of the id.\<close>

lemma remove_node_unknown:
  assumes pq: "pq_at h pq la es" and i: "sdbm_string_hash i \<notin> e_hash ` set es"
  shows "\<exists>pq'. remove_priority_queue_node_with_id h (Some pq) (Some i) = Some (h, Some pq', None) \<and>
    pq_at h pq' la es"
proof -
  have m: "string_map_invar (ids pq)" "string_map_abs (ids pq) = id_map es"
    using pq by (auto simp: pq_at_def maps_ok_def)
  have n: "id_map es (sdbm_string_hash i) = None" using i by (simp add: id_map_None)
  from string_map_remove[OF m(1), of i] n obtain j where j:
    "remove_string_map_element (ids pq) i = Some (j, None)" "string_map_invar j" "string_map_abs j = id_map es"
    by (auto simp: m(2) fun_upd_idem)
  then show ?thesis using pq
    by (auto simp: remove_priority_queue_node_with_id_def pq_at_def maps_ok_def)
qed

text \<open>What the removal does with the list it has taken a node from.\<close>

definition shrunk_list :: "'v pq_heap \<Rightarrow> addr long_map \<Rightarrow> addr ptr \<Rightarrow> addr ptr \<Rightarrow> int
    \<Rightarrow> ('v pq_heap \<times> addr long_map) option" where
  "shrunk_list h m l return_node n = (if n = 0
    then do {
      r \<leftarrow> return_node;
      rn \<leftarrow> pnodes h r;
      (m, _) \<leftarrow> remove_long_map_element m (pn_priority rn);
      h \<leftarrow> destroy_at h l;
      Some (h, m) }
    else Some (h, m))"

definition refreshed_first :: "'v pq_heap \<Rightarrow> addr long_map \<Rightarrow> addr ptr \<Rightarrow> addr ptr \<Rightarrow> ('v pq_heap \<times> addr ptr) option" where
  "refreshed_first h m return_node first = (if return_node = first
    then reset_first h (fst (get_smallest_long_map_element m 0))
    else Some (h, first))"

lemma remove_node_via:
  "remove_priority_queue_node_with_id h (Some pq) (Some i) = do {
     (j, idn) \<leftarrow> remove_string_map_element (ids pq) i;
     (case idn of None \<Rightarrow> Some (h, Some (pq\<lparr>ids := j\<rparr>), None)
      | Some d \<Rightarrow> do {
          rec \<leftarrow> idnodes h d;
          h \<leftarrow> remove_at h (id_list rec) (id_node rec);
          (h, return_node) \<leftarrow> free_node_at h (id_node rec);
          n \<leftarrow> length_at h (id_list rec);
          (h, m) \<leftarrow> shrunk_list h (priorities pq) (id_list rec) return_node n;
          h \<leftarrow> free_idnode h idn;
          (h, first) \<leftarrow> refreshed_first h m return_node (pq_first pq);
          Some (h, Some (pq\<lparr>ids := j, priorities := m, pq_first := first, pq_length := pq_length pq - 1\<rparr>),
            return_node) }) }"
  unfolding remove_priority_queue_node_with_id_def shrunk_list_def refreshed_first_def Let_def
  by (simp cong: option.case_cong if_cong)

lemma remove_node_at:
  assumes pq: "pq_at h pq la (xs @ e # ys)" and hi: "sdbm_string_hash i = e_hash e"
  shows "\<exists>h' pq'. remove_priority_queue_node_with_id h (Some pq) (Some i) = Some (h', Some pq', Some (e_pn e)) \<and>
    pq_at h' pq' la (xs @ ys) \<and> pnodes h' = pnodes h"
proof -
  let ?p = "e_prio e" and ?es = "xs @ e # ys"
  have q: "queue_ok ?es" "heap_ok h la ?es" "pq_first pq = first_of ?es" "pq_length pq = int (length ?es)"
    using pq by (auto simp: pq_at_def)
  have m: "long_map_invar (priorities pq)" "long_map_abs (priorities pq) = prio_map la ?es"
    "string_map_invar (ids pq)" "string_map_abs (ids pq) = id_map ?es"
    using pq by (auto simp: pq_at_def maps_ok_def)
  have srt: "sorted (map e_prio (xs @ ys))" "queue_ok (xs @ ys)"
    using q(1) by (auto simp: queue_ok_def sorted_append)
  have ent: "pnodes h (e_pn e) = Some (node_of e)"
    "idnodes h (e_idn e) = Some \<lparr>id_list = Some (la ?p), id_node = Some (e_ln e)\<rparr>"
    using q(2) by (auto simp: heap_ok_def entry_ok_def)
  note ids = id_map_delete[of xs e ys]
  from string_map_remove[OF m(3), of i] q(1) obtain j where j:
    "remove_string_map_element (ids pq) i = Some (j, Some (e_idn e))" "string_map_invar j"
    "string_map_abs j = id_map (xs @ ys)" by (auto simp: m(4) hi ids queue_ok_def)
  have "list_ok h (la ?p) (map e_ln (grp xs ?p) @ e_ln e # map e_ln (grp ys ?p))"
    using heap_ok_group[OF q(2), of ?p] by simp
  from remove_at_ok[OF this] obtain h1 where h1: "remove_at h (Some (la ?p)) (Some (e_ln e)) = Some h1"
    "list_ok h1 (la ?p) (map e_ln (grp (xs @ ys) ?p))"
    "relisted {la ?p} (set (map e_ln (grp ?es ?p))) h h1" by auto
  have nin: "e_ln e \<notin> set (map e_ln (grp (xs @ ys) ?p))" using q(2) by (auto simp: heap_ok_def)
  define h2 where "h2 = h1\<lparr>list_nodes := (list_nodes h1)\<lparr>mem := (mem (list_nodes h1))(e_ln e := None)\<rparr>\<rparr>"
  have fn: "free_node_at h1 (Some (e_ln e)) = Some (h2, Some (e_pn e))"
    using free_node_at_ok[OF q(2) _ h1(3), of e "list_structs h1"] by (simp add: h2_def)
  have l2: "list_ok h2 (la ?p) (map e_ln (grp (xs @ ys) ?p))"
    using h1(2) nin by (auto simp: list_ok_def list_at_def h2_def simp del: grp_append map_append set_map)
  have same: "pnodes h2 = pnodes h" "idnodes h2 = idnodes h" using h1(3) by (simp_all add: h2_def relisted_def)
  define ls where "ls = (if grp (xs @ ys) ?p = [] then (list_structs h2)(la ?p := None) else list_structs h2)"
  obtain m' where m': "shrunk_list h2 (priorities pq) (Some (la ?p)) (Some (e_pn e))
      (int (length (map e_ln (grp (xs @ ys) ?p)))) = Some (h2\<lparr>list_structs := ls\<rparr>, m')"
    "long_map_invar m'" "long_map_abs m' = prio_map la (xs @ ys)"
  proof (cases "grp (xs @ ys) ?p = []")
    case True
    from long_map_remove[OF m(1), of ?p] obtain m1 where "long_map_invar m1"
      "remove_long_map_element (priorities pq) ?p = Some (m1, deref_opt (long_map_abs (priorities pq) ?p))"
      "long_map_abs m1 = (prio_map la ?es)(?p := None)" by (auto simp: m(2))
    with True l2 ent(1) show ?thesis using prio_map_drop[of la xs ys e]
      by (intro that[of m1]) (simp_all add: shrunk_list_def destroy_at_empty same ls_def node_of_def)
  next
    case False
    with m(1,2) show ?thesis using prio_map_drop[of la xs ys e]
      by (intro that[of "priorities pq"]) (simp_all add: shrunk_list_def ls_def del: grp_append)
  qed
  define h3 where "h3 = h2\<lparr>list_structs := ls, idnodes := (idnodes h2)(e_idn e := None)\<rparr>"
  have fi: "free_idnode (h2\<lparr>list_structs := ls\<rparr>) (Some (e_idn e)) = Some h3"
    using ent(2) by (simp add: free_idnode_def same h3_def)
  have h3: "heap_ok h3 la (xs @ ys)"
    by (rule heap_drop[where h = h and ?h1.0 = h1 and p = ?p and e = e])
      (use q(2) h1(2,3) in \<open>simp_all add: h3_def h2_def ls_def\<close>)
  have nl: "fst (get_smallest_long_map_element m' 0) = next_list_of la (xs @ ys)"
    using smallest_list[OF m'(2,3) srt(1)] by (simp add: next_list_of_def)
  obtain h4 where h4: "refreshed_first h3 m' (Some (e_pn e)) (pq_first pq) = Some (h4, first_of (xs @ ys))"
    "heap_ok h4 la (xs @ ys)" "pnodes h4 = pnodes h3"
  proof (cases xs)
    case Nil
    with reset_first_heap[OF h3] that show ?thesis
      by (auto simp: refreshed_first_def nl q(3) first_of_def)
  next
    case (Cons x xs')
    then have "e_pn x \<noteq> e_pn e" using q(2) by (simp add: heap_ok_def)
    with that[of h3] h3 Cons show ?thesis by (simp add: refreshed_first_def q(3) first_of_def)
  qed
  define pq' where "pq' = \<lparr>priorities = m', ids = j, pq_first = first_of (xs @ ys), pq_length = pq_length pq - 1\<rparr>"
  have "pq_at h4 pq' la (xs @ ys)"
    using h4(2) m'(2,3) j(2,3) srt(2) q(4) by (simp add: pq_at_def pq'_def maps_ok_def)
  moreover have "pnodes h4 = pnodes h" using h4(3) same by (simp add: h3_def)
  moreover have "remove_priority_queue_node_with_id h (Some pq) (Some i) = Some (h4, Some pq', Some (e_pn e))"
    using ent(2) h1(1) length_at_ok[OF l2] m'(1) fn fi h4(1) j(1)
    by (simp add: remove_node_via pq'_def)
  ultimately show ?thesis by blast
qed

subsection \<open>The value operations\<close>

lemma other_pn:
  assumes pq: "pq_at h pq la es" and a: "a \<notin> e_pn ` set es" "a < fr" "fresh h \<le> fr"
  shows "pq_at (h\<lparr>pnodes := (pnodes h)(a := x), fresh := fr\<rparr>) pq la es"
proof -
  let ?h = "h\<lparr>pnodes := (pnodes h)(a := x), fresh := fr\<rparr>"
  have h: "heap_ok h la es" using pq by (simp add: pq_at_def)
  have "entry_ok ?h la e \<longleftrightarrow> entry_ok h la e" if "e \<in> set es" for e
    using that a(1) by (auto simp: entry_ok_def)
  moreover have "list_ok ?h y as \<longleftrightarrow> list_ok h y as" for y as by (simp add: list_ok_def)
  moreover have "alloc_ok ?h" using h a(2,3) by (auto simp: heap_ok_def alloc_ok_def intro: less_le_trans)
  ultimately have "heap_ok ?h la es" using h by (auto simp: heap_ok_def)
  with pq show ?thesis by (simp add: pq_at_def)
qed

lemma pn_fresh: "pq_at h pq la es \<Longrightarrow> pnodes h a = Some n \<Longrightarrow> a < fresh h"
  by (auto simp: pq_at_def heap_ok_def alloc_ok_def)

lemma free_pn_at:
  assumes "pq_at h pq la es" and "a \<notin> e_pn ` set es" and "pnodes h a = Some n"
  shows "\<exists>h'. free_priority_queue_node h (Some a) = Some (h', pn_value n) \<and> pq_at h' pq la es"
  using other_pn[OF assms(1,2) pn_fresh[OF assms(1,3)], of None] assms(3)
  by (simp add: free_priority_queue_node_def)

lemma create_pn_at:
  assumes "pq_at h pq la es" and "create_priority_node h p i v = (h', a)"
  shows "pq_at h' pq la es" and "a \<notin> e_pn ` set es"
    and "pnodes h' a = Some \<lparr>pn_priority = p, pn_id = i, pn_value = v\<rparr>"
proof -
  from assms(2) have h': "a = fresh h"
    "h' = h\<lparr>pnodes := (pnodes h)(a \<mapsto> \<lparr>pn_priority = p, pn_id = i, pn_value = v\<rparr>), fresh := Suc a\<rparr>"
    by (auto simp: create_priority_node_def)
  show a: "a \<notin> e_pn ` set es"
    using assms(1) by (fastforce simp: h'(1) pq_at_def heap_ok_def alloc_ok_def entry_ok_def)
  show "pq_at h' pq la es" unfolding h'(2) by (rule other_pn[OF assms(1) a]) (simp_all add: h'(1))
  show "pnodes h' a = Some \<lparr>pn_priority = p, pn_id = i, pn_value = v\<rparr>" by (simp add: h'(2))
qed

subsection \<open>The queue as a list of items\<close>

type_synonym 'v item = "ulong \<times> string \<times> 'v ptr"

datatype 'v pq_op = PqPush ulong string "'v ptr" | PqShift | PqPeek | PqRemove string
  | PqSetPriority string ulong

text \<open>What an operation hands back: \<open>*priority\<close>, \<open>*id\<close> and the value.\<close>

type_synonym 'v pq_result = "(ulong \<times> string ptr) \<times> 'v ptr"

abbreviation (input) "no_item \<equiv> ((0, None), None)"

definition run_pq_op :: "'v pq_heap \<times> priority_queue ptr \<Rightarrow> 'v pq_op
    \<Rightarrow> (('v pq_heap \<times> priority_queue ptr) \<times> 'v pq_result) option" where
  "run_pq_op s op = (case s of (h, pq) \<Rightarrow> (case op of
     PqPush p i v \<Rightarrow> map_option (\<lambda>s. (s, no_item)) (push_priority_queue h pq p (Some i) v)
   | PqShift \<Rightarrow> map_option (\<lambda>(h, pq, out, v). ((h, pq), (out, v))) (shift_priority_queue h pq (0, None))
   | PqPeek \<Rightarrow> map_option (\<lambda>r. ((h, pq), r)) (peek_priority_queue h pq)
   | PqRemove i \<Rightarrow> map_option (\<lambda>(h, pq, p, v). ((h, pq), ((p, None), v)))
       (remove_priority_queue_element_with_id h pq (Some i))
   | PqSetPriority i p \<Rightarrow> map_option (\<lambda>s. (s, no_item)) (set_priority_for_id_in_priority_queue h pq (Some i) p)))"

definition same_id :: "string \<Rightarrow> 'v item \<Rightarrow> bool" where
  "same_id i x \<longleftrightarrow> sdbm_string_hash (fst (snd x)) = sdbm_string_hash i"

text \<open>Behind all items of the same or a smaller number.\<close>

fun insert_item :: "'v item \<Rightarrow> 'v item list \<Rightarrow> 'v item list" where
  "insert_item x [] = [x]"
| "insert_item x (y # ys) = (if fst y \<le> fst x then y # insert_item x ys else x # y # ys)"

fun take_item :: "string \<Rightarrow> 'v item list \<Rightarrow> ('v item \<times> 'v item list) option" where
  "take_item i [] = None"
| "take_item i (y # ys) = (if same_id i y then Some (y, ys)
     else map_option (\<lambda>(x, zs). (x, y # zs)) (take_item i ys))"

text \<open>The contract: ids in the queue differ in their hash, and only a queued id is given a new
  priority.\<close>

definition spec_pq :: "'v item list \<Rightarrow> 'v pq_op \<Rightarrow> ('v item list \<times> 'v pq_result) option" where
  "spec_pq q op = (case op of
     PqPush p i v \<Rightarrow> if list_ex (same_id i) q then None else Some (insert_item (p, i, v) q, no_item)
   | PqShift \<Rightarrow> (case q of [] \<Rightarrow> Some ([], no_item) | (p, i, v) # q \<Rightarrow> Some (q, ((p, Some i), v)))
   | PqPeek \<Rightarrow> (case q of [] \<Rightarrow> Some ([], no_item) | (p, i, v) # r \<Rightarrow> Some (q, ((p, Some i), v)))
   | PqRemove i \<Rightarrow> (case take_item i q of None \<Rightarrow> Some (q, no_item)
       | Some ((p, _, v), q) \<Rightarrow> Some (q, ((p, None), v)))
   | PqSetPriority i p \<Rightarrow> (case take_item i q of None \<Rightarrow> None
       | Some ((_, j, v), q) \<Rightarrow> Some (insert_item (p, j, v) q, no_item)))"

definition item_of :: "'v entry \<Rightarrow> 'v item" where
  "item_of e = (e_prio e, e_id e, e_val e)"

definition pq_rep :: "'v pq_heap \<times> priority_queue ptr \<Rightarrow> 'v item list \<Rightarrow> bool" where
  "pq_rep s q \<longleftrightarrow> (\<exists>h pq la es. s = (h, Some pq) \<and> pq_at h pq la es \<and> map item_of es = q)"

lemma map_insert_entry: "map item_of (insert_entry e es) = insert_item (item_of e) (map item_of es)"
  by (induction es) (auto simp: item_of_def)

lemma same_id_item: "same_id i (item_of e) \<longleftrightarrow> e_hash e = sdbm_string_hash i"
  by (simp add: same_id_def item_of_def e_hash_def)

lemma take_item_None: "take_item i q = None \<longleftrightarrow> \<not> list_ex (same_id i) q"
  by (induction q) auto

lemma take_item_Some:
  "take_item i (map item_of es) = Some (x, r) \<Longrightarrow>
    \<exists>xs e ys. es = xs @ e # ys \<and> x = item_of e \<and> e_hash e = sdbm_string_hash i \<and> r = map item_of (xs @ ys)"
proof (induction es arbitrary: r)
  case (Cons y es)
  show ?case
  proof (cases "same_id i (item_of y)")
    case True
    with Cons.prems show ?thesis
      by (intro exI[of _ "[]"] exI[of _ y] exI[of _ es]) (auto simp: same_id_item)
  next
    case False
    with Cons.prems obtain r' where "take_item i (map item_of es) = Some (x, r')" "r = item_of y # r'" by auto
    with Cons.IH obtain xs e ys where "es = xs @ e # ys" "x = item_of e" "e_hash e = sdbm_string_hash i"
      "r' = map item_of (xs @ ys)" by blast
    with \<open>r = item_of y # r'\<close> show ?thesis by (intro exI[of _ "y # xs"]) auto
  qed
qed simp

lemma list_ex_ids: "list_ex (same_id i) (map item_of es) \<longleftrightarrow> sdbm_string_hash i \<in> e_hash ` set es"
  by (force simp: list_ex_iff same_id_item)

subsection \<open>Each operation against the list of items\<close>

lemma first_pn: "pq_at h pq la (e # es) \<Longrightarrow>
    pnodes h (e_pn e) = Some (node_of e) \<and> e_pn e \<notin> e_pn ` set es"
  by (simp add: pq_at_def heap_ok_def entry_ok_def)

lemma mid_pn: "pq_at h pq la (xs @ e # ys) \<Longrightarrow>
    pnodes h (e_pn e) = Some (node_of e) \<and> e_pn e \<notin> e_pn ` set (xs @ ys)"
  by (auto simp: pq_at_def heap_ok_def entry_ok_def)

lemma push_ok:
  assumes pq: "pq_at h pq la es" and i: "sdbm_string_hash i \<notin> e_hash ` set es"
  shows "\<exists>h' pq' la' e. push_priority_queue h (Some pq) p (Some i) v = Some (h', Some pq') \<and>
    pq_at h' pq' la' (insert_entry e es) \<and> item_of e = (p, i, v)"
proof -
  obtain h1 a where c: "create_priority_node h p i v = (h1, a)" by fastforce
  note C = create_pn_at[OF pq c]
  from push_node_at[OF C(1,3,2)] i obtain h' pq' la' e where
    "push_priority_queue_node h1 (Some pq) (Some a) = Some (h', Some pq')"
    "pq_at h' pq' la' (insert_entry e es)" "node_of e = \<lparr>pn_priority = p, pn_id = i, pn_value = v\<rparr>"
    by auto
  then show ?thesis by (fastforce simp: push_priority_queue_def c node_of_def item_of_def)
qed

lemma shift_ok:
  assumes pq: "pq_at h pq la (e # es)"
  shows "\<exists>h' pq'. shift_priority_queue h (Some pq) out =
      Some (h', Some pq', (e_prio e, Some (e_id e)), e_val e) \<and> pq_at h' pq' la es"
proof -
  from shift_node_at[OF pq] obtain h1 pq1 where s: "shift_priority_queue_node h (Some pq) = Some (h1, Some pq1, Some (e_pn e))"
    "pq_at h1 pq1 la es" "pnodes h1 = pnodes h" by blast
  from free_pn_at[OF s(2), of "e_pn e" "node_of e"] first_pn[OF pq] s(3) obtain h2 where
    "free_priority_queue_node h1 (Some (e_pn e)) = Some (h2, e_val e)" "pq_at h2 pq1 la es"
    by (auto simp: node_of_def)
  with s first_pn[OF pq] show ?thesis by (simp add: shift_priority_queue_def node_of_def)
qed

lemma remove_ok:
  assumes pq: "pq_at h pq la (xs @ e # ys)" and i: "e_hash e = sdbm_string_hash i"
  shows "\<exists>h' pq'. remove_priority_queue_element_with_id h (Some pq) (Some i) =
      Some (h', Some pq', e_prio e, e_val e) \<and> pq_at h' pq' la (xs @ ys)"
proof -
  from remove_node_at[OF pq i[symmetric]] obtain h1 pq1 where s:
    "remove_priority_queue_node_with_id h (Some pq) (Some i) = Some (h1, Some pq1, Some (e_pn e))"
    "pq_at h1 pq1 la (xs @ ys)" "pnodes h1 = pnodes h" by blast
  from free_pn_at[OF s(2), of "e_pn e" "node_of e"] mid_pn[OF pq] s(3) obtain h2 where
    "free_priority_queue_node h1 (Some (e_pn e)) = Some (h2, e_val e)" "pq_at h2 pq1 la (xs @ ys)"
    by (auto simp: node_of_def)
  with s mid_pn[OF pq] show ?thesis by (simp add: remove_priority_queue_element_with_id_def node_of_def)
qed

lemma set_priority_ok:
  assumes pq: "pq_at h pq la (xs @ e # ys)" and i: "e_hash e = sdbm_string_hash i"
  shows "\<exists>h' pq' la' e'. set_priority_for_id_in_priority_queue h (Some pq) (Some i) p = Some (h', Some pq') \<and>
    pq_at h' pq' la' (insert_entry e' (xs @ ys)) \<and> item_of e' = (p, e_id e, e_val e)"
proof -
  from remove_node_at[OF pq i[symmetric]] obtain h1 pq1 where s:
    "remove_priority_queue_node_with_id h (Some pq) (Some i) = Some (h1, Some pq1, Some (e_pn e))"
    "pq_at h1 pq1 la (xs @ ys)" "pnodes h1 = pnodes h" by blast
  note M = mid_pn[OF pq]
  define n where "n = (node_of e)\<lparr>pn_priority := p\<rparr>"
  define h2 where "h2 = h1\<lparr>pnodes := (pnodes h1)(e_pn e \<mapsto> n)\<rparr>"
  have "pnodes h1 (e_pn e) = Some (node_of e)" using M s(3) by simp
  from other_pn[OF s(2) _ pn_fresh[OF s(2) this], of "Some n"] M
  have pq2: "pq_at h2 pq1 la (xs @ ys)" by (simp add: h2_def)
  have "sdbm_string_hash (pn_id n) \<notin> e_hash ` set (xs @ ys)"
    using pq by (auto simp: n_def node_of_def pq_at_def queue_ok_def e_hash_def[symmetric])
  from push_node_at[OF pq2 _ _ this, of "e_pn e"] M obtain h' pq' la' e' where
    "push_priority_queue_node h2 (Some pq1) (Some (e_pn e)) = Some (h', Some pq')"
    "pq_at h' pq' la' (insert_entry e' (xs @ ys))" "node_of e' = n" by (auto simp: h2_def)
  with s M show ?thesis
    by (fastforce simp: set_priority_for_id_in_priority_queue_def h2_def n_def node_of_def item_of_def)
qed

lemma empty_first: "pq_at h pq la [] \<Longrightarrow> pq_first pq = None"
  by (simp add: pq_at_def first_of_def)

lemma shift_node_empty: "pq_at h pq la [] \<Longrightarrow> shift_priority_queue_node h (Some pq) = Some (h, Some pq, None)"
  by (simp add: shift_priority_queue_node_def empty_first)

interpretation priority_queue: simulation pq_rep run_pq_op spec_pq
proof unfold_locales
  fix s :: "'v pq_heap \<times> priority_queue ptr" and q op q' r
  assume rep: "pq_rep s q" and spec: "spec_pq q op = Some (q', r)"
  from rep obtain h pq la es where s: "s = (h, Some pq)" "pq_at h pq la es" "q = map item_of es"
    by (auto simp: pq_rep_def)
  note defs = run_pq_op_def spec_pq_def s(1,3) list_ex_ids pq_rep_def
  show "\<exists>s'. run_pq_op s op = Some (s', r) \<and> pq_rep s' q'"
  proof (cases op)
    case (PqPush p i v)
    with spec have "sdbm_string_hash i \<notin> e_hash ` set es" "q' = insert_item (p, i, v) q" "r = no_item"
      by (auto simp: defs split: if_splits)
    with push_ok[OF s(2), of i p v] PqPush show ?thesis by (fastforce simp: defs map_insert_entry)
  next
    case PqShift
    show ?thesis
    proof (cases es)
      case Nil
      with spec PqShift s show ?thesis
        by (auto simp: defs shift_priority_queue_def shift_node_empty)
    next
      case (Cons e es')
      with spec PqShift shift_ok[OF s(2)[unfolded Cons], of "(0, None)"] show ?thesis
        by (fastforce simp: defs item_of_def)
    qed
  next
    case PqPeek
    show ?thesis
    proof (cases es)
      case Nil
      with spec PqPeek s show ?thesis by (fastforce simp: defs peek_priority_queue_def empty_first)
    next
      case (Cons e es')
      have "pq_first pq = Some (e_pn e)" using s(2) by (simp add: pq_at_def Cons first_of_def)
      with spec PqPeek first_pn[OF s(2)[unfolded Cons]] s(2) Cons show ?thesis
        by (fastforce simp: defs peek_priority_queue_def item_of_def node_of_def)
    qed
  next
    case (PqRemove i)
    show ?thesis
    proof (cases "take_item i q")
      case None
      then have "sdbm_string_hash i \<notin> e_hash ` set es" by (simp add: take_item_None s(3) list_ex_ids)
      from remove_node_unknown[OF s(2) this] None spec PqRemove show ?thesis
        by (fastforce simp: defs remove_priority_queue_element_with_id_def)
    next
      case (Some xr)
      then obtain xs e ys where t: "es = xs @ e # ys" "xr = (item_of e, map item_of (xs @ ys))"
        "e_hash e = sdbm_string_hash i" unfolding s(3) by (cases xr) (auto dest!: take_item_Some)
      from remove_ok[OF s(2)[unfolded t(1)] t(3)] Some t(2) spec PqRemove show ?thesis
        by (fastforce simp: defs item_of_def)
    qed
  next
    case (PqSetPriority i p)
    with spec obtain x r' where "take_item i q = Some (x, r')" by (auto simp: defs split: option.splits)
    then have take: "take_item i (map item_of es) = Some (x, r')" by (simp add: s(3))
    from take_item_Some[OF this] obtain xs e ys where t: "es = xs @ e # ys" "x = item_of e"
      "e_hash e = sdbm_string_hash i" "r' = map item_of (xs @ ys)" by blast
    from set_priority_ok[OF s(2)[unfolded t(1)] t(3), of p] obtain h' pq' la' e' where
      "set_priority_for_id_in_priority_queue h (Some pq) (Some i) p = Some (h', Some pq')"
      "pq_at h' pq' la' (insert_entry e' (xs @ ys))" "item_of e' = (p, e_id e, e_val e)" by blast
    moreover have "q' = insert_item (p, e_id e, e_val e) (map item_of (xs @ ys))" "r = no_item"
      using spec take t(2,4) by (simp_all add: spec_pq_def PqSetPriority s(3) item_of_def[of e] del: map_append)
    ultimately show ?thesis using PqSetPriority
      by (fastforce simp: run_pq_op_def s(1) pq_rep_def map_insert_entry simp del: map_append)
  qed
qed

lemma prio_map_Nil [simp]: "prio_map la [] = Map.empty"
  by (auto simp: prio_map_def)

lemma pq_rep_init: "pq_rep (empty_pq_heap, Some initialize_priority_queue) []"
proof -
  have "long_map_abs initialize_long_map = Map.empty"
    by (simp add: long_map_abs_def initialize_long_map_def)
  then show ?thesis
    by (auto simp: pq_rep_def pq_at_def queue_ok_def heap_ok_def alloc_ok_def store_ok_def empty_store_def
        empty_pq_heap_def initialize_priority_queue_def maps_ok_def long_map_invar_init string_map_invar_init
        string_map_abs_init id_map_def first_of_def)
qed

subsection \<open>Destruction\<close>

lemma destroy_pq_loop_ok:
  fixes h :: "'v pq_heap"
  assumes "pq_at h pq la es"
    and "mode = DESTROY_MODE_RETURN_VALUES \<longrightarrow> buf = front @ rest @ back \<and> num = length front \<and>
      length rest = length es"
  shows "\<exists>h' pq'. destroy_pq_loop mode h pq buf num freed =
      Some (h', pq', if mode = DESTROY_MODE_RETURN_VALUES then front @ map (Some \<circ> e_val) es @ back else buf,
        num + length es, if mode = DESTROY_MODE_FREE_VALUES then freed @ map e_val es else freed) \<and>
    pq_at h' pq' la []"
  using assms
proof (induction es arbitrary: h pq buf front rest num freed)
  case Nil
  then have "pq_length pq = 0" by (simp add: pq_at_def)
  with Nil show ?case by (subst destroy_pq_loop.simps) auto
next
  case (Cons e es)
  from shift_node_at[OF Cons.prems(1)] obtain h1 pq1 where s:
    "shift_priority_queue_node h (Some pq) = Some (h1, Some pq1, Some (e_pn e))"
    "pq_at h1 pq1 la es" "pnodes h1 = pnodes h" by blast
  from free_pn_at[OF s(2), of "e_pn e" "node_of e"] first_pn[OF Cons.prems(1)] s(3) obtain h2 where
    f: "free_priority_queue_node h1 (Some (e_pn e)) = Some (h2, e_val e)" "pq_at h2 pq1 la es"
    by (auto simp: node_of_def)
  have pos: "pq_length pq > 0" using Cons.prems(1) by (simp add: pq_at_def)
  define fr where "fr = (if mode = DESTROY_MODE_FREE_VALUES then freed @ [e_val e] else freed)"
  show ?case
  proof (cases "mode = DESTROY_MODE_RETURN_VALUES")
    case True
    with Cons.prems(2) obtain c cs where rest: "rest = c # cs" "length cs = length es" by (cases rest) auto
    from Cons.IH[OF f(2), of "front @ Some (e_val e) # cs @ back" "front @ [Some (e_val e)]" cs "Suc num" fr]
      True rest(2) Cons.prems(2) obtain h' pq' where
      "destroy_pq_loop mode h2 pq1 (front @ Some (e_val e) # cs @ back) (Suc num) fr =
        Some (h', pq', front @ Some (e_val e) # map (Some \<circ> e_val) es @ back, Suc num + length es,
          if mode = DESTROY_MODE_FREE_VALUES then fr @ map e_val es else fr)" "pq_at h' pq' la []" by auto
    with True rest s(1) f(1) pos Cons.prems(2) show ?thesis
      by (subst destroy_pq_loop.simps) (simp add: fr_def destroy_modes)
  next
    case False
    from Cons.IH[OF f(2), of buf front rest "Suc num" fr] False obtain h' pq' where
      "destroy_pq_loop mode h2 pq1 buf (Suc num) fr = Some (h', pq', buf, Suc num + length es,
        if mode = DESTROY_MODE_FREE_VALUES then fr @ map e_val es else fr)" "pq_at h' pq' la []" by auto
    with False s(1) f(1) pos show ?thesis by (subst destroy_pq_loop.simps) (simp add: fr_def)
  qed
qed

lemma empty_maps:
  assumes "pq_at h pq la []"
  shows "long_map_invar (priorities pq)" "long_map_fits (priorities pq)" "inorder (root (priorities pq)) = []"
    "string_map_invar (ids pq)" "long_map_fits (lm (ids pq))" "inorder (root (lm (ids pq))) = []"
proof -
  have m: "long_map_invar (priorities pq)" "string_map_invar (ids pq)"
    "dom (long_map_abs (priorities pq)) = {}" "dom (string_map_abs (ids pq)) = {}"
    using assms by (auto simp: pq_at_def maps_ok_def prio_map_def id_map_def dom_def)
  then show "long_map_invar (priorities pq)" "string_map_invar (ids pq)" by simp_all
  show i: "inorder (root (priorities pq)) = []" "inorder (root (lm (ids pq))) = []"
    using m(3,4) by (simp_all add: dom_string_map_abs dom_long_map_abs)
  then show "long_map_fits (priorities pq)" "long_map_fits (lm (ids pq))" by (simp_all add: long_map_fits_def)
qed

lemma destroy_priority_queue_ok:
  fixes h :: "'v pq_heap"
  assumes pq: "pq_at h pq la es"
  shows "\<exists>h'. destroy_priority_queue h (Some pq) mode = Some (h', destroyed_of mode (map e_val es))"
proof -
  define buf where "buf = (if mode = DESTROY_MODE_RETURN_VALUES
    then replicate (nat (pq_length pq + 1)) None else ([] :: 'v ptr option list))"
  have b: "mode = DESTROY_MODE_RETURN_VALUES \<longrightarrow> buf = [] @ replicate (length es) None @ [None] \<and>
      0 = length ([] :: 'v ptr option list) \<and> length (replicate (length es) (None :: 'v ptr option)) = length es"
    using pq by (auto simp: buf_def pq_at_def nat_add_distrib replicate_append_same)
  from destroy_pq_loop_ok[OF pq b, of "[]"] obtain h1 pq1 where l:
    "destroy_pq_loop mode h pq buf 0 [] =
      Some (h1, pq1, if mode = DESTROY_MODE_RETURN_VALUES then map (Some \<circ> e_val) es @ [None] else buf,
        length es, if mode = DESTROY_MODE_FREE_VALUES then map e_val es else [])" "pq_at h1 pq1 la []" by auto
  note E = empty_maps[OF l(2)]
  obtain m where "destroy_long_map (priorities pq1) DESTROY_MODE_FREE_VALUES =
      Some (destroyed_of DESTROY_MODE_FREE_VALUES [])"
    using destroy_values_ok[OF E(1,2), of DESTROY_MODE_FREE_VALUES] by (auto simp: destroy_long_map_via E(3))
  moreover have "destroy_string_map (Some (ids pq1)) DESTROY_MODE_FREE_VALUES =
      Some (Some (destroyed_of DESTROY_MODE_FREE_VALUES []))"
    using string_map_destroy_ok[OF E(4,5), of DESTROY_MODE_FREE_VALUES] by (simp add: E(6) stored_values_def)
  moreover have "buf_write (map (Some \<circ> e_val) es @ [None]) (length es) (Some None) =
      Some (map (Some \<circ> e_val) es @ [Some None])"
    by (simp add: buf_write_def list_update_append)
  ultimately show ?thesis using l(1)
    by (simp add: destroy_priority_queue_def Let_def buf_def[symmetric] destroyed_of_def)
qed

subsection \<open>Properties\<close>

text \<open>C12: The priority queue, with its tree of priorities, its lists and its hash map of ids over one
  heap, is a stable priority queue. Any sequence of pushes of ids whose hashes are not queued, shifts,
  peeks, removals by id and changes of the priority of a queued id runs from an empty queue without
  touching \<open>NULL\<close> or freed memory and returns what the same sequence returns on a list that is kept in
  order of priority, oldest first among equals.\<close>

theorem priority_queue_refines:
  assumes "run_all spec_pq [] ops = Some (q, rs)"
  shows "\<exists>s. run_all run_pq_op (empty_pq_heap, Some initialize_priority_queue) ops = Some (s, rs) \<and> pq_rep s q"
  by (rule priority_queue.run_refines[OF pq_rep_init assms])

lemma priority_queue_refines_witness:
  "\<exists>s. run_all run_pq_op (empty_pq_heap, Some initialize_priority_queue)
      [PqPush 7 ''a'' (Some (1::nat)), PqPush 3 ''b'' (Some 2), PqPush 7 ''c'' (Some 3), PqPeek,
       PqSetPriority ''c'' 1, PqRemove ''b'', PqRemove ''x'', PqShift] =
    Some (s, [no_item, no_item, no_item, ((3, Some ''b''), Some 2), no_item, ((3, None), Some 2), no_item,
      ((1, Some ''c''), Some 3)]) \<and> pq_rep s [(7, ''a'', Some 1)]"
  by (rule priority_queue_refines)
    (simp add: spec_pq_def same_id_def sdbm_string_hash_def nextch_def word_le_nat_alt)

text \<open>Destroying a queue stops and returns, frees or ignores the values of all its entries, in the order
  of the queue, with their number.\<close>

theorem destroy_priority_queue_correct:
  assumes "pq_rep (h, pq) q"
  shows "\<exists>h'. destroy_priority_queue h pq mode = Some (h', destroyed_of mode (map (snd \<circ> snd) q))"
  using assms destroy_priority_queue_ok by (fastforce simp: pq_rep_def item_of_def comp_def)

text \<open>\<open>get_priority_queue_element_with_id\<close> is not a lookup: called for the id of the first entry it
  returns the value and the priority, but frees the queue node that the queue still points to, so that
  the next shift reads freed memory. And giving a new priority to an id that is not queued dereferences
  \<open>NULL\<close>.\<close>

theorem get_element_leaves_freed_node:
  assumes rep: "pq_rep (h, pq) ((p, i, v) # q)" and j: "\<not> list_ex (same_id j) ((p, i, v) # q)"
  shows "(\<exists>h' pq'. get_priority_queue_element_with_id h pq (Some i) = Some (h', pq', p, v) \<and>
      shift_priority_queue h' pq' out = None) \<and>
    set_priority_for_id_in_priority_queue h pq (Some j) p' = None"
proof (rule conjI)
  from rep obtain pq1 la e es where s: "pq = Some pq1" "pq_at h pq1 la (e # es)" "item_of e = (p, i, v)"
    "map item_of es = q" by (auto simp: pq_rep_def)
  have m: "string_map_invar (ids pq1)" "string_map_abs (ids pq1) = id_map (e # es)"
    "entry_ok h la e" "pq_first pq1 = Some (e_pn e)"
    using s(2) by (auto simp: pq_at_def maps_ok_def heap_ok_def first_of_def)
  have i: "sdbm_string_hash i = e_hash e" "p = e_prio e" "v = e_val e"
    using s(3) by (auto simp: item_of_def e_hash_def)
  have "get_string_map_element (ids pq1) i = Some (ids pq1, Some (e_idn e))"
    using string_map_get[OF m(1), of i] by (simp add: m(2) i(1) id_map_def)
  then have g: "get_priority_queue_node_with_id h pq (Some i) = Some (Some pq1, Some (e_pn e))"
    using m(3) by (auto simp: get_priority_queue_node_with_id_def s(1) entry_ok_def)
  show "\<exists>h' pq'. get_priority_queue_element_with_id h pq (Some i) = Some (h', pq', p, v) \<and>
      shift_priority_queue h' pq' out = None"
    using m(3,4) by (simp add: get_priority_queue_element_with_id_def g entry_ok_def node_of_def i(2,3)
        free_priority_queue_node_def shift_priority_queue_def shift_priority_queue_node_def)
  have "sdbm_string_hash j \<notin> e_hash ` set (e # es)"
    using j s(3,4) list_ex_ids[of j "e # es"] by simp
  from remove_node_unknown[OF s(2) this] show "set_priority_for_id_in_priority_queue h pq (Some j) p' = None"
    by (auto simp: set_priority_for_id_in_priority_queue_def s(1))
qed

lemma one_push:
  "\<exists>h pq. push_priority_queue empty_pq_heap (Some initialize_priority_queue) 5 (Some ''a'') (Some (1::nat)) =
    Some (h, pq) \<and> pq_rep (h, pq) [(5, ''a'', Some 1)]"
proof -
  have "spec_pq [] (PqPush 5 ''a'' (Some (1::nat))) = Some ([(5, ''a'', Some 1)], no_item)"
    by (simp add: spec_pq_def)
  from priority_queue.step_law[OF pq_rep_init this] show ?thesis by (auto simp: run_pq_op_def)
qed

theorem get_element_leaves_freed_node_witness:
  "\<exists>h pq h' pq'. push_priority_queue empty_pq_heap (Some initialize_priority_queue) 5 (Some ''a'') (Some (1::nat)) =
      Some (h, pq) \<and>
    get_priority_queue_element_with_id h pq (Some ''a'') = Some (h', pq', 5, Some 1) \<and>
    shift_priority_queue h' pq' (0, None) = None \<and>
    set_priority_for_id_in_priority_queue h pq (Some ''b'') 3 = None"
proof -
  from one_push obtain h pq where p: "push_priority_queue empty_pq_heap (Some initialize_priority_queue) 5
      (Some ''a'') (Some (1::nat)) = Some (h, pq)" "pq_rep (h, pq) [(5, ''a'', Some 1)]" by blast
  have "\<not> list_ex (same_id ''b'') [(5, ''a'', Some (1::nat))]"
    by (simp add: same_id_def sdbm_string_hash_def nextch_def)
  from get_element_leaves_freed_node[OF p(2) this] p(1) show ?thesis by blast
qed

end
