(* ===== verification/CString.thy ===== *)
theory CString
  imports Prelude "HOL-Library.Sublist" "HOL-Library.Monad_Syntax"
begin

text \<open>
  C strings and byte buffers: an allocation is a list of cells that are \<open>None\<close> until written,
  a string is the list of its characters without the terminating \<open>NUL\<close>. The functions of
  \<open>string.h\<close> and \<open>ctype.h\<close> that the components call are here, with the loops \<open>for\<close> that
  step an index over a range.
\<close>

named_theorems buffer_facts \<open>reads, writes and blits at the seams of a buffer\<close>

definition NUL :: char where
  "NUL = CHR 0x00"

subsection \<open>Counting loops\<close>

fun for_each :: "'i list \<Rightarrow> ('i \<Rightarrow> 's \<Rightarrow> 's option) \<Rightarrow> 's \<Rightarrow> 's option" where
  "for_each [] f s = Some s"
| "for_each (i # is) f s = do { s \<leftarrow> f i s; for_each is f s }"

lemma for_each_append: "for_each (xs @ ys) f s = do { s \<leftarrow> for_each xs f s; for_each ys f s }"
proof (induction xs arbitrary: s)
  case (Cons i xs)
  then show ?case by (cases "f i s") auto
qed simp

lemma for_each_upto:
  "for_each [0..<Suc n] f s = do { s \<leftarrow> for_each [0..<n] f s; f n s }"
  by (cases "for_each [0..<n] f s") (auto simp: for_each_append split: bind_splits)

lemma for_each_map: "for_each (map g xs) f s = for_each xs (f \<circ> g) s"
  by (induction xs arbitrary: s) (auto split: bind_splits)

lemma for_each_upt_shift: "for_each [Suc a..<Suc b] f s = for_each [a..<b] (f \<circ> Suc) s"
  by (simp add: map_Suc_upt[symmetric] for_each_map del: upt_Suc)

lemma for_each_invar:
  assumes "\<And>i s. i < n \<Longrightarrow> I i s \<Longrightarrow> \<exists>s'. f i s = Some s' \<and> I (Suc i) s'" and "I 0 s"
  shows "\<exists>s'. for_each [0..<n] f s = Some s' \<and> I n s'"
  using assms
proof (induction n)
  case (Suc n)
  then obtain s1 where "for_each [0..<n] f s = Some s1" "I n s1" by (metis less_Suc_eq)
  with Suc.prems(1)[of n s1] show ?case by (auto simp: for_each_append)
qed simp

subsection \<open>Buffers\<close>

definition buf_read :: "'a option list \<Rightarrow> nat \<Rightarrow> 'a option" where
  "buf_read buf i = (if i < length buf then buf ! i else None)"

lemma buf_read_mid [simp]: "buf_read (xs @ y # ys) (length xs) = y"
  by (simp add: buf_read_def)

lemma buf_read_at [buffer_facts]: "i = length xs \<Longrightarrow> buf_read (xs @ y # ys) i = y"
  by simp

lemma buf_read_map [buffer_facts]: "i < length s \<Longrightarrow> buf_read (map Some s @ ys) i = Some (s ! i)"
  by (simp add: buf_read_def nth_append)

lemma buf_read_end [buffer_facts]: "i = length s \<Longrightarrow> buf_read (map Some s @ y # ys) i = y"
  by (simp add: buf_read_def nth_append)

fun blit :: "'a option list \<Rightarrow> nat \<Rightarrow> 'a list \<Rightarrow> 'a option list option" where
  "blit buf i [] = Some buf"
| "blit buf i (x # xs) = do { buf \<leftarrow> buf_write buf i (Some x); blit buf (Suc i) xs }"

lemma blit_mid [buffer_facts]:
  "i = length front \<Longrightarrow> length mid = length xs \<Longrightarrow>
    blit (front @ mid @ back) i xs = Some (front @ map Some xs @ back)"
proof (induction xs arbitrary: front mid i)
  case (Cons x xs)
  then obtain y ys where mid: "mid = y # ys" by (cases mid) auto
  with Cons.prems Cons.IH[of "Suc i" "front @ [Some x]" ys] show ?case by simp
qed simp

lemma blit_end [buffer_facts]:
  "i = length front \<Longrightarrow> length mid = length xs \<Longrightarrow>
    blit (front @ mid) i xs = Some (front @ map Some xs)"
  using blit_mid[of i front mid xs "[]"] by simp

lemma blit_length: "blit buf i xs = Some buf' \<Longrightarrow> length buf' = length buf"
  by (induction xs arbitrary: buf i) (auto simp: buf_write_def split: bind_splits if_splits)

text \<open>\<open>memcpy\<close> from a string: \<open>n\<close> bytes, at most the string and its terminator.\<close>

definition memcpy_str :: "char option list \<Rightarrow> nat \<Rightarrow> string \<Rightarrow> int \<Rightarrow> char option list option" where
  "memcpy_str buf i src n =
     (if 0 \<le> n \<and> nat n \<le> length src + 1 then blit buf i (take (nat n) (src @ [NUL])) else None)"

lemma memcpy_str_all [buffer_facts]:
  "n = int (length src) \<Longrightarrow> memcpy_str buf i src n = blit buf i src"
  by (simp add: memcpy_str_def)

lemma memcpy_str_take [buffer_facts]:
  "n \<le> length src \<Longrightarrow> memcpy_str buf i src (int n) = blit buf i (take n src)"
  by (simp add: memcpy_str_def)

subsection \<open>Strings\<close>

text \<open>The characters before the first \<open>NUL\<close>; no \<open>NUL\<close> or an unwritten cell is \<open>None\<close>.\<close>

fun cstr_of :: "char option list \<Rightarrow> string option" where
  "cstr_of [] = None"
| "cstr_of (None # cs) = None"
| "cstr_of (Some c # cs) = (if c = NUL then Some [] else map_option ((#) c) (cstr_of cs))"

lemma cstr_of_app [buffer_facts]: "NUL \<notin> set s \<Longrightarrow> cstr_of (map Some s @ Some NUL # cs) = Some s"
  by (induction s) auto

lemma cstr_of_Some:
  "cstr_of buf = Some s \<Longrightarrow> NUL \<notin> set s \<and> (\<exists>cs. buf = map Some s @ Some NUL # cs)"
proof (induction buf arbitrary: s rule: cstr_of.induct)
  case (3 c cs)
  then show ?case by (auto split: if_splits)
qed auto

lemma cstr_of_iff: "cstr_of buf = Some s \<longleftrightarrow> NUL \<notin> set s \<and> (\<exists>cs. buf = map Some s @ Some NUL # cs)"
  using cstr_of_Some cstr_of_app by blast

text \<open>Reading a string through an index: the terminator is readable, nothing beyond it is.\<close>

definition char_at :: "string \<Rightarrow> nat \<Rightarrow> char option" where
  "char_at s i = (if i < length s then Some (s ! i) else if i = length s then Some NUL else None)"

lemma char_at_simps [simp]:
  "char_at [] 0 = Some NUL" "char_at (c # s) 0 = Some c" "char_at (c # s) (Suc i) = char_at s i"
  "char_at s (length s) = Some NUL" "char_at (s @ c # t) (length s) = Some c"
  by (simp_all add: char_at_def)

lemma char_at_app [buffer_facts]: "i = length s \<Longrightarrow> char_at (s @ t) i = char_at t 0"
  by (cases t) (simp_all add: char_at_def)

text \<open>\<open>strstr\<close>: the offset of the first occurrence.\<close>

fun strstr :: "string \<Rightarrow> string \<Rightarrow> nat option" where
  "strstr hay needle =
     (if prefix needle hay then Some 0
      else case hay of [] \<Rightarrow> None | _ # rest \<Rightarrow> map_option Suc (strstr rest needle))"

declare strstr.simps [simp del]

lemma strstr_0 [simp]: "strstr hay needle = Some 0 \<longleftrightarrow> prefix needle hay"
  by (subst strstr.simps) (auto split: list.splits)

text \<open>\<open>strcmp\<close> compares bytes as \<open>unsigned char\<close>; only the sign of its result is specified.\<close>

fun strcmp :: "string \<Rightarrow> string \<Rightarrow> int" where
  "strcmp [] [] = 0"
| "strcmp [] (d # ds) = -1"
| "strcmp (c # cs) [] = 1"
| "strcmp (c # cs) (d # ds) =
     (if c = d then strcmp cs ds else if (of_char c :: nat) < of_char d then -1 else 1)"

definition tolower :: "char \<Rightarrow> char" where
  "tolower c = (if (65::nat) \<le> of_char c \<and> (of_char c :: nat) \<le> 90 then char_of ((of_char c :: nat) + 32) else c)"

definition toupper :: "char \<Rightarrow> char" where
  "toupper c = (if (97::nat) \<le> of_char c \<and> (of_char c :: nat) \<le> 122 then char_of ((of_char c :: nat) - 32) else c)"

lemma of_char_NUL [simp]: "(of_char NUL :: nat) = 0"
  by (simp add: NUL_def)

lemma of_char_zero [simp]: "(of_char c :: nat) = 0 \<longleftrightarrow> c = NUL"
  by (metis of_char_NUL of_char_eq_iff)

lemma tolower_NUL [simp]: "tolower c = NUL \<longleftrightarrow> c = NUL"
proof (cases "(65::nat) \<le> of_char c \<and> (of_char c :: nat) \<le> 90")
  case True
  then have "(of_char (tolower c) :: nat) = of_char c + 32" by (simp add: tolower_def)
  with True have "(of_char (tolower c) :: nat) \<noteq> 0" "c \<noteq> NUL" by auto
  then show ?thesis by (simp only: of_char_zero)
next
  case False
  then show ?thesis by (simp only: tolower_def if_False)
qed

lemma toupper_NUL [simp]: "toupper c = NUL \<longleftrightarrow> c = NUL"
proof (cases "(97::nat) \<le> of_char c \<and> (of_char c :: nat) \<le> 122")
  case True
  then have "(of_char (toupper c) :: nat) = of_char c - 32" by (auto simp: toupper_def mod_less)
  with True have "(of_char (toupper c) :: nat) \<noteq> 0" "c \<noteq> NUL" by auto
  then show ?thesis by (simp only: of_char_zero)
next
  case False
  then show ?thesis by (simp only: toupper_def if_False)
qed

lemma strcmp_eq_0: "strcmp s t = 0 \<longleftrightarrow> s = t"
  by (induction s t rule: strcmp.induct) auto

lemma strcmp_sign: "strcmp s t \<in> {-1, 0, 1}"
  by (induction s t rule: strcmp.induct) auto

lemma of_char_neq: "c \<noteq> d \<Longrightarrow> \<not> (of_char c :: nat) < of_char d \<Longrightarrow> (of_char d :: nat) < of_char c"
  by (metis linorder_neqE_nat of_char_eq_iff)

lemma strcmp_swap: "strcmp t s = - strcmp s t"
  by (induction s t rule: strcmp.induct) (auto dest: of_char_neq)

lemma strcmp_trans: "strcmp s t \<le> 0 \<Longrightarrow> strcmp t u \<le> 0 \<Longrightarrow> strcmp s u \<le> 0"
proof (induction s t arbitrary: u rule: strcmp.induct)
  case (2 d ds)
  then show ?case by (cases u) auto
next
  case (4 c cs d ds)
  then obtain e es where u: "u = e # es" by (cases u) auto
  show ?case
  proof (cases "c = d")
    case True
    with 4 show ?thesis unfolding u by (cases "d = e") (simp_all split: if_splits)
  next
    case False
    with 4(2) have cd: "(of_char c :: nat) < of_char d" by (simp split: if_splits)
    show ?thesis
    proof (cases "d = e")
      case True
      with cd show ?thesis unfolding u by auto
    next
      case ne: False
      with 4(3) have "(of_char d :: nat) < of_char e" unfolding u by (simp split: if_splits)
      with cd have "(of_char c :: nat) < of_char e" by simp
      then show ?thesis unfolding u by auto
    qed
  qed
qed auto

end
