(* ===== verification/StringUtil.thy ===== *)
theory StringUtil
  imports CString "HOL-Library.Multiset"
begin

text \<open>
  The string routines of \<open>package/libericstools/src/string_util.c\<close>, on C strings and byte
  buffers (theory \<open>CString\<close>): prefix replacement, trimming, case conversion, arrays of
  strings, concatenation, splitting, joining, replacing, the conversion of a
  \<open>/.../\<close> expression into a regular expression, and the readers of files.
  Every loop is the loop of the source; what leaves a buffer is \<open>None\<close>. The lengths of the
  source have type \<open>int\<close>; the models take strings shorter than \<open>2^31\<close>, so no length wraps.
\<close>

subsection \<open>Prefixes and white space\<close>

definition replace_prefix :: "string ptr \<Rightarrow> string ptr \<Rightarrow> string ptr \<Rightarrow> char option list ptr option" where
  "replace_prefix original old_prefix new_prefix =
     (case (original, old_prefix, new_prefix) of
        (Some original, Some old_prefix, Some new_prefix) \<Rightarrow>
          if strstr original old_prefix = Some 0
          then do {
            let old_prefix_length = int (length old_prefix);
            let new_prefix_length = int (length new_prefix);
            let remainder_length = int (length original) - old_prefix_length;
            let new_length = new_prefix_length + remainder_length;
            let replaced = replicate (nat (new_length + 1)) None;
            replaced \<leftarrow> memcpy_str replaced 0 new_prefix new_prefix_length;
            replaced \<leftarrow> memcpy_str replaced (nat new_prefix_length)
              (drop (nat old_prefix_length) original) remainder_length;
            replaced \<leftarrow> buf_write replaced (nat (new_prefix_length + remainder_length)) (Some NUL);
            Some (Some replaced) }
          else Some None
      | _ \<Rightarrow> Some None)"

text \<open>The loop over \<open>char whitespace[5]\<close>, which stops at the first match.\<close>

definition whitespace :: string where
  "whitespace = [CHR 0x20, CHR 0x09, CHR 0x0A, CHR 0x0D]"

fun whitespace_loop :: "char \<Rightarrow> string \<Rightarrow> bool \<Rightarrow> bool" where
  "whitespace_loop test [] is_whitespace = is_whitespace"
| "whitespace_loop test (w # ws) is_whitespace =
     (if \<not> is_whitespace then whitespace_loop test ws (test = w) else is_whitespace)"

partial_function (option) trim_start :: "char option list \<Rightarrow> nat \<Rightarrow> bool \<Rightarrow> nat option" where
  "trim_start str index is_whitespace = do {
     test \<leftarrow> buf_read str index;
     if test \<noteq> NUL \<and> is_whitespace
     then (let w = whitespace_loop test whitespace False in
       trim_start str (if w then index + 1 else index) w)
     else Some index }"

partial_function (option) trim_end :: "char option list \<Rightarrow> nat \<Rightarrow> int \<Rightarrow> bool \<Rightarrow> int option" where
  "trim_end str new_start index is_whitespace =
     (if index \<ge> int new_start \<and> is_whitespace
      then do {
        test \<leftarrow> buf_read str (nat index);
        (let w = whitespace_loop test whitespace False in
          trim_end str new_start (if w then index - 1 else index) w) }
      else Some index)"

definition trim_flanking_whitespace :: "char option list \<Rightarrow> char option list option" where
  "trim_flanking_whitespace str = do {
     new_start \<leftarrow> trim_start str 0 True;
     s \<leftarrow> cstr_of str;
     index \<leftarrow> trim_end str new_start (int (length s) - 1) True;
     c \<leftarrow> buf_read str new_start;
     let new_length = (if c = NUL then 0 else index + 1 - int new_start);
     str \<leftarrow> (if new_start > 0
       then for_each [0..<nat new_length] (\<lambda>index str. do {
         c \<leftarrow> buf_read str (index + new_start);
         buf_write str index (Some c) }) str
       else Some str);
     buf_write str (nat new_length) (Some NUL) }"

subsection \<open>Comparison and case\<close>

definition safe_strcmp :: "string ptr \<Rightarrow> string ptr \<Rightarrow> int" where
  "safe_strcmp str1 str2 =
     (case (str1, str2) of
        (None, None) \<Rightarrow> 0
      | (None, Some _) \<Rightarrow> 1
      | (Some _, None) \<Rightarrow> -1
      | (Some s, Some t) \<Rightarrow> strcmp s t)"

partial_function (option) case_loop :: "(char \<Rightarrow> char) \<Rightarrow> char option list \<Rightarrow> nat \<Rightarrow> char option list option" where
  "case_loop conv str i = do {
     c \<leftarrow> buf_read str i;
     if c \<noteq> NUL
     then do { str \<leftarrow> buf_write str i (Some (conv c)); case_loop conv str (i + 1) }
     else Some str }"

definition to_lowercase :: "char option list \<Rightarrow> char option list option" where
  "to_lowercase str = case_loop tolower str 0"

definition to_uppercase :: "char option list \<Rightarrow> char option list option" where
  "to_uppercase str = case_loop toupper str 0"

subsection \<open>Arrays of strings\<close>

text \<open>A \<open>char**\<close> is a list of cells; a written cell is a string or \<open>NULL\<close>.\<close>

type_synonym str_array = "string ptr option list"

partial_function (option) free_array_loop :: "str_array \<Rightarrow> nat \<Rightarrow> string list \<Rightarrow> (nat \<times> string list) option" where
  "free_array_loop strs str_index freed = do {
     p \<leftarrow> buf_read strs str_index;
     (case p of None \<Rightarrow> Some (str_index, freed)
      | Some s \<Rightarrow> free_array_loop strs (str_index + 1) (freed @ [s])) }"

definition free_null_terminated_string_array :: "str_array ptr \<Rightarrow> (nat \<times> string list) option" where
  "free_null_terminated_string_array strs =
     (case strs of None \<Rightarrow> Some (0, []) | Some strs \<Rightarrow> free_array_loop strs 0 [])"

partial_function (option) array_size :: "str_array \<Rightarrow> nat \<Rightarrow> nat option" where
  "array_size strs i = do {
     p \<leftarrow> buf_read strs i;
     (case p of None \<Rightarrow> Some i | Some s \<Rightarrow> array_size strs (i + 1)) }"

partial_function (option) copy_array_loop :: "str_array \<Rightarrow> str_array \<Rightarrow> nat \<Rightarrow> (str_array \<times> nat) option" where
  "copy_array_loop original new i = do {
     p \<leftarrow> buf_read original i;
     (case p of None \<Rightarrow> Some (new, i)
      | Some s \<Rightarrow> do {
          new \<leftarrow> buf_write new i (Some (Some s));
          copy_array_loop original new (i + 1) }) }"

definition copy_null_terminated_string_array :: "str_array \<Rightarrow> str_array option" where
  "copy_null_terminated_string_array original = do {
     size \<leftarrow> array_size original 0;
     (new, size) \<leftarrow> copy_array_loop original (replicate (size + 1) None) 0;
     buf_write new size (Some None) }"

text \<open>The strings before the \<open>NULL\<close>.\<close>

fun pieces_in :: "str_array \<Rightarrow> string list option" where
  "pieces_in (Some (Some p) # cells) = do { ps \<leftarrow> pieces_in cells; Some (p # ps) }"
| "pieces_in (Some None # cells) = Some []"
| "pieces_in cells = None"

subsection \<open>Concatenation\<close>

fun strcat_length :: "string ptr list \<Rightarrow> int \<Rightarrow> int" where
  "strcat_length [] new_length = new_length"
| "strcat_length (next_arg # strs) new_length =
     strcat_length strs (case next_arg of None \<Rightarrow> new_length | Some s \<Rightarrow> new_length + int (length s))"

fun strcat_copy :: "string ptr list \<Rightarrow> char option list \<Rightarrow> nat \<Rightarrow> (char option list \<times> nat) option" where
  "strcat_copy [] new_str next_start = Some (new_str, next_start)"
| "strcat_copy (next_arg # strs) new_str next_start =
     (case next_arg of
        None \<Rightarrow> strcat_copy strs new_str next_start
      | Some s \<Rightarrow> do {
          let next_length = length s;
          new_str \<leftarrow> memcpy_str new_str next_start s (int next_length);
          strcat_copy strs new_str (next_start + next_length) })"

definition dynamic_strcat :: "string ptr list \<Rightarrow> char option list option" where
  "dynamic_strcat strs = do {
     let new_str = replicate (nat (1 + strcat_length strs 0)) None;
     (new_str, next_start) \<leftarrow> strcat_copy strs new_str 0;
     buf_write new_str next_start (Some NUL) }"

text \<open>
  \<open>dcat_and_free\<close> works on two \<open>char*\<close> variables through their addresses: the cells are the
  variables, the strings they point to are allocations.
\<close>

record cells =
  cell :: "nat \<rightharpoonup> nat ptr"
  str_at :: "nat \<rightharpoonup> string"
  str_brk :: nat

definition alloc_str :: "cells \<Rightarrow> string \<Rightarrow> cells \<times> nat ptr" where
  "alloc_str h s = (h\<lparr>str_at := (str_at h)(str_brk h \<mapsto> s), str_brk := Suc (str_brk h)\<rparr>, Some (str_brk h))"

definition load_str :: "cells \<Rightarrow> nat \<Rightarrow> string ptr option" where
  "load_str h a = do {
     p \<leftarrow> cell h a;
     (case p of None \<Rightarrow> Some None | Some q \<Rightarrow> map_option Some (str_at h q)) }"

definition free_cell :: "cells \<Rightarrow> nat ptr \<Rightarrow> nat ptr \<Rightarrow> cells option" where
  "free_cell h c s = do {
     a \<leftarrow> c;
     p \<leftarrow> cell h a;
     h \<leftarrow> (case p of None \<Rightarrow> Some h
       | Some q \<Rightarrow> (case str_at h q of None \<Rightarrow> None | Some _ \<Rightarrow> Some (h\<lparr>str_at := (str_at h)(q := None)\<rparr>)));
     Some (h\<lparr>cell := (cell h)(a \<mapsto> s)\<rparr>) }"

definition strdup_cell :: "cells \<Rightarrow> nat \<Rightarrow> (cells \<times> nat ptr) option" where
  "strdup_cell h a = do {
     s \<leftarrow> load_str h a;
     Some (case s of None \<Rightarrow> (h, None) | Some s \<Rightarrow> alloc_str h s) }"

definition dcat_and_free :: "cells \<Rightarrow> nat ptr \<Rightarrow> nat ptr \<Rightarrow> bool \<Rightarrow> bool \<Rightarrow> (cells \<times> nat ptr) option" where
  "dcat_and_free h one two free1 free2 = do {
     (h, s) \<leftarrow> (case (one, two) of
        (Some a, Some b) \<Rightarrow> do {
          x \<leftarrow> load_str h a;
          y \<leftarrow> load_str h b;
          buf \<leftarrow> dynamic_strcat [x, y];
          str \<leftarrow> cstr_of buf;
          Some (alloc_str h str) }
      | (Some a, None) \<Rightarrow> strdup_cell h a
      | (None, Some b) \<Rightarrow> strdup_cell h b
      | (None, None) \<Rightarrow> Some (alloc_str h []));
     h \<leftarrow> (if free1 then free_cell h one s else Some h);
     h \<leftarrow> (if free2 then free_cell h two s else Some h);
     Some (h, s) }"

subsection \<open>Splitting and joining\<close>

text \<open>An array of characters without a terminator.\<close>

definition arr_at :: "'a list \<Rightarrow> nat \<Rightarrow> 'a option" where
  "arr_at xs i = (if i < length xs then Some (xs ! i) else None)"

text \<open>The loops over the separators, which keep the first match.\<close>

definition sep_match :: "string \<Rightarrow> nat \<Rightarrow> char \<Rightarrow> bool option" where
  "sep_match separators num_separators c =
     for_each [0..<num_separators] (\<lambda>sep_index matches.
       if matches then Some True else do { d \<leftarrow> arr_at separators sep_index; Some (d = c) }) False"

definition sep_or_end :: "string \<Rightarrow> nat \<Rightarrow> string \<Rightarrow> nat \<Rightarrow> bool option" where
  "sep_or_end separators num_separators start k =
     for_each [0..<num_separators] (\<lambda>sep_index found.
       if found then Some True
       else do { d \<leftarrow> arr_at separators sep_index; c \<leftarrow> char_at start k; Some (d = c \<or> c = NUL) }) False"

fun count_separators :: "string \<Rightarrow> nat \<Rightarrow> string \<Rightarrow> int \<Rightarrow> int option" where
  "count_separators separators n [] separator_count = Some separator_count"
| "count_separators separators n (c # line) separator_count = do {
     found \<leftarrow> sep_match separators n c;
     count_separators separators n line (separator_count + (if found then 1 else 0)) }"

partial_function (option) skip_separators :: "string \<Rightarrow> nat \<Rightarrow> string \<Rightarrow> string option" where
  "skip_separators separators n start = do {
     c \<leftarrow> char_at start 0;
     matches \<leftarrow> sep_match separators n c;
     if \<not> matches \<or> c = NUL then Some start else skip_separators separators n (drop 1 start) }"

partial_function (option) find_separator :: "string \<Rightarrow> nat \<Rightarrow> string \<Rightarrow> nat \<Rightarrow> nat option" where
  "find_separator separators n start first_separator_index = do {
     separator_found \<leftarrow> sep_or_end separators n start first_separator_index;
     if separator_found then Some first_separator_index
     else find_separator separators n start (first_separator_index + 1) }"

definition copy_piece :: "string \<Rightarrow> nat \<Rightarrow> string option" where
  "copy_piece start k = do {
     next_piece \<leftarrow> memcpy_str (replicate (k + 1) None) 0 start (int k);
     next_piece \<leftarrow> buf_write next_piece k (Some NUL);
     cstr_of next_piece }"

partial_function (option) split_loop :: "string \<Rightarrow> nat \<Rightarrow> int \<Rightarrow> int \<Rightarrow> string \<Rightarrow> str_array \<Rightarrow> nat
    \<Rightarrow> (str_array \<times> nat) option" where
  "split_loop separators n max_pieces include_remainder start split split_index = do {
     c \<leftarrow> char_at start 0;
     if c \<noteq> NUL \<and> int split_index < max_pieces
     then do {
       first_separator_index \<leftarrow> find_separator separators n start 0;
       (split, split_index) \<leftarrow> (if first_separator_index > 0
         then do {
           next_piece \<leftarrow> (if int split_index + 1 < max_pieces \<or> include_remainder \<le> 0
             then copy_piece start first_separator_index else Some start);
           split \<leftarrow> buf_write split split_index (Some (Some next_piece));
           split \<leftarrow> buf_write split (split_index + 1) (Some None);
           Some (split, split_index + 1) }
         else Some (split, split_index));
       start \<leftarrow> skip_separators separators n (drop first_separator_index start);
       split_loop separators n max_pieces include_remainder start split split_index }
     else Some (split, split_index) }"

definition split_on_separators :: "string ptr \<Rightarrow> string \<Rightarrow> nat \<Rightarrow> int \<Rightarrow> int \<Rightarrow> (str_array \<times> nat) option" where
  "split_on_separators line separators num_separators max_pieces include_remainder_at_max =
     (case line of
        Some line \<Rightarrow> do {
          max_pieces \<leftarrow> (if max_pieces < 0
            then map_option (\<lambda>separator_count. separator_count + 1)
              (count_separators separators num_separators line 0)
            else Some max_pieces);
          split \<leftarrow> buf_write (replicate (nat (1 + max_pieces)) None) 0 (Some None);
          start \<leftarrow> skip_separators separators num_separators line;
          split_loop separators num_separators max_pieces include_remainder_at_max start split 0 }
      | None \<Rightarrow> do {
          split \<leftarrow> buf_write (replicate 1 None) 0 (Some None);
          Some (split, 0) })"

partial_function (option) count_parts :: "str_array \<Rightarrow> int \<Rightarrow> nat \<Rightarrow> nat option" where
  "count_parts parts max_parts num_parts = do {
     p \<leftarrow> buf_read parts num_parts;
     if p \<noteq> None \<and> (max_parts < 0 \<or> int num_parts < max_parts)
     then count_parts parts max_parts (num_parts + 1)
     else Some num_parts }"

text \<open>The loop runs from the given number of parts down to the first one.\<close>

fun join_loop :: "string ptr \<Rightarrow> str_array \<Rightarrow> bool \<Rightarrow> nat \<Rightarrow> string \<Rightarrow> string ptr list
    \<Rightarrow> (string \<times> string ptr list) option" where
  "join_loop separator parts free_parts 0 joined freed = Some (joined, freed)"
| "join_loop separator parts free_parts (Suc num_parts) joined freed = do {
     p \<leftarrow> buf_read parts num_parts;
     buf \<leftarrow> dynamic_strcat [p, separator, Some joined];
     joined \<leftarrow> cstr_of buf;
     join_loop separator parts free_parts num_parts joined (if free_parts then freed @ [p] else freed) }"

definition join_strs :: "string ptr \<Rightarrow> str_array \<Rightarrow> int \<Rightarrow> bool \<Rightarrow> (string ptr \<times> string ptr list) option" where
  "join_strs separator parts max_parts free_parts = do {
     num_parts \<leftarrow> count_parts parts max_parts 0;
     if num_parts > 0
     then do {
       p \<leftarrow> buf_read parts (num_parts - 1);
       joined \<leftarrow> p;
       (joined, freed) \<leftarrow> join_loop separator parts free_parts (num_parts - 1) joined
         (if free_parts then [p] else []);
       Some (Some joined, freed) }
     else Some (None, []) }"

subsection \<open>Replacing\<close>

partial_function (option) replace_count :: "string \<Rightarrow> string \<Rightarrow> int \<Rightarrow> int \<Rightarrow> (int \<times> int) option" where
  "replace_count s old i cnt = do {
     c \<leftarrow> char_at s (nat i);
     if c \<noteq> NUL
     then (if strstr (drop (nat i) s) old = Some 0
       then replace_count s old (i + (int (length old) - 1) + 1) (cnt + 1)
       else replace_count s old (i + 1) cnt)
     else Some (i, cnt) }"

partial_function (option) replace_copy :: "string \<Rightarrow> string \<Rightarrow> string \<Rightarrow> char option list \<Rightarrow> nat
    \<Rightarrow> char option list option" where
  "replace_copy s old new ret i = do {
     c \<leftarrow> char_at s 0;
     if c \<noteq> NUL
     then (if strstr s old = Some 0
       then do {
         ret \<leftarrow> blit ret i (new @ [NUL]);
         replace_copy (drop (length old) s) old new ret (i + length new) }
       else do {
         ret \<leftarrow> buf_write ret i (Some c);
         replace_copy (drop 1 s) old new ret (i + 1) })
     else buf_write ret i (Some NUL) }"

definition dynamic_replace :: "string \<Rightarrow> string \<Rightarrow> string \<Rightarrow> char option list option" where
  "dynamic_replace template_str old new = do {
     let newlen = int (length new);
     let oldlen = int (length old);
     (i, cnt) \<leftarrow> replace_count template_str old 0 0;
     let ret = replicate (nat (i + 1 + cnt * (newlen - oldlen))) None;
     replace_copy template_str old new ret 0 }"

subsection \<open>Regular expressions between slashes\<close>

text \<open>A write through an \<open>int\<close> index.\<close>

definition int_write :: "'a list \<Rightarrow> int \<Rightarrow> 'a \<Rightarrow> 'a list option" where
  "int_write buf i x = (if i < 0 then None else buf_write buf (nat i) x)"

definition BACKSLASH :: char where
  "BACKSLASH = CHR 0x5C"

definition escape_char :: "char \<Rightarrow> char" where
  "escape_char c = (if c = CHR ''n'' then CHR 0x0A else if c = CHR ''r'' then CHR 0x0D
     else if c = CHR ''t'' then CHR 0x09 else c)"

partial_function (option) regex_loop :: "char option list \<Rightarrow> char option list \<Rightarrow> int \<Rightarrow> nat \<Rightarrow> char
    \<Rightarrow> (bool \<times> char option list \<times> int \<times> char) option" where
  "regex_loop internal new new_index internal_index previous = do {
     nxt \<leftarrow> buf_read internal internal_index;
     if nxt \<noteq> NUL
     then (if nxt = CHR ''/'' \<and> previous \<noteq> BACKSLASH
       then Some (False, new, new_index, previous)
       else if nxt \<in> set ''nrt/'' \<and> previous = BACKSLASH
       then do {
         previous2 \<leftarrow> (if internal_index \<ge> 2 then buf_read internal (internal_index - 2) else Some NUL);
         let new_index = (if previous2 = BACKSLASH then new_index else new_index - 1);
         new \<leftarrow> int_write new new_index (Some (if previous2 = BACKSLASH then nxt else escape_char nxt));
         regex_loop internal new (new_index + 1) (internal_index + 1) NUL }
       else do {
         new \<leftarrow> int_write new new_index (Some nxt);
         regex_loop internal new (new_index + 1) (internal_index + 1) nxt })
     else Some (True, new, new_index, previous) }"

text \<open>
  The expression handed to \<open>regcomp\<close>, \<open>None\<close> inside when it is rejected before.
\<close>

definition regex_body :: "string \<Rightarrow> string ptr option" where
  "regex_body trimmed = do {
     let trimmed_length = length trimmed;
     c \<leftarrow> char_at trimmed 0;
     if c \<noteq> CHR ''/'' then Some None
     else do {
       d \<leftarrow> char_at trimmed (trimmed_length - 1);
       if d \<noteq> CHR ''/'' then Some None
       else do {
         let internal_length = int trimmed_length - 2;
         internal \<leftarrow> memcpy_str (replicate trimmed_length None) 0 (drop 1 trimmed) internal_length;
         internal \<leftarrow> int_write internal internal_length (Some NUL);
         (valid, new, new_index, previous) \<leftarrow> regex_loop internal (replicate trimmed_length None) 0 0 NUL;
         if \<not> valid \<or> previous = BACKSLASH then Some None
         else do {
           new \<leftarrow> int_write new new_index (Some NUL);
           s \<leftarrow> cstr_of new;
           Some (Some s) } } } }"

definition convert_to_regex :: "(string \<Rightarrow> bool) \<Rightarrow> string \<Rightarrow> bool option" where
  "convert_to_regex regcomp str = do {
     buf \<leftarrow> trim_flanking_whitespace (map Some str @ [Some NUL]);
     trimmed \<leftarrow> cstr_of buf;
     new \<leftarrow> regex_body trimmed;
     Some (case new of None \<Rightarrow> False | Some new \<Rightarrow> regcomp new) }"

subsection \<open>Reading files\<close>

text \<open>A stream: its characters and the position of the next one. \<open>EOF\<close> is -1.\<close>

record c_file =
  contents :: string
  fpos :: nat

definition EOF :: int where
  "EOF = -1"

definition fgetc :: "c_file \<Rightarrow> int \<times> c_file" where
  "fgetc f = (if fpos f < length (contents f)
     then (int (of_char (contents f ! fpos f)), f\<lparr>fpos := fpos f + 1\<rparr>) else (EOF, f))"

text \<open>\<open>char\<close> is signed on the targets, so a byte of a terminator array is promoted with its sign.\<close>

definition promote :: "char \<Rightarrow> int" where
  "promote c = (let n = (of_char c :: nat) in if n \<ge> 128 then int n - 256 else int n)"

partial_function (option) scan_terminator :: "c_file \<Rightarrow> string \<Rightarrow> nat \<Rightarrow> nat \<Rightarrow> (c_file \<times> nat \<times> int) option" where
  "scan_terminator f terminators num_terminators size_to_read = do {
     let (nextch, f) = fgetc f;
     terminator_found \<leftarrow> for_each [0..<num_terminators] (\<lambda>i found.
       if found then Some True else do { t \<leftarrow> arr_at terminators i; Some (nextch = promote t) }) False;
     let terminator_found = (if nextch = EOF then True else terminator_found);
     if terminator_found then Some (f, size_to_read, nextch)
     else scan_terminator f terminators num_terminators (size_to_read + 1) }"

definition dynamic_read :: "c_file \<Rightarrow> string \<Rightarrow> nat \<Rightarrow> (c_file \<times> char option list \<times> int \<times> nat) option" where
  "dynamic_read open_file terminators num_terminators = do {
     let start_pos = fpos open_file;
     (open_file, size_to_read, terminator) \<leftarrow> scan_terminator open_file terminators num_terminators 0;
     let str = replicate (size_to_read + 1) None;
     (open_file, str) \<leftarrow> (if size_to_read > 0
       then do {
         let open_file = open_file\<lparr>fpos := start_pos\<rparr>;
         (open_file, str) \<leftarrow> for_each [0..<size_to_read] (\<lambda>i (open_file, str). do {
           let (nextch, open_file) = fgetc open_file;
           str \<leftarrow> buf_write str i (Some (char_of (nat nextch)));
           Some (open_file, str) }) (open_file, str);
         Some (snd (fgetc open_file), str) }
       else Some (open_file, str));
     str \<leftarrow> buf_write str size_to_read (Some NUL);
     Some (open_file, str, terminator, size_to_read) }"

definition dyn_read_line :: "c_file \<Rightarrow> (c_file \<times> char option list \<times> int \<times> nat) option" where
  "dyn_read_line open_file = dynamic_read open_file [CHR 0x0D, CHR 0x0A] 2"

text \<open>The loop that fills the current block, with the last character read.\<close>

partial_function (option) read_block :: "c_file \<Rightarrow> char option list \<Rightarrow> nat \<Rightarrow> nat \<Rightarrow> int
    \<Rightarrow> (c_file \<times> char option list \<times> nat \<times> int) option" where
  "read_block f read_string bytes_read max_read_size nextch =
     (if nextch \<noteq> EOF \<and> bytes_read < max_read_size
      then do {
        let (nextch, f) = fgetc f;
        if nextch \<noteq> EOF
        then do {
          read_string \<leftarrow> buf_write read_string bytes_read (Some (char_of (nat nextch)));
          read_block f read_string (bytes_read + 1) max_read_size nextch }
        else read_block f read_string bytes_read max_read_size nextch }
      else Some (f, read_string, bytes_read, nextch))"

partial_function (option) read_blocks :: "c_file \<Rightarrow> nat \<Rightarrow> char option list \<Rightarrow> nat \<Rightarrow> nat
    \<Rightarrow> (c_file \<times> char option list \<times> nat) option" where
  "read_blocks f read_block_size read_string bytes_read max_read_size = do {
     (f, read_string, bytes_read, nextch) \<leftarrow> read_block f read_string bytes_read max_read_size 63;
     read_string \<leftarrow> buf_write read_string bytes_read (Some NUL);
     if nextch = EOF then Some (f, read_string, bytes_read)
     else do {
       let max_read_size = max_read_size + read_block_size;
       let new_str = replicate (max_read_size + 1) None;
       let new_str = take bytes_read read_string @ drop bytes_read new_str;
       read_blocks f read_block_size new_str bytes_read max_read_size } }"

definition read_entire_file :: "c_file \<Rightarrow> nat \<Rightarrow> (c_file \<times> char option list \<times> nat) option" where
  "read_entire_file f read_block_size =
     read_blocks f read_block_size (replicate (read_block_size + 1) None) 0 read_block_size"

text \<open>\<open>popen\<close> is the output of the command, \<open>None\<close> when it cannot be run.\<close>

definition get_shell_command_output_lines :: "(string \<Rightarrow> string option) \<Rightarrow> string ptr
    \<Rightarrow> (str_array \<times> nat) ptr option" where
  "get_shell_command_output_lines popen command =
     (case command of
        None \<Rightarrow> Some None
      | Some command \<Rightarrow>
          (case popen command of
             None \<Rightarrow> Some None
           | Some output \<Rightarrow> do {
               (f, all_data, read_length) \<leftarrow> read_entire_file \<lparr>contents = output, fpos = 0\<rparr> 2048;
               line \<leftarrow> cstr_of all_data;
               r \<leftarrow> split_on_separators (Some line) [CHR 0x0A, CHR 0x0D] 2 (-1) 0;
               Some (Some r) }))"

subsection \<open>Sorting\<close>

definition sort_string_cmp :: "string \<Rightarrow> string \<Rightarrow> int" where
  "sort_string_cmp a b = strcmp a b"

definition sort_string_icmp :: "string \<Rightarrow> string \<Rightarrow> int" where
  "sort_string_icmp a b = strcmp (map tolower a) (map tolower b)"

text \<open>The order \<open>qsort\<close> establishes, as an insertion sort by the sign of the comparison.\<close>

fun insert_by :: "('a \<Rightarrow> 'a \<Rightarrow> int) \<Rightarrow> 'a \<Rightarrow> 'a list \<Rightarrow> 'a list" where
  "insert_by cmp x [] = [x]"
| "insert_by cmp x (y # ys) = (if cmp x y \<le> 0 then x # y # ys else y # insert_by cmp x ys)"

definition qsort :: "('a \<Rightarrow> 'a \<Rightarrow> int) \<Rightarrow> 'a list \<Rightarrow> 'a list" where
  "qsort cmp xs = foldr (insert_by cmp) xs []"

definition do_str_sort :: "string list \<Rightarrow> string list" where
  "do_str_sort string_arr = qsort sort_string_cmp string_arr"

definition do_istr_sort :: "string list \<Rightarrow> string list" where
  "do_istr_sort string_arr = qsort sort_string_icmp string_arr"

subsection \<open>Trimming and case conversion\<close>

lemma whitespace_loop_iff [simp]: "whitespace_loop c ws b \<longleftrightarrow> b \<or> c \<in> set ws"
  by (induction ws arbitrary: b) auto

lemma NUL_not_white [simp]: "NUL \<notin> set whitespace"
  by (simp add: NUL_def whitespace_def)

text \<open>A string without its leading and trailing white space.\<close>

definition trimr :: "string \<Rightarrow> string" where
  "trimr s = rev (dropWhile (\<lambda>c. c \<in> set whitespace) (rev s))"

definition trimmed :: "string \<Rightarrow> string" where
  "trimmed s = trimr (dropWhile (\<lambda>c. c \<in> set whitespace) s)"

lemma trimr_simps [simp]: "trimr [] = []"
  "trimr (s @ [c]) = (if c \<in> set whitespace then trimr s else s @ [c])"
  by (simp_all add: trimr_def)

lemma trimr_suffix: "s = trimr s @ rev (takeWhile (\<lambda>c. c \<in> set whitespace) (rev s))"
proof -
  have "s = rev (rev s)" by simp
  also have "rev s = takeWhile (\<lambda>c. c \<in> set whitespace) (rev s) @ dropWhile (\<lambda>c. c \<in> set whitespace) (rev s)"
    by simp
  finally have "s = trimr s @ rev (takeWhile (\<lambda>c. c \<in> set whitespace) (rev s))"
    by (metis rev_append trimr_def)
  then show ?thesis .
qed

lemma trimr_split: "\<exists>u. s = trimr s @ u"
  using trimr_suffix by blast

lemma trimr_Cons: "c \<notin> set whitespace \<Longrightarrow> trimr (c # s) \<noteq> []"
  by (simp add: trimr_def dropWhile_eq_Nil_conv)

lemma trim_start_ok:
  "NUL \<notin> set s \<Longrightarrow> s = front @ rest \<Longrightarrow>
    trim_start (map Some s @ Some NUL # cs) (length front) True =
      Some (length front + length (takeWhile (\<lambda>c. c \<in> set whitespace) rest))"
proof (induction rest arbitrary: front)
  case Nil
  then show ?case by (subst trim_start.simps) (simp add: buffer_facts)
next
  case (Cons c rest)
  have r: "buf_read (map Some s @ Some NUL # cs) (length front) = Some c"
    using Cons.prems by (simp add: buf_read_def nth_append)
  have c: "c \<noteq> NUL" using Cons.prems by auto
  show ?case
  proof (cases "c \<in> set whitespace")
    case True
    have "trim_start (map Some s @ Some NUL # cs) (length front + 1) True =
        Some (length front + 1 + length (takeWhile (\<lambda>c. c \<in> set whitespace) rest))"
      using Cons.IH[of "front @ [c]"] Cons.prems by simp
    with True show ?thesis by (subst trim_start.simps) (simp add: r c)
  next
    case False
    have stop: "trim_start (map Some s @ Some NUL # cs) (length front) False = Some (length front)"
      by (subst trim_start.simps) (simp add: r)
    show ?thesis by (subst trim_start.simps) (simp add: r c False stop)
  qed
qed

lemma trim_end_ok:
  "s = front @ mid @ rest \<Longrightarrow>
    trim_end (map Some s @ cs) (length front) (int (length front + length mid) - 1) True =
      Some (int (length front + length (trimr mid)) - 1)"
proof (induction mid arbitrary: rest rule: rev_induct)
  case Nil
  then show ?case by (subst trim_end.simps) simp
next
  case (snoc c mid)
  define i where "i = int (length front + length mid)"
  have i: "i \<ge> int (length front)" "nat i = length front + length mid" by (simp_all add: i_def)
  have r: "buf_read (map Some s @ cs) (nat i) = Some c"
    using snoc.prems by (simp add: buf_read_def nth_append i)
  have e: "int (length front + length (mid @ [c])) - 1 = i" by (simp add: i_def)
  show ?case
  proof (cases "c \<in> set whitespace")
    case True
    have "trim_end (map Some s @ cs) (length front) (i - 1) True =
        Some (int (length front + length (trimr mid)) - 1)"
      using snoc.IH[of "c # rest"] snoc.prems by (simp add: i_def)
    with True show ?thesis unfolding e by (subst trim_end.simps) (simp add: r i(1))
  next
    case False
    have stop: "trim_end (map Some s @ cs) (length front) i False = Some i"
      by (subst trim_end.simps) simp
    show ?thesis unfolding e
      by (subst trim_end.simps) (simp add: r i(1) False stop, simp add: i_def)
  qed
qed

lemma shift_down_ok:
  assumes "n + k \<le> length buf" and "\<And>i. i < n \<Longrightarrow> buf ! (i + k) = Some (t ! i)" and "length t = n"
  shows "for_each [0..<n] (\<lambda>i str. do { c \<leftarrow> buf_read str (i + k); buf_write str i (Some c) }) buf =
    Some (map Some t @ drop n buf)"
proof -
  have "\<exists>str. for_each [0..<n] (\<lambda>i str. do { c \<leftarrow> buf_read str (i + k); buf_write str i (Some c) }) buf =
      Some str \<and> str = map Some (take n t) @ drop n buf"
  proof (rule for_each_invar[where I = "\<lambda>i str. str = map Some (take i t) @ drop i buf"])
    fix i str assume i: "i < n" and str: "str = map Some (take i t) @ drop i buf"
    have l: "length (map Some (take i t)) = i" using i assms(3) by simp
    have "buf_read str (i + k) = Some (t ! i)"
      using i assms l by (simp add: str buf_read_def nth_append add.commute)
    moreover have "drop i buf = buf ! i # drop (Suc i) buf" using i assms(1) by (simp add: Cons_nth_drop_Suc)
    ultimately show "\<exists>s'. (do { c \<leftarrow> buf_read str (i + k); buf_write str i (Some c) }) = Some s' \<and>
        s' = map Some (take (Suc i) t) @ drop (Suc i) buf"
      using i l assms(3) by (simp add: str buf_write_def list_update_append take_Suc_conv_app_nth)
  qed simp
  with assms(3) show ?thesis by simp
qed

lemma trim_ok:
  assumes "NUL \<notin> set s"
  shows "\<exists>cs'. trim_flanking_whitespace (map Some s @ Some NUL # cs) =
    Some (map Some (trimmed s) @ Some NUL # cs') \<and> length (trimmed s) + length cs' = length s + length cs"
proof -
  define B where "B = map Some s @ Some NUL # cs"
  define w where "w = takeWhile (\<lambda>c. c \<in> set whitespace) s"
  define d where "d = dropWhile (\<lambda>c. c \<in> set whitespace) s"
  define t where "t = trimr d"
  have s: "s = w @ d" by (simp add: w_def d_def)
  obtain u where d: "d = t @ u" using trimr_split[of d] by (auto simp: t_def)
  have start: "trim_start B 0 True = Some (length w)"
    using trim_start_ok[OF assms, of "[]" s] by (simp add: B_def w_def)
  have cstr: "cstr_of B = Some s" using assms by (simp add: B_def buffer_facts)
  have fin: "trim_end B (length w) (int (length s) - 1) True = Some (int (length w + length t) - 1)"
    using trim_end_ok[of s w d "[]"] by (simp add: s B_def t_def)
  have read: "buf_read B (length w) = Some (if d = [] then NUL else hd d)"
    by (cases d) (auto simp: B_def s buf_read_def nth_append)
  have len: "(if (if d = [] then NUL else hd d) = NUL then 0
      else int (length w + length t) - 1 + 1 - int (length w)) = int (length t)"
    using assms by (cases d) (auto simp: t_def s)
  have copy: "(if length w > 0 then for_each [0..<length t] (\<lambda>index str. do {
        c \<leftarrow> buf_read str (index + length w); buf_write str index (Some c) }) B else Some B) =
      Some (map Some t @ drop (length t) B)"
  proof (cases "w = []")
    case True
    then show ?thesis by (simp add: B_def s d)
  next
    case False
    have "for_each [0..<length t] (\<lambda>index str. do {
        c \<leftarrow> buf_read str (index + length w); buf_write str index (Some c) }) B =
      Some (map Some t @ drop (length t) B)"
      by (rule shift_down_ok) (auto simp: B_def s d nth_append)
    with False show ?thesis by simp
  qed
  have lB: "length t < length B" by (simp add: B_def s d)
  then have "drop (length t) B = B ! length t # drop (Suc (length t)) B" by (simp add: Cons_nth_drop_Suc)
  then have wr: "buf_write (map Some t @ drop (length t) B) (length t) (Some NUL) =
      Some (map Some t @ Some NUL # drop (Suc (length t)) B)" by simp
  have "trim_flanking_whitespace B = Some (map Some t @ Some NUL # drop (Suc (length t)) B)"
    unfolding trim_flanking_whitespace_def Let_def
    by (simp only: start cstr fin read len bind.bind_lunit copy nat_int wr)
  moreover have "t = trimmed s" by (simp add: t_def d_def trimmed_def)
  ultimately show ?thesis using lB by (auto simp: B_def)
qed

lemma case_loop_ok:
  assumes "\<And>c. conv c = NUL \<longleftrightarrow> c = NUL"
  shows "NUL \<notin> set s \<Longrightarrow> i = length front \<Longrightarrow>
    case_loop conv (front @ map Some s @ Some NUL # cs) i = Some (front @ map Some (map conv s) @ Some NUL # cs)"
proof (induction s arbitrary: front i)
  case Nil
  then show ?case by (subst case_loop.simps) simp
next
  case (Cons c s)
  from Cons.IH[of "Suc i" "front @ [Some (conv c)]"] Cons.prems show ?case
    by (subst case_loop.simps) (auto simp: assms)
qed

lemma to_case_ok:
  assumes "NUL \<notin> set s"
  shows "to_lowercase (map Some s @ Some NUL # cs) = Some (map Some (map tolower s) @ Some NUL # cs)"
    and "to_uppercase (map Some s @ Some NUL # cs) = Some (map Some (map toupper s) @ Some NUL # cs)"
  using case_loop_ok[of tolower s 0 "[]" cs] case_loop_ok[of toupper s 0 "[]" cs] assms
  by (simp_all add: to_lowercase_def to_uppercase_def)

subsection \<open>Concatenation\<close>

text \<open>A \<open>NULL\<close> argument is skipped.\<close>

definition arg_val :: "string ptr \<Rightarrow> string" where
  "arg_val p = (case p of None \<Rightarrow> [] | Some s \<Rightarrow> s)"

lemma arg_val_simps [simp]: "arg_val None = []" "arg_val (Some s) = s"
  by (simp_all add: arg_val_def)

lemma strcat_length_ok: "strcat_length strs n = n + int (length (concat (map arg_val strs)))"
  by (induction strs arbitrary: n) (auto split: option.splits)

lemma strcat_copy_ok:
  "i = length front \<Longrightarrow> length cells = length (concat (map arg_val strs)) \<Longrightarrow>
    strcat_copy strs (front @ cells @ rest) i =
      Some (front @ map Some (concat (map arg_val strs)) @ rest, i + length (concat (map arg_val strs)))"
proof (induction strs arbitrary: front cells i)
  case (Cons p strs)
  show ?case
  proof (cases p)
    case None
    with Cons.IH[of i front cells] Cons.prems show ?thesis by simp
  next
    case (Some s)
    define a b where "a = take (length s) cells" and "b = drop (length s) cells"
    have c: "cells = a @ b" "length a = length s" "length b = length (concat (map arg_val strs))"
      using Cons.prems(2) Some by (simp_all add: a_def b_def)
    have "blit (front @ a @ b @ rest) i s = Some (front @ map Some s @ b @ rest)"
      using blit_mid[OF Cons.prems(1) c(2), of "b @ rest"] by simp
    with Cons.IH[of "i + length s" "front @ map Some s" b] Cons.prems(1) c Some show ?thesis
      by (simp add: buffer_facts Let_def)
  qed
qed simp

lemma dynamic_strcat_ok [simp]:
  "dynamic_strcat strs = Some (map Some (concat (map arg_val strs)) @ [Some NUL])"
proof -
  define n where "n = length (concat (map arg_val strs))"
  have r: "replicate (nat (1 + int n)) (None :: char option) = [] @ replicate n None @ [None]"
    by (simp add: nat_add_distrib replicate_append_same)
  have "strcat_copy strs (replicate (nat (1 + strcat_length strs 0)) None) 0 =
      Some (map Some (concat (map arg_val strs)) @ [None], n)"
    unfolding strcat_length_ok n_def[symmetric] add_0 r
    using strcat_copy_ok[of 0 "[]" "replicate n None" strs "[None]"] by (simp add: n_def)
  then show ?thesis
    by (simp add: dynamic_strcat_def n_def buf_write_def list_update_append)
qed

subsection \<open>Splitting\<close>

text \<open>The pieces between separators, and the variant with a bound on their number.\<close>

function tokens :: "(char \<Rightarrow> bool) \<Rightarrow> string \<Rightarrow> string list" where
  "tokens P [] = []"
| "tokens P (c # cs) = (if P c then tokens P cs
     else (c # takeWhile (\<lambda>c. \<not> P c) cs) # tokens P (dropWhile (\<lambda>c. \<not> P c) cs))"
  by pat_completeness auto

termination tokens
  by (relation "measure (length \<circ> snd)") (auto simp: le_imp_less_Suc length_dropWhile_le)

fun pieces :: "(char \<Rightarrow> bool) \<Rightarrow> bool \<Rightarrow> nat \<Rightarrow> string \<Rightarrow> string list" where
  "pieces P include_remainder 0 s = []"
| "pieces P include_remainder (Suc m) s =
     (let d = dropWhile P s in
      if d = [] then []
      else if m = 0 \<and> include_remainder then [d]
      else takeWhile (\<lambda>c. \<not> P c) d # pieces P include_remainder m (dropWhile (\<lambda>c. \<not> P c) d))"

lemma tokens_dropWhile: "tokens P (dropWhile P s) = tokens P s"
  by (induction s) auto

lemma tokens_skip: "tokens P s = (let d = dropWhile P s in if d = [] then []
    else takeWhile (\<lambda>c. \<not> P c) d # tokens P (dropWhile (\<lambda>c. \<not> P c) d))"
proof (cases "dropWhile P s")
  case Nil
  then show ?thesis by (metis tokens.simps(1) tokens_dropWhile)
next
  case (Cons c cs)
  then have "\<not> P c" by (metis hd_dropWhile list.sel(1) list.distinct(1))
  with Cons tokens_dropWhile[of P s] show ?thesis by simp
qed

lemma pieces_take: "pieces P False m s = take m (tokens P s)"
proof (induction m arbitrary: s)
  case (Suc m)
  then show ?case by (subst tokens_skip) (simp add: Let_def)
qed simp

lemma pieces_dropWhile: "pieces P r m (dropWhile P s) = pieces P r m s"
  by (cases m) simp_all

lemma pieces_all:
  "length (filter P s) < m \<Longrightarrow> pieces P r m s = tokens P s"
proof (induction m arbitrary: s)
  case (Suc m)
  define d where "d = dropWhile P s"
  define e where "e = dropWhile (\<lambda>c. \<not> P c) d"
  have td: "d = takeWhile (\<lambda>c. \<not> P c) d @ e" by (simp add: e_def)
  have ns: "filter P (takeWhile (\<lambda>c. \<not> P c) d) = []" by (auto simp: filter_empty_conv dest: set_takeWhileD)
  have "length (filter P s) = length (filter P (takeWhile P s)) + length (filter P d)"
    unfolding d_def by (metis filter_append length_append takeWhile_dropWhile_id)
  then have fd: "length (filter P d) < Suc m" using Suc.prems by simp
  moreover have fe: "filter P d = filter P e" using ns by (subst td) (simp del: takeWhile_dropWhile_id)
  ultimately have le: "length (filter P e) < Suc m" by simp
  show ?case
  proof (cases "d = []")
    case True
    then show ?thesis by (subst tokens_skip) (simp add: Let_def d_def[symmetric])
  next
    case ne: False
    have rest: "pieces P r m e = tokens P e \<and> (m = 0 \<longrightarrow> e = [])"
    proof (cases e)
      case Nil
      then show ?thesis by (cases m) simp_all
    next
      case (Cons c cs)
      then have "P c" unfolding e_def by (metis hd_dropWhile list.sel(1) list.distinct(1))
      with Cons le have "length (filter P cs) < m" by simp
      with Suc.IH[of cs] \<open>P c\<close> Cons pieces_dropWhile[of P r m e] pieces_dropWhile[of P r m cs]
      show ?thesis by auto
    qed
    show ?thesis
    proof (cases "m = 0 \<and> r")
      case True
      with rest have "e = []" by simp
      with td have tw: "takeWhile (\<lambda>c. \<not> P c) d = d" by (metis append_Nil2)
      show ?thesis
        by (subst tokens_skip) (simp add: Let_def d_def[symmetric] ne True tw e_def[symmetric] \<open>e = []\<close>)
    next
      case False
      with rest ne show ?thesis
        by (subst tokens_skip) (auto simp: Let_def d_def[symmetric] e_def[symmetric])
    qed
  qed
qed simp

lemma sep_match_ok [simp]: "sep_match seps (length seps) c = Some (c \<in> set seps)"
proof -
  have "n \<le> length seps \<Longrightarrow> sep_match seps n c = Some (c \<in> set (take n seps))" for n
  proof (induction n)
    case (Suc n)
    then show ?case
      by (auto simp: sep_match_def for_each_append arr_at_def take_Suc_conv_app_nth)
  qed (simp add: sep_match_def)
  from this[of "length seps"] show ?thesis by simp
qed

lemma sep_or_end_ok:
  assumes "seps \<noteq> []" and "char_at s k = Some c"
  shows "sep_or_end seps (length seps) s k = Some (c \<in> set seps \<or> c = NUL)"
proof -
  have "n \<le> length seps \<Longrightarrow> sep_or_end seps n s k = Some (c \<in> set (take n seps) \<or> (n > 0 \<and> c = NUL))" for n
  proof (induction n)
    case (Suc n)
    then show ?case using assms(2)
      by (auto simp: sep_or_end_def for_each_append arr_at_def take_Suc_conv_app_nth)
  qed (simp add: sep_or_end_def)
  from this[of "length seps"] assms(1) show ?thesis by simp
qed

lemma skip_separators_ok:
  "NUL \<notin> set s \<Longrightarrow> skip_separators seps (length seps) s = Some (dropWhile (\<lambda>c. c \<in> set seps) s)"
proof (induction s)
  case Nil
  then show ?case by (subst skip_separators.simps) simp
next
  case (Cons c s)
  then show ?case by (subst skip_separators.simps) auto
qed

lemma find_separator_ok:
  assumes "seps \<noteq> []"
  shows "NUL \<notin> set s \<Longrightarrow> s = front @ mid \<Longrightarrow> find_separator seps (length seps) s (length front) =
    Some (length front + length (takeWhile (\<lambda>c. c \<notin> set seps) mid))"
proof (induction mid arbitrary: front)
  case Nil
  then have "char_at s (length front) = Some NUL" by simp
  with sep_or_end_ok[OF assms this] show ?case by (subst find_separator.simps) simp
next
  case (Cons c mid)
  then have c: "char_at s (length front) = Some c" "c \<noteq> NUL" by auto
  from Cons.IH[of "front @ [c]"] Cons.prems
  have "c \<notin> set seps \<Longrightarrow> find_separator seps (length seps) s (Suc (length front)) =
      Some (Suc (length front) + length (takeWhile (\<lambda>c. c \<notin> set seps) mid))" by simp
  with c sep_or_end_ok[OF assms c(1)] show ?case by (subst find_separator.simps) simp
qed

lemma copy_piece_ok:
  assumes "NUL \<notin> set s" and "k \<le> length s"
  shows "copy_piece s k = Some (take k s)"
proof -
  define t where "t = take k s"
  have t: "length t = k" "NUL \<notin> set t" using assms by (auto simp: t_def dest: in_set_takeD)
  have r: "replicate (k + 1) None = replicate k None @ [None :: char option]"
    by (simp add: replicate_append_same)
  have b: "blit (replicate k None @ [None]) 0 t = Some (map Some t @ [None])"
    using blit_mid[of 0 "[]" "replicate k None" t "[None]"] t(1) by simp
  have w: "buf_write (map Some t @ [None]) k (Some NUL) = Some (map Some t @ [Some NUL])"
    by (rule buf_write_at) (simp add: t(1))
  show ?thesis
    unfolding copy_piece_def memcpy_str_take[OF assms(2)] t_def[symmetric] r b bind.bind_lunit w
    using cstr_of_app[OF t(2), of "[]"] by simp
qed

lemma buf_write_two:
  "buf_write (xs @ a # b # ys) (length xs) x = Some (xs @ x # b # ys) \<and>
    buf_write (xs @ x # b # ys) (Suc (length xs)) y = Some (xs @ x # y # ys)"
  using buf_write_at[of "Suc (length xs)" "xs @ [x]" b ys y] by simp

text \<open>Written cells of strings.\<close>

abbreviation cells_of :: "string list \<Rightarrow> str_array" where
  "cells_of ps \<equiv> map (\<lambda>p. Some (Some p)) ps"

lemma split_loop_ok:
  assumes "seps \<noteq> []"
  shows "NUL \<notin> set s \<Longrightarrow> dropWhile (\<lambda>c. c \<in> set seps) s = s \<Longrightarrow> length cells = m \<Longrightarrow>
    \<exists>cells'. split_loop seps (length seps) (int (length ps + m)) r s
        (cells_of ps @ Some None # cells) (length ps) =
      (let out = pieces (\<lambda>c. c \<in> set seps) (r > 0) m s in
        Some (cells_of (ps @ out) @ Some None # cells', length ps + length out))"
proof (induction m arbitrary: s ps cells)
  case 0
  then show ?case by (cases s; subst split_loop.simps) auto
next
  case (Suc m)
  define P where "P = (\<lambda>c. c \<in> set seps)"
  show ?case
  proof (cases s)
    case Nil
    then show ?thesis by (subst split_loop.simps) (auto simp: Let_def)
  next
    case (Cons c cs)
    have "\<not> P (hd s)" using Suc.prems(2) Cons hd_dropWhile[of P s] by (simp add: P_def)
    with Cons Suc.prems(1) have c: "c \<noteq> NUL" "\<not> P c" by auto
    define k where "k = length (takeWhile (\<lambda>c. c \<notin> set seps) s)"
    define w where "w = takeWhile (\<lambda>c. \<not> P c) s"
    define e where "e = dropWhile (\<lambda>c. \<not> P c) s"
    have k: "k > 0" "take k s = w" "drop k s = e" "k \<le> length s" using Cons c
      by (simp_all add: k_def w_def e_def P_def takeWhile_eq_take[symmetric] dropWhile_eq_drop[symmetric]
          length_takeWhile_le)
    have find: "find_separator seps (length seps) s 0 = Some k"
      using find_separator_ok[OF assms Suc.prems(1), of "[]" s] by (simp add: k_def)
    define last where "last \<longleftrightarrow> m = 0 \<and> r > 0"
    define piece where "piece = (if last then s else w)"
    have pc: "(if int (length ps) + 1 < int (length ps + Suc m) \<or> r \<le> 0 then copy_piece s k else Some s) =
        Some piece"
      using copy_piece_ok[OF Suc.prems(1) k(4)] k(2) by (auto simp: piece_def last_def)
    obtain x cells1 where cells: "cells = x # cells1" "length cells1 = m"
      using Suc.prems(3) by (cases cells) auto
    have ne: "NUL \<notin> set e" using Suc.prems(1) by (auto simp: e_def dest: set_dropWhileD)
    define e1 where "e1 = dropWhile P e"
    have skip: "skip_separators seps (length seps) (drop k s) = Some e1"
      using skip_separators_ok[OF ne] k(3) by (simp add: e1_def P_def)
    have e1: "NUL \<notin> set e1" "dropWhile P e1 = e1"
      using ne by (auto simp: e1_def dest: set_dropWhileD)
    from Suc.IH[OF e1(1) e1(2)[unfolded P_def] cells(2), of "ps @ [piece]"] obtain cells' where
      loop: "split_loop seps (length seps) (int (length ps + Suc m)) r e1
          (cells_of ps @ Some (Some piece) # Some None # cells1) (length ps + 1) =
        (let out = pieces P (r > 0) m e1 in
          Some (cells_of (ps @ piece # out) @ Some None # cells', length ps + 1 + length out))"
      by (auto simp: Let_def P_def)
    have out: "pieces P (r > 0) (Suc m) s = piece # pieces P (r > 0) m e1"
      using Suc.prems(2) Cons pieces_dropWhile[of P "r > 0" m e]
      by (auto simp: Let_def P_def[symmetric] piece_def last_def w_def e_def e1_def)
    have step: "split_loop seps (length seps) (int (length ps + Suc m)) r s
        (cells_of ps @ Some None # cells) (length ps) =
      split_loop seps (length seps) (int (length ps + Suc m)) r e1
        (cells_of ps @ Some (Some piece) # Some None # cells1) (length ps + 1)"
    proof -
      have ch: "char_at s 0 = Some c" by (simp add: Cons)
      have cond: "(c \<noteq> NUL \<and> int (length ps) < int (length ps + Suc m)) = True" using c(1) by simp
      have kt: "(0 < k) = True" using k(1) by simp
      have w: "buf_write (cells_of ps @ Some None # cells) (length ps) (Some (Some piece)) =
          Some (cells_of ps @ Some (Some piece) # x # cells1)"
        "buf_write (cells_of ps @ Some (Some piece) # x # cells1) (length ps + 1) (Some None) =
          Some (cells_of ps @ Some (Some piece) # Some None # cells1)"
        using buf_write_two[of "cells_of ps" "Some None" x cells1 "Some (Some piece)" "Some None"] cells(1)
        by simp_all
      show ?thesis
        by (subst split_loop.simps)
          (simp only: ch cond find kt pc w skip bind.bind_lunit if_True prod.case)
    qed
    show ?thesis using loop step out by (auto simp: Let_def P_def)
  qed
qed

lemma count_separators_ok:
  "count_separators seps (length seps) s n = Some (n + int (length (filter (\<lambda>c. c \<in> set seps) s)))"
  by (induction s arbitrary: n) auto

text \<open>What \<open>split_on_separators\<close> returns for a bound \<open>max_pieces\<close>.\<close>

definition split_pieces :: "string \<Rightarrow> int \<Rightarrow> int \<Rightarrow> string \<Rightarrow> string list" where
  "split_pieces seps max_pieces include_remainder line =
     (if max_pieces < 0 then tokens (\<lambda>c. c \<in> set seps) line
      else pieces (\<lambda>c. c \<in> set seps) (include_remainder > 0) (nat max_pieces) line)"

lemma split_ok:
  assumes "seps \<noteq> []" and "NUL \<notin> set line"
  shows "\<exists>cells. split_on_separators (Some line) seps (length seps) max_pieces r =
    Some (cells_of (split_pieces seps max_pieces r line) @ Some None # cells,
      length (split_pieces seps max_pieces r line))"
proof -
  define P where "P = (\<lambda>c. c \<in> set seps)"
  define m where "m = (if max_pieces < 0 then Suc (length (filter P line)) else nat max_pieces)"
  have m: "(if max_pieces < 0 then map_option (\<lambda>n. n + 1) (count_separators seps (length seps) line 0)
      else Some max_pieces) = Some (int m)"
    by (simp add: m_def count_separators_ok P_def)
  have w: "buf_write (replicate (nat (1 + int m)) None) 0 (Some None) = Some (Some None # replicate m None)"
    by (simp add: buf_write_def nat_add_distrib)
  define s where "s = dropWhile P line"
  have s: "NUL \<notin> set s" "dropWhile P s = s" using assms(2) by (auto simp: s_def dest: set_dropWhileD)
  have sk: "skip_separators seps (length seps) line = Some s"
    using skip_separators_ok[OF assms(2)] by (simp add: s_def P_def)
  have out: "pieces P (r > 0) m s = split_pieces seps max_pieces r line"
  proof (cases "max_pieces < 0")
    case True
    then have "length (filter P line) < m" by (simp add: m_def)
    then have "pieces P (r > 0) m s = tokens P line"
      unfolding s_def pieces_dropWhile by (rule pieces_all)
    with True show ?thesis by (simp add: split_pieces_def P_def)
  next
    case False
    then show ?thesis by (simp add: s_def m_def split_pieces_def P_def pieces_dropWhile)
  qed
  from split_loop_ok[OF assms(1) s(1) s(2)[unfolded P_def], of "replicate m None" m "[]" r]
  show ?thesis unfolding P_def[symmetric] out
    by (auto simp: split_on_separators_def m w sk Let_def)
qed

subsection \<open>Joining\<close>

definition joined_with :: "string \<Rightarrow> string list \<Rightarrow> string ptr" where
  "joined_with sep ps = (if ps = [] then None else Some (concat (map (\<lambda>p. p @ sep) (butlast ps)) @ last ps))"

lemma count_parts_ok:
  assumes "parts = cells_of ps @ Some None # cells"
  shows "k \<le> length ps \<Longrightarrow> max_parts < 0 \<or> int k \<le> max_parts \<Longrightarrow>
    count_parts parts max_parts k = Some (if max_parts < 0 then length ps else min (length ps) (nat max_parts))"
proof (induction "length ps - k" arbitrary: k)
  case 0
  then have "buf_read parts k = Some None" by (simp add: assms buf_read_def nth_append)
  with 0 show ?case by (subst count_parts.simps) auto
next
  case (Suc d)
  then have "buf_read parts k = Some (Some (ps ! k))" by (simp add: assms buf_read_def nth_append)
  with Suc.hyps(1)[of "k + 1"] Suc.hyps(2) Suc.prems show ?case
    by (subst count_parts.simps) auto
qed

lemma join_loop_ok:
  assumes "parts = cells_of ps @ cells" and "\<forall>p \<in> set ps. NUL \<notin> set p" and "NUL \<notin> set (arg_val sep)"
  shows "k \<le> length ps \<Longrightarrow> NUL \<notin> set joined \<Longrightarrow>
    join_loop sep parts fr k joined freed =
      Some (concat (map (\<lambda>p. p @ arg_val sep) (take k ps)) @ joined,
        freed @ (if fr then map Some (rev (take k ps)) else []))"
proof (induction k arbitrary: joined freed)
  case (Suc k)
  then have k: "k < length ps" by simp
  then have r: "buf_read parts k = Some (Some (ps ! k))" by (simp add: assms(1) buf_read_def nth_append)
  have n: "NUL \<notin> set (ps ! k @ arg_val sep @ joined)" using k assms(2,3) Suc.prems(2) by auto
  from Suc.IH[OF _ n, of "if fr then freed @ [Some (ps ! k)] else freed"] Suc.prems(1)
  show ?case
    using cstr_of_app[OF n, of "[]"] k by (simp add: r take_Suc_conv_app_nth)
qed simp

lemma join_ok:
  assumes "parts = cells_of ps @ Some None # cells" and "\<forall>p \<in> set ps. NUL \<notin> set p"
    and "NUL \<notin> set (arg_val sep)"
    and "qs = (if max_parts < 0 then ps else take (nat max_parts) ps)"
  shows "join_strs sep parts max_parts fr =
    Some (joined_with (arg_val sep) qs, if fr then map Some (rev qs) else [])"
proof -
  have c: "count_parts parts max_parts 0 = Some (length qs)"
    using count_parts_ok[OF assms(1), of 0] by (auto simp: assms(4))
  show ?thesis
  proof (cases qs rule: rev_cases)
    case Nil
    with c show ?thesis by (simp add: join_strs_def joined_with_def)
  next
    case (snoc rs q)
    have "\<exists>us. ps = qs @ us"
      unfolding assms(4) by (cases "max_parts < 0") (auto intro: exI[of _ "drop (nat max_parts) ps"])
    with snoc obtain us where ps: "ps = rs @ q # us" by auto
    have r: "buf_read parts (length rs) = Some (Some q)" by (simp add: assms(1) ps buf_read_def nth_append)
    have "join_loop sep parts fr (length rs) q (if fr then [Some q] else []) =
        Some (concat (map (\<lambda>p. p @ arg_val sep) rs) @ q,
          (if fr then [Some q] else []) @ (if fr then map Some (rev rs) else []))"
      using join_loop_ok[OF assms(1-3), of "length rs" q] assms(2) by (simp add: ps)
    with c r snoc show ?thesis by (simp add: join_strs_def joined_with_def)
  qed
qed

lemma tokens_word:
  "w \<noteq> [] \<Longrightarrow> \<forall>c \<in> set w. \<not> P c \<Longrightarrow> (s = [] \<or> P (hd s)) \<Longrightarrow> tokens P (w @ s) = w # tokens P s"
proof -
  assume w: "w \<noteq> []" "\<forall>c \<in> set w. \<not> P c" and s: "s = [] \<or> P (hd s)"
  have tw: "takeWhile (\<lambda>c. \<not> P c) (w @ s) = w" "dropWhile (\<lambda>c. \<not> P c) (w @ s) = s"
    using w(2) s by (cases s; auto simp: takeWhile_append dropWhile_append)+
  have dw: "dropWhile P (w @ s) = w @ s" using w by (cases w) auto
  show "tokens P (w @ s) = w # tokens P s"
    using w(1) by (subst tokens_skip) (simp add: Let_def dw tw)
qed

lemma tokens_joined:
  assumes "sep \<noteq> []" and "\<forall>c \<in> set sep. P c"
  shows "\<forall>w \<in> set ws. w \<noteq> [] \<and> (\<forall>c \<in> set w. \<not> P c) \<Longrightarrow> w \<noteq> [] \<Longrightarrow> \<forall>c \<in> set w. \<not> P c \<Longrightarrow>
    tokens P (concat (map (\<lambda>p. p @ sep) ws) @ w) = ws @ [w]"
proof (induction ws)
  case Nil
  then show ?case using tokens_word[of w P "[]"] by simp
next
  case (Cons v ws)
  have skip: "tokens P (sep @ s) = tokens P s" for s
    using assms(2) by (induction sep) auto
  have "hd (sep @ concat (map (\<lambda>p. p @ sep) ws) @ w) \<in> set sep" using assms(1) by simp
  with Cons tokens_word[of v P "sep @ concat (map (\<lambda>p. p @ sep) ws) @ w"] assms skip show ?case by simp
qed

subsection \<open>Replacing\<close>

text \<open>Every occurrence replaced, from left to right and without overlaps, and how many there are.\<close>

function replace_all :: "string \<Rightarrow> string \<Rightarrow> string \<Rightarrow> string" where
  "replace_all old new s =
     (if old \<noteq> [] \<and> prefix old s then new @ replace_all old new (drop (length old) s)
      else (case s of [] \<Rightarrow> [] | c # cs \<Rightarrow> c # replace_all old new cs))"
  by pat_completeness auto

termination replace_all
  by (relation "measure (length \<circ> snd \<circ> snd)") (auto simp: prefix_def)

function occurrences :: "string \<Rightarrow> string \<Rightarrow> nat" where
  "occurrences old s =
     (if old \<noteq> [] \<and> prefix old s then Suc (occurrences old (drop (length old) s))
      else (case s of [] \<Rightarrow> 0 | c # cs \<Rightarrow> occurrences old cs))"
  by pat_completeness auto

termination occurrences
  by (relation "measure (length \<circ> snd)") (auto simp: prefix_def)

declare replace_all.simps [simp del] occurrences.simps [simp del]

lemma replace_all_length:
  "int (length (replace_all old new s)) =
    int (length s) + int (occurrences old s) * (int (length new) - int (length old))"
proof (induction old new s rule: replace_all.induct)
  case (1 old new s)
  show ?case
  proof (cases "old \<noteq> [] \<and> prefix old s")
    case True
    with 1(1) prefix_length_le[of old s] show ?thesis
      by (subst replace_all.simps, subst occurrences.simps) (simp add: of_nat_diff algebra_simps)
  next
    case False
    with 1(2) show ?thesis
      by (subst replace_all.simps, subst occurrences.simps) (auto split: list.split)
  qed
qed

lemma replace_count_ok:
  assumes "old \<noteq> []"
  shows "NUL \<notin> set s \<Longrightarrow> i \<le> length s \<Longrightarrow>
    replace_count s old (int i) n = Some (int (length s), n + int (occurrences old (drop i s)))"
proof (induction "length s - i" arbitrary: i n rule: less_induct)
  case less
  show ?case
  proof (cases "i = length s")
    case True
    have "occurrences old [] = 0" using assms by (subst occurrences.simps) auto
    with True show ?thesis by (subst replace_count.simps) simp
  next
    case False
    with less.prems have i: "i < length s" by simp
    then have c: "char_at s i = Some (s ! i)" "s ! i \<noteq> NUL"
      using less.prems(1) nth_mem[of i s] by (simp add: char_at_def, metis)
    show ?thesis
    proof (cases "prefix old (drop i s)")
      case True
      then have l: "i + length old \<le> length s" using prefix_length_le[of old "drop i s"] i by simp
      have "replace_count s old (int (i + length old)) (n + 1) =
          Some (int (length s), n + 1 + int (occurrences old (drop (i + length old) s)))"
        using assms l i less.prems by (intro less.hyps) (auto simp: diff_less_mono2)
      with c True assms show ?thesis
        by (subst replace_count.simps, subst occurrences.simps) (simp add: add.commute)
    next
      case np: False
      have "replace_count s old (int (i + 1)) n =
          Some (int (length s), n + int (occurrences old (drop (i + 1) s)))"
        using i less.prems by (intro less.hyps) auto
      moreover have "occurrences old (drop i s) = occurrences old (drop (i + 1) s)"
        using np i by (subst occurrences.simps) (simp add: Cons_nth_drop_Suc[symmetric])
      ultimately show ?thesis using c np by (subst replace_count.simps) (simp add: add.commute)
    qed
  qed
qed

lemma replace_copy_ok:
  assumes "old \<noteq> []"
  shows "NUL \<notin> set s \<Longrightarrow> i = length front \<Longrightarrow> length cells = Suc (length (replace_all old new s)) \<Longrightarrow>
    replace_copy s old new (front @ cells) i = Some (front @ map Some (replace_all old new s) @ [Some NUL])"
proof (induction "length s" arbitrary: s front cells i rule: less_induct)
  case less
  show ?case
  proof (cases s)
    case Nil
    have r: "replace_all old new [] = []" using assms by (subst replace_all.simps) auto
    then obtain x where "cells = [x]" using less.prems(3) Nil by (cases cells) auto
    with Nil r less.prems(2) show ?thesis by (subst replace_copy.simps) simp
  next
    case (Cons c cs)
    with less.prems have c: "c \<noteq> NUL" by auto
    show ?thesis
    proof (cases "prefix old s")
      case True
      define t where "t = drop (length old) s"
      have R: "replace_all old new s = new @ replace_all old new t"
        using True assms by (subst replace_all.simps) (simp add: t_def)
      have nt: "NUL \<notin> set t" "length t < length s"
        using less.prems(1) assms Cons by (auto simp: t_def dest: in_set_dropD)
      define a b where "a = take (Suc (length new)) cells" and "b = drop (Suc (length new)) cells"
      have ab: "cells = a @ b" "length a = length (new @ [NUL])" "length b = length (replace_all old new t)"
        using less.prems(3) R by (auto simp: a_def b_def)
      have w: "blit (front @ cells) i (new @ [NUL]) = Some ((front @ map Some new) @ Some NUL # b)"
        using blit_mid[OF less.prems(2) ab(2), of b] ab(1) by simp
      have "replace_copy t old new ((front @ map Some new) @ Some NUL # b) (i + length new) =
          Some ((front @ map Some new) @ map Some (replace_all old new t) @ [Some NUL])"
        using ab(3) less.prems(2) by (intro less.hyps nt) simp_all
      with True w c Cons R show ?thesis
        by (subst replace_copy.simps) (simp add: t_def del: blit.simps)
    next
      case False
      have R: "replace_all old new s = c # replace_all old new cs"
        using False Cons by (subst replace_all.simps) simp
      then obtain x xs where cells: "cells = x # xs" "length xs = Suc (length (replace_all old new cs))"
        using less.prems(3) by (cases cells) auto
      have "replace_copy cs old new ((front @ [Some c]) @ xs) (i + 1) =
          Some ((front @ [Some c]) @ map Some (replace_all old new cs) @ [Some NUL])"
        using less.prems Cons cells(2) by (intro less.hyps) auto
      with False c Cons R cells(1) less.prems(2) show ?thesis
        by (subst replace_copy.simps) simp
    qed
  qed
qed

lemma dynamic_replace_ok:
  assumes "old \<noteq> []" and "NUL \<notin> set s"
  shows "dynamic_replace s old new = Some (map Some (replace_all old new s) @ [Some NUL])"
proof -
  have n: "nat (int (length s) + 1 + int (occurrences old s) * (int (length new) - int (length old))) =
      Suc (length (replace_all old new s))"
    using replace_all_length[of old new s] by linarith
  show ?thesis
    using replace_count_ok[OF assms, of 0 0] replace_copy_ok[OF assms, of 0 "[]" _ new]
    by (simp add: dynamic_replace_def n)
qed

text \<open>With an empty pattern the counting loop stays where it is: it never returns.\<close>

lemma replace_count_diverges:
  assumes "replace_count s old i n = Some r" and "old = []" and "0 \<le> i" and "i < int (length s)" and "NUL \<notin> set s"
  shows False
proof -
  have "\<not> (old = [] \<and> 0 \<le> i \<and> i < int (length s) \<and> NUL \<notin> set s)" using assms(1)
  proof (rule replace_count.raw_induct[rotated, where P = "\<lambda>s old i n r.
      \<not> (old = [] \<and> 0 \<le> i \<and> i < int (length s) \<and> NUL \<notin> set s)"])
    fix f :: "string \<Rightarrow> string \<Rightarrow> int \<Rightarrow> int \<Rightarrow> (int \<times> int) option" and s old i n r
    assume ih: "\<And>s old i n r. f s old i n = Some r \<Longrightarrow> \<not> (old = [] \<and> 0 \<le> i \<and> i < int (length s) \<and> NUL \<notin> set s)"
      and body: "char_at s (nat i) \<bind> (\<lambda>c. if c \<noteq> NUL
        then if strstr (drop (nat i) s) old = Some 0 then f s old (i + (int (length old) - 1) + 1) (n + 1)
          else f s old (i + 1) n else Some (i, n)) = Some r"
    show "\<not> (old = [] \<and> 0 \<le> i \<and> i < int (length s) \<and> NUL \<notin> set s)"
    proof
      assume a: "old = [] \<and> 0 \<le> i \<and> i < int (length s) \<and> NUL \<notin> set s"
      then have "char_at s (nat i) = Some (s ! nat i)" "s ! nat i \<noteq> NUL"
        by (simp_all add: char_at_def nat_less_iff) (metis nat_less_iff nth_mem)
      with body a have "f s old i (n + 1) = Some r" by simp
      with ih a show False by blast
    qed
  qed
  with assms show False by blast
qed

lemma dynamic_replace_diverges:
  assumes "s \<noteq> []" and "NUL \<notin> set s"
  shows "dynamic_replace s [] new = None"
proof (cases "replace_count s [] 0 0")
  case None
  then show ?thesis by (simp add: dynamic_replace_def)
next
  case (Some r)
  with replace_count_diverges[OF Some] assms show ?thesis by simp
qed

subsection \<open>Regular expressions\<close>

text \<open>
  What the body of an expression is made of: characters for themselves, the escapes the source
  interprets, and other escapes, which it leaves to the regular expression library.
\<close>

datatype regex_item = Lit char | Esc char | Keep char

fun item_ok :: "regex_item \<Rightarrow> bool" where
  "item_ok (Lit c) = (c \<noteq> CHR ''/'' \<and> c \<noteq> BACKSLASH \<and> c \<noteq> NUL)"
| "item_ok (Esc c) = (c \<in> set ''nrt/'')"
| "item_ok (Keep c) = (c \<notin> set ''nrt/'' \<and> c \<noteq> BACKSLASH \<and> c \<noteq> NUL)"

fun item_src :: "regex_item \<Rightarrow> string" where
  "item_src (Lit c) = [c]"
| "item_src (Esc c) = [BACKSLASH, c]"
| "item_src (Keep c) = [BACKSLASH, c]"

fun item_out :: "regex_item \<Rightarrow> string" where
  "item_out (Lit c) = [c]"
| "item_out (Esc c) = [escape_char c]"
| "item_out (Keep c) = [BACKSLASH, c]"

lemma backslash_neq [simp]: "BACKSLASH \<noteq> NUL" "NUL \<noteq> BACKSLASH" "BACKSLASH \<noteq> CHR ''/''"
  "BACKSLASH \<noteq> CHR ''n''" "BACKSLASH \<noteq> CHR ''r''" "BACKSLASH \<noteq> CHR ''t''" "CHR ''/'' \<noteq> NUL"
  "CHR ''n'' \<noteq> NUL" "CHR ''r'' \<noteq> NUL" "CHR ''t'' \<noteq> NUL" "CHR 0x0A \<noteq> NUL" "CHR 0x0D \<noteq> NUL" "CHR 0x09 \<noteq> NUL"
  "NUL \<noteq> CHR ''/''" "NUL \<noteq> CHR ''n''" "NUL \<noteq> CHR ''r''" "NUL \<noteq> CHR ''t''"
  "NUL \<noteq> CHR 0x0A" "NUL \<noteq> CHR 0x0D" "NUL \<noteq> CHR 0x09" "CHR ''n'' \<noteq> BACKSLASH"
  "CHR ''r'' \<noteq> BACKSLASH" "CHR ''t'' \<noteq> BACKSLASH" "CHR ''/'' \<noteq> BACKSLASH"
  by (simp_all add: BACKSLASH_def NUL_def)

lemma int_write_at: "i = int (length xs) \<Longrightarrow> int_write (xs @ y # ys) i x = Some (xs @ x # ys)"
  by (simp add: int_write_def)

lemma regex_loop_items:
  assumes "\<forall>x \<in> set items. item_ok x"
  shows "internal = map Some (front @ concat (map item_src items)) @ Some NUL # cs \<Longrightarrow>
    previous \<noteq> BACKSLASH \<Longrightarrow> (front = [] \<or> last front \<noteq> BACKSLASH) \<Longrightarrow>
    length cells > length (concat (map item_src items)) \<Longrightarrow>
    \<exists>p cells'. regex_loop internal (map Some out @ cells) (int (length out)) (length front) previous =
        Some (True, map Some (out @ concat (map item_out items)) @ cells',
          int (length (out @ concat (map item_out items))), p) \<and> p \<noteq> BACKSLASH \<and> cells' \<noteq> []"
  using assms
proof (induction items arbitrary: front out cells previous)
  case Nil
  then show ?case
    by (subst regex_loop.simps) (auto simp: buf_read_end)
next
  case (Cons x items)
  define I where "I = concat (map item_src items)"
  show ?case
  proof (cases x)
    case (Lit c)
    obtain y ys where cells: "cells = y # ys" using Cons.prems(4) by (cases cells) auto
    have r: "buf_read internal (length front) = Some c"
      by (simp add: Cons.prems(1) Lit buf_read_def nth_append)
    have ok: "c \<noteq> CHR ''/''" "c \<noteq> BACKSLASH" "c \<noteq> NUL" using Cons.prems(5) Lit by auto
    have "regex_loop internal (map Some out @ cells) (int (length out)) (length front) previous =
        regex_loop internal (map Some (out @ [c]) @ ys) (int (length (out @ [c]))) (length (front @ [c])) c"
      using ok Cons.prems(2) by (subst regex_loop.simps) (simp add: r cells int_write_at add.commute)
    with Cons.IH[of "front @ [c]" c ys "out @ [c]"] Cons.prems Lit ok cells show ?thesis by simp
  next
    case (Esc c)
    obtain y z ys where cells: "cells = y # z # ys"
      using Cons.prems(4) Esc by (cases cells; cases "tl cells") auto
    have r: "buf_read internal (length front) = Some BACKSLASH" "buf_read internal (length front + 1) = Some c"
      by (simp_all add: Cons.prems(1) Esc buf_read_def nth_append)
    have ok: "c \<in> set ''nrt/''" "c \<noteq> NUL" "escape_char c \<noteq> NUL" "c \<noteq> BACKSLASH"
      using Cons.prems(5) Esc by (auto simp: escape_char_def)
    have p2: "\<exists>q. (if length front + 1 \<ge> 2 then buf_read internal (length front + 1 - 2) else Some NUL) = Some q \<and>
        q \<noteq> BACKSLASH"
    proof (cases front rule: rev_cases)
      case (snoc fs q)
      with Cons.prems(1,3) show ?thesis by (simp add: buf_read_def nth_append)
    qed simp
    then obtain q where q: "q \<noteq> BACKSLASH"
      "(if length front + 1 \<ge> 2 then buf_read internal (length front + 1 - 2) else Some NUL) = Some q" by blast
    have "regex_loop internal (map Some out @ cells) (int (length out)) (length front) previous =
        regex_loop internal (map Some out @ Some BACKSLASH # z # ys) (int (length out) + 1)
          (length front + 1) BACKSLASH"
      by (subst regex_loop.simps) (simp add: r(1) cells int_write_at)
    also have "\<dots> = regex_loop internal (map Some (out @ [escape_char c]) @ z # ys)
        (int (length (out @ [escape_char c]))) (length (front @ [BACKSLASH, c])) NUL"
      using ok(1) by (subst regex_loop.simps)
        (simp only: r(2) q bind.bind_lunit Let_def, simp add: ok(2) q(1) int_write_at add.commute)
    finally show ?thesis
      using Cons.IH[of "front @ [BACKSLASH, c]" NUL "z # ys" "out @ [escape_char c]"] Cons.prems Esc ok(4) cells
      by simp
  next
    case (Keep c)
    obtain y z ys where cells: "cells = y # z # ys"
      using Cons.prems(4) Keep by (cases cells; cases "tl cells") auto
    have r: "buf_read internal (length front) = Some BACKSLASH" "buf_read internal (length front + 1) = Some c"
      by (simp_all add: Cons.prems(1) Keep buf_read_def nth_append)
    have ok: "c \<notin> set ''nrt/''" "c \<noteq> NUL" "c \<noteq> BACKSLASH" using Cons.prems(5) Keep by auto
    have w: "int_write (map Some out @ Some BACKSLASH # z # ys) (1 + int (length out)) (Some c) =
        Some (map Some out @ Some BACKSLASH # Some c # ys)"
      using int_write_at[of "1 + int (length out)" "map Some out @ [Some BACKSLASH]" z ys "Some c"] by simp
    have "regex_loop internal (map Some out @ cells) (int (length out)) (length front) previous =
        regex_loop internal (map Some out @ Some BACKSLASH # z # ys) (int (length out) + 1)
          (length front + 1) BACKSLASH"
      by (subst regex_loop.simps) (simp add: r(1) cells int_write_at)
    also have "\<dots> = regex_loop internal (map Some (out @ [BACKSLASH, c]) @ ys)
        (int (length (out @ [BACKSLASH, c]))) (length (front @ [BACKSLASH, c])) c"
      using ok by (subst regex_loop.simps)
        (simp only: r(2) bind.bind_lunit Let_def, auto simp: w add.commute)
    finally show ?thesis
      using Cons.IH[of "front @ [BACKSLASH, c]" c ys "out @ [BACKSLASH, c]"] Cons.prems Keep ok cells
      by auto
  qed
qed

lemma replicate_two: "replicate (Suc (Suc n)) x = replicate n x @ [x, x]"
  by (simp add: replicate_app_Cons_same)

lemma regex_body_items:
  assumes "\<forall>x \<in> set items. item_ok x"
  shows "regex_body (''/'' @ concat (map item_src items) @ ''/'') = Some (Some (concat (map item_out items)))"
proof -
  define b where "b = concat (map item_src items)"
  define n where "n = length b"
  have b: "map Some b @ [Some NUL, None] = map Some ([] @ concat (map item_src items)) @ Some NUL # [None]"
    by (simp add: b_def)
  have nb: "NUL \<notin> set (concat (map item_out items))"
  proof -
    have "item_ok x \<Longrightarrow> NUL \<notin> set (item_out x)" for x by (cases x) (auto simp: escape_char_def)
    with assms show ?thesis by auto
  qed
  have r: "replicate (length (''/'' @ b @ ''/'')) None = replicate n None @ [None, None :: char option]"
    by (simp add: n_def replicate_two del: replicate.simps)
  have cp: "memcpy_str (replicate n None @ [None, None]) 0 (drop 1 (''/'' @ b @ ''/'')) (int n) =
      Some (map Some b @ [None, None])"
    using blit_mid[of 0 "[]" "replicate n None" b "[None, None]"]
    by (simp add: memcpy_str_take n_def)
  have w: "int_write (map Some b @ [None, None]) (int n) (Some NUL) = Some (map Some b @ [Some NUL, None])"
    by (simp add: int_write_at n_def)
  from regex_loop_items[OF assms b, of NUL "replicate n None @ [None, None]" "[]"] obtain p cells where
    loop: "regex_loop (map Some b @ [Some NUL, None]) (replicate n None @ [None, None]) 0 0 NUL =
      Some (True, map Some (concat (map item_out items)) @ cells, int (length (concat (map item_out items))), p)"
    and p: "p \<noteq> BACKSLASH" and cells: "cells \<noteq> []"
    by (auto simp: n_def b_def)
  from cells obtain y ys where "cells = y # ys" by (cases cells) auto
  then have fin: "int_write (map Some (concat (map item_out items)) @ cells)
      (int (length (concat (map item_out items)))) (Some NUL) =
    Some (map Some (concat (map item_out items)) @ Some NUL # ys)" by (simp add: int_write_at)
  have ch: "char_at (''/'' @ b @ ''/'') 0 = Some CHR ''/''"
    "char_at (''/'' @ b @ ''/'') (length (''/'' @ b @ ''/'') - 1) = Some CHR ''/''"
    by (simp_all add: char_at_def nth_append)
  have il: "int (length (''/'' @ b @ ''/'')) - 2 = int n" by (simp add: n_def)
  show ?thesis
    unfolding regex_body_def b_def[symmetric] Let_def ch bind.bind_lunit r il cp w loop
    using p cstr_of_app[OF nb] by (simp add: fin)
qed

text \<open>
  The conversion stays inside its buffers for every expression but the single character
  \<open>/\<close>, for which the length of the body is -1.
\<close>

definition regex_inv :: "char option list \<Rightarrow> int \<Rightarrow> nat \<Rightarrow> char \<Rightarrow> nat \<Rightarrow> bool" where
  "regex_inv new new_index k previous n \<longleftrightarrow> length new = n \<and> 0 \<le> new_index \<and> new_index \<le> int k \<and>
     (previous = BACKSLASH \<longrightarrow> new_index > 0) \<and>
     (\<exists>out cells. new = map Some out @ cells \<and> NUL \<notin> set out \<and> new_index = int (length out))"

lemma regex_loop_safe:
  assumes "NUL \<notin> set b" and "internal = map Some b @ Some NUL # cs" and "n > length b"
  shows "k \<le> length b \<Longrightarrow> regex_inv new new_index k previous n \<Longrightarrow>
    \<exists>valid new' ni p. regex_loop internal new new_index k previous = Some (valid, new', ni, p) \<and>
      regex_inv new' ni (length b) NUL n"
proof (induction "length b - k" arbitrary: k new new_index previous)
  case 0
  then have r: "buf_read internal k = Some NUL" by (simp add: assms(2) buf_read_end)
  from 0 show ?case by (subst regex_loop.simps) (auto simp: r regex_inv_def)
next
  case (Suc d)
  then have k: "k < length b" by simp
  then have r: "buf_read internal k = Some (b ! k)" by (simp add: assms(2) buf_read_map)
  have c: "b ! k \<noteq> NUL" using assms(1) k by (metis nth_mem)
  from Suc.prems(2) obtain out cells where new: "new = map Some out @ cells" "NUL \<notin> set out"
    "new_index = int (length out)" "length new = n" "length out \<le> k" "previous = BACKSLASH \<longrightarrow> out \<noteq> []"
    by (auto simp: regex_inv_def)
  have step: "d = length b - (k + 1)" "k + 1 \<le> length b" using Suc.hyps(2) k by auto
  have put: "\<exists>new'. int_write new (int j) (Some x) = Some new' \<and>
      regex_inv new' (int j + 1) (k + 1) q n" if "j \<le> length out" "x \<noteq> NUL" for j x q
  proof -
    have j: "j < length new" using that(1) new(4,5) k assms(3) by simp
    have "new[j := Some x] = map Some (take j out @ [x]) @ drop (Suc j) new"
      using that(1) j by (simp add: upd_conv_take_nth_drop new(1) take_map)
    moreover have "NUL \<notin> set (take j out @ [x])" using new(2) that(2) by (auto dest: in_set_takeD)
    moreover have "length (take j out @ [x]) = j + 1" using that(1) by simp
    ultimately show ?thesis using j that(1) new(4,5)
      by (auto simp: int_write_def buf_write_def regex_inv_def intro!: exI[of _ "take j out @ [x]"])
  qed
  show ?case
  proof (cases "b ! k = CHR ''/'' \<and> previous \<noteq> BACKSLASH")
    case True
    with Suc.prems(2) k show ?thesis by (subst regex_loop.simps) (auto simp: r c regex_inv_def)
  next
    case plain: False
    show ?thesis
    proof (cases "b ! k \<in> set ''nrt/'' \<and> previous = BACKSLASH")
      case True
      have "\<exists>q. (if k \<ge> 2 then buf_read internal (k - 2) else Some NUL) = Some q"
        using k by (simp add: assms(2) buf_read_map)
      then obtain q where q: "(if k \<ge> 2 then buf_read internal (k - 2) else Some NUL) = Some q" by blast
      define j where "j = (if q = BACKSLASH then length out else length out - 1)"
      define x where "x = (if q = BACKSLASH then b ! k else escape_char (b ! k))"
      have jx: "(if q = BACKSLASH then new_index else new_index - 1) = int j" "j \<le> length out" "x \<noteq> NUL"
        using True new(3,6) c by (auto simp: j_def x_def escape_char_def of_nat_diff Suc_le_eq)
      from put[OF jx(2,3), of NUL] obtain new' where w:
        "int_write new (int j) (Some x) = Some new'" "regex_inv new' (int j + 1) (k + 1) NUL n" by blast
      have "regex_loop internal new new_index k previous = regex_loop internal new' (int j + 1) (k + 1) NUL"
        using True plain
        by (subst regex_loop.simps) (simp only: r c q jx(1) x_def[symmetric] w(1) bind.bind_lunit Let_def
            if_True if_False not_True_eq_False not_False_eq_True simp_thms)
      with Suc.hyps(1)[OF step w(2)] show ?thesis by simp
    next
      case False
      from put[of "length out" "b ! k" "b ! k"] c obtain new' where w:
        "int_write new new_index (Some (b ! k)) = Some new'"
        "regex_inv new' (new_index + 1) (k + 1) (b ! k) n" by (auto simp: new(3))
      have "regex_loop internal new new_index k previous = regex_loop internal new' (new_index + 1) (k + 1) (b ! k)"
        using False plain
        by (subst regex_loop.simps) (simp only: r c w(1) bind.bind_lunit Let_def
            if_True if_False not_True_eq_False not_False_eq_True simp_thms)
      with Suc.hyps(1)[OF step w(2)] show ?thesis by simp
    qed
  qed
qed

lemma regex_body_safe:
  assumes "NUL \<notin> set t" and "t \<noteq> ''/''"
  shows "\<exists>r. regex_body t = Some r"
proof (cases "t \<noteq> [] \<and> hd t = CHR ''/'' \<and> last t = CHR ''/''")
  case False
  have "char_at t 0 = Some (if t = [] then NUL else hd t)" by (cases t) simp_all
  moreover have "t \<noteq> [] \<Longrightarrow> char_at t (length t - 1) = Some (last t)"
    by (simp add: char_at_def last_conv_nth)
  ultimately show ?thesis using False by (auto simp: regex_body_def Let_def)
next
  case True
  then obtain u where u: "t = CHR ''/'' # u" by (cases t) auto
  with True assms(2) obtain b where t: "t = ''/'' @ b @ ''/''"
    by (cases u rule: rev_cases) auto
  define n where "n = length b"
  have nb: "NUL \<notin> set b" using assms(1) t by simp
  have r: "replicate (length t) None = replicate n None @ [None, None :: char option]"
    by (simp add: t n_def replicate_two del: replicate.simps)
  have cp: "memcpy_str (replicate n None @ [None, None]) 0 (drop 1 t) (int n) = Some (map Some b @ [None, None])"
    using blit_mid[of 0 "[]" "replicate n None" b "[None, None]"] by (simp add: memcpy_str_take n_def t)
  have w: "int_write (map Some b @ [None, None]) (int n) (Some NUL) = Some (map Some b @ [Some NUL, None])"
    by (simp add: int_write_at n_def)
  have inv: "regex_inv (replicate n None @ [None, None]) 0 0 NUL (n + 2)"
    by (auto simp: regex_inv_def intro: exI[of _ "[]"])
  from regex_loop_safe[OF nb refl, where cs = "[None]", OF _ _ inv] obtain valid new ni p where
    loop: "regex_loop (map Some b @ [Some NUL, None]) (replicate n None @ [None, None]) 0 0 NUL =
      Some (valid, new, ni, p)" and inv': "regex_inv new ni n NUL (n + 2)"
    by (auto simp: n_def)
  from inv' obtain out cells where new: "new = map Some out @ cells" "NUL \<notin> set out" "ni = int (length out)"
    "length new = n + 2" "length out \<le> n" by (auto simp: regex_inv_def)
  then obtain y ys where "cells = y # ys" by (cases cells) auto
  then have fin: "int_write new ni (Some NUL) = Some (map Some out @ Some NUL # ys)"
    by (simp add: new int_write_at)
  have ch: "char_at t 0 = Some CHR ''/''" "char_at t (length t - 1) = Some CHR ''/''"
    by (simp_all add: t char_at_def nth_append)
  have il: "int (length t) - 2 = int n" by (simp add: t n_def)
  show ?thesis
    unfolding regex_body_def Let_def ch bind.bind_lunit r il cp w loop
    using cstr_of_app[OF new(2)] by (simp add: fin)
qed

lemma regex_body_slash: "regex_body ''/'' = None"
  by (simp add: regex_body_def memcpy_str_def)

subsection \<open>Reading\<close>

lemma fgetc_simps:
  "drop (fpos f) (contents f) = c # cs \<Longrightarrow> fgetc f = (int (of_char c), f\<lparr>fpos := fpos f + 1\<rparr>)"
  "drop (fpos f) (contents f) = [] \<Longrightarrow> fgetc f = (EOF, f)"
proof -
  assume d: "drop (fpos f) (contents f) = c # cs"
  then have l: "fpos f < length (contents f)" by (metis drop_all list.distinct(1) not_le)
  with d have "contents f ! fpos f = c" by (metis Cons_nth_drop_Suc list.sel(1))
  with l show "fgetc f = (int (of_char c), f\<lparr>fpos := fpos f + 1\<rparr>)" by (simp add: fgetc_def)
qed (simp add: fgetc_def)

lemma of_char_not_EOF [simp]: "int (of_char c) \<noteq> EOF" "int (of_char c) = EOF \<longleftrightarrow> False"
  by (simp_all add: EOF_def)

lemma drop_fpos: "drop p xs = c # cs \<Longrightarrow> drop (p + 1) xs = cs"
  by (metis add.commute drop_drop drop0 drop_Suc_Cons One_nat_def)

text \<open>The terminators are ASCII characters, so that their promotion keeps them.\<close>

definition ascii :: "string \<Rightarrow> bool" where
  "ascii ts \<longleftrightarrow> (\<forall>t \<in> set ts. (of_char t :: nat) < 128)"

lemma promote_ascii: "(of_char t :: nat) < 128 \<Longrightarrow> promote t = int (of_char t)"
  by (simp add: promote_def)

lemma terminator_match:
  assumes "ascii ts"
  shows "for_each [0..<length ts] (\<lambda>i found.
      if found then Some True else do { t \<leftarrow> arr_at ts i; Some (n = promote t) }) False =
    Some (\<exists>t \<in> set ts. n = int (of_char t))"
proof -
  have "k \<le> length ts \<Longrightarrow> for_each [0..<k] (\<lambda>i found.
      if found then Some True else do { t \<leftarrow> arr_at ts i; Some (n = promote t) }) False =
    Some (\<exists>t \<in> set (take k ts). n = int (of_char t))" for k
  proof (induction k)
    case (Suc k)
    then have "promote (ts ! k) = int (of_char (ts ! k))"
      using assms by (intro promote_ascii) (auto simp: ascii_def)
    with Suc show ?case by (auto simp: for_each_append arr_at_def take_Suc_conv_app_nth)
  qed simp
  from this[of "length ts"] show ?thesis by simp
qed

text \<open>What a read up to a terminator consumes: the characters before it, and it.\<close>

definition line_of :: "string \<Rightarrow> string \<Rightarrow> string" where
  "line_of ts s = takeWhile (\<lambda>c. c \<notin> set ts) s"

definition terminator_of :: "string \<Rightarrow> string \<Rightarrow> int" where
  "terminator_of ts s = (case dropWhile (\<lambda>c. c \<notin> set ts) s of [] \<Rightarrow> EOF | c # _ \<Rightarrow> int (of_char c))"

lemma scan_terminator_ok:
  assumes "ascii ts"
  shows "drop (fpos f) (contents f) = s \<Longrightarrow> fpos f \<le> length (contents f) \<Longrightarrow>
    scan_terminator f ts (length ts) n =
      Some (f\<lparr>fpos := min (length (contents f)) (fpos f + length (line_of ts s) + 1)\<rparr>,
        n + length (line_of ts s), terminator_of ts s)"
proof (induction s arbitrary: f n)
  case Nil
  then have "fpos f = length (contents f)" by simp
  then show ?case
    by (subst scan_terminator.simps)
      (simp add: fgetc_simps(2) terminator_match[OF assms] line_of_def terminator_of_def)
next
  case (Cons c s)
  have l: "fpos f < length (contents f)" using Cons.prems(1) by (metis drop_all list.distinct(1) not_le)
  have m: "(\<exists>t \<in> set ts. int (of_char c) = int (of_char t)) \<longleftrightarrow> c \<in> set ts" by auto
  show ?case
  proof (cases "c \<in> set ts")
    case True
    then show ?thesis using l
      by (subst scan_terminator.simps)
        (simp only: fgetc_simps(1)[OF Cons.prems(1)] Let_def prod.case terminator_match[OF assms] m,
          simp add: line_of_def terminator_of_def)
  next
    case False
    have "scan_terminator (f\<lparr>fpos := fpos f + 1\<rparr>) ts (length ts) (n + 1) =
        Some (f\<lparr>fpos := min (length (contents f)) (fpos f + 1 + length (line_of ts s) + 1)\<rparr>,
          n + 1 + length (line_of ts s), terminator_of ts s)"
      using Cons.IH[of "f\<lparr>fpos := fpos f + 1\<rparr>" "n + 1"] drop_fpos[OF Cons.prems(1)] l by simp
    with False show ?thesis
      by (subst scan_terminator.simps)
        (simp only: fgetc_simps(1)[OF Cons.prems(1)] Let_def prod.case terminator_match[OF assms] m,
          simp add: line_of_def terminator_of_def)
  qed
qed

lemma reread_ok:
  assumes "p + n \<le> length (contents f)"
  shows "for_each [0..<n] (\<lambda>i (g, str). do {
      let (nextch, g) = fgetc g;
      str \<leftarrow> buf_write str i (Some (char_of (nat nextch)));
      Some (g, str) }) (f\<lparr>fpos := p\<rparr>, replicate (n + 1) None) =
    Some (f\<lparr>fpos := p + n\<rparr>, map Some (take n (drop p (contents f))) @ [None])"
proof -
  have "\<exists>gs. for_each [0..<n] (\<lambda>i (g, str). do {
      let (nextch, g) = fgetc g;
      str \<leftarrow> buf_write str i (Some (char_of (nat nextch)));
      Some (g, str) }) (f\<lparr>fpos := p\<rparr>, replicate (n + 1) None) = Some gs \<and>
    gs = (f\<lparr>fpos := p + n\<rparr>, map Some (take n (drop p (contents f))) @ replicate (n + 1 - n) None)"
  proof (rule for_each_invar[where I = "\<lambda>i gs. gs = (f\<lparr>fpos := p + i\<rparr>,
      map Some (take i (drop p (contents f))) @ replicate (n + 1 - i) None)"])
    fix i gs assume i: "i < n" and gs: "gs = (f\<lparr>fpos := p + i\<rparr>,
      map Some (take i (drop p (contents f))) @ replicate (n + 1 - i) (None :: char option))"
    define s where "s = drop p (contents f)"
    have s: "length s \<ge> n" "p + i < length (contents f)" "contents f ! (p + i) = s ! i"
      using assms i by (simp_all add: s_def)
    have g: "fgetc (f\<lparr>fpos := p + i\<rparr>) = (int (of_char (s ! i)), f\<lparr>fpos := p + Suc i\<rparr>)"
      using s by (simp add: fgetc_def)
    have r: "replicate (n + 1 - i) (None :: char option) = None # replicate (n + 1 - Suc i) None"
      using i by (simp add: Suc_diff_le flip: replicate_Suc)
    have w: "buf_write (map Some (take i s) @ replicate (n + 1 - i) None) i (Some (s ! i)) =
        Some (map Some (take (Suc i) s) @ replicate (n + 1 - Suc i) None)"
      using buf_write_at[of i "map Some (take i s)" None "replicate (n + 1 - Suc i) None" "Some (s ! i)"] s(1) i
      by (simp only: r) (simp add: take_Suc_conv_app_nth)
    have ch: "char_of (nat (int (of_char (s ! i)))) = s ! i" by simp
    show "\<exists>s'. (case gs of (g, str) \<Rightarrow> do {
        let (nextch, g) = fgetc g;
        str \<leftarrow> buf_write str i (Some (char_of (nat nextch)));
        Some (g, str) }) = Some s' \<and> s' = (f\<lparr>fpos := p + Suc i\<rparr>,
          map Some (take (Suc i) (drop p (contents f))) @ replicate (n + 1 - Suc i) None)"
      unfolding gs s_def[symmetric] by (simp only: prod.case Let_def g ch w bind.bind_lunit) blast
  qed simp
  then show ?thesis by simp
qed

lemma dynamic_read_ok:
  assumes "ascii ts" and "fpos f \<le> length (contents f)" and "drop (fpos f) (contents f) = s"
  shows "dynamic_read f ts (length ts) =
    Some (f\<lparr>fpos := min (length (contents f)) (fpos f + length (line_of ts s) + 1)\<rparr>,
      map Some (line_of ts s) @ [Some NUL], terminator_of ts s, length (line_of ts s))"
proof -
  define n where "n = length (line_of ts s)"
  define f1 where "f1 = f\<lparr>fpos := min (length (contents f)) (fpos f + n + 1)\<rparr>"
  have scan: "scan_terminator f ts (length ts) 0 = Some (f1, n, terminator_of ts s)"
    using scan_terminator_ok[OF assms(1,3,2), of 0] by (simp add: f1_def n_def)
  have ls: "length s = length (contents f) - fpos f" using assms(3) by auto
  have "n \<le> length s" by (simp add: n_def line_of_def length_takeWhile_le)
  then have l: "fpos f + n \<le> length (contents f)" using assms(2) ls by simp
  have t: "take n s = line_of ts s"
    by (simp add: n_def line_of_def takeWhile_eq_take[symmetric])
  have f1: "f1\<lparr>fpos := p\<rparr> = f\<lparr>fpos := p\<rparr>" for p by (simp add: f1_def)
  have last: "snd (fgetc (f\<lparr>fpos := fpos f + n\<rparr>)) = f1"
    using l by (auto simp: fgetc_def f1_def)
  have w: "buf_write (map Some (line_of ts s) @ [None]) n (Some NUL) = Some (map Some (line_of ts s) @ [Some NUL])"
    by (rule buf_write_at) (simp add: n_def)
  show ?thesis
  proof (cases "n > 0")
    case True
    then show ?thesis unfolding dynamic_read_def Let_def scan bind.bind_lunit prod.case f1
      using reread_ok[OF l] w
      by (simp add: assms(3) t last n_def[symmetric] Let_def) (simp add: f1_def n_def)
  next
    case False
    then have z: "n = 0" "line_of ts s = []" by (auto simp: n_def)
    show ?thesis unfolding dynamic_read_def Let_def scan bind.bind_lunit prod.case n_def[symmetric] f1_def[symmetric]
      by (simp add: z buf_write_def)
  qed
qed

lemma read_block_ok:
  assumes "drop (fpos f) (contents f) = s" and "fpos f \<le> length (contents f)" and "length done \<le> m"
    and "length cells = m + 1 - length done" and "nextch \<noteq> EOF"
  shows "\<exists>cells'. read_block f (map Some done @ cells) (length done) m nextch =
      (let k = min (length s) (m - length done) in
        Some (f\<lparr>fpos := fpos f + k\<rparr>, map Some (done @ take k s) @ cells', length done + k,
          if length s < m - length done then EOF
          else if k = 0 then nextch else int (of_char (s ! (k - 1))))) \<and>
    length cells' = m + 1 - (length done + min (length s) (m - length done))"
  using assms
proof (induction s arbitrary: f "done" cells nextch)
  case Nil
  show ?case
  proof (cases "length done < m")
    case False
    with Nil.prems show ?thesis by (subst read_block.simps) simp
  next
    case True
    have "read_block f (map Some done @ cells) (length done) m EOF =
        Some (f, map Some done @ cells, length done, EOF)"
      by (subst read_block.simps) simp
    with True Nil.prems show ?thesis
      by (subst read_block.simps) (simp add: fgetc_simps(2))
  qed
next
  case (Cons c s)
  show ?case
  proof (cases "length done < m")
    case False
    with Cons.prems show ?thesis by (subst read_block.simps) simp
  next
    case True
    then obtain x xs where cells: "cells = x # xs" "length xs = m + 1 - length (done @ [c])"
      using Cons.prems(4) by (cases cells) auto
    have l: "fpos f < length (contents f)" using Cons.prems(1) by (metis drop_all list.distinct(1) not_le)
    define g where "g = f\<lparr>fpos := fpos f + 1\<rparr>"
    have g: "drop (fpos g) (contents g) = s" "fpos g \<le> length (contents g)"
      using drop_fpos[OF Cons.prems(1)] l by (simp_all add: g_def)
    have step: "read_block f (map Some done @ cells) (length done) m nextch =
        read_block g (map Some (done @ [c]) @ xs) (length (done @ [c])) m (int (of_char c))"
      using True Cons.prems(5) by (subst read_block.simps)
        (simp add: fgetc_simps(1)[OF Cons.prems(1)] cells(1) buf_write_at g_def)
    from Cons.IH[OF g _ cells(2), of "int (of_char c)"] True obtain cells' where
      r: "read_block g (map Some (done @ [c]) @ xs) (length (done @ [c])) m (int (of_char c)) =
      (let k = min (length s) (m - length (done @ [c])) in
        Some (g\<lparr>fpos := fpos g + k\<rparr>, map Some ((done @ [c]) @ take k s) @ cells', length (done @ [c]) + k,
          if length s < m - length (done @ [c]) then EOF
          else if k = 0 then int (of_char c) else int (of_char (s ! (k - 1)))))"
      and lc: "length cells' = m + 1 - (length (done @ [c]) + min (length s) (m - length (done @ [c])))"
      by auto
    define k where "k = min (length s) (m - length (done @ [c]))"
    have k: "min (length (c # s)) (m - length done) = Suc k" using True by (simp add: k_def)
    have last: "(if k = 0 then int (of_char c) else int (of_char (s ! (k - 1)))) =
        (int (of_char ((c # s) ! k)) :: int)" by (cases k) simp_all
    have lk: "length cells' = m + 1 - (length done + Suc k)" using lc by (simp add: k_def)
    have e: "length (c # s) < m - length done \<longleftrightarrow> length s < m - length (done @ [c])" by auto
    show ?thesis unfolding step r k e Let_def k_def[symmetric]
      using lk by (intro exI[of _ cells']) (simp add: g_def last)
  qed
qed

lemma read_blocks_ok:
  assumes "b > 0"
  shows "drop (fpos f) (contents f) = s \<Longrightarrow> fpos f \<le> length (contents f) \<Longrightarrow> length done < m \<Longrightarrow>
    length cells = m + 1 - length done \<Longrightarrow>
    \<exists>cells'. read_blocks f b (map Some done @ cells) (length done) m =
      Some (f\<lparr>fpos := length (contents f)\<rparr>, map Some (done @ s) @ Some NUL # cells', length (done @ s))"
proof (induction "length s" arbitrary: s f "done" cells m rule: less_induct)
  case less
  define k where "k = min (length s) (m - length done)"
  from read_block_ok[OF less.prems(1,2) _ less.prems(4), of 63] less.prems(3) obtain cells' where
    rb: "read_block f (map Some done @ cells) (length done) m 63 =
      Some (f\<lparr>fpos := fpos f + k\<rparr>, map Some (done @ take k s) @ cells', length done + k,
        if length s < m - length done then EOF else if k = 0 then 63 else int (of_char (s ! (k - 1))))"
    and lc: "length cells' = m + 1 - (length done + k)"
    by (auto simp: EOF_def k_def Let_def)
  obtain y ys where cells': "cells' = y # ys" using lc less.prems(3) by (cases cells') (auto simp: k_def)
  have w: "buf_write (map Some (done @ take k s) @ cells') (length done + k) (Some NUL) =
      Some (map Some (done @ take k s) @ Some NUL # ys)"
    unfolding cells' by (rule buf_write_at) (simp add: k_def)
  have ls: "length s = length (contents f) - fpos f" using less.prems(1) by auto
  show ?case
  proof (cases "length s < m - length done")
    case True
    then have "k = length s" by (simp add: k_def)
    moreover have "fpos f + length s = length (contents f)" using ls less.prems(2) by simp
    ultimately show ?thesis using True rb w by (subst read_blocks.simps) simp
  next
    case False
    define d where "d = done @ take k s"
    define f1 where "f1 = f\<lparr>fpos := fpos f + k\<rparr>"
    have k: "k = m - length done" "k > 0" "k \<le> length s" using False less.prems(3) by (simp_all add: k_def)
    then have ld: "length d = m" "length done + k = length d" using less.prems(3) by (simp_all add: d_def)
    have "\<exists>cells'. read_blocks f1 b (map Some d @ replicate (b + 1) None) (length d) (m + b) =
      Some (f1\<lparr>fpos := length (contents f1)\<rparr>, map Some (d @ drop k s) @ Some NUL # cells', length (d @ drop k s))"
    proof (rule less.hyps)
      show "drop (fpos f1) (contents f1) = drop k s"
        using less.prems(1) by (auto simp: f1_def add.commute)
      show "fpos f1 \<le> length (contents f1)" using k(3) ls less.prems(2) by (simp add: f1_def)
    qed (use k ld(1) assms in simp_all)
    moreover have "d @ drop k s = done @ s" by (simp add: d_def)
    moreover have nb: "take (length d) (map Some d @ Some NUL # ys) @
        drop (length d) (replicate (m + b + 1) None) = map Some d @ replicate (b + 1) None"
      by (simp add: ld(1) del: replicate.simps)
    moreover have "read_blocks f b (map Some done @ cells) (length done) m =
        read_blocks f1 b (map Some d @ replicate (b + 1) None) (length d) (m + b)"
    proof -
      have ne: "((if length s < m - length done then EOF else if k = 0 then 63
          else int (of_char (s ! (k - 1)))) = EOF) = False" using False k(2) by simp
      have wd: "buf_write (map Some d @ cells') (length d) (Some NUL) = Some (map Some d @ Some NUL # ys)"
        using w by (simp only: d_def[symmetric] ld(2))
      show ?thesis
        by (subst read_blocks.simps) (simp only: rb wd bind.bind_lunit prod.case ne if_False Let_def
            d_def[symmetric] f1_def[symmetric] ld(2) nb)
    qed
    ultimately show ?thesis by (simp add: f1_def)
  qed
qed

lemma read_entire_file_ok:
  assumes "b > 0" and "fpos f \<le> length (contents f)"
  shows "\<exists>cells. read_entire_file f b =
    Some (f\<lparr>fpos := length (contents f)\<rparr>, map Some (drop (fpos f) (contents f)) @ Some NUL # cells,
      length (contents f) - fpos f)"
  using read_blocks_ok[OF assms(1) refl assms(2), of "[]" b "replicate (b + 1) None"] assms(1)
  by (simp add: read_entire_file_def)

subsection \<open>Sorting\<close>

lemma insert_by_mset [simp]: "mset (insert_by cmp x xs) = add_mset x (mset xs)"
  by (induction xs) auto

lemma insert_by_set [simp]: "set (insert_by cmp x xs) = insert x (set xs)"
  by (induction xs) auto

lemma qsort_mset: "mset (qsort cmp xs) = mset xs"
  by (induction xs) (simp_all add: qsort_def)

lemma qsort_sorted:
  assumes "\<And>a b. cmp a b \<le> 0 \<or> cmp b a \<le> 0" and "\<And>a b c. cmp a b \<le> 0 \<Longrightarrow> cmp b c \<le> 0 \<Longrightarrow> cmp a c \<le> 0"
  shows "sorted_wrt (\<lambda>a b. cmp a b \<le> 0) (qsort cmp xs)"
proof -
  have ins: "sorted_wrt (\<lambda>a b. cmp a b \<le> 0) ys \<Longrightarrow> sorted_wrt (\<lambda>a b. cmp a b \<le> 0) (insert_by cmp x ys)" for x ys
  proof (induction ys)
    case (Cons y ys)
    show ?case
    proof (cases "cmp x y \<le> 0")
      case True
      with Cons.prems show ?thesis by (auto intro: assms(2))
    next
      case False
      with assms(1)[of x y] Cons show ?thesis by auto
    qed
  qed simp
  show ?thesis by (induction xs) (simp_all add: qsort_def ins)
qed

lemma string_cmp_total: "sort_string_cmp a b \<le> 0 \<or> sort_string_cmp b a \<le> 0"
  "sort_string_icmp a b \<le> 0 \<or> sort_string_icmp b a \<le> 0"
  using strcmp_swap[of a b] strcmp_swap[of "map tolower a" "map tolower b"]
  by (auto simp: sort_string_cmp_def sort_string_icmp_def)

lemma string_cmp_trans:
  "sort_string_cmp a b \<le> 0 \<Longrightarrow> sort_string_cmp b c \<le> 0 \<Longrightarrow> sort_string_cmp a c \<le> 0"
  "sort_string_icmp a b \<le> 0 \<Longrightarrow> sort_string_icmp b c \<le> 0 \<Longrightarrow> sort_string_icmp a c \<le> 0"
  unfolding sort_string_cmp_def sort_string_icmp_def by (blast intro: strcmp_trans)+

lemma pieces_in_cells: "pieces_in (cells_of ps @ Some None # cells) = Some ps"
  by (induction ps) auto

subsection \<open>Properties\<close>

text \<open>C27: Splitting a line at any non-empty set of separators returns its maximal separator-free
  pieces, in order, in a \<open>NULL\<close>-terminated array it never leaves, with their number; a bound on the
  pieces keeps the first ones, or ends with the whole remainder of the line when asked to.\<close>

theorem split_on_separators_correct:
  assumes "seps \<noteq> []" and "NUL \<notin> set line"
  shows "\<exists>cells. split_on_separators (Some line) seps (length seps) max_pieces r =
      Some (cells_of (split_pieces seps max_pieces r line) @ Some None # cells,
        length (split_pieces seps max_pieces r line)) \<and>
    (r \<le> 0 \<or> max_pieces < 0 \<longrightarrow> split_pieces seps max_pieces r line =
      (if max_pieces < 0 then tokens (\<lambda>c. c \<in> set seps) line
       else take (nat max_pieces) (tokens (\<lambda>c. c \<in> set seps) line)))"
  using split_ok[OF assms, of max_pieces r] pieces_take[of "\<lambda>c. c \<in> set seps"]
  by (auto simp: split_pieces_def)

lemma split_on_separators_correct_witness:
  "\<exists>cells. split_on_separators (Some ''a, b,,c'') '', '' 2 (-1) 0 =
    Some ([Some (Some ''a''), Some (Some ''b''), Some (Some ''c''), Some None] @ cells, 3)"
  using split_on_separators_correct[of "'', ''" "''a, b,,c''" "-1" 0]
  by (simp add: NUL_def split_pieces_def eval_nat_numeral)

text \<open>Joining strings with a separator and splitting the result at it gives the strings
  back, when they are not empty and do not contain the separator.\<close>

theorem join_split_roundtrip:
  assumes "\<forall>p \<in> set ps. p \<noteq> [] \<and> NUL \<notin> set p \<and> sep \<notin> set p" and "sep \<noteq> NUL"
  shows "\<exists>cells. do {
      (joined, freed) \<leftarrow> join_strs (Some [sep]) (cells_of ps @ [Some None]) (-1) False;
      split_on_separators joined [sep] 1 (-1) 0 } = Some (cells_of ps @ Some None # cells, length ps)"
proof (cases ps rule: rev_cases)
  case Nil
  then show ?thesis
    by (simp add: join_strs_def split_on_separators_def buf_write_def buf_read_def count_parts.simps)
next
  case (snoc qs q)
  define j where "j = concat (map (\<lambda>p. p @ [sep]) qs) @ q"
  have join: "join_strs (Some [sep]) (cells_of ps @ [Some None]) (-1) False = Some (Some j, [])"
    using join_ok[of _ ps "[]" "Some [sep]" ps "-1" False] assms by (simp add: joined_with_def snoc j_def)
  have toks: "tokens (\<lambda>c. c \<in> set [sep]) j = ps"
    using tokens_joined[of "[sep]" "\<lambda>c. c \<in> set [sep]" qs q] assms(1) by (auto simp: j_def snoc)
  have "NUL \<notin> set j" using assms by (auto simp: j_def snoc)
  from split_ok[OF _ this, of "[sep]" "-1" 0] join toks show ?thesis by (simp add: split_pieces_def)
qed

lemma join_split_roundtrip_witness:
  "\<exists>cells. do {
      (joined, freed) \<leftarrow> join_strs (Some '','') [Some (Some ''ab''), Some (Some ''c''), Some None] (-1) False;
      split_on_separators joined '','' 1 (-1) 0 } =
    Some ([Some (Some ''ab''), Some (Some ''c''), Some None] @ cells, 2)"
  using join_split_roundtrip[of "[''ab'', ''c'']" "CHR '',''"] by (simp add: NUL_def eval_nat_numeral)

text \<open>Replacing a non-empty pattern returns the template with every occurrence replaced, from
  left to right, in an allocation that the result fills to its last byte; an empty pattern makes the
  routine loop forever on every non-empty template.\<close>

theorem dynamic_replace_correct:
  assumes "NUL \<notin> set s"
  shows "(old \<noteq> [] \<longrightarrow> dynamic_replace s old new = Some (map Some (replace_all old new s) @ [Some NUL])) \<and>
    (old = [] \<and> s \<noteq> [] \<longrightarrow> dynamic_replace s old new = None)"
  using dynamic_replace_ok[OF _ assms, of old new] dynamic_replace_diverges[OF _ assms, of new] by auto

lemma dynamic_replace_correct_witness:
  "dynamic_replace ''abcab'' ''ab'' ''xyz'' = Some (map Some ''xyzcxyz'' @ [Some NUL]) \<and>
    dynamic_replace ''abcab'' [] ''x'' = None"
  using dynamic_replace_correct[of "''abcab''" "''ab''" "''xyz''"]
    dynamic_replace_correct[of "''abcab''" "[]" "''x''"]
  by (simp add: NUL_def replace_all.simps)

text \<open>Trimming a string in place leaves, as a C string at the start of its buffer, the string
  without the blanks, tabs and line breaks at both ends, and keeps the size of the buffer.\<close>

theorem trim_flanking_whitespace_correct:
  assumes "cstr_of buf = Some s"
  shows "\<exists>buf'. trim_flanking_whitespace buf = Some buf' \<and> length buf' = length buf \<and>
    cstr_of buf' = Some (trimmed s) \<and>
    (\<exists>u v. s = u @ trimmed s @ v \<and> set u \<subseteq> set whitespace \<and> set v \<subseteq> set whitespace)"
proof -
  from assms obtain cs where s: "NUL \<notin> set s" "buf = map Some s @ Some NUL # cs" by (auto simp: cstr_of_iff)
  obtain u where u: "s = u @ dropWhile (\<lambda>c. c \<in> set whitespace) s" "set u \<subseteq> set whitespace"
    by (rule that[of "takeWhile (\<lambda>c. c \<in> set whitespace) s"]) (auto dest: set_takeWhileD)
  obtain v where v: "dropWhile (\<lambda>c. c \<in> set whitespace) s = trimmed s @ v" "set v \<subseteq> set whitespace"
    by (rule that[OF trimr_suffix[of "dropWhile (\<lambda>c. c \<in> set whitespace) s", folded trimmed_def]])
      (auto dest: set_takeWhileD)
  have "s = u @ trimmed s @ v" using u(1) v(1) by simp
  moreover from this s(1) have "NUL \<notin> set (trimmed s)" by (metis Un_iff set_append)
  moreover from trim_ok[OF s(1), of cs] obtain cs' where
    "trim_flanking_whitespace buf = Some (map Some (trimmed s) @ Some NUL # cs')"
    "length (trimmed s) + length cs' = length s + length cs" by (auto simp: s(2))
  ultimately show ?thesis using u(2) v(2) by (auto simp: s(2) cstr_of_app)
qed

lemma trim_flanking_whitespace_correct_witness:
  "\<exists>buf'. trim_flanking_whitespace (map Some '' a b  '' @ [Some NUL]) = Some buf' \<and>
    cstr_of buf' = Some ''a b''"
proof -
  have "cstr_of (map Some '' a b  '' @ [Some NUL]) = Some '' a b  ''" by (simp add: NUL_def)
  from trim_flanking_whitespace_correct[OF this] show ?thesis
    by (auto simp: trimmed_def trimr_def whitespace_def)
qed

text \<open>The conversion of a \<open>/.../\<close> expression stays inside its three buffers for every string
  except one that trims to a single slash, whose body gets the length -1.\<close>

theorem convert_to_regex_safe:
  assumes "NUL \<notin> set str"
  shows "convert_to_regex regcomp str \<noteq> None \<longleftrightarrow> trimmed str \<noteq> ''/''"
proof -
  from trim_ok[OF assms, of "[]"] obtain cs' where t:
    "trim_flanking_whitespace (map Some str @ [Some NUL]) = Some (map Some (trimmed str) @ Some NUL # cs')"
    by blast
  have nt: "NUL \<notin> set (trimmed str)"
    using assms by (auto simp: trimmed_def trimr_def dest!: set_dropWhileD)
  show ?thesis
  proof (cases "trimmed str = ''/''")
    case True
    with t show ?thesis by (simp add: convert_to_regex_def NUL_def[symmetric] regex_body_slash)
  next
    case False
    with regex_body_safe[OF nt] t nt show ?thesis by (auto simp: convert_to_regex_def cstr_of_app)
  qed
qed

lemma convert_to_regex_safe_witness: "convert_to_regex (\<lambda>_. True) '' / '' = None"
  using convert_to_regex_safe[of "'' / ''" "\<lambda>_. True"]
  by (simp add: NUL_def trimmed_def trimr_def whitespace_def)

text \<open>A body of plain characters and escapes is handed to \<open>regcomp\<close> with its escaped slashes,
  line breaks and tabs interpreted and every other escape kept.\<close>

theorem regex_body_correct:
  assumes "\<forall>x \<in> set items. item_ok x"
  shows "regex_body (''/'' @ concat (map item_src items) @ ''/'') = Some (Some (concat (map item_out items)))"
  using assms by (rule regex_body_items)

lemma regex_body_correct_witness:
  "regex_body [CHR ''/'', CHR ''a'', BACKSLASH, CHR ''/'', BACKSLASH, CHR ''n'', BACKSLASH, CHR ''.'', CHR ''/''] =
    Some (Some [CHR ''a'', CHR ''/'', CHR 0x0A, BACKSLASH, CHR ''.''])"
  using regex_body_correct[of "[Lit CHR ''a'', Esc CHR ''/'', Esc CHR ''n'', Keep CHR ''.'']"]
  by (simp add: escape_char_def NUL_def BACKSLASH_def)

text \<open>A read up to a terminator returns exactly the characters before the first one as a
  terminated string, reports the terminator or \<open>EOF\<close>, and leaves the stream right after it.\<close>

theorem dynamic_read_correct:
  assumes "ascii ts" and "fpos f \<le> length (contents f)" and "drop (fpos f) (contents f) = s"
  shows "dynamic_read f ts (length ts) =
    Some (f\<lparr>fpos := min (length (contents f)) (fpos f + length (line_of ts s) + 1)\<rparr>,
      map Some (line_of ts s) @ [Some NUL], terminator_of ts s, length (line_of ts s))"
  using assms by (rule dynamic_read_ok)

lemma dynamic_read_correct_witness:
  "dynamic_read \<lparr>contents = ''ab;c'', fpos = 0\<rparr> '';'' 1 =
    Some (\<lparr>contents = ''ab;c'', fpos = 3\<rparr>, map Some ''ab'' @ [Some NUL], 59, 2)"
  using dynamic_read_correct[of "'';''" "\<lparr>contents = ''ab;c'', fpos = 0\<rparr>" "''ab;c''"]
  by (simp add: ascii_def line_of_def terminator_of_def)

text \<open>Reading a whole file in blocks of any positive size stops, returns all the remaining
  characters followed by a terminator, and counts them; no block is written beyond its end.\<close>

theorem read_entire_file_correct:
  assumes "b > 0" and "fpos f \<le> length (contents f)"
  shows "\<exists>cells. read_entire_file f b =
    Some (f\<lparr>fpos := length (contents f)\<rparr>, map Some (drop (fpos f) (contents f)) @ Some NUL # cells,
      length (contents f) - fpos f)"
  using assms by (rule read_entire_file_ok)

lemma read_entire_file_correct_witness:
  "\<exists>cells. read_entire_file \<lparr>contents = ''abcde'', fpos = 1\<rparr> 2 =
    Some (\<lparr>contents = ''abcde'', fpos = 5\<rparr>, map Some ''bcde'' @ Some NUL # cells, 4)"
  using read_entire_file_correct[of 2 "\<lparr>contents = ''abcde'', fpos = 1\<rparr>"] by (simp add: eval_nat_numeral)

end
