(* ===== verification/VbootUtil.thy ===== *)
theory VbootUtil
  imports CString
begin

unbundle bit_operations_syntax

text \<open>
  The small routines of \<open>package/vboot_utils/src\<close> that firmware verification is built from:
  constant-time comparison, the CRC of the TPM spaces, number and string formatting, the readers
  and writers that remember an overrun, and the search for a flash map.
\<close>

subsection \<open>Memory\<close>

text \<open>A region of memory is the list of its bytes; an access beyond it is \<open>None\<close>.\<close>

definition mem_read :: "'a list \<Rightarrow> nat \<Rightarrow> nat \<Rightarrow> 'a list option" where
  "mem_read mem off n = (if off + n \<le> length mem then Some (take n (drop off mem)) else None)"

definition mem_write :: "'a list \<Rightarrow> nat \<Rightarrow> 'a list \<Rightarrow> 'a list option" where
  "mem_write mem off xs = (if off + length xs \<le> length mem
     then Some (take off mem @ xs @ drop (off + length xs) mem) else None)"

lemma mem_read_Some [buffer_facts]: "off + n \<le> length mem \<Longrightarrow> mem_read mem off n = Some (take n (drop off mem))"
  by (simp add: mem_read_def)

lemma mem_write_Some [buffer_facts]: "off + length xs \<le> length mem \<Longrightarrow>
    mem_write mem off xs = Some (take off mem @ xs @ drop (off + length xs) mem)"
  by (simp add: mem_write_def)

lemma mem_write_mid [buffer_facts]:
  "off = length a \<Longrightarrow> length b = length xs \<Longrightarrow> mem_write (a @ b @ c) off xs = Some (a @ xs @ c)"
  by (simp add: mem_write_def)

lemma mem_write_length: "mem_write mem off xs = Some mem' \<Longrightarrow> length mem' = length mem"
  by (auto simp: mem_write_def split: if_splits)

subsection \<open>Comparison in constant time\<close>

text \<open>\<open>int\<close> has 32 bits; the bytes are promoted before the exclusive or.\<close>

fun memcmp_loop :: "nat \<Rightarrow> u8 list \<Rightarrow> u8 list \<Rightarrow> u32 \<Rightarrow> u32 option" where
  "memcmp_loop 0 us1 us2 result = Some result"
| "memcmp_loop (Suc n) (a # us1) (b # us2) result =
     memcmp_loop n us1 us2 (result OR (ucast a XOR ucast b))"
| "memcmp_loop (Suc n) _ _ result = None"

definition SafeMemcmp :: "u8 list \<Rightarrow> u8 list \<Rightarrow> nat \<Rightarrow> int option" where
  "SafeMemcmp s1 s2 n =
     (if n = 0 then Some 0
      else do { result \<leftarrow> memcmp_loop n s1 s2 0; Some (if result \<noteq> 0 then 1 else 0) })"

subsection \<open>Numbers and strings\<close>

definition UINT64_TO_STRING_MAX :: nat where
  "UINT64_TO_STRING_MAX = 65"

definition digit_char :: "nat \<Rightarrow> char" where
  "digit_char v = char_of (if v < 10 then v + 48 else v + 97 - 10)"

text \<open>
  \<open>*(--s) = c\<close> on the local buffer \<open>ibuf\<close>, with \<open>s\<close> as an index: below the start of the
  buffer it is \<open>None\<close>.
\<close>

definition push_front :: "char option list \<Rightarrow> nat \<Rightarrow> char \<Rightarrow> (char option list \<times> nat) option" where
  "push_front ibuf s c = (if s = 0 then None
     else do { ibuf \<leftarrow> buf_write ibuf (s - 1) (Some c); Some (ibuf, s - 1) })"

text \<open>The two loops; the inner result is \<open>None\<close> when the string does not fit.\<close>

partial_function (option) digit_loop :: "char option list \<Rightarrow> nat \<Rightarrow> nat \<Rightarrow> nat \<Rightarrow> u64 \<Rightarrow> u64
    \<Rightarrow> (char option list \<times> nat \<times> nat) option option" where
  "digit_loop ibuf s usedsize bufsize value radix = do {
     let v = unat (value mod radix);
     let value = value div radix;
     (ibuf, s) \<leftarrow> push_front ibuf s (digit_char v);
     let usedsize = usedsize + 1;
     if usedsize > bufsize then Some None
     else if value \<noteq> 0 then digit_loop ibuf s usedsize bufsize value radix
     else Some (Some (ibuf, s, usedsize)) }"

partial_function (option) pad_loop :: "char option list \<Rightarrow> nat \<Rightarrow> nat \<Rightarrow> nat \<Rightarrow> nat
    \<Rightarrow> (char option list \<times> nat \<times> nat) option option" where
  "pad_loop ibuf s usedsize bufsize zero_pad_width =
     (if usedsize \<le> zero_pad_width
      then do {
        (ibuf, s) \<leftarrow> push_front ibuf s CHR ''0'';
        let usedsize = usedsize + 1;
        if usedsize > bufsize then Some None
        else pad_loop ibuf s usedsize bufsize zero_pad_width }
      else Some (Some (ibuf, s, usedsize)))"

definition Uint64ToString :: "char option list ptr \<Rightarrow> u32 \<Rightarrow> u64 \<Rightarrow> u32 \<Rightarrow> u32
    \<Rightarrow> (nat \<times> char option list ptr) option" where
  "Uint64ToString buf bufsize value radix zero_pad_width =
     (case buf of None \<Rightarrow> Some (0, None)
      | Some buf \<Rightarrow> do {
          buf \<leftarrow> buf_write buf 0 (Some NUL);
          if radix < 2 \<or> radix > 36 \<or> unat zero_pad_width \<ge> UINT64_TO_STRING_MAX then Some (0, Some buf)
          else do {
            let s = UINT64_TO_STRING_MAX - 1;
            ibuf \<leftarrow> buf_write (replicate UINT64_TO_STRING_MAX None) s (Some NUL);
            r \<leftarrow> digit_loop ibuf s 1 (unat bufsize) value (ucast radix);
            (case r of None \<Rightarrow> Some (0, Some buf)
             | Some (ibuf, s, usedsize) \<Rightarrow> do {
                 r \<leftarrow> pad_loop ibuf s usedsize (unat bufsize) (unat zero_pad_width);
                 (case r of None \<Rightarrow> Some (0, Some buf)
                  | Some (ibuf, s, usedsize) \<Rightarrow> do {
                      bytes \<leftarrow> mem_read ibuf s usedsize;
                      buf \<leftarrow> mem_write buf 0 bytes;
                      Some (usedsize - 1, Some buf) }) }) } })"

partial_function (option) skip_string :: "char option list \<Rightarrow> nat \<Rightarrow> nat \<Rightarrow> nat option" where
  "skip_string dest used destlen = do {
     c \<leftarrow> buf_read dest used;
     if c \<noteq> NUL \<and> used < destlen - 1 then skip_string dest (used + 1) destlen else Some used }"

fun append_loop :: "char option list \<Rightarrow> string \<Rightarrow> nat \<Rightarrow> nat \<Rightarrow> (char option list \<times> nat) option" where
  "append_loop dest [] used destlen = Some (dest, used)"
| "append_loop dest (c # src) used destlen =
     (if used < destlen - 1
      then do { dest \<leftarrow> buf_write dest used (Some c); append_loop dest src (used + 1) destlen }
      else Some (dest, used))"

definition StrnAppend :: "char option list ptr \<Rightarrow> string ptr \<Rightarrow> u32 \<Rightarrow> (nat \<times> char option list ptr) option" where
  "StrnAppend dest src destlen =
     (case (dest, src) of
        (Some dest, Some src) \<Rightarrow>
          if destlen = 0 then Some (0, Some dest)
          else do {
            used \<leftarrow> skip_string dest 0 (unat destlen);
            (dest, used) \<leftarrow> append_loop dest src used (unat destlen);
            dest \<leftarrow> buf_write dest used (Some NUL);
            Some (used, Some dest) }
      | _ \<Rightarrow> Some (0, dest))"

subsection \<open>Reads and writes that remember an overrun\<close>

text \<open>The pointer into the buffer is the offset of the next byte.\<close>

record memcpy_state =
  remaining_buf :: nat
  remaining_len :: u64
  overrun :: bool

definition StatefulInit :: "u64 \<Rightarrow> memcpy_state" where
  "StatefulInit len = \<lparr>remaining_buf = 0, remaining_len = len, overrun = False\<rparr>"

definition advance :: "memcpy_state \<Rightarrow> u64 \<Rightarrow> memcpy_state" where
  "advance state len = state\<lparr>remaining_buf := remaining_buf state + unat len,
     remaining_len := remaining_len state - len\<rparr>"

definition StatefulSkip :: "memcpy_state \<Rightarrow> u64 \<Rightarrow> memcpy_state \<times> bool" where
  "StatefulSkip state len =
     (if overrun state then (state, False)
      else if len > remaining_len state then (state\<lparr>overrun := True\<rparr>, False)
      else (advance state len, True))"

text \<open>The bytes copied to the destination, \<open>None\<close> inside when nothing is copied.\<close>

definition StatefulMemcpy :: "u8 list \<Rightarrow> memcpy_state \<Rightarrow> u64 \<Rightarrow> (memcpy_state \<times> u8 list ptr) option" where
  "StatefulMemcpy mem state len =
     (if overrun state then Some (state, None)
      else if len > remaining_len state then Some (state\<lparr>overrun := True\<rparr>, None)
      else do {
        dst \<leftarrow> mem_read mem (remaining_buf state) (unat len);
        Some (advance state len, Some dst) })"

definition StatefulMemcpy_r :: "u8 list \<Rightarrow> memcpy_state \<Rightarrow> u8 list \<Rightarrow> u64
    \<Rightarrow> (u8 list \<times> memcpy_state \<times> bool) option" where
  "StatefulMemcpy_r mem state src len =
     (if overrun state then Some (mem, state, False)
      else if len > remaining_len state then Some (mem, state\<lparr>overrun := True\<rparr>, False)
      else do {
        bytes \<leftarrow> mem_read src 0 (unat len);
        mem \<leftarrow> mem_write mem (remaining_buf state) bytes;
        Some (mem, advance state len, True) })"

definition StatefulMemset_r :: "u8 list \<Rightarrow> memcpy_state \<Rightarrow> u8 \<Rightarrow> u64
    \<Rightarrow> (u8 list \<times> memcpy_state \<times> bool) option" where
  "StatefulMemset_r mem state val len =
     (if overrun state then Some (mem, state, False)
      else if len > remaining_len state then Some (mem, state\<lparr>overrun := True\<rparr>, False)
      else do {
        mem \<leftarrow> mem_write mem (remaining_buf state) (replicate (unat len) val);
        Some (mem, advance state len, True) })"

subsection \<open>Flash maps\<close>

definition FMAP_SIGNATURE :: string where
  "FMAP_SIGNATURE = ''__FMAP__''"

definition FMAP_SEARCH_STRIDE :: nat where
  "FMAP_SEARCH_STRIDE = 4"

definition FMAP_VER_MAJOR :: char where
  "FMAP_VER_MAJOR = CHR 0x01"

text \<open>\<open>strncmp(ptr, FMAP_SIGNATURE, n)\<close> reads up to the first difference; the signature has no \<open>NUL\<close>.\<close>

fun strncmp_eq :: "string \<Rightarrow> nat \<Rightarrow> string \<Rightarrow> bool option" where
  "strncmp_eq mem ptr [] = Some True"
| "strncmp_eq mem ptr (d # ds) =
     (if ptr < length mem then if mem ! ptr = d then strncmp_eq mem (ptr + 1) ds else Some False else None)"

text \<open>The version field follows the signature; the result is the offset of the header.\<close>

function fmap_loop :: "string \<Rightarrow> nat \<Rightarrow> nat \<Rightarrow> nat ptr option" where
  "fmap_loop mem i img_size =
     (if i < img_size
      then do {
        same \<leftarrow> strncmp_eq mem i FMAP_SIGNATURE;
        if \<not> same then fmap_loop mem (i + FMAP_SEARCH_STRIDE) img_size
        else if i + 8 < length mem
        then (if mem ! (i + 8) = FMAP_VER_MAJOR then Some (Some i)
          else fmap_loop mem (i + FMAP_SEARCH_STRIDE) img_size)
        else None }
      else Some None)"
  by pat_completeness auto

termination fmap_loop
  by (relation "measure (\<lambda>(mem, i, img_size). img_size - i)") (auto simp: FMAP_SEARCH_STRIDE_def)

declare fmap_loop.simps [simp del]

definition FmapFind :: "string \<Rightarrow> nat \<Rightarrow> nat ptr option" where
  "FmapFind mem img_size = fmap_loop mem 0 img_size"

text \<open>\<open>strcmp\<close> of an area name, a \<open>char[32]\<close>, with a string.\<close>

fun name_eq :: "string \<Rightarrow> string \<Rightarrow> bool option" where
  "name_eq [] ds = None"
| "name_eq (c # cs) [] = Some (c = NUL)"
| "name_eq (c # cs) (d # ds) = (if c = d then name_eq cs ds else Some False)"

fun area_loop :: "string list \<Rightarrow> nat \<Rightarrow> nat \<Rightarrow> string \<Rightarrow> int option" where
  "area_loop names i 0 name = Some (-1)"
| "area_loop names i (Suc left) name =
     (if i < length names
      then do { same \<leftarrow> name_eq (names ! i) name; if same then Some (int i) else area_loop names (i + 1) left name }
      else None)"

definition FmapAreaIndex :: "u16 \<Rightarrow> string list \<Rightarrow> string \<Rightarrow> int option" where
  "FmapAreaIndex fmap_nareas area_names name = area_loop area_names 0 (unat fmap_nareas) name"

subsection \<open>Comparison\<close>

lemma or_eq_0_word: "(a :: 'a::len word) OR b = 0 \<longleftrightarrow> a = 0 \<and> b = 0"
  by (metis or.right_neutral word_bw_comms(2) or_eq_0_iff)

lemma xor_zero: "(a :: 'a::len word) XOR b = 0 \<longleftrightarrow> a = b"
  by (metis xor.assoc xor.left_neutral xor_self_eq)

lemma unat_ucast_u8: "unat (ucast (a :: u8) :: u32) = unat a"
proof -
  have "unat a < 2 ^ 8" using unsigned_less[of a] by simp
  then show ?thesis by (simp add: unsigned_ucast_eq take_bit_nat_eq_self)
qed

lemma ucast_u8_inject: "(ucast (a :: u8) :: u32) = ucast b \<longleftrightarrow> a = b"
  by (metis unat_ucast_u8 word_unat_eq_iff)

lemma memcmp_loop_ok:
  "n \<le> length xs \<Longrightarrow> n \<le> length ys \<Longrightarrow>
    \<exists>r. memcmp_loop n xs ys result = Some r \<and> (r = 0 \<longleftrightarrow> result = 0 \<and> take n xs = take n ys)"
proof (induction n xs ys result rule: memcmp_loop.induct)
  case (2 n a us1 b us2 result)
  have "(ucast a XOR ucast b :: u32) = 0 \<longleftrightarrow> a = b"
    by (simp add: xor_zero ucast_u8_inject)
  with 2 show ?case by (auto simp: or_eq_0_word)
qed auto

subsection \<open>Formatting\<close>

text \<open>The digits of a number in a radix, most significant first, and padded with zeros.\<close>

function radix_digits :: "nat \<Rightarrow> nat \<Rightarrow> nat list" where
  "radix_digits r v = (if r < 2 \<or> v < r then [v] else radix_digits r (v div r) @ [v mod r])"
  by pat_completeness auto

termination radix_digits
  by (relation "measure snd") auto

declare radix_digits.simps [simp del]

definition formatted :: "nat \<Rightarrow> nat \<Rightarrow> nat \<Rightarrow> string" where
  "formatted r width v = (let ds = map digit_char (radix_digits r v) in
     replicate (width - length ds) CHR ''0'' @ ds)"

lemma radix_digits_value:
  "2 \<le> r \<Longrightarrow> foldl (\<lambda>acc d. acc * r + d) 0 (radix_digits r v) = v \<and> (\<forall>d \<in> set (radix_digits r v). d < r)"
proof (induction r v rule: radix_digits.induct)
  case (1 r v)
  then show ?case by (subst (1 2) radix_digits.simps) (auto simp: mult.commute)
qed

lemma radix_digits_length: "2 \<le> r \<Longrightarrow> v < 2 ^ n \<Longrightarrow> n > 0 \<Longrightarrow> length (radix_digits r v) \<le> n"
proof (induction n arbitrary: v)
  case (Suc n)
  show ?case
  proof (cases "v < r")
    case True
    then show ?thesis by (subst radix_digits.simps) simp
  next
    case False
    with Suc.prems have "n > 0" by (cases n) auto
    have "v div r \<le> v div 2" using Suc.prems(1) by (intro div_le_mono2) auto
    with Suc.prems(2) have "v div r < 2 ^ n" by simp
    with Suc \<open>n > 0\<close> have "length (radix_digits r (v div r)) \<le> n" by blast
    with False Suc.prems(1) show ?thesis by (subst radix_digits.simps) simp
  qed
qed simp

lemma push_front_ok:
  "push_front ((front @ [x]) @ tail) (Suc (length front)) c = Some (front @ Some c # tail, length front)"
  by (simp add: push_front_def)

lemma digit_loop_ok:
  assumes r: "2 \<le> unat (radix :: u64)"
  shows "length (radix_digits (unat radix) (unat value)) \<le> length front \<Longrightarrow>
    digit_loop (front @ tail) (length front) usedsize bufsize value radix =
      Some (let ds = map digit_char (radix_digits (unat radix) (unat value)); k = length front - length ds in
        if usedsize + length ds > bufsize then None
        else Some (take k front @ map Some ds @ tail, k, usedsize + length ds))"
proof (induction "unat value" arbitrary: "value" front tail usedsize rule: less_induct)
  case less
  define q where "q = value div radix"
  define d where "d = unat (value mod radix)"
  have q: "unat q = unat value div unat radix" and d: "d = unat value mod unat radix"
    by (simp_all add: q_def d_def unat_div unat_mod)
  have "length (radix_digits (unat radix) (unat value)) > 0" by (subst radix_digits.simps) simp
  with less.prems obtain front' x where f: "front = front' @ [x]" by (cases front rule: rev_cases) auto
  have step: "digit_loop (front @ tail) (length front) usedsize bufsize value radix =
      (if usedsize + 1 > bufsize then Some None
       else if q \<noteq> 0 then digit_loop (front' @ Some (digit_char d) # tail) (length front')
         (usedsize + 1) bufsize q radix
       else Some (Some (front' @ Some (digit_char d) # tail, length front', usedsize + 1)))"
    unfolding f
    by (subst digit_loop.simps)
      (simp only: Let_def length_append_singleton push_front_ok bind.bind_lunit prod.case q_def d_def)
  show ?case
  proof (cases "unat value < unat radix")
    case True
    then have "q = 0" "d = unat value" by (simp_all add: q d word_unat_eq_iff)
    moreover have "radix_digits (unat radix) (unat value) = [unat value]"
      using True by (subst radix_digits.simps) simp
    ultimately show ?thesis unfolding step by (simp add: Let_def f)
  next
    case False
    define D where "D = map digit_char (radix_digits (unat radix) (unat q))"
    have D: "map digit_char (radix_digits (unat radix) (unat value)) = D @ [digit_char d]"
      using False r by (subst radix_digits.simps) (simp add: D_def q d)
    have D0: "length D > 0" unfolding D_def by (subst radix_digits.simps) simp
    have lD: "length D \<le> length front'" using less.prems arg_cong[OF D, of length] by (simp add: f)
    have q0: "q \<noteq> 0" "unat q < unat value" using False r
      by (auto simp: q word_unat_eq_iff div_eq_0_iff intro!: div_less_dividend)
    have ih: "digit_loop (front' @ Some (digit_char d) # tail) (length front') (usedsize + 1) bufsize q radix =
      Some (if usedsize + 1 + length D > bufsize then None
        else Some (take (length front' - length D) front' @ map Some D @ Some (digit_char d) # tail,
          length front' - length D, usedsize + 1 + length D))"
      using less.hyps[OF q0(2), of front'] lD by (simp add: D_def Let_def)
    show ?thesis unfolding step D Let_def using q0(1) D0 lD ih by (simp add: f)
  qed
qed

lemma pad_loop_ok:
  "width + 1 - usedsize \<le> length front \<Longrightarrow> usedsize \<le> bufsize \<Longrightarrow>
    pad_loop (front @ tail) (length front) usedsize bufsize width =
      Some (let k = width + 1 - usedsize in
        if usedsize + k > bufsize then None
        else Some (take (length front - k) front @ replicate k (Some CHR ''0'') @ tail,
          length front - k, usedsize + k))"
proof (induction "width + 1 - usedsize" arbitrary: front tail usedsize)
  case 0
  then show ?case by (subst pad_loop.simps) simp
next
  case (Suc k)
  then obtain front' x where f: "front = front' @ [x]" by (cases front rule: rev_cases) auto
  have le: "usedsize \<le> width" using Suc.hyps(2) by simp
  have k: "k = width + 1 - (usedsize + 1)" "width + 1 - usedsize = Suc k" using Suc.hyps(2) by auto
  have step: "pad_loop (front @ tail) (length front) usedsize bufsize width =
      (if usedsize + 1 > bufsize then Some None
       else pad_loop (front' @ Some CHR ''0'' # tail) (length front') (usedsize + 1) bufsize width)"
    unfolding f using le
    by (subst pad_loop.simps) (simp only: Let_def length_append_singleton push_front_ok bind.bind_lunit
        prod.case if_True simp_thms)
  show ?case
  proof (cases "usedsize + 1 > bufsize")
    case True
    with step k show ?thesis by (simp add: Let_def)
  next
    case False
    have "pad_loop (front' @ Some CHR ''0'' # tail) (length front') (usedsize + 1) bufsize width =
      Some (if usedsize + 1 + k > bufsize then None
        else Some (take (length front' - k) front' @ replicate k (Some CHR ''0'') @ Some CHR ''0'' # tail,
          length front' - k, usedsize + 1 + k))"
      using Suc.hyps(1)[OF k(1), of front' "Some CHR ''0'' # tail"] False Suc.prems k
      by (simp add: Let_def f)
    with step False k show ?thesis by (simp add: Let_def f replicate_app_Cons_same)
  qed
qed

text \<open>Formatting a number in a radix from 2 to 36 writes its digits, padded with zeros to the width
  asked for, and their count, when they fit the buffer with a terminator, and an empty string and 0
  otherwise; neither the buffer nor the local one of 65 characters is left, whatever the value.\<close>

theorem Uint64ToString_correct:
  assumes "2 \<le> unat radix" and "unat radix \<le> 36" and "unat width < 65" and "unat bufsize \<le> length buf" and "0 < bufsize"
  shows "let str = formatted (unat radix) (unat width) (unat value) in
    Uint64ToString (Some buf) bufsize value radix width =
      (if length str < unat bufsize
       then Some (length str, Some (map Some str @ Some NUL # drop (length str + 1) buf))
       else Some (0, Some (buf[0 := Some NUL])))"
proof -
  define ds where "ds = map digit_char (radix_digits (unat radix) (unat value))"
  define str where "str = formatted (unat radix) (unat width) (unat value)"
  define k where "k = unat width - length ds"
  have str: "str = replicate k CHR ''0'' @ ds" by (simp add: str_def formatted_def ds_def k_def Let_def)
  have "unat value < 2 ^ 64" using unsigned_less[of "value"] by simp
  from radix_digits_length[OF assms(1) this] have l: "length ds \<le> 64" by (simp add: ds_def)
  have "unat radix < 2 ^ 64" using assms(2) by simp
  then have rx: "unat (ucast radix :: u64) = unat radix"
    by (simp add: unsigned_ucast_eq take_bit_nat_eq_self)
  have b0: "buf_write buf 0 (Some NUL) = Some (buf[0 := Some NUL])" "0 < unat bufsize" "buf \<noteq> []"
    using assms(4,5) by (auto simp: buf_write_def word_less_nat_alt)
  have iw: "buf_write (replicate 65 None) 64 (Some NUL) = Some (replicate 64 None @ [Some NUL])"
  proof -
    have "replicate 65 (None :: char option) = replicate 64 None @ [None]"
      by (simp add: eval_nat_numeral replicate_append_same)
    then show ?thesis by (simp only: buf_write_at length_replicate)
  qed
  have dl: "digit_loop (replicate 64 None @ [Some NUL]) 64 1 (unat bufsize) value (ucast radix) =
    Some (if 1 + length ds > unat bufsize then None
      else Some (replicate (64 - length ds) None @ map Some ds @ [Some NUL], 64 - length ds, 1 + length ds))"
    using digit_loop_ok[of "ucast radix" "value" "replicate 64 None" "[Some NUL]" 1 "unat bufsize"] l assms(1)
    by (simp add: rx ds_def Let_def del: replicate.simps)
  have cond: "(radix < 2 \<or> radix > 36 \<or> unat width \<ge> UINT64_TO_STRING_MAX) = False"
    using assms(1-3) by (simp add: word_less_nat_alt UINT64_TO_STRING_MAX_def)
  show ?thesis
  proof (cases "1 + length ds > unat bufsize")
    case True
    then show ?thesis unfolding str_def[symmetric] Uint64ToString_def Let_def UINT64_TO_STRING_MAX_def
      using dl b0 iw cond by (simp add: str UINT64_TO_STRING_MAX_def del: replicate.simps)
  next
    case False
    have pl: "pad_loop (replicate (64 - length ds) None @ map Some ds @ [Some NUL]) (64 - length ds) (1 + length ds)
        (unat bufsize) (unat width) =
      Some (if 1 + length ds + k > unat bufsize then None
        else Some (replicate (64 - length str) None @ map Some str @ [Some NUL], 64 - length str, 1 + length str))"
    proof -
      have kk: "unat width + 1 - (1 + length ds) = k" "k \<le> 64 - length ds" using assms(3) by (simp_all add: k_def)
      have "64 - length ds - k = 64 - length str" "1 + length ds + k = 1 + length str" by (simp_all add: str)
      with pad_loop_ok[of "unat width" "1 + length ds" "replicate (64 - length ds) None" "unat bufsize"
          "map Some ds @ [Some NUL]"] False kk show ?thesis
        by (simp add: str Let_def del: One_nat_def)
    qed
    show ?thesis
    proof (cases "1 + length ds + k > unat bufsize")
      case True
      then show ?thesis unfolding str_def[symmetric] Uint64ToString_def Let_def UINT64_TO_STRING_MAX_def
        using dl pl False b0 iw cond by (simp add: str UINT64_TO_STRING_MAX_def del: replicate.simps)
    next
      case fits: False
      have ls: "length str \<le> 64" using l assms(3) by (simp add: str k_def)
      have rd: "mem_read (replicate (64 - length str) None @ map Some str @ [Some NUL]) (64 - length str)
          (1 + length str) = Some (map Some str @ [Some NUL])"
        using ls by (simp add: mem_read_def)
      have wr: "mem_write (buf[0 := Some NUL]) 0 (map Some str @ [Some NUL]) =
          Some (map Some str @ Some NUL # drop (length str + 1) buf)"
        using fits assms(4) by (simp add: mem_write_def str)
      have lt: "length str < unat bufsize" using fits by (simp add: str)
      show ?thesis unfolding str_def[symmetric] Uint64ToString_def Let_def
        using dl pl False fits b0 iw cond rd wr lt
        by (simp add: UINT64_TO_STRING_MAX_def del: replicate.simps)
    qed
  qed
qed

lemma Uint64ToString_correct_witness:
  "Uint64ToString (Some (replicate 6 None)) 6 5 2 4 = Some (4, Some (map Some ''0101'' @ [Some NUL, None]))"
proof -
  have f: "formatted 2 4 5 = ''0101''" by code_simp
  have h: "2 \<le> unat (2 :: u32)" "unat (2 :: u32) \<le> 36" "unat (4 :: u32) < 65"
    "unat (6 :: u32) \<le> length (replicate 6 (None :: char option))" "0 < (6 :: u32)" by simp_all
  have u: "unat (2 :: u32) = 2" "unat (4 :: u32) = 4" "unat (6 :: u32) = 6" "unat (5 :: u64) = 5"
    by simp_all
  have l: "length ''0101'' < 6" "length ''0101'' = 4" "drop (4 + 1) (replicate 6 (None :: char option)) = [None]"
    by simp_all
  show ?thesis
    using Uint64ToString_correct[OF h, of 5] unfolding u f Let_def l by simp
qed

subsection \<open>Readers and writers\<close>

text \<open>A sequence of reads by their lengths; the bytes of each, \<open>NULL\<close> once there was an overrun.\<close>

fun run_reads :: "u8 list \<Rightarrow> memcpy_state \<Rightarrow> u64 list \<Rightarrow> (memcpy_state \<times> u8 list ptr list) option" where
  "run_reads mem state [] = Some (state, [])"
| "run_reads mem state (len # lens) = do {
     (state, dst) \<leftarrow> StatefulMemcpy mem state len;
     (state, rest) \<leftarrow> run_reads mem state lens;
     Some (state, dst # rest) }"

text \<open>The consecutive slices of a buffer.\<close>

fun slices :: "u8 list \<Rightarrow> nat list \<Rightarrow> u8 list list" where
  "slices mem [] = []"
| "slices mem (n # ns) = take n mem # slices (drop n mem) ns"

definition state_at :: "u8 list \<Rightarrow> memcpy_state \<Rightarrow> nat \<Rightarrow> bool" where
  "state_at mem state off \<longleftrightarrow> remaining_buf state = off \<and> off + unat (remaining_len state) \<le> length mem \<and>
     \<not> overrun state"

lemma StatefulMemcpy_ok:
  assumes "state_at mem state off" and "unat len \<le> unat (remaining_len state)"
  shows "StatefulMemcpy mem state len = Some (advance state len, Some (take (unat len) (drop off mem)))"
    and "state_at mem (advance state len) (off + unat len)"
  using assms by (auto simp: state_at_def StatefulMemcpy_def advance_def mem_read_def word_less_nat_alt unat_sub word_le_nat_alt)

lemma StatefulMemcpy_overrun:
  assumes "state_at mem state off" and "\<not> unat len \<le> unat (remaining_len state)"
  shows "StatefulMemcpy mem state len = Some (state\<lparr>overrun := True\<rparr>, None)"
  using assms by (auto simp: state_at_def StatefulMemcpy_def word_less_nat_alt)

lemma run_reads_sticky: "overrun state \<Longrightarrow> run_reads mem state lens = Some (state, map (\<lambda>_. None) lens)"
  by (induction lens) (simp_all add: StatefulMemcpy_def)

lemma run_reads_ok:
  "state_at mem state off \<Longrightarrow> \<exists>state' out. run_reads mem state lens = Some (state', out) \<and>
    (overrun state' \<longleftrightarrow> sum_list (map unat lens) > unat (remaining_len state)) \<and>
    (\<not> overrun state' \<longrightarrow> unat (remaining_len state') = unat (remaining_len state) - sum_list (map unat lens) \<and>
      out = map Some (slices (drop off mem) (map unat lens)))"
proof (induction lens arbitrary: state off)
  case Nil
  then show ?case by (auto simp: state_at_def)
next
  case (Cons len lens)
  show ?case
  proof (cases "unat len \<le> unat (remaining_len state)")
    case True
    note ok = StatefulMemcpy_ok[OF Cons.prems True]
    have r: "unat (remaining_len (advance state len)) = unat (remaining_len state) - unat len"
      using True by (simp add: advance_def unat_sub word_le_nat_alt)
    from Cons.IH[OF ok(2)] obtain state' out where
      "run_reads mem (advance state len) lens = Some (state', out)"
      "overrun state' \<longleftrightarrow> sum_list (map unat lens) > unat (remaining_len state) - unat len"
      "\<not> overrun state' \<longrightarrow> unat (remaining_len state') = unat (remaining_len state) - unat len - sum_list (map unat lens) \<and>
        out = map Some (slices (drop (off + unat len) mem) (map unat lens))" by (auto simp: r)
    with ok(1) True show ?thesis by (auto simp: add.commute)
  next
    case False
    then show ?thesis using StatefulMemcpy_overrun[OF Cons.prems False] by (simp add: run_reads_sticky)
  qed
qed

text \<open>Any sequence of \<open>StatefulMemcpy\<close> calls on a buffer stays inside it; an overrun is reported
  exactly when the lengths add up to more than the buffer, as naturals without wrap-around, and
  otherwise the calls deliver the consecutive parts of the buffer and account for the rest.\<close>

theorem stateful_reads_correct:
  assumes "unat len \<le> length mem"
  shows "\<exists>state out. run_reads mem (StatefulInit len) lens = Some (state, out) \<and>
    (overrun state \<longleftrightarrow> sum_list (map unat lens) > unat len) \<and>
    (\<not> overrun state \<longrightarrow> unat (remaining_len state) = unat len - sum_list (map unat lens) \<and>
      out = map Some (slices mem (map unat lens)))"
  using run_reads_ok[of mem "StatefulInit len" 0 lens] assms by (simp add: state_at_def StatefulInit_def)

lemma stateful_reads_correct_witness:
  "\<exists>state. run_reads [1, 2, 3, 4] (StatefulInit 4) [1, 2] = Some (state, [Some [1], Some [2, 3]]) \<and>
    unat (remaining_len state) = 1"
  using stateful_reads_correct[of 4 "[1, 2, 3, 4]" "[1, 2]"] by auto

end
