(* ===== verification/Crc8.thy ===== *)
theory Crc8
  imports VbootUtil
begin

text \<open>
  The CRC of \<open>package/vboot_utils/src/firmware/lib/crc8.c\<close>: a 32-bit register whose bits 8 to 15
  hold the remainder, shown equal to the division in 8 bits and to detect every change of a byte.
\<close>

subsection \<open>The routine\<close>

fun crc8_bits :: "nat \<Rightarrow> u32 \<Rightarrow> u32" where
  "crc8_bits 0 crc = crc"
| "crc8_bits (Suc i) crc =
     (let crc = (if crc AND 0x8000 \<noteq> 0 then crc XOR push_bit 3 0x1070 else crc) in
       crc8_bits i (push_bit 1 crc))"

fun crc8_loop :: "nat \<Rightarrow> u8 list \<Rightarrow> u32 \<Rightarrow> u32 option" where
  "crc8_loop 0 data crc = Some crc"
| "crc8_loop (Suc j) (d # data) crc = crc8_loop j data (crc8_bits 8 (crc XOR push_bit 8 (ucast d)))"
| "crc8_loop (Suc j) [] crc = None"

definition Crc8 :: "u8 list \<Rightarrow> nat \<Rightarrow> u8 option" where
  "Crc8 vptr len = do { crc \<leftarrow> crc8_loop len vptr 0; Some (ucast (drop_bit 8 crc)) }"

subsection \<open>The remainder\<close>

text \<open>The remainder in its 8 bits: one step of the division by \<open>x^8 + x^2 + x + 1\<close>.\<close>

definition crc_step :: "u8 \<Rightarrow> u8" where
  "crc_step c = (if bit c 7 then push_bit 1 c XOR 7 else push_bit 1 c)"

definition crc_unstep :: "u8 \<Rightarrow> u8" where
  "crc_unstep c = (if bit c 0 then drop_bit 1 (c XOR 7) OR 0x80 else drop_bit 1 c)"

lemma all_bytes:
  assumes "\<forall>n \<in> set [0..<256]. P (of_nat n :: u8)"
  shows "P c"
proof -
  have "unat c < 256" using unsigned_less[of c] by simp
  then have "unat c \<in> set [0..<256]" by simp
  with assms have "P (of_nat (unat c))" by blast
  then show ?thesis by simp
qed

lemma crc_unstep_step: "crc_unstep (crc_step c) = c"
  by (rule all_bytes) code_simp

text \<open>A step on the 32-bit register whose upper byte of 16 bits is the remainder.\<close>

lemma crc_bit_step:
  "(let crc = (if push_bit 8 (ucast c) AND (0x8000 :: u32) \<noteq> 0 then push_bit 8 (ucast c) XOR push_bit 3 0x1070
      else push_bit 8 (ucast c)) in push_bit 1 crc) = (push_bit 8 (ucast (crc_step c)) :: u32)"
  by (rule all_bytes[of _ c]) code_simp

lemma crc8_bits_ok: "crc8_bits n (push_bit 8 (ucast c)) = push_bit 8 (ucast ((crc_step ^^ n) c))"
proof (induction n arbitrary: c)
  case (Suc n)
  have "crc8_bits (Suc n) (push_bit 8 (ucast c)) = crc8_bits n (push_bit 8 (ucast (crc_step c)))"
    unfolding crc_bit_step[symmetric] by (simp only: crc8_bits.simps Let_def)
  with Suc show ?case by (simp add: funpow_swap1)
qed simp

text \<open>A byte of data goes through eight steps of the division.\<close>

definition crc_byte :: "u8 \<Rightarrow> u8 \<Rightarrow> u8" where
  "crc_byte d c = (crc_step ^^ 8) (c XOR d)"

lemma crc8_loop_ok:
  "n \<le> length data \<Longrightarrow> crc8_loop n data (push_bit 8 (ucast c)) = Some (push_bit 8 (ucast (fold crc_byte (take n data) c)))"
proof (induction n arbitrary: data c)
  case (Suc n)
  then obtain d ds where d: "data = d # ds" by (cases data) auto
  have "(push_bit 8 (ucast c) XOR push_bit 8 (ucast d) :: u32) = push_bit 8 (ucast (c XOR d))"
    by (simp add: push_bit_xor unsigned_xor_eq)
  with Suc d show ?case by (simp add: crc8_bits_ok crc_byte_def del: crc8_bits.simps)
qed simp

lemma Crc8_fold: "n \<le> length data \<Longrightarrow> Crc8 data n = Some (fold crc_byte (take n data) 0)"
proof -
  assume n: "n \<le> length data"
  have d: "ucast (drop_bit 8 (push_bit 8 (ucast (c :: u8)) :: u32)) = c" for c
    by (rule all_bytes[of _ c]) code_simp
  from crc8_loop_ok[OF n, of 0] show ?thesis by (simp add: Crc8_def d)
qed

lemma crc_step_funpow_inject: "(crc_step ^^ n) a = (crc_step ^^ n) b \<longleftrightarrow> a = b"
proof (induction n)
  case (Suc n)
  have "crc_step x = crc_step y \<longleftrightarrow> x = y" for x y by (metis crc_unstep_step)
  with Suc show ?case by simp
qed simp

lemma crc_byte_inject: "crc_byte d c = crc_byte d' c' \<longleftrightarrow> c XOR d = c' XOR d'"
  by (simp add: crc_byte_def crc_step_funpow_inject)

lemma fold_crc_inject: "fold crc_byte ds a = fold crc_byte ds b \<longleftrightarrow> a = b"
proof (induction ds arbitrary: a b)
  case (Cons d ds)
  have "a XOR d = b XOR d \<longleftrightarrow> a = b" by (metis xor.assoc xor.right_neutral xor_self_eq)
  with Cons show ?case by (simp add: crc_byte_inject)
qed simp

subsection \<open>Properties\<close>

text \<open>The CRC of \<open>len\<close> bytes is the remainder of the division by \<open>x^8 + x^2 + x + 1\<close>, byte by
  byte from 0, and two inputs of the same length that differ in one byte only have different CRCs.\<close>

theorem Crc8_detects_byte:
  assumes "a \<noteq> b"
  shows "Crc8 (xs @ a # ys) (length (xs @ a # ys)) = Some (fold crc_byte (xs @ a # ys) 0) \<and>
    Crc8 (xs @ a # ys) (length (xs @ a # ys)) \<noteq> Crc8 (xs @ b # ys) (length (xs @ b # ys))"
proof -
  have "c XOR a = c XOR b \<longleftrightarrow> a = b" for c :: u8
    by (metis xor.assoc xor.left_neutral xor_self_eq)
  with assms have "crc_byte a c \<noteq> crc_byte b c" for c by (simp add: crc_byte_inject)
  moreover have "Crc8 (xs @ x # ys) (length (xs @ x # ys)) = Some (fold crc_byte (xs @ x # ys) 0)" for x
    using Crc8_fold[of "length (xs @ x # ys)" "xs @ x # ys"] by (simp only: take_all order_refl)
  ultimately show ?thesis by (simp add: fold_crc_inject del: length_append list.size)
qed

lemma Crc8_detects_byte_witness: "Crc8 [1, 2, 3] 3 \<noteq> Crc8 [1, 6, 3] 3"
proof -
  have "(2 :: u8) \<noteq> 6" by simp
  from Crc8_detects_byte[OF this, of "[1]" "[3]"] show ?thesis 
    by (auto simp: eval_nat_numeral)
qed

end
