(* ===== verification/ShaCore.thy ===== *)
theory ShaCore
  imports VbootUtil
begin

text \<open>
  What the hash functions of \<open>package/vboot_utils/src/firmware/lib/cryptolib\<close> share: the
  folding of a compression function over the blocks of a message, the padding of FIPS 180, and the
  contract of an incremental hash. The routines of \<open>sha256.c\<close> and \<open>sha512.c\<close>, which are the same
  text for two word sizes, are here once, with the block size and the compression as arguments.
\<close>

named_theorems md_facts \<open>blocks of a message\<close>

subsection \<open>Blocks\<close>

definition nth_block :: "nat \<Rightarrow> u8 list \<Rightarrow> nat \<Rightarrow> u8 list" where
  "nth_block bs m i = take bs (drop (i * bs) m)"

text \<open>The compression of the first \<open>n\<close> blocks of a message.\<close>

definition md_fold :: "('h \<Rightarrow> u8 list \<Rightarrow> 'h) \<Rightarrow> nat \<Rightarrow> 'h \<Rightarrow> nat \<Rightarrow> u8 list \<Rightarrow> 'h" where
  "md_fold compress bs h n m = fold (\<lambda>i h. compress h (nth_block bs m i)) [0..<n] h"

lemma md_fold_0 [simp]: "md_fold compress bs h 0 m = h"
  by (simp add: md_fold_def)

lemma md_fold_Suc: "md_fold compress bs h (Suc n) m = compress (md_fold compress bs h n m) (nth_block bs m n)"
  by (simp add: md_fold_def)

lemma nth_block_app [md_facts]: "(i + 1) * bs \<le> length m \<Longrightarrow> nth_block bs (m @ d) i = nth_block bs m i"
  by (simp add: nth_block_def)

lemma nth_block_drop [md_facts]: "nth_block bs (drop (n * bs) m) i = nth_block bs m (n + i)"
  by (simp add: nth_block_def algebra_simps)

lemma md_fold_app [md_facts]: "n * bs \<le> length m \<Longrightarrow> md_fold compress bs h n (m @ d) = md_fold compress bs h n m"
proof (induction n)
  case (Suc n)
  then show ?case by (simp add: md_fold_Suc nth_block_app)
qed simp

lemma md_fold_add [md_facts]:
  "md_fold compress bs (md_fold compress bs h n m) k (drop (n * bs) m) = md_fold compress bs h (n + k) m"
  by (induction k) (simp_all add: md_fold_Suc nth_block_drop)

subsection \<open>The padding\<close>

text \<open>Big-endian bytes of a number.\<close>

definition be_bytes :: "nat \<Rightarrow> nat \<Rightarrow> u8 list" where
  "be_bytes n v = rev (map (\<lambda>i. of_nat (v div 256 ^ i)) [0..<n])"

lemma be_bytes_length [simp]: "length (be_bytes n v) = n"
  by (simp add: be_bytes_def)

text \<open>
  A one bit, zeros, and the length in bits in \<open>lb\<close> bytes, up to a multiple of the block size.
\<close>

definition fips_pad :: "nat \<Rightarrow> nat \<Rightarrow> u8 list \<Rightarrow> u8 list" where
  "fips_pad bs lb m = m @ 0x80 # replicate ((bs - (length m + 1 + lb) mod bs) mod bs) 0 @ be_bytes lb (8 * length m)"

definition fips_hash :: "('h \<Rightarrow> u8 list \<Rightarrow> 'h) \<Rightarrow> ('h \<Rightarrow> u8 list) \<Rightarrow> 'h \<Rightarrow> nat \<Rightarrow> nat \<Rightarrow> u8 list \<Rightarrow> u8 list" where
  "fips_hash compress out h0 bs lb m =
     (let p = fips_pad bs lb m in out (md_fold compress bs h0 (length p div bs) p))"

subsection \<open>The contract of an incremental hash\<close>

text \<open>
  \<open>absorbed s m\<close>: the context \<open>s\<close> has seen the message \<open>m\<close>. An update extends it, the end of a
  computation returns the hash of it; \<open>fits\<close> bounds the length of what an update may add.
\<close>

locale incremental_hash =
  fixes absorbed :: "'s \<Rightarrow> u8 list \<Rightarrow> bool"
    and init :: 's
    and update :: "'s \<Rightarrow> u8 list \<Rightarrow> 's option"
    and fin :: "'s \<Rightarrow> u8 list option"
    and hash :: "u8 list \<Rightarrow> u8 list"
    and fits :: "nat \<Rightarrow> bool"
  assumes init_law: "absorbed init []"
    and update_law: "absorbed s m \<Longrightarrow> fits (length d) \<Longrightarrow> \<exists>s'. update s d = Some s' \<and> absorbed s' (m @ d)"
    and fin_law: "absorbed s m \<Longrightarrow> fits (length m) \<Longrightarrow> fin s = Some (hash m)"
begin

lemma updates_ok:
  "absorbed s m \<Longrightarrow> \<forall>d \<in> set ds. fits (length d) \<Longrightarrow>
    \<exists>s'. for_each ds (\<lambda>d s. update s d) s = Some s' \<and> absorbed s' (m @ concat ds)"
proof (induction ds arbitrary: s m)
  case (Cons d ds)
  from update_law[OF Cons.prems(1), of d] Cons.prems(2) obtain s1 where
    "update s d = Some s1" "absorbed s1 (m @ d)" by auto
  with Cons.IH[of s1 "m @ d"] Cons.prems(2) show ?case by auto
qed simp

lemma chunks_hash:
  "\<forall>d \<in> set ds. fits (length d) \<Longrightarrow> fits (length (concat ds)) \<Longrightarrow>
    do { s \<leftarrow> for_each ds (\<lambda>d s. update s d) init; fin s } = Some (hash (concat ds))"
  using updates_ok[OF init_law] fin_law by force

end

subsection \<open>Words and bytes\<close>

definition ROTR :: "'a::len word \<Rightarrow> nat \<Rightarrow> 'a word" where
  "ROTR x n = drop_bit n x OR push_bit (LENGTH('a) - n) x"

definition CH :: "'a::len word \<Rightarrow> 'a word \<Rightarrow> 'a word \<Rightarrow> 'a word" where
  "CH x y z = (x AND y) XOR (NOT x AND z)"

definition MAJ :: "'a::len word \<Rightarrow> 'a word \<Rightarrow> 'a word \<Rightarrow> 'a word" where
  "MAJ x y z = (x AND y) XOR (x AND z) XOR (y AND z)"

definition UNPACK32 :: "u32 \<Rightarrow> u8 list" where
  "UNPACK32 x = [ucast (drop_bit 24 x), ucast (drop_bit 16 x), ucast (drop_bit 8 x), ucast x]"

definition PACK32 :: "u8 list \<Rightarrow> nat \<Rightarrow> u32" where
  "PACK32 str i = ucast (str ! (i + 3)) OR push_bit 8 (ucast (str ! (i + 2))) OR
     push_bit 16 (ucast (str ! (i + 1))) OR push_bit 24 (ucast (str ! i))"

definition UNPACK64 :: "u64 \<Rightarrow> u8 list" where
  "UNPACK64 x = [ucast (drop_bit 56 x), ucast (drop_bit 48 x), ucast (drop_bit 40 x), ucast (drop_bit 32 x),
     ucast (drop_bit 24 x), ucast (drop_bit 16 x), ucast (drop_bit 8 x), ucast x]"

definition PACK64 :: "u8 list \<Rightarrow> nat \<Rightarrow> u64" where
  "PACK64 str i = ucast (str ! (i + 7)) OR push_bit 8 (ucast (str ! (i + 6))) OR
     push_bit 16 (ucast (str ! (i + 5))) OR push_bit 24 (ucast (str ! (i + 4))) OR
     push_bit 32 (ucast (str ! (i + 3))) OR push_bit 40 (ucast (str ! (i + 2))) OR
     push_bit 48 (ucast (str ! (i + 1))) OR push_bit 56 (ucast (str ! i))"

lemma UNPACK_length [simp]: "length (UNPACK32 x) = 4" "length (UNPACK64 y) = 8"
  by (simp_all add: UNPACK32_def UNPACK64_def)

lemma ucast_drop_byte: "(ucast (drop_bit n (of_nat v :: u32)) :: u8) = of_nat (v div 2 ^ n)" if "n \<le> 24"
  unfolding drop_bit_eq_div[symmetric] by (rule bit_word_eqI) (use that in \<open>auto simp: bit_simps\<close>)

lemma UNPACK32_be: "UNPACK32 (of_nat v) = be_bytes 4 v"
proof -
  have "[0..<4] = [0, 1, 2, 3 :: nat]" by (simp add: eval_nat_numeral)
  then show ?thesis
    using ucast_drop_byte[of 24 v] ucast_drop_byte[of 16 v] ucast_drop_byte[of 8 v] ucast_drop_byte[of 0 v]
    by (simp add: UNPACK32_def be_bytes_def)
qed

text \<open>Leading zero bytes of a number.\<close>

lemma be_bytes_zeros: "v < 256 ^ n \<Longrightarrow> be_bytes (k + n) v = replicate k 0 @ be_bytes n v"
proof (induction k)
  case (Suc k)
  have "256 ^ n \<le> (256 :: nat) ^ (k + n)" by simp
  with Suc.prems have "v < 256 ^ (k + n)" by linarith
  then have "v div 256 ^ (k + n) = 0" by simp
  with Suc show ?case by (simp add: be_bytes_def)
qed simp

end
