(* ===== verification/Sha1.thy ===== *)
theory Sha1
  imports ShaCore
begin

text \<open>
  SHA-1 as \<open>sha1.c\<close> of \<open>package/vboot_utils/src/firmware/lib/cryptolib\<close> has it, in both of its
  versions: the portable one, and the one for little-endian machines (the \<open>_le\<close> names), which
  fuses the schedule with the rounds, renames the working variables instead of moving them and
  copies whole pieces of the input. Both are shown to be the same function, and it to be the
  hash of FIPS 180. The union of bytes and words of the second version is its bytes; its words
  are read from them.
\<close>

record sha1_ctx =
  sha1_count :: u64
  sha1_state :: "u32 list"
  sha1_buf :: "u8 list"

subsection \<open>The portable version\<close>

definition rol :: "nat \<Rightarrow> u32 \<Rightarrow> u32" where
  "rol bits x = push_bit bits x OR drop_bit (32 - bits) x"

definition sha1_schedule :: "u8 list \<Rightarrow> u32 list" where
  "sha1_schedule p =
     fold (\<lambda>t W. W @ [rol 1 (W ! (t - 3) XOR W ! (t - 8) XOR W ! (t - 14) XOR W ! (t - 16))]) [16..<80]
       (map (\<lambda>t. PACK32 p (4 * t)) [0..<16])"

definition sha1_f :: "nat \<Rightarrow> u32 \<Rightarrow> u32 \<Rightarrow> u32 \<Rightarrow> u32" where
  "sha1_f t B C D =
     (if t < 20 then D XOR (B AND (C XOR D))
      else if t < 40 then B XOR C XOR D
      else if t < 60 then (B AND C) OR (D AND (B OR C))
      else B XOR C XOR D)"

definition sha1_k :: "nat \<Rightarrow> u32" where
  "sha1_k t =
     (if t < 20 then 0x5A827999 else if t < 40 then 0x6ED9EBA1
      else if t < 60 then 0x8F1BBCDC else 0xCA62C1D6)"

text \<open>The working variables \<open>A\<close> to \<open>E\<close> are the list of their values.\<close>

definition sha1_round :: "u32 list \<Rightarrow> nat \<Rightarrow> u32 list \<Rightarrow> u32 list" where
  "sha1_round W t v =
     (let tmp = rol 5 (v ! 0) + v ! 4 + W ! t + (sha1_f t (v ! 1) (v ! 2) (v ! 3) + sha1_k t)
      in [tmp, v ! 0, rol 30 (v ! 1), v ! 2, v ! 3])"

definition sha1_block :: "u32 list \<Rightarrow> u8 list \<Rightarrow> u32 list" where
  "sha1_block h p = map2 (+) h (fold (sha1_round (sha1_schedule p)) [0..<80] h)"

definition SHA1_transform :: "sha1_ctx \<Rightarrow> sha1_ctx" where
  "SHA1_transform ctx = ctx\<lparr>sha1_state := sha1_block (sha1_state ctx) (sha1_buf ctx)\<rparr>"

text \<open>The loop over the bytes; both versions have it, around their own transformation.\<close>

fun sha1_bytes :: "(sha1_ctx \<Rightarrow> sha1_ctx) \<Rightarrow> nat \<Rightarrow> u8 list \<Rightarrow> nat \<Rightarrow> sha1_ctx \<Rightarrow> sha1_ctx option" where
  "sha1_bytes transform 0 p i ctx = Some ctx"
| "sha1_bytes transform (Suc len) [] i ctx = None"
| "sha1_bytes transform (Suc len) (b # p) i ctx = do {
     buf' \<leftarrow> mem_write (sha1_buf ctx) i [b];
     let ctx = ctx\<lparr>sha1_buf := buf'\<rparr>;
     if i + 1 = 64 then sha1_bytes transform len p 0 (transform ctx)
     else sha1_bytes transform len p (i + 1) ctx }"

definition SHA1_update :: "sha1_ctx \<Rightarrow> u8 list \<Rightarrow> u64 \<Rightarrow> sha1_ctx option" where
  "SHA1_update ctx data len =
     (let i = unat (sha1_count ctx mod 64)
      in sha1_bytes SHA1_transform (unat len) data i (ctx\<lparr>sha1_count := sha1_count ctx + len\<rparr>))"

text \<open>The padding, through the updates of a version.\<close>

partial_function (option) sha1_pad :: "(sha1_ctx \<Rightarrow> u8 list \<Rightarrow> u64 \<Rightarrow> sha1_ctx option) \<Rightarrow> sha1_ctx \<Rightarrow> sha1_ctx option" where
  "sha1_pad update ctx =
     (if sha1_count ctx mod 64 \<noteq> 64 - 8
      then do { ctx \<leftarrow> update ctx [0] 1; sha1_pad update ctx }
      else Some ctx)"

definition sha1_finish :: "(sha1_ctx \<Rightarrow> u8 list \<Rightarrow> u64 \<Rightarrow> sha1_ctx option) \<Rightarrow> sha1_ctx \<Rightarrow> sha1_ctx option" where
  "sha1_finish update ctx = do {
     let cnt = push_bit 3 (sha1_count ctx);
     ctx \<leftarrow> update ctx [0x80] 1;
     ctx \<leftarrow> sha1_pad update ctx;
     for_each [0..<8] (\<lambda>i ctx. update ctx [ucast (drop_bit ((7 - i) * 8) cnt)] 1) ctx }"

text \<open>The digest is written over the buffer, which is what the function returns.\<close>

definition SHA1_final :: "sha1_ctx \<Rightarrow> u8 list option" where
  "SHA1_final ctx = do {
     ctx \<leftarrow> sha1_finish SHA1_update ctx;
     mem_write (sha1_buf ctx) 0 (concat (map UNPACK32 (take 5 (sha1_state ctx)))) }"

definition SHA1_init :: "sha1_ctx \<Rightarrow> sha1_ctx" where
  "SHA1_init ctx = ctx\<lparr>sha1_state := [0x67452301, 0xEFCDAB89, 0x98BADCFE, 0x10325476, 0xC3D2E1F0], sha1_count := 0\<rparr>"

definition raw_sha1 :: sha1_ctx where
  "raw_sha1 = \<lparr>sha1_count = 0, sha1_state = replicate 5 0, sha1_buf = replicate 64 0\<rparr>"

definition internal_SHA1 :: "u8 list \<Rightarrow> u64 \<Rightarrow> u8 list option" where
  "internal_SHA1 data len = do {
     ctx \<leftarrow> SHA1_update (SHA1_init raw_sha1) data len;
     p \<leftarrow> SHA1_final ctx;
     mem_read p 0 20 }"

subsection \<open>The little-endian version\<close>

definition ror27 :: "u32 \<Rightarrow> u32" where
  "ror27 val = drop_bit 27 val OR push_bit 5 val"

definition ror2 :: "u32 \<Rightarrow> u32" where
  "ror2 val = drop_bit 2 val OR push_bit 30 val"

definition ror31 :: "u32 \<Rightarrow> u32" where
  "ror31 val = drop_bit 31 val OR push_bit 1 val"

text \<open>A word of the union, and the reversal of its bytes.\<close>

definition buf_w :: "u8 list \<Rightarrow> nat \<Rightarrow> u32" where
  "buf_w b t = ucast (b ! (4 * t)) OR push_bit 8 (ucast (b ! (4 * t + 1))) OR
     push_bit 16 (ucast (b ! (4 * t + 2))) OR push_bit 24 (ucast (b ! (4 * t + 3)))"

definition bswap_32 :: "u32 \<Rightarrow> u32" where
  "bswap_32 x = push_bit 24 (x AND 0xFF) OR push_bit 8 (x AND 0xFF00) OR
     (drop_bit 8 x AND 0xFF00) OR drop_bit 24 x"

text \<open>
  The round macros: \<open>src\<close> is what is assigned to \<open>W[t]\<close>, \<open>f\<close> and \<open>k\<close> the function and the constant,
  the other arguments are the positions the call gives for \<open>A\<close> to \<open>E\<close>.
\<close>

definition SHA_F :: "(u32 list \<Rightarrow> nat \<Rightarrow> u32) \<Rightarrow> (u32 \<Rightarrow> u32 \<Rightarrow> u32 \<Rightarrow> u32) \<Rightarrow> u32 \<Rightarrow>
    nat \<Rightarrow> nat \<Rightarrow> nat \<Rightarrow> nat \<Rightarrow> nat \<Rightarrow> nat \<Rightarrow> u32 list \<times> u32 list \<Rightarrow> u32 list \<times> u32 list" where
  "SHA_F src f k A B C D E t vW =
     (let (v, W) = vW; w = src W t; W = W @ [w];
          v = v[E := v ! E + (ror27 (v ! A) + w + f (v ! B) (v ! C) (v ! D) + k)];
          v = v[B := ror2 (v ! B)]
      in (v, W))"

definition f_choose :: "u32 \<Rightarrow> u32 \<Rightarrow> u32 \<Rightarrow> u32" where
  "f_choose B C D = D XOR (B AND (C XOR D))"

definition f_parity :: "u32 \<Rightarrow> u32 \<Rightarrow> u32 \<Rightarrow> u32" where
  "f_parity B C D = B XOR C XOR D"

definition f_majority :: "u32 \<Rightarrow> u32 \<Rightarrow> u32 \<Rightarrow> u32" where
  "f_majority B C D = (B AND C) OR (D AND (B OR C))"

definition src_buf :: "u8 list \<Rightarrow> u32 list \<Rightarrow> nat \<Rightarrow> u32" where
  "src_buf b W t = bswap_32 (buf_w b t)"

definition src_mix :: "u32 list \<Rightarrow> nat \<Rightarrow> u32" where
  "src_mix W t = ror31 (W ! (t - 3) XOR W ! (t - 8) XOR W ! (t - 14) XOR W ! (t - 16))"

text \<open>A turn of the loops: five calls.\<close>

definition SHA_F5 :: "(u32 list \<Rightarrow> nat \<Rightarrow> u32) \<Rightarrow> (u32 \<Rightarrow> u32 \<Rightarrow> u32 \<Rightarrow> u32) \<Rightarrow> u32 \<Rightarrow> nat
    \<Rightarrow> u32 list \<times> u32 list \<Rightarrow> u32 list \<times> u32 list" where
  "SHA_F5 src f k t vW =
     SHA_F src f k 1 2 3 4 0 (t + 4) (SHA_F src f k 2 3 4 0 1 (t + 3) (SHA_F src f k 3 4 0 1 2 (t + 2)
       (SHA_F src f k 4 0 1 2 3 (t + 1) (SHA_F src f k 0 1 2 3 4 t vW))))"

definition sha1_block_le :: "u32 list \<Rightarrow> u8 list \<Rightarrow> u32 list" where
  "sha1_block_le h b =
     (let vW = (h, []);
          vW = fold (\<lambda>i. SHA_F5 (src_buf b) f_choose 0x5A827999 (5 * i)) [0..<3] vW;
          vW = SHA_F (src_buf b) f_choose 0x5A827999 0 1 2 3 4 15 vW;
          vW = SHA_F src_mix f_choose 0x5A827999 4 0 1 2 3 16 vW;
          vW = SHA_F src_mix f_choose 0x5A827999 3 4 0 1 2 17 vW;
          vW = SHA_F src_mix f_choose 0x5A827999 2 3 4 0 1 18 vW;
          vW = SHA_F src_mix f_choose 0x5A827999 1 2 3 4 0 19 vW;
          vW = fold (\<lambda>i. SHA_F5 src_mix f_parity 0x6ED9EBA1 (5 * i)) [4..<8] vW;
          vW = fold (\<lambda>i. SHA_F5 src_mix f_majority 0x8F1BBCDC (5 * i)) [8..<12] vW;
          vW = fold (\<lambda>i. SHA_F5 src_mix f_parity 0xCA62C1D6 (5 * i)) [12..<16] vW
      in map2 (+) h (fst vW))"

definition SHA1_Transform_le :: "sha1_ctx \<Rightarrow> sha1_ctx" where
  "SHA1_Transform_le ctx = ctx\<lparr>sha1_state := sha1_block_le (sha1_state ctx) (sha1_buf ctx)\<rparr>"

text \<open>The first loop: while more is left than the buffer takes, fill it and transform.\<close>

partial_function (option) sha1_fill :: "nat \<Rightarrow> u8 list \<Rightarrow> nat \<Rightarrow> sha1_ctx \<Rightarrow> (nat \<times> u8 list \<times> nat \<times> sha1_ctx) option" where
  "sha1_fill len p i ctx =
     (if len > 64 - i
      then do {
        bytes \<leftarrow> mem_read p 0 (64 - i);
        buf' \<leftarrow> mem_write (sha1_buf ctx) i bytes;
        sha1_fill (len - (64 - i)) (drop (64 - i) p) 0 (SHA1_Transform_le (ctx\<lparr>sha1_buf := buf'\<rparr>)) }
      else Some (len, p, i, ctx))"

definition SHA1_update_le :: "sha1_ctx \<Rightarrow> u8 list \<Rightarrow> u64 \<Rightarrow> sha1_ctx option" where
  "SHA1_update_le ctx data len = do {
     let i = unat (sha1_count ctx mod 64);
     (len, p, i, ctx) \<leftarrow> sha1_fill (unat len) data i (ctx\<lparr>sha1_count := sha1_count ctx + len\<rparr>);
     sha1_bytes SHA1_Transform_le len p i ctx }"

text \<open>Storing a byte-reversed word in the union stores its bytes from the highest on.\<close>

definition le_bytes :: "u32 \<Rightarrow> u8 list" where
  "le_bytes x = [ucast x, ucast (drop_bit 8 x), ucast (drop_bit 16 x), ucast (drop_bit 24 x)]"

definition SHA1_final_le :: "sha1_ctx \<Rightarrow> u8 list option" where
  "SHA1_final_le ctx = do {
     ctx \<leftarrow> sha1_finish SHA1_update_le ctx;
     mem_write (sha1_buf ctx) 0 (concat (map (\<lambda>x. le_bytes (bswap_32 x)) (take 5 (sha1_state ctx)))) }"

subsection \<open>Both transformations are one\<close>

lemma rotations [simp]: "ror27 x = rol 5 x" "ror2 x = rol 30 x" "ror31 x = rol 1 x"
  by (simp_all add: ror27_def ror2_def ror31_def rol_def or.commute)

lemma bswap_bytes:
  fixes a c d e :: u8
  shows "bswap_32 (ucast a OR push_bit 8 (ucast c) OR push_bit 16 (ucast d) OR push_bit 24 (ucast e)) =
    ucast e OR push_bit 8 (ucast d) OR push_bit 16 (ucast c) OR push_bit 24 (ucast a)" (is "?l = ?r")
proof (rule bit_word_eqI)
  have m: "(0xFF :: u32) = mask 8" "(0xFF00 :: u32) = push_bit 8 (mask 8)"
    by (simp_all add: mask_eq_exp_minus_1 push_bit_eq_mult)
  fix n assume "n < LENGTH(32)"
  then have "n < 32" by simp
  then consider "n < 8" | "8 \<le> n" "n < 16" | "16 \<le> n" "n < 24" | "24 \<le> n" "n < 32" by linarith
  then show "bit ?l n = bit ?r n"
    unfolding m bswap_32_def by cases (auto simp: bit_simps dest: bit_imp_le_length)
qed

lemma bswap_buf_w: "bswap_32 (buf_w b t) = PACK32 b (4 * t)"
  unfolding buf_w_def PACK32_def by (rule bswap_bytes)

lemma le_bytes_bswap: "le_bytes (bswap_32 x) = UNPACK32 x"
proof -
  have m: "(0xFF :: u32) = mask 8" "(0xFF00 :: u32) = push_bit 8 (mask 8)"
    by (simp_all add: mask_eq_exp_minus_1 push_bit_eq_mult)
  have "(ucast (bswap_32 x) :: u8) = ucast (drop_bit 24 x)"
    "(ucast (drop_bit 8 (bswap_32 x)) :: u8) = ucast (drop_bit 16 x)"
    "(ucast (drop_bit 16 (bswap_32 x)) :: u8) = ucast (drop_bit 8 x)"
    "(ucast (drop_bit 24 (bswap_32 x)) :: u8) = ucast x"
    unfolding bswap_32_def m
    by (rule bit_word_eqI; auto simp: bit_simps dest: bit_imp_le_length)+
  then show ?thesis by (simp add: le_bytes_def UNPACK32_def)
qed

text \<open>A round with the variables moved, that also extends the schedule.\<close>

definition fused_round :: "(u32 list \<Rightarrow> nat \<Rightarrow> u32) \<Rightarrow> (u32 \<Rightarrow> u32 \<Rightarrow> u32 \<Rightarrow> u32) \<Rightarrow> u32 \<Rightarrow> nat
    \<Rightarrow> u32 list \<times> u32 list \<Rightarrow> u32 list \<times> u32 list" where
  "fused_round src f k t vW =
     (let (v, W) = vW; w = src W t
      in ([rol 5 (v ! 0) + v ! 4 + w + (f (v ! 1) (v ! 2) (v ! 3) + k), v ! 0, rol 30 (v ! 1), v ! 2, v ! 3], W @ [w]))"

lemma fused_round_length [simp]: "length (fst (fused_round src f k t vW)) = 5"
  by (simp add: fused_round_def Let_def split_beta)

lemma list5: "length xs = 5 \<Longrightarrow> xs = [xs ! 0, xs ! 1, xs ! 2, xs ! 3, xs ! 4]"
  by (intro nth_equalityI) (auto simp: less_Suc_eq eval_nat_numeral)

lemma SHA_F_rotate:
  assumes "length v = 5"
  shows
    "SHA_F src f k 0 1 2 3 4 t (rotate 0 v, W) = map_prod (rotate 1) id (fused_round src f k t (v, W))"
    "SHA_F src f k 4 0 1 2 3 t (rotate 1 v, W) = map_prod (rotate 2) id (fused_round src f k t (v, W))"
    "SHA_F src f k 3 4 0 1 2 t (rotate 2 v, W) = map_prod (rotate 3) id (fused_round src f k t (v, W))"
    "SHA_F src f k 2 3 4 0 1 t (rotate 3 v, W) = map_prod (rotate 4) id (fused_round src f k t (v, W))"
    "SHA_F src f k 1 2 3 4 0 t (rotate 4 v, W) = map_prod id id (fused_round src f k t (v, W))"
proof -
  obtain a b c d e where v: "v = [a, b, c, d, e]" using list5[OF assms] by blast
  note R = v SHA_F_def fused_round_def Let_def eval_nat_numeral rotate1.simps add.commute add.left_commute
  show "SHA_F src f k 0 1 2 3 4 t (rotate 0 v, W) = map_prod (rotate 1) id (fused_round src f k t (v, W))"
    by (simp add: R)
  show "SHA_F src f k 4 0 1 2 3 t (rotate 1 v, W) = map_prod (rotate 2) id (fused_round src f k t (v, W))"
    by (simp add: R)
  show "SHA_F src f k 3 4 0 1 2 t (rotate 2 v, W) = map_prod (rotate 3) id (fused_round src f k t (v, W))"
    by (simp add: R)
  show "SHA_F src f k 2 3 4 0 1 t (rotate 3 v, W) = map_prod (rotate 4) id (fused_round src f k t (v, W))"
    by (simp add: R)
  show "SHA_F src f k 1 2 3 4 0 t (rotate 4 v, W) = map_prod id id (fused_round src f k t (v, W))"
    by (simp add: R)
qed

text \<open>Five calls with the positions rotating, whatever each call's source is.\<close>

lemma SHA_F_five:
  assumes "length (fst vW) = 5"
  shows "SHA_F s4 f k 1 2 3 4 0 (t + 4) (SHA_F s3 f k 2 3 4 0 1 (t + 3) (SHA_F s2 f k 3 4 0 1 2 (t + 2)
      (SHA_F s1 f k 4 0 1 2 3 (t + 1) (SHA_F s0 f k 0 1 2 3 4 t vW)))) =
    fused_round s4 f k (t + 4) (fused_round s3 f k (t + 3) (fused_round s2 f k (t + 2)
      (fused_round s1 f k (t + 1) (fused_round s0 f k t vW))))"
proof -
  have rot: "SHA_F s f k a b c d e u (map_prod (rotate j) id vW') = SHA_F s f k a b c d e u (rotate j (fst vW'), snd vW')"
    for s f k a b c d e u j vW' by (simp add: map_prod_def split_beta)
  have z: "(rotate 0 (fst vW), snd vW) = vW" by simp
  note F = SHA_F_rotate[OF assms] SHA_F_rotate[OF fused_round_length]
  have "SHA_F s4 f k 1 2 3 4 0 (t + 4) (SHA_F s3 f k 2 3 4 0 1 (t + 3) (SHA_F s2 f k 3 4 0 1 2 (t + 2)
      (SHA_F s1 f k 4 0 1 2 3 (t + 1) (SHA_F s0 f k 0 1 2 3 4 t (rotate 0 (fst vW), snd vW))))) =
    fused_round s4 f k (t + 4) (fused_round s3 f k (t + 3) (fused_round s2 f k (t + 2)
      (fused_round s1 f k (t + 1) (fused_round s0 f k t (fst vW, snd vW)))))"
    by (simp only: F rot prod.collapse map_prod.id id_apply)
  then show ?thesis by (simp only: z prod.collapse)
qed

text \<open>The fused rounds of a block by their number.\<close>

definition fused_at :: "u8 list \<Rightarrow> nat \<Rightarrow> u32 list \<times> u32 list \<Rightarrow> u32 list \<times> u32 list" where
  "fused_at b t = fused_round (if t < 16 then src_buf b else src_mix) (sha1_f t) (sha1_k t) t"

lemma fused_at_length: "length (fst vW) = 5 \<Longrightarrow> length (fst (fold (fused_at b) ts vW)) = 5"
  by (induction ts arbitrary: vW) (simp_all add: fused_at_def)

lemma upt_five: "[5 * i..<5 * i + 5] = [5 * i, 5 * i + 1, 5 * i + 2, 5 * i + 3, 5 * i + 4]"
  by (simp add: eval_nat_numeral upt_rec)

lemma fold_five:
  assumes "length (fst vW) = 5" and "a \<le> n"
    and "\<And>t. 5 * a \<le> t \<Longrightarrow> t < 5 * n \<Longrightarrow> fused_at b t = fused_round src f k t"
  shows "fold (\<lambda>i. SHA_F5 src f k (5 * i)) [a..<n] vW = fold (fused_at b) [5 * a..<5 * n] vW"
  using assms(2,3)
proof (induction n rule: dec_induct)
  case (step n)
  have u: "[5 * a..<5 * Suc n] = [5 * a..<5 * n] @ [5 * n..<5 * n + 5]"
    using upt_add_eq_append[of "5 * a" "5 * n" 5] step.hyps by (simp add: add.commute)
  have l: "length (fst (fold (fused_at b) [5 * a..<5 * n] vW)) = 5" by (rule fused_at_length) (rule assms(1))
  have at: "fused_at b (5 * n) = fused_round src f k (5 * n)" "fused_at b (5 * n + 1) = fused_round src f k (5 * n + 1)"
    "fused_at b (5 * n + 2) = fused_round src f k (5 * n + 2)" "fused_at b (5 * n + 3) = fused_round src f k (5 * n + 3)"
    "fused_at b (5 * n + 4) = fused_round src f k (5 * n + 4)"
    using step.hyps by (auto intro!: step.prems)
  have ih: "fold (\<lambda>i. SHA_F5 src f k (5 * i)) [a..<n] vW = fold (fused_at b) [5 * a..<5 * n] vW"
    by (rule step.IH) (use step.prems in simp)
  show ?case using step.hyps
    apply (simp only: u fold_append upt_five fold_simps o_apply upt_Suc_append at ih)
    apply (simp only: SHA_F5_def SHA_F_five[OF l])
    done
qed simp

lemma fused_ranges:
  "t < 15 \<Longrightarrow> fused_at b t = fused_round (src_buf b) f_choose 0x5A827999 t"
  "20 \<le> t \<Longrightarrow> t < 40 \<Longrightarrow> fused_at b t = fused_round src_mix f_parity 0x6ED9EBA1 t"
  "40 \<le> t \<Longrightarrow> t < 60 \<Longrightarrow> fused_at b t = fused_round src_mix f_majority 0x8F1BBCDC t"
  "60 \<le> t \<Longrightarrow> fused_at b t = fused_round src_mix f_parity 0xCA62C1D6 t"
  by (auto simp: fused_at_def sha1_f_def[abs_def] sha1_k_def f_choose_def[abs_def] f_parity_def[abs_def] f_majority_def[abs_def])

lemma fused_ranges_mid:
  "fused_at b 15 = fused_round (src_buf b) f_choose 0x5A827999 15"
  "fused_at b 16 = fused_round src_mix f_choose 0x5A827999 16"
  "fused_at b 17 = fused_round src_mix f_choose 0x5A827999 17"
  "fused_at b 18 = fused_round src_mix f_choose 0x5A827999 18"
  "fused_at b 19 = fused_round src_mix f_choose 0x5A827999 19"
  by (simp_all add: fused_at_def sha1_f_def[abs_def] sha1_k_def f_choose_def[abs_def])

lemma sha1_block_le_fused:
  assumes "length h = 5"
  shows "sha1_block_le h b = map2 (+) h (fst (fold (fused_at b) [0..<80] (h, [])))"
proof -
  have l: "length (fst (fold (fused_at b) ts (h, []))) = 5" for ts by (rule fused_at_length) (simp add: assms)
  define s where "s n = fold (fused_at b) [0..<n] (h, [])" for n
  have app: "fold (fused_at b) [m..<n] (s m) = s n" if "m \<le> n" for m n
    using that by (metis s_def fold_append o_apply upt_add_eq_append le_add_diff_inverse le0)
  have ls: "length (fst (s n)) = 5" for n by (simp add: s_def l)
  have 1: "fold (\<lambda>i. SHA_F5 (src_buf b) f_choose 0x5A827999 (5 * i)) [0..<3] (h, []) = s 15"
    using fold_five[of "(h, [])" 0 3 b] assms fused_ranges(1) by (simp add: s_def)
  have 2: "SHA_F src_mix f_choose 0x5A827999 1 2 3 4 0 19 (SHA_F src_mix f_choose 0x5A827999 2 3 4 0 1 18
      (SHA_F src_mix f_choose 0x5A827999 3 4 0 1 2 17 (SHA_F src_mix f_choose 0x5A827999 4 0 1 2 3 16
        (SHA_F (src_buf b) f_choose 0x5A827999 0 1 2 3 4 15 (s 15))))) = s 20"
  proof -
    have "[15..<20] = [15, 16, 17, 18, 19 :: nat]" using upt_five[of 3] by simp
    with app[of 15 20] show ?thesis
      using SHA_F_five[OF ls[of 15], of src_mix f_choose "0x5A827999" 15 src_mix src_mix src_mix "src_buf b"]
      by (simp add: fused_ranges_mid)
  qed
  have 3: "fold (\<lambda>i. SHA_F5 src_mix f_parity 0x6ED9EBA1 (5 * i)) [4..<8] (s 20) = s 40"
    using fold_five[of "s 20" 4 8 b] ls fused_ranges(2) app[of 20 40] by simp
  have 4: "fold (\<lambda>i. SHA_F5 src_mix f_majority 0x8F1BBCDC (5 * i)) [8..<12] (s 40) = s 60"
    using fold_five[of "s 40" 8 12 b] ls fused_ranges(3) app[of 40 60] by simp
  have 5: "fold (\<lambda>i. SHA_F5 src_mix f_parity 0xCA62C1D6 (5 * i)) [12..<16] (s 60) = s 80"
    using fold_five[of "s 60" 12 16 b] ls fused_ranges(4) app[of 60 80] by simp
  show ?thesis unfolding sha1_block_le_def Let_def 1 2 3 4 5 unfolding s_def ..
qed

text \<open>The schedule, word by word.\<close>

definition sched :: "u8 list \<Rightarrow> nat \<Rightarrow> u32 list" where
  "sched b n = fold (\<lambda>t W. W @ [src_mix W t]) [16..<n] (map (\<lambda>t. PACK32 b (4 * t)) [0..<16])"

lemma sched_80: "sha1_schedule b = sched b 80"
  unfolding sha1_schedule_def sched_def src_mix_def rotations ..

lemma sched_Suc: "16 \<le> n \<Longrightarrow> sched b (Suc n) = sched b n @ [src_mix (sched b n) n]"
  by (simp add: sched_def)

lemma sched_length: "16 \<le> n \<Longrightarrow> length (sched b n) = n"
proof (induction n rule: dec_induct)
  case (step n)
  then show ?case by (simp add: sched_Suc)
qed (simp add: sched_def)

lemma sched_prefix: "16 \<le> n \<Longrightarrow> n \<le> k \<Longrightarrow> take n (sched b k) = sched b n"
proof (induction k)
  case (Suc k)
  then show ?case by (cases "n = Suc k") (simp_all add: sched_length sched_Suc)
qed simp

lemma schedule_nth:
  assumes "t < 80"
  shows "sha1_schedule b ! t = (if t < 16 then src_buf b else src_mix) (take t (sha1_schedule b)) t"
proof (cases "t < 16")
  case True
  have "sha1_schedule b ! t = take 16 (sha1_schedule b) ! t" using True by simp
  also have "take 16 (sha1_schedule b) = sched b 16" unfolding sched_80 by (rule sched_prefix) simp_all
  finally show ?thesis using True by (simp add: sched_def src_buf_def bswap_buf_w)
next
  case False
  then have t: "16 \<le> t" by simp
  have "sha1_schedule b ! t = take (Suc t) (sha1_schedule b) ! t" by simp
  also have "take (Suc t) (sha1_schedule b) = sched b (Suc t)"
    unfolding sched_80 by (rule sched_prefix) (use t assms in simp_all)
  also have "\<dots> ! t = src_mix (sched b t) t" using t by (simp add: sched_Suc nth_append sched_length)
  also have "sched b t = take t (sha1_schedule b)"
    unfolding sched_80 by (rule sched_prefix[symmetric]) (use t assms in simp_all)
  finally show ?thesis using False by simp
qed

lemma fused_fold:
  "n \<le> 80 \<Longrightarrow> fold (fused_at b) [0..<n] (h, []) =
    (fold (sha1_round (sha1_schedule b)) [0..<n] h, take n (sha1_schedule b))"
proof (induction n)
  case (Suc n)
  have "length (sha1_schedule b) = 80" unfolding sched_80 by (simp add: sched_length)
  with Suc show ?case
    using schedule_nth[of n b]
    by (simp add: fused_at_def fused_round_def sha1_round_def Let_def take_Suc_conv_app_nth)
qed simp

lemma sha1_block_le_eq: "length h = 5 \<Longrightarrow> sha1_block_le h b = sha1_block h b"
  by (simp add: sha1_block_le_fused fused_fold sha1_block_def)

lemma sha1_round_length [simp]: "length (sha1_round W t v) = 5"
  by (simp add: sha1_round_def Let_def)

lemma sha1_block_length: "length h = 5 \<Longrightarrow> length (sha1_block h b) = 5"
proof -
  have "length (fold (sha1_round W) ts h) = 5" if "length h = 5" for W ts and h :: "u32 list"
    using that by (induction ts arbitrary: h) auto
  moreover assume "length h = 5"
  ultimately show ?thesis by (simp add: sha1_block_def)
qed

subsection \<open>Updates\<close>

definition sha1_h0 :: "u32 list" where
  "sha1_h0 = [0x67452301, 0xEFCDAB89, 0x98BADCFE, 0x10325476, 0xC3D2E1F0]"

text \<open>The context has hashed the whole blocks of \<open>m\<close> and holds the rest; the count is apart.\<close>

definition sha1_at :: "sha1_ctx \<Rightarrow> u8 list \<Rightarrow> bool" where
  "sha1_at ctx m \<longleftrightarrow>
     sha1_state ctx = md_fold sha1_block 64 sha1_h0 (length m div 64) m \<and> length (sha1_buf ctx) = 64 \<and>
     take (length m mod 64) (sha1_buf ctx) = drop (length m div 64 * 64) m"

definition sha1_absorbed :: "sha1_ctx \<Rightarrow> u8 list \<Rightarrow> bool" where
  "sha1_absorbed ctx m \<longleftrightarrow> sha1_at ctx m \<and> sha1_count ctx = of_nat (length m)"

lemma sha1_state_length: "sha1_at ctx m \<Longrightarrow> length (sha1_state ctx) = 5"
proof -
  have "length (md_fold sha1_block 64 sha1_h0 n m) = 5" for n m
    by (induction n) (simp_all add: md_fold_Suc sha1_h0_def sha1_block_length)
  then show "sha1_at ctx m \<Longrightarrow> length (sha1_state ctx) = 5" by (simp add: sha1_at_def)
qed

lemma sha1_byte:
  assumes at: "sha1_at ctx m"
  obtains buf' where "mem_write (sha1_buf ctx) (length m mod 64) [b] = Some buf'"
    and "length m mod 64 + 1 = 64 \<Longrightarrow> sha1_at (SHA1_transform (ctx\<lparr>sha1_buf := buf'\<rparr>)) (m @ [b]) \<and> length (m @ [b]) mod 64 = 0"
    and "length m mod 64 + 1 \<noteq> 64 \<Longrightarrow> sha1_at (ctx\<lparr>sha1_buf := buf'\<rparr>) (m @ [b]) \<and> length (m @ [b]) mod 64 = length m mod 64 + 1"
proof
  define n r where "n = length m div 64" and "r = length m mod 64"
  have r: "r < 64" "length m = n * 64 + r" by (simp_all add: n_def r_def)
  have c: "sha1_state ctx = md_fold sha1_block 64 sha1_h0 n m" "length (sha1_buf ctx) = 64" "take r (sha1_buf ctx) = drop (n * 64) m"
    using at by (simp_all add: sha1_at_def n_def r_def)
  define buf' where "buf' = take r (sha1_buf ctx) @ b # drop (r + 1) (sha1_buf ctx)"
  show "mem_write (sha1_buf ctx) (length m mod 64) [b] = Some buf'"
    using r c(2) by (simp add: mem_write_def buf'_def r_def[symmetric])
  have lb: "length buf' = 64" using r c(2) by (simp add: buf'_def)
  have tk: "take (r + 1) buf' = drop (n * 64) (m @ [b])" using r c by (simp add: buf'_def)
  have f: "md_fold sha1_block 64 sha1_h0 n (m @ [b]) = md_fold sha1_block 64 sha1_h0 n m"
    by (rule md_fold_app) (simp add: r(2))
  {
    assume "length m mod 64 + 1 = 64"
    then have r63: "r = 63" by (simp add: r_def)
    have lm: "length (m @ [b]) = (n + 1) * 64" using r r63 by simp
    then have d: "length (m @ [b]) div 64 = Suc n" "length (m @ [b]) mod 64 = 0" by simp_all
    have "nth_block 64 (m @ [b]) n = buf'"
      using tk lb lm unfolding nth_block_def r63 by simp
    then have "sha1_state (SHA1_transform (ctx\<lparr>sha1_buf := buf'\<rparr>)) = md_fold sha1_block 64 sha1_h0 (Suc n) (m @ [b])"
      unfolding md_fold_Suc f by (simp add: SHA1_transform_def c(1))
    moreover have "sha1_buf (SHA1_transform (ctx\<lparr>sha1_buf := buf'\<rparr>)) = buf'" by (simp add: SHA1_transform_def)
    moreover have "drop (Suc n * 64) (m @ [b]) = []" by (rule drop_all) (simp only: lm, simp)
    ultimately show "sha1_at (SHA1_transform (ctx\<lparr>sha1_buf := buf'\<rparr>)) (m @ [b]) \<and> length (m @ [b]) mod 64 = 0"
      unfolding sha1_at_def d using lb by (simp only: take_0)
  next
    assume "length m mod 64 + 1 \<noteq> 64"
    then have "r + 1 < 64" using r(1) unfolding r_def[symmetric] by linarith
    then have d: "length (m @ [b]) div 64 = n" "length (m @ [b]) mod 64 = r + 1"
      using r(2) by simp_all
    show "sha1_at (ctx\<lparr>sha1_buf := buf'\<rparr>) (m @ [b]) \<and> length (m @ [b]) mod 64 = length m mod 64 + 1"
      unfolding sha1_at_def d f r_def[symmetric] using tk by (simp add: c(1) lb)
  }
qed

lemma transform_count [simp]: "sha1_count (SHA1_transform ctx) = sha1_count ctx"
  by (simp add: SHA1_transform_def)

lemma sha1_bytes_ok:
  "sha1_at ctx m \<Longrightarrow> n \<le> length p \<Longrightarrow>
    \<exists>ctx'. sha1_bytes SHA1_transform n p (length m mod 64) ctx = Some ctx' \<and>
      sha1_at ctx' (m @ take n p) \<and> sha1_count ctx' = sha1_count ctx"
proof (induction n arbitrary: p m ctx)
  case (Suc n)
  then obtain b p' where p: "p = b # p'" by (cases p) auto
  obtain buf' where w: "mem_write (sha1_buf ctx) (length m mod 64) [b] = Some buf'"
    "length m mod 64 + 1 = 64 \<Longrightarrow> sha1_at (SHA1_transform (ctx\<lparr>sha1_buf := buf'\<rparr>)) (m @ [b]) \<and> length (m @ [b]) mod 64 = 0"
    "length m mod 64 + 1 \<noteq> 64 \<Longrightarrow> sha1_at (ctx\<lparr>sha1_buf := buf'\<rparr>) (m @ [b]) \<and> length (m @ [b]) mod 64 = length m mod 64 + 1"
    using sha1_byte[OF Suc.prems(1)] by metis
  show ?case
  proof (cases "length m mod 64 + 1 = 64")
    case True
    with Suc.IH[of "SHA1_transform (ctx\<lparr>sha1_buf := buf'\<rparr>)" "m @ [b]" p'] w(1,2) Suc.prems(2) p
    show ?thesis by simp
  next
    case False
    with Suc.IH[of "ctx\<lparr>sha1_buf := buf'\<rparr>" "m @ [b]" p'] w(1,3) Suc.prems(2) p
    show ?thesis by simp
  qed
qed simp

lemma count_mod: "unat ((of_nat n :: u64) mod 64) = n mod 64"
  by (simp add: unat_mod unat_of_nat mod_mod_cancel)

lemma SHA1_update_ok:
  assumes "sha1_absorbed ctx m" and "unat len \<le> length data"
  shows "\<exists>ctx'. SHA1_update ctx data len = Some ctx' \<and> sha1_absorbed ctx' (m @ take (unat len) data)"
proof -
  have c: "unat (sha1_count ctx mod 64) = length m mod 64" "sha1_at (ctx\<lparr>sha1_count := sha1_count ctx + len\<rparr>) m"
    using assms(1) by (simp_all add: sha1_absorbed_def sha1_at_def count_mod)
  from sha1_bytes_ok[OF c(2) assms(2)] assms show ?thesis
    by (auto simp: SHA1_update_def count_mod sha1_absorbed_def min_absorb2)
qed

text \<open>The loop that fills the buffer stands for so many turns of the loop over the bytes.\<close>

lemma sha1_bytes_fill:
  "k + i = 64 \<Longrightarrow> 0 < k \<Longrightarrow> k \<le> length p \<Longrightarrow> length (sha1_buf ctx) = 64 \<Longrightarrow>
    sha1_bytes T (k + n) p i ctx =
      sha1_bytes T n (drop k p) 0 (T (ctx\<lparr>sha1_buf := take i (sha1_buf ctx) @ take k p\<rparr>))"
proof (induction k arbitrary: p i ctx)
  case (Suc k)
  then obtain b p' where p: "p = b # p'" by (cases p) auto
  have w: "mem_write (sha1_buf ctx) i [b] = Some (take i (sha1_buf ctx) @ b # drop (i + 1) (sha1_buf ctx))"
    using Suc.prems by (simp add: mem_write_def)
  show ?case
  proof (cases "k = 0")
    case True
    then show ?thesis using Suc.prems w p by simp
  next
    case False
    let ?ctx = "ctx\<lparr>sha1_buf := take i (sha1_buf ctx) @ b # drop (i + 1) (sha1_buf ctx)\<rparr>"
    have t: "take (i + 1) (sha1_buf ?ctx) = take i (sha1_buf ctx) @ [b]" using Suc.prems by simp
    have "sha1_bytes T (k + n) p' (i + 1) ?ctx =
        sha1_bytes T n (drop k p') 0 (T (?ctx\<lparr>sha1_buf := take (i + 1) (sha1_buf ?ctx) @ take k p'\<rparr>))"
      by (rule Suc.IH) (use Suc.prems p False in simp_all)
    then show ?thesis using Suc.prems w p False unfolding t by simp
  qed
qed simp

lemma sha1_fill_ok:
  assumes "sha1_at ctx m" and "n \<le> length p"
  shows "\<exists>len p' i ctx'. sha1_fill n p (length m mod 64) ctx = Some (len, p', i, ctx') \<and>
    sha1_bytes SHA1_transform len p' i ctx' = sha1_bytes SHA1_transform n p (length m mod 64) ctx \<and>
    (\<exists>m'. sha1_at ctx' m' \<and> i = length m' mod 64 \<and> len \<le> length p')"
  using assms
proof (induction n arbitrary: m p ctx rule: less_induct)
  case (less n)
  define i where "i = length m mod 64"
  have i: "i < 64" by (simp add: i_def)
  show ?case
  proof (cases "n > 64 - i")
    case False
    then have "sha1_fill n p i ctx = Some (n, p, i, ctx)" by (subst sha1_fill.simps) simp
    with less.prems show ?thesis by (auto simp: i_def)
  next
    case True
    define k where "k = 64 - i"
    have k: "k + i = 64" "0 < k" "k \<le> length p" "k < n" using i True less.prems(2) by (simp_all add: k_def)
    have b: "length (sha1_buf ctx) = 64" using less.prems(1) by (simp add: sha1_at_def)
    define ctx1 where "ctx1 = SHA1_transform (ctx\<lparr>sha1_buf := take i (sha1_buf ctx) @ take k p\<rparr>)"
    have le: "SHA1_Transform_le (ctx\<lparr>sha1_buf := take i (sha1_buf ctx) @ take k p\<rparr>) = ctx1"
      using sha1_state_length[OF less.prems(1)]
      by (simp add: ctx1_def SHA1_Transform_le_def SHA1_transform_def sha1_block_le_eq)
    have fill: "sha1_fill n p i ctx = sha1_fill (n - k) (drop k p) 0 ctx1"
    proof -
      have "mem_read p 0 k = Some (take k p)" using k by (simp add: mem_read_def)
      moreover have "mem_write (sha1_buf ctx) i (take k p) = Some (take i (sha1_buf ctx) @ take k p)"
        using k b by (simp add: mem_write_def)
      ultimately show ?thesis using True
        by (subst sha1_fill.simps) (simp add: k_def[symmetric] le[simplified])
    qed
    have bytes: "sha1_bytes SHA1_transform n p i ctx = sha1_bytes SHA1_transform (n - k) (drop k p) 0 ctx1"
      using sha1_bytes_fill[OF k(1,2,3) b, of SHA1_transform "n - k"] k(4) by (simp add: ctx1_def)
    have at1: "sha1_at ctx1 (m @ take k p)"
    proof -
      have "sha1_bytes SHA1_transform k p i ctx = Some ctx1"
        using sha1_bytes_fill[OF k(1,2,3) b, of SHA1_transform 0] by (simp add: ctx1_def)
      with sha1_bytes_ok[OF less.prems(1) k(3)] show ?thesis by (simp add: i_def)
    qed
    have "length m = length m div 64 * 64 + i" by (simp add: i_def)
    then have "length (m @ take k p) = length m div 64 * 64 + 64"
      using k by simp
    then have z: "length (m @ take k p) mod 64 = 0" by simp
    have "n - k < n" "n - k \<le> length (drop k p)" using k less.prems(2) by simp_all
    with less.IH[OF this(1) at1 this(2)] z show ?thesis
      unfolding i_def[symmetric] fill bytes by simp
  qed
qed

text \<open>On such contexts the two versions of the byte loop and of an update agree.\<close>

lemma sha1_bytes_le:
  "length (sha1_state ctx) = 5 \<Longrightarrow> sha1_bytes SHA1_Transform_le n p i ctx = sha1_bytes SHA1_transform n p i ctx"
proof (induction n arbitrary: p i ctx)
  case (Suc n)
  have T: "SHA1_Transform_le (ctx\<lparr>sha1_buf := x\<rparr>) = SHA1_transform (ctx\<lparr>sha1_buf := x\<rparr>)"
    "length (sha1_state (SHA1_transform (ctx\<lparr>sha1_buf := x\<rparr>))) = 5" for x
    using Suc.prems by (simp_all add: SHA1_Transform_le_def SHA1_transform_def sha1_block_le_eq sha1_block_length)
  show ?case
  proof (cases p)
    case (Cons b p')
    with Suc T show ?thesis by (cases "mem_write (sha1_buf ctx) i [b]") (simp_all add: Let_def)
  qed simp
qed simp

lemma SHA1_update_le_eq:
  assumes "sha1_absorbed ctx m" and "unat len \<le> length data"
  shows "SHA1_update_le ctx data len = SHA1_update ctx data len"
proof -
  let ?ctx = "ctx\<lparr>sha1_count := sha1_count ctx + len\<rparr>"
  have c: "unat (sha1_count ctx mod 64) = length m mod 64" "sha1_at ?ctx m"
    using assms(1) by (simp_all add: sha1_absorbed_def sha1_at_def count_mod)
  obtain n p i ctx' m' where f: "sha1_fill (unat len) data (length m mod 64) ?ctx = Some (n, p, i, ctx')"
    "sha1_bytes SHA1_transform n p i ctx' = sha1_bytes SHA1_transform (unat len) data (length m mod 64) ?ctx"
    "sha1_at ctx' m'"
    using sha1_fill_ok[OF c(2) assms(2)] by blast
  show ?thesis
    using f sha1_bytes_le[OF sha1_state_length[OF f(3)]] by (simp add: SHA1_update_le_def SHA1_update_def c(1))
qed

subsection \<open>The padding\<close>

text \<open>
  The end of a hash through any update that appends one byte: the bytes of \<open>fips_pad\<close> are appended.
\<close>

definition appends_byte :: "(sha1_ctx \<Rightarrow> u8 list \<Rightarrow> u64 \<Rightarrow> sha1_ctx option) \<Rightarrow> bool" where
  "appends_byte update \<longleftrightarrow>
     (\<forall>ctx m b. sha1_absorbed ctx m \<longrightarrow> (\<exists>ctx'. update ctx [b] 1 = Some ctx' \<and> sha1_absorbed ctx' (m @ [b])))"

lemma appends_byte_updates: "appends_byte SHA1_update" "appends_byte SHA1_update_le"
proof -
  have "\<exists>ctx'. SHA1_update ctx [b] 1 = Some ctx' \<and> sha1_absorbed ctx' (m @ [b])"
    and "SHA1_update_le ctx [b] 1 = SHA1_update ctx [b] 1" if "sha1_absorbed ctx m" for ctx m b
    using SHA1_update_ok[OF that, of 1 "[b]"] SHA1_update_le_eq[OF that, of 1 "[b]"] by simp_all
  then show "appends_byte SHA1_update" "appends_byte SHA1_update_le" by (simp_all add: appends_byte_def)
qed

lemma sha1_pad_ok:
  assumes u: "appends_byte update"
  shows "sha1_absorbed ctx m \<Longrightarrow> k < 64 \<Longrightarrow> (length m + k) mod 64 = 56 \<Longrightarrow>
    \<exists>ctx'. sha1_pad update ctx = Some ctx' \<and> sha1_absorbed ctx' (m @ replicate k 0)"
proof (induction k arbitrary: ctx m)
  case 0
  then have "unat (sha1_count ctx mod 64) = 56" by (simp add: sha1_absorbed_def count_mod)
  then have "sha1_count ctx mod 64 = 64 - 8" by (simp add: word_unat_eq_iff)
  then have "sha1_pad update ctx = Some ctx" by (subst sha1_pad.simps) simp
  with 0 show ?case by simp
next
  case (Suc k)
  from Suc.prems(1) u obtain ctx1 where 1: "update ctx [0] 1 = Some ctx1" "sha1_absorbed ctx1 (m @ [0])"
    unfolding appends_byte_def by blast
  have "length m mod 64 \<noteq> 56"
  proof
    assume "length m mod 64 = 56"
    then have "(56 + Suc k) mod 64 = 56" using Suc.prems(3) by (metis mod_add_left_eq)
    with Suc.prems(2) show False by presburger
  qed
  then have "unat (sha1_count ctx mod 64) \<noteq> 56" using Suc.prems(1) by (simp add: sha1_absorbed_def count_mod)
  then have "sha1_count ctx mod 64 \<noteq> 64 - 8" by (simp add: word_unat_eq_iff)
  then have step: "sha1_pad update ctx = sha1_pad update ctx1" by (subst sha1_pad.simps) (simp add: 1(1))
  from Suc.IH[OF 1(2)] Suc.prems(2,3) show ?case
    by (simp add: step replicate_append_same[symmetric])
qed

lemma bytes_appended:
  assumes u: "appends_byte update"
  shows "sha1_absorbed ctx m \<Longrightarrow>
    \<exists>ctx'. for_each is (\<lambda>i ctx. update ctx [g i] 1) ctx = Some ctx' \<and> sha1_absorbed ctx' (m @ map g is)"
proof (induction "is" arbitrary: ctx m)
  case (Cons i "is")
  from Cons.prems u obtain ctx1 where "update ctx [g i] 1 = Some ctx1" "sha1_absorbed ctx1 (m @ [g i])"
    unfolding appends_byte_def by blast
  with Cons.IH[of ctx1 "m @ [g i]"] show ?case by simp
qed simp

lemma ucast_drop_byte64: "(ucast (drop_bit n (of_nat v :: u64)) :: u8) = of_nat (v div 2 ^ n)" if "n \<le> 56"
  unfolding drop_bit_eq_div[symmetric] by (rule bit_word_eqI) (use that in \<open>auto simp: bit_simps\<close>)

lemma cnt_bytes: "map (\<lambda>i. ucast (drop_bit ((7 - i) * 8) (of_nat v :: u64))) [0..<8] = be_bytes 8 v"
proof -
  have u: "[0..<8] = [0, 1, 2, 3, 4, 5, 6, 7 :: nat]" by (simp add: eval_nat_numeral)
  show ?thesis
    using ucast_drop_byte64[of 56 v] ucast_drop_byte64[of 48 v] ucast_drop_byte64[of 40 v] ucast_drop_byte64[of 32 v]
      ucast_drop_byte64[of 24 v] ucast_drop_byte64[of 16 v] ucast_drop_byte64[of 8 v] ucast_drop_byte64[of 0 v]
    by (simp add: be_bytes_def u)
qed

lemma fill_mod: "0 < b \<Longrightarrow> (n + (b - n mod b) mod b) mod b = (0 :: nat)"
proof (cases "n mod b = 0")
  case False
  assume b: "0 < b"
  then have "n mod b < b" by simp
  with False have "n + (b - n mod b) mod b = (n div b * b + n mod b) + (b - n mod b)" by simp
  also have "\<dots> = n div b * b + b" using \<open>n mod b < b\<close> by linarith
  also have "\<dots> = (n div b + 1) * b" by simp
  finally show ?thesis by (simp only: mod_mult_self2_is_0)
qed simp

lemma before_block_end: "(x + 8) mod 64 = 0 \<Longrightarrow> x mod 64 = (56 :: nat)"
proof -
  assume "(x + 8) mod 64 = 0"
  then have "64 dvd x + 8" by (rule mod_0_imp_dvd)
  then obtain q where q: "x + 8 = 64 * q" ..
  then have "x = 56 + 64 * (q - 1)" by (cases q) simp_all
  then show ?thesis by simp
qed

lemma sha1_finish_ok:
  assumes u: "appends_byte update" and ab: "sha1_absorbed ctx m"
  shows "\<exists>ctx'. sha1_finish update ctx = Some ctx' \<and> sha1_absorbed ctx' (fips_pad 64 8 m)"
proof -
  have cnt: "push_bit 3 (sha1_count ctx) = of_nat (8 * length m)"
    using ab by (simp add: sha1_absorbed_def push_bit_eq_mult)
  from ab u obtain ctx1 where 1: "update ctx [0x80] 1 = Some ctx1" "sha1_absorbed ctx1 (m @ [0x80])"
    unfolding appends_byte_def by blast
  define k where "k = (64 - (length m + 1 + 8) mod 64) mod 64"
  have k: "k < 64" by (simp add: k_def)
  have "(length m + 1 + 8 + k) mod 64 = 0" unfolding k_def by (rule fill_mod) simp
  then have "(length m + 1 + k + 8) mod 64 = 0" by (simp only: ac_simps)
  then have "(length m + 1 + k) mod 64 = 56" by (rule before_block_end)
  then obtain ctx2 where 2: "sha1_pad update ctx1 = Some ctx2" "sha1_absorbed ctx2 (m @ 0x80 # replicate k 0)"
    using sha1_pad_ok[OF u 1(2) k] by auto
  from bytes_appended[OF u 2(2), of "[0..<8]" "\<lambda>i. ucast (drop_bit ((7 - i) * 8) (of_nat (8 * length m) :: u64))"]
  show ?thesis
    unfolding sha1_finish_def cnt Let_def 1(1) 2(1) bind.bind_lunit cnt_bytes fips_pad_def k_def by simp
qed

definition sha1 :: "u8 list \<Rightarrow> u8 list" where
  "sha1 m = fips_hash sha1_block (\<lambda>h. concat (map UNPACK32 h)) sha1_h0 64 8 m"

lemma sha1_digest_length: "length h = 5 \<Longrightarrow> length (concat (map UNPACK32 h)) = 20"
  by (simp add: length_concat comp_def sum_list_triv)

lemma sha1_length [simp]: "length (sha1 m) = 20"
proof -
  have "length (md_fold sha1_block 64 sha1_h0 n p) = 5" for n p
    by (induction n) (simp_all add: md_fold_Suc sha1_h0_def sha1_block_length)
  then show ?thesis by (simp add: sha1_def fips_hash_def Let_def sha1_digest_length)
qed

lemma sha1_final_ok:
  assumes "sha1_absorbed ctx m"
  shows "\<exists>b. SHA1_final ctx = Some b \<and> take 20 b = sha1 m"
    and "\<exists>b. SHA1_final_le ctx = Some b \<and> take 20 b = sha1 m"
proof -
  have fin: "mem_write (sha1_buf c) 0 (concat (map UNPACK32 (take 5 (sha1_state c)))) = Some (sha1 m @ drop 20 (sha1_buf c))"
    if "sha1_absorbed c (fips_pad 64 8 m)" for c
  proof -
    from that have at: "sha1_at c (fips_pad 64 8 m)" by (simp add: sha1_absorbed_def)
    then have s: "concat (map UNPACK32 (take 5 (sha1_state c))) = sha1 m"
      using sha1_state_length[OF at] by (simp add: sha1_at_def sha1_def fips_hash_def Let_def)
    show ?thesis unfolding s mem_write_def using at by (simp add: sha1_at_def)
  qed
  show "\<exists>b. SHA1_final ctx = Some b \<and> take 20 b = sha1 m"
    using sha1_finish_ok[OF appends_byte_updates(1) assms] fin by (auto simp: SHA1_final_def)
  show "\<exists>b. SHA1_final_le ctx = Some b \<and> take 20 b = sha1 m"
    using sha1_finish_ok[OF appends_byte_updates(2) assms] fin by (auto simp: SHA1_final_le_def le_bytes_bswap)
qed

subsection \<open>The hash\<close>

definition len64_fits :: "nat \<Rightarrow> bool" where
  "len64_fits n \<longleftrightarrow> n < 2 ^ 64"

lemma sha1_init_absorbed: "sha1_absorbed (SHA1_init raw_sha1) []"
  by (simp add: sha1_absorbed_def sha1_at_def SHA1_init_def raw_sha1_def sha1_h0_def)

lemma unat_of_nat64: "n < 2 ^ 64 \<Longrightarrow> unat (of_nat n :: u64) = n"
  by (simp add: unat_of_nat)

text \<open>
  The digest is the first 20 bytes of the buffer that the end of a hash returns.
\<close>

definition digest20 :: "u8 list option \<Rightarrow> u8 list option" where
  "digest20 r = do { p \<leftarrow> r; mem_read p 0 20 }"

lemma digest20_final: "sha1_absorbed s m \<Longrightarrow> digest20 (SHA1_final s) = Some (sha1 m)"
  "sha1_absorbed s m \<Longrightarrow> digest20 (SHA1_final_le s) = Some (sha1 m)"
proof -
  have "digest20 (Some b) = Some (sha1 m)" if "take 20 b = sha1 m" for b
  proof -
    have "min (length b) 20 = 20" using arg_cong[OF that, of length] by simp
    with that show ?thesis by (simp add: digest20_def mem_read_def)
  qed
  then show "sha1_absorbed s m \<Longrightarrow> digest20 (SHA1_final s) = Some (sha1 m)"
    "sha1_absorbed s m \<Longrightarrow> digest20 (SHA1_final_le s) = Some (sha1 m)"
    using sha1_final_ok[of s m] by (force simp del: mem_read_def)+
qed

interpretation hash1: incremental_hash sha1_absorbed "SHA1_init raw_sha1"
  "\<lambda>s d. SHA1_update s d (of_nat (length d))" "\<lambda>s. digest20 (SHA1_final s)" sha1 len64_fits
proof
  fix s m d assume "sha1_absorbed s m" "len64_fits (length (d :: u8 list))"
  then show "\<exists>s'. SHA1_update s d (of_nat (length d)) = Some s' \<and> sha1_absorbed s' (m @ d)"
    using SHA1_update_ok[of s m "of_nat (length d)" d] by (simp add: len64_fits_def unat_of_nat64)
qed (simp_all add: sha1_init_absorbed digest20_final)

interpretation hash1_le: incremental_hash sha1_absorbed "SHA1_init raw_sha1"
  "\<lambda>s d. SHA1_update_le s d (of_nat (length d))" "\<lambda>s. digest20 (SHA1_final_le s)" sha1 len64_fits
proof
  fix s m d assume a: "sha1_absorbed s m" "len64_fits (length (d :: u8 list))"
  then have "SHA1_update_le s d (of_nat (length d)) = SHA1_update s d (of_nat (length d))"
    by (intro SHA1_update_le_eq[OF a(1)]) (simp add: len64_fits_def unat_of_nat64)
  with a hash1.update_law show "\<exists>s'. SHA1_update_le s d (of_nat (length d)) = Some s' \<and> sha1_absorbed s' (m @ d)"
    by simp
qed (simp_all add: sha1_init_absorbed digest20_final)

lemma internal_sha1_ok:
  assumes "unat len \<le> length data"
  shows "internal_SHA1 data len = Some (sha1 (take (unat len) data))"
proof -
  obtain s where "SHA1_update (SHA1_init raw_sha1) data len = Some s" "sha1_absorbed s (take (unat len) data)"
    using SHA1_update_ok[OF sha1_init_absorbed assms] by auto
  with digest20_final(1) show ?thesis by (simp add: internal_SHA1_def digest20_def)
qed

text \<open>Both versions of SHA-1, the portable one and the one for little-endian machines, compute the same
FIPS 180 hash of a message from any split of it into updates, and \<open>internal_SHA1\<close> computes it of its
whole input: no piece of input and no step of the padding is lost or read twice, and no access is out of
bounds. A piece is an argument of a 64-bit length.\<close>

theorem sha1_incremental:
  assumes "len64_fits (length (concat ds))"
  shows "do { s \<leftarrow> for_each ds (\<lambda>d s. SHA1_update s d (of_nat (length d))) (SHA1_init raw_sha1);
              digest20 (SHA1_final s) } = Some (sha1 (concat ds)) \<and>
         do { s \<leftarrow> for_each ds (\<lambda>d s. SHA1_update_le s d (of_nat (length d))) (SHA1_init raw_sha1);
              digest20 (SHA1_final_le s) } = Some (sha1 (concat ds)) \<and>
         internal_SHA1 (concat ds) (of_nat (length (concat ds))) = Some (sha1 (concat ds))"
proof -
  have "\<forall>d \<in> set ds. len64_fits (length d)"
    using assms by (induction ds) (auto simp: len64_fits_def)
  moreover have "internal_SHA1 (concat ds) (of_nat (length (concat ds))) = Some (sha1 (concat ds))"
    using internal_sha1_ok[of "of_nat (length (concat ds))" "concat ds"] unat_of_nat64 assms
    by (simp add: len64_fits_def)
  ultimately show ?thesis using hash1.chunks_hash hash1_le.chunks_hash assms by blast
qed

theorem sha1_incremental_witness:
  "internal_SHA1 [0x61, 0x62, 0x63] 3 = Some (sha1 [0x61, 0x62, 0x63])"
  using sha1_incremental[of "[[0x61], [0x62, 0x63]]"] by (simp add: len64_fits_def)

text \<open>The transformation for little-endian machines, which reads the block as byte-reversed words, computes
the schedule while it runs the rounds and renames the working variables from call to call, is the portable
transformation.\<close>

theorem SHA1_Transform_le_eq:
  assumes "length (sha1_state ctx) = 5"
  shows "SHA1_Transform_le ctx = SHA1_transform ctx"
  using assms by (simp add: SHA1_Transform_le_def SHA1_transform_def sha1_block_le_eq)

theorem SHA1_Transform_le_eq_witness:
  "SHA1_Transform_le (SHA1_init raw_sha1) = SHA1_transform (SHA1_init raw_sha1)"
  by (rule SHA1_Transform_le_eq) (simp add: SHA1_init_def)

end
