(* ===== verification/Sha2.thy ===== *)
theory Sha2
  imports ShaCore
begin

text \<open>
  SHA-256 and SHA-512 as \<open>sha256.c\<close> and \<open>sha512.c\<close> of
  \<open>package/vboot_utils/src/firmware/lib/cryptolib\<close> have them, shown to compute the hash of FIPS 180
  for any split of a message into updates. Both files are the same text for words of 32 and 64
  bits; it is modelled once, with the word size, the constants and the rotations as arguments.
  The array \<open>w\<close> is filled from its first element on, so the model appends to it.
\<close>

subsection \<open>Contexts\<close>

record 'w sha_ctx =
  hs :: "'w list"
  tot_len :: u32
  sha_len :: u32
  block :: "u8 list"

subsection \<open>Compression\<close>

text \<open>\<open>SHA256_SCR\<close>, \<open>SHA512_SCR\<close>.\<close>

definition SCR :: "('w::len word \<Rightarrow> 'w word) \<Rightarrow> ('w word \<Rightarrow> 'w word) \<Rightarrow> nat \<Rightarrow> 'w word list \<Rightarrow> 'w word list" where
  "SCR F3 F4 j w = w @ [F4 (w ! (j - 2)) + w ! (j - 7) + F3 (w ! (j - 15)) + w ! (j - 16)]"

text \<open>A round of the rolled loop.\<close>

definition sha_round :: "('w::len word \<Rightarrow> 'w word) \<Rightarrow> ('w word \<Rightarrow> 'w word) \<Rightarrow> 'w word list \<Rightarrow> 'w word list
    \<Rightarrow> nat \<Rightarrow> 'w word list \<Rightarrow> 'w word list" where
  "sha_round F1 F2 k w j wv =
     (let t1 = wv ! 7 + F2 (wv ! 4) + CH (wv ! 4) (wv ! 5) (wv ! 6) + k ! j + w ! j;
          t2 = F1 (wv ! 0) + MAJ (wv ! 0) (wv ! 1) (wv ! 2)
      in [t1 + t2, wv ! 0, wv ! 1, wv ! 2, wv ! 3 + t1, wv ! 4, wv ! 5, wv ! 6])"

text \<open>\<open>SHA256_EXP\<close>, \<open>SHA512_EXP\<close>: a round of the unrolled code, on the positions it is given.\<close>

definition EXP :: "('w::len word \<Rightarrow> 'w word) \<Rightarrow> ('w word \<Rightarrow> 'w word) \<Rightarrow> 'w word list \<Rightarrow> 'w word list
    \<Rightarrow> nat \<Rightarrow> nat \<Rightarrow> nat \<Rightarrow> nat \<Rightarrow> nat \<Rightarrow> nat \<Rightarrow> nat \<Rightarrow> nat \<Rightarrow> nat \<Rightarrow> 'w word list \<Rightarrow> 'w word list" where
  "EXP F1 F2 ks w a b c d e f g h j wv =
     (let t1 = wv ! h + F2 (wv ! e) + CH (wv ! e) (wv ! f) (wv ! g) + ks ! j + w ! j;
          t2 = F1 (wv ! a) + MAJ (wv ! a) (wv ! b) (wv ! c);
          wv = wv[d := wv ! d + t1]
      in wv[h := t1 + t2])"

text \<open>The eight calls the unrolled code repeats.\<close>

definition EXP8 :: "('w::len word \<Rightarrow> 'w word) \<Rightarrow> ('w word \<Rightarrow> 'w word) \<Rightarrow> 'w word list \<Rightarrow> 'w word list
    \<Rightarrow> nat \<Rightarrow> 'w word list \<Rightarrow> 'w word list" where
  "EXP8 F1 F2 k w j wv =
     (EXP F1 F2 k w 1 2 3 4 5 6 7 0 (j + 7) \<circ> EXP F1 F2 k w 2 3 4 5 6 7 0 1 (j + 6) \<circ>
      EXP F1 F2 k w 3 4 5 6 7 0 1 2 (j + 5) \<circ> EXP F1 F2 k w 4 5 6 7 0 1 2 3 (j + 4) \<circ>
      EXP F1 F2 k w 5 6 7 0 1 2 3 4 (j + 3) \<circ> EXP F1 F2 k w 6 7 0 1 2 3 4 5 (j + 2) \<circ>
      EXP F1 F2 k w 7 0 1 2 3 4 5 6 (j + 1) \<circ> EXP F1 F2 k w 0 1 2 3 4 5 6 7 j) wv"

definition rounds :: "('w::len word \<Rightarrow> 'w word) \<Rightarrow> ('w word \<Rightarrow> 'w word) \<Rightarrow> 'w word list \<Rightarrow> nat
    \<Rightarrow> 'w word list \<Rightarrow> 'w word list \<Rightarrow> 'w word list" where
  "rounds F1 F2 k n w h = map2 (+) h (fold (sha_round F1 F2 k w) [0..<n] h)"

definition rounds_unrolled :: "('w::len word \<Rightarrow> 'w word) \<Rightarrow> ('w word \<Rightarrow> 'w word) \<Rightarrow> 'w word list \<Rightarrow> nat
    \<Rightarrow> 'w word list \<Rightarrow> 'w word list \<Rightarrow> 'w word list" where
  "rounds_unrolled F1 F2 k n w h =
     map2 (+) h (fold (\<lambda>i. EXP8 F1 F2 k w (8 * i)) [0..<n div 8] h)"

subsection \<open>SHA-256\<close>

definition SHA256_F1 :: "u32 \<Rightarrow> u32" where
  "SHA256_F1 x = ROTR x 2 XOR ROTR x 13 XOR ROTR x 22"

definition SHA256_F2 :: "u32 \<Rightarrow> u32" where
  "SHA256_F2 x = ROTR x 6 XOR ROTR x 11 XOR ROTR x 25"

definition SHA256_F3 :: "u32 \<Rightarrow> u32" where
  "SHA256_F3 x = ROTR x 7 XOR ROTR x 18 XOR drop_bit 3 x"

definition SHA256_F4 :: "u32 \<Rightarrow> u32" where
  "SHA256_F4 x = ROTR x 17 XOR ROTR x 19 XOR drop_bit 10 x"

definition sha256_h0 :: "u32 list" where
  "sha256_h0 =
    [0x6a09e667, 0xbb67ae85, 0x3c6ef372, 0xa54ff53a, 0x510e527f, 0x9b05688c, 0x1f83d9ab, 0x5be0cd19]"

definition sha256_k :: "u32 list" where
  "sha256_k =
    [0x428a2f98, 0x71374491, 0xb5c0fbcf, 0xe9b5dba5, 0x3956c25b, 0x59f111f1, 0x923f82a4, 0xab1c5ed5,
     0xd807aa98, 0x12835b01, 0x243185be, 0x550c7dc3, 0x72be5d74, 0x80deb1fe, 0x9bdc06a7, 0xc19bf174,
     0xe49b69c1, 0xefbe4786, 0x0fc19dc6, 0x240ca1cc, 0x2de92c6f, 0x4a7484aa, 0x5cb0a9dc, 0x76f988da,
     0x983e5152, 0xa831c66d, 0xb00327c8, 0xbf597fc7, 0xc6e00bf3, 0xd5a79147, 0x06ca6351, 0x14292967,
     0x27b70a85, 0x2e1b2138, 0x4d2c6dfc, 0x53380d13, 0x650a7354, 0x766a0abb, 0x81c2c92e, 0x92722c85,
     0xa2bfe8a1, 0xa81a664b, 0xc24b8b70, 0xc76c51a3, 0xd192e819, 0xd6990624, 0xf40e3585, 0x106aa070,
     0x19a4c116, 0x1e376c08, 0x2748774c, 0x34b0bcb5, 0x391c0cb3, 0x4ed8aa4a, 0x5b9cca4f, 0x682e6ff3,
     0x748f82ee, 0x78a5636f, 0x84c87814, 0x8cc70208, 0x90befffa, 0xa4506ceb, 0xbef9a3f7, 0xc67178f2]"

text \<open>A block of the message: the schedule, the rounds and the feed forward.\<close>

definition sha256_schedule :: "u8 list \<Rightarrow> u32 list" where
  "sha256_schedule sub_block =
     fold (SCR SHA256_F3 SHA256_F4) [16..<64] (map (\<lambda>j. PACK32 sub_block (j * 4)) [0..<16])"

definition sha256_block :: "u32 list \<Rightarrow> u8 list \<Rightarrow> u32 list" where
  "sha256_block h sub_block = rounds SHA256_F1 SHA256_F2 sha256_k 64 (sha256_schedule sub_block) h"

definition sha256_block_unrolled :: "u32 list \<Rightarrow> u8 list \<Rightarrow> u32 list" where
  "sha256_block_unrolled h sub_block =
     rounds_unrolled SHA256_F1 SHA256_F2 sha256_k 64 (sha256_schedule sub_block) h"

subsection \<open>SHA-512\<close>

definition SHA512_F1 :: "u64 \<Rightarrow> u64" where
  "SHA512_F1 x = ROTR x 28 XOR ROTR x 34 XOR ROTR x 39"

definition SHA512_F2 :: "u64 \<Rightarrow> u64" where
  "SHA512_F2 x = ROTR x 14 XOR ROTR x 18 XOR ROTR x 41"

definition SHA512_F3 :: "u64 \<Rightarrow> u64" where
  "SHA512_F3 x = ROTR x 1 XOR ROTR x 8 XOR drop_bit 7 x"

definition SHA512_F4 :: "u64 \<Rightarrow> u64" where
  "SHA512_F4 x = ROTR x 19 XOR ROTR x 61 XOR drop_bit 6 x"

definition sha512_h0 :: "u64 list" where
  "sha512_h0 =
    [0x6a09e667f3bcc908, 0xbb67ae8584caa73b, 0x3c6ef372fe94f82b, 0xa54ff53a5f1d36f1,
     0x510e527fade682d1, 0x9b05688c2b3e6c1f, 0x1f83d9abfb41bd6b, 0x5be0cd19137e2179]"

definition sha512_k :: "u64 list" where
  "sha512_k =
    [0x428a2f98d728ae22, 0x7137449123ef65cd, 0xb5c0fbcfec4d3b2f, 0xe9b5dba58189dbbc,
     0x3956c25bf348b538, 0x59f111f1b605d019, 0x923f82a4af194f9b, 0xab1c5ed5da6d8118,
     0xd807aa98a3030242, 0x12835b0145706fbe, 0x243185be4ee4b28c, 0x550c7dc3d5ffb4e2,
     0x72be5d74f27b896f, 0x80deb1fe3b1696b1, 0x9bdc06a725c71235, 0xc19bf174cf692694,
     0xe49b69c19ef14ad2, 0xefbe4786384f25e3, 0x0fc19dc68b8cd5b5, 0x240ca1cc77ac9c65,
     0x2de92c6f592b0275, 0x4a7484aa6ea6e483, 0x5cb0a9dcbd41fbd4, 0x76f988da831153b5,
     0x983e5152ee66dfab, 0xa831c66d2db43210, 0xb00327c898fb213f, 0xbf597fc7beef0ee4,
     0xc6e00bf33da88fc2, 0xd5a79147930aa725, 0x06ca6351e003826f, 0x142929670a0e6e70,
     0x27b70a8546d22ffc, 0x2e1b21385c26c926, 0x4d2c6dfc5ac42aed, 0x53380d139d95b3df,
     0x650a73548baf63de, 0x766a0abb3c77b2a8, 0x81c2c92e47edaee6, 0x92722c851482353b,
     0xa2bfe8a14cf10364, 0xa81a664bbc423001, 0xc24b8b70d0f89791, 0xc76c51a30654be30,
     0xd192e819d6ef5218, 0xd69906245565a910, 0xf40e35855771202a, 0x106aa07032bbd1b8,
     0x19a4c116b8d2d0c8, 0x1e376c085141ab53, 0x2748774cdf8eeb99, 0x34b0bcb5e19b48a8,
     0x391c0cb3c5c95a63, 0x4ed8aa4ae3418acb, 0x5b9cca4f7763e373, 0x682e6ff3d6b2b8a3,
     0x748f82ee5defb2fc, 0x78a5636f43172f60, 0x84c87814a1f0ab72, 0x8cc702081a6439ec,
     0x90befffa23631e28, 0xa4506cebde82bde9, 0xbef9a3f7b2c67915, 0xc67178f2e372532b,
     0xca273eceea26619c, 0xd186b8c721c0c207, 0xeada7dd6cde0eb1e, 0xf57d4f7fee6ed178,
     0x06f067aa72176fba, 0x0a637dc5a2c898a6, 0x113f9804bef90dae, 0x1b710b35131c471b,
     0x28db77f523047d84, 0x32caab7b40c72493, 0x3c9ebe0a15c9bebc, 0x431d67c49c100d4c,
     0x4cc5d4becb3e42b6, 0x597f299cfc657e2a, 0x5fcb6fab3ad6faec, 0x6c44198c4a475817]"

definition sha512_schedule :: "u8 list \<Rightarrow> u64 list" where
  "sha512_schedule sub_block =
     fold (SCR SHA512_F3 SHA512_F4) [16..<80] (map (\<lambda>j. PACK64 sub_block (j * 8)) [0..<16])"

definition sha512_block :: "u64 list \<Rightarrow> u8 list \<Rightarrow> u64 list" where
  "sha512_block h sub_block = rounds SHA512_F1 SHA512_F2 sha512_k 80 (sha512_schedule sub_block) h"

definition sha512_block_unrolled :: "u64 list \<Rightarrow> u8 list \<Rightarrow> u64 list" where
  "sha512_block_unrolled h sub_block =
     rounds_unrolled SHA512_F1 SHA512_F2 sha512_k 80 (sha512_schedule sub_block) h"

subsection \<open>Contexts and messages\<close>

text \<open>\<open>SHA256_transform\<close> and \<open>SHA512_transform\<close>: the loop over the blocks of a message.\<close>

definition transform :: "('w list \<Rightarrow> u8 list \<Rightarrow> 'w list) \<Rightarrow> nat \<Rightarrow> 'w list \<Rightarrow> u8 list \<Rightarrow> nat \<Rightarrow> 'w list option" where
  "transform compress bs h message block_nb =
     for_each [0..<block_nb] (\<lambda>i h. do {
       sub_block \<leftarrow> mem_read message (i * bs) bs;
       Some (compress h sub_block) }) h"

definition sha_init :: "'w list \<Rightarrow> 'w sha_ctx \<Rightarrow> 'w sha_ctx" where
  "sha_init h0 ctx = ctx\<lparr>hs := h0, sha_len := 0, tot_len := 0\<rparr>"

text \<open>A local or allocated context; its contents before the initialisation do not matter.\<close>

definition raw_ctx :: "nat \<Rightarrow> 'w sha_ctx" where
  "raw_ctx bs = \<lparr>hs = [], tot_len = 0, sha_len = 0, block = replicate (2 * bs) 0\<rparr>"

definition sha_update :: "('w list \<Rightarrow> u8 list \<Rightarrow> 'w list) \<Rightarrow> nat \<Rightarrow> 'w sha_ctx \<Rightarrow> u8 list \<Rightarrow> u32
    \<Rightarrow> 'w sha_ctx option" where
  "sha_update compress bs ctx data len = do {
     let tmp_len = of_nat bs - sha_len ctx;
     let rem_len = (if len < tmp_len then len else tmp_len);
     bytes \<leftarrow> mem_read data 0 (unat rem_len);
     blk \<leftarrow> mem_write (block ctx) (unat (sha_len ctx)) bytes;
     if sha_len ctx + len < of_nat bs
     then Some (ctx\<lparr>block := blk, sha_len := sha_len ctx + len\<rparr>)
     else do {
       let new_len = len - rem_len;
       let block_nb = new_len div of_nat bs;
       let shifted_data = drop (unat rem_len) data;
       h \<leftarrow> transform compress bs (hs ctx) blk 1;
       h \<leftarrow> transform compress bs h shifted_data (unat block_nb);
       let rem_len = new_len mod of_nat bs;
       bytes \<leftarrow> mem_read shifted_data (unat block_nb * bs) (unat rem_len);
       blk \<leftarrow> mem_write blk 0 bytes;
       Some (ctx\<lparr>hs := h, block := blk, sha_len := rem_len,
         tot_len := tot_len ctx + (block_nb + 1) * of_nat bs\<rparr>) } }"

text \<open>\<open>tail\<close> is the 9 of SHA-256, the 17 of SHA-512.\<close>

definition sha_final :: "('w list \<Rightarrow> u8 list \<Rightarrow> 'w list) \<Rightarrow> ('w \<Rightarrow> u8 list) \<Rightarrow> nat \<Rightarrow> nat \<Rightarrow> 'w sha_ctx
    \<Rightarrow> u8 list option" where
  "sha_final compress unpack bs tail ctx = do {
     let block_nb = 1 + (if of_nat (bs - tail) < sha_len ctx mod of_nat bs then 1 else 0);
     let len_b = push_bit 3 (tot_len ctx + sha_len ctx);
     let pm_len = block_nb * bs;
     blk \<leftarrow> mem_write (block ctx) (unat (sha_len ctx)) (replicate (pm_len - unat (sha_len ctx)) 0);
     blk \<leftarrow> mem_write blk (unat (sha_len ctx)) [0x80];
     blk \<leftarrow> mem_write blk (pm_len - 4) (UNPACK32 len_b);
     h \<leftarrow> transform compress bs (hs ctx) blk block_nb;
     Some (concat (map unpack h)) }"

definition SHA256_init :: "u32 sha_ctx \<Rightarrow> u32 sha_ctx" where
  "SHA256_init = sha_init sha256_h0"

definition SHA256_update :: "u32 sha_ctx \<Rightarrow> u8 list \<Rightarrow> u32 \<Rightarrow> u32 sha_ctx option" where
  "SHA256_update = sha_update sha256_block 64"

definition SHA256_final :: "u32 sha_ctx \<Rightarrow> u8 list option" where
  "SHA256_final = sha_final sha256_block UNPACK32 64 9"

definition SHA512_init :: "u64 sha_ctx \<Rightarrow> u64 sha_ctx" where
  "SHA512_init = sha_init sha512_h0"

definition SHA512_update :: "u64 sha_ctx \<Rightarrow> u8 list \<Rightarrow> u32 \<Rightarrow> u64 sha_ctx option" where
  "SHA512_update = sha_update sha512_block 128"

definition SHA512_final :: "u64 sha_ctx \<Rightarrow> u8 list option" where
  "SHA512_final = sha_final sha512_block UNPACK64 128 17"

text \<open>
  The loops of \<open>internal_SHA256\<close> and \<open>internal_SHA512\<close>, which feed the data in chunks of at most
  \<open>UINT32_MAX\<close> bytes.
\<close>

partial_function (option) chunk_loop :: "('s \<Rightarrow> u8 list \<Rightarrow> u32 \<Rightarrow> 's option) \<Rightarrow> 's \<Rightarrow> u8 list \<Rightarrow> u64 \<Rightarrow> 's option" where
  "chunk_loop update ctx input_ptr data_left =
     (if data_left \<noteq> 0
      then do {
        let block_size = (if data_left \<ge> 0xFFFFFFFF then 0xFFFFFFFF else ucast data_left :: u32);
        ctx \<leftarrow> update ctx input_ptr block_size;
        chunk_loop update ctx (drop (unat block_size) input_ptr) (data_left - ucast block_size) }
      else Some ctx)"

definition internal_SHA256 :: "u8 list \<Rightarrow> u64 \<Rightarrow> u8 list option" where
  "internal_SHA256 data len = do {
     ctx \<leftarrow> chunk_loop SHA256_update (SHA256_init (raw_ctx 64)) data len;
     result \<leftarrow> SHA256_final ctx;
     mem_read result 0 32 }"

definition internal_SHA512 :: "u8 list \<Rightarrow> u64 \<Rightarrow> u8 list option" where
  "internal_SHA512 data len = do {
     ctx \<leftarrow> chunk_loop SHA512_update (SHA512_init (raw_ctx 128)) data len;
     result \<leftarrow> SHA512_final ctx;
     mem_read result 0 64 }"

subsection \<open>The unrolled rounds\<close>

text \<open>A list of eight by its elements.\<close>

lemma list8: "length xs = 8 \<Longrightarrow> xs = [xs ! 0, xs ! 1, xs ! 2, xs ! 3, xs ! 4, xs ! 5, xs ! 6, xs ! 7]"
  by (intro nth_equalityI) (auto simp: less_Suc_eq eval_nat_numeral)

text \<open>Each call works on the rotation of the rolled array and leaves the next one.\<close>

lemma EXP_rotate:
  assumes "length wv = 8"
  shows
  "EXP F1 F2 k w 0 1 2 3 4 5 6 7 j (rotate 0 wv) = rotate 1 (sha_round F1 F2 k w j wv)"
  "EXP F1 F2 k w 7 0 1 2 3 4 5 6 j (rotate 1 wv) = rotate 2 (sha_round F1 F2 k w j wv)"
  "EXP F1 F2 k w 6 7 0 1 2 3 4 5 j (rotate 2 wv) = rotate 3 (sha_round F1 F2 k w j wv)"
  "EXP F1 F2 k w 5 6 7 0 1 2 3 4 j (rotate 3 wv) = rotate 4 (sha_round F1 F2 k w j wv)"
  "EXP F1 F2 k w 4 5 6 7 0 1 2 3 j (rotate 4 wv) = rotate 5 (sha_round F1 F2 k w j wv)"
  "EXP F1 F2 k w 3 4 5 6 7 0 1 2 j (rotate 5 wv) = rotate 6 (sha_round F1 F2 k w j wv)"
  "EXP F1 F2 k w 2 3 4 5 6 7 0 1 j (rotate 6 wv) = rotate 7 (sha_round F1 F2 k w j wv)"
  "EXP F1 F2 k w 1 2 3 4 5 6 7 0 j (rotate 7 wv) = rotate 8 (sha_round F1 F2 k w j wv)"
proof -
  obtain a b c d e f g h where wv: "wv = [a, b, c, d, e, f, g, h]" using list8[OF assms] by blast
  show "EXP F1 F2 k w 0 1 2 3 4 5 6 7 j (rotate 0 wv) = rotate 1 (sha_round F1 F2 k w j wv)"
    by (simp add: wv EXP_def sha_round_def Let_def eval_nat_numeral rotate1.simps)
  show "EXP F1 F2 k w 7 0 1 2 3 4 5 6 j (rotate 1 wv) = rotate 2 (sha_round F1 F2 k w j wv)"
    by (simp add: wv EXP_def sha_round_def Let_def eval_nat_numeral rotate1.simps)
  show "EXP F1 F2 k w 6 7 0 1 2 3 4 5 j (rotate 2 wv) = rotate 3 (sha_round F1 F2 k w j wv)"
    by (simp add: wv EXP_def sha_round_def Let_def eval_nat_numeral rotate1.simps)
  show "EXP F1 F2 k w 5 6 7 0 1 2 3 4 j (rotate 3 wv) = rotate 4 (sha_round F1 F2 k w j wv)"
    by (simp add: wv EXP_def sha_round_def Let_def eval_nat_numeral rotate1.simps)
  show "EXP F1 F2 k w 4 5 6 7 0 1 2 3 j (rotate 4 wv) = rotate 5 (sha_round F1 F2 k w j wv)"
    by (simp add: wv EXP_def sha_round_def Let_def eval_nat_numeral rotate1.simps)
  show "EXP F1 F2 k w 3 4 5 6 7 0 1 2 j (rotate 5 wv) = rotate 6 (sha_round F1 F2 k w j wv)"
    by (simp add: wv EXP_def sha_round_def Let_def eval_nat_numeral rotate1.simps)
  show "EXP F1 F2 k w 2 3 4 5 6 7 0 1 j (rotate 6 wv) = rotate 7 (sha_round F1 F2 k w j wv)"
    by (simp add: wv EXP_def sha_round_def Let_def eval_nat_numeral rotate1.simps)
  show "EXP F1 F2 k w 1 2 3 4 5 6 7 0 j (rotate 7 wv) = rotate 8 (sha_round F1 F2 k w j wv)"
    by (simp add: wv EXP_def sha_round_def Let_def eval_nat_numeral rotate1.simps)
qed

lemma sha_round_length [simp]: "length (sha_round F1 F2 k w j wv) = 8"
  by (simp add: sha_round_def Let_def)

lemma EXP8_rounds:
  assumes "length wv = 8"
  shows "EXP8 F1 F2 k w j wv = fold (sha_round F1 F2 k w) [j..<j + 8] wv"
proof -
  have r: "[j..<j + 8] = [j, j + 1, j + 2, j + 3, j + 4, j + 5, j + 6, j + 7]"
    by (simp add: eval_nat_numeral upt_rec)
  have z: "rotate 0 wv = wv" "rotate 8 (sha_round F1 F2 k w i xs) = sha_round F1 F2 k w i xs" for i xs
    by (simp_all add: rotate_id)
  note E = EXP_rotate[OF assms] EXP_rotate[OF sha_round_length]
  have "EXP8 F1 F2 k w j (rotate 0 wv) = fold (sha_round F1 F2 k w) [j..<j + 8] wv"
    unfolding r EXP8_def comp_def by (simp only: E z(2) fold_simps One_nat_def[symmetric])
  then show ?thesis by (simp only: z(1))
qed

lemma fold_rounds_length: "length wv = 8 \<Longrightarrow> length (fold (sha_round F1 F2 k w) js wv) = 8"
  by (induction js arbitrary: wv) auto

lemma rounds_unrolled_eq:
  assumes "length h = 8"
  shows "rounds_unrolled F1 F2 k (8 * n) w h = rounds F1 F2 k (8 * n) w h"
proof -
  have "fold (\<lambda>i. EXP8 F1 F2 k w (8 * i)) [0..<n] h = fold (sha_round F1 F2 k w) [0..<8 * n] h" for n
  proof (induction n)
    case (Suc n)
    have "[0..<8 * Suc n] = [0..<8 * n] @ [8 * n..<8 * n + 8]"
      using upt_add_eq_append[of 0 "8 * n" 8] by (simp add: add.commute)
    with Suc show ?case by (simp add: EXP8_rounds fold_rounds_length assms)
  qed simp
  then show ?thesis by (simp add: rounds_unrolled_def rounds_def)
qed

subsection \<open>Updates\<close>

lemma transform_ok:
  "n * bs \<le> length message \<Longrightarrow> transform compress bs h message n = Some (md_fold compress bs h n message)"
proof (induction n)
  case (Suc n)
  then have "mem_read message (n * bs) bs = Some (nth_block bs message n)"
    by (simp add: mem_read_def nth_block_def add.commute)
  with Suc show ?case by (simp add: transform_def for_each_append md_fold_Suc)
qed (simp add: transform_def)

text \<open>The context has hashed the whole blocks of \<open>m\<close> and holds the rest.\<close>

definition sha_absorbed :: "('w list \<Rightarrow> u8 list \<Rightarrow> 'w list) \<Rightarrow> 'w list \<Rightarrow> nat \<Rightarrow> 'w sha_ctx \<Rightarrow> u8 list \<Rightarrow> bool" where
  "sha_absorbed compress h0 bs ctx m \<longleftrightarrow>
     hs ctx = md_fold compress bs h0 (length m div bs) m \<and>
     tot_len ctx = of_nat (length m div bs * bs) \<and> sha_len ctx = of_nat (length m mod bs) \<and>
     length (block ctx) = 2 * bs \<and>
     take (length m mod bs) (block ctx) = drop (length m div bs * bs) m"

lemma sha_absorbed_init:
  "0 < bs \<Longrightarrow> length (block ctx) = 2 * bs \<Longrightarrow> sha_absorbed compress h0 bs (sha_init h0 ctx) []"
  by (simp add: sha_absorbed_def sha_init_def)

lemma unat_of_nat_small: "n < 2 ^ 32 \<Longrightarrow> unat (of_nat n :: u32) = n"
  by (simp add: unat_of_nat)

lemma sha_update_ok:
  assumes bs: "0 < bs" "bs < 2 ^ 31" and ab: "sha_absorbed compress h0 bs ctx m"
    and len: "unat len \<le> length data" "bs + unat len < 2 ^ 32"
  shows "\<exists>ctx'. sha_update compress bs ctx data len = Some ctx' \<and>
    sha_absorbed compress h0 bs ctx' (m @ take (unat len) data)"
proof -
  define n r L where "n = length m div bs" and "r = length m mod bs" and "L = unat len"
  have r: "r < bs" "length m = n * bs + r" using bs(1) by (simp_all add: n_def r_def)
  have ctx: "hs ctx = md_fold compress bs h0 n m" "tot_len ctx = of_nat (n * bs)" "sha_len ctx = of_nat r"
    "length (block ctx) = 2 * bs" "take r (block ctx) = drop (n * bs) m"
    using ab by (simp_all add: sha_absorbed_def n_def r_def)
  define m' where "m' = m @ take L data"
  have len': "len = of_nat L" by (simp add: L_def)
  define rem where "rem = min L (bs - r)"
  have u: "unat (of_nat bs :: u32) = bs" "unat (of_nat r :: u32) = r" using bs r by (simp_all add: unat_of_nat)
  have tmp: "unat (of_nat bs - of_nat r :: u32) = bs - r"
    using r(1) u by (simp add: unat_sub word_le_nat_alt)
  have rem_len: "unat (if len < of_nat bs - sha_len ctx then len else of_nat bs - sha_len ctx) = rem"
    by (simp add: ctx(3) word_less_nat_alt tmp rem_def L_def)
  have read: "mem_read data 0 rem = Some (take rem data)"
    using len(1) by (simp add: mem_read_def rem_def L_def)
  define blk where "blk = take r (block ctx) @ take rem data @ drop (r + rem) (block ctx)"
  have lrem: "length (take rem data) = rem" using len(1) by (simp add: rem_def L_def)
  have wr0: "mem_write (block ctx) (unat (sha_len ctx)) (take rem data) = Some blk"
    using r(1) lrem unfolding mem_write_def ctx(3,4) u lrem blk_def by (simp add: rem_def)
  have lblk: "length blk = 2 * bs" using r(1) ctx(4) lrem by (simp add: blk_def rem_def)
  have sum: "unat (sha_len ctx + len) = r + L"
    using len(2) r(1) unat_plus_simple[THEN iffD1, of "of_nat r" len]
    by (simp add: ctx(3) unat_word_ariths u L_def)
  have cond: "sha_len ctx + len < of_nat bs \<longleftrightarrow> r + L < bs"
    by (simp add: word_less_nat_alt sum u)
  show ?thesis
  proof (cases "r + L < bs")
    case True
    then have "rem = L" by (simp add: rem_def)
    have up: "sha_update compress bs ctx data len = Some (ctx\<lparr>block := blk, sha_len := sha_len ctx + len\<rparr>)"
      unfolding sha_update_def Let_def rem_len read bind.bind_lunit wr0 using True cond by simp
    have lm: "length m' = n * bs + (r + L)" using r(2) len(1) by (simp add: m'_def L_def)
    then have dm: "length m' div bs = n" "length m' mod bs = r + L" using True by simp_all
    have fold: "md_fold compress bs h0 n m' = md_fold compress bs h0 n m"
      unfolding m'_def by (rule md_fold_app) (simp add: r(2))
    have lr: "length (take r (block ctx)) = r" using r(1) ctx(4) by simp
    have tk: "take (r + L) blk = drop (n * bs) m'"
    proof -
      have "take (r + L) blk = take r (block ctx) @ take L data"
        using lr lrem by (simp add: blk_def \<open>rem = L\<close>)
      moreover have "drop (n * bs) m' = drop (n * bs) m @ take L data" using r(2) by (simp add: m'_def)
      ultimately show ?thesis by (simp only: ctx(5))
    qed
    have "sha_absorbed compress h0 bs (ctx\<lparr>block := blk, sha_len := sha_len ctx + len\<rparr>) m'"
      unfolding sha_absorbed_def dm using ctx fold lblk tk by (simp add: len')
    with up show ?thesis by (auto simp: m'_def L_def)
  next
    case False
    then have rem: "rem = bs - r" "rem \<le> L" using r(1) by (simp_all add: rem_def)
    define nl where "nl = L - rem"
    define nb where "nb = nl div bs"
    define rl where "rl = nl mod bs"
    have nl: "nl = nb * bs + rl" "rl < bs" "L = rem + nl" using bs(1) rem(2) by (simp_all add: nb_def rl_def nl_def)
    define sd where "sd = drop rem data"
    have lsd: "nl \<le> length sd" using len(1) rem(2) by (simp add: sd_def nl_def L_def)
    have m': "m' = (m @ take rem data) @ take nl sd"
      using nl(3) by (simp add: m'_def sd_def take_add)
    have lmr: "length (m @ take rem data) = (n + 1) * bs" using r rem lrem by simp
    have fm: "md_fold compress bs h0 n m' = md_fold compress bs h0 n m"
      unfolding m' append_assoc by (rule md_fold_app) (simp add: r(2))
    have b1: "nth_block bs m' n = take bs blk"
    proof -
      have "nth_block bs m' n = nth_block bs (m @ take rem data) n"
        unfolding m' by (rule nth_block_app) (simp only: lmr order_refl)
      also have "\<dots> = drop (n * bs) m @ take rem data"
        using r rem lrem by (simp add: nth_block_def)
      also have "\<dots> = take bs blk"
        using r rem(1) lrem ctx(4) by (simp add: blk_def ctx(5)[symmetric])
      finally show ?thesis .
    qed
    have t1: "transform compress bs (hs ctx) blk 1 = Some (md_fold compress bs h0 (n + 1) m')"
      using transform_ok[of 1 bs blk compress "hs ctx"] lblk b1 fm ctx(1)
      by (simp add: md_fold_Suc nth_block_def)
    have dsd: "drop ((n + 1) * bs) m' = take nl sd" unfolding m' using lmr by simp
    have t2: "transform compress bs (md_fold compress bs h0 (n + 1) m') sd nb =
        Some (md_fold compress bs h0 (n + 1 + nb) m')"
    proof -
      have "nb * bs \<le> length sd" using lsd nl(1) by linarith
      then have "transform compress bs (md_fold compress bs h0 (n + 1) m') sd nb =
          Some (md_fold compress bs (md_fold compress bs h0 (n + 1) m') nb sd)" by (rule transform_ok)
      also have "md_fold compress bs (md_fold compress bs h0 (n + 1) m') nb sd =
          md_fold compress bs h0 (n + 1 + nb) m'"
      proof -
        have "md_fold compress bs (md_fold compress bs h0 (n + 1) m') nb (take nl sd @ drop nl sd) =
            md_fold compress bs (md_fold compress bs h0 (n + 1) m') nb (take nl sd)"
          by (rule md_fold_app) (use lsd nl(1) in simp)
        then show ?thesis unfolding append_take_drop_id unfolding dsd[symmetric] md_fold_add .
      qed
      finally show ?thesis .
    qed
    have lrem': "rem < 2 ^ 32" "L < 2 ^ 32" "nb < 2 ^ 32" "rl < 2 ^ 32"
      using len(2) rem(1) bs nl by (auto simp: L_def nb_def rl_def intro: le_less_trans[OF div_le_dividend])
    have newl: "len - (if len < of_nat bs - sha_len ctx then len else of_nat bs - sha_len ctx) = of_nat nl"
    proof -
      have "(if len < of_nat bs - sha_len ctx then len else of_nat bs - sha_len ctx) = of_nat rem"
        unfolding rem_len[symmetric] by simp
      then show ?thesis using rem(2) by (simp add: len' nl_def of_nat_diff)
    qed
    have dv: "(of_nat nl div of_nat bs :: u32) = of_nat nb" "(of_nat nl mod of_nat bs :: u32) = of_nat rl"
    proof -
      have "unat (of_nat nl :: u32) = nl" using lrem'(2) nl(3) by (intro unat_of_nat_small) simp
      then show "(of_nat nl div of_nat bs :: u32) = of_nat nb" "(of_nat nl mod of_nat bs :: u32) = of_nat rl"
        by (simp_all add: word_unat_eq_iff unat_div unat_mod u unat_of_nat_small[OF lrem'(3)]
            unat_of_nat_small[OF lrem'(4)] nb_def[symmetric] rl_def[symmetric])
    qed
    have rd: "mem_read sd (nb * bs) rl = Some (take rl (drop (nb * bs) sd))"
      using lsd nl(1) by (simp add: mem_read_def)
    have lt: "length (take rl (drop (nb * bs) sd)) = rl" using lsd nl(1) by simp
    define blk' where "blk' = take rl (drop (nb * bs) sd) @ drop rl blk"
    have wr: "mem_write blk 0 (take rl (drop (nb * bs) sd)) = Some blk'"
      using lt lblk nl(2) by (simp add: mem_write_def blk'_def)
    define ctx' where "ctx' = ctx\<lparr>hs := md_fold compress bs h0 (n + 1 + nb) m', block := blk',
      sha_len := of_nat rl, tot_len := tot_len ctx + (of_nat nb + 1) * of_nat bs\<rparr>"
    have up: "sha_update compress bs ctx data len = Some ctx'"
      unfolding sha_update_def Let_def newl rem_len read bind.bind_lunit wr0 dv sd_def[symmetric] t1
        unat_of_nat_small[OF lrem'(3)] unat_of_nat_small[OF lrem'(4)] t2 rd wr
      using False cond by (simp add: ctx'_def)
    have lm: "length m' = (n + 1 + nb) * bs + rl"
      using lmr lsd nl(1) by (simp add: m' algebra_simps)
    have dm: "length m' div bs = n + 1 + nb" "length m' mod bs = rl"
      using nl(2) unfolding lm by (simp_all only: div_mult_self3 mod_mult_self3 div_less mod_less add_0_right)
    have "take rl (drop (nb * bs) sd) = drop ((n + 1 + nb) * bs) m'"
    proof -
      have "drop ((n + 1 + nb) * bs) m' = drop (nb * bs) (drop ((n + 1) * bs) m')"
        by (simp add: algebra_simps)
      also have "\<dots> = take rl (drop (nb * bs) sd)" unfolding dsd using nl(1) by (simp add: drop_take)
      finally show ?thesis by simp
    qed
    moreover have "length blk' = 2 * bs" using lt lblk nl(2) by (simp add: blk'_def)
    ultimately have "sha_absorbed compress h0 bs ctx' m'"
      unfolding sha_absorbed_def dm ctx'_def using lt by (simp add: blk'_def ctx(2) algebra_simps)
    with up show ?thesis by (auto simp: m'_def L_def)
  qed
qed

subsection \<open>The end of a hash\<close>

lemma fips_zeros:
  assumes "0 < bs" and "r = n mod bs" and "lb + 1 \<le> bs"
    and "k = (if bs - (lb + 1) < r then 2 else 1 :: nat)"
  shows "(bs - (n + 1 + lb) mod bs) mod bs = k * bs - (r + 1 + lb)" and "r + 1 + lb \<le> k * bs"
    and "(n + 1 + lb + (bs - (n + 1 + lb) mod bs) mod bs) div bs = n div bs + k"
proof -
  have r: "r < bs" using assms(1,2) by simp
  show le: "r + 1 + lb \<le> k * bs" using r assms(3,4) by auto
  have m: "(n + 1 + lb) mod bs = (r + 1 + lb) mod bs"
    unfolding assms(2) by (metis mod_add_left_eq)
  show z: "(bs - (n + 1 + lb) mod bs) mod bs = k * bs - (r + 1 + lb)"
  proof (cases "r + 1 + lb \<le> bs")
    case True
    then have "k = 1" using assms(4) by auto
    with True m show ?thesis by (cases "r + 1 + lb = bs") auto
  next
    case False
    then have k: "k = 2" using assms(3,4) by auto
    have "(r + 1 + lb) mod bs = r + 1 + lb - bs"
      using False r assms(3) by (simp add: le_mod_geq)
    with m k False r assms(3) show ?thesis by simp
  qed
  have "n = n div bs * bs + r" unfolding assms(2) by simp
  with le have "n + 1 + lb + (k * bs - (r + 1 + lb)) = n div bs * bs + k * bs" by linarith
  then have "n + 1 + lb + (k * bs - (r + 1 + lb)) = (n div bs + k) * bs" by (simp only: add_mult_distrib)
  with z assms(1) show "(n + 1 + lb + (bs - (n + 1 + lb) mod bs) mod bs) div bs = n div bs + k" by simp
qed

lemma sha_final_ok:
  assumes bs: "0 < bs" "bs < 2 ^ 31" and ab: "sha_absorbed compress h0 bs ctx m"
    and lb: "4 \<le> lb" "lb + 1 \<le> bs" and m: "8 * length m < 2 ^ 32"
  shows "sha_final compress unpack bs (lb + 1) ctx = Some (fips_hash compress (\<lambda>h. concat (map unpack h)) h0 bs lb m)"
proof -
  define n r where "n = length m div bs" and "r = length m mod bs"
  define k where "k = (if bs - (lb + 1) < r then 2 else 1 :: nat)"
  have r: "r < bs" "length m = n * bs + r" using bs(1) by (simp_all add: n_def r_def)
  have ctx: "hs ctx = md_fold compress bs h0 n m" "tot_len ctx = of_nat (n * bs)" "sha_len ctx = of_nat r"
    "length (block ctx) = 2 * bs" "take r (block ctx) = drop (n * bs) m"
    using ab by (simp_all add: sha_absorbed_def n_def r_def)
  note Z = fips_zeros[OF bs(1) r_def lb(2) k_def]
  have u: "unat (of_nat bs :: u32) = bs" "unat (of_nat r :: u32) = r" using bs r by (simp_all add: unat_of_nat)
  have t: "unat (of_nat (bs - (lb + 1)) :: u32) = bs - (lb + 1)" using bs(2) by (intro unat_of_nat_small) simp
  have kb: "1 + (if of_nat (bs - (lb + 1)) < sha_len ctx mod of_nat bs then 1 else 0) = k"
    using r(1) by (simp add: word_less_nat_alt t[simplified] unat_mod u ctx(3) k_def)
  have lenb: "push_bit 3 (tot_len ctx + sha_len ctx) = of_nat (8 * length m)"
    by (simp add: ctx(2,3) push_bit_eq_mult r(2) algebra_simps)
  have k2: "k \<le> 2" by (simp add: k_def)
  then have k2b: "k * bs \<le> 2 * bs" by simp
  define p where "p = fips_pad bs lb m"
  have len4: "be_bytes lb (8 * length m) = replicate (lb - 4) 0 @ be_bytes 4 (8 * length m)"
    using be_bytes_zeros[of "8 * length m" 4 "lb - 4"] m lb(1) by simp
  have z: "k * bs - 4 - (r + 1) = (k * bs - (r + 1 + lb)) + (lb - 4)" using Z(2) lb(1) by simp
  define pre where "pre = take r (block ctx)"
  have lp: "length pre = r" using r(1) ctx(4) by (simp add: pre_def)
  have p: "p = m @ 0x80 # replicate (k * bs - 4 - (r + 1)) 0 @ be_bytes 4 (8 * length m)"
    unfolding p_def fips_pad_def Z(1) len4 z by (simp add: replicate_add)
  have dp: "drop (n * bs) p = pre @ 0x80 # replicate (k * bs - 4 - (r + 1)) 0 @ be_bytes 4 (8 * length m)"
    unfolding p pre_def ctx(5) using r(2) by simp
  define tl where "tl = drop (k * bs) (block ctx)"
  have w1: "mem_write (block ctx) r (replicate (k * bs - r) 0) = Some (pre @ replicate (k * bs - r) 0 @ tl)"
    using k2b Z(2) ctx(4) by (simp add: mem_write_def pre_def tl_def)
  have sp: "replicate (k * bs - r) (0 :: u8) = 0 # replicate (k * bs - 4 - (r + 1)) 0 @ replicate 4 0"
  proof -
    have "k * bs - r = Suc (k * bs - 4 - (r + 1) + 4)" using Z(2) lb(1) by simp
    then show ?thesis by (simp only: replicate_add replicate_Suc)
  qed
  have w2: "mem_write (pre @ replicate (k * bs - r) 0 @ tl) r [0x80] =
      Some (pre @ 0x80 # replicate (k * bs - 4 - (r + 1)) 0 @ replicate 4 0 @ tl)"
    unfolding sp by (simp add: mem_write_def lp)
  have l4: "length (pre @ 0x80 # replicate (k * bs - 4 - (r + 1)) (0 :: u8)) = k * bs - 4"
    using Z(2) lb(1) by (simp add: lp)
  define blk where "blk = drop (n * bs) p @ tl"
  have w3: "mem_write (pre @ 0x80 # replicate (k * bs - 4 - (r + 1)) 0 @ replicate 4 0 @ tl) (k * bs - 4)
      (UNPACK32 (of_nat (8 * length m))) = Some blk"
  proof -
    have "mem_write ((pre @ 0x80 # replicate (k * bs - 4 - (r + 1)) 0) @ replicate 4 0 @ tl)
        (length (pre @ 0x80 # replicate (k * bs - 4 - (r + 1)) (0 :: u8))) (be_bytes 4 (8 * length m)) =
      Some ((pre @ 0x80 # replicate (k * bs - 4 - (r + 1)) 0) @ be_bytes 4 (8 * length m) @ tl)"
      by (rule mem_write_mid) simp_all
    then show ?thesis unfolding l4 UNPACK32_be blk_def dp by (simp only: append_assoc append_Cons)
  qed
  have ld: "length (drop (n * bs) p) = k * bs" unfolding dp using Z(2) lb(1) by (simp add: lp)
  have tr: "transform compress bs (hs ctx) blk k = Some (md_fold compress bs h0 (n + k) p)"
  proof -
    have "k * bs \<le> length blk" unfolding blk_def length_append ld by simp
    then have "transform compress bs (hs ctx) blk k = Some (md_fold compress bs (hs ctx) k blk)"
      by (rule transform_ok)
    also have "md_fold compress bs (hs ctx) k blk = md_fold compress bs (hs ctx) k (drop (n * bs) p)"
      unfolding blk_def by (rule md_fold_app) (simp only: ld order_refl)
    also have "\<dots> = md_fold compress bs h0 (n + k) p"
    proof -
      have "hs ctx = md_fold compress bs h0 n p"
        unfolding ctx(1) p using r(2) by (simp add: md_fold_app)
      then show ?thesis by (simp only: md_fold_add)
    qed
    finally show ?thesis .
  qed
  have lp': "length p div bs = n + k"
  proof -
    have "length p = length m + 1 + lb + (bs - (length m + 1 + lb) mod bs) mod bs"
      by (simp add: p_def fips_pad_def)
    then show ?thesis using Z(3) by (simp only: n_def)
  qed
  show ?thesis
    unfolding sha_final_def Let_def kb lenb
    unfolding ctx(3) u w1 w2 w3 tr bind.bind_lunit fips_hash_def Let_def p_def[symmetric] lp' ..
qed

subsection \<open>The two hash functions\<close>

definition sha256 :: "u8 list \<Rightarrow> u8 list" where
  "sha256 m = fips_hash sha256_block (\<lambda>h. concat (map UNPACK32 h)) sha256_h0 64 8 m"

definition sha512 :: "u8 list \<Rightarrow> u8 list" where
  "sha512 m = fips_hash sha512_block (\<lambda>h. concat (map UNPACK64 h)) sha512_h0 128 16 m"

text \<open>The length of a message in bits has to fit the 32-bit word \<open>len_b\<close>.\<close>

definition len_fits :: "nat \<Rightarrow> bool" where
  "len_fits n \<longleftrightarrow> 8 * n < 2 ^ 32"

interpretation hash256: incremental_hash "sha_absorbed sha256_block sha256_h0 64" "SHA256_init (raw_ctx 64)"
  "\<lambda>s d. SHA256_update s d (of_nat (length d))" SHA256_final sha256 len_fits
proof
  show "sha_absorbed sha256_block sha256_h0 64 (SHA256_init (raw_ctx 64)) []"
    unfolding SHA256_init_def by (rule sha_absorbed_init) (simp_all add: raw_ctx_def)
next
  fix s m d assume a: "sha_absorbed sha256_block sha256_h0 64 s m" "len_fits (length (d :: u8 list))"
  then have u: "unat (of_nat (length d) :: u32) = length d" by (intro unat_of_nat_small) (simp add: len_fits_def)
  with a sha_update_ok[OF _ _ a(1), of "of_nat (length d)" d]
  show "\<exists>s'. SHA256_update s d (of_nat (length d)) = Some s' \<and> sha_absorbed sha256_block sha256_h0 64 s' (m @ d)"
    by (simp add: SHA256_update_def len_fits_def)
next
  fix s m assume "sha_absorbed sha256_block sha256_h0 64 s m" "len_fits (length m)"
  then show "SHA256_final s = Some (sha256 m)"
    using sha_final_ok[of 64 sha256_block sha256_h0 s m 8 UNPACK32]
    by (simp add: SHA256_final_def sha256_def len_fits_def)
qed

interpretation hash512: incremental_hash "sha_absorbed sha512_block sha512_h0 128" "SHA512_init (raw_ctx 128)"
  "\<lambda>s d. SHA512_update s d (of_nat (length d))" SHA512_final sha512 len_fits
proof
  show "sha_absorbed sha512_block sha512_h0 128 (SHA512_init (raw_ctx 128)) []"
    unfolding SHA512_init_def by (rule sha_absorbed_init) (simp_all add: raw_ctx_def)
next
  fix s m d assume a: "sha_absorbed sha512_block sha512_h0 128 s m" "len_fits (length (d :: u8 list))"
  then have u: "unat (of_nat (length d) :: u32) = length d" by (intro unat_of_nat_small) (simp add: len_fits_def)
  with a sha_update_ok[OF _ _ a(1), of "of_nat (length d)" d]
  show "\<exists>s'. SHA512_update s d (of_nat (length d)) = Some s' \<and> sha_absorbed sha512_block sha512_h0 128 s' (m @ d)"
    by (simp add: SHA512_update_def len_fits_def)
next
  fix s m assume "sha_absorbed sha512_block sha512_h0 128 s m" "len_fits (length m)"
  then show "SHA512_final s = Some (sha512 m)"
    using sha_final_ok[of 128 sha512_block sha512_h0 s m 16 UNPACK64]
    by (simp add: SHA512_final_def sha512_def len_fits_def)
qed

lemma rounds_length: "length h = 8 \<Longrightarrow> length (rounds F1 F2 k n w h) = 8"
  by (simp add: rounds_def fold_rounds_length)

lemma md_fold_length:
  "length h = 8 \<Longrightarrow> (\<And>h b. length h = 8 \<Longrightarrow> length (compress h b) = 8) \<Longrightarrow> length (md_fold compress bs h n m) = 8"
  by (induction n) (simp_all add: md_fold_Suc)

lemma concat_map_length: "(\<And>x. length (f x) = k) \<Longrightarrow> length (concat (map f xs)) = length xs * k"
  by (induction xs) auto

lemma sha_length [simp]: "length (sha256 m) = 32" "length (sha512 m) = 64"
proof -
  have "length (md_fold sha256_block 64 sha256_h0 n p) = 8" for n p
    by (rule md_fold_length) (simp_all add: sha256_h0_def sha256_block_def rounds_length)
  then show "length (sha256 m) = 32"
    by (simp add: sha256_def fips_hash_def Let_def concat_map_length[where k = 4])
  have "length (md_fold sha512_block 128 sha512_h0 n p) = 8" for n p
    by (rule md_fold_length) (simp_all add: sha512_h0_def sha512_block_def rounds_length)
  then show "length (sha512 m) = 64"
    by (simp add: sha512_def fips_hash_def Let_def concat_map_length[where k = 8])
qed

text \<open>Below \<open>UINT32_MAX\<close> bytes there is one chunk.\<close>

lemma chunk_loop_small:
  assumes "unat len < 2 ^ 32 - 1"
  shows "chunk_loop update ctx data len = (if len = 0 then Some ctx else update ctx data (of_nat (unat len)))"
proof (cases "len = 0")
  case True
  then show ?thesis by (subst chunk_loop.simps) simp
next
  case False
  have c: "\<not> len \<ge> 0xFFFFFFFF" using assms by (simp add: word_le_nat_alt)
  have z: "len - ucast (ucast len :: u32) = 0"
  proof -
    have "unat (ucast (ucast len :: u32) :: u64) = unat len"
      using assms by (simp add: unsigned_ucast_eq unsigned_take_bit_eq take_bit_nat_eq_self)
    then have "(ucast (ucast len :: u32) :: u64) = len" by (rule word_unat_eq_iff[THEN iffD2])
    then show ?thesis by simp
  qed
  have e: "(ucast len :: u32) = of_nat (unat len)" by (simp add: unsigned_ucast_eq word_unat_eq_iff unat_of_nat take_bit_eq_mod)
  have stop: "chunk_loop update ctx' d 0 = Some ctx'" for ctx' d by (subst chunk_loop.simps) simp
  show ?thesis using False c
    by (subst chunk_loop.simps) (simp add: Let_def z stop e[symmetric])
qed

lemma internal_sha_ok:
  assumes "unat len \<le> length data" and "len_fits (unat len)"
  shows "internal_SHA256 data len = Some (sha256 (take (unat len) data))"
    and "internal_SHA512 data len = Some (sha512 (take (unat len) data))"
proof -
  have l: "unat len < 2 ^ 32 - 1" "8 * unat len < 2 ^ 32" using assms(2) by (simp_all add: len_fits_def)
  have u: "unat (of_nat (unat len) :: u32) = unat len" using l by (intro unat_of_nat_small) simp
  have "\<exists>s. chunk_loop SHA256_update (SHA256_init (raw_ctx 64)) data len = Some s \<and>
      sha_absorbed sha256_block sha256_h0 64 s (take (unat len) data)"
    using hash256.init_law sha_update_ok[OF _ _ hash256.init_law, of "of_nat (unat len)" data] assms(1) l u
    by (auto simp: chunk_loop_small SHA256_update_def)
  with hash256.fin_law[of _ "take (unat len) data"] assms show "internal_SHA256 data len = Some (sha256 (take (unat len) data))"
    by (auto simp: internal_SHA256_def mem_read_def min_def)
  have "\<exists>s. chunk_loop SHA512_update (SHA512_init (raw_ctx 128)) data len = Some s \<and>
      sha_absorbed sha512_block sha512_h0 128 s (take (unat len) data)"
    using hash512.init_law sha_update_ok[OF _ _ hash512.init_law, of "of_nat (unat len)" data] assms(1) l u
    by (auto simp: chunk_loop_small SHA512_update_def)
  with hash512.fin_law[of _ "take (unat len) data"] assms show "internal_SHA512 data len = Some (sha512 (take (unat len) data))"
    by (auto simp: internal_SHA512_def mem_read_def min_def)
qed

subsection \<open>Properties\<close>

text \<open>C26: A context of SHA-256 or of SHA-512 that is initialised, updated with the pieces of a message,
however the message is split and whatever was left in the context's buffer by the piece before, and
finished returns the FIPS 180 hash of the whole message: the folding of the compression over the
padded message. The message must be shorter than 2 ^ 29 bytes, the most the 32-bit length that
is stored in the padding can count.\<close>

theorem sha2_incremental:
  assumes "len_fits (length (concat ds))"
  shows "do { ctx \<leftarrow> for_each ds (\<lambda>d ctx. SHA256_update ctx d (of_nat (length d))) (SHA256_init (raw_ctx 64));
              SHA256_final ctx } = Some (sha256 (concat ds)) \<and>
         do { ctx \<leftarrow> for_each ds (\<lambda>d ctx. SHA512_update ctx d (of_nat (length d))) (SHA512_init (raw_ctx 128));
              SHA512_final ctx } = Some (sha512 (concat ds))"
proof -
  have "\<forall>d \<in> set ds. len_fits (length d)"
    using assms by (induction ds) (auto simp: len_fits_def)
  then show ?thesis using hash256.chunks_hash hash512.chunks_hash assms by simp
qed

theorem sha2_incremental_witness:
  "do { ctx \<leftarrow> for_each [[0x61], [0x62, 0x63]] (\<lambda>d ctx. SHA256_update ctx d (of_nat (length d))) (SHA256_init (raw_ctx 64));
        SHA256_final ctx } = Some (sha256 [0x61, 0x62, 0x63])"
  using sha2_incremental[of "[[0x61], [0x62, 0x63]]"] by (simp add: len_fits_def)

text \<open>The one-call functions \<open>internal_SHA256\<close> and \<open>internal_SHA512\<close> return, with no access outside
the data, the FIPS 180 hashes of the first \<open>len\<close> bytes, of 32 and 64 bytes.\<close>

theorem internal_sha2_correct:
  assumes "unat len \<le> length data" and "len_fits (unat len)"
  shows "internal_SHA256 data len = Some (sha256 (take (unat len) data)) \<and>
         internal_SHA512 data len = Some (sha512 (take (unat len) data)) \<and>
         length (sha256 (take (unat len) data)) = 32 \<and> length (sha512 (take (unat len) data)) = 64"
  using internal_sha_ok[OF assms] by simp

theorem internal_sha2_correct_witness:
  "internal_SHA256 [1, 2, 3] 2 = Some (sha256 [1, 2])"
  using internal_sha2_correct[of 2 "[1, 2, 3]"] by (simp add: len_fits_def)

text \<open>The unrolled compression, eight calls of the round macro on a rotating set of working variables per
turn of its loop, computes the same chaining value as the rolled one that moves the variables.\<close>

theorem sha2_unrolled_eq_rolled:
  assumes "length h = 8" and "length h' = 8"
  shows "sha256_block_unrolled h b = sha256_block h b \<and> sha512_block_unrolled h' b' = sha512_block h' b'"
proof -
  have "rounds_unrolled SHA256_F1 SHA256_F2 sha256_k (8 * 8) w h = rounds SHA256_F1 SHA256_F2 sha256_k (8 * 8) w h" for w
    by (rule rounds_unrolled_eq) (rule assms)
  moreover have "rounds_unrolled SHA512_F1 SHA512_F2 sha512_k (8 * 10) w h' = rounds SHA512_F1 SHA512_F2 sha512_k (8 * 10) w h'" for w
    by (rule rounds_unrolled_eq) (rule assms)
  ultimately show ?thesis
    by (simp add: sha256_block_unrolled_def sha256_block_def sha512_block_unrolled_def sha512_block_def)
qed

theorem sha2_unrolled_eq_rolled_witness:
  "sha256_block_unrolled sha256_h0 (replicate 64 1) = sha256_block sha256_h0 (replicate 64 1)"
  using sha2_unrolled_eq_rolled[of sha256_h0 sha512_h0 "replicate 64 1"] by (simp add: sha256_h0_def sha512_h0_def)

end
