(* ===== verification/Montgomery.thy ===== *)
theory Montgomery
  imports VbootUtil
begin

text \<open>
  The modular arithmetic of \<open>rsa.c\<close> in \<open>package/vboot_utils/src/firmware/lib/cryptolib\<close>:
  Montgomery multiplication on little-endian arrays of 32-bit words, in 64-bit accumulators whose
  overflow and sign are those of the C types, and the fixed exponentiation built from it.
\<close>

named_theorems num_facts \<open>numbers held in arrays of words\<close>

subsection \<open>The routines\<close>

text \<open>An \<open>RSAPublicKey\<close>. The arrays \<open>n\<close> and \<open>rr\<close> are the lists of their words.\<close>

record rsa_key =
  rsa_len :: u32
  n0inv :: u32
  rsa_n :: "u32 list"
  rsa_rr :: "u32 list"
  rsa_algorithm :: u32

definition word_at :: "u32 list \<Rightarrow> nat \<Rightarrow> u32 option" where
  "word_at xs i = (if i < length xs then Some (xs ! i) else None)"

text \<open>The accumulator of \<open>subM\<close> is signed: its shift is arithmetic.\<close>

definition subM_step :: "rsa_key \<Rightarrow> nat \<Rightarrow> u32 list \<times> u64 \<Rightarrow> (u32 list \<times> u64) option" where
  "subM_step key i aA = do {
     let (a, A) = aA;
     ai \<leftarrow> word_at a i;
     ni \<leftarrow> word_at (rsa_n key) i;
     let A = A + (ucast ai - ucast ni);
     a \<leftarrow> buf_write a i (ucast A);
     Some (a, signed_drop_bit 32 A) }"

definition subM :: "rsa_key \<Rightarrow> u32 list \<Rightarrow> u32 list option" where
  "subM key a = do {
     (a, A) \<leftarrow> for_each [0..<unat (rsa_len key)] (subM_step key) (a, 0);
     Some a }"

fun geM_loop :: "u32 list \<Rightarrow> u32 list \<Rightarrow> nat \<Rightarrow> bool option" where
  "geM_loop n a 0 = Some True"
| "geM_loop n a (Suc i) = do {
     ai \<leftarrow> word_at a i;
     ni \<leftarrow> word_at n i;
     if ai < ni then Some False else if ai > ni then Some True else geM_loop n a i }"

definition geM :: "rsa_key \<Rightarrow> u32 list \<Rightarrow> bool option" where
  "geM key a = geM_loop (rsa_n key) a (unat (rsa_len key))"

definition montMulAdd_step :: "rsa_key \<Rightarrow> u32 \<Rightarrow> u32 list \<Rightarrow> u32 \<Rightarrow> nat \<Rightarrow> u64 \<times> u64 \<times> u32 list
    \<Rightarrow> (u64 \<times> u64 \<times> u32 list) option" where
  "montMulAdd_step key a b d0 i ABc = do {
     let (A, B, c) = ABc;
     bi \<leftarrow> word_at b i;
     ci \<leftarrow> word_at c i;
     ni \<leftarrow> word_at (rsa_n key) i;
     let A = drop_bit 32 A + ucast a * ucast bi + ucast ci;
     let B = drop_bit 32 B + ucast d0 * ucast ni + ucast (ucast A :: u32);
     c \<leftarrow> buf_write c (i - 1) (ucast B);
     Some (A, B, c) }"

text \<open>After the loop \<open>i\<close> is \<open>key->len\<close>, or 1 if the loop was not entered.\<close>

definition montMulAdd :: "rsa_key \<Rightarrow> u32 list \<Rightarrow> u32 \<Rightarrow> u32 list \<Rightarrow> u32 list option" where
  "montMulAdd key c a b = do {
     b0 \<leftarrow> word_at b 0;
     c0 \<leftarrow> word_at c 0;
     n0 \<leftarrow> word_at (rsa_n key) 0;
     let A = (ucast a * ucast b0 + ucast c0 :: u64);
     let d0 = (ucast A * n0inv key :: u32);
     let B = (ucast d0 * ucast n0 + ucast (ucast A :: u32) :: u64);
     (A, B, c) \<leftarrow> for_each [1..<unat (rsa_len key)] (montMulAdd_step key a b d0) (A, B, c);
     let A = drop_bit 32 A + drop_bit 32 B;
     c \<leftarrow> buf_write c (max 1 (unat (rsa_len key)) - 1) (ucast A);
     if drop_bit 32 A \<noteq> 0 then subM key c else Some c }"

definition montMul :: "rsa_key \<Rightarrow> u32 list \<Rightarrow> u32 list \<Rightarrow> u32 list \<Rightarrow> u32 list option" where
  "montMul key c a b = do {
     c \<leftarrow> for_each [0..<unat (rsa_len key)] (\<lambda>i c. buf_write c i 0) c;
     for_each [0..<unat (rsa_len key)] (\<lambda>i c. do {
       ai \<leftarrow> word_at a i;
       montMulAdd key c ai b }) c }"

text \<open>The words of the big-endian byte array.\<close>

definition load_words :: "nat \<Rightarrow> u8 list \<Rightarrow> u32 list \<Rightarrow> u32 list option" where
  "load_words len inout a =
     for_each [0..<len] (\<lambda>i a. do {
       bs \<leftarrow> mem_read inout ((len - 1 - i) * 4) 4;
       let tmp = push_bit 24 (ucast (bs ! 0)) OR push_bit 16 (ucast (bs ! 1)) OR
         push_bit 8 (ucast (bs ! 2)) OR ucast (bs ! 3);
       buf_write a i tmp }) a"

definition store_words :: "nat \<Rightarrow> u8 list \<Rightarrow> u32 list \<Rightarrow> u8 list option" where
  "store_words len inout aaa = do {
     (inout, p) \<leftarrow> for_each (rev [0..<len]) (\<lambda>i (inout, p). do {
       tmp \<leftarrow> word_at aaa i;
       inout \<leftarrow> mem_write inout p
         [ucast (drop_bit 24 tmp), ucast (drop_bit 16 tmp), ucast (drop_bit 8 tmp), ucast tmp];
       Some (inout, p + 4) }) (inout, 0);
     Some inout }"

text \<open>The three arrays are fresh allocations; every one is written before it is read.\<close>

definition modpowF4 :: "rsa_key \<Rightarrow> u8 list \<Rightarrow> u8 list option" where
  "modpowF4 key inout = do {
     let len = unat (rsa_len key);
     let a = replicate len 0;
     let aR = replicate len 0;
     let aaR = replicate len 0;
     a \<leftarrow> load_words len inout a;
     aR \<leftarrow> montMul key aR a (rsa_rr key);
     (aR, aaR) \<leftarrow> for_each [0..<8] (\<lambda>i (aR, aaR). do {
       aaR \<leftarrow> montMul key aaR aR aR;
       aR \<leftarrow> montMul key aR aaR aaR;
       Some (aR, aaR) }) (aR, aaR);
     aaa \<leftarrow> montMul key aaR aR a;
     ge \<leftarrow> geM key aaa;
     aaa \<leftarrow> (if ge then subM key aaa else Some aaa);
     store_words len inout aaa }"

subsection \<open>Numbers in arrays\<close>

fun val :: "u32 list \<Rightarrow> int" where
  "val [] = 0"
| "val (w # ws) = uint w + 2 ^ 32 * val ws"

lemma val_bounds: "0 \<le> val ws \<and> val ws < 2 ^ (32 * length ws)"
proof (induction ws)
  case (Cons w ws)
  have w: "0 \<le> uint w" "uint w < 2 ^ 32" using uint_bounded[of w] by simp_all
  have "(2 :: int) ^ (32 * length (w # ws)) = 2 ^ 32 * 2 ^ (32 * length ws)" by (simp add: power_add)
  moreover have "2 ^ 32 * (val ws + 1) \<le> 2 ^ 32 * 2 ^ (32 * length ws)" using Cons by (intro mult_left_mono) simp_all
  then have "uint w + 2 ^ 32 * val ws < 2 ^ 32 * 2 ^ (32 * length ws)" using w by (simp add: algebra_simps)
  ultimately show ?case using w Cons by simp
qed simp

lemma val_append: "val (xs @ ys) = val xs + 2 ^ (32 * length xs) * val ys"
proof (induction xs)
  case (Cons x xs)
  have "(2 :: int) ^ (32 * length (x # xs)) = 2 ^ 32 * 2 ^ (32 * length xs)" by (simp add: power_add)
  with Cons show ?case by (simp add: algebra_simps)
qed simp

lemma val_take_Suc: "i < length xs \<Longrightarrow> val (take (Suc i) xs) = val (take i xs) + 2 ^ (32 * i) * uint (xs ! i)"
  by (simp add: take_Suc_conv_app_nth val_append)

lemma val_zeros [simp]: "val (replicate k 0) = 0"
  by (induction k) simp_all

lemma val_inject: "length xs = length ys \<Longrightarrow> val xs = val ys \<Longrightarrow> xs = ys"
proof (induction xs ys rule: list_induct2)
  case (Cons x xs y ys)
  have b: "uint x mod 2 ^ 32 = uint x" "uint y mod 2 ^ 32 = uint y"
    using uint_bounded[of x] uint_bounded[of y] by simp_all
  from Cons.prems have e: "uint x + 2 ^ 32 * val xs = uint y + 2 ^ 32 * val ys" by simp
  then have "(uint x + 2 ^ 32 * val xs) mod 2 ^ 32 = (uint y + 2 ^ 32 * val ys) mod 2 ^ 32" by (rule arg_cong)
  then have "uint x = uint y" by (simp only: mod_mult_self2 b)
  moreover from this e have "val xs = val ys" by simp
  ultimately show ?case using Cons.IH by (simp add: word_uint_eq_iff)
qed simp

lemma word_at_Some [simp]: "i < length xs \<Longrightarrow> word_at xs i = Some (xs ! i)"
  by (simp add: word_at_def)

subsection \<open>Accumulators\<close>

lemma uint_low: "uint (ucast (A :: u64) :: u32) = uint A mod 2 ^ 32"
  by (simp add: unsigned_ucast_eq take_bit_eq_mod)

lemma uint_high: "uint (drop_bit 32 (A :: u64)) = uint A div 2 ^ 32"
  by (simp add: drop_bit_eq_div uint_div)

lemma uint32_bounds: "0 \<le> uint (w :: u32)" "uint (w :: u32) \<le> 2 ^ 32 - 1"
  using uint_bounded[of w] by simp_all

text \<open>A multiply-accumulate with a carry below \<open>2 ^ 32\<close> does not overflow.\<close>

lemma mac_no_overflow:
  assumes "uint h < 2 ^ 32"
  shows "uint (h + ucast a * ucast b + ucast (c :: u32) :: u64) = uint h + uint (a :: u32) * uint (b :: u32) + uint c"
proof -
  have "uint a * uint b \<le> (2 ^ 32 - 1) * (2 ^ 32 - 1)"
    by (rule mult_mono) (use uint32_bounds in simp_all)
  with assms uint32_bounds[of c] have up: "uint h + uint a * uint b + uint c < 2 ^ 64" by simp
  have lo: "0 \<le> uint h + uint a * uint b + uint c" by simp
  have "uint (h + ucast a * ucast b + ucast c :: u64) = (uint h + uint a * uint b + uint c) mod 2 ^ 64"
    by (simp add: uint_word_ariths unsigned_ucast_eq take_bit_eq_mod mod_simps)
  then show ?thesis using lo up by simp
qed

subsection \<open>Subtraction and comparison\<close>

text \<open>A step of the signed accumulator from a borrow \<open>\<alpha>\<close>.\<close>

lemma borrow_step:
  fixes x y :: u32 and \<alpha> :: int
  assumes "\<alpha> = 0 \<or> \<alpha> = -1"
  defines "t \<equiv> \<alpha> + uint x - uint y"
  shows "(ucast ((of_int \<alpha> :: u64) + (ucast x - ucast y)) :: u32) = of_int t"
    and "signed_drop_bit 32 ((of_int \<alpha> :: u64) + (ucast x - ucast y)) = of_int (t div 2 ^ 32)"
    and "t div 2 ^ 32 = 0 \<or> t div 2 ^ 32 = -1"
proof -
  have e: "(of_int \<alpha> :: u64) + (ucast x - ucast y) = of_int t"
    unfolding t_def by (simp only: ucast_eq of_int_add of_int_diff add_diff_eq)
  show "(ucast ((of_int \<alpha> :: u64) + (ucast x - ucast y)) :: u32) = of_int t"
    unfolding e by (rule word_uint_eqI) (simp add: unsigned_ucast_eq uint_word_of_int_eq)
  have b: "- (2 ^ 32) \<le> t" "t < 2 ^ 32"
  proof -
    have "-1 \<le> \<alpha>" "\<alpha> \<le> 0" using assms(1) by auto
    then show "- (2 ^ 32) \<le> t" "t < 2 ^ 32"
      unfolding t_def using uint32_bounds[of x] uint32_bounds[of y] by linarith+
  qed
  show "t div 2 ^ 32 = 0 \<or> t div 2 ^ 32 = -1"
    using b by (cases "t < 0") (auto simp: div_pos_neg_trivial)
  have s: "sint (of_int t :: u64) = t"
    using b by (subst signed_of_int) (simp add: signed_take_bit_int_eq_self)
  have "sint (signed_drop_bit 32 (of_int t :: u64)) = t div 2 ^ 32"
    by (simp add: sint_signed_drop_bit_eq s drop_bit_eq_div)
  then have "(of_int (sint (signed_drop_bit 32 (of_int t :: u64))) :: u64) = of_int (t div 2 ^ 32)" by (rule arg_cong)
  then show "signed_drop_bit 32 ((of_int \<alpha> :: u64) + (ucast x - ucast y)) = of_int (t div 2 ^ 32)"
    unfolding e by simp
qed

text \<open>The loop of \<open>subM\<close> up to \<open>k\<close>: the low words and the borrow are the difference.\<close>

lemma subM_loop:
  assumes "length a = len" and "length (rsa_n key) = len"
  shows "k \<le> len \<Longrightarrow> \<exists>a' \<alpha>. for_each [0..<k] (subM_step key) (a, 0) = Some (a', of_int \<alpha>) \<and>
     length a' = len \<and> drop k a' = drop k a \<and> (\<alpha> = 0 \<or> \<alpha> = -1) \<and>
     val (take k a') + 2 ^ (32 * k) * \<alpha> = val (take k a) - val (take k (rsa_n key))"
proof (induction k)
  case 0
  show ?case by (intro exI[of _ a] exI[of _ 0]) (simp add: assms)
next
  case (Suc k)
  let ?n = "rsa_n key"
  from Suc.IH[OF Suc_leD[OF Suc.prems]] obtain a' \<alpha> where IH:
     "for_each [0..<k] (subM_step key) (a, 0) = Some (a', of_int \<alpha>)" "length a' = len"
     "drop k a' = drop k a" "\<alpha> = 0 \<or> \<alpha> = -1"
     "val (take k a') + 2 ^ (32 * k) * \<alpha> = val (take k a) - val (take k ?n)" by blast
  have k: "k < len" "k < length a'" "k < length ?n" "k < length a" using Suc.prems assms IH(2) by simp_all
  have ak: "a' ! k = a ! k" using IH(3) k by (metis hd_drop_conv_nth)
  define t where "t = \<alpha> + uint (a ! k) - uint (?n ! k)"
  note B = borrow_step[OF IH(4), of "a ! k" "?n ! k", folded t_def]
  define a'' where "a'' = a'[k := of_int t]"
  have "subM_step key k (a', of_int \<alpha>) = Some (a'', of_int (t div 2 ^ 32))"
    unfolding subM_step_def Let_def split word_at_Some[OF k(2)] word_at_Some[OF k(3)] bind.bind_lunit ak B(1,2)
    using k(2) by (simp add: buf_write_def a''_def)
  then have e: "for_each [0..<Suc k] (subM_step key) (a, 0) = Some (a'', of_int (t div 2 ^ 32))"
    by (simp add: for_each_append IH(1))
  have "val (take (Suc k) a'') = val (take k a') + 2 ^ (32 * k) * (t mod 2 ^ 32)"
    using k by (simp add: val_take_Suc a''_def uint_word_of_int_eq take_bit_eq_mod)
  moreover have "2 ^ (32 * Suc k) * (t div 2 ^ 32) = 2 ^ (32 * k) * (2 ^ 32 * (t div 2 ^ 32))"
    using power_add[of "2 :: int" "32 * k" 32] by (simp add: add.commute)
  moreover have "2 ^ (32 * k) * (t mod 2 ^ 32) + 2 ^ (32 * k) * (2 ^ 32 * (t div 2 ^ 32)) = 2 ^ (32 * k) * t"
    by (simp only: distrib_left[symmetric] mod_mult_div_eq)
  ultimately have "val (take (Suc k) a'') + 2 ^ (32 * Suc k) * (t div 2 ^ 32) =
      val (take k a') + 2 ^ (32 * k) * t" by linarith
  also have "\<dots> = val (take (Suc k) a) - val (take (Suc k) ?n)"
    unfolding t_def val_take_Suc[OF k(4)] val_take_Suc[OF k(3)] using IH(5) by (simp add: algebra_simps)
  finally have v: "val (take (Suc k) a'') + 2 ^ (32 * Suc k) * (t div 2 ^ 32) =
      val (take (Suc k) a) - val (take (Suc k) ?n)" .
  have "drop (Suc k) a'' = drop (Suc k) a'" by (simp add: a''_def)
  also have "\<dots> = drop (Suc k) a" using IH(3) by (metis drop_Suc tl_drop)
  finally have "drop (Suc k) a'' = drop (Suc k) a" .
  moreover have "length a'' = len" using IH(2) by (simp add: a''_def)
  ultimately show ?case using e B(3) v by blast
qed

lemma subM_ok:
  assumes "length a = unat (rsa_len key)" and "length (rsa_n key) = unat (rsa_len key)"
    and "0 \<le> val a + 2 ^ (32 * unat (rsa_len key)) * carry - val (rsa_n key)"
    and "val a + 2 ^ (32 * unat (rsa_len key)) * carry - val (rsa_n key) < 2 ^ (32 * unat (rsa_len key))"
  shows "\<exists>a'. subM key a = Some a' \<and> length a' = unat (rsa_len key) \<and>
    val a' = val a + 2 ^ (32 * unat (rsa_len key)) * carry - val (rsa_n key)"
proof -
  let ?R = "(2 :: int) ^ (32 * unat (rsa_len key))"
  obtain a' \<alpha> where s: "subM key a = Some a'" "length a' = unat (rsa_len key)"
    "val a' + ?R * \<alpha> = val a - val (rsa_n key)"
  proof -
    obtain a' \<alpha> where "for_each [0..<unat (rsa_len key)] (subM_step key) (a, 0) = Some (a', of_int \<alpha>)"
      "length a' = unat (rsa_len key)"
      "val (take (unat (rsa_len key)) a') + ?R * \<alpha> =
        val (take (unat (rsa_len key)) a) - val (take (unat (rsa_len key)) (rsa_n key))"
      using subM_loop[OF assms(1,2) order_refl] by blast
    then show thesis using assms(1,2) by (intro that[of a' \<alpha>]) (simp_all add: subM_def)
  qed
  have "val a' mod ?R = val a'" using val_bounds[of a'] s(2) by simp
  moreover have "val a + ?R * carry - val (rsa_n key) = val a' + ?R * (\<alpha> + carry)"
    using s(3) by (simp add: algebra_simps)
  ultimately have "(val a + ?R * carry - val (rsa_n key)) mod ?R = val a'" by simp
  with assms(3,4) s show ?thesis by simp
qed

lemma geM_loop_ok:
  "k \<le> length a \<Longrightarrow> length n = length a \<Longrightarrow> geM_loop n a k = Some (val (take k n) \<le> val (take k a))"
proof (induction k)
  case (Suc k)
  have k: "k < length a" "k < length n" using Suc.prems by simp_all
  have b: "0 \<le> val (take k n)" "val (take k n) < 2 ^ (32 * k)" "0 \<le> val (take k a)" "val (take k a) < 2 ^ (32 * k)"
    using val_bounds[of "take k n"] val_bounds[of "take k a"] k by simp_all
  have lt: "2 ^ (32 * k) * x + 2 ^ (32 * k) \<le> 2 ^ (32 * k) * y" if "x < y" for x y :: int
  proof -
    have "2 ^ (32 * k) * (x + 1) \<le> 2 ^ (32 * k) * y" using that by (intro mult_left_mono) simp_all
    then show ?thesis by (simp add: algebra_simps)
  qed
  show ?case using lt[of "uint (a ! k)" "uint (n ! k)"] lt[of "uint (n ! k)" "uint (a ! k)"] b k Suc
    by (auto simp: val_take_Suc word_less_def word_uint_eq_iff)
qed simp

lemma geM_ok:
  assumes "length a = unat (rsa_len key)" and "length (rsa_n key) = unat (rsa_len key)"
  shows "geM key a = Some (val (rsa_n key) \<le> val a)"
  using geM_loop_ok[of "length a" a "rsa_n key"] assms by (simp add: geM_def)

subsection \<open>Montgomery multiplication\<close>

text \<open>The keys the routines are right for.\<close>

definition mont_key :: "rsa_key \<Rightarrow> bool" where
  "mont_key key \<longleftrightarrow> 0 < unat (rsa_len key) \<and> length (rsa_n key) = unat (rsa_len key) \<and>
     length (rsa_rr key) = unat (rsa_len key) \<and> rsa_n key ! 0 * n0inv key = -1"

definition mont_R :: "rsa_key \<Rightarrow> int" where
  "mont_R key = 2 ^ (32 * unat (rsa_len key))"

lemma split_word: "uint (A :: u64) = 2 ^ 32 * (uint A div 2 ^ 32) + uint (ucast A :: u32)"
  unfolding uint_low by (simp add: mult.commute)

lemma high_small: "uint (drop_bit 32 (A :: u64)) < 2 ^ 32" "0 \<le> uint A div 2 ^ 32"
proof -
  have "uint A < 2 ^ 64" using uint_bounded[of A] by simp
  with split_word[of A] uint32_bounds(1)[of "ucast A"] have "2 ^ 32 * (uint A div 2 ^ 32) < 2 ^ 32 * 2 ^ 32" by simp
  then show "uint (drop_bit 32 A) < 2 ^ 32" unfolding uint_high by simp
  show "0 \<le> uint A div 2 ^ 32" by (simp add: pos_imp_zdiv_nonneg_iff)
qed

lemma mac_step:
  "uint (drop_bit 32 (A :: u64) + ucast a * ucast b + ucast (c :: u32)) =
    uint A div 2 ^ 32 + uint (a :: u32) * uint (b :: u32) + uint c"
  using mac_no_overflow[OF high_small(1)] by (simp only: uint_high)

lemma montMulAdd_loop:
  assumes len: "length b = len" "length c = len" "length (rsa_n key) = len"
    and start: "uint a * uint (b ! 0) + uint (c ! 0) + uint d0 * uint (rsa_n key ! 0) =
      2 ^ 32 * (uint A0 div 2 ^ 32 + uint B0 div 2 ^ 32)"
  shows "j < len \<Longrightarrow> \<exists>A B c'. for_each [1..<Suc j] (montMulAdd_step key a b d0) (A0, B0, c) = Some (A, B, c') \<and>
     length c' = len \<and> drop j c' = drop j c \<and>
     uint a * val (take (Suc j) b) + val (take (Suc j) c) + uint d0 * val (take (Suc j) (rsa_n key)) =
       2 ^ 32 * val (take j c') + 2 ^ (32 * Suc j) * (uint A div 2 ^ 32 + uint B div 2 ^ 32)"
proof (induction j)
  case 0
  then have z: "0 < length b" "0 < length c" "0 < length (rsa_n key)" using len by simp_all
  have "uint a * val (take (Suc 0) b) + val (take (Suc 0) c) + uint d0 * val (take (Suc 0) (rsa_n key)) =
      uint a * uint (b ! 0) + uint (c ! 0) + uint d0 * uint (rsa_n key ! 0)"
    unfolding val_take_Suc[OF z(1)] val_take_Suc[OF z(2)] val_take_Suc[OF z(3)] by simp
  with start show ?case by (intro exI[of _ A0] exI[of _ B0] exI[of _ c]) (simp add: len)
next
  case (Suc j)
  let ?n = "rsa_n key"
  from Suc.IH[OF Suc_lessD[OF Suc.prems]] obtain A B c' where IH:
    "for_each [1..<Suc j] (montMulAdd_step key a b d0) (A0, B0, c) = Some (A, B, c')"
    "length c' = len" "drop j c' = drop j c"
    "uint a * val (take (Suc j) b) + val (take (Suc j) c) + uint d0 * val (take (Suc j) ?n) =
       2 ^ 32 * val (take j c') + 2 ^ (32 * Suc j) * (uint A div 2 ^ 32 + uint B div 2 ^ 32)" by blast
  have k: "Suc j < length b" "Suc j < length c'" "Suc j < length ?n" "Suc j < length c" "j < length c'"
    using Suc.prems len IH(2) by simp_all
  have d: "drop (Suc j) c' = drop (Suc j) c" using IH(3) by (metis drop_Suc tl_drop)
  then have ck: "c' ! Suc j = c ! Suc j" using k by (metis hd_drop_conv_nth)
  define A' where "A' = drop_bit 32 A + ucast a * ucast (b ! Suc j) + ucast (c ! Suc j)"
  define B' where "B' = drop_bit 32 B + ucast d0 * ucast (?n ! Suc j) + ucast (ucast A' :: u32)"
  define c'' where "c'' = c'[j := ucast B']"
  have "montMulAdd_step key a b d0 (Suc j) (A, B, c') = Some (A', B', c'')"
    unfolding montMulAdd_step_def Let_def split word_at_Some[OF k(1)] word_at_Some[OF k(2)] word_at_Some[OF k(3)]
      bind.bind_lunit ck A'_def[symmetric] B'_def[symmetric]
    using k(5) by (simp add: buf_write_def c''_def)
  then have e: "for_each [1..<Suc (Suc j)] (montMulAdd_step key a b d0) (A0, B0, c) = Some (A', B', c'')"
    using IH(1) by (simp add: for_each_append)
  have a': "uint A' = uint A div 2 ^ 32 + uint a * uint (b ! Suc j) + uint (c ! Suc j)"
    unfolding A'_def by (rule mac_step)
  have b': "uint B' = uint B div 2 ^ 32 + uint d0 * uint (?n ! Suc j) + uint (ucast A' :: u32)"
    unfolding B'_def by (rule mac_step)
  define P where "P = (2 :: int) ^ (32 * Suc j)"
  have P': "2 ^ (32 * Suc (Suc j)) = P * 2 ^ 32" 
    unfolding P_def using power_add[of "2 :: int" "32 * Suc j" 32] by (simp add: add.commute)
  have Pj: "2 ^ 32 * 2 ^ (32 * j) = P"
    unfolding P_def using power_add[of "2 :: int" 32 "32 * j"] by simp
  have t: "val (take (Suc j) c'') = val (take j c') + 2 ^ (32 * j) * uint (ucast B' :: u32)"
    using k(5) by (simp add: val_take_Suc c''_def)
  have sum: "uint A div 2 ^ 32 + uint B div 2 ^ 32 + uint a * uint (b ! Suc j) + uint (c ! Suc j) + uint d0 * uint (?n ! Suc j) =
      2 ^ 32 * (uint A' div 2 ^ 32 + uint B' div 2 ^ 32) + uint (ucast B' :: u32)"
    unfolding distrib_left using a' b' split_word[of A'] split_word[of B'] by linarith
  have "uint a * val (take (Suc (Suc j)) b) + val (take (Suc (Suc j)) c) + uint d0 * val (take (Suc (Suc j)) ?n) =
      (uint a * val (take (Suc j) b) + val (take (Suc j) c) + uint d0 * val (take (Suc j) ?n)) +
      P * (uint a * uint (b ! Suc j) + uint (c ! Suc j) + uint d0 * uint (?n ! Suc j))"
    unfolding val_take_Suc[OF k(1)] val_take_Suc[OF k(4)] val_take_Suc[OF k(3)] P_def[symmetric]
    by (simp add: algebra_simps)
  also have "\<dots> = 2 ^ 32 * val (take j c') + P * (uint A div 2 ^ 32 + uint B div 2 ^ 32 + uint a * uint (b ! Suc j) + uint (c ! Suc j) + uint d0 * uint (?n ! Suc j))"
    unfolding IH(4) P_def[symmetric] by (simp add: algebra_simps)
  also have "\<dots> = 2 ^ 32 * val (take j c') + P * uint (ucast B' :: u32) + P * 2 ^ 32 * (uint A' div 2 ^ 32 + uint B' div 2 ^ 32)"
    unfolding sum by (simp add: algebra_simps)
  also have "\<dots> = 2 ^ 32 * val (take (Suc j) c'') + 2 ^ (32 * Suc (Suc j)) * (uint A' div 2 ^ 32 + uint B' div 2 ^ 32)"
    unfolding t P' Pj[symmetric] by (simp add: algebra_simps)
  finally have v: "uint a * val (take (Suc (Suc j)) b) + val (take (Suc (Suc j)) c) + uint d0 * val (take (Suc (Suc j)) ?n) =
      2 ^ 32 * val (take (Suc j) c'') + 2 ^ (32 * Suc (Suc j)) * (uint A' div 2 ^ 32 + uint B' div 2 ^ 32)" .
  have "drop (Suc j) c'' = drop (Suc j) c" by (simp add: c''_def d)
  moreover have "length c'' = len" using IH(2) by (simp add: c''_def)
  ultimately show ?case using e v by blast
qed

text \<open>Congruence modulo the key, as divisibility of the difference.\<close>

definition eqm :: "int \<Rightarrow> int \<Rightarrow> int \<Rightarrow> bool" where
  "eqm n x y \<longleftrightarrow> n dvd x - y"

lemma eqm_refl [simp]: "eqm n x x"
  by (simp add: eqm_def)

lemma eqm_sym: "eqm n x y \<Longrightarrow> eqm n y x"
  by (simp add: eqm_def dvd_diff_commute)

lemma eqm_trans: "eqm n x y \<Longrightarrow> eqm n y z \<Longrightarrow> eqm n x z"
  using dvd_add[of n "x - y" "y - z"] by (simp add: eqm_def)

lemma eqm_add: "eqm n x y \<Longrightarrow> eqm n u v \<Longrightarrow> eqm n (x + u) (y + v)"
  using dvd_add[of n "x - y" "u - v"] by (simp add: eqm_def algebra_simps)

lemma eqm_mult: "eqm n x y \<Longrightarrow> eqm n u v \<Longrightarrow> eqm n (x * u) (y * v)"
proof -
  assume "eqm n x y" "eqm n u v"
  then have "n dvd (x - y) * u + y * (u - v)" by (simp add: eqm_def)
  then show ?thesis by (simp add: eqm_def algebra_simps)
qed

lemma eqm_cancel: "coprime n r \<Longrightarrow> eqm n (r * x) (r * y) \<Longrightarrow> eqm n x y"
  by (simp add: eqm_def right_diff_distrib[symmetric] coprime_dvd_mult_right_iff)

lemma eqm_mod: "eqm n x y \<Longrightarrow> 0 \<le> x \<Longrightarrow> x < n \<Longrightarrow> x = y mod n"
  by (metis eqm_def mod_eq_dvd_iff mod_pos_pos_trivial)

lemma ucast_mac: "(ucast (ucast a * ucast b + ucast c :: u64) :: u32) = a * b + c"
proof (rule word_uint_eqI)
  have "uint (ucast (ucast a * ucast b + ucast c :: u64) :: u32) = (uint a * uint b + uint c) mod 2 ^ 32"
    using mac_no_overflow[of 0 a b c] by (simp add: uint_low)
  then show "uint (ucast (ucast a * ucast b + ucast c :: u64) :: u32) = uint (a * b + c)"
    by (simp add: uint_word_ariths mod_simps)
qed

lemma val_pos: "mont_key key \<Longrightarrow> 0 < val (rsa_n key)"
proof -
  assume k: "mont_key key"
  then obtain w ws where n: "rsa_n key = w # ws" by (cases "rsa_n key") (auto simp: mont_key_def)
  have "w \<noteq> 0" using k by (auto simp: mont_key_def n)
  then have "0 < uint w" by (metis uint_0_iff uint32_bounds(1) order_le_imp_less_or_eq)
  with val_bounds[of ws] show ?thesis by (simp add: n)
qed

lemma val_below_R: "length xs = unat (rsa_len key) \<Longrightarrow> val xs < mont_R key"
  using val_bounds[of xs] by (simp add: mont_R_def)

text \<open>The sum that is divided is below \<open>2 ^ 32 (R + n)\<close>, so one subtraction is enough.\<close>

lemma sum_bound:
  fixes a b c d n M R :: int
  assumes "0 \<le> a" "a \<le> M - 1" "0 \<le> d" "d \<le> M - 1" "0 \<le> b" "b \<le> R - 1" "c \<le> R - 1" "0 \<le> n" "0 < M"
  shows "a * b + c + d * n < M * (R + n)" and "a * b + c + d * n \<le> a * b + c + (M - 1) * n"
proof -
  have 1: "a * b \<le> (M - 1) * (R - 1)" by (rule mult_mono) (use assms in simp_all)
  have 2: "d * n \<le> (M - 1) * n" by (rule mult_right_mono) (use assms in simp_all)
  then show "a * b + c + d * n \<le> a * b + c + (M - 1) * n" by simp
  have "a * b + c + d * n \<le> (M - 1) * (R - 1) + (R - 1) + (M - 1) * n" using 1 2 assms(7) by linarith
  also have "\<dots> = M * (R + n) - M - n" by (simp add: algebra_simps)
  finally show "a * b + c + d * n < M * (R + n)" using assms(8,9) by linarith
qed

lemma montMulAdd_ok:
  assumes key: "mont_key key" and len: "length b = unat (rsa_len key)" "length c = unat (rsa_len key)"
  shows "\<exists>c'. montMulAdd key c a b = Some c' \<and> length c' = unat (rsa_len key) \<and>
    eqm (val (rsa_n key)) (2 ^ 32 * val c') (uint a * val b + val c) \<and>
    2 ^ 32 * val c' \<le> uint a * val b + val c + (2 ^ 32 - 1) * val (rsa_n key)"
proof -
  let ?n = "rsa_n key"
  define L where "L = unat (rsa_len key)"
  have K: "0 < L" "length ?n = L" "?n ! 0 * n0inv key = -1" "length b = L" "length c = L"
    using key len by (simp_all add: mont_key_def L_def)
  define A where "A = (ucast a * ucast (b ! 0) + ucast (c ! 0) :: u64)"
  define d0 where "d0 = (ucast A * n0inv key :: u32)"
  define B where "B = (ucast d0 * ucast (?n ! 0) + ucast (ucast A :: u32) :: u64)"
  have uA: "uint A = uint a * uint (b ! 0) + uint (c ! 0)"
    using mac_no_overflow[of 0 a "b ! 0" "c ! 0"] by (simp add: A_def)
  have uB: "uint B = uint d0 * uint (?n ! 0) + uint (ucast A :: u32)"
    using mac_no_overflow[of 0 d0 "?n ! 0" "ucast A"] by (simp add: B_def)
  have "(ucast B :: u32) = d0 * ?n ! 0 + ucast A" unfolding B_def by (rule ucast_mac)
  also have "\<dots> = ucast A * (?n ! 0 * n0inv key) + ucast A" by (simp add: d0_def mult.commute mult.left_commute)
  finally have lB: "uint (ucast B :: u32) = 0" by (simp add: K(3))
  have start: "uint a * uint (b ! 0) + uint (c ! 0) + uint d0 * uint (?n ! 0) = 2 ^ 32 * (uint A div 2 ^ 32 + uint B div 2 ^ 32)"
    unfolding distrib_left using uA uB split_word[of A] split_word[of B] lB by linarith
  have L: "L - 1 < L" "Suc (L - 1) = L" "max 1 L - 1 = L - 1" using K(1) by simp_all
  obtain A1 B1 c1 where loop: "for_each [1..<L] (montMulAdd_step key a b d0) (A, B, c) = Some (A1, B1, c1)"
    "length c1 = L"
    "uint a * val b + val c + uint d0 * val ?n = 2 ^ 32 * val (take (L - 1) c1) + 2 ^ (32 * L) * (uint A1 div 2 ^ 32 + uint B1 div 2 ^ 32)"
    using montMulAdd_loop[OF K(4,5,2) start L(1)] K unfolding L(2) by auto
  define A2 where "A2 = drop_bit 32 A1 + drop_bit 32 B1"
  define c2 where "c2 = c1[L - 1 := ucast A2]"
  define cy where "cy = uint A2 div 2 ^ 32"
  have uA2: "uint A2 = uint A1 div 2 ^ 32 + uint B1 div 2 ^ 32"
    using high_small[of A1] high_small[of B1]
    by (simp add: A2_def uint_plus_if' uint_high)
  have c2: "length c2 = L" "val c2 = val (take (L - 1) c1) + 2 ^ (32 * (L - 1)) * uint (ucast A2 :: u32)"
  proof -
    have "val (take (Suc (L - 1)) c2) = val (take (L - 1) c1) + 2 ^ (32 * (L - 1)) * uint (ucast A2 :: u32)"
    proof -
      have l: "L - 1 < length c2" using loop(2) L(1) by (simp add: c2_def)
      show ?thesis unfolding val_take_Suc[OF l] using loop(2) L(1) by (simp add: c2_def)
    qed
    then show "length c2 = L" "val c2 = val (take (L - 1) c1) + 2 ^ (32 * (L - 1)) * uint (ucast A2 :: u32)"
      using loop(2) by (simp_all add: L(2) c2_def)
  qed
  define R where "R = (2 :: int) ^ (32 * L)"
  have Rp: "2 ^ 32 * 2 ^ (32 * (L - 1)) = R"
    unfolding R_def using power_add[of "2 :: int" 32 "32 * (L - 1)"] L(2) by (metis mult_Suc_right)
  have T: "uint a * val b + val c + uint d0 * val ?n = 2 ^ 32 * (val c2 + R * cy)"
  proof -
    have "R * uint A2 = 2 ^ 32 * (R * cy) + R * uint (ucast A2 :: u32)"
      unfolding cy_def by (subst split_word) (simp only: distrib_left mult.left_commute)
    then show ?thesis
      unfolding loop(3) c2(2) uA2[symmetric] distrib_left R_def[symmetric] mult.assoc[symmetric] Rp
      by (simp only: mult.assoc add_ac)
  qed
  have b: "0 \<le> val b" "val b \<le> R - 1" "val c \<le> R - 1" "0 \<le> val ?n" "val ?n < R" "0 \<le> val c2" "val c2 < R"
    using val_bounds[of b] val_bounds[of c] val_bounds[of ?n] val_bounds[of c2] K c2(1) by (simp_all add: R_def)
  have "2 ^ 32 * (val c2 + R * cy) < 2 ^ 32 * (R + val ?n)" using sum_bound(1)[OF uint32_bounds[of a] uint32_bounds[of d0] b(1-4)] T by simp
  then have small: "val c2 + R * cy < R + val ?n" by simp
  have top: "2 ^ 32 * (val c2 + R * cy) \<le> uint a * val b + val c + (2 ^ 32 - 1) * val ?n"
    using sum_bound(2)[OF uint32_bounds[of a] uint32_bounds[of d0] b(1-4)] T by simp
  have eq: "eqm (val ?n) (2 ^ 32 * (val c2 + R * cy)) (uint a * val b + val c)"
    unfolding eqm_def T[symmetric] by simp
  have run: "montMulAdd key c a b = (if drop_bit 32 A2 \<noteq> 0 then subM key c2 else Some c2)"
    unfolding montMulAdd_def Let_def L_def[symmetric] using K loop(1,2) L(1)
    by (simp add: A_def[symmetric] d0_def[symmetric] B_def[symmetric] A2_def[symmetric] buf_write_def L(3) c2_def del: upt_Suc)
  have z: "drop_bit 32 A2 = 0 \<longleftrightarrow> cy = 0" by (simp add: word_uint_eq_iff uint_high cy_def)
  show ?thesis
  proof (cases "cy = 0")
    case True
    with run z have "montMulAdd key c a b = Some c2" by simp
    with True c2(1) eq top show ?thesis by (auto simp: L_def)
  next
    case False
    have "0 \<le> cy" using high_small(2)[of A2] by (simp add: cy_def)
    with False have "R * 1 \<le> R * cy" by (intro mult_left_mono) (simp_all add: R_def)
    then have "0 \<le> val c2 + R * cy - val ?n" "val c2 + R * cy - val ?n < R" using b small by linarith+
    then obtain c3 where c3: "subM key c2 = Some c3" "length c3 = L" "val c3 = val c2 + R * cy - val ?n"
      using subM_ok[of c2 key cy] K(2) c2(1) by (auto simp: L_def R_def)
    have "eqm (val ?n) (2 ^ 32 * val c3) (2 ^ 32 * (val c2 + R * cy))"
      unfolding c3(3) eqm_def by (simp add: algebra_simps)
    with eq have "eqm (val ?n) (2 ^ 32 * val c3) (uint a * val b + val c)" by (rule eqm_trans[rotated])
    moreover have "2 ^ 32 * val c3 \<le> 2 ^ 32 * (val c2 + R * cy)" using c3(3) b(4) by simp
    ultimately show ?thesis using run z False c3(1,2) top by (auto simp: L_def)
  qed
qed

lemma power_split: "(2 :: int) ^ (32 * Suc k) = 2 ^ (32 * k) * 2 ^ 32"
  using power_add[of "2 :: int" "32 * k" 32] by (simp add: add.commute)

lemma zero_loop:
  "k \<le> length c \<Longrightarrow> for_each [0..<k] (\<lambda>i c. buf_write c i 0) c = Some (replicate k 0 @ drop k c)"
proof (induction k)
  case (Suc k)
  then have "drop k c = c ! k # drop (Suc k) c" by (simp add: Cons_nth_drop_Suc)
  with Suc show ?case by (simp add: for_each_append buf_write_at replicate_append_same[symmetric])
qed simp

lemma montMul_loop:
  assumes key: "mont_key key" and len: "length a = unat (rsa_len key)" "length b = unat (rsa_len key)"
  shows "k \<le> unat (rsa_len key) \<Longrightarrow>
    \<exists>c. for_each [0..<k] (\<lambda>i c. do { ai \<leftarrow> word_at a i; montMulAdd key c ai b }) (replicate (unat (rsa_len key)) 0) = Some c \<and>
      length c = unat (rsa_len key) \<and>
      eqm (val (rsa_n key)) (2 ^ (32 * k) * val c) (val (take k a) * val b) \<and>
      2 ^ (32 * k) * val c \<le> val (take k a) * val b + (2 ^ (32 * k) - 1) * val (rsa_n key)"
proof (induction k)
  case (Suc k)
  let ?n = "val (rsa_n key)"
  define P where "P = (2 :: int) ^ (32 * k)"
  have P: "0 < P" by (simp add: P_def)
  obtain c where c: "for_each [0..<k] (\<lambda>i c. do { ai \<leftarrow> word_at a i; montMulAdd key c ai b }) (replicate (unat (rsa_len key)) 0) = Some c"
    "length c = unat (rsa_len key)" "eqm ?n (P * val c) (val (take k a) * val b)"
    "P * val c \<le> val (take k a) * val b + (P - 1) * ?n"
    using Suc.IH[OF Suc_leD[OF Suc.prems]] unfolding P_def by blast
  obtain c' where c': "montMulAdd key c (a ! k) b = Some c'" "length c' = unat (rsa_len key)"
    "eqm ?n (2 ^ 32 * val c') (uint (a ! k) * val b + val c)"
    "2 ^ 32 * val c' \<le> uint (a ! k) * val b + val c + (2 ^ 32 - 1) * ?n"
    using montMulAdd_ok[OF key len(2) c(2)] by blast
  have k: "k < length a" using Suc.prems len by simp
  have run: "for_each [0..<Suc k] (\<lambda>i c. do { ai \<leftarrow> word_at a i; montMulAdd key c ai b }) (replicate (unat (rsa_len key)) 0) = Some c'"
    using c(1) c'(1) k by (simp add: for_each_append)
  have v: "val (take (Suc k) a) * val b = val (take k a) * val b + P * (uint (a ! k) * val b)"
    unfolding val_take_Suc[OF k] P_def by (simp add: algebra_simps)
  have "eqm ?n (P * (2 ^ 32 * val c')) (P * (uint (a ! k) * val b + val c))"
    using eqm_mult[OF eqm_refl c'(3)] .
  moreover have "eqm ?n (P * (uint (a ! k) * val b + val c)) (val (take (Suc k) a) * val b)"
    using eqm_add[OF eqm_refl c(3), of "P * (uint (a ! k) * val b)"] unfolding v by (simp add: algebra_simps)
  ultimately have e: "eqm ?n (2 ^ (32 * Suc k) * val c') (val (take (Suc k) a) * val b)"
    unfolding power_split P_def[symmetric] mult.assoc by (rule eqm_trans)
  have "P * (2 ^ 32 * val c') \<le> P * (uint (a ! k) * val b + val c + (2 ^ 32 - 1) * ?n)"
    using c'(4) P by (intro mult_left_mono) simp_all
  then have "P * (2 ^ 32 * val c') \<le> P * (uint (a ! k) * val b) + P * val c + (P * 2 ^ 32 - P) * ?n"
    by (simp add: algebra_simps)
  with c(4) have "P * (2 ^ 32 * val c') \<le> P * (uint (a ! k) * val b) + val (take k a) * val b + (P - 1) * ?n + (P * 2 ^ 32 - P) * ?n"
    by linarith
  also have "\<dots> = val (take (Suc k) a) * val b + (P * 2 ^ 32 - 1) * ?n" unfolding v by (simp add: algebra_simps)
  finally have "2 ^ (32 * Suc k) * val c' \<le> val (take (Suc k) a) * val b + (2 ^ (32 * Suc k) - 1) * ?n"
    unfolding power_split P_def[symmetric] mult.assoc .
  with run c'(2) e show ?case by blast
qed simp

lemma montMul_ok:
  assumes key: "mont_key key" and len: "length a = unat (rsa_len key)" "length b = unat (rsa_len key)" "length c = unat (rsa_len key)"
  shows "\<exists>c'. montMul key c a b = Some c' \<and> length c' = unat (rsa_len key) \<and>
    eqm (val (rsa_n key)) (mont_R key * val c') (val a * val b) \<and>
    mont_R key * val c' \<le> val a * val b + (mont_R key - 1) * val (rsa_n key)"
  using montMul_loop[OF key len(1,2) order_refl] zero_loop[of "unat (rsa_len key)" c] len
  by (simp add: montMul_def mont_R_def)

subsection \<open>Bytes\<close>

text \<open>The number of a big-endian byte array.\<close>

fun be_val :: "u8 list \<Rightarrow> int" where
  "be_val [] = 0"
| "be_val (b # bs) = uint b * 2 ^ (8 * length bs) + be_val bs"

lemma be_val_append: "be_val (xs @ ys) = be_val xs * 2 ^ (8 * length ys) + be_val ys"
  by (induction xs) (simp_all add: algebra_simps power_add)

lemma be_val_bounds: "0 \<le> be_val bs \<and> be_val bs < 2 ^ (8 * length bs)"
proof (induction bs)
  case (Cons b bs)
  define X where "X = (2 :: int) ^ (8 * length bs)"
  have b: "0 \<le> uint b" "uint b \<le> 255" using uint_bounded[of b] by simp_all
  have "uint b * X \<le> 255 * X" using b by (intro mult_right_mono) (simp_all add: X_def)
  moreover have "(2 :: int) ^ (8 * length (b # bs)) = 256 * X" by (simp add: power_add X_def)
  moreover have "0 \<le> be_val bs" "be_val bs < X" using Cons by (simp_all add: X_def)
  moreover have "0 \<le> uint b * X" using b by (simp add: X_def)
  ultimately show ?case unfolding be_val.simps X_def[symmetric] by linarith
qed simp

lemma bytes_word:
  "uint (push_bit 24 (ucast (b0 :: u8)) OR push_bit 16 (ucast (b1 :: u8)) OR
     push_bit 8 (ucast (b2 :: u8)) OR ucast (b3 :: u8) :: u32) = be_val [b0, b1, b2, b3]"
proof -
  let ?A = "push_bit 24 (ucast b0) :: u32" and ?B = "push_bit 16 (ucast b1) :: u32"
    and ?C = "push_bit 8 (ucast b2) :: u32" and ?D = "ucast b3 :: u32"
  have "?A + (?B OR ?C OR ?D) = ?A OR ?B OR ?C OR ?D" "?B + (?C OR ?D) = ?B OR ?C OR ?D" "?C + ?D = ?C OR ?D"
    by (rule disjunctive_add; auto simp: bit_simps dest: bit_imp_le_length)+
  then have d: "(?A OR ?B OR ?C OR ?D) = ?A + (?B + (?C + ?D))" by simp
  have b: "uint (b :: u8) \<le> 255" "0 \<le> uint b" for b using uint_bounded[of b] by simp_all
  show ?thesis unfolding d
    using b[of b0] b[of b1] b[of b2] b[of b3]
    by (simp add: uint_word_ariths push_bit_eq_mult unsigned_ucast_eq take_bit_eq_mod mod_simps)
qed

lemma for_each_snoc: "for_each xs f s = Some t \<Longrightarrow> f x t = r \<Longrightarrow> for_each (xs @ [x]) f s = r"
  by (cases r) (simp_all add: for_each_append)

text \<open>Loading: word \<open>i\<close> is made of the four bytes that end \<open>4 i\<close> before the end.\<close>

lemma four_bytes:
  assumes "length (bs :: u8 list) = 4"
  obtains b0 b1 b2 b3 where "bs = [b0, b1, b2, b3]"
proof -
  from assms obtain b0 b1 b2 b3 where "bs = [b0, b1, b2, b3]"
    by (auto simp: numeral_eq_Suc length_Suc_conv)
  then show thesis by (rule that)
qed

lemma load_words_loop:
  assumes "length inout = 4 * len"
  shows "k \<le> len \<Longrightarrow> \<exists>a. for_each [0..<k] (\<lambda>i a. do {
       bs \<leftarrow> mem_read inout ((len - 1 - i) * 4) 4;
       let tmp = push_bit 24 (ucast (bs ! 0)) OR push_bit 16 (ucast (bs ! 1)) OR
         push_bit 8 (ucast (bs ! 2)) OR ucast (bs ! 3);
       buf_write a i tmp }) (replicate len 0) = Some a \<and>
     length a = len \<and> val (take k a) = be_val (drop (4 * (len - k)) inout)"
proof (induction k)
  case 0
  show ?case using assms by simp
next
  case (Suc k)
  let ?f = "\<lambda>i a. do {
       bs \<leftarrow> mem_read inout ((len - 1 - i) * 4) 4;
       let tmp = push_bit 24 (ucast (bs ! 0)) OR push_bit 16 (ucast (bs ! 1)) OR
         push_bit 8 (ucast (bs ! 2)) OR ucast (bs ! 3);
       buf_write a i tmp } :: u32 list option"
  from Suc.IH[OF Suc_leD[OF Suc.prems]] obtain a where a: "for_each [0..<k] ?f (replicate len 0) = Some a"
    "length a = len" "val (take k a) = be_val (drop (4 * (len - k)) inout)" by blast
  define off where "off = (len - 1 - k) * 4"
  have off: "off + 4 = 4 * (len - k)" "off = 4 * (len - Suc k)" "off + 4 \<le> length inout"
    using Suc.prems assms by (simp_all add: off_def)
  define bs where "bs = take 4 (drop off inout)"
  have rd: "mem_read inout off 4 = Some bs" using off(3) by (simp add: mem_read_def bs_def)
  have "length bs = 4" using off(3) by (simp add: bs_def)
  then obtain b0 b1 b2 b3 where b: "bs = [b0, b1, b2, b3]" by (rule four_bytes)
  define tmp where "tmp = (push_bit 24 (ucast b0) OR push_bit 16 (ucast b1) OR push_bit 8 (ucast b2) OR ucast b3 :: u32)"
  have "?f k a = Some (a[k := tmp])"
    unfolding off_def[symmetric] rd bind.bind_lunit Let_def b
    using Suc.prems a(2) by (simp add: tmp_def buf_write_def)
  then have "for_each ([0..<k] @ [k]) ?f (replicate len 0) = Some (a[k := tmp])"
    by (rule for_each_snoc[OF a(1)])
  then have run: "for_each [0..<Suc k] ?f (replicate len 0) = Some (a[k := tmp])" by simp
  have k: "k < length (a[k := tmp])" using Suc.prems a(2) by simp
  have "drop off inout = bs @ drop (off + 4) inout" by (simp add: bs_def add.commute[of off] drop_drop[symmetric] del: drop_drop)
  then have "be_val (drop off inout) = be_val bs * 2 ^ (8 * length (drop (off + 4) inout)) + be_val (drop (off + 4) inout)"
    by (simp only: be_val_append)
  moreover have "8 * length (drop (off + 4) inout) = 32 * k" using off(1) assms Suc.prems by simp
  moreover have "uint tmp = be_val bs" unfolding tmp_def b by (rule bytes_word)
  ultimately have "val (take (Suc k) (a[k := tmp])) = be_val (drop off inout)"
    unfolding val_take_Suc[OF k] off(1) using a(3) k by simp
  with run k a(2) show ?case unfolding off(2) by auto
qed

lemma load_words_ok:
  assumes "length inout = 4 * len"
  shows "\<exists>a. load_words len inout (replicate len 0) = Some a \<and> length a = len \<and> val a = be_val inout"
proof -
  obtain a where "load_words len inout (replicate len 0) = Some a" "length a = len" "val (take len a) = be_val inout"
    using load_words_loop[OF assms order_refl] by (auto simp: load_words_def)
  then show ?thesis by auto
qed

text \<open>Storing, from the highest word on.\<close>

lemma word_bytes: "be_val [ucast (drop_bit 24 (w :: u32)), ucast (drop_bit 16 w), ucast (drop_bit 8 w), ucast w] = uint w"
proof -
  define b where "b k = (ucast (drop_bit k w) :: u8)" for k
  have "push_bit 24 (ucast (b 24)) OR push_bit 16 (ucast (b 16)) OR push_bit 8 (ucast (b 8)) OR ucast (b 0) = w"
  proof (rule bit_word_eqI)
    fix n assume "n < LENGTH(32)"
    then have "n < 32" by simp
    then consider "n < 8" | "8 \<le> n" "n < 16" | "16 \<le> n" "n < 24" | "24 \<le> n" "n < 32" by linarith
    then show "bit (push_bit 24 (ucast (b 24)) OR push_bit 16 (ucast (b 16)) OR push_bit 8 (ucast (b 8)) OR ucast (b 0) :: u32) n = bit w n"
      unfolding b_def by cases (auto simp: bit_simps dest: bit_imp_le_length)
  qed
  then show ?thesis using bytes_word[of "b 24" "b 16" "b 8" "b 0"] by (simp add: b_def)
qed

lemma store_words_loop:
  assumes "length inout = 4 * len" and "length aaa = len"
  shows "k \<le> len \<Longrightarrow> \<exists>out. for_each (rev [len - k..<len]) (\<lambda>i (inout, p). do {
       tmp \<leftarrow> word_at aaa i;
       inout \<leftarrow> mem_write inout p
         [ucast (drop_bit 24 tmp), ucast (drop_bit 16 tmp), ucast (drop_bit 8 tmp), ucast tmp];
       Some (inout, p + 4) }) (inout, 0) = Some (out, 4 * k) \<and>
     length out = 4 * len \<and> be_val (take (4 * k) out) = val (drop (len - k) aaa)"
proof (induction k)
  case 0
  show ?case using assms by simp
next
  case (Suc k)
  let ?f = "\<lambda>i (inout, p). do {
       tmp \<leftarrow> word_at aaa i;
       inout \<leftarrow> mem_write inout p
         [ucast (drop_bit 24 tmp), ucast (drop_bit 16 tmp), ucast (drop_bit 8 tmp), ucast tmp];
       Some (inout, p + 4) } :: (u8 list \<times> nat) option"
  from Suc.IH[OF Suc_leD[OF Suc.prems]] obtain out where o: "for_each (rev [len - k..<len]) ?f (inout, 0) = Some (out, 4 * k)"
    "length out = 4 * len" "be_val (take (4 * k) out) = val (drop (len - k) aaa)" by blast
  define i where "i = len - Suc k"
  have i: "i < len" "Suc i = len - k" using Suc.prems by (simp_all add: i_def)
  define w where "w = aaa ! i"
  define bs where "bs = ([ucast (drop_bit 24 w), ucast (drop_bit 16 w), ucast (drop_bit 8 w), ucast w] :: u8 list)"
  define out' where "out' = take (4 * k) out @ bs @ drop (4 * k + 4) out"
  have "length bs = 4" by (simp add: bs_def)
  then have "mem_write out (4 * k) bs = Some out'" using Suc.prems o(2) by (simp add: mem_write_def out'_def)
  then have "?f i (out, 4 * k) = Some (out', 4 * Suc k)"
    using i(1) assms(2) by (simp add: w_def[symmetric] bs_def)
  moreover have "rev [i..<len] = rev [len - k..<len] @ [i]" using i by (simp add: upt_conv_Cons[OF i(1)])
  ultimately have run: "for_each (rev [i..<len]) ?f (inout, 0) = Some (out', 4 * Suc k)"
    using o(1) by (simp add: for_each_append)
  have l: "length (take (4 * k) out) = 4 * k" using Suc.prems o(2) by simp
  have t: "take (4 * Suc k) out' = take (4 * k) out @ bs" using l by (simp add: out'_def bs_def)
  have "drop i aaa = w # drop (len - k) aaa" using i assms(2) by (simp add: w_def Cons_nth_drop_Suc[symmetric])
  then have v: "val (drop i aaa) = uint w + 2 ^ 32 * val (drop (len - k) aaa)" by simp
  have "be_val (take (4 * Suc k) out') = be_val (take (4 * k) out) * 2 ^ 32 + uint w"
    unfolding t be_val_append using word_bytes[of w] by (simp add: bs_def)
  also have "\<dots> = val (drop i aaa)" unfolding o(3) v by (simp add: mult.commute)
  finally have "be_val (take (4 * Suc k) out') = val (drop (len - Suc k) aaa)" by (simp only: i_def)
  moreover have "length out' = 4 * len" using Suc.prems o(2) by (simp add: out'_def bs_def)
  ultimately show ?case using run unfolding i_def by blast
qed

lemma store_words_ok:
  assumes "length inout = 4 * len" and "length aaa = len"
  shows "\<exists>out. store_words len inout aaa = Some out \<and> length out = 4 * len \<and> be_val out = val aaa"
proof -
  obtain out where "store_words len inout aaa = Some out" "length out = 4 * len" "be_val (take (4 * len) out) = val aaa"
    using store_words_loop[OF assms order_refl] by (auto simp: store_words_def)
  then show ?thesis by auto
qed

subsection \<open>The exponentiation\<close>

lemma mont_key_odd: "mont_key key \<Longrightarrow> odd (val (rsa_n key))"
proof
  assume k: "mont_key key" and e: "even (val (rsa_n key))"
  then obtain w ws where n: "rsa_n key = w # ws" by (cases "rsa_n key") (auto simp: mont_key_def)
  have "even (uint w)" using e by (simp add: n)
  then have "even ((uint w * uint (n0inv key)) mod 2 ^ 32)" by (simp add: dvd_mod)
  then have "even (uint (w * n0inv key))" by (simp add: uint_word_ariths)
  moreover have "w * n0inv key = -1" using k by (simp add: mont_key_def n)
  moreover have "odd (uint (-1 :: u32))" by (simp add: unsigned_minus_1_eq_mask mask_eq_exp_minus_1)
  ultimately show False by simp
qed

lemma mont_R_coprime: "mont_key key \<Longrightarrow> coprime (val (rsa_n key)) (mont_R key)"
  using mont_key_odd[of key] by (simp add: mont_R_def coprime_power_right_iff)

text \<open>A Montgomery product of two residues in Montgomery form is in Montgomery form.\<close>

lemma montMul_form:
  assumes key: "mont_key key" and len: "length a = unat (rsa_len key)" "length b = unat (rsa_len key)" "length c = unat (rsa_len key)"
    and "eqm (val (rsa_n key)) (val a) (x * mont_R key)" and "eqm (val (rsa_n key)) (val b) y"
  shows "\<exists>c'. montMul key c a b = Some c' \<and> length c' = unat (rsa_len key) \<and>
    eqm (val (rsa_n key)) (val c') (x * y) \<and>
    mont_R key * val c' \<le> val a * val b + (mont_R key - 1) * val (rsa_n key)"
proof -
  let ?n = "val (rsa_n key)" and ?R = "mont_R key"
  obtain c' where c: "montMul key c a b = Some c'" "length c' = unat (rsa_len key)"
    "eqm ?n (?R * val c') (val a * val b)" "?R * val c' \<le> val a * val b + (?R - 1) * ?n"
    using montMul_ok[OF key len] by blast
  have "eqm ?n (val a * val b) (?R * (x * y))"
    using eqm_mult[OF assms(5,6)] by (simp add: algebra_simps)
  with c(3) have "eqm ?n (?R * val c') (?R * (x * y))" by (rule eqm_trans)
  then have "eqm ?n (val c') (x * y)" by (rule eqm_cancel[OF mont_R_coprime[OF key]])
  with c show ?thesis by blast
qed

lemma square_loop:
  assumes key: "mont_key key" and len: "length aR = unat (rsa_len key)" "length aaR = unat (rsa_len key)"
    and "eqm (val (rsa_n key)) (val aR) (x * mont_R key)"
  shows "\<exists>aR' aaR'. for_each [0..<k] (\<lambda>i (aR, aaR). do {
       aaR \<leftarrow> montMul key aaR aR aR;
       aR \<leftarrow> montMul key aR aaR aaR;
       Some (aR, aaR) }) (aR, aaR) = Some (aR', aaR') \<and>
     length aR' = unat (rsa_len key) \<and> length aaR' = unat (rsa_len key) \<and>
     eqm (val (rsa_n key)) (val aR') (x ^ 4 ^ k * mont_R key)"
proof (induction k)
  case 0
  show ?case using assms by simp
next
  case (Suc k)
  let ?n = "val (rsa_n key)" and ?R = "mont_R key" and ?x = "x ^ 4 ^ k"
  obtain aR' aaR' where IH: "for_each [0..<k] (\<lambda>i (aR, aaR). do {
       aaR \<leftarrow> montMul key aaR aR aR;
       aR \<leftarrow> montMul key aR aaR aaR;
       Some (aR, aaR) }) (aR, aaR) = Some (aR', aaR')"
     "length aR' = unat (rsa_len key)" "length aaR' = unat (rsa_len key)" "eqm ?n (val aR') (?x * ?R)"
    using Suc.IH by blast
  obtain c1 where c1: "montMul key aaR' aR' aR' = Some c1" "length c1 = unat (rsa_len key)" "eqm ?n (val c1) (?x * (?x * ?R))"
    using montMul_form[OF key IH(2) IH(2) IH(3) IH(4) IH(4)] by blast
  then have f1: "eqm ?n (val c1) (?x ^ 2 * ?R)" by (simp add: power2_eq_square mult.assoc)
  obtain c2 where c2: "montMul key aR' c1 c1 = Some c2" "length c2 = unat (rsa_len key)" "eqm ?n (val c2) (?x ^ 2 * (?x ^ 2 * ?R))"
    using montMul_form[OF key c1(2) c1(2) IH(2) f1 f1] by blast
  have "?x ^ 2 * (?x ^ 2 * ?R) = x ^ 4 ^ Suc k * ?R"
    by (simp add: power_mult[symmetric] power_add[symmetric] mult.assoc[symmetric])
  with IH c1 c2 show ?case by (auto simp: for_each_upto simp del: upt_Suc)
qed

lemma modpowF4_ok:
  assumes key: "mont_key key" and rr: "eqm (val (rsa_n key)) (val (rsa_rr key)) (mont_R key ^ 2)"
    and len: "length inout = 4 * unat (rsa_len key)"
    and range: "be_val inout < val (rsa_n key) \<or> mont_R key \<le> 2 * val (rsa_n key)"
  shows "\<exists>out. modpowF4 key inout = Some out \<and> length out = length inout \<and>
    be_val out = be_val inout ^ 65537 mod val (rsa_n key)"
proof -
  let ?n = "val (rsa_n key)" and ?R = "mont_R key"
  define L where "L = unat (rsa_len key)"
  define s where "s = be_val inout"
  have K: "length (rsa_n key) = L" "length (rsa_rr key) = L" using key by (simp_all add: mont_key_def L_def)
  have n: "0 < ?n" by (rule val_pos[OF key])
  have R: "0 < ?R" by (simp add: mont_R_def)
  obtain a where a: "load_words L inout (replicate L 0) = Some a" "length a = L" "val a = s"
    using load_words_ok[of inout L] len by (auto simp: L_def s_def)
  obtain aR where aR: "montMul key (replicate L 0) a (rsa_rr key) = Some aR" "length aR = L" "eqm ?n (val aR) (s * ?R)"
  proof -
    obtain c where c: "montMul key (replicate L 0) a (rsa_rr key) = Some c" "length c = L" "eqm ?n (?R * val c) (val a * val (rsa_rr key))"
      using montMul_ok[OF key, of a "rsa_rr key" "replicate L 0"] a K by (auto simp: L_def)
    have "eqm ?n (val a * val (rsa_rr key)) (?R * (s * ?R))"
      using eqm_mult[OF eqm_refl rr, of s] a(3) by (simp add: power2_eq_square algebra_simps)
    with c(3) have "eqm ?n (?R * val c) (?R * (s * ?R))" by (rule eqm_trans)
    then have "eqm ?n (val c) (s * ?R)" by (rule eqm_cancel[OF mont_R_coprime[OF key]])
    with c that show thesis by blast
  qed
  obtain bR bbR where sq: "for_each [0..<8] (\<lambda>i (aR, aaR). do {
       aaR \<leftarrow> montMul key aaR aR aR;
       aR \<leftarrow> montMul key aR aaR aaR;
       Some (aR, aaR) }) (aR, replicate L 0) = Some (bR, bbR)"
     "length bR = L" "length bbR = L" "eqm ?n (val bR) (s ^ 4 ^ 8 * ?R)"
    using square_loop[OF key _ _ aR(3), of "replicate L 0" 8] aR(2) by (auto simp: L_def)
  obtain aaa where aaa: "montMul key bbR bR a = Some aaa" "length aaa = L" "eqm ?n (val aaa) (s ^ 4 ^ 8 * s)"
    "?R * val aaa \<le> val bR * val a + (?R - 1) * ?n"
    using montMul_form[OF key _ _ _ sq(4), of a bbR s] sq a by (auto simp: L_def)
  have pow: "s ^ 4 ^ 8 * s = s ^ 65537" by (simp add: power_Suc2[symmetric] del: power_Suc)
  have below: "val aaa < 2 * ?n"
  proof (cases "s < ?n")
    case True
    have "val bR * val a \<le> (?R - 1) * val a"
      by (rule mult_right_mono) (use val_below_R[of bR key] val_bounds[of a] sq(2) in \<open>simp_all add: L_def\<close>)
    then have "?R * val aaa \<le> (?R - 1) * (s + ?n)" using aaa(4) a(3) by (simp add: algebra_simps)
    also have "\<dots> < ?R * (s + ?n)" using n val_bounds[of a] a(3) by (simp add: algebra_simps)
    finally have "val aaa < s + ?n" using R by simp
    with True show ?thesis by simp
  next
    case False
    then have "?R \<le> 2 * ?n" using range by (simp add: s_def)
    with val_below_R[of aaa key] aaa(2) show ?thesis by (simp add: L_def)
  qed
  have ge: "geM key aaa = Some (?n \<le> val aaa)" using geM_ok[of aaa key] aaa(2) K by (simp add: L_def)
  obtain res where res: "(if ?n \<le> val aaa then subM key aaa else Some aaa) = Some res" "length res = L"
    "val res = s ^ 65537 mod ?n"
  proof (cases "?n \<le> val aaa")
    case True
    then obtain res where r: "subM key aaa = Some res" "length res = L" "val res = val aaa - ?n"
      using subM_ok[of aaa key 0] aaa(2) K val_below_R[of aaa key] n by (auto simp: L_def mont_R_def)
    have "eqm ?n (val res) (val aaa)" by (simp add: r(3) eqm_def)
    then have "eqm ?n (val res) (s ^ 65537)" using aaa(3) unfolding pow by (rule eqm_trans)
    then have "val res = s ^ 65537 mod ?n" by (rule eqm_mod) (use r(3) below True in simp_all)
    with r True that show thesis by simp
  next
    case False
    have "val aaa = s ^ 65537 mod ?n"
      by (rule eqm_mod[OF aaa(3)[unfolded pow]]) (use val_bounds[of aaa] False in simp_all)
    with False aaa(2) that show thesis by simp
  qed
  obtain out where "store_words L inout res = Some out" "length out = 4 * L" "be_val out = val res"
    using store_words_ok[of inout L res] len res(2) by (auto simp: L_def)
  then show ?thesis
    using a(1) aR(1) sq(1) aaa(1) ge res len
    by (simp add: modpowF4_def L_def[symmetric] s_def[symmetric])
qed

subsection \<open>No access is out of bounds, whatever the key holds\<close>

definition key_arrays :: "rsa_key \<Rightarrow> bool" where
  "key_arrays key \<longleftrightarrow> 0 < unat (rsa_len key) \<and> length (rsa_n key) = unat (rsa_len key) \<and>
     length (rsa_rr key) = unat (rsa_len key)"

lemma subM_total:
  "key_arrays key \<Longrightarrow> length a = unat (rsa_len key) \<Longrightarrow> \<exists>a'. subM key a = Some a' \<and> length a' = unat (rsa_len key)"
  using subM_loop[of a "unat (rsa_len key)" key "unat (rsa_len key)"] by (auto simp: key_arrays_def subM_def)

lemma montMulAdd_loop_total:
  "length b = len \<Longrightarrow> length c = len \<Longrightarrow> length (rsa_n key) = len \<Longrightarrow> j < len \<Longrightarrow>
    \<exists>A' B' c'. for_each [1..<Suc j] (montMulAdd_step key a b d0) (A, B, c) = Some (A', B', c') \<and> length c' = len"
proof (induction j)
  case (Suc j)
  then obtain A' B' c' where r: "for_each [1..<Suc j] (montMulAdd_step key a b d0) (A, B, c) = Some (A', B', c')" "length c' = len"
    by fastforce
  have "\<exists>A2 B2 c2. montMulAdd_step key a b d0 (Suc j) (A', B', c') = Some (A2, B2, c2) \<and> length c2 = len"
    using Suc.prems r(2) by (simp add: montMulAdd_step_def buf_write_def Let_def)
  then obtain A2 B2 c2 where "montMulAdd_step key a b d0 (Suc j) (A', B', c') = Some (A2, B2, c2)" "length c2 = len"
    by blast
  moreover from for_each_snoc[OF r(1) this(1)] have
    "for_each [1..<Suc (Suc j)] (montMulAdd_step key a b d0) (A, B, c) = Some (A2, B2, c2)" by simp
  ultimately show ?case by blast
qed simp

lemma montMulAdd_total:
  assumes "key_arrays key" and "length b = unat (rsa_len key)" and "length c = unat (rsa_len key)"
  shows "\<exists>c'. montMulAdd key c a b = Some c' \<and> length c' = unat (rsa_len key)"
proof -
  let ?L = "unat (rsa_len key)"
  have L: "?L - 1 < ?L" "Suc (?L - 1) = ?L" "max 1 ?L - 1 = ?L - 1" "0 < ?L"
    using assms(1) by (simp_all add: key_arrays_def)
  have n: "length (rsa_n key) = ?L" using assms(1) by (simp add: key_arrays_def)
  have run: "\<exists>A' B' c'. for_each [1..<?L] (montMulAdd_step key a b d0) (A, B, c) = Some (A', B', c') \<and> length c' = ?L" for d0 A B
    using montMulAdd_loop_total[OF assms(2,3) n L(1)] unfolding L(2) .
  define d0 where "d0 = (ucast (ucast a * ucast (b ! 0) + ucast (c ! 0) :: u64) * n0inv key :: u32)"
  obtain A' B' c' where r: "for_each [1..<?L] (montMulAdd_step key a b d0)
      (ucast a * ucast (b ! 0) + ucast (c ! 0),
       ucast d0 * ucast (rsa_n key ! 0) + ucast (ucast (ucast a * ucast (b ! 0) + ucast (c ! 0) :: u64) :: u32), c) = Some (A', B', c')"
    "length c' = ?L" using run by blast
  define c2 where "c2 = c'[?L - 1 := ucast (drop_bit 32 A' + drop_bit 32 B')]"
  have "montMulAdd key c a b = (if drop_bit 32 (drop_bit 32 A' + drop_bit 32 B') \<noteq> 0 then subM key c2 else Some c2)"
    using assms n L r by (simp add: montMulAdd_def Let_def d0_def[symmetric] buf_write_def c2_def)
  moreover have "length c2 = ?L" using r(2) by (simp add: c2_def)
  ultimately show ?thesis using subM_total[OF assms(1)] by simp
qed

lemma montMul_total:
  assumes "key_arrays key" and "length a = unat (rsa_len key)" and "length b = unat (rsa_len key)" and "length c = unat (rsa_len key)"
  shows "\<exists>c'. montMul key c a b = Some c' \<and> length c' = unat (rsa_len key)"
proof -
  have "\<exists>c'. for_each [0..<unat (rsa_len key)] (\<lambda>i c. do { ai \<leftarrow> word_at a i; montMulAdd key c ai b })
      (replicate (unat (rsa_len key)) 0) = Some c' \<and> length c' = unat (rsa_len key)"
    by (rule for_each_invar[where I = "\<lambda>_ c. length c = unat (rsa_len key)"])
      (use assms montMulAdd_total[OF assms(1,3)] in auto)
  then show ?thesis using zero_loop[of "unat (rsa_len key)" c] assms(4) by (simp add: montMul_def)
qed

lemma geM_total:
  assumes "key_arrays key" and "length a = unat (rsa_len key)"
  shows "\<exists>ge. geM key a = Some ge"
  using geM_ok[OF assms(2)] assms(1) by (simp add: key_arrays_def)

lemma modpowF4_total:
  assumes key: "key_arrays key" and len: "length inout = 4 * unat (rsa_len key)"
  shows "\<exists>out. modpowF4 key inout = Some out \<and> length out = length inout"
proof -
  define L where "L = unat (rsa_len key)"
  have K: "length (rsa_rr key) = L" using key by (simp add: key_arrays_def L_def)
  note M = montMul_total[OF key, folded L_def]
  obtain a where a: "load_words L inout (replicate L 0) = Some a" "length a = L"
    using load_words_ok[of inout L] len by (auto simp: L_def)
  obtain aR where aR: "montMul key (replicate L 0) a (rsa_rr key) = Some aR" "length aR = L"
    using M[of a "rsa_rr key" "replicate L 0"] a K by auto
  have "\<exists>s. for_each [0..<8] (\<lambda>i (aR, aaR). do {
       aaR \<leftarrow> montMul key aaR aR aR;
       aR \<leftarrow> montMul key aR aaR aaR;
       Some (aR, aaR) }) (aR, replicate L 0) = Some s \<and> (\<lambda>(x, y). length x = L \<and> length y = L) s"
  proof (rule for_each_invar[where I = "\<lambda>_ (x, y). length x = L \<and> length y = L"])
    fix i and s :: "u32 list \<times> u32 list"
    assume "case s of (x, y) \<Rightarrow> length x = L \<and> length y = L"
    then obtain x y where s: "s = (x, y)" "length x = L" "length y = L" by auto
    obtain y' where y: "montMul key y x x = Some y'" "length y' = L" using M s by blast
    obtain x' where "montMul key x y' y' = Some x'" "length x' = L" using M y s by blast
    with y s show "\<exists>s'. (case s of (aR, aaR) \<Rightarrow> do {
       aaR \<leftarrow> montMul key aaR aR aR;
       aR \<leftarrow> montMul key aR aaR aaR;
       Some (aR, aaR) }) = Some s' \<and> (case s' of (x, y) \<Rightarrow> length x = L \<and> length y = L)" by simp
  qed (use aR in simp)
  then obtain bR bbR where sq: "for_each [0..<8] (\<lambda>i (aR, aaR). do {
       aaR \<leftarrow> montMul key aaR aR aR;
       aR \<leftarrow> montMul key aR aaR aaR;
       Some (aR, aaR) }) (aR, replicate L 0) = Some (bR, bbR)" "length bR = L" "length bbR = L" by auto
  obtain aaa where aaa: "montMul key bbR bR a = Some aaa" "length aaa = L" using M a sq by blast
  obtain ge where ge: "geM key aaa = Some ge" using geM_total[OF key] aaa by (auto simp: L_def)
  obtain res where res: "(if ge then subM key aaa else Some aaa) = Some res" "length res = L"
    using subM_total[OF key, of aaa] aaa by (cases ge) (auto simp: L_def)
  obtain out where "store_words L inout res = Some out" "length out = 4 * L"
    using store_words_ok[of inout L res] len res(2) by (auto simp: L_def)
  then show ?thesis using a(1) aR(1) sq(1) aaa(1) ge res len by (simp add: modpowF4_def L_def[symmetric])
qed

end
