(* ===== verification/Rsa.thy ===== *)
theory Rsa
  imports Sha1 Sha2 Montgomery
begin

text \<open>
  RSA signatures as \<open>package/vboot_utils/src/firmware/lib/cryptolib\<close> checks them: the tables of
  \<open>padding.c\<close>, the choice of a hash in \<open>sha_utility.c\<close>, the keys of \<open>rsa_utility.c\<close> and the
  verification of \<open>rsa.c\<close>, on top of the hashes and of the modular exponentiation. An allocation
  succeeds (\<open>VbExMalloc\<close> does not return otherwise); memory that was not written is not in the model's
  lists, so that reading it is \<open>None\<close>. A key in memory is in the byte order of the machine, a parameter.
\<close>

subsection \<open>Tables\<close>

definition SHA1_digestinfo :: "u8 list" where
  "SHA1_digestinfo = [0x30,0x21,0x30,0x09,0x06,0x05,0x2b,0x0e,0x03,0x02,0x1a,0x05,0x00,0x04,0x14]"

definition SHA256_digestinfo :: "u8 list" where
  "SHA256_digestinfo =
     [0x30,0x31,0x30,0x0d,0x06,0x09,0x60,0x86,0x48,0x01,0x65,0x03,0x04,0x02,0x01,0x05,0x00,0x04,0x20]"

definition SHA512_digestinfo :: "u8 list" where
  "SHA512_digestinfo =
     [0x30,0x51,0x30,0x0d,0x06,0x09,0x60,0x86,0x48,0x01,0x65,0x03,0x04,0x02,0x03,0x05,0x00,0x04,0x40]"

text \<open>The padding arrays; the run of \<open>0xff\<close> bytes is written as a repetition.\<close>

definition paddingRSA1024_SHA1 :: "u8 list" where
  "paddingRSA1024_SHA1 = [0x00, 0x01] @ replicate 90 0xff @ [0x00] @ SHA1_digestinfo"

definition paddingRSA1024_SHA256 :: "u8 list" where
  "paddingRSA1024_SHA256 = [0x00, 0x01] @ replicate 74 0xff @ [0x00] @ SHA256_digestinfo"

definition paddingRSA1024_SHA512 :: "u8 list" where
  "paddingRSA1024_SHA512 = [0x00, 0x01] @ replicate 42 0xff @ [0x00] @ SHA512_digestinfo"

definition paddingRSA2048_SHA1 :: "u8 list" where
  "paddingRSA2048_SHA1 = [0x00, 0x01] @ replicate 218 0xff @ [0x00] @ SHA1_digestinfo"

definition paddingRSA2048_SHA256 :: "u8 list" where
  "paddingRSA2048_SHA256 = [0x00, 0x01] @ replicate 202 0xff @ [0x00] @ SHA256_digestinfo"

definition paddingRSA2048_SHA512 :: "u8 list" where
  "paddingRSA2048_SHA512 = [0x00, 0x01] @ replicate 170 0xff @ [0x00] @ SHA512_digestinfo"

definition paddingRSA4096_SHA1 :: "u8 list" where
  "paddingRSA4096_SHA1 = [0x00, 0x01] @ replicate 474 0xff @ [0x00] @ SHA1_digestinfo"

definition paddingRSA4096_SHA256 :: "u8 list" where
  "paddingRSA4096_SHA256 = [0x00, 0x01] @ replicate 458 0xff @ [0x00] @ SHA256_digestinfo"

definition paddingRSA4096_SHA512 :: "u8 list" where
  "paddingRSA4096_SHA512 = [0x00, 0x01] @ replicate 426 0xff @ [0x00] @ SHA512_digestinfo"

definition paddingRSA8192_SHA1 :: "u8 list" where
  "paddingRSA8192_SHA1 = [0x00, 0x01] @ replicate 986 0xff @ [0x00] @ SHA1_digestinfo"

definition paddingRSA8192_SHA256 :: "u8 list" where
  "paddingRSA8192_SHA256 = [0x00, 0x01] @ replicate 970 0xff @ [0x00] @ SHA256_digestinfo"

definition paddingRSA8192_SHA512 :: "u8 list" where
  "paddingRSA8192_SHA512 = [0x00, 0x01] @ replicate 938 0xff @ [0x00] @ SHA512_digestinfo"

definition kNumAlgorithms :: nat where
  "kNumAlgorithms = 12"

definition digestinfo_size_map :: "nat list" where
  "digestinfo_size_map = [15, 19, 19, 15, 19, 19, 15, 19, 19, 15, 19, 19]"

definition siglen_map :: "nat list" where
  "siglen_map = [128, 128, 128, 256, 256, 256, 512, 512, 512, 1024, 1024, 1024]"

definition padding_map :: "u8 list list" where
  "padding_map =
    [paddingRSA1024_SHA1,
     paddingRSA1024_SHA256,
     paddingRSA1024_SHA512,
     paddingRSA2048_SHA1,
     paddingRSA2048_SHA256,
     paddingRSA2048_SHA512,
     paddingRSA4096_SHA1,
     paddingRSA4096_SHA256,
     paddingRSA4096_SHA512,
     paddingRSA8192_SHA1,
     paddingRSA8192_SHA256,
     paddingRSA8192_SHA512]"

definition padding_size_map :: "nat list" where
  "padding_size_map = [108, 96, 64, 236, 224, 192, 492, 480, 448, 1004, 992, 960]"

definition hash_type_map :: "nat list" where
  "hash_type_map = [0, 1, 2, 0, 1, 2, 0, 1, 2, 0, 1, 2]"

definition hash_size_map :: "nat list" where
  "hash_size_map = [20, 32, 64, 20, 32, 64, 20, 32, 64, 20, 32, 64]"

definition hash_blocksize_map :: "nat list" where
  "hash_blocksize_map = [64, 64, 128, 64, 64, 128, 64, 64, 128, 64, 64, 128]"

definition hash_digestinfo_map :: "u8 list list" where
  "hash_digestinfo_map = 
    [SHA1_digestinfo, SHA256_digestinfo, SHA512_digestinfo,
     SHA1_digestinfo, SHA256_digestinfo, SHA512_digestinfo,
     SHA1_digestinfo, SHA256_digestinfo, SHA512_digestinfo,
     SHA1_digestinfo, SHA256_digestinfo, SHA512_digestinfo]"

definition table_at :: "'a list \<Rightarrow> nat \<Rightarrow> 'a option" where
  "table_at xs i = (if i < length xs then Some (xs ! i) else None)"

subsection \<open>The hash of an algorithm\<close>

text \<open>A \<open>DigestContext\<close>: the one context that is allocated, or none for an unknown hash type.\<close>

datatype digest_ctx = Sha1_Ctx sha1_ctx | Sha256_Ctx "u32 sha_ctx" | Sha512_Ctx "u64 sha_ctx" | No_Ctx

definition DigestInit :: "nat \<Rightarrow> digest_ctx option" where
  "DigestInit sig_algorithm = do {
     algorithm \<leftarrow> table_at hash_type_map sig_algorithm;
     Some (if algorithm = 0 then Sha1_Ctx (SHA1_init raw_sha1)
       else if algorithm = 1 then Sha256_Ctx (SHA256_init (raw_ctx 64))
       else if algorithm = 2 then Sha512_Ctx (SHA512_init (raw_ctx 128))
       else No_Ctx) }"

fun DigestUpdate :: "digest_ctx \<Rightarrow> u8 list \<Rightarrow> u32 \<Rightarrow> digest_ctx option" where
  "DigestUpdate (Sha1_Ctx ctx) data len = map_option Sha1_Ctx (SHA1_update ctx data (ucast len))"
| "DigestUpdate (Sha256_Ctx ctx) data len = map_option Sha256_Ctx (SHA256_update ctx data len)"
| "DigestUpdate (Sha512_Ctx ctx) data len = map_option Sha512_Ctx (SHA512_update ctx data len)"
| "DigestUpdate No_Ctx data len = Some No_Ctx"

text \<open>The digest, \<open>NULL\<close> without a context.\<close>

fun DigestFinal :: "digest_ctx \<Rightarrow> u8 list ptr option" where
  "DigestFinal (Sha1_Ctx ctx) = do { p \<leftarrow> SHA1_final ctx; digest \<leftarrow> mem_read p 0 20; Some (Some digest) }"
| "DigestFinal (Sha256_Ctx ctx) = do { p \<leftarrow> SHA256_final ctx; digest \<leftarrow> mem_read p 0 32; Some (Some digest) }"
| "DigestFinal (Sha512_Ctx ctx) = do { p \<leftarrow> SHA512_final ctx; digest \<leftarrow> mem_read p 0 64; Some (Some digest) }"
| "DigestFinal No_Ctx = Some None"

definition DigestBuf :: "u8 list \<Rightarrow> u64 \<Rightarrow> nat \<Rightarrow> u8 list option" where
  "DigestBuf buf len sig_algorithm = do {
     hash \<leftarrow> table_at
       [internal_SHA1, internal_SHA256, internal_SHA512,
        internal_SHA1, internal_SHA256, internal_SHA512,
        internal_SHA1, internal_SHA256, internal_SHA512,
        internal_SHA1, internal_SHA256, internal_SHA512] sig_algorithm;
     hash buf len }"

subsection \<open>Keys\<close>

datatype endian = Little | Big

fun load32 :: "endian \<Rightarrow> u8 list \<Rightarrow> u32" where
  "load32 Little bs = buf_w bs 0"
| "load32 Big bs = PACK32 bs 0"

definition load_array :: "endian \<Rightarrow> u8 list \<Rightarrow> u32 list" where
  "load_array e bs = map (\<lambda>i. load32 e (take 4 (drop (4 * i) bs))) [0..<length bs div 4]"

text \<open>The size of a processed key, \<open>None\<close> for the return value 0.\<close>

definition RSAProcessedKeySize :: "u64 \<Rightarrow> u64 option" where
  "RSAProcessedKeySize algorithm =
     (if unat algorithm < kNumAlgorithms
      then let key_len = siglen_map ! unat algorithm in Some (of_nat (2 * key_len + 4 + 4))
      else None)"

text \<open>A new key: \<open>n0inv\<close> is not initialised.\<close>

definition RSAPublicKeyNew :: "u32 \<Rightarrow> rsa_key" where
  "RSAPublicKeyNew junk =
     \<lparr>rsa_len = 0, n0inv = junk, rsa_n = [], rsa_rr = [], rsa_algorithm = of_nat kNumAlgorithms\<rparr>"

definition RSAPublicKeyFromBuf :: "endian \<Rightarrow> u32 \<Rightarrow> u8 list \<Rightarrow> u64 \<Rightarrow> rsa_key ptr option" where
  "RSAPublicKeyFromBuf e junk buf len = do {
     let key = RSAPublicKeyNew junk;
     let st = StatefulInit len;
     (st, b) \<leftarrow> StatefulMemcpy buf st 4;
     let key = (case b of None \<Rightarrow> key | Some bs \<Rightarrow> key\<lparr>rsa_len := load32 e bs\<rparr>);
     let key_len = (ucast (rsa_len key) * 4 :: u64);
     if 128 \<noteq> key_len \<and> 256 \<noteq> key_len \<and> 512 \<noteq> key_len \<and> 1024 \<noteq> key_len then Some None
     else do {
       (st, b) \<leftarrow> StatefulMemcpy buf st 4;
       let key = (case b of None \<Rightarrow> key | Some bs \<Rightarrow> key\<lparr>n0inv := load32 e bs\<rparr>);
       (st, b) \<leftarrow> StatefulMemcpy buf st key_len;
       let key = (case b of None \<Rightarrow> key | Some bs \<Rightarrow> key\<lparr>rsa_n := load_array e bs\<rparr>);
       (st, b) \<leftarrow> StatefulMemcpy buf st key_len;
       let key = (case b of None \<Rightarrow> key | Some bs \<Rightarrow> key\<lparr>rsa_rr := load_array e bs\<rparr>);
       if overrun st \<or> remaining_len st \<noteq> 0 then Some None else Some (Some key) } }"

subsection \<open>Verification\<close>

text \<open>\<open>size_t\<close> has 32 bits, so \<open>key->len * sizeof(uint32_t)\<close> is a product of 32-bit words.\<close>

fun RSAVerify :: "rsa_key ptr \<Rightarrow> u8 list ptr \<Rightarrow> u32 \<Rightarrow> u8 \<Rightarrow> u8 list ptr \<Rightarrow> int option" where
  "RSAVerify (Some key) (Some sig) sig_len sig_type (Some hash) =
     (if sig_len \<noteq> rsa_len key * 4 then Some 0
      else if unat sig_type \<ge> kNumAlgorithms then Some 0
      else if unat (rsa_len key) \<noteq> siglen_map ! unat sig_type div 4 then Some 0
      else do {
        buf \<leftarrow> mem_read sig 0 (unat sig_len);
        buf \<leftarrow> modpowF4 key buf;
        let padding = padding_map ! unat sig_type;
        let padding_len = padding_size_map ! unat sig_type;
        differs \<leftarrow> SafeMemcmp buf padding padding_len;
        let success = (if differs \<noteq> 0 then 0 else 1);
        differs \<leftarrow> SafeMemcmp (drop padding_len buf) hash (unat sig_len - padding_len);
        Some (if differs \<noteq> 0 then 0 else success) })"
| "RSAVerify _ _ sig_len sig_type _ = Some 0"

text \<open>What the two entry points share: the choice of the key and its verification of a digest.\<close>

definition choose_key :: "endian \<Rightarrow> u32 \<Rightarrow> u8 list ptr \<Rightarrow> rsa_key ptr \<Rightarrow> u64 \<Rightarrow> rsa_key ptr option" where
  "choose_key e junk key_blob key key_size =
     (case (key_blob, key) of
        (Some blob, None) \<Rightarrow> RSAPublicKeyFromBuf e junk blob key_size
      | (None, Some k) \<Rightarrow> Some (Some k)
      | _ \<Rightarrow> Some None)"

definition RSAVerifyBinary_f :: "endian \<Rightarrow> u32 \<Rightarrow> u8 list ptr \<Rightarrow> rsa_key ptr \<Rightarrow> u8 list \<Rightarrow> u64 \<Rightarrow> u8 list ptr \<Rightarrow> u32
    \<Rightarrow> int option" where
  "RSAVerifyBinary_f e junk key_blob key buf len sig algorithm =
     (if unat algorithm \<ge> kNumAlgorithms then Some 0
      else case RSAProcessedKeySize (ucast algorithm) of
        None \<Rightarrow> Some 0
      | Some key_size \<Rightarrow> do {
          let sig_size = siglen_map ! unat algorithm;
          verification_key \<leftarrow> choose_key e junk key_blob key key_size;
          (case verification_key of
             None \<Rightarrow> Some 0
           | Some k \<Rightarrow> do {
               digest \<leftarrow> DigestBuf buf len (unat algorithm);
               RSAVerify (Some k) sig (of_nat sig_size) (ucast algorithm) (Some digest) }) })"

definition RSAVerifyBinaryWithDigest_f :: "endian \<Rightarrow> u32 \<Rightarrow> u8 list ptr \<Rightarrow> rsa_key ptr \<Rightarrow> u8 list ptr \<Rightarrow> u8 list ptr \<Rightarrow> u32
    \<Rightarrow> int option" where
  "RSAVerifyBinaryWithDigest_f e junk key_blob key digest sig algorithm =
     (if unat algorithm \<ge> kNumAlgorithms then Some 0
      else case RSAProcessedKeySize (ucast algorithm) of
        None \<Rightarrow> Some 0
      | Some key_size \<Rightarrow> do {
          let sig_size = siglen_map ! unat algorithm;
          verification_key \<leftarrow> choose_key e junk key_blob key key_size;
          (case verification_key of
             None \<Rightarrow> Some 0
           | Some k \<Rightarrow> RSAVerify (Some k) sig (of_nat sig_size) (ucast algorithm) digest) })"

subsection \<open>The tables fit together\<close>

lemma algorithms: "t < kNumAlgorithms \<longleftrightarrow> t \<in> {0, 1, 2, 3, 4, 5, 6, 7, 8, 9, 10, 11}"
  by (auto simp: kNumAlgorithms_def numeral_eq_Suc less_Suc_eq)

lemmas padding_arrays =
  paddingRSA1024_SHA1_def paddingRSA1024_SHA256_def paddingRSA1024_SHA512_def
  paddingRSA2048_SHA1_def paddingRSA2048_SHA256_def paddingRSA2048_SHA512_def
  paddingRSA4096_SHA1_def paddingRSA4096_SHA256_def paddingRSA4096_SHA512_def
  paddingRSA8192_SHA1_def paddingRSA8192_SHA256_def paddingRSA8192_SHA512_def

lemmas digestinfos = SHA1_digestinfo_def SHA256_digestinfo_def SHA512_digestinfo_def

lemmas size_maps = siglen_map_def padding_size_map_def hash_size_map_def digestinfo_size_map_def hash_type_map_def

text \<open>The encoding of PKCS 1.5: \<open>0x00 || 0x01 || PS || 0x00 || DigestInfo || H\<close>, as long as the key.\<close>

definition emsa_pkcs1 :: "nat \<Rightarrow> u8 list \<Rightarrow> u8 list \<Rightarrow> u8 list" where
  "emsa_pkcs1 k digestinfo h =
     [0x00, 0x01] @ replicate (k - 3 - length digestinfo - length h) 0xff @ [0x00] @ digestinfo @ h"

lemma padding_emsa:
  assumes "t < kNumAlgorithms" and "length h = hash_size_map ! t"
  shows "padding_map ! t @ h = emsa_pkcs1 (siglen_map ! t) (hash_digestinfo_map ! t) h"
proof -
  have "length h = hash_size_map ! t \<Longrightarrow> padding_map ! t @ h = emsa_pkcs1 (siglen_map ! t) (hash_digestinfo_map ! t) h"
    if "t \<in> {0, 1, 2, 3, 4, 5, 6, 7, 8, 9, 10, 11}" for t
    using that unfolding insert_iff empty_iff
    by (elim disjE)
      (simp_all add: padding_map_def padding_arrays size_maps hash_digestinfo_map_def digestinfos emsa_pkcs1_def)
  then show ?thesis using assms algorithms by blast
qed

lemma table_sizes:
  assumes "t < kNumAlgorithms"
  shows "length (padding_map ! t) = padding_size_map ! t" and "padding_size_map ! t + hash_size_map ! t = siglen_map ! t"
    and "siglen_map ! t \<in> {128, 256, 512, 1024}"
proof -
  have "length (padding_map ! t) = padding_size_map ! t \<and> padding_size_map ! t + hash_size_map ! t = siglen_map ! t \<and>
      siglen_map ! t \<in> {128, 256, 512, 1024}"
    if "t \<in> {0, 1, 2, 3, 4, 5, 6, 7, 8, 9, 10, 11}" for t
    using that unfolding insert_iff empty_iff
    by (elim disjE) (simp_all add: padding_map_def padding_arrays size_maps digestinfos)
  then show "length (padding_map ! t) = padding_size_map ! t" "padding_size_map ! t + hash_size_map ! t = siglen_map ! t"
    "siglen_map ! t \<in> {128, 256, 512, 1024}" using assms algorithms by blast+
qed

subsection \<open>Verification is the comparison with the encoded hash\<close>

lemma be_val_inject: "length xs = length ys \<Longrightarrow> be_val xs = be_val ys \<longleftrightarrow> xs = ys"
proof (induction xs ys rule: list_induct2)
  case (Cons x xs y ys)
  define P where "P = (2 :: int) ^ (8 * length ys)"
  have b: "be_val xs mod P = be_val xs" "be_val ys mod P = be_val ys" "be_val xs div P = 0" "be_val ys div P = 0"
    using be_val_bounds[of xs] be_val_bounds[of ys] Cons.hyps by (simp_all add: P_def)
  have P: "P \<noteq> 0" by (simp add: P_def)
  have "be_val xs = be_val ys \<and> uint x = uint y" if e: "uint x * P + be_val xs = uint y * P + be_val ys"
  proof
    show "be_val xs = be_val ys" using arg_cong[OF e, of "\<lambda>v. v mod P"] b by simp
    show "uint x = uint y" using arg_cong[OF e, of "\<lambda>v. v div P"] b P by simp
  qed
  then show ?case using Cons by (auto simp: P_def[symmetric] word_uint_eq_iff)
qed simp

lemma SafeMemcmp_ok:
  assumes "n \<le> length xs" and "n \<le> length ys"
  shows "SafeMemcmp xs ys n = Some (if take n xs = take n ys then 0 else 1)"
  using memcmp_loop_ok[OF assms, of 0] by (auto simp: SafeMemcmp_def)

text \<open>The keys a verification is right for: in Montgomery's setting, with \<open>rr\<close> the square of the radix, and
  with a modulus that uses its highest bit.\<close>

definition good_key :: "rsa_key \<Rightarrow> bool" where
  "good_key key \<longleftrightarrow> mont_key key \<and> eqm (val (rsa_n key)) (val (rsa_rr key)) (mont_R key ^ 2) \<and>
     mont_R key \<le> 2 * val (rsa_n key)"

text \<open>RSA with the exponent 65537.\<close>

definition rsa_public :: "rsa_key \<Rightarrow> u8 list \<Rightarrow> int" where
  "rsa_public key sig = be_val sig ^ 65537 mod val (rsa_n key)"

lemma RSAVerify_ok:
  assumes key: "good_key key" and t: "unat sig_type < kNumAlgorithms"
    and len: "unat (rsa_len key) = siglen_map ! unat sig_type div 4" "siglen_map ! unat sig_type \<le> length sig"
      "hash_size_map ! unat sig_type \<le> length hash"
  defines "k \<equiv> siglen_map ! unat sig_type"
  shows "RSAVerify (Some key) (Some sig) (of_nat k) sig_type (Some hash) = Some
    (if rsa_public key (take k sig) =
        be_val (emsa_pkcs1 k (hash_digestinfo_map ! unat sig_type) (take (hash_size_map ! unat sig_type) hash))
     then 1 else 0)"
proof -
  let ?p = "padding_map ! unat sig_type" and ?d = "hash_size_map ! unat sig_type"
  note S = table_sizes[OF t]
  have k: "k \<in> {128, 256, 512, 1024}" "k = 4 * (k div 4)" using S(3) by (auto simp: k_def)
  have l: "unat (of_nat k :: u32) = k" using k(1) by auto
  have kl: "of_nat k = rsa_len key * 4"
  proof -
    have r: "rsa_len key = of_nat (k div 4)" unfolding k_def len(1)[symmetric] by simp
    have "rsa_len key * 4 = (of_nat (k div 4 * 4) :: u32)" unfolding r by simp
    also have "k div 4 * 4 = k" using k(2) by simp
    finally show ?thesis by simp
  qed
  define h where "h = take ?d hash"
  have lh: "length h = ?d" using len(3) by (simp add: h_def)
  have lk: "4 * unat (rsa_len key) = k" using len(1) k(2) by (simp add: k_def)
  have G: "mont_key key" "eqm (val (rsa_n key)) (val (rsa_rr key)) (mont_R key ^ 2)" "mont_R key \<le> 2 * val (rsa_n key)"
    using key by (simp_all add: good_key_def)
  have ls: "length (take k sig) = 4 * unat (rsa_len key)" using len(2) lk by (simp add: k_def)
  obtain out where out: "modpowF4 key (take k sig) = Some out" "length out = k" "be_val out = rsa_public key (take k sig)"
    using modpowF4_ok[OF G(1,2) ls] G(3) ls lk unfolding rsa_public_def by auto
  have pk: "length ?p + ?d = k" "padding_size_map ! unat sig_type = length ?p" using S by (simp_all add: k_def)
  have "out = ?p @ h \<longleftrightarrow> take (length ?p) out = ?p \<and> drop (length ?p) out = h"
    by (metis append_eq_conv_conj append_take_drop_id)
  moreover have "take ?d (drop (length ?p) out) = drop (length ?p) out" using out(2) pk(1) by simp
  ultimately have eq: "take (length ?p) out = ?p \<and> take ?d (drop (length ?p) out) = take ?d hash \<longleftrightarrow> out = ?p @ h"
    by (simp add: h_def)
  have "length out = length (?p @ h)" using out(2) pk(1) lh by simp
  then have inj: "out = ?p @ h \<longleftrightarrow> be_val out = be_val (?p @ h)" by (simp only: be_val_inject)
  have enc: "?p @ h = emsa_pkcs1 k (hash_digestinfo_map ! unat sig_type) h"
    unfolding k_def by (rule padding_emsa[OF t lh])
  have iff: "take (length ?p) out = ?p \<and> take ?d (drop (length ?p) out) = take ?d hash \<longleftrightarrow>
      rsa_public key (take k sig) = be_val (emsa_pkcs1 k (hash_digestinfo_map ! unat sig_type) h)"
    unfolding eq out(3)[symmetric] enc[symmetric] by (rule inj)
  have c1: "SafeMemcmp out ?p (length ?p) = Some (if take (length ?p) out = ?p then 0 else 1)"
    using SafeMemcmp_ok[of "length ?p" out ?p] out(2) pk(1) by simp
  have c2: "SafeMemcmp (drop (length ?p) out) hash ?d = Some (if take ?d (drop (length ?p) out) = take ?d hash then 0 else 1)"
    by (rule SafeMemcmp_ok) (use out(2) pk(1) len(3) in simp_all)
  have m: "mem_read sig 0 k = Some (take k sig)" using len(2) by (simp add: mem_read_def k_def)
  have d: "k - length ?p = ?d" using pk(1) by simp
  have "RSAVerify (Some key) (Some sig) (of_nat k) sig_type (Some hash) = Some
    (if take (length ?p) out = ?p \<and> take ?d (drop (length ?p) out) = take ?d hash then 1 else 0)"
    using t len(1) unfolding RSAVerify.simps Let_def l m out(1) bind.bind_lunit pk(2) d c1 c2
    by (simp add: kl[symmetric])
  then show ?thesis unfolding iff h_def .
qed

subsection \<open>Digests\<close>

definition digest_of :: "nat \<Rightarrow> u8 list \<Rightarrow> u8 list" where
  "digest_of t m = (if t mod 3 = 0 then sha1 m else if t mod 3 = 1 then sha256 m else sha512 m)"

lemma DigestBuf_ok:
  assumes "t < kNumAlgorithms" and "unat len \<le> length data" and "len_fits (unat len)"
  shows "DigestBuf data len t = Some (digest_of t (take (unat len) data))"
proof -
  note H = internal_sha1_ok[OF assms(2)] internal_sha_ok[OF assms(2,3)]
  have "DigestBuf data len t = Some (digest_of t (take (unat len) data))"
    if "t \<in> {0, 1, 2, 3, 4, 5, 6, 7, 8, 9, 10, 11}" for t
    using that unfolding insert_iff empty_iff
    by (elim disjE) (simp_all add: DigestBuf_def table_at_def digest_of_def H)
  then show ?thesis using assms(1) algorithms by blast
qed

lemma digest_of_length: "t < kNumAlgorithms \<Longrightarrow> length (digest_of t m) = hash_size_map ! t"
proof -
  have "length (digest_of t m) = hash_size_map ! t" if "t \<in> {0, 1, 2, 3, 4, 5, 6, 7, 8, 9, 10, 11}" for t
    using that unfolding insert_iff empty_iff by (elim disjE) (simp_all add: digest_of_def hash_size_map_def)
  then show "t < kNumAlgorithms \<Longrightarrow> length (digest_of t m) = hash_size_map ! t" using algorithms by blast
qed

text \<open>The context has seen the message \<open>m\<close>.\<close>

fun digest_absorbed :: "nat \<Rightarrow> digest_ctx \<Rightarrow> u8 list \<Rightarrow> bool" where
  "digest_absorbed t (Sha1_Ctx c) m \<longleftrightarrow> t mod 3 = 0 \<and> sha1_absorbed c m"
| "digest_absorbed t (Sha256_Ctx c) m \<longleftrightarrow> t mod 3 = 1 \<and> sha_absorbed sha256_block sha256_h0 64 c m"
| "digest_absorbed t (Sha512_Ctx c) m \<longleftrightarrow> t mod 3 = 2 \<and> sha_absorbed sha512_block sha512_h0 128 c m"
| "digest_absorbed t No_Ctx m \<longleftrightarrow> False"

lemma DigestInit_ok:
  assumes "t < kNumAlgorithms"
  shows "\<exists>c. DigestInit t = Some c \<and> digest_absorbed t c []"
proof -
  have "\<exists>c. DigestInit t = Some c \<and> digest_absorbed t c []" if "t \<in> {0, 1, 2, 3, 4, 5, 6, 7, 8, 9, 10, 11}" for t
    using that unfolding insert_iff empty_iff
    by (elim disjE)
      (simp_all add: DigestInit_def table_at_def hash_type_map_def sha1_init_absorbed hash256.init_law hash512.init_law)
  then show ?thesis using assms algorithms by blast
qed

lemma len_fits_32: "len_fits n \<Longrightarrow> unat (of_nat n :: u32) = n" "len_fits n \<Longrightarrow> len64_fits n"
  by (simp_all add: len_fits_def len64_fits_def unat_of_nat)

lemma DigestUpdate_ok:
  assumes "digest_absorbed t c m" and "len_fits (length d)"
  shows "\<exists>c'. DigestUpdate c d (of_nat (length d)) = Some c' \<and> digest_absorbed t c' (m @ d)"
proof (cases c)
  case (Sha1_Ctx c1)
  have "unat (ucast (of_nat (length d) :: u32) :: u64) = length d"
    using len_fits_32(1)[OF assms(2)] assms(2) by (simp add: unsigned_ucast_eq take_bit_nat_eq_self len_fits_def)
  then have "\<exists>c'. SHA1_update c1 d (ucast (of_nat (length d) :: u32)) = Some c' \<and> sha1_absorbed c' (m @ d)"
    using SHA1_update_ok[of c1 m "ucast (of_nat (length d) :: u32)" d] assms(1) Sha1_Ctx by simp
  then show ?thesis using assms(1) Sha1_Ctx by auto
next
  case (Sha256_Ctx c1)
  then show ?thesis using hash256.update_law[of c1 m d] assms by auto
next
  case (Sha512_Ctx c1)
  then show ?thesis using hash512.update_law[of c1 m d] assms by auto
next
  case No_Ctx
  then show ?thesis using assms(1) by simp
qed

lemma DigestFinal_ok:
  assumes "digest_absorbed t c m" and "len_fits (length m)"
  shows "DigestFinal c = Some (Some (digest_of t m))"
proof (cases c)
  case (Sha1_Ctx c1)
  with assms(1) digest20_final(1)[of c1 m] show ?thesis
    by (auto simp: digest20_def digest_of_def split: bind_splits)
next
  case (Sha256_Ctx c1)
  then show ?thesis using hash256.fin_law[of c1 m] assms by (auto simp: digest_of_def mem_read_def)
next
  case (Sha512_Ctx c1)
  then show ?thesis using hash512.fin_law[of c1 m] assms by (auto simp: digest_of_def mem_read_def)
next
  case No_Ctx
  then show ?thesis using assms(1) by simp
qed

subsection \<open>Keys from memory\<close>

lemma StatefulInit_at: "unat len \<le> length mem \<Longrightarrow> state_at mem (StatefulInit len) 0"
  by (simp add: state_at_def StatefulInit_def)

lemma reads3:
  assumes "state_at mem st off"
  shows "\<exists>s1 s2 s3 b1 b2 b3. StatefulMemcpy mem st x = Some (s1, b1) \<and> StatefulMemcpy mem s1 y = Some (s2, b2) \<and>
    StatefulMemcpy mem s2 z = Some (s3, b3) \<and>
    (overrun s3 \<longleftrightarrow> unat x + unat y + unat z > unat (remaining_len st)) \<and>
    (\<not> overrun s3 \<longrightarrow> unat (remaining_len s3) = unat (remaining_len st) - (unat x + unat y + unat z) \<and>
      b1 = Some (take (unat x) (drop off mem)) \<and> b2 = Some (take (unat y) (drop (off + unat x) mem)) \<and>
      b3 = Some (take (unat z) (drop (off + unat x + unat y) mem)))"
  using run_reads_ok[OF assms, of "[x, y, z]"]
  by (auto split: bind_splits simp: add_ac)

lemma RSAPublicKeyFromBuf_ok:
  fixes e :: endian
  assumes len: "unat len \<le> length mem"
  defines "w \<equiv> load32 e (take 4 mem)"
  defines "L \<equiv> unat w"
  shows "RSAPublicKeyFromBuf e junk mem len = Some
    (if 4 \<le> unat len \<and> 4 * L \<in> {128, 256, 512, 1024} \<and> unat len = 8 + 8 * L
     then Some \<lparr>rsa_len = w, n0inv = load32 e (take 4 (drop 4 mem)),
       rsa_n = load_array e (take (4 * L) (drop 8 mem)), rsa_rr = load_array e (take (4 * L) (drop (8 + 4 * L) mem)),
       rsa_algorithm = 12\<rparr>
     else None)"
proof (cases "4 \<le> unat len")
  case False
  then have "StatefulMemcpy mem (StatefulInit len) 4 = Some ((StatefulInit len)\<lparr>overrun := True\<rparr>, None)"
    by (intro StatefulMemcpy_overrun[OF StatefulInit_at[OF len]]) (simp add: StatefulInit_def)
  with False show ?thesis by (simp add: RSAPublicKeyFromBuf_def RSAPublicKeyNew_def)
next
  case True
  define st where "st = advance (StatefulInit len) 4"
  have r1: "StatefulMemcpy mem (StatefulInit len) 4 = Some (st, Some (take 4 mem))" and at: "state_at mem st 4"
    using StatefulMemcpy_ok[OF StatefulInit_at[OF len], of 4] True len by (simp_all add: StatefulInit_def st_def)
  have rem: "unat (remaining_len st) = unat len - 4" using True by (simp add: st_def advance_def StatefulInit_def unat_sub word_le_nat_alt)
  define kl where "kl = (ucast w * 4 :: u64)"
  have kl: "unat kl = 4 * L"
  proof -
    have "L < 2 ^ LENGTH(32)" unfolding L_def by (rule unsigned_less)
    then have "L < 2 ^ 32" by simp
    moreover from this have "unat (ucast w :: u64) = L"
      by (simp add: L_def unsigned_ucast_eq take_bit_nat_eq_self)
    ultimately show ?thesis by (simp add: kl_def unat_word_ariths)
  qed
  have kleq: "128 \<noteq> kl \<and> 256 \<noteq> kl \<and> 512 \<noteq> kl \<and> 1024 \<noteq> kl \<longleftrightarrow> 4 * L \<notin> {128, 256, 512, 1024}"
    unfolding kl[symmetric] by (auto simp: word_unat_eq_iff)
  obtain s1 s2 s3 b1 b2 b3 where r: "StatefulMemcpy mem st 4 = Some (s1, b1)" "StatefulMemcpy mem s1 kl = Some (s2, b2)"
    "StatefulMemcpy mem s2 kl = Some (s3, b3)" "overrun s3 \<longleftrightarrow> 4 + 4 * L + 4 * L > unat len - 4"
    "\<not> overrun s3 \<longrightarrow> unat (remaining_len s3) = unat len - 4 - (4 + 4 * L + 4 * L) \<and>
      b1 = Some (take 4 (drop 4 mem)) \<and> b2 = Some (take (4 * L) (drop 8 mem)) \<and> b3 = Some (take (4 * L) (drop (8 + 4 * L) mem))"
  proof -
    have u4: "unat (4 :: u64) = 4" by simp
    have o: "4 + 4 = (8 :: nat)" by simp
    from reads3[OF at, of 4 kl kl] show thesis unfolding rem kl u4 o by (elim exE conjE) (rule that)
  qed
  have z: "remaining_len s3 = 0 \<longleftrightarrow> unat (remaining_len s3) = 0" by (simp add: word_unat_eq_iff)
  have run: "RSAPublicKeyFromBuf e junk mem len =
     (if 4 * L \<notin> {128, 256, 512, 1024} then Some None
      else if overrun s3 \<or> remaining_len s3 \<noteq> 0 then Some None
      else Some (Some \<lparr>rsa_len = w, n0inv = load32 e (take 4 (drop 4 mem)),
       rsa_n = load_array e (take (4 * L) (drop 8 mem)), rsa_rr = load_array e (take (4 * L) (drop (8 + 4 * L) mem)),
       rsa_algorithm = 12\<rparr>))"
    unfolding kleq[symmetric] using r
    by (auto simp: RSAPublicKeyFromBuf_def RSAPublicKeyNew_def r1 w_def[symmetric] kl_def[symmetric] kNumAlgorithms_def Let_def)
  have "\<not> (overrun s3 \<or> remaining_len s3 \<noteq> 0) \<longleftrightarrow> unat len = 8 + 8 * L"
    using r(4,5) True unfolding z by auto
  then show ?thesis unfolding run using True by auto
qed

subsection \<open>Properties\<close>

text \<open>\<open>modpowF4\<close> replaces the big-endian number in its buffer by its power to 65537 modulo the key: the Montgomery
steps, with their 64-bit accumulators, single conditional subtractions and one final reduction, neither
overflow nor leave a result that is not fully reduced, and every array access is inside its array. The
number is below the modulus, or the modulus uses its highest bit; the key's \<open>n0inv\<close> and \<open>rr\<close> are those of its
modulus.\<close>

theorem modpowF4_correct:
  assumes "mont_key key" and "eqm (val (rsa_n key)) (val (rsa_rr key)) (mont_R key ^ 2)"
    and "length inout = 4 * unat (rsa_len key)"
    and "be_val inout < val (rsa_n key) \<or> mont_R key \<le> 2 * val (rsa_n key)"
  shows "\<exists>out. modpowF4 key inout = Some out \<and> length out = length inout \<and>
    be_val out = be_val inout ^ 65537 mod val (rsa_n key)"
  by (rule modpowF4_ok) (fact assms)+

text \<open>A key of one word: the modulus \<open>2 ^ 32 - 5\<close>.\<close>

definition small_key :: rsa_key where
  "small_key = \<lparr>rsa_len = 1, n0inv = 0xCCCCCCCD, rsa_n = [0xFFFFFFFB], rsa_rr = [25], rsa_algorithm = 0\<rparr>"

theorem modpowF4_correct_witness:
  "\<exists>out. modpowF4 small_key [0, 0, 0, 2] = Some out \<and> length out = length [0, 0, 0, 2 :: u8] \<and>
    be_val out = be_val [0, 0, 0, 2] ^ 65537 mod val (rsa_n small_key)"
proof (rule modpowF4_correct)
  show "mont_key small_key" by (simp add: mont_key_def small_key_def)
  show "eqm (val (rsa_n small_key)) (val (rsa_rr small_key)) (mont_R small_key ^ 2)"
    by (simp add: eqm_def small_key_def mont_R_def)
qed (simp_all add: small_key_def)

text \<open>\<open>RSAVerify\<close> accepts a signature exactly when its power to 65537 modulo the key is the PKCS 1.5 encoding of
the hash for the algorithm: \<open>0x00 0x01\<close>, a run of \<open>0xff\<close> up to the length of the key, \<open>0x00\<close>, the identifier of
the hash function and the hash. Null pointers, an unknown algorithm, and a signature or a key whose length is
not that of the algorithm are rejected. The comparison looks at every byte of the result.\<close>

theorem RSAVerify_correct:
  assumes "good_key key" and "unat sig_type < kNumAlgorithms"
    and "unat (rsa_len key) = siglen_map ! unat sig_type div 4" and "siglen_map ! unat sig_type \<le> length sig"
    and "hash_size_map ! unat sig_type \<le> length hash"
  shows "RSAVerify (Some key) (Some sig) (of_nat (siglen_map ! unat sig_type)) sig_type (Some hash) = Some
    (if rsa_public key (take (siglen_map ! unat sig_type) sig) =
        be_val (emsa_pkcs1 (siglen_map ! unat sig_type) (hash_digestinfo_map ! unat sig_type)
          (take (hash_size_map ! unat sig_type) hash))
     then 1 else 0) \<and>
    RSAVerify None (Some sig) sig_len sig_type (Some hash) = Some 0 \<and>
    RSAVerify (Some key) None sig_len sig_type (Some hash) = Some 0 \<and>
    RSAVerify (Some key) (Some sig) sig_len sig_type None = Some 0 \<and>
    (kNumAlgorithms \<le> unat bad_type \<longrightarrow> RSAVerify (Some key) (Some sig) sig_len bad_type (Some hash) = Some 0) \<and>
    (sig_len \<noteq> of_nat (siglen_map ! unat sig_type) \<longrightarrow>
      RSAVerify (Some key) (Some sig) sig_len sig_type (Some hash) = Some 0)"
proof -
  have "of_nat (siglen_map ! unat sig_type) = rsa_len key * 4"
  proof -
    have d: "siglen_map ! unat sig_type = siglen_map ! unat sig_type div 4 * 4"
      using table_sizes(3)[OF assms(2)] by auto
    have "rsa_len key = of_nat (siglen_map ! unat sig_type div 4)" unfolding assms(3)[symmetric] by simp
    then have "rsa_len key * 4 = of_nat (siglen_map ! unat sig_type div 4 * 4)" by simp
    then show ?thesis using d by simp
  qed
  then show ?thesis using RSAVerify_ok[OF assms] by simp
qed

text \<open>A key of the smallest length: the modulus \<open>2 ^ 1024 - 1\<close>, for which the radix is 1.\<close>

definition ones_key :: rsa_key where
  "ones_key = \<lparr>rsa_len = 32, n0inv = 1, rsa_n = replicate 32 (-1), rsa_rr = 1 # replicate 31 0, rsa_algorithm = 0\<rparr>"

lemma val_ones: "val (replicate k (-1)) = 2 ^ (32 * k) - 1"
proof (induction k)
  case (Suc k)
  have "uint (-1 :: u32) = 2 ^ 32 - 1" by (simp add: unsigned_minus_1_eq_mask mask_eq_exp_minus_1)
  with Suc show ?case by (simp add: power_split[simplified] algebra_simps power_add)
qed simp

lemma ones_key_good: "good_key ones_key"
proof -
  have n: "val (rsa_n ones_key) = 2 ^ 1024 - 1" using val_ones[of 32] by (simp add: ones_key_def)
  have r: "mont_R ones_key = 2 ^ 1024" "val (rsa_rr ones_key) = 1" by (simp_all add: ones_key_def mont_R_def)
  have "(2 ^ 1024 - 1) dvd (1 - (2 ^ 1024) ^ 2 :: int)" by (rule dvdI[of _ _ "- (2 ^ 1024 + 1)"]) simp
  then have "eqm (val (rsa_n ones_key)) (val (rsa_rr ones_key)) (mont_R ones_key ^ 2)" unfolding n r eqm_def .
  moreover have "mont_key ones_key" by (simp add: mont_key_def ones_key_def)
  moreover have "mont_R ones_key \<le> 2 * val (rsa_n ones_key)" unfolding n r by simp
  ultimately show ?thesis by (simp add: good_key_def)
qed

lemma be_val_zeros [simp]: "be_val (replicate k 0) = 0"
  by (induction k) simp_all

lemma zero_signature:
  assumes "length digestinfo + length h + 3 \<le> k"
  shows "rsa_public key (replicate k 0) \<noteq> be_val (emsa_pkcs1 k digestinfo h)"
proof -
  define e where "e = emsa_pkcs1 k digestinfo h"
  have e: "length e = k" "e ! 1 = 1" using assms by (simp_all add: e_def emsa_pkcs1_def)
  have "replicate k 0 ! 1 = (0 :: u8)" using assms by simp
  then have "replicate k 0 \<noteq> e" using e by auto
  then have "be_val (replicate k 0) \<noteq> be_val e" using be_val_inject[of "replicate k 0" e] e by simp
  then show ?thesis by (simp add: rsa_public_def e_def)
qed

theorem RSAVerify_correct_witness:
  "RSAVerify (Some ones_key) (Some (replicate 128 0)) 128 1 (Some (replicate 32 0)) = Some 0 \<and>
   RSAVerify (Some ones_key) (Some (replicate 128 0)) 128 12 (Some (replicate 32 0)) = Some 0"
proof -
  have z: "rsa_public ones_key (replicate 128 0) \<noteq> be_val (emsa_pkcs1 128 SHA256_digestinfo (replicate 32 0))"
    by (rule zero_signature) (simp add: digestinfos)
  have "unat (1 :: u8) < kNumAlgorithms" "unat (rsa_len ones_key) = siglen_map ! unat (1 :: u8) div 4"
    "siglen_map ! unat (1 :: u8) \<le> length (replicate 128 (0 :: u8))"
    "hash_size_map ! unat (1 :: u8) \<le> length (replicate 32 (0 :: u8))"
    by (simp_all add: kNumAlgorithms_def siglen_map_def hash_size_map_def ones_key_def)
  from RSAVerify_correct[OF ones_key_good this, of 128 12] z
  show ?thesis by (simp add: siglen_map_def hash_size_map_def hash_digestinfo_map_def kNumAlgorithms_def del: RSAVerify.simps)
qed

text \<open>\<open>RSAPublicKeyFromBuf\<close> stays inside its buffer and accepts it exactly when its first word is one of the four
key lengths and its size is exactly that of a key of this length; the key it returns has the words of the
buffer, in the byte order of the machine. A shorter or longer buffer is rejected, whatever it holds.\<close>

theorem RSAPublicKeyFromBuf_correct:
  assumes "unat len \<le> length mem"
  shows "RSAPublicKeyFromBuf e junk mem len = Some
    (let w = load32 e (take 4 mem); L = unat w in
     if 4 \<le> unat len \<and> 4 * L \<in> {128, 256, 512, 1024} \<and> unat len = 8 + 8 * L
     then Some \<lparr>rsa_len = w, n0inv = load32 e (take 4 (drop 4 mem)),
       rsa_n = load_array e (take (4 * L) (drop 8 mem)), rsa_rr = load_array e (take (4 * L) (drop (8 + 4 * L) mem)),
       rsa_algorithm = 12\<rparr>
     else None)"
  unfolding Let_def by (rule RSAPublicKeyFromBuf_ok) (rule assms)

theorem RSAPublicKeyFromBuf_correct_witness:
  "RSAPublicKeyFromBuf Big 7 [0, 0, 0, 32, 1, 2] 6 = Some None"
  using RSAPublicKeyFromBuf_correct[of 6 "[0, 0, 0, 32, 1, 2]" Big 7] by (simp add: PACK32_def)

text \<open>A digest computed through a digest context, over any split of the message into updates, is the digest
\<open>DigestBuf\<close> computes of the whole buffer, and it is as long as the tables say, for each of the twelve algorithms.\<close>

theorem digest_context_correct:
  assumes "t < kNumAlgorithms" and "len_fits (length (concat ds))"
  shows "do { c \<leftarrow> DigestInit t; c \<leftarrow> for_each ds (\<lambda>d c. DigestUpdate c d (of_nat (length d))) c; DigestFinal c } =
      Some (Some (digest_of t (concat ds))) \<and>
    DigestBuf (concat ds) (of_nat (length (concat ds))) t = Some (digest_of t (concat ds)) \<and>
    length (digest_of t (concat ds)) = hash_size_map ! t"
proof -
  obtain c where c: "DigestInit t = Some c" "digest_absorbed t c []" using DigestInit_ok[OF assms(1)] by blast
  have fits: "\<forall>d \<in> set ds. len_fits (length d)" using assms(2) by (induction ds) (auto simp: len_fits_def)
  have "\<exists>c'. for_each ds (\<lambda>d c. DigestUpdate c d (of_nat (length d))) c = Some c' \<and> digest_absorbed t c' (m @ concat ds)"
    if "digest_absorbed t c m" "\<forall>d \<in> set ds. len_fits (length d)" for c m
    using that
  proof (induction ds arbitrary: c m)
    case (Cons d ds)
    then obtain c1 where "DigestUpdate c d (of_nat (length d)) = Some c1" "digest_absorbed t c1 (m @ d)"
      using DigestUpdate_ok by (metis list.set_intros(1))
    with Cons.IH[of c1 "m @ d"] Cons.prems(2) show ?case by simp
  qed simp
  from this[OF c(2) fits] DigestFinal_ok[OF _ assms(2)]
  have run: "do { c \<leftarrow> DigestInit t; c \<leftarrow> for_each ds (\<lambda>d c. DigestUpdate c d (of_nat (length d))) c; DigestFinal c } =
      Some (Some (digest_of t (concat ds)))" using c(1) by auto
  have u: "unat (of_nat (length (concat ds)) :: u64) = length (concat ds)"
    using len_fits_32(2)[OF assms(2)] by (simp add: len64_fits_def unat_of_nat64)
  then have "DigestBuf (concat ds) (of_nat (length (concat ds))) t = Some (digest_of t (concat ds))"
    using DigestBuf_ok[OF assms(1), of "of_nat (length (concat ds))" "concat ds"] assms(2) by simp
  with run show ?thesis using digest_of_length[OF assms(1)] by blast
qed

theorem digest_context_correct_witness:
  "do { c \<leftarrow> DigestInit 4; c \<leftarrow> for_each [[1], [2, 3]] (\<lambda>d c. DigestUpdate c d (of_nat (length d))) c; DigestFinal c } =
    Some (Some (sha256 [1, 2, 3]))"
  using digest_context_correct[of 4 "[[1], [2, 3]]"] by (simp add: kNumAlgorithms_def len_fits_def digest_of_def)

text \<open>C6: \<open>RSAVerifyBinary_f\<close> on a processed key in memory parses the key, hashes the data with the algorithm's hash
function and returns 1 exactly when the signature to the power 65537 modulo the key is the PKCS 1.5 encoding of
that hash; a blob that is not a key of the algorithm's length, both or none of the two key arguments, and an
unknown algorithm give 0.\<close>

theorem RSAVerifyBinary_f_correct:
  assumes t: "unat algorithm < kNumAlgorithms"
    and blob: "length blob = 8 + 2 * siglen_map ! unat algorithm"
    and key: "RSAPublicKeyFromBuf e junk blob (of_nat (length blob)) = Some (Some key)" "good_key key"
    and data: "unat len \<le> length data" "len_fits (unat len)" and sig: "siglen_map ! unat algorithm \<le> length sig"
  shows "RSAVerifyBinary_f e junk (Some blob) None data len (Some sig) algorithm = Some
    (if rsa_public key (take (siglen_map ! unat algorithm) sig) =
        be_val (emsa_pkcs1 (siglen_map ! unat algorithm) (hash_digestinfo_map ! unat algorithm)
          (digest_of (unat algorithm) (take (unat len) data)))
     then 1 else 0)"
proof -
  define k where "k = siglen_map ! unat algorithm"
  have k: "k \<in> {128, 256, 512, 1024}" using table_sizes(3)[OF t] by (simp add: k_def)
  have t12: "unat algorithm < 12" using t by (simp add: kNumAlgorithms_def)
  have u8: "unat (ucast algorithm :: u8) = unat algorithm"
    using t12 by (simp add: unsigned_ucast_eq take_bit_nat_eq_self)
  have u64: "unat (ucast algorithm :: u64) = unat algorithm"
    using t12 by (simp add: unsigned_ucast_eq take_bit_nat_eq_self)
  have ub: "unat (of_nat (length blob) :: u64) = length blob" using k by (simp add: blob k_def[symmetric] unat_of_nat) auto
  have len: "unat (rsa_len key) = k div 4"
    using key(1) blob RSAPublicKeyFromBuf_ok[of "of_nat (length blob)" blob e junk] k
    by (auto simp: ub k_def split: if_splits)
  have lb: "of_nat (length blob) = (of_nat (2 * k + 4 + 4) :: u64)" by (simp add: blob k_def)
  define h where "h = digest_of (unat algorithm) (take (unat len) data)"
  have h: "DigestBuf data len (unat algorithm) = Some h" "length h = hash_size_map ! unat algorithm"
    using DigestBuf_ok[OF t data] digest_of_length[OF t] by (simp_all add: h_def)
  have v: "RSAVerify (Some key) (Some sig) (of_nat k) (ucast algorithm) (Some h) = Some
      (if rsa_public key (take k sig) = be_val (emsa_pkcs1 k (hash_digestinfo_map ! unat algorithm) h) then 1 else 0)"
    using RSAVerify_ok[OF key(2), of "ucast algorithm" sig h] t len sig h(2) unfolding u8 k_def[symmetric] by simp
  show ?thesis
    using t key(1)[unfolded lb] h(1) v
    by (simp add: RSAVerifyBinary_f_def RSAProcessedKeySize_def u64 choose_key_def k_def[symmetric] h_def[symmetric]
      del: RSAVerify.simps)
qed

text \<open>The key above as a blob.\<close>

definition ones_blob :: "u8 list" where
  "ones_blob = [0, 0, 0, 32, 0, 0, 0, 1] @ replicate 128 0xff @ [0, 0, 0, 1] @ replicate 124 0"

lemma ones_blob_key: "RSAPublicKeyFromBuf Big 0 ones_blob 264 = Some (Some (ones_key\<lparr>rsa_algorithm := 12\<rparr>))"
proof -
  have l: "unat (264 :: u64) \<le> length ones_blob" by (simp add: ones_blob_def)
  have w: "load32 Big (take 4 ones_blob) = 32" "load32 Big (take 4 (drop 4 ones_blob)) = 1"
    by (simp_all add: ones_blob_def PACK32_def)
  have d: "drop 8 ones_blob = replicate 128 0xff @ [0, 0, 0, 1] @ replicate 124 0" by (simp add: ones_blob_def)
  have "take 128 (drop 8 ones_blob) = replicate 128 0xff" unfolding d by (simp only: take_append length_replicate) simp
  moreover have "drop 136 ones_blob = [0, 0, 0, 1] @ replicate 124 0"
  proof -
    have "drop 136 ones_blob = drop 128 (drop 8 ones_blob)" by simp
    then show ?thesis unfolding d by (simp only: drop_append length_replicate) simp
  qed
  moreover have "load_array Big (replicate 128 0xff) = replicate 32 (-1)"
    by code_simp
  moreover have "load_array Big ([0, 0, 0, 1] @ replicate 124 0) = 1 # replicate 31 0"
    by code_simp
  ultimately show ?thesis
    using RSAPublicKeyFromBuf_ok[OF l, of Big 0] w by (simp add: l ones_key_def)
qed

theorem RSAVerifyBinary_f_correct_witness:
  "RSAVerifyBinary_f Big 0 (Some ones_blob) None [1, 2, 3] 3 (Some (replicate 128 0)) 1 = Some 0"
proof -
  let ?k = "ones_key\<lparr>rsa_algorithm := 12\<rparr>"
  have g: "good_key ?k" using ones_key_good by (simp add: good_key_def mont_key_def mont_R_def)
  have l: "length ones_blob = 264" by (simp add: ones_blob_def)
  have z: "rsa_public ?k (replicate 128 0) \<noteq> be_val (emsa_pkcs1 128 SHA256_digestinfo (sha256 [1, 2, 3]))"
    by (rule zero_signature) (simp add: digestinfos)
  have "RSAVerifyBinary_f Big 0 (Some ones_blob) None [1, 2, 3] 3 (Some (replicate 128 0)) 1 = Some
    (if rsa_public ?k (take (siglen_map ! unat (1 :: u32)) (replicate 128 0)) =
        be_val (emsa_pkcs1 (siglen_map ! unat (1 :: u32)) (hash_digestinfo_map ! unat (1 :: u32))
          (digest_of (unat (1 :: u32)) (take (unat (3 :: u64)) [1, 2, 3])))
     then 1 else 0)"
    by (rule RSAVerifyBinary_f_correct[OF _ _ _ g])
      (use ones_blob_key in \<open>simp_all add: l kNumAlgorithms_def siglen_map_def len_fits_def\<close>)
  then show ?thesis using z by (simp add: siglen_map_def hash_digestinfo_map_def digest_of_def)
qed

end
