(* ===== verification/VbootCommon.thy ===== *)
theory VbootCommon
  imports Rsa
begin

text \<open>
  The checks of verified boot in \<open>package/vboot_utils/src/firmware/lib/vboot_common.c\<close>. A key block,
  a preamble, a key and the shared data are regions of memory, lists of bytes with the structure at
  offset 0; the structures are packed, and a pointer into a region is an offset. What a pointer reaches
  beyond its region is \<open>None\<close>. A size given to a function is the caller's claim on the region.
\<close>

named_theorems vboot_facts \<open>structures in memory\<close>

subsection \<open>Structures\<close>

datatype vboot_error =
  VBOOT_SUCCESS | VBOOT_KEY_BLOCK_INVALID | VBOOT_KEY_BLOCK_SIGNATURE | VBOOT_KEY_BLOCK_HASH |
  VBOOT_PUBLIC_KEY_INVALID | VBOOT_PREAMBLE_INVALID | VBOOT_PREAMBLE_SIGNATURE | VBOOT_SHARED_DATA_INVALID

text \<open>Fields in the byte order of the machine.\<close>

fun load64 :: "endian \<Rightarrow> u8 list \<Rightarrow> u64" where
  "load64 Little bs = PACK64 (rev bs) 0"
| "load64 Big bs = PACK64 bs 0"

fun store32 :: "endian \<Rightarrow> u32 \<Rightarrow> u8 list" where
  "store32 Little x = rev (UNPACK32 x)"
| "store32 Big x = UNPACK32 x"

fun store64 :: "endian \<Rightarrow> u64 \<Rightarrow> u8 list" where
  "store64 Little x = rev (UNPACK64 x)"
| "store64 Big x = UNPACK64 x"

definition rd32 :: "endian \<Rightarrow> u8 list \<Rightarrow> nat \<Rightarrow> u32 option" where
  "rd32 e mem off = do { bs \<leftarrow> mem_read mem off 4; Some (load32 e bs) }"

definition rd64 :: "endian \<Rightarrow> u8 list \<Rightarrow> nat \<Rightarrow> u64 option" where
  "rd64 e mem off = do { bs \<leftarrow> mem_read mem off 8; Some (load64 e bs) }"

definition wr64 :: "endian \<Rightarrow> u8 list \<Rightarrow> nat \<Rightarrow> u64 \<Rightarrow> u8 list option" where
  "wr64 e mem off x = mem_write mem off (store64 e x)"

definition wr32 :: "endian \<Rightarrow> u8 list \<Rightarrow> nat \<Rightarrow> u32 \<Rightarrow> u8 list option" where
  "wr32 e mem off x = mem_write mem off (store32 e x)"

text \<open>A structure is read with the offset it is at, which its own offsets are relative to.\<close>

record vb_public_key =
  key_at :: nat
  key_offset :: u64
  key_size :: u64
  algorithm :: u64
  key_version :: u64

record vb_signature =
  sig_at :: nat
  sig_offset :: u64
  sig_size :: u64
  data_size :: u64

record key_block_header =
  magic :: "u8 list"
  block_version_major :: u32
  block_version_minor :: u32
  key_block_size :: u64
  key_block_signature :: vb_signature
  key_block_checksum :: vb_signature
  key_block_flags :: u64
  data_key :: vb_public_key

record firmware_preamble =
  preamble_size :: u64
  preamble_signature :: vb_signature
  version_major :: u32
  version_minor :: u32
  firmware_version :: u64
  kernel_subkey :: vb_public_key
  body_signature :: vb_signature

record kernel_preamble =
  kpreamble_size :: u64
  kpreamble_signature :: vb_signature
  kversion_major :: u32
  kversion_minor :: u32
  kernel_version :: u64
  body_load_address :: u64
  bootloader_address :: u64
  bootloader_size :: u64
  kbody_signature :: vb_signature

definition read_public_key :: "endian \<Rightarrow> u8 list \<Rightarrow> nat \<Rightarrow> vb_public_key option" where
  "read_public_key e mem off = do {
     a \<leftarrow> rd64 e mem off; b \<leftarrow> rd64 e mem (off + 8); c \<leftarrow> rd64 e mem (off + 16); d \<leftarrow> rd64 e mem (off + 24);
     Some \<lparr>key_at = off, key_offset = a, key_size = b, algorithm = c, key_version = d\<rparr> }"

definition read_signature :: "endian \<Rightarrow> u8 list \<Rightarrow> nat \<Rightarrow> vb_signature option" where
  "read_signature e mem off = do {
     a \<leftarrow> rd64 e mem off; b \<leftarrow> rd64 e mem (off + 8); c \<leftarrow> rd64 e mem (off + 16);
     Some \<lparr>sig_at = off, sig_offset = a, sig_size = b, data_size = c\<rparr> }"

definition read_key_block :: "endian \<Rightarrow> u8 list \<Rightarrow> key_block_header option" where
  "read_key_block e mem = do {
     m \<leftarrow> mem_read mem 0 8; major \<leftarrow> rd32 e mem 8; minor \<leftarrow> rd32 e mem 12; sz \<leftarrow> rd64 e mem 16;
     s \<leftarrow> read_signature e mem 24; c \<leftarrow> read_signature e mem 48; fl \<leftarrow> rd64 e mem 72; k \<leftarrow> read_public_key e mem 80;
     Some \<lparr>magic = m, block_version_major = major, block_version_minor = minor, key_block_size = sz,
       key_block_signature = s, key_block_checksum = c, key_block_flags = fl, data_key = k\<rparr> }"

text \<open>The part of a firmware preamble that all its versions have.\<close>

definition read_firmware_preamble :: "endian \<Rightarrow> u8 list \<Rightarrow> firmware_preamble option" where
  "read_firmware_preamble e mem = do {
     sz \<leftarrow> rd64 e mem 0; s \<leftarrow> read_signature e mem 8; major \<leftarrow> rd32 e mem 32; minor \<leftarrow> rd32 e mem 36;
     v \<leftarrow> rd64 e mem 40; k \<leftarrow> read_public_key e mem 48; b \<leftarrow> read_signature e mem 80;
     Some \<lparr>preamble_size = sz, preamble_signature = s, version_major = major, version_minor = minor,
       firmware_version = v, kernel_subkey = k, body_signature = b\<rparr> }"

definition read_kernel_preamble :: "endian \<Rightarrow> u8 list \<Rightarrow> kernel_preamble option" where
  "read_kernel_preamble e mem = do {
     sz \<leftarrow> rd64 e mem 0; s \<leftarrow> read_signature e mem 8; major \<leftarrow> rd32 e mem 32; minor \<leftarrow> rd32 e mem 36;
     v \<leftarrow> rd64 e mem 40; la \<leftarrow> rd64 e mem 48; ba \<leftarrow> rd64 e mem 56; bs \<leftarrow> rd64 e mem 64; b \<leftarrow> read_signature e mem 72;
     Some \<lparr>kpreamble_size = sz, kpreamble_signature = s, kversion_major = major, kversion_minor = minor,
       kernel_version = v, body_load_address = la, bootloader_address = ba, bootloader_size = bs,
       kbody_signature = b\<rparr> }"

subsection \<open>Members inside their parents\<close>

definition OffsetOf :: "u64 \<Rightarrow> u64 \<Rightarrow> u64" where
  "OffsetOf base p = p - base"

text \<open>True is the return value 1, an error.\<close>

definition VerifyMemberInside :: "u64 \<Rightarrow> u64 \<Rightarrow> u64 \<Rightarrow> u64 \<Rightarrow> u64 \<Rightarrow> u64 \<Rightarrow> bool" where
  "VerifyMemberInside parent parent_size member member_size member_data_offset member_data_size =
     (let end = OffsetOf parent member in
      if end > parent_size then True
      else if 0xFFFFFFFFFFFFFFFF - end < member_size then True
      else if end + member_size > parent_size then True
      else if 0xFFFFFFFFFFFFFFFF - end < member_data_offset then True
      else let end = end + member_data_offset in
      if end > parent_size then True
      else if 0xFFFFFFFFFFFFFFFF - end < member_data_size then True
      else if end + member_data_size > parent_size then True
      else False)"

definition VerifyPublicKeyInside :: "u64 \<Rightarrow> vb_public_key \<Rightarrow> bool" where
  "VerifyPublicKeyInside parent_size key =
     VerifyMemberInside 0 parent_size (of_nat (key_at key)) 32 (key_offset key) (key_size key)"

definition VerifySignatureInside :: "u64 \<Rightarrow> vb_signature \<Rightarrow> bool" where
  "VerifySignatureInside parent_size sig =
     VerifyMemberInside 0 parent_size (of_nat (sig_at sig)) 24 (sig_offset sig) (sig_size sig)"

text \<open>What the data pointer of a key or a signature reaches; the sum wraps as a pointer does.\<close>

definition GetPublicKeyData :: "u8 list \<Rightarrow> vb_public_key \<Rightarrow> u8 list" where
  "GetPublicKeyData mem key = drop (unat (of_nat (key_at key) + key_offset key :: u64)) mem"

definition GetSignatureData :: "u8 list \<Rightarrow> vb_signature \<Rightarrow> u8 list" where
  "GetSignatureData mem sig = drop (unat (of_nat (sig_at sig) + sig_offset sig :: u64)) mem"

subsection \<open>Keys and signatures\<close>

text \<open>The key is in a region of its own, with its structure first.\<close>

definition PublicKeyToRSA :: "endian \<Rightarrow> u32 \<Rightarrow> u8 list \<Rightarrow> rsa_key ptr option" where
  "PublicKeyToRSA e junk kmem = do {
     key \<leftarrow> read_public_key e kmem 0;
     if kNumAlgorithms \<le> unat (algorithm key) then Some None
     else case RSAProcessedKeySize (algorithm key) of
       None \<Rightarrow> Some None
     | Some nbytes \<Rightarrow>
         if nbytes \<noteq> key_size key then Some None
         else do {
           rsa \<leftarrow> RSAPublicKeyFromBuf e junk (GetPublicKeyData kmem key) (key_size key);
           (case rsa of
              None \<Rightarrow> Some None
            | Some rsa \<Rightarrow> Some (Some (rsa\<lparr>rsa_algorithm := ucast (algorithm key)\<rparr>))) } }"

text \<open>True is the return value 1; the signature is in the region \<open>mem\<close>.\<close>

definition VerifyData :: "endian \<Rightarrow> u8 list \<Rightarrow> u64 \<Rightarrow> u8 list \<Rightarrow> vb_signature \<Rightarrow> rsa_key \<Rightarrow> bool option" where
  "VerifyData e data nbytes mem sig key = do {
     siglen \<leftarrow> table_at siglen_map (unat (rsa_algorithm key));
     if sig_size sig \<noteq> of_nat siglen then Some True
     else if data_size sig > nbytes then Some True
     else do {
       ok \<leftarrow> RSAVerifyBinary_f e 0 None (Some key) data (data_size sig) (Some (GetSignatureData mem sig)) (rsa_algorithm key);
       Some (ok = 0) } }"

definition VerifyDigest :: "endian \<Rightarrow> u8 list \<Rightarrow> u8 list \<Rightarrow> vb_signature \<Rightarrow> rsa_key \<Rightarrow> bool option" where
  "VerifyDigest e digest mem sig key = do {
     siglen \<leftarrow> table_at siglen_map (unat (rsa_algorithm key));
     if sig_size sig \<noteq> of_nat siglen then Some True
     else do {
       ok \<leftarrow> RSAVerifyBinaryWithDigest_f e 0 None (Some key) (Some digest) (Some (GetSignatureData mem sig)) (rsa_algorithm key);
       Some (ok = 0) } }"

subsection \<open>Key blocks\<close>

text \<open>The first eight of the letters of \<open>KEY_BLOCK_MAGIC\<close>, which are compared.\<close>

definition KEY_BLOCK_MAGIC :: "u8 list" where
  "KEY_BLOCK_MAGIC = [0x4B, 0x49, 0x4E, 0x47, 0x2D, 0x4B, 0x4F, 0x4E, 0x47]"

text \<open>The last part, on the signature or checksum the branches above it chose.\<close>

definition check_signed :: "key_block_header \<Rightarrow> vb_signature \<Rightarrow> vboot_error" where
  "check_signed kb sig =
     (if data_size sig < 112 then VBOOT_KEY_BLOCK_INVALID
      else if VerifyPublicKeyInside (key_block_size kb) (data_key kb) then VBOOT_KEY_BLOCK_INVALID
      else if VerifyPublicKeyInside (data_size sig) (data_key kb) then VBOOT_KEY_BLOCK_INVALID
      else VBOOT_SUCCESS)"

definition KeyBlockVerify :: "endian \<Rightarrow> u32 \<Rightarrow> u8 list \<Rightarrow> u64 \<Rightarrow> u8 list ptr \<Rightarrow> bool \<Rightarrow> vboot_error option" where
  "KeyBlockVerify e junk mem nbytes key hash_only =
     (if nbytes < 112 then Some VBOOT_KEY_BLOCK_INVALID
      else do {
        kb \<leftarrow> read_key_block e mem;
        differs \<leftarrow> SafeMemcmp (magic kb) KEY_BLOCK_MAGIC 8;
        if differs \<noteq> 0 then Some VBOOT_KEY_BLOCK_INVALID
        else if block_version_major kb \<noteq> 2 then Some VBOOT_KEY_BLOCK_INVALID
        else if nbytes < key_block_size kb then Some VBOOT_KEY_BLOCK_INVALID
        else if \<not> hash_only \<and> key = None then Some VBOOT_PUBLIC_KEY_INVALID
        else if hash_only then
          (let sig = key_block_checksum kb in
           if VerifySignatureInside (key_block_size kb) sig then Some VBOOT_KEY_BLOCK_INVALID
           else if sig_size sig \<noteq> 64 then Some VBOOT_KEY_BLOCK_INVALID
           else if key_block_size kb < data_size sig then Some VBOOT_KEY_BLOCK_INVALID
           else do {
             header_checksum \<leftarrow> DigestBuf mem (data_size sig) 2;
             rv \<leftarrow> SafeMemcmp header_checksum (GetSignatureData mem sig) 64;
             if rv \<noteq> 0 then Some VBOOT_KEY_BLOCK_HASH else Some (check_signed kb sig) })
        else
          (let sig = key_block_signature kb in
           if VerifySignatureInside (key_block_size kb) sig then Some VBOOT_KEY_BLOCK_INVALID
           else do {
             rsa \<leftarrow> PublicKeyToRSA e junk (the key);
             (case rsa of
                None \<Rightarrow> Some VBOOT_PUBLIC_KEY_INVALID
              | Some rsa \<Rightarrow>
                  if key_block_size kb < data_size sig then Some VBOOT_KEY_BLOCK_INVALID
                  else do {
                    rv \<leftarrow> VerifyData e mem nbytes mem sig rsa;
                    if rv then Some VBOOT_KEY_BLOCK_SIGNATURE else Some (check_signed kb sig) }) }) })"

subsection \<open>Preambles\<close>

definition VerifyFirmwarePreamble :: "endian \<Rightarrow> u8 list \<Rightarrow> u64 \<Rightarrow> rsa_key \<Rightarrow> vboot_error option" where
  "VerifyFirmwarePreamble e mem nbytes key =
     (if nbytes < 104 then Some VBOOT_PREAMBLE_INVALID
      else do {
        preamble \<leftarrow> read_firmware_preamble e mem;
        let sig = preamble_signature preamble;
        if version_major preamble \<noteq> 2 then Some VBOOT_PREAMBLE_INVALID
        else if nbytes < preamble_size preamble then Some VBOOT_PREAMBLE_INVALID
        else if VerifySignatureInside (preamble_size preamble) sig then Some VBOOT_PREAMBLE_INVALID
        else if preamble_size preamble < data_size sig then Some VBOOT_PREAMBLE_INVALID
        else do {
          rv \<leftarrow> VerifyData e mem nbytes mem sig key;
          if rv then Some VBOOT_PREAMBLE_SIGNATURE
          else if data_size sig < 108 then Some VBOOT_PREAMBLE_INVALID
          else if VerifySignatureInside (data_size sig) (body_signature preamble) then Some VBOOT_PREAMBLE_INVALID
          else if VerifyPublicKeyInside (data_size sig) (kernel_subkey preamble) then Some VBOOT_PREAMBLE_INVALID
          else if version_minor preamble \<ge> 1 \<and> nbytes < 108 then Some VBOOT_PREAMBLE_INVALID
          else Some VBOOT_SUCCESS } })"

definition VbGetFirmwarePreambleFlags :: "endian \<Rightarrow> u8 list \<Rightarrow> u32 option" where
  "VbGetFirmwarePreambleFlags e mem = do {
     minor \<leftarrow> rd32 e mem 36;
     if minor < 1 then Some 0 else rd32 e mem 104 }"

definition VerifyKernelPreamble :: "endian \<Rightarrow> u8 list \<Rightarrow> u64 \<Rightarrow> rsa_key \<Rightarrow> vboot_error option" where
  "VerifyKernelPreamble e mem nbytes key =
     (if nbytes < 96 then Some VBOOT_PREAMBLE_INVALID
      else do {
        preamble \<leftarrow> read_kernel_preamble e mem;
        let sig = kpreamble_signature preamble;
        if kversion_major preamble \<noteq> 2 then Some VBOOT_PREAMBLE_INVALID
        else if nbytes < kpreamble_size preamble then Some VBOOT_PREAMBLE_INVALID
        else if VerifySignatureInside (kpreamble_size preamble) sig then Some VBOOT_PREAMBLE_INVALID
        else do {
          rv \<leftarrow> VerifyData e mem nbytes mem sig key;
          if rv then Some VBOOT_PREAMBLE_SIGNATURE
          else if data_size sig < 96 then Some VBOOT_PREAMBLE_INVALID
          else if VerifySignatureInside (data_size sig) (kbody_signature preamble) then Some VBOOT_PREAMBLE_INVALID
          else Some VBOOT_SUCCESS } })"

subsection \<open>Shared data\<close>

text \<open>
  The header of the shared data at offset 0 of its region: \<open>data_size\<close> at 16, \<open>data_used\<close> at 24,
  \<open>kernel_subkey\<close> at 40, the offset and the size of its data at 72 and 80. The offset that is returned
  by \<open>VbSharedDataReserve\<close> is 0 when there is no room.
\<close>

definition VbSharedDataReserve :: "endian \<Rightarrow> u8 list \<Rightarrow> u64 \<Rightarrow> (u64 \<times> u8 list) option" where
  "VbSharedDataReserve e header nbytes = do {
     offs \<leftarrow> rd64 e header 24;
     total \<leftarrow> rd64 e header 16;
     if nbytes > total - offs then Some (0, header)
     else do {
       header \<leftarrow> wr64 e header 24 (offs + nbytes);
       Some (offs, header) } }"

definition PublicKeyInit :: "endian \<Rightarrow> u8 list \<Rightarrow> nat \<Rightarrow> u64 \<Rightarrow> u64 \<Rightarrow> u8 list option" where
  "PublicKeyInit e mem at_key key_data nbytes = do {
     mem \<leftarrow> wr64 e mem at_key (OffsetOf (of_nat at_key) key_data);
     mem \<leftarrow> wr64 e mem (at_key + 8) nbytes;
     mem \<leftarrow> wr64 e mem (at_key + 16) (of_nat kNumAlgorithms);
     wr64 e mem (at_key + 24) 0 }"

text \<open>The destination is in the region \<open>mem\<close>, the source in one of its own; the flag is the return value.\<close>

definition PublicKeyCopy :: "endian \<Rightarrow> u8 list \<Rightarrow> nat \<Rightarrow> u8 list \<Rightarrow> (bool \<times> u8 list) option" where
  "PublicKeyCopy e mem at_dest smem = do {
     dest \<leftarrow> read_public_key e mem at_dest;
     src \<leftarrow> read_public_key e smem 0;
     if key_size dest < key_size src then Some (True, mem)
     else do {
       mem \<leftarrow> wr64 e mem (at_dest + 8) (key_size src);
       mem \<leftarrow> wr64 e mem (at_dest + 16) (algorithm src);
       mem \<leftarrow> wr64 e mem (at_dest + 24) (key_version src);
       data \<leftarrow> mem_read (GetPublicKeyData smem src) 0 (unat (key_size src));
       mem \<leftarrow> mem_write mem (unat (of_nat at_dest + key_offset dest :: u64)) data;
       Some (False, mem) } }"

definition VbSharedDataSetKernelKey :: "endian \<Rightarrow> u8 list \<Rightarrow> u8 list \<Rightarrow> (vboot_error \<times> u8 list) option" where
  "VbSharedDataSetKernelKey e header smem = do {
     src \<leftarrow> read_public_key e smem 0;
     offs \<leftarrow> rd64 e header 72;
     (failed, header) \<leftarrow>
       (if offs = 0 then do {
          (offs, header) \<leftarrow> VbSharedDataReserve e header (key_size src);
          header \<leftarrow> wr64 e header 72 offs;
          if offs = 0 then Some (True, header)
          else do { header \<leftarrow> wr64 e header 80 (key_size src); Some (False, header) } }
        else Some (False, header));
     if failed then Some (VBOOT_SHARED_DATA_INVALID, header)
     else do {
       offs \<leftarrow> rd64 e header 72;
       nbytes \<leftarrow> rd64 e header 80;
       header \<leftarrow> PublicKeyInit e header 40 offs nbytes;
       (err, header) \<leftarrow> PublicKeyCopy e header 40 smem;
       Some (if err then VBOOT_KEY_BLOCK_INVALID else VBOOT_SUCCESS, header) } }"

subsection \<open>Offsets\<close>

lemma no_wrap: "\<not> (0xFFFFFFFFFFFFFFFF - x < y) \<longleftrightarrow> unat (x :: u64) + unat y < 2 ^ 64"
proof -
  have m: "unat (0xFFFFFFFFFFFFFFFF - x) = 2 ^ 64 - 1 - unat x"
  proof -
    have "unat x < 2 ^ LENGTH(64)" by (rule unsigned_less)
    then have "x \<le> 0xFFFFFFFFFFFFFFFF" by (simp add: word_le_nat_alt)
    then show ?thesis by (simp add: unat_sub)
  qed
  have "unat x < 2 ^ LENGTH(64)" by (rule unsigned_less)
  then show ?thesis by (simp add: word_less_nat_alt m) linarith
qed

lemma unat_add: "unat x + unat y < 2 ^ 64 \<Longrightarrow> unat (x + y :: u64) = unat x + unat y"
  by (simp add: unat_word_ariths)

lemma VerifyMemberInside_iff:
  "\<not> VerifyMemberInside parent parent_size member member_size off len \<longleftrightarrow>
    unat (member - parent) + unat member_size \<le> unat parent_size \<and>
    unat (member - parent) + unat off + unat len \<le> unat parent_size"
proof -
  define d where "d = member - parent"
  have b: "unat parent_size < 2 ^ 64" 
  proof -
    have "unat parent_size < 2 ^ LENGTH(64)" by (rule unsigned_less)
    then show ?thesis by simp
  qed
  show ?thesis
    unfolding VerifyMemberInside_def OffsetOf_def d_def[symmetric] Let_def
    using no_wrap[of d member_size] no_wrap[of d off] no_wrap[of "d + off" len] unat_add[of d member_size]
      unat_add[of d off] unat_add[of "d + off" len] b
    by (auto simp: word_less_nat_alt)
qed

text \<open>A signature or a key in a region, and its data, end inside the parent.\<close>

definition inside :: "nat \<Rightarrow> nat \<Rightarrow> u64 \<Rightarrow> u64 \<Rightarrow> u64 \<Rightarrow> bool" where
  "inside off struct_size data_off data_len parent_size \<longleftrightarrow>
     off + struct_size \<le> unat parent_size \<and> off + unat data_off + unat data_len \<le> unat parent_size"

lemma VerifySignatureInside_iff:
  "sig_at sig < 2 ^ 64 \<Longrightarrow> \<not> VerifySignatureInside n sig \<longleftrightarrow> inside (sig_at sig) 24 (sig_offset sig) (sig_size sig) n"
  by (simp add: VerifySignatureInside_def VerifyMemberInside_iff inside_def unat_of_nat64)

lemma VerifyPublicKeyInside_iff:
  "key_at key < 2 ^ 64 \<Longrightarrow> \<not> VerifyPublicKeyInside n key \<longleftrightarrow> inside (key_at key) 32 (key_offset key) (key_size key) n"
  by (simp add: VerifyPublicKeyInside_def VerifyMemberInside_iff inside_def unat_of_nat64)

subsection \<open>Structures are read where they fit\<close>

lemma rd_Some [vboot_facts]:
  "off + 8 \<le> length mem \<Longrightarrow> rd64 e mem off = Some (load64 e (take 8 (drop off mem)))"
  "off + 4 \<le> length mem \<Longrightarrow> rd32 e mem off = Some (load32 e (take 4 (drop off mem)))"
  by (simp_all add: rd64_def rd32_def mem_read_def)

lemma read_signature_ok:
  assumes "off + 24 \<le> length mem"
  obtains s where "read_signature e mem off = Some s" and "sig_at s = off"
  using assms by (simp add: read_signature_def vboot_facts)

lemma read_public_key_ok:
  assumes "off + 32 \<le> length mem"
  obtains k where "read_public_key e mem off = Some k" and "key_at k = off"
  using assms by (simp add: read_public_key_def vboot_facts)

lemma read_key_block_ok:
  assumes "112 \<le> length mem"
  obtains b where "read_key_block e mem = Some b" and "magic b = take 8 mem" and "sig_at (key_block_signature b) = 24"
    and "sig_at (key_block_checksum b) = 48" and "key_at (data_key b) = 80"
proof -
  obtain s where s: "read_signature e mem 24 = Some s" "sig_at s = 24" using assms by (auto intro: read_signature_ok[of 24 mem e])
  obtain c where c: "read_signature e mem 48 = Some c" "sig_at c = 48" using assms by (auto intro: read_signature_ok[of 48 mem e])
  obtain k where k: "read_public_key e mem 80 = Some k" "key_at k = 80" using assms by (auto intro: read_public_key_ok[of 80 mem e])
  have "\<exists>b. read_key_block e mem = Some b \<and> magic b = take 8 mem \<and> key_block_signature b = s \<and>
      key_block_checksum b = c \<and> data_key b = k"
    using assms s(1) c(1) k(1) by (simp add: read_key_block_def vboot_facts mem_read_def)
  then show thesis using that s(2) c(2) k(2) by auto
qed

lemma read_firmware_preamble_ok:
  assumes "104 \<le> length mem"
  obtains p where "read_firmware_preamble e mem = Some p" and "sig_at (preamble_signature p) = 8"
    and "key_at (kernel_subkey p) = 48" and "sig_at (body_signature p) = 80"
    and "version_minor p = load32 e (take 4 (drop 36 mem))"
proof -
  obtain s where s: "read_signature e mem 8 = Some s" "sig_at s = 8" using assms by (auto intro: read_signature_ok[of 8 mem e])
  obtain k where k: "read_public_key e mem 48 = Some k" "key_at k = 48" using assms by (auto intro: read_public_key_ok[of 48 mem e])
  obtain b where b: "read_signature e mem 80 = Some b" "sig_at b = 80" using assms by (auto intro: read_signature_ok[of 80 mem e])
  have "\<exists>p. read_firmware_preamble e mem = Some p \<and> preamble_signature p = s \<and> kernel_subkey p = k \<and>
      body_signature p = b \<and> version_minor p = load32 e (take 4 (drop 36 mem))"
    using assms s(1) b(1) k(1) by (simp add: read_firmware_preamble_def vboot_facts)
  then show thesis using that s(2) b(2) k(2) by auto
qed

lemma read_kernel_preamble_ok:
  assumes "96 \<le> length mem"
  obtains p where "read_kernel_preamble e mem = Some p" and "sig_at (kpreamble_signature p) = 8"
    and "sig_at (kbody_signature p) = 72"
proof -
  obtain s where s: "read_signature e mem 8 = Some s" "sig_at s = 8" using assms by (auto intro: read_signature_ok[of 8 mem e])
  obtain b where b: "read_signature e mem 72 = Some b" "sig_at b = 72" using assms by (auto intro: read_signature_ok[of 72 mem e])
  have "\<exists>p. read_kernel_preamble e mem = Some p \<and> kpreamble_signature p = s \<and> kbody_signature p = b"
    using assms s(1) b(1) by (simp add: read_kernel_preamble_def vboot_facts)
  then show thesis using that s(2) b(2) by auto
qed

subsection \<open>Verification never leaves its region\<close>

text \<open>A key a verification can use: its arrays are there and its algorithm is known.\<close>

definition usable_key :: "rsa_key \<Rightarrow> bool" where
  "usable_key key \<longleftrightarrow> key_arrays key \<and> unat (rsa_algorithm key) < kNumAlgorithms"

lemma load_array_length: "length (load_array e bs) = length bs div 4"
  by (simp add: load_array_def)

lemma RSAPublicKeyFromBuf_arrays:
  assumes "unat len \<le> length mem" and "RSAPublicKeyFromBuf e junk mem len = Some (Some key)"
  shows "key_arrays key"
proof -
  define L where "L = unat (load32 e (take 4 mem))"
  have L: "4 * L \<in> {128, 256, 512, 1024}" "unat len = 8 + 8 * L" "rsa_len key = load32 e (take 4 mem)"
    "rsa_n key = load_array e (take (4 * L) (drop 8 mem))" "rsa_rr key = load_array e (take (4 * L) (drop (8 + 4 * L) mem))"
    using assms(2) RSAPublicKeyFromBuf_ok[OF assms(1), of e junk] unfolding L_def[symmetric]
    by (auto split: if_splits)
  then have "0 < L" by auto
  with L assms(1) show ?thesis by (simp add: key_arrays_def load_array_length L_def[symmetric])
qed

lemma RSAVerify_total:
  assumes key: "key_arrays key" and t: "unat sig_type < kNumAlgorithms"
    and len: "siglen_map ! unat sig_type \<le> length sig" "hash_size_map ! unat sig_type \<le> length hash"
  shows "RSAVerify (Some key) (Some sig) (of_nat (siglen_map ! unat sig_type)) sig_type (Some hash) \<in> {Some 0, Some 1}"
proof (cases "of_nat (siglen_map ! unat sig_type) = rsa_len key * 4 \<and> unat (rsa_len key) = siglen_map ! unat sig_type div 4")
  case False
  then show ?thesis using t by auto
next
  case True
  define k where "k = siglen_map ! unat sig_type"
  have k: "k \<in> {128, 256, 512, 1024}" using table_sizes(3)[OF t] by (simp add: k_def)
  then have l: "unat (of_nat k :: u32) = k" "k = 4 * (k div 4)" by auto
  have ls: "length (take k sig) = 4 * unat (rsa_len key)" using True l(2) len(1) by (simp add: k_def)
  obtain out where out: "modpowF4 key (take k sig) = Some out" "length out = k"
    using modpowF4_total[OF key ls] ls True l(2) by (auto simp: k_def)
  note S = table_sizes[OF t, folded k_def]
  have c1: "\<exists>d. SafeMemcmp out (padding_map ! unat sig_type) (padding_size_map ! unat sig_type) = Some d"
    using SafeMemcmp_ok[of "padding_size_map ! unat sig_type" out "padding_map ! unat sig_type"] out(2) S by simp
  have c2: "\<exists>d. SafeMemcmp (drop (padding_size_map ! unat sig_type) out) hash (k - padding_size_map ! unat sig_type) = Some d"
    using SafeMemcmp_ok[of "k - padding_size_map ! unat sig_type" "drop (padding_size_map ! unat sig_type) out" hash] out(2) S len(2)
    by simp
  have m: "mem_read sig 0 k = Some (take k sig)" using len(1) by (simp add: mem_read_def k_def)
  show ?thesis
    using True t c1 c2 unfolding k_def[symmetric] RSAVerify.simps Let_def l(1) m out(1) bind.bind_lunit by auto
qed

lemma small_algorithm:
  "unat (t :: u32) < kNumAlgorithms \<Longrightarrow> unat (ucast t :: u8) = unat t \<and> unat (ucast t :: u64) = unat t"
  by (simp add: kNumAlgorithms_def unsigned_ucast_eq take_bit_nat_eq_self)

lemma RSAVerifyBinary_total:
  assumes key: "usable_key key" and data: "unat len \<le> length mem" "len_fits (unat len)"
    and sig: "siglen_map ! unat (rsa_algorithm key) \<le> length sig"
  shows "RSAVerifyBinary_f e junk None (Some key) mem len (Some sig) (rsa_algorithm key) \<in> {Some 0, Some 1}"
proof -
  let ?t = "rsa_algorithm key"
  have t: "unat ?t < kNumAlgorithms" "key_arrays key" using key by (simp_all add: usable_key_def)
  note u = small_algorithm[OF t(1)]
  have h: "DigestBuf mem len (unat ?t) = Some (digest_of (unat ?t) (take (unat len) mem))"
    by (rule DigestBuf_ok[OF t(1) data])
  have "RSAVerify (Some key) (Some sig) (of_nat (siglen_map ! unat ?t)) (ucast ?t)
      (Some (digest_of (unat ?t) (take (unat len) mem))) \<in> {Some 0, Some 1}"
    using RSAVerify_total[OF t(2), of "ucast ?t"] t(1) u sig digest_of_length[OF t(1)] by simp
  then show ?thesis
    using t(1) u h by (simp add: RSAVerifyBinary_f_def RSAProcessedKeySize_def choose_key_def del: RSAVerify.simps)
qed


lemma GetSignatureData_eq:
  assumes "inside (sig_at sig) 24 (sig_offset sig) (sig_size sig) n" and "unat n \<le> length mem"
  shows "GetSignatureData mem sig = drop (sig_at sig + unat (sig_offset sig)) mem"
    and "unat (sig_size sig) \<le> length (GetSignatureData mem sig)"
proof -
  have "unat n < 2 ^ LENGTH(64)" by (rule unsigned_less)
  then have "sig_at sig + unat (sig_offset sig) < 2 ^ 64" using assms(1) by (simp add: inside_def)
  then have "unat (of_nat (sig_at sig) + sig_offset sig :: u64) = sig_at sig + unat (sig_offset sig)"
    by (simp add: unat_word_ariths unat_of_nat)
  then show "GetSignatureData mem sig = drop (sig_at sig + unat (sig_offset sig)) mem"
    by (simp add: GetSignatureData_def)
  then show "unat (sig_size sig) \<le> length (GetSignatureData mem sig)"
    using assms unfolding inside_def length_drop by simp linarith
qed

text \<open>What a signature that is accepted says.\<close>

definition signed_data :: "endian \<Rightarrow> u8 list \<Rightarrow> u64 \<Rightarrow> u8 list \<Rightarrow> vb_signature \<Rightarrow> rsa_key \<Rightarrow> bool" where
  "signed_data e data nbytes mem sig key \<longleftrightarrow>
     unat (sig_size sig) = siglen_map ! unat (rsa_algorithm key) \<and> data_size sig \<le> nbytes \<and>
     RSAVerifyBinary_f e 0 None (Some key) data (data_size sig) (Some (drop (sig_at sig + unat (sig_offset sig)) mem))
       (rsa_algorithm key) = Some 1"

abbreviation signed_by :: "endian \<Rightarrow> u8 list \<Rightarrow> u64 \<Rightarrow> vb_signature \<Rightarrow> rsa_key \<Rightarrow> bool" where
  "signed_by e mem nbytes sig key \<equiv> signed_data e mem nbytes mem sig key"

lemma VerifyData_ok:
  assumes key: "usable_key key" and data: "unat nbytes \<le> length data" "len_fits (length data)"
    and sig: "inside (sig_at sig) 24 (sig_offset sig) (sig_size sig) n" "unat n \<le> length mem"
  shows "VerifyData e data nbytes mem sig key = Some (\<not> signed_data e data nbytes mem sig key)"
proof -
  let ?t = "unat (rsa_algorithm key)"
  have t: "?t < kNumAlgorithms" using key by (simp add: usable_key_def)
  have s: "table_at siglen_map ?t = Some (siglen_map ! ?t)"
    using t by (simp add: table_at_def kNumAlgorithms_def siglen_map_def)
  have w: "sig_size sig = of_nat (siglen_map ! ?t) \<longleftrightarrow> unat (sig_size sig) = siglen_map ! ?t"
  proof -
    have "unat (of_nat (siglen_map ! ?t) :: u64) = siglen_map ! ?t" using table_sizes(3)[OF t] by (auto simp: unat_of_nat)
    then show ?thesis by (metis unsigned_word_eqI)
  qed
  show ?thesis
  proof (cases "unat (sig_size sig) = siglen_map ! ?t \<and> data_size sig \<le> nbytes")
    case True
    then have d: "unat (data_size sig) \<le> length data" "len_fits (unat (data_size sig))"
      using data by (auto simp: word_le_nat_alt len_fits_def)
    have "siglen_map ! ?t \<le> length (GetSignatureData mem sig)" using True GetSignatureData_eq(2)[OF sig] by simp
    from RSAVerifyBinary_total[OF key d this, of e 0] True
    show ?thesis using s w GetSignatureData_eq(1)[OF sig]
      by (auto simp: VerifyData_def signed_data_def)
  next
    case False
    then show ?thesis using s w by (auto simp: VerifyData_def signed_data_def)
  qed
qed

text \<open>The region of a key, which holds the data its structure points to.\<close>

definition key_region :: "endian \<Rightarrow> u8 list \<Rightarrow> bool" where
  "key_region e kmem \<longleftrightarrow> 32 \<le> length kmem \<and>
     unat (load64 e (take 8 kmem)) + unat (load64 e (take 8 (drop 8 kmem))) \<le> length kmem"

lemma key_region_read:
  assumes "key_region e kmem" and "read_public_key e kmem 0 = Some k"
  shows "unat (key_offset k) + unat (key_size k) \<le> length kmem"
  using assms by (auto simp: key_region_def read_public_key_def vboot_facts)

lemma PublicKeyToRSA_ok:
  assumes "key_region e kmem"
  obtains "PublicKeyToRSA e junk kmem = Some None"
  | rsa where "PublicKeyToRSA e junk kmem = Some (Some rsa)" and "usable_key rsa"
proof -
  obtain k where k: "read_public_key e kmem 0 = Some k" "key_at k = 0"
    using read_public_key_ok[of 0 kmem e] assms by (auto simp: key_region_def)
  have l: "unat (key_size k) \<le> length (GetPublicKeyData kmem k)"
    using key_region_read[OF assms k(1)] by (simp add: GetPublicKeyData_def k(2))
  show thesis
  proof (cases "unat (algorithm k) < kNumAlgorithms \<and>
      key_size k = of_nat (2 * (siglen_map ! unat (algorithm k)) + 4 + 4)")
    case False
    have "PublicKeyToRSA e junk kmem = Some None"
      unfolding PublicKeyToRSA_def k(1) RSAProcessedKeySize_def Let_def using False by auto
    then show thesis by (rule that(1))
  next
    case True
    have alg: "unat (ucast (algorithm k) :: u32) = unat (algorithm k)"
      using True by (simp add: kNumAlgorithms_def unsigned_ucast_eq take_bit_nat_eq_self)
    obtain r where r: "RSAPublicKeyFromBuf e junk (GetPublicKeyData kmem k) (key_size k) = Some r"
      using RSAPublicKeyFromBuf_ok[OF l, of e junk] by auto
    have eq: "PublicKeyToRSA e junk kmem = Some (map_option (\<lambda>rsa. rsa\<lparr>rsa_algorithm := ucast (algorithm k)\<rparr>) r)"
      unfolding PublicKeyToRSA_def k(1) RSAProcessedKeySize_def Let_def using True r by (auto split: option.splits)
    show thesis
    proof (cases r)
      case None
      with eq that(1) show thesis by simp
    next
      case (Some rsa)
      then have "key_arrays rsa" using RSAPublicKeyFromBuf_arrays[OF l] r by blast
      then have "usable_key (rsa\<lparr>rsa_algorithm := ucast (algorithm k)\<rparr>)"
        using True alg by (simp add: usable_key_def key_arrays_def)
      with eq Some that(2) show thesis by simp
    qed
  qed
qed


subsection \<open>Claims: members, key blocks, preambles\<close>

text \<open>C16: \<open>VerifyMemberInside\<close> accepts exactly the members which, with their data, end inside the parent when all
sums are taken in unbounded arithmetic; none of its 64-bit additions wraps on a member it accepts.\<close>

theorem VerifyMemberInside_exact:
  "VerifyMemberInside parent parent_size member member_size off len \<longleftrightarrow>
    unat parent_size < unat (member - parent) + max (unat member_size) (unat off + unat len)"
  using VerifyMemberInside_iff[of parent parent_size member member_size off len] by (auto simp: max_def)

text \<open>What a key block must satisfy, in natural numbers.\<close>

definition good_data :: "key_block_header \<Rightarrow> vb_signature \<Rightarrow> bool" where
  "good_data kb sig \<longleftrightarrow> 112 \<le> unat (data_size sig) \<and>
     inside 80 32 (key_offset (data_key kb)) (key_size (data_key kb)) (data_size sig)"

definition good_block :: "key_block_header \<Rightarrow> u64 \<Rightarrow> vb_signature \<Rightarrow> bool" where
  "good_block kb nbytes sig \<longleftrightarrow>
     112 \<le> unat nbytes \<and> take 8 (magic kb) = take 8 KEY_BLOCK_MAGIC \<and> block_version_major kb = 2 \<and>
     key_block_size kb \<le> nbytes \<and> data_size sig \<le> key_block_size kb \<and>
     inside (sig_at sig) 24 (sig_offset sig) (sig_size sig) (key_block_size kb) \<and> good_data kb sig"

definition hash_accepted :: "u8 list \<Rightarrow> vb_signature \<Rightarrow> bool" where
  "hash_accepted mem sig \<longleftrightarrow> sig_size sig = 64 \<and>
     take 64 (drop (sig_at sig + unat (sig_offset sig)) mem) = sha512 (take (unat (data_size sig)) mem)"

definition key_accepted :: "endian \<Rightarrow> u32 \<Rightarrow> u8 list \<Rightarrow> u64 \<Rightarrow> vb_signature \<Rightarrow> u8 list ptr \<Rightarrow> bool" where
  "key_accepted e junk mem nbytes sig key \<longleftrightarrow>
     (\<exists>kmem rsa. key = Some kmem \<and> PublicKeyToRSA e junk kmem = Some (Some rsa) \<and> signed_by e mem nbytes sig rsa)"

lemma check_signed_iff:
  assumes k: "key_at (data_key kb) = 80" and d: "data_size sig \<le> key_block_size kb"
  shows "check_signed kb sig = VBOOT_SUCCESS \<longleftrightarrow> good_data kb sig"
proof -
  have v: "VerifyPublicKeyInside n (data_key kb) \<longleftrightarrow> \<not> inside 80 32 (key_offset (data_key kb)) (key_size (data_key kb)) n" for n
    using VerifyPublicKeyInside_iff[of "data_key kb" n] k by auto
  have m: "inside 80 32 a b (data_size sig) \<Longrightarrow> inside 80 32 a b (key_block_size kb)" for a b
    using d by (simp add: inside_def word_le_nat_alt)
  have n: "data_size sig < 112 \<longleftrightarrow> \<not> 112 \<le> unat (data_size sig)"
    by (simp add: word_less_nat_alt not_le)
  show ?thesis unfolding check_signed_def good_data_def v n using m by simp
qed

lemma hash_check_ok:
  assumes mem: "unat (key_block_size kb) \<le> length mem" "len_fits (length mem)"
    and sig: "inside (sig_at sig) 24 (sig_offset sig) (sig_size sig) (key_block_size kb)"
    and s: "sig_size sig = 64" "data_size sig \<le> key_block_size kb"
  shows "do { header_checksum \<leftarrow> DigestBuf mem (data_size sig) 2;
    rv \<leftarrow> SafeMemcmp header_checksum (GetSignatureData mem sig) 64;
    if rv \<noteq> 0 then Some VBOOT_KEY_BLOCK_HASH else Some (check_signed kb sig) } =
    Some (if hash_accepted mem sig then check_signed kb sig else VBOOT_KEY_BLOCK_HASH)"
proof -
  have d: "unat (data_size sig) \<le> length mem" using s(2) mem(1) by (simp add: word_le_nat_alt)
  then have f: "len_fits (unat (data_size sig))" using mem(2) by (simp add: len_fits_def)
  have n: "(2 :: nat) < kNumAlgorithms" by (simp add: kNumAlgorithms_def)
  have h: "DigestBuf mem (data_size sig) 2 = Some (sha512 (take (unat (data_size sig)) mem))"
    "length (sha512 (take (unat (data_size sig)) mem)) = 64"
    using DigestBuf_ok[OF n d f] digest_of_length[OF n, of "take (unat (data_size sig)) mem"]
    by (simp_all add: digest_of_def hash_size_map_def)
  note g = GetSignatureData_eq[OF sig mem(1)]
  have "64 \<le> length (drop (sig_at sig + unat (sig_offset sig)) mem)" using g s(1) by simp
  then have "SafeMemcmp (sha512 (take (unat (data_size sig)) mem)) (GetSignatureData mem sig) 64 =
      Some (if hash_accepted mem sig then 0 else 1)"
    unfolding g(1) using SafeMemcmp_ok[of 64 "sha512 (take (unat (data_size sig)) mem)"] h(2) s(1)
    by (auto simp: hash_accepted_def)
  with h(1) show ?thesis by simp
qed


lemma KeyBlockVerify_ok:
  assumes mem: "unat nbytes \<le> length mem" "len_fits (length mem)"
    and key: "\<And>kmem. key = Some kmem \<Longrightarrow> key_region e kmem"
  shows "\<exists>r. KeyBlockVerify e junk mem nbytes key hash_only = Some r \<and>
    (r = VBOOT_SUCCESS \<longleftrightarrow> (\<exists>kb. read_key_block e mem = Some kb \<and>
      (if hash_only then good_block kb nbytes (key_block_checksum kb) \<and> hash_accepted mem (key_block_checksum kb)
       else good_block kb nbytes (key_block_signature kb) \<and>
         key_accepted e junk mem nbytes (key_block_signature kb) key)))"
proof (cases "112 \<le> unat nbytes")
  case False
  then show ?thesis by (auto simp: KeyBlockVerify_def good_block_def word_less_nat_alt)
next
  case big: True
  then have "112 \<le> length mem" using mem(1) by simp
  from read_key_block_ok[OF this, of e]
  obtain kb where kb: "read_key_block e mem = Some kb" "magic kb = take 8 mem"
    "sig_at (key_block_signature kb) = 24" "sig_at (key_block_checksum kb) = 48" "key_at (data_key kb) = 80" by metis
  have m: "SafeMemcmp (magic kb) KEY_BLOCK_MAGIC 8 = Some (if take 8 (magic kb) = take 8 KEY_BLOCK_MAGIC then 0 else 1)"
    using big mem(1) by (intro SafeMemcmp_ok) (simp_all add: kb(2) KEY_BLOCK_MAGIC_def)
  have n: "\<not> nbytes < 112" using big by (simp add: word_less_nat_alt)
  have v: "VerifySignatureInside (key_block_size kb) sig \<longleftrightarrow>
      \<not> inside (sig_at sig) 24 (sig_offset sig) (sig_size sig) (key_block_size kb)" if "sig_at sig < 2 ^ 64" for sig
    using VerifySignatureInside_iff[OF that, of "key_block_size kb"] by blast
  show ?thesis
  proof (cases "take 8 (magic kb) = take 8 KEY_BLOCK_MAGIC \<and> block_version_major kb = 2 \<and> key_block_size kb \<le> nbytes")
    case False
    then show ?thesis using n m kb(1) by (auto simp: KeyBlockVerify_def good_block_def)
  next
    case head: True
    then have kmem: "unat (key_block_size kb) \<le> length mem" using mem(1) by (auto simp: word_le_nat_alt)
    show ?thesis
    proof (cases hash_only)
      case True
      let ?s = "key_block_checksum kb"
      show ?thesis
        using head n m big kb(1) True v[of ?s] kb(4) hash_check_ok[OF kmem mem(2), of ?s] check_signed_iff[OF kb(5), of ?s]
        by (auto simp: KeyBlockVerify_def good_block_def Let_def hash_accepted_def)
    next
      case False
      let ?s = "key_block_signature kb"
      show ?thesis
      proof (cases "key = None \<or> VerifySignatureInside (key_block_size kb) ?s")
        case True
        then show ?thesis using head n m big kb(1) False v[of ?s] kb(3)
          by (auto simp: KeyBlockVerify_def good_block_def Let_def key_accepted_def)
      next
        case sig: False
        then obtain km where km: "key = Some km" by auto
        have ins: "inside (sig_at ?s) 24 (sig_offset ?s) (sig_size ?s) (key_block_size kb)" using sig v[of ?s] kb(3) by simp
        show ?thesis
        proof (cases rule: PublicKeyToRSA_ok[OF key[OF km], of junk])
          case 1
          show ?thesis using 1 head n m big kb(1) False sig km
            by (auto simp: KeyBlockVerify_def good_block_def Let_def key_accepted_def)
        next
          case (2 rsa)
          note vd = VerifyData_ok[OF 2(2) mem ins kmem, of e]
          show ?thesis using vd head n m big kb(1) False sig km 2 ins check_signed_iff[OF kb(5), of ?s]
            by (auto simp: KeyBlockVerify_def good_block_def Let_def key_accepted_def)
        qed
      qed
    qed
  qed
qed

text \<open>C4: \<open>KeyBlockVerify\<close> reads only inside its buffer and its key, whatever they hold, and always returns. It returns
success exactly on the blocks that satisfy the format in unbounded arithmetic and whose signature the key
accepts or, when only hashes are checked, whose checksum is the SHA-512 hash of the data it covers: a block with
a data key outside the signed part is never accepted.\<close>

theorem KeyBlockVerify_correct:
  assumes mem: "unat nbytes \<le> length mem" "len_fits (length mem)"
    and key: "\<And>kmem. key = Some kmem \<Longrightarrow> key_region e kmem"
  shows "\<exists>r. KeyBlockVerify e junk mem nbytes key hash_only = Some r \<and>
    (r = VBOOT_SUCCESS \<longleftrightarrow> (\<exists>kb. read_key_block e mem = Some kb \<and>
      (if hash_only then good_block kb nbytes (key_block_checksum kb) \<and> hash_accepted mem (key_block_checksum kb)
       else good_block kb nbytes (key_block_signature kb) \<and>
         key_accepted e junk mem nbytes (key_block_signature kb) key)))"
  by (rule KeyBlockVerify_ok) (use assms in auto)


text \<open>A block whose checksum is the hash of its header.\<close>

definition hashed_header :: "u8 list" where
  "hashed_header = [0x4B, 0x49, 0x4E, 0x47, 0x2D, 0x4B, 0x4F, 0x4E, 2, 0, 0, 0, 1, 0, 0, 0, 176, 0, 0, 0, 0, 0, 0, 0] @
     replicate 24 0 @ [64, 0, 0, 0, 0, 0, 0, 0, 64, 0, 0, 0, 0, 0, 0, 0, 112, 0, 0, 0, 0, 0, 0, 0] @
     replicate 8 0 @ [32, 0, 0, 0, 0, 0, 0, 0] @ replicate 24 0"

theorem KeyBlockVerify_correct_witness:
  "KeyBlockVerify Little 0 (hashed_header @ sha512 hashed_header) 176 None True = Some VBOOT_SUCCESS"
proof -
  let ?mem = "hashed_header @ sha512 hashed_header"
  have l: "length hashed_header = 112" "length (sha512 hashed_header) = 64"
    using digest_of_length[of 2 hashed_header]
    by (simp_all add: hashed_header_def digest_of_def kNumAlgorithms_def hash_size_map_def)
  have kb: "read_key_block Little ?mem = Some \<lparr>magic = take 8 KEY_BLOCK_MAGIC, block_version_major = 2,
      block_version_minor = 1, key_block_size = 176,
      key_block_signature = \<lparr>sig_at = 24, sig_offset = 0, sig_size = 0, data_size = 0\<rparr>,
      key_block_checksum = \<lparr>sig_at = 48, sig_offset = 64, sig_size = 64, data_size = 112\<rparr>, key_block_flags = 0,
      data_key = \<lparr>key_at = 80, key_offset = 32, key_size = 0, algorithm = 0, key_version = 0\<rparr>\<rparr>"
    by (simp add: read_key_block_def read_signature_def read_public_key_def vboot_facts l mem_read_def)
      (simp add: hashed_header_def KEY_BLOCK_MAGIC_def PACK32_def PACK64_def buf_w_def)
  show ?thesis
    using KeyBlockVerify_correct[of 176 ?mem None Little 0 True] l
    by (simp add: len_fits_def kb good_block_def good_data_def inside_def hash_accepted_def)
qed


lemma VerifySignatureInside_eq:
  "sig_at sig < 2 ^ 64 \<Longrightarrow> VerifySignatureInside n sig \<longleftrightarrow> \<not> inside (sig_at sig) 24 (sig_offset sig) (sig_size sig) n"
  using VerifySignatureInside_iff by blast

lemma VerifyPublicKeyInside_eq:
  "key_at key < 2 ^ 64 \<Longrightarrow> VerifyPublicKeyInside n key \<longleftrightarrow> \<not> inside (key_at key) 32 (key_offset key) (key_size key) n"
  using VerifyPublicKeyInside_iff by blast

lemma VbGetFirmwarePreambleFlags_ok: "108 \<le> length mem \<Longrightarrow> \<exists>f. VbGetFirmwarePreambleFlags e mem = Some f"
  by (simp add: VbGetFirmwarePreambleFlags_def vboot_facts)

text \<open>What a firmware preamble must satisfy: its body signature and its kernel key are inside the signed part.\<close>

definition good_firmware_preamble :: "endian \<Rightarrow> u8 list \<Rightarrow> u64 \<Rightarrow> rsa_key \<Rightarrow> firmware_preamble \<Rightarrow> bool" where
  "good_firmware_preamble e mem nbytes key p \<longleftrightarrow>
     (let sig = preamble_signature p; body = body_signature p; sub = kernel_subkey p in
      version_major p = 2 \<and> preamble_size p \<le> nbytes \<and> data_size sig \<le> preamble_size p \<and> 108 \<le> unat (data_size sig) \<and>
      inside 8 24 (sig_offset sig) (sig_size sig) (preamble_size p) \<and>
      inside 80 24 (sig_offset body) (sig_size body) (data_size sig) \<and>
      inside 48 32 (key_offset sub) (key_size sub) (data_size sig) \<and> signed_by e mem nbytes sig key)"

lemma VerifyFirmwarePreamble_ok:
  assumes key: "usable_key key" and mem: "unat nbytes \<le> length mem" "len_fits (length mem)"
  shows "\<exists>r. VerifyFirmwarePreamble e mem nbytes key = Some r \<and>
    (r = VBOOT_SUCCESS \<longleftrightarrow> 104 \<le> unat nbytes \<and>
      (\<exists>p. read_firmware_preamble e mem = Some p \<and> good_firmware_preamble e mem nbytes key p)) \<and>
    (r = VBOOT_SUCCESS \<longrightarrow> (\<exists>f. VbGetFirmwarePreambleFlags e mem = Some f))"
proof (cases "104 \<le> unat nbytes")
  case False
  then show ?thesis by (auto simp: VerifyFirmwarePreamble_def word_less_nat_alt)
next
  case big: True
  then have "104 \<le> length mem" using mem(1) by simp
  from read_firmware_preamble_ok[OF this, of e]
  obtain p where p: "read_firmware_preamble e mem = Some p" "sig_at (preamble_signature p) = 8"
    "key_at (kernel_subkey p) = 48" "sig_at (body_signature p) = 80" by metis
  let ?s = "preamble_signature p"
  have v: "VerifySignatureInside n ?s \<longleftrightarrow> \<not> inside 8 24 (sig_offset ?s) (sig_size ?s) n"
    "VerifySignatureInside n (body_signature p) \<longleftrightarrow>
      \<not> inside 80 24 (sig_offset (body_signature p)) (sig_size (body_signature p)) n"
    "VerifyPublicKeyInside n (kernel_subkey p) \<longleftrightarrow>
      \<not> inside 48 32 (key_offset (kernel_subkey p)) (key_size (kernel_subkey p)) n" for n
    using VerifySignatureInside_eq[of ?s n] VerifySignatureInside_eq[of "body_signature p" n]
      VerifyPublicKeyInside_eq[of "kernel_subkey p" n] p by simp_all
  have n: "nbytes < 104 \<longleftrightarrow> False" using big by (simp add: word_less_nat_alt)
  have w: "nbytes < preamble_size p \<longleftrightarrow> \<not> preamble_size p \<le> nbytes"
    "preamble_size p < data_size ?s \<longleftrightarrow> \<not> data_size ?s \<le> preamble_size p"
    "data_size ?s < 108 \<longleftrightarrow> \<not> 108 \<le> unat (data_size ?s)" by (auto simp: word_less_nat_alt word_le_nat_alt)
  have vd: "VerifyData e mem nbytes mem ?s key = Some (\<not> signed_by e mem nbytes ?s key)"
    if "inside 8 24 (sig_offset ?s) (sig_size ?s) (preamble_size p)" "preamble_size p \<le> nbytes"
    using VerifyData_ok[OF key mem, of ?s "preamble_size p"] that p(2) mem(1) by (simp add: word_le_nat_alt)
  show ?thesis
  proof (cases "good_firmware_preamble e mem nbytes key p")
    case True
    note g = True[unfolded good_firmware_preamble_def Let_def]
    then have l: "108 \<le> unat nbytes" "\<not> nbytes < 108" by (auto simp: word_le_nat_alt word_less_nat_alt)
    have "\<exists>f. VbGetFirmwarePreambleFlags e mem = Some f" 
      by (rule VbGetFirmwarePreambleFlags_ok) (use l(1) mem(1) in simp)
    moreover have "VerifyFirmwarePreamble e mem nbytes key = Some VBOOT_SUCCESS"
      unfolding VerifyFirmwarePreamble_def p(1) n if_False bind.bind_lunit Let_def v w using g l vd by simp
    ultimately show ?thesis using True big p(1) by simp
  next
    case False
    note g = False[unfolded good_firmware_preamble_def Let_def]
    have "\<exists>r. VerifyFirmwarePreamble e mem nbytes key = Some r \<and> r \<noteq> VBOOT_SUCCESS"
      unfolding VerifyFirmwarePreamble_def p(1) n if_False bind.bind_lunit Let_def v w using g vd by auto
    then show ?thesis using False p(1) by auto
  qed
qed

text \<open>\<open>VerifyFirmwarePreamble\<close> with a usable key reads only inside its buffer, always returns, and returns success
exactly on the preambles of version 2 that the key signed, with the body signature and the kernel key inside
the signed part. After success the flags can be read inside the buffer, whatever the minor version says.\<close>

theorem VerifyFirmwarePreamble_correct:
  assumes key: "usable_key key" and mem: "unat nbytes \<le> length mem" "len_fits (length mem)"
  shows "\<exists>r. VerifyFirmwarePreamble e mem nbytes key = Some r \<and>
    (r = VBOOT_SUCCESS \<longleftrightarrow> 104 \<le> unat nbytes \<and>
      (\<exists>p. read_firmware_preamble e mem = Some p \<and> good_firmware_preamble e mem nbytes key p)) \<and>
    (r = VBOOT_SUCCESS \<longrightarrow> (\<exists>f. VbGetFirmwarePreambleFlags e mem = Some f))"
  by (rule VerifyFirmwarePreamble_ok) (use assms in auto)

lemma ones_key_usable: "usable_key (ones_key\<lparr>rsa_algorithm := 1\<rparr>)"
  by (simp add: usable_key_def key_arrays_def ones_key_def kNumAlgorithms_def)

theorem VerifyFirmwarePreamble_correct_witness:
  "\<exists>r. VerifyFirmwarePreamble Big (replicate 104 0) 104 (ones_key\<lparr>rsa_algorithm := 1\<rparr>) = Some r \<and> r \<noteq> VBOOT_SUCCESS"
proof -
  have "\<not> good_firmware_preamble Big (replicate 104 0) n key p"
    if "read_firmware_preamble Big (replicate 104 0) = Some p" for n key p
    using that by (auto simp: read_firmware_preamble_def read_signature_def read_public_key_def vboot_facts
      good_firmware_preamble_def PACK32_def buf_w_def Let_def)
  then show ?thesis
    using VerifyFirmwarePreamble_correct[OF ones_key_usable, of 104 "replicate 104 0" Big] by (auto simp: len_fits_def)
qed

text \<open>What a kernel preamble must satisfy. Nothing puts the signed part inside the preamble.\<close>

definition good_kernel_preamble :: "endian \<Rightarrow> u8 list \<Rightarrow> u64 \<Rightarrow> rsa_key \<Rightarrow> kernel_preamble \<Rightarrow> bool" where
  "good_kernel_preamble e mem nbytes key p \<longleftrightarrow>
     (let sig = kpreamble_signature p; body = kbody_signature p in
      kversion_major p = 2 \<and> kpreamble_size p \<le> nbytes \<and> 96 \<le> unat (data_size sig) \<and>
      inside 8 24 (sig_offset sig) (sig_size sig) (kpreamble_size p) \<and>
      inside 72 24 (sig_offset body) (sig_size body) (data_size sig) \<and> signed_by e mem nbytes sig key)"

text \<open>\<open>VerifyKernelPreamble\<close> with a usable key reads only inside its buffer, always returns, and returns success
exactly on the preambles of version 2 that the key signed, with the body signature inside the signed part,
which may be longer than the preamble but not than the buffer.\<close>

theorem VerifyKernelPreamble_correct:
  assumes key: "usable_key key" and mem: "unat nbytes \<le> length mem" "len_fits (length mem)"
  shows "\<exists>r. VerifyKernelPreamble e mem nbytes key = Some r \<and>
    (r = VBOOT_SUCCESS \<longleftrightarrow> 96 \<le> unat nbytes \<and>
      (\<exists>p. read_kernel_preamble e mem = Some p \<and> good_kernel_preamble e mem nbytes key p))"
proof (cases "96 \<le> unat nbytes")
  case False
  then show ?thesis by (auto simp: VerifyKernelPreamble_def word_less_nat_alt)
next
  case big: True
  then have "96 \<le> length mem" using mem(1) by simp
  from read_kernel_preamble_ok[OF this, of e]
  obtain p where p: "read_kernel_preamble e mem = Some p" "sig_at (kpreamble_signature p) = 8"
    "sig_at (kbody_signature p) = 72" by metis
  let ?s = "kpreamble_signature p"
  have v: "VerifySignatureInside n ?s \<longleftrightarrow> \<not> inside 8 24 (sig_offset ?s) (sig_size ?s) n"
    "VerifySignatureInside n (kbody_signature p) \<longleftrightarrow>
      \<not> inside 72 24 (sig_offset (kbody_signature p)) (sig_size (kbody_signature p)) n" for n
    using VerifySignatureInside_eq[of ?s n] VerifySignatureInside_eq[of "kbody_signature p" n] p by simp_all
  have n: "nbytes < 96 \<longleftrightarrow> False" using big by (simp add: word_less_nat_alt)
  have w: "nbytes < kpreamble_size p \<longleftrightarrow> \<not> kpreamble_size p \<le> nbytes"
    "data_size ?s < 96 \<longleftrightarrow> \<not> 96 \<le> unat (data_size ?s)" by (auto simp: word_less_nat_alt word_le_nat_alt)
  have vd: "VerifyData e mem nbytes mem ?s key = Some (\<not> signed_by e mem nbytes ?s key)"
    if "inside 8 24 (sig_offset ?s) (sig_size ?s) (kpreamble_size p)" "kpreamble_size p \<le> nbytes"
    using VerifyData_ok[OF key mem, of ?s "kpreamble_size p"] that p(2) mem(1) by (simp add: word_le_nat_alt)
  have "VerifyKernelPreamble e mem nbytes key = Some r \<Longrightarrow> r = VBOOT_SUCCESS \<longleftrightarrow> good_kernel_preamble e mem nbytes key p"
    "\<exists>r. VerifyKernelPreamble e mem nbytes key = Some r" for r
    unfolding VerifyKernelPreamble_def p(1) n if_False bind.bind_lunit Let_def v w good_kernel_preamble_def
    using vd by (auto split: if_splits)
  with big p(1) show ?thesis by auto
qed

theorem VerifyKernelPreamble_correct_witness:
  "\<exists>r. VerifyKernelPreamble Big (replicate 96 0) 96 (ones_key\<lparr>rsa_algorithm := 1\<rparr>) = Some r \<and> r \<noteq> VBOOT_SUCCESS"
proof -
  have "\<not> good_kernel_preamble Big (replicate 96 0) n key p"
    if "read_kernel_preamble Big (replicate 96 0) = Some p" for n key p
    using that by (auto simp: read_kernel_preamble_def read_signature_def vboot_facts
      good_kernel_preamble_def PACK32_def buf_w_def Let_def)
  then show ?thesis
    using VerifyKernelPreamble_correct[OF ones_key_usable, of 96 "replicate 96 0" Big] by (auto simp: len_fits_def)
qed

subsection \<open>The shared data\<close>

lemma mem_read_write:
  assumes "mem_write mem off xs = Some mem'"
  shows "length mem' = length mem"
    and "mem_read mem' off (length xs) = Some xs"
    and "o2 + n \<le> off \<or> off + length xs \<le> o2 \<Longrightarrow> mem_read mem' o2 n = mem_read mem o2 n"
proof -
  have m: "off + length xs \<le> length mem" "mem' = take off mem @ xs @ drop (off + length xs) mem"
    using assms by (auto simp: mem_write_def split: if_splits)
  show l: "length mem' = length mem" using m by simp
  show "mem_read mem' off (length xs) = Some xs" using m by (simp add: mem_read_def)
  show "mem_read mem' o2 n = mem_read mem o2 n" if "o2 + n \<le> off \<or> off + length xs \<le> o2"
  proof -
    have "take n (drop o2 mem') = take n (drop o2 mem)" if "o2 + n \<le> length mem"
      using \<open>o2 + n \<le> off \<or> off + length xs \<le> o2\<close>
    proof
      assume "o2 + n \<le> off"
      then show ?thesis using m by (simp add: take_drop min_def)
    next
      assume "off + length xs \<le> o2"
      then show ?thesis using m by (simp add: drop_append add.commute)
    qed
    then show ?thesis unfolding mem_read_def l by simp
  qed
qed

lemma store64_length [simp]: "length (store64 e x) = 8"
  by (cases e) simp_all

lemma byte_bit:
  "a \<le> n \<and> n - a < 64 \<and> n - a < 8 \<and> bit (x :: u64) (a + (n - a)) \<longleftrightarrow> (a \<le> n \<and> n < a + 8) \<and> bit x n"
  by auto

lemma PACK64_UNPACK64: "PACK64 (UNPACK64 x) 0 = x"
proof (rule bit_word_eqI)
  fix n assume "n < LENGTH(64)"
  then have n: "n < 64" by simp
  show "bit (PACK64 (UNPACK64 x) 0) n = bit x n"
    unfolding PACK64_def UNPACK64_def
    using n by (simp add: bit_simps nth_Cons', unfold byte_bit, cases "bit x n", simp_all, arith)
qed

lemma load_store64: "load64 e (store64 e x) = x"
  by (cases e) (simp_all add: PACK64_UNPACK64)

lemma store32_length [simp]: "length (store32 e x) = 4"
  by (cases e) simp_all

lemma byte_bit32:
  "a \<le> n \<and> n - a < 32 \<and> n - a < 8 \<and> bit (x :: u32) (a + (n - a)) \<longleftrightarrow> (a \<le> n \<and> n < a + 8) \<and> bit x n"
  by auto

lemma bytes_of_word: "ucast (ucast x :: u8) OR push_bit 8 (ucast (ucast (drop_bit 8 x) :: u8)) OR
    push_bit 16 (ucast (ucast (drop_bit 16 x) :: u8)) OR push_bit 24 (ucast (ucast (drop_bit 24 x) :: u8)) = (x :: u32)"
proof (rule bit_word_eqI)
  fix n assume "n < LENGTH(32)"
  then have n: "n < 32" by simp
  show "bit (ucast (ucast x :: u8) OR push_bit 8 (ucast (ucast (drop_bit 8 x) :: u8)) OR
    push_bit 16 (ucast (ucast (drop_bit 16 x) :: u8)) OR push_bit 24 (ucast (ucast (drop_bit 24 x) :: u8)) :: u32) n = bit x n"
    using n by (simp add: bit_simps, unfold byte_bit32, cases "bit x n", simp_all, arith)
qed

lemma load_store32: "load32 e (store32 e x) = x"
proof (cases e)
  case Little
  then show ?thesis using bytes_of_word[of x] by (simp add: buf_w_def UNPACK32_def)
next
  case Big
  then show ?thesis using bytes_of_word[of x] by (simp add: PACK32_def UNPACK32_def or.commute or.left_commute or.assoc)
qed

lemma rd_wr64:
  assumes "wr64 e mem off x = Some mem'"
  shows "length mem' = length mem" and "rd64 e mem' off = Some x"
    and "o2 + 8 \<le> off \<or> off + 8 \<le> o2 \<Longrightarrow> rd64 e mem' o2 = rd64 e mem o2"
    and "o2 + n \<le> off \<or> off + 8 \<le> o2 \<Longrightarrow> mem_read mem' o2 n = mem_read mem o2 n"
  using mem_read_write[OF assms[unfolded wr64_def]] by (simp_all add: rd64_def load_store64)

lemma wr64_Some: "off + 8 \<le> length mem \<Longrightarrow> \<exists>mem'. wr64 e mem off x = Some mem'"
  by (simp add: wr64_def mem_write_def)

text \<open>The shared data: what is used fits, and the space of the kernel key, once it has some, is used.\<close>

definition shared_ok :: "endian \<Rightarrow> u8 list \<Rightarrow> bool" where
  "shared_ok e h \<longleftrightarrow> (\<exists>total used koff ksize.
     rd64 e h 16 = Some total \<and> rd64 e h 24 = Some used \<and> rd64 e h 72 = Some koff \<and> rd64 e h 80 = Some ksize \<and>
     88 \<le> unat used \<and> unat used \<le> unat total \<and> unat total \<le> length h \<and>
     (koff \<noteq> 0 \<longrightarrow> 88 \<le> unat koff \<and> unat koff + unat ksize \<le> unat used))"

lemma VbSharedDataReserve_ok:
  assumes "rd64 e h 16 = Some room" and "rd64 e h 24 = Some used" and "unat used \<le> unat room"
    and "n \<le> room - used" and "88 \<le> length h"
  obtains h' where "VbSharedDataReserve e h n = Some (used, h')" and "wr64 e h 24 (used + n) = Some h'"
    and "unat (used + n) = unat used + unat n" and "unat used + unat n \<le> unat room"
proof -
  obtain h' where h': "wr64 e h 24 (used + n) = Some h'" using wr64_Some[of 24 h e "used + n"] assms(5) by auto
  have "unat n \<le> unat room - unat used" using assms(3,4) by (simp add: word_le_nat_alt unat_sub)
  then have b: "unat used + unat n \<le> unat room" using assms(3) by simp
  moreover have "unat room < 2 ^ LENGTH(64)" by (rule unsigned_less)
  ultimately have "unat (used + n) = unat used + unat n" by (simp add: unat_word_ariths)
  moreover have "VbSharedDataReserve e h n = Some (used, h')"
    using assms h' by (simp add: VbSharedDataReserve_def leD)
  ultimately show thesis using that h' b by blast
qed

text \<open>What copying a key into a region leaves there.\<close>

lemma PublicKeyInit_ok:
  assumes "at_key + 32 \<le> length mem"
  obtains mem' where "PublicKeyInit e mem at_key kd n = Some mem'" and "length mem' = length mem"
    and "rd64 e mem' at_key = Some (kd - of_nat at_key)" and "rd64 e mem' (at_key + 8) = Some n"
    and "rd64 e mem' (at_key + 16) = Some (of_nat kNumAlgorithms)" and "rd64 e mem' (at_key + 24) = Some 0"
    and "\<And>off. off + 8 \<le> at_key \<or> at_key + 32 \<le> off \<Longrightarrow> rd64 e mem' off = rd64 e mem off"
proof -
  obtain m1 where m1: "wr64 e mem at_key (kd - of_nat at_key) = Some m1"
    using wr64_Some[of at_key mem e] assms by fastforce
  note w1 = rd_wr64[OF m1]
  obtain m2 where m2: "wr64 e m1 (at_key + 8) n = Some m2" using wr64_Some[of "at_key + 8" m1 e n] assms w1(1) by auto
  note w2 = rd_wr64[OF m2]
  obtain m3 where m3: "wr64 e m2 (at_key + 16) (of_nat kNumAlgorithms) = Some m3"
    using wr64_Some[of "at_key + 16" m2 e] assms w1(1) w2(1) by fastforce
  note w3 = rd_wr64[OF m3]
  obtain m4 where m4: "wr64 e m3 (at_key + 24) 0 = Some m4"
    using wr64_Some[of "at_key + 24" m3 e 0] assms w1(1) w2(1) w3(1) by auto
  note w4 = rd_wr64[OF m4]
  show thesis
    by (rule that[of m4]) (use m1 m2 m3 m4 w1 w2 w3 w4 in \<open>auto simp: PublicKeyInit_def OffsetOf_def\<close>)
qed

lemma PublicKeyCopy_ok:
  assumes dest: "read_public_key e mem at_dest = Some d" "at_dest + 32 \<le> length mem"
    and src: "key_region e smem" "read_public_key e smem 0 = Some k"
    and room: "key_size k \<le> key_size d" "unat (of_nat at_dest + key_offset d :: u64) = off"
      "at_dest + 32 \<le> off" "off + unat (key_size d) \<le> length mem"
  obtains mem' where "PublicKeyCopy e mem at_dest smem = Some (False, mem')" and "length mem' = length mem"
    and "read_public_key e mem' at_dest = Some (k\<lparr>key_at := at_dest, key_offset := key_offset d\<rparr>)"
    and "mem_read mem' off (unat (key_size k)) = mem_read smem (unat (key_offset k)) (unat (key_size k))"
    and "\<And>o2. (o2 + 8 \<le> at_dest + 8 \<or> at_dest + 32 \<le> o2) \<and> o2 + 8 \<le> off \<Longrightarrow> rd64 e mem' o2 = rd64 e mem o2"
proof -
  have n: "unat (key_size k) \<le> unat (key_size d)" using room(1) by (simp add: word_le_nat_alt)
  obtain m1 where m1: "wr64 e mem (at_dest + 8) (key_size k) = Some m1"
    using wr64_Some[of "at_dest + 8" mem e] dest(2) by fastforce
  note w1 = rd_wr64[OF m1]
  obtain m2 where m2: "wr64 e m1 (at_dest + 16) (algorithm k) = Some m2"
    using wr64_Some[of "at_dest + 16" m1 e] dest(2) w1(1) by fastforce
  note w2 = rd_wr64[OF m2]
  obtain m3 where m3: "wr64 e m2 (at_dest + 24) (key_version k) = Some m3"
    using wr64_Some[of "at_dest + 24" m2 e] dest(2) w1(1) w2(1) by fastforce
  note w3 = rd_wr64[OF m3]
  have l: "unat (key_offset k) + unat (key_size k) \<le> length smem" by (rule key_region_read[OF src])
  have k0: "key_at k = 0" using src(2) by (auto simp: read_public_key_def split: bind_splits)
  define data where "data = take (unat (key_size k)) (drop (unat (key_offset k)) smem)"
  have data: "mem_read (GetPublicKeyData smem k) 0 (unat (key_size k)) = Some data"
    "mem_read smem (unat (key_offset k)) (unat (key_size k)) = Some data" "length data = unat (key_size k)"
    using l by (simp_all add: GetPublicKeyData_def k0 mem_read_def data_def)
  obtain m4 where m4: "mem_write m3 off data = Some m4"
    using room(4) n w1(1) w2(1) w3(1) data(3) by (simp add: mem_write_def)
  note w4 = mem_read_write[OF m4]
  have r4: "rd64 e m4 o2 = rd64 e m3 o2" if "o2 + 8 \<le> off" for o2 using w4(3)[of o2 8] that by (simp add: rd64_def)
  have run: "PublicKeyCopy e mem at_dest smem = Some (False, m4)"
    using dest src(2) room(1,2) m1 m2 m3 m4 data(1) by (simp add: PublicKeyCopy_def not_less)
  have "rd64 e mem at_dest = Some (key_offset d)"
    using dest(1) by (auto simp: read_public_key_def split: bind_splits)
  then have "rd64 e m4 at_dest = Some (key_offset d)" "rd64 e m4 (at_dest + 8) = Some (key_size k)"
    "rd64 e m4 (at_dest + 16) = Some (algorithm k)" "rd64 e m4 (at_dest + 24) = Some (key_version k)"
    using r4 w1(2,3) w2(2,3) w3(2,3) room(3) by simp_all
  then have rk: "read_public_key e m4 at_dest = Some (k\<lparr>key_at := at_dest, key_offset := key_offset d\<rparr>)"
    by (cases k) (simp add: read_public_key_def)
  have fr: "rd64 e m4 o2 = rd64 e mem o2" if "(o2 + 8 \<le> at_dest + 8 \<or> at_dest + 32 \<le> o2) \<and> o2 + 8 \<le> off" for o2
    using that r4[of o2] w1(3)[of o2] w2(3)[of o2] w3(3)[of o2] by auto
  show thesis
    by (rule that[OF run _ rk _ fr]) (use w1(1) w2(1) w3(1) w4(1,2) data in auto)
qed

lemma set_key_slot:
  assumes slot: "rd64 e h 72 = Some koff" "rd64 e h 80 = Some ksize" "rd64 e h 16 = Some room" "rd64 e h 24 = Some used"
    and size: "88 \<le> unat koff" "unat koff + unat ksize \<le> unat used" "unat used \<le> unat room" "unat room \<le> length h"
    and src: "key_region e smem" "read_public_key e smem 0 = Some k"
  obtains h' where "do { h \<leftarrow> PublicKeyInit e h 40 koff ksize; PublicKeyCopy e h 40 smem } = Some (ksize < key_size k, h')"
    and "shared_ok e h'" and "length h' = length h"
    and "key_size k \<le> ksize \<Longrightarrow> read_public_key e h' 40 = Some (k\<lparr>key_at := 40, key_offset := koff - 40\<rparr>)"
    and "key_size k \<le> ksize \<Longrightarrow>
      mem_read h' (unat koff) (unat (key_size k)) = mem_read smem (unat (key_offset k)) (unat (key_size k))"
proof -
  have l: "40 + 32 \<le> length h" using size by simp
  obtain h1 where h1: "PublicKeyInit e h 40 koff ksize = Some h1" "length h1 = length h"
    "rd64 e h1 40 = Some (koff - of_nat 40)" "rd64 e h1 (40 + 8) = Some ksize"
    "rd64 e h1 (40 + 16) = Some (of_nat kNumAlgorithms)" "rd64 e h1 (40 + 24) = Some 0"
    "\<And>off. off + 8 \<le> 40 \<or> 40 + 32 \<le> off \<Longrightarrow> rd64 e h1 off = rd64 e h off"
    using PublicKeyInit_ok[OF l, of e koff ksize] by metis
  define d where "d = \<lparr>key_at = 40, key_offset = koff - 40, key_size = ksize, algorithm = of_nat kNumAlgorithms, key_version = 0\<rparr>"
  have d: "read_public_key e h1 40 = Some d" using h1 by (simp add: read_public_key_def d_def)
  have ok: "shared_ok e h'" if "length h' = length h"
    "\<And>o2. (o2 + 8 \<le> 40 \<or> 72 \<le> o2) \<and> o2 + 8 \<le> unat koff \<Longrightarrow> rd64 e h' o2 = rd64 e h1 o2" for h'
    using slot size that(1) that(2)[of 16] that(2)[of 24] that(2)[of 72] that(2)[of 80]
      h1(7)[of 16] h1(7)[of 24] h1(7)[of 72] h1(7)[of 80] by (auto simp: shared_ok_def)
  show thesis
  proof (cases "key_size k \<le> ksize")
    case True
    have r: "key_size k \<le> key_size d" "unat (of_nat 40 + key_offset d :: u64) = unat koff" "40 + 32 \<le> unat koff"
      "unat koff + unat (key_size d) \<le> length h1" "40 + 32 \<le> length h1"
      using True size h1(2) by (simp_all add: d_def)
    obtain h2 where h2: "PublicKeyCopy e h1 40 smem = Some (False, h2)" "length h2 = length h1"
      "read_public_key e h2 40 = Some (k\<lparr>key_at := 40, key_offset := key_offset d\<rparr>)"
      "mem_read h2 (unat koff) (unat (key_size k)) = mem_read smem (unat (key_offset k)) (unat (key_size k))"
      "\<And>o2. (o2 + 8 \<le> 40 + 8 \<or> 40 + 32 \<le> o2) \<and> o2 + 8 \<le> unat koff \<Longrightarrow> rd64 e h2 o2 = rd64 e h1 o2"
      using PublicKeyCopy_ok[OF d r(5) src r(1-4)] by metis
    have "shared_ok e h2" by (rule ok) (use h2 h1 in auto)
    then show thesis using that[of h2] h1(1,2) h2 True by (simp add: d_def leD)
  next
    case False
    then have "PublicKeyCopy e h1 40 smem = Some (True, h1)"
      using d src(2) by (simp add: PublicKeyCopy_def d_def not_le)
    moreover have "shared_ok e h1" by (rule ok) (use h1 in auto)
    ultimately show thesis using that[of h1] h1(1,2) False by (simp add: not_le)
  qed
qed

text \<open>\<open>VbSharedDataSetKernelKey\<close> on well-formed shared data reads and writes only inside the shared data and the
source key, keeps the shared data well-formed, and succeeds exactly when the key fits the space left, or the
space it was given by an earlier call. After success the kernel key in the shared data has the size, algorithm,
version and data of the source.\<close>

theorem VbSharedDataSetKernelKey_correct:
  assumes ok: "shared_ok e h" and src: "key_region e smem" "read_public_key e smem 0 = Some k"
    and cells: "rd64 e h 16 = Some cap" "rd64 e h 24 = Some used" "rd64 e h 72 = Some koff" "rd64 e h 80 = Some ksize"
  shows "\<exists>r h'. VbSharedDataSetKernelKey e h smem = Some (r, h') \<and> shared_ok e h' \<and> length h' = length h \<and>
    (r = VBOOT_SUCCESS \<longleftrightarrow> unat (key_size k) \<le> (if koff = 0 then unat cap - unat used else unat ksize)) \<and>
    (r = VBOOT_SUCCESS \<longrightarrow> (\<exists>off. read_public_key e h' 40 = Some (k\<lparr>key_at := 40, key_offset := off - 40\<rparr>) \<and>
      mem_read h' (unat off) (unat (key_size k)) = mem_read smem (unat (key_offset k)) (unat (key_size k))))"
proof -
  have w: "88 \<le> unat used" "unat used \<le> unat cap" "unat cap \<le> length h"
    "koff \<noteq> 0 \<Longrightarrow> 88 \<le> unat koff \<and> unat koff + unat ksize \<le> unat used"
    using ok cells by (auto simp: shared_ok_def)
  consider (slot) "koff \<noteq> 0" | (full) "koff = 0" "\<not> key_size k \<le> cap - used" | (new) "koff = 0" "key_size k \<le> cap - used"
    by blast
  then show ?thesis
  proof cases
    case slot
    then obtain h' where h': "do { h \<leftarrow> PublicKeyInit e h 40 koff ksize; PublicKeyCopy e h 40 smem } = Some (ksize < key_size k, h')"
      "shared_ok e h'" "length h' = length h"
      "key_size k \<le> ksize \<Longrightarrow> read_public_key e h' 40 = Some (k\<lparr>key_at := 40, key_offset := koff - 40\<rparr>)"
      "key_size k \<le> ksize \<Longrightarrow>
        mem_read h' (unat koff) (unat (key_size k)) = mem_read smem (unat (key_offset k)) (unat (key_size k))"
      using set_key_slot[OF cells(3,4,1,2) _ _ w(2,3) src] w(4) by metis
    then have "VbSharedDataSetKernelKey e h smem =
        Some (if ksize < key_size k then VBOOT_KEY_BLOCK_INVALID else VBOOT_SUCCESS, h')"
      using slot cells src(2) by (auto simp: VbSharedDataSetKernelKey_def split: bind_splits)
    with h' slot show ?thesis by (auto simp: word_less_nat_alt word_le_nat_alt not_less)
  next
    case full
    have "wr64 e h 72 0 = Some h'' \<Longrightarrow> shared_ok e h'' \<and> length h'' = length h" for h''
      using rd_wr64[of e h 72 0 h''] cells w by (auto simp: shared_ok_def)
    moreover obtain h'' where "wr64 e h 72 0 = Some h''" using wr64_Some[of 72 h e 0] w by auto
    moreover have "\<not> unat (key_size k) \<le> unat cap - unat used" using full w by (simp add: word_le_nat_alt unat_sub)
    ultimately show ?thesis using full cells src(2)
      by (simp add: VbSharedDataSetKernelKey_def VbSharedDataReserve_def not_le)
  next
    case new
    have len: "88 \<le> length h" using w by simp
    obtain h1 where h1: "VbSharedDataReserve e h (key_size k) = Some (used, h1)" "wr64 e h 24 (used + key_size k) = Some h1"
      "unat (used + key_size k) = unat used + unat (key_size k)" "unat used + unat (key_size k) \<le> unat cap"
      using VbSharedDataReserve_ok[OF cells(1,2) w(2) new(2) len] by metis
    note w1 = rd_wr64[OF h1(2)]
    obtain h2 where h2: "wr64 e h1 72 used = Some h2" using wr64_Some[of 72 h1 e used] w1(1) len by auto
    note w2 = rd_wr64[OF h2]
    obtain h3 where h3: "wr64 e h2 80 (key_size k) = Some h3" using wr64_Some[of 80 h2 e "key_size k"] w1(1) w2(1) len by auto
    note w3 = rd_wr64[OF h3]
    have c: "rd64 e h3 72 = Some used" "rd64 e h3 80 = Some (key_size k)" "rd64 e h3 16 = Some cap"
      "rd64 e h3 24 = Some (used + key_size k)" "length h3 = length h"
      using w1 w2 w3 cells by simp_all
    have l: "unat used + unat (key_size k) \<le> unat (used + key_size k)" "unat (used + key_size k) \<le> unat cap" "unat cap \<le> length h3"
      using h1 w c by simp_all
    obtain h' where h': "do { h \<leftarrow> PublicKeyInit e h3 40 used (key_size k); PublicKeyCopy e h 40 smem } = Some (key_size k < key_size k, h')"
      "shared_ok e h'" "length h' = length h3"
      "key_size k \<le> key_size k \<Longrightarrow> read_public_key e h' 40 = Some (k\<lparr>key_at := 40, key_offset := used - 40\<rparr>)"
      "key_size k \<le> key_size k \<Longrightarrow>
        mem_read h' (unat used) (unat (key_size k)) = mem_read smem (unat (key_offset k)) (unat (key_size k))"
      using set_key_slot[OF c(1-4) w(1) l src] by metis
    have "used \<noteq> 0" using w(1) by auto
    then have "VbSharedDataSetKernelKey e h smem = Some (VBOOT_SUCCESS, h')"
      using new cells src(2) h1(1) h2 h3 h'(1) c by (auto simp: VbSharedDataSetKernelKey_def split: bind_splits)
    with h' new c(5) l w show ?thesis by (auto simp: word_le_nat_alt unat_sub)
  qed
qed

theorem VbSharedDataSetKernelKey_correct_witness:
  "\<exists>h'. VbSharedDataSetKernelKey Big (replicate 23 0 @ [96] @ replicate 7 0 @ [88] @ replicate 64 0)
      (replicate 7 0 @ [32] @ replicate 7 0 @ [4] @ replicate 16 0 @ [1, 2, 3, 4]) = Some (VBOOT_SUCCESS, h')"
proof -
  let ?h = "replicate 23 0 @ [96] @ replicate 7 0 @ [88] @ replicate 64 0 :: u8 list"
  let ?k = "replicate 7 0 @ [32] @ replicate 7 0 @ [4] @ replicate 16 0 @ [1, 2, 3, 4] :: u8 list"
  let ?key = "\<lparr>key_at = 0, key_offset = 32, key_size = 4, algorithm = 0, key_version = 0\<rparr>"
  have c: "rd64 Big ?h 16 = Some 96" "rd64 Big ?h 24 = Some 88" "rd64 Big ?h 72 = Some 0" "rd64 Big ?h 80 = Some 0"
    by (simp_all add: vboot_facts PACK64_def nth_append)
  have k: "read_public_key Big ?k 0 = Some ?key" by (simp add: read_public_key_def vboot_facts PACK64_def nth_append)
  have "key_region Big ?k" by (simp add: key_region_def PACK64_def nth_append)
  moreover have "shared_ok Big ?h" using c by (simp add: shared_ok_def)
  ultimately show ?thesis using VbSharedDataSetKernelKey_correct[OF _ _ k c] by auto
qed

end
