(* ===== verification/HostFiles.thy ===== *)
theory HostFiles
  imports VbootCommon
begin

text \<open>
  Files and keys of the userspace part of vboot: \<open>ReadFile\<close>, \<open>WriteFile\<close> and
  \<open>PrintPubKeySha1Sum\<close> of \<open>package/vboot_utils/src/host/lib/host_misc.c\<close>, and the public keys of
  \<open>host_key.c\<close>. The file system is part of the state; whether a file can be created and whether there
  is room for its content are up to it. Memory is always available to \<open>malloc\<close>.
\<close>

subsection \<open>The file system\<close>

record disk =
  content :: "string \<rightharpoonup> u8 list"
  can_create :: "string \<Rightarrow> bool"
  has_room :: "string \<Rightarrow> nat \<Rightarrow> bool"

text \<open>\<open>fread\<close> of one item of the size of the file: of an empty file it reads no item.\<close>

definition ReadFile :: "disk \<Rightarrow> string \<Rightarrow> u8 list ptr" where
  "ReadFile d filename =
     (case content d filename of None \<Rightarrow> None | Some buf \<Rightarrow> if buf = [] then None else Some buf)"

text \<open>
  When \<open>fwrite\<close> does not write its one item, which it never does when the size is 0, the file is
  closed twice, which is undefined. The flag is the return value 1.
\<close>

definition WriteFile :: "disk \<Rightarrow> string \<Rightarrow> u8 list \<Rightarrow> (disk \<times> bool) option" where
  "WriteFile d filename data =
     (if \<not> can_create d filename then Some (d, True)
      else if data = [] \<or> \<not> has_room d filename (length data) then None
      else Some (d\<lparr>content := (content d)(filename \<mapsto> data)\<rparr>, False))"

text \<open>The digest that is printed; the key is in a region of its own.\<close>

definition PrintPubKeySha1Sum :: "endian \<Rightarrow> u8 list \<Rightarrow> u8 list option" where
  "PrintPubKeySha1Sum e kmem = do {
     key \<leftarrow> read_public_key e kmem 0;
     DigestBuf (GetPublicKeyData kmem key) (key_size key) 0 }"

subsection \<open>Public keys\<close>

text \<open>The structure followed by room for the key, which \<open>malloc\<close> does not clear.\<close>

definition PublicKeyAlloc :: "endian \<Rightarrow> u8 \<Rightarrow> u64 \<Rightarrow> u64 \<Rightarrow> u64 \<Rightarrow> u8 list option" where
  "PublicKeyAlloc e junk nbytes alg version = do {
     let mem = replicate (unat (32 + nbytes)) junk;
     mem \<leftarrow> wr64 e mem 16 alg;
     mem \<leftarrow> wr64 e mem 24 version;
     mem \<leftarrow> wr64 e mem 8 nbytes;
     wr64 e mem 0 32 }"

definition PublicKeyReadKeyb :: "endian \<Rightarrow> u8 \<Rightarrow> disk \<Rightarrow> string \<Rightarrow> u64 \<Rightarrow> u64 \<Rightarrow> u8 list ptr option" where
  "PublicKeyReadKeyb e junk d filename alg version =
     (if kNumAlgorithms \<le> unat alg then Some None
      else if version > 0xFFFF then Some None
      else case ReadFile d filename of
        None \<Rightarrow> Some None
      | Some key_data \<Rightarrow>
          if RSAProcessedKeySize alg \<noteq> Some (of_nat (length key_data)) then Some None
          else do {
            mem \<leftarrow> PublicKeyAlloc e junk (of_nat (length key_data)) alg version;
            key \<leftarrow> read_public_key e mem 0;
            mem \<leftarrow> mem_write mem (unat (key_offset key)) key_data;
            Some (Some mem) })"

text \<open>The first check reads the offset and the size of the key before it compares the size of the file.\<close>

definition PublicKeyRead :: "endian \<Rightarrow> disk \<Rightarrow> string \<Rightarrow> u8 list ptr option" where
  "PublicKeyRead e d filename =
     (case ReadFile d filename of
        None \<Rightarrow> Some None
      | Some mem \<Rightarrow> do {
          offs \<leftarrow> rd64 e mem 0;
          nbytes \<leftarrow> rd64 e mem 8;
          if VerifyMemberInside 0 (of_nat (length mem)) 0 32 offs nbytes then Some None
          else do {
            key \<leftarrow> read_public_key e mem 0;
            Some (if kNumAlgorithms \<le> unat (algorithm key) then None
              else if key_version key > 0xFFFF then None
              else if RSAProcessedKeySize (algorithm key) \<noteq> Some (key_size key) then None
              else Some mem) } })"

text \<open>The flag is the return value 1.\<close>

definition PublicKeyWrite :: "endian \<Rightarrow> u8 \<Rightarrow> disk \<Rightarrow> string \<Rightarrow> u8 list \<Rightarrow> (disk \<times> bool) option" where
  "PublicKeyWrite e junk d filename kmem = do {
     key \<leftarrow> read_public_key e kmem 0;
     kcopy \<leftarrow> PublicKeyAlloc e junk (key_size key) 0 0;
     (failed, kcopy) \<leftarrow> PublicKeyCopy e kcopy 0 kmem;
     if failed then Some (d, True)
     else do {
       copy \<leftarrow> read_public_key e kcopy 0;
       data \<leftarrow> mem_read kcopy 0 (unat (key_offset copy + key_size copy));
       WriteFile d filename data } }"

end
