(* ===== verification/FonVerify.thy ===== *)
theory FonVerify
  imports HostFiles
begin

text \<open>
  The verification of a firmware image in \<open>package/vboot_utils/src/utility/fonrsa.c\<close>, which the web
  interface calls before an update: a key block signed by the key in a file, a preamble signed by the
  data key of the block, and a body signed by the same data key, one after the other in the image. It
  composes the checks of \<open>vboot_common.c\<close> with the file system. What it prints is left out, except
  that the keys it prints digests of are read.
\<close>

subsection \<open>The program\<close>

definition VB_FIRMWARE_PREAMBLE_USE_RO_NORMAL :: u32 where
  "VB_FIRMWARE_PREAMBLE_USE_RO_NORMAL = 1"

text \<open>
  The part of \<open>Verify\<close> between the reading of the image and the files it writes: the offsets of the
  preamble and of what follows it, the flags, the preamble and the data key, \<open>None\<close> when an error is
  reported. The data key and the kernel key are read in place.
\<close>

definition verify_preamble :: "endian \<Rightarrow> u8 list \<Rightarrow> u64 \<Rightarrow> u64 \<Rightarrow> rsa_key
    \<Rightarrow> (u64 \<times> u64 \<times> u32 \<times> firmware_preamble \<times> rsa_key) ptr option" where
  "verify_preamble e blob blob_size now rsa = do {
     r \<leftarrow> VerifyFirmwarePreamble e (drop (unat now) blob) (blob_size - now) rsa;
     if r \<noteq> VBOOT_SUCCESS then Some None
     else do {
       preamble \<leftarrow> read_firmware_preamble e (drop (unat now) blob);
       flags \<leftarrow> VbGetFirmwarePreambleFlags e (drop (unat now) blob);
       _ \<leftarrow> PrintPubKeySha1Sum e (drop (unat now + 48) blob);
       Some (Some (now, now + preamble_size preamble, flags, preamble, rsa)) } }"

definition verify_headers :: "endian \<Rightarrow> u32 \<Rightarrow> u8 list \<Rightarrow> u8 list
    \<Rightarrow> (u64 \<times> u64 \<times> u32 \<times> firmware_preamble \<times> rsa_key) ptr option" where
  "verify_headers e junk blob sign_key = do {
     let blob_size = of_nat (length blob);
     r \<leftarrow> KeyBlockVerify e junk blob blob_size (Some sign_key) False;
     if r \<noteq> VBOOT_SUCCESS then Some None
     else do {
       key_block \<leftarrow> read_key_block e blob;
       _ \<leftarrow> PrintPubKeySha1Sum e (drop 80 blob);
       rsa \<leftarrow> PublicKeyToRSA e junk (drop 80 blob);
       (case rsa of
          None \<Rightarrow> Some None
        | Some rsa \<Rightarrow> verify_preamble e blob blob_size (key_block_size key_block) rsa) } }"

text \<open>The flag is the return value 1.\<close>

definition Verify :: "endian \<Rightarrow> u32 \<Rightarrow> disk \<Rightarrow> string ptr \<Rightarrow> string ptr \<Rightarrow> string ptr \<Rightarrow> string ptr \<Rightarrow> string ptr
    \<Rightarrow> (disk \<times> bool) option" where
  "Verify e junk d infile signpubkey fv_file kernelkey_file fv_out_file =
     (case (infile, signpubkey) of
        (Some infile, Some signpubkey) \<Rightarrow> do {
          sign_key \<leftarrow> PublicKeyRead e d signpubkey;
          (case sign_key of
             None \<Rightarrow> Some (d, True)
           | Some sign_key \<Rightarrow>
               (case ReadFile d infile of
                  None \<Rightarrow> Some (d, True)
                | Some blob \<Rightarrow> do {
                    headers \<leftarrow> verify_headers e junk blob sign_key;
                    (case headers of
                       None \<Rightarrow> Some (d, True)
                     | Some (at_preamble, now, flags, preamble, rsa) \<Rightarrow>
                         (case (case fv_file of
                                  Some f \<Rightarrow> ReadFile d f
                                | None \<Rightarrow> Some (drop (unat now) blob)) of
                            None \<Rightarrow> Some (d, True)
                          | Some fv_data \<Rightarrow> do {
                              failed \<leftarrow> (if flags AND VB_FIRMWARE_PREAMBLE_USE_RO_NORMAL \<noteq> 0 then Some False
                                else VerifyData e fv_data (of_nat (length fv_data)) (drop (unat at_preamble) blob)
                                  (body_signature preamble) rsa);
                              if failed then Some (d, True)
                              else do {
                                (d, failed) \<leftarrow> (case kernelkey_file of None \<Rightarrow> Some (d, False)
                                  | Some f \<Rightarrow> PublicKeyWrite e (ucast junk) d f (drop (unat at_preamble + 48) blob));
                                if failed then Some (d, True)
                                else (case fv_out_file of None \<Rightarrow> Some (d, False)
                                  | Some f \<Rightarrow> WriteFile d f fv_data) } })) })) }
      | _ \<Rightarrow> Some (d, True))"

definition Fon_Verify :: "endian \<Rightarrow> u32 \<Rightarrow> disk \<Rightarrow> string ptr \<Rightarrow> string ptr \<Rightarrow> string ptr \<Rightarrow> (disk \<times> bool) option" where
  "Fon_Verify e junk d infile signpubkey fv_out_file = Verify e junk d infile signpubkey None None fv_out_file"

text \<open>The Lua function \<open>verify\<close> of \<open>lua.c\<close>: with three arguments its value is the boolean result,
  otherwise it raises an error.\<close>

definition fr_verify :: "endian \<Rightarrow> u32 \<Rightarrow> disk \<Rightarrow> string ptr list \<Rightarrow> (disk \<times> bool ptr) option" where
  "fr_verify e junk d args =
     (case args of
        [file_path, signature_path, out_path] \<Rightarrow>
          map_option (\<lambda>(d, failed). (d, Some (\<not> failed))) (Fon_Verify e junk d file_path signature_path out_path)
      | _ \<Rightarrow> Some (d, None))"

subsection \<open>Reads at an offset\<close>

lemma mem_read_drop: "0 < n \<Longrightarrow> mem_read (drop a mem) off n = mem_read mem (a + off) n"
  by (auto simp: mem_read_def add.commute)

lemma rd_drop: "rd64 e (drop a mem) off = rd64 e mem (a + off)" "rd32 e (drop a mem) off = rd32 e mem (a + off)"
  by (simp_all add: rd64_def rd32_def mem_read_drop)

lemma read_public_key_drop:
  "read_public_key e (drop a mem) off = map_option (\<lambda>k. k\<lparr>key_at := off\<rparr>) (read_public_key e mem (a + off))"
  by (simp add: read_public_key_def rd_drop add.assoc map_option_case split: Option.bind_splits)

lemma read_key_block_data_key:
  "read_key_block e mem = Some kb \<Longrightarrow> read_public_key e mem 80 = Some (data_key kb)"
  by (auto simp: read_key_block_def split: Option.bind_splits)

lemma read_preamble_subkey:
  "read_firmware_preamble e mem = Some p \<Longrightarrow> read_public_key e mem 48 = Some (kernel_subkey p)"
  by (auto simp: read_firmware_preamble_def split: Option.bind_splits)

text \<open>A key inside a region makes a region of its own.\<close>

lemma inside_key:
  assumes k: "read_public_key e mem off = Some k" and i: "inside off 32 (key_offset k) (key_size k) n" "unat n \<le> length mem"
  shows "key_region e (drop off mem)" and "read_public_key e (drop off mem) 0 = Some (k\<lparr>key_at := 0\<rparr>)"
proof -
  show r: "read_public_key e (drop off mem) 0 = Some (k\<lparr>key_at := 0\<rparr>)"
    by (simp add: read_public_key_drop k)
  have l: "32 \<le> length (drop off mem)" using i by (auto simp: inside_def)
  then have "key_offset k = load64 e (take 8 (drop off mem))" "key_size k = load64 e (take 8 (drop (8 + off) mem))"
    using r by (cases k, auto simp: read_public_key_def vboot_facts add.commute)+
  with i l show "key_region e (drop off mem)" by (auto simp: key_region_def inside_def add.commute)
qed

lemma PrintPubKeySha1Sum_ok:
  assumes "key_region e kmem" and "len_fits (length kmem)"
  shows "\<exists>h. PrintPubKeySha1Sum e kmem = Some h"
proof -
  obtain k where k: "read_public_key e kmem 0 = Some k" "key_at k = 0"
    using assms(1) read_public_key_ok[of 0 kmem e] by (auto simp: key_region_def)
  have l: "unat (key_offset k) + unat (key_size k) \<le> length kmem" by (rule key_region_read[OF assms(1) k(1)])
  then have "unat (key_size k) \<le> length (GetPublicKeyData kmem k)" "len_fits (unat (key_size k))"
    using assms(2) by (auto simp: GetPublicKeyData_def k(2) len_fits_def)
  then show ?thesis by (simp add: PrintPubKeySha1Sum_def k(1) DigestBuf_ok kNumAlgorithms_def)
qed

lemma PublicKeyRead_region:
  assumes "PublicKeyRead e d f = Some (Some mem)" and "length mem < 2 ^ 64"
  shows "key_region e mem"
proof -
  from assms(1) obtain offs nbytes where r: "rd64 e mem 0 = Some offs" "rd64 e mem 8 = Some nbytes"
    "\<not> VerifyMemberInside 0 (of_nat (length mem)) 0 32 offs nbytes"
    by (auto simp: PublicKeyRead_def split: option.splits if_splits Option.bind_splits)
  then have i: "32 \<le> length mem" "unat offs + unat nbytes \<le> length mem"
    using assms(2) by (simp_all add: VerifyMemberInside_iff unat_of_nat64)
  with r show ?thesis by (simp add: key_region_def vboot_facts)
qed

subsection \<open>What is accepted\<close>

text \<open>The key block and the preamble of an image, as the key in \<open>kmem\<close> accepts them.\<close>

definition good_headers :: "endian \<Rightarrow> u32 \<Rightarrow> u8 list \<Rightarrow> u8 list \<Rightarrow> key_block_header \<Rightarrow> firmware_preamble \<Rightarrow> rsa_key \<Rightarrow> bool" where
  "good_headers e junk blob kmem kb p rsa \<longleftrightarrow>
     (let nbytes = of_nat (length blob); now = unat (key_block_size kb); rest = drop now blob in
      read_key_block e blob = Some kb \<and> good_block kb nbytes (key_block_signature kb) \<and>
      key_accepted e junk blob nbytes (key_block_signature kb) (Some kmem) \<and>
      PublicKeyToRSA e junk (drop 80 blob) = Some (Some rsa) \<and>
      104 \<le> length rest \<and> read_firmware_preamble e rest = Some p \<and>
      good_firmware_preamble e rest (of_nat (length rest)) rsa p)"

definition image_body :: "u8 list \<Rightarrow> key_block_header \<Rightarrow> firmware_preamble \<Rightarrow> u8 list" where
  "image_body blob kb p = drop (unat (key_block_size kb) + unat (preamble_size p)) blob"

definition body_accepted :: "endian \<Rightarrow> u8 list \<Rightarrow> key_block_header \<Rightarrow> firmware_preamble \<Rightarrow> rsa_key \<Rightarrow> bool" where
  "body_accepted e blob kb p rsa \<longleftrightarrow>
     (let rest = drop (unat (key_block_size kb)) blob; body = image_body blob kb p in
      (\<exists>flags. VbGetFirmwarePreambleFlags e rest = Some flags \<and> flags AND VB_FIRMWARE_PREAMBLE_USE_RO_NORMAL \<noteq> 0) \<or>
      signed_data e body (of_nat (length body)) rest (body_signature p) rsa)"

lemma fits64: "len_fits n \<Longrightarrow> n < 2 ^ 64" "len_fits n \<Longrightarrow> unat (of_nat n :: u64) = n"
  by (simp_all add: len_fits_def unat_of_nat64)

lemma fits_le: "len_fits n \<Longrightarrow> m \<le> n \<Longrightarrow> len_fits m"
  by (simp add: len_fits_def)

lemma good_headers_unique:
  "good_headers e junk blob kmem kb p rsa \<Longrightarrow> good_headers e junk blob kmem kb' p' rsa' \<Longrightarrow>
    kb' = kb \<and> p' = p \<and> rsa' = rsa"
  by (auto simp: good_headers_def Let_def)

text \<open>The sizes an accepted image has, and its data key.\<close>

lemma good_headers_sizes:
  assumes fits: "len_fits (length blob)" and g: "good_headers e junk blob kmem kb p rsa"
  shows "unat (key_block_size kb) + unat (preamble_size p) \<le> length blob"
    and "key_region e (drop 80 blob)" and "usable_key rsa"
    and "key_region e (drop (unat (key_block_size kb) + 48) blob)"
proof -
  define n where "n = (of_nat (length blob) :: u64)"
  define rest where "rest = drop (unat (key_block_size kb)) blob"
  note G = g[unfolded good_headers_def Let_def, folded n_def rest_def]
  have n: "unat n = length blob" using fits64[OF fits] by (simp add: n_def)
  have rest: "unat (of_nat (length rest) :: u64) = length rest"
    using fits_le[OF fits, of "length rest"] fits64 by (simp add: rest_def)
  have kb: "unat (key_block_size kb) \<le> length blob"
    "unat (data_size (key_block_signature kb)) \<le> length blob"
    "inside 80 32 (key_offset (data_key kb)) (key_size (data_key kb)) (data_size (key_block_signature kb))"
    using G n by (auto simp: good_block_def good_data_def word_le_nat_alt)
  have pre: "unat (preamble_size p) \<le> length rest" "unat (data_size (preamble_signature p)) \<le> length rest"
    "inside 48 32 (key_offset (kernel_subkey p)) (key_size (kernel_subkey p)) (data_size (preamble_signature p))"
    using G rest by (auto simp: good_firmware_preamble_def Let_def word_le_nat_alt)
  show "unat (key_block_size kb) + unat (preamble_size p) \<le> length blob"
    using kb(1) pre(1) by (simp add: rest_def)
  show kr: "key_region e (drop 80 blob)"
    using inside_key(1)[OF read_key_block_data_key kb(3,2)] G by blast
  show "usable_key rsa" using G PublicKeyToRSA_ok[OF kr, of junk] by auto
  show "key_region e (drop (unat (key_block_size kb) + 48) blob)"
    using inside_key(1)[OF read_preamble_subkey pre(3,2)] G by (simp add: rest_def add.commute)
qed

lemma verify_headers_ok:
  assumes key: "key_region e kmem" and fits: "len_fits (length blob)"
  shows "(\<exists>kb p rsa flags. good_headers e junk blob kmem kb p rsa \<and>
      VbGetFirmwarePreambleFlags e (drop (unat (key_block_size kb)) blob) = Some flags \<and>
      verify_headers e junk blob kmem =
        Some (Some (key_block_size kb, key_block_size kb + preamble_size p, flags, p, rsa))) \<or>
    (\<nexists>kb p rsa. good_headers e junk blob kmem kb p rsa) \<and> verify_headers e junk blob kmem = Some None"
proof -
  define n where "n = (of_nat (length blob) :: u64)"
  have n: "unat n = length blob" using fits64[OF fits] by (simp add: n_def)
  obtain r where r: "KeyBlockVerify e junk blob n (Some kmem) False = Some r"
    "r = VBOOT_SUCCESS \<longleftrightarrow> (\<exists>kb. read_key_block e blob = Some kb \<and> good_block kb n (key_block_signature kb) \<and>
      key_accepted e junk blob n (key_block_signature kb) (Some kmem))"
    using KeyBlockVerify_ok[of n blob "Some kmem" e junk False] key fits n by auto
  show ?thesis
  proof (cases "r = VBOOT_SUCCESS")
    case False
    then show ?thesis using r by (auto simp: verify_headers_def n_def[symmetric] good_headers_def Let_def)
  next
    case True
    with r(2) obtain kb where kb: "read_key_block e blob = Some kb" "good_block kb n (key_block_signature kb)"
      "key_accepted e junk blob n (key_block_signature kb) (Some kmem)" by blast
    define rest where "rest = drop (unat (key_block_size kb)) blob"
    have sz: "key_block_size kb \<le> n" "unat (data_size (key_block_signature kb)) \<le> length blob"
      "inside 80 32 (key_offset (data_key kb)) (key_size (data_key kb)) (data_size (key_block_signature kb))"
      using kb(2) n by (auto simp: good_block_def good_data_def word_le_nat_alt)
    have kr: "key_region e (drop 80 blob)" by (rule inside_key(1)[OF read_key_block_data_key[OF kb(1)] sz(3,2)])
    have rest: "len_fits (length rest)" "n - key_block_size kb = of_nat (length rest)"
      "unat (of_nat (length rest) :: u64) = length rest"
    proof -
      show f: "len_fits (length rest)" by (rule fits_le[OF fits]) (simp add: rest_def)
      show u: "unat (of_nat (length rest) :: u64) = length rest" by (rule fits64(2)[OF f])
      have "unat (n - key_block_size kb) = length rest" using sz(1) n by (simp add: unat_sub rest_def)
      then show "n - key_block_size kb = of_nat (length rest)" using u by (metis unsigned_word_eqI)
    qed
    have "len_fits (length (drop 80 blob))" by (rule fits_le[OF fits]) simp
    then obtain h where h: "PrintPubKeySha1Sum e (drop 80 blob) = Some h" using PrintPubKeySha1Sum_ok[OF kr] by blast
    define vh where "vh = verify_headers e junk blob kmem"
    have vh: "vh = (case PublicKeyToRSA e junk (drop 80 blob) of None \<Rightarrow> None | Some None \<Rightarrow> Some None
      | Some (Some rsa) \<Rightarrow> verify_preamble e blob n (key_block_size kb) rsa)"
      unfolding vh_def verify_headers_def n_def[symmetric] Let_def r(1)[unfolded True] kb(1) h bind.bind_lunit
      by (simp add: verify_preamble_def split: option.splits)
    show ?thesis
    proof (cases rule: PublicKeyToRSA_ok[OF kr, of junk])
      case 1
      then have "vh = Some None" by (simp add: vh)
      moreover have "\<nexists>kb p rsa. good_headers e junk blob kmem kb p rsa" by (simp add: good_headers_def Let_def 1)
      ultimately show ?thesis unfolding vh_def by blast
    next
      case (2 rsa)
      have vh: "vh = verify_preamble e blob n (key_block_size kb) rsa" by (simp add: vh 2(1))
      obtain r2 where r2: "VerifyFirmwarePreamble e rest (of_nat (length rest)) rsa = Some r2"
        "r2 = VBOOT_SUCCESS \<longleftrightarrow> 104 \<le> length rest \<and> (\<exists>p. read_firmware_preamble e rest = Some p \<and>
          good_firmware_preamble e rest (of_nat (length rest)) rsa p)"
        "r2 = VBOOT_SUCCESS \<longrightarrow> (\<exists>f. VbGetFirmwarePreambleFlags e rest = Some f)"
        using VerifyFirmwarePreamble_ok[OF 2(2), of "of_nat (length rest)" rest e] rest by auto
      have good: "good_headers e junk blob kmem kb' p rsa' \<longleftrightarrow> kb' = kb \<and> rsa' = rsa \<and> 104 \<le> length rest \<and>
          read_firmware_preamble e rest = Some p \<and> good_firmware_preamble e rest (of_nat (length rest)) rsa p" for kb' p rsa'
        using kb 2(1) unfolding good_headers_def Let_def n_def[symmetric] rest_def by auto
      show ?thesis
      proof (cases "r2 = VBOOT_SUCCESS")
        case False
        then have "vh = Some None"
          unfolding vh verify_preamble_def rest_def[symmetric] rest(2) r2(1) bind.bind_lunit by simp
        with False r2(2) good show ?thesis unfolding vh_def by blast
      next
        case True
        with r2 obtain p flags where p: "104 \<le> length rest" "read_firmware_preamble e rest = Some p"
          "good_firmware_preamble e rest (of_nat (length rest)) rsa p" "VbGetFirmwarePreambleFlags e rest = Some flags"
          by blast
        then have g: "good_headers e junk blob kmem kb p rsa" using good by blast
        have "len_fits (length (drop (unat (key_block_size kb) + 48) blob))" by (rule fits_le[OF fits]) simp
        then obtain h2 where h2: "PrintPubKeySha1Sum e (drop (unat (key_block_size kb) + 48) blob) = Some h2"
          using PrintPubKeySha1Sum_ok[OF good_headers_sizes(4)[OF fits g]] by blast
        have "vh = Some (Some (key_block_size kb, key_block_size kb + preamble_size p, flags, p, rsa))"
          unfolding vh verify_preamble_def rest_def[symmetric] rest(2) r2(1)[unfolded True] p(2,4) h2 bind.bind_lunit by simp
        with g p(4) show ?thesis unfolding rest_def vh_def by blast
      qed
    qed
  qed
qed

text \<open>The whole program, on an image that can be read.\<close>

lemma verify_body_ok:
  assumes fits: "len_fits (length blob)" and g: "good_headers e junk blob kmem kb p rsa"
    and fl: "VbGetFirmwarePreambleFlags e (drop (unat (key_block_size kb)) blob) = Some flags"
  shows "(if flags AND VB_FIRMWARE_PREAMBLE_USE_RO_NORMAL \<noteq> 0 then Some False
      else VerifyData e (image_body blob kb p) (of_nat (length (image_body blob kb p)))
        (drop (unat (key_block_size kb)) blob) (body_signature p) rsa) = Some (\<not> body_accepted e blob kb p rsa)"
proof (cases "flags AND VB_FIRMWARE_PREAMBLE_USE_RO_NORMAL = 0")
  case False
  then show ?thesis using fl by (simp add: body_accepted_def Let_def)
next
  case True
  define rest where "rest = drop (unat (key_block_size kb)) blob"
  define body where "body = image_body blob kb p"
  have b: "len_fits (length body)" by (rule fits_le[OF fits]) (simp add: body_def image_body_def)
  have u: "unat (of_nat (length rest) :: u64) = length rest"
    by (rule fits64(2)[OF fits_le[OF fits]]) (simp add: rest_def)
  have s: "inside 80 24 (sig_offset (body_signature p)) (sig_size (body_signature p)) (data_size (preamble_signature p))"
    "data_size (preamble_signature p) \<le> of_nat (length rest)" "read_firmware_preamble e rest = Some p" "104 \<le> length rest"
    using g unfolding good_headers_def good_firmware_preamble_def Let_def rest_def by (auto intro: order_trans)
  from read_firmware_preamble_ok[OF s(4), of e] s(3) have "sig_at (body_signature p) = 80" by auto
  with s(1) have i: "inside (sig_at (body_signature p)) 24 (sig_offset (body_signature p)) (sig_size (body_signature p))
      (data_size (preamble_signature p))" by simp
  have n: "unat (data_size (preamble_signature p)) \<le> length rest" using s(2) u by (simp add: word_le_nat_alt)
  have "VerifyData e body (of_nat (length body)) rest (body_signature p) rsa =
      Some (\<not> signed_data e body (of_nat (length body)) rest (body_signature p) rsa)"
    by (rule VerifyData_ok[OF good_headers_sizes(3)[OF fits g] _ b i n]) (simp add: fits64(2)[OF b])
  then show ?thesis using True fl by (simp add: body_accepted_def Let_def rest_def body_def)
qed

lemma Fon_Verify_run:
  assumes "PublicKeyRead e d pub = Some (Some kmem)" and "ReadFile d infile = Some blob"
    and "verify_headers e junk blob kmem = Some (Some (now, next, flags, p, rsa))"
    and "(if flags AND VB_FIRMWARE_PREAMBLE_USE_RO_NORMAL \<noteq> 0 then Some False
      else VerifyData e (drop (unat next) blob) (of_nat (length (drop (unat next) blob)))
        (drop (unat now) blob) (body_signature p) rsa) = Some failed"
  shows "Fon_Verify e junk d (Some infile) (Some pub) (Some out) =
    (if failed then Some (d, True) else WriteFile d out (drop (unat next) blob))"
  unfolding Fon_Verify_def Verify_def assms(1-3) option.case prod.case bind.bind_lunit assms(4) by simp

lemma Fon_Verify_ok:
  assumes key: "PublicKeyRead e d pub = Some (Some kmem)" "length kmem < 2 ^ 64"
    and image: "ReadFile d infile = Some blob" "len_fits (length blob)"
  shows "(\<exists>kb p rsa. good_headers e junk blob kmem kb p rsa \<and> body_accepted e blob kb p rsa \<and>
      Fon_Verify e junk d (Some infile) (Some pub) (Some out) = WriteFile d out (image_body blob kb p)) \<or>
    (\<nexists>kb p rsa. good_headers e junk blob kmem kb p rsa \<and> body_accepted e blob kb p rsa) \<and>
      Fon_Verify e junk d (Some infile) (Some pub) (Some out) = Some (d, True)"
proof -
  note run = Fon_Verify_def Verify_def key(1) image(1)
  have kr: "key_region e kmem" by (rule PublicKeyRead_region[OF key])
  from verify_headers_ok[OF kr image(2), of junk] show ?thesis
  proof (elim disjE exE conjE)
    fix kb p rsa flags
    assume g: "good_headers e junk blob kmem kb p rsa"
      and fl: "VbGetFirmwarePreambleFlags e (drop (unat (key_block_size kb)) blob) = Some flags"
      and v: "verify_headers e junk blob kmem = Some (Some (key_block_size kb, key_block_size kb + preamble_size p, flags, p, rsa))"
    have "unat (key_block_size kb + preamble_size p) = unat (key_block_size kb) + unat (preamble_size p)"
      using good_headers_sizes(1)[OF image(2) g] fits64(1)[OF image(2)] by (intro unat_add) simp
    then have b: "drop (unat (key_block_size kb + preamble_size p)) blob = image_body blob kb p" by (simp add: image_body_def)
    note body = verify_body_ok[OF image(2) g fl, folded b]
    have r: "Fon_Verify e junk d (Some infile) (Some pub) (Some out) =
        (if body_accepted e blob kb p rsa then WriteFile d out (image_body blob kb p) else Some (d, True))"
      unfolding Fon_Verify_run[OF key(1) image(1) v body] b by simp
    show ?thesis
    proof (cases "body_accepted e blob kb p rsa")
      case True
      with g r show ?thesis by auto
    next
      case False
      then have "\<not> (good_headers e junk blob kmem kb' p' rsa' \<and> body_accepted e blob kb' p' rsa')" for kb' p' rsa'
        using good_headers_unique[OF g] by blast
      with False r show ?thesis by simp
    qed
  qed (simp add: run)
qed

subsection \<open>What follows the signed data\<close>

lemma append_reads:
  "mem_read mem off n = Some x \<Longrightarrow> mem_read (mem @ t) off n = Some x"
  "rd64 e mem off = Some w \<Longrightarrow> rd64 e (mem @ t) off = Some w"
  "rd32 e mem off = Some v \<Longrightarrow> rd32 e (mem @ t) off = Some v"
  by (auto simp: mem_read_def rd64_def rd32_def split: if_splits Option.bind_splits)

lemma append_structs:
  "read_signature e mem off = Some s \<Longrightarrow> read_signature e (mem @ t) off = Some s"
  "read_public_key e mem off = Some k \<Longrightarrow> read_public_key e (mem @ t) off = Some k"
  by (auto simp: read_signature_def read_public_key_def append_reads split: Option.bind_splits)

lemma append_headers:
  "read_key_block e mem = Some kb \<Longrightarrow> read_key_block e (mem @ t) = Some kb"
  "read_firmware_preamble e mem = Some p \<Longrightarrow> read_firmware_preamble e (mem @ t) = Some p"
  "VbGetFirmwarePreambleFlags e mem = Some f \<Longrightarrow> VbGetFirmwarePreambleFlags e (mem @ t) = Some f"
  by (auto simp: read_key_block_def read_firmware_preamble_def VbGetFirmwarePreambleFlags_def append_reads append_structs
    split: Option.bind_splits if_splits)

lemma RSAPublicKeyFromBuf_append:
  assumes len: "unat len \<le> length mem"
  shows "RSAPublicKeyFromBuf e junk (mem @ t) len = RSAPublicKeyFromBuf e junk mem len"
proof -
  have "unat len \<le> length (mem @ t)" using len by simp
  note ok = RSAPublicKeyFromBuf_ok[OF this, of e junk] RSAPublicKeyFromBuf_ok[OF len, of e junk]
  show ?thesis
  proof (cases "4 \<le> unat len")
    case False
    then show ?thesis unfolding ok by simp
  next
    case True
    then have w: "take 4 (mem @ t) = take 4 mem" using len by simp
    show ?thesis unfolding ok w
      by (cases "unat len = 8 + 8 * unat (load32 e (take 4 mem))") (use len in auto)
  qed
qed

lemma PublicKeyToRSA_append:
  assumes "key_region e kmem"
  shows "PublicKeyToRSA e junk (kmem @ t) = PublicKeyToRSA e junk kmem"
proof -
  obtain k where k: "read_public_key e kmem 0 = Some k" "key_at k = 0"
    using read_public_key_ok[of 0 kmem e] assms by (auto simp: key_region_def)
  have l: "unat (key_offset k) + unat (key_size k) \<le> length kmem" by (rule key_region_read[OF assms k(1)])
  then have g: "GetPublicKeyData (kmem @ t) k = GetPublicKeyData kmem k @ t"
    and n: "unat (key_size k) \<le> length (GetPublicKeyData kmem k)" by (simp_all add: GetPublicKeyData_def k(2))
  show ?thesis
    unfolding PublicKeyToRSA_def k(1) append_structs(2)[OF k(1)] bind.bind_lunit g RSAPublicKeyFromBuf_append[OF n] ..
qed

lemma RSAVerify_append:
  "RSAVerify (Some key) (Some sig) n alg hash = Some r \<Longrightarrow> RSAVerify (Some key) (Some (sig @ t)) n alg hash = Some r"
  by (cases hash) (auto simp: append_reads split: Option.bind_splits if_splits)

lemma signed_data_append:
  assumes s: "signed_data e data nbytes mem sig key" and t: "unat (rsa_algorithm key) < kNumAlgorithms"
    and n: "unat nbytes \<le> length data" "len_fits (length data)" "nbytes \<le> nbytes'"
    and i: "sig_at sig + unat (sig_offset sig) \<le> length mem"
  shows "signed_data e (data @ t1) nbytes' (mem @ t2) sig key"
proof -
  have d: "unat (data_size sig) \<le> length data" using s n(1) by (auto simp: signed_data_def word_le_nat_alt)
  then have f: "len_fits (unat (data_size sig))" by (rule fits_le[OF n(2)])
  have h: "DigestBuf (data @ t1) (data_size sig) (unat (rsa_algorithm key)) = DigestBuf data (data_size sig) (unat (rsa_algorithm key))"
    using DigestBuf_ok[OF t d f] DigestBuf_ok[OF t, of "data_size sig" "data @ t1"] d f by simp
  show ?thesis
    using s t n(3) i h unfolding signed_data_def RSAVerifyBinary_f_def
    by (auto intro: order_trans RSAVerify_append simp: choose_key_def split: Option.bind_splits option.splits simp del: RSAVerify.simps)
qed

lemma key_block_append:
  assumes g: "good_block kb nbytes (key_block_signature kb)" and a: "key_accepted e junk blob nbytes (key_block_signature kb) (Some kmem)"
    and key: "key_region e kmem" and n: "unat nbytes = length blob" "len_fits (length blob)" "nbytes \<le> nbytes'"
  shows "good_block kb nbytes' (key_block_signature kb)"
    and "key_accepted e junk (blob @ extra) nbytes' (key_block_signature kb) (Some kmem)"
proof -
  show "good_block kb nbytes' (key_block_signature kb)"
    using g n unfolding good_block_def word_le_nat_alt by linarith
  obtain k where k: "PublicKeyToRSA e junk kmem = Some (Some k)" "signed_by e blob nbytes (key_block_signature kb) k"
    using a by (auto simp: key_accepted_def)
  have "unat (rsa_algorithm k) < kNumAlgorithms" using PublicKeyToRSA_ok[OF key, of junk] k(1) by (auto simp: usable_key_def)
  moreover have "sig_at (key_block_signature kb) + unat (sig_offset (key_block_signature kb)) \<le> length blob"
    using g n(1) unfolding good_block_def inside_def word_le_nat_alt by linarith
  ultimately have "signed_by e (blob @ extra) nbytes' (key_block_signature kb) k"
    using n(1) by (intro signed_data_append[OF k(2) _ _ n(2,3)]) simp_all
  with k(1) show "key_accepted e junk (blob @ extra) nbytes' (key_block_signature kb) (Some kmem)"
    by (auto simp: key_accepted_def)
qed

lemma image_append:
  assumes fits: "len_fits (length (blob @ extra))" and key: "key_region e kmem"
    and g: "good_headers e junk blob kmem kb p rsa"
  shows "good_headers e junk (blob @ extra) kmem kb p rsa"
    and "body_accepted e blob kb p rsa \<Longrightarrow> body_accepted e (blob @ extra) kb p rsa"
    and "image_body (blob @ extra) kb p = image_body blob kb p @ extra"
proof -
  define now where "now = unat (key_block_size kb)"
  define rest where "rest = drop now blob"
  have f: "len_fits (length blob)" by (rule fits_le[OF fits]) simp
  note sz = good_headers_sizes[OF f g] and G = g[unfolded good_headers_def Let_def, folded now_def, folded rest_def]
  have w: "(of_nat (length xs) :: u64) \<le> of_nat (length (xs @ extra))" "unat (of_nat (length xs) :: u64) = length xs"
    if "length xs \<le> length blob" for xs
  proof -
    have "len_fits (length (xs @ extra))" by (rule fits_le[OF fits]) (use that in simp)
    moreover from this have "len_fits (length xs)" by (rule fits_le) simp
    ultimately show "unat (of_nat (length xs) :: u64) = length xs" "(of_nat (length xs) :: u64) \<le> of_nat (length (xs @ extra))"
      using fits64(2)[of "length (xs @ extra)"] fits64(2)[of "length xs"] by (simp_all add: word_le_nat_alt)
  qed
  have rest: "length rest \<le> length blob" "drop now (blob @ extra) = rest @ extra" "len_fits (length rest)"
    using sz(1) by (auto simp: rest_def now_def intro: fits_le[OF f])
  show body: "image_body (blob @ extra) kb p = image_body blob kb p @ extra"
    using sz(1) by (simp add: image_body_def)
  have t: "unat (rsa_algorithm rsa) < kNumAlgorithms" using sz(3) by (simp add: usable_key_def)
  have n: "(of_nat (length blob) :: u64) \<le> of_nat (length (blob @ extra))" "unat (of_nat (length blob) :: u64) = length blob"
    "(of_nat (length rest) :: u64) \<le> of_nat (length (rest @ extra))" "unat (of_nat (length rest) :: u64) = length rest"
    using w[of blob] w[of rest] rest(1) by blast+
  have kb: "read_key_block e blob = Some kb" "good_block kb (of_nat (length blob)) (key_block_signature kb)"
    "key_accepted e junk blob (of_nat (length blob)) (key_block_signature kb) (Some kmem)"
    and p: "104 \<le> length rest" "read_firmware_preamble e rest = Some p" 
      "good_firmware_preamble e rest (of_nat (length rest)) rsa p" using G by blast+
  note gp = p(3)[unfolded good_firmware_preamble_def Let_def]
  have at: "sig_at (preamble_signature p) = 8" "sig_at (body_signature p) = 80"
    using read_firmware_preamble_ok[OF p(1), of e] p(2) by auto
  note b = key_block_append[OF kb(2,3) key n(2) f n(1)]
  have k80: "PublicKeyToRSA e junk (drop 80 (blob @ extra)) = Some (Some rsa)"
  proof -
    have "32 \<le> length (drop 80 blob)" using sz(2) by (simp only: key_region_def)
    then have "drop 80 (blob @ extra) = drop 80 blob @ extra" by simp
    then show ?thesis using PublicKeyToRSA_append[OF sz(2), of junk extra] G by (simp only:)
  qed
  have s: "signed_by e (rest @ extra) (of_nat (length (rest @ extra))) (preamble_signature p) rsa"
  proof (rule signed_data_append[OF _ t _ rest(3) n(3)])
    show "sig_at (preamble_signature p) + unat (sig_offset (preamble_signature p)) \<le> length rest"
      using gp at(1) n(4) unfolding inside_def word_le_nat_alt by linarith
  qed (use gp n(4) in simp_all)
  have gp': "good_firmware_preamble e (rest @ extra) (of_nat (length (rest @ extra))) rsa p"
    unfolding good_firmware_preamble_def Let_def using gp n(3) s by (blast intro: order_trans)
  show "good_headers e junk (blob @ extra) kmem kb p rsa"
    unfolding good_headers_def Let_def now_def[symmetric] rest(2)
    using append_headers(1)[OF kb(1)] b k80 p(1) append_headers(2)[OF p(2)] gp' by simp
  show "body_accepted e (blob @ extra) kb p rsa" if "body_accepted e blob kb p rsa"
    using that unfolding body_accepted_def Let_def now_def[symmetric] rest(2) rest_def[symmetric] body
  proof (elim disjE exE conjE)
    assume b: "signed_data e (image_body blob kb p) (of_nat (length (image_body blob kb p))) rest (body_signature p) rsa"
    have l: "length (image_body blob kb p) \<le> length blob" by (simp add: image_body_def)
    have "signed_data e (image_body blob kb p @ extra) (of_nat (length (image_body blob kb p @ extra))) (rest @ extra)
        (body_signature p) rsa"
    proof (rule signed_data_append[OF b t _ fits_le[OF f l] w(1)[OF l]])
      show "sig_at (body_signature p) + unat (sig_offset (body_signature p)) \<le> length rest"
        using gp at(2) n(4) unfolding inside_def word_le_nat_alt by linarith
    qed (simp add: w(2)[OF l])
    then show "(\<exists>flags. VbGetFirmwarePreambleFlags e (rest @ extra) = Some flags \<and>
        flags AND VB_FIRMWARE_PREAMBLE_USE_RO_NORMAL \<noteq> 0) \<or>
      signed_data e (image_body blob kb p @ extra) (of_nat (length (image_body blob kb p @ extra))) (rest @ extra)
        (body_signature p) rsa" by blast
  qed (use append_headers(3) in blast)
qed

subsection \<open>Claims: firmware images\<close>

text \<open>C2: \<open>Fon_Verify\<close>, with a key file it can read, accepts exactly the images whose key block the key signed,
whose preamble the data key of that block signed, and whose body that data key signed or the flags of the
preamble exempt; it reads nothing outside the image, whatever the image holds. It writes what follows the
preamble of an accepted image to the output, and touches no file otherwise.\<close>

theorem Fon_Verify_correct:
  assumes "PublicKeyRead e d pub = Some (Some kmem)" and "length kmem < 2 ^ 64"
    and "ReadFile d infile = Some blob" and "len_fits (length blob)"
  shows "(\<exists>kb p rsa. good_headers e junk blob kmem kb p rsa \<and> body_accepted e blob kb p rsa \<and>
      Fon_Verify e junk d (Some infile) (Some pub) (Some out) = WriteFile d out (image_body blob kb p)) \<or>
    (\<nexists>kb p rsa. good_headers e junk blob kmem kb p rsa \<and> body_accepted e blob kb p rsa) \<and>
      Fon_Verify e junk d (Some infile) (Some pub) (Some out) = Some (d, True)"
  by (rule Fon_Verify_ok[OF assms])

text \<open>A disk with a key file and an image of one byte.\<close>

definition small_disk :: disk where
  "small_disk = \<lparr>content = [''key'' \<mapsto> [32, 0, 0, 0, 0, 0, 0, 0, 8, 1, 0, 0, 0, 0, 0, 0] @ replicate 280 0, ''image'' \<mapsto> [75]],
     can_create = (\<lambda>f. True), has_room = (\<lambda>f n. True)\<rparr>"

lemma small_disk_key:
  "PublicKeyRead Little small_disk ''key'' = Some (Some ([32, 0, 0, 0, 0, 0, 0, 0, 8, 1, 0, 0, 0, 0, 0, 0] @ replicate 280 0))"
  by (simp add: PublicKeyRead_def ReadFile_def small_disk_def read_public_key_def vboot_facts PACK64_def
    VerifyMemberInside_def OffsetOf_def RSAProcessedKeySize_def kNumAlgorithms_def siglen_map_def)

lemma small_disk_image: "ReadFile small_disk ''image'' = Some [75]"
  by (simp add: ReadFile_def small_disk_def)

theorem Fon_Verify_correct_witness:
  "Fon_Verify Little 0 small_disk (Some ''image'') (Some ''key'') (Some ''out'') = Some (small_disk, True)"
  using Fon_Verify_correct[OF small_disk_key _ small_disk_image, of 0 "''out''"]
  by (simp add: good_headers_def good_block_def len_fits_def Let_def)

end
