(* ===== verification/HostSign.thy ===== *)
theory HostSign
  imports HostFiles
begin

text \<open>
  The signing side of vboot: \<open>host_signature.c\<close>, \<open>host_keyblock.c\<close>, \<open>host_common.c\<close> and the private keys of
  \<open>host_key.c\<close> in \<open>package/vboot_utils/src/host/lib\<close>. What they create is shown to be what the verifying
  side of \<open>vboot_common.c\<close> accepts. The functions of OpenSSL are parameters; \<open>malloc\<close> always finds memory
  and does not clear it.
\<close>

subsection \<open>OpenSSL\<close>

text \<open>
  The private encryption is the one with \<open>RSA_PKCS1_PADDING\<close>: its result is what it writes to the output
  buffer, \<open>None\<close> for the return value -1. The length of a DER encoding that could not be made is 0.
\<close>

record 'k openssl =
  RSA_private_encrypt :: "'k \<Rightarrow> u8 list \<Rightarrow> u8 list option"
  PEM_read_RSAPrivateKey :: "u8 list \<Rightarrow> 'k ptr"
  d2i_RSAPrivateKey :: "u8 list \<Rightarrow> 'k ptr"
  i2d_RSAPrivateKey :: "'k \<Rightarrow> u8 list"

record 'k private_key =
  rsa_private_key :: 'k
  private_algorithm :: u64

subsection \<open>Private keys\<close>

definition PrivateKeyReadPem :: "'k openssl \<Rightarrow> disk \<Rightarrow> string \<Rightarrow> u64 \<Rightarrow> 'k private_key ptr" where
  "PrivateKeyReadPem ssl d filename alg =
     (if kNumAlgorithms \<le> unat alg then None
      else case content d filename of
        None \<Rightarrow> None
      | Some f \<Rightarrow> (case PEM_read_RSAPrivateKey ssl f of
            None \<Rightarrow> None
          | Some rsa_key \<Rightarrow> Some \<lparr>rsa_private_key = rsa_key, private_algorithm = alg\<rparr>))"

text \<open>
  Two items are written; after a failure of either the file is closed again at the end, and the buffer
  of the second one released again, both undefined. The flag is the return value 1.
\<close>

definition PrivateKeyWrite :: "'k openssl \<Rightarrow> endian \<Rightarrow> disk \<Rightarrow> string \<Rightarrow> 'k private_key \<Rightarrow> (disk \<times> bool) option" where
  "PrivateKeyWrite ssl e d filename key =
     (let outbuf = i2d_RSAPrivateKey ssl (rsa_private_key key) in
      if outbuf = [] then Some (d, True)
      else if \<not> can_create d filename then Some (d, True)
      else let data = store64 e (private_algorithm key) @ outbuf in
      if \<not> has_room d filename (length data) then None
      else Some (d\<lparr>content := (content d)(filename \<mapsto> data)\<rparr>, False))"

definition PrivateKeyRead :: "'k openssl \<Rightarrow> endian \<Rightarrow> disk \<Rightarrow> string \<Rightarrow> 'k private_key ptr option" where
  "PrivateKeyRead ssl e d filename =
     (case ReadFile d filename of
        None \<Rightarrow> Some None
      | Some buffer \<Rightarrow> do {
          alg \<leftarrow> rd64 e buffer 0;
          Some (case d2i_RSAPrivateKey ssl (drop 8 buffer) of
              None \<Rightarrow> None
            | Some k \<Rightarrow> Some \<lparr>rsa_private_key = k, private_algorithm = alg\<rparr>) })"

subsection \<open>Signatures\<close>

definition SignatureAlloc :: "endian \<Rightarrow> u8 \<Rightarrow> u64 \<Rightarrow> u64 \<Rightarrow> u8 list option" where
  "SignatureAlloc e junk sig_len data_len = do {
     let sig = replicate (unat (24 + sig_len)) junk;
     sig \<leftarrow> wr64 e sig 0 24;
     sig \<leftarrow> wr64 e sig 8 sig_len;
     wr64 e sig 16 data_len }"

definition SignatureInit :: "endian \<Rightarrow> u8 list \<Rightarrow> nat \<Rightarrow> u64 \<Rightarrow> u64 \<Rightarrow> u64 \<Rightarrow> u8 list option" where
  "SignatureInit e mem at_sig sig_data sig_len data_len = do {
     mem \<leftarrow> wr64 e mem at_sig (OffsetOf (of_nat at_sig) sig_data);
     mem \<leftarrow> wr64 e mem (at_sig + 8) sig_len;
     wr64 e mem (at_sig + 16) data_len }"

text \<open>The source is in a region of its own; the flag is the return value 1.\<close>

definition SignatureCopy :: "endian \<Rightarrow> u8 list \<Rightarrow> nat \<Rightarrow> u8 list \<Rightarrow> (bool \<times> u8 list) option" where
  "SignatureCopy e mem at_dest smem = do {
     dest \<leftarrow> read_signature e mem at_dest;
     src \<leftarrow> read_signature e smem 0;
     if sig_size dest < sig_size src then Some (True, mem)
     else do {
       mem \<leftarrow> wr64 e mem (at_dest + 8) (sig_size src);
       mem \<leftarrow> wr64 e mem (at_dest + 16) (data_size src);
       data \<leftarrow> mem_read (GetSignatureData smem src) 0 (unat (sig_size src));
       mem \<leftarrow> mem_write mem (unat (of_nat at_dest + sig_offset dest :: u64)) data;
       Some (False, mem) } }"

definition CalculateChecksum :: "endian \<Rightarrow> u8 \<Rightarrow> u8 list \<Rightarrow> u64 \<Rightarrow> u8 list option" where
  "CalculateChecksum e junk data nbytes = do {
     header_checksum \<leftarrow> DigestBuf data nbytes 2;
     sig \<leftarrow> SignatureAlloc e junk 64 0;
     sig \<leftarrow> wr64 e sig 0 24;
     sig \<leftarrow> wr64 e sig 8 64;
     sig \<leftarrow> wr64 e sig 16 nbytes;
     digest \<leftarrow> mem_read header_checksum 0 64;
     mem_write sig 24 digest }"

definition CalculateHash :: "endian \<Rightarrow> u8 \<Rightarrow> u8 list \<Rightarrow> u64 \<Rightarrow> 'k private_key \<Rightarrow> u8 list option" where
  "CalculateHash e junk data nbytes key = do {
     digest_size \<leftarrow> table_at hash_size_map (unat (private_algorithm key));
     digest \<leftarrow> DigestBuf data nbytes (unat (private_algorithm key));
     sig \<leftarrow> SignatureAlloc e junk (of_nat digest_size) nbytes;
     digest \<leftarrow> mem_read digest 0 digest_size;
     mem_write sig 24 digest }"

text \<open>The digest with the bytes that name its hash function in front, which both ways of signing build.\<close>

definition signature_digest :: "u8 list \<Rightarrow> u64 \<Rightarrow> u64 \<Rightarrow> u8 list option" where
  "signature_digest data nbytes alg = do {
     digest_size \<leftarrow> table_at hash_size_map (unat alg);
     digestinfo \<leftarrow> table_at hash_digestinfo_map (unat alg);
     digestinfo_size \<leftarrow> table_at digestinfo_size_map (unat alg);
     hash_type \<leftarrow> table_at hash_type_map (unat alg);
     digest \<leftarrow> DigestBuf data nbytes hash_type;
     info \<leftarrow> mem_read digestinfo 0 digestinfo_size;
     digest \<leftarrow> mem_read digest 0 digest_size;
     Some (info @ digest) }"

definition CalculateSignature :: "endian \<Rightarrow> u8 \<Rightarrow> 'k openssl \<Rightarrow> u8 list \<Rightarrow> u64 \<Rightarrow> 'k private_key \<Rightarrow> u8 list ptr option" where
  "CalculateSignature e junk ssl data nbytes key = do {
     message \<leftarrow> signature_digest data nbytes (private_algorithm key);
     siglen \<leftarrow> table_at siglen_map (unat (private_algorithm key));
     sig \<leftarrow> SignatureAlloc e junk (of_nat siglen) nbytes;
     (case RSA_private_encrypt ssl (rsa_private_key key) message of
        None \<Rightarrow> Some None
      | Some out \<Rightarrow> do { sig \<leftarrow> mem_write sig 24 out; Some (Some sig) }) }"

text \<open>
  The external signer is a parameter: what it writes to its output for the key file and the input, \<open>None\<close>
  when a pipe, the fork, a transfer or the wait fails. What does not fit the output buffer is not read.
\<close>

type_synonym signer = "string \<Rightarrow> string \<Rightarrow> u8 list \<Rightarrow> u8 list ptr"

definition InvokeExternalSigner :: "signer \<Rightarrow> u8 list \<Rightarrow> u8 list \<Rightarrow> nat \<Rightarrow> nat \<Rightarrow> string \<Rightarrow> string \<Rightarrow> (bool \<times> u8 list) option" where
  "InvokeExternalSigner run inbuf mem outbuf outbufsize pem_file external_signer =
     (case run external_signer pem_file inbuf of
        None \<Rightarrow> Some (True, mem)
      | Some output \<Rightarrow> do { mem \<leftarrow> mem_write mem outbuf (take outbufsize output); Some (False, mem) })"

definition CalculateSignature_external :: "endian \<Rightarrow> u8 \<Rightarrow> signer \<Rightarrow> u8 list \<Rightarrow> u64 \<Rightarrow> string \<Rightarrow> u64 \<Rightarrow> string
    \<Rightarrow> u8 list ptr option" where
  "CalculateSignature_external e junk run data nbytes key_file key_algorithm external_signer = do {
     message \<leftarrow> signature_digest data nbytes key_algorithm;
     siglen \<leftarrow> table_at siglen_map (unat key_algorithm);
     sig \<leftarrow> SignatureAlloc e junk (of_nat siglen) nbytes;
     (failed, sig) \<leftarrow> InvokeExternalSigner run message sig 24 siglen key_file external_signer;
     Some (if failed then None else Some sig) }"

subsection \<open>Key blocks\<close>

text \<open>
  The parts both ways of making a key block share: its fields, for a signature of \<open>siglen\<close> bytes or, for
  a block that is not signed, \<open>None\<close>, and the checksum of its header.
\<close>

definition key_block_layout :: "endian \<Rightarrow> u8 \<Rightarrow> u8 list \<Rightarrow> nat option \<Rightarrow> u64 \<Rightarrow> u8 list option" where
  "key_block_layout e junk kmem siglen flags = do {
     src \<leftarrow> read_public_key e kmem 0;
     let signed_size = 112 + key_size src;
     let block_size = signed_size + 64 + (case siglen of None \<Rightarrow> 0 | Some n \<Rightarrow> of_nat n);
     let h = replicate (unat block_size) junk;
     let data_key_dest = 112;
     let block_chk_dest = data_key_dest + key_size src;
     let block_sig_dest = block_chk_dest + 64;
     h \<leftarrow> mem_write h 0 (take 8 KEY_BLOCK_MAGIC);
     h \<leftarrow> wr32 e h 8 2;
     h \<leftarrow> wr32 e h 12 1;
     h \<leftarrow> wr64 e h 16 block_size;
     h \<leftarrow> wr64 e h 72 flags;
     h \<leftarrow> PublicKeyInit e h 80 data_key_dest (key_size src);
     (_, h) \<leftarrow> PublicKeyCopy e h 80 kmem;
     h \<leftarrow> SignatureInit e h 48 block_chk_dest 64 signed_size;
     (case siglen of Some n \<Rightarrow> SignatureInit e h 24 block_sig_dest (of_nat n) signed_size
      | None \<Rightarrow> mem_write h 24 (replicate 24 0)) }"

definition key_block_unsigned :: "endian \<Rightarrow> u8 \<Rightarrow> u8 list \<Rightarrow> nat option \<Rightarrow> u64 \<Rightarrow> u8 list option" where
  "key_block_unsigned e junk kmem siglen flags = do {
     src \<leftarrow> read_public_key e kmem 0;
     h \<leftarrow> key_block_layout e junk kmem siglen flags;
     sigtmp \<leftarrow> CalculateChecksum e junk h (112 + key_size src);
     (_, h) \<leftarrow> SignatureCopy e h 48 sigtmp;
     Some h }"

text \<open>A signature that could not be calculated is a null pointer, which the copy reads.\<close>

definition KeyBlockCreate :: "endian \<Rightarrow> u8 \<Rightarrow> 'k openssl \<Rightarrow> u8 list \<Rightarrow> 'k private_key ptr \<Rightarrow> u64 \<Rightarrow> u8 list option" where
  "KeyBlockCreate e junk ssl kmem signing_key flags =
     (case signing_key of
        None \<Rightarrow> key_block_unsigned e junk kmem None flags
      | Some key \<Rightarrow> do {
          siglen \<leftarrow> table_at siglen_map (unat (private_algorithm key));
          src \<leftarrow> read_public_key e kmem 0;
          h \<leftarrow> key_block_unsigned e junk kmem (Some siglen) flags;
          sigtmp \<leftarrow> CalculateSignature e junk ssl h (112 + key_size src) key;
          sigtmp \<leftarrow> sigtmp;
          (_, h) \<leftarrow> SignatureCopy e h 24 sigtmp;
          Some h })"

definition KeyBlockCreate_external :: "endian \<Rightarrow> u8 \<Rightarrow> signer \<Rightarrow> u8 list \<Rightarrow> string ptr \<Rightarrow> u64 \<Rightarrow> u64 \<Rightarrow> string ptr
    \<Rightarrow> u8 list ptr option" where
  "KeyBlockCreate_external e junk run kmem signing_key_pem_file alg flags external_signer = do {
     src \<leftarrow> read_public_key e kmem 0;
     siglen \<leftarrow> table_at siglen_map (unat alg);
     (case (signing_key_pem_file, external_signer) of
        (Some pem, Some signer) \<Rightarrow> do {
          h \<leftarrow> key_block_unsigned e junk kmem (Some siglen) flags;
          sigtmp \<leftarrow> CalculateSignature_external e junk run h (112 + key_size src) pem alg signer;
          sigtmp \<leftarrow> sigtmp;
          (_, h) \<leftarrow> SignatureCopy e h 24 sigtmp;
          Some (Some h) }
      | _ \<Rightarrow> Some None) }"

definition KeyBlockRead :: "endian \<Rightarrow> u32 \<Rightarrow> disk \<Rightarrow> string \<Rightarrow> u8 list ptr option" where
  "KeyBlockRead e junk d filename =
     (case ReadFile d filename of
        None \<Rightarrow> Some None
      | Some blob \<Rightarrow> do {
          r \<leftarrow> KeyBlockVerify e junk blob (of_nat (length blob)) None True;
          Some (if r \<noteq> VBOOT_SUCCESS then None else Some blob) })"

definition KeyBlockWrite :: "endian \<Rightarrow> disk \<Rightarrow> string \<Rightarrow> u8 list \<Rightarrow> (disk \<times> bool) option" where
  "KeyBlockWrite e d filename key_block = do {
     nbytes \<leftarrow> rd64 e key_block 16;
     data \<leftarrow> mem_read key_block 0 (unat nbytes);
     WriteFile d filename data }"

subsection \<open>Preambles\<close>

text \<open>The fields of a firmware preamble, before it is signed, and the size of what is signed.\<close>

definition firmware_preamble_layout :: "endian \<Rightarrow> nat \<Rightarrow> u64 \<Rightarrow> u8 list \<Rightarrow> u8 list \<Rightarrow> u32 \<Rightarrow> (u64 \<times> u8 list) option" where
  "firmware_preamble_layout e siglen fw_version subkey_mem body_sig_mem flags = do {
     subkey \<leftarrow> read_public_key e subkey_mem 0;
     body_sig \<leftarrow> read_signature e body_sig_mem 0;
     let signed_size = 108 + key_size subkey + sig_size body_sig;
     let block_size = signed_size + of_nat siglen;
     let h = replicate (unat block_size) 0;
     let kernel_subkey_dest = 108;
     let body_sig_dest = kernel_subkey_dest + key_size subkey;
     let block_sig_dest = body_sig_dest + sig_size body_sig;
     h \<leftarrow> wr32 e h 32 2;
     h \<leftarrow> wr32 e h 36 1;
     h \<leftarrow> wr64 e h 0 block_size;
     h \<leftarrow> wr64 e h 40 fw_version;
     h \<leftarrow> wr32 e h 104 flags;
     h \<leftarrow> PublicKeyInit e h 48 kernel_subkey_dest (key_size subkey);
     (_, h) \<leftarrow> PublicKeyCopy e h 48 subkey_mem;
     h \<leftarrow> SignatureInit e h 80 body_sig_dest (sig_size body_sig) 0;
     (_, h) \<leftarrow> SignatureCopy e h 80 body_sig_mem;
     h \<leftarrow> SignatureInit e h 8 block_sig_dest (of_nat siglen) signed_size;
     Some (signed_size, h) }"

definition CreateFirmwarePreamble :: "endian \<Rightarrow> u8 \<Rightarrow> 'k openssl \<Rightarrow> u64 \<Rightarrow> u8 list \<Rightarrow> u8 list \<Rightarrow> 'k private_key \<Rightarrow> u32
    \<Rightarrow> u8 list option" where
  "CreateFirmwarePreamble e junk ssl fw_version subkey_mem body_sig_mem signing_key flags = do {
     siglen \<leftarrow> table_at siglen_map (unat (private_algorithm signing_key));
     (signed_size, h) \<leftarrow> firmware_preamble_layout e siglen fw_version subkey_mem body_sig_mem flags;
     sigtmp \<leftarrow> CalculateSignature e junk ssl h signed_size signing_key;
     sigtmp \<leftarrow> sigtmp;
     (_, h) \<leftarrow> SignatureCopy e h 8 sigtmp;
     Some h }"

definition CreateKernelPreamble :: "endian \<Rightarrow> u8 \<Rightarrow> 'k openssl \<Rightarrow> u64 \<Rightarrow> u64 \<Rightarrow> u64 \<Rightarrow> u64 \<Rightarrow> u8 list \<Rightarrow> u64 \<Rightarrow> 'k private_key
    \<Rightarrow> u8 list option" where
  "CreateKernelPreamble e junk ssl kern_version load_address loader_address loader_size body_sig_mem
      desired_size signing_key = do {
     body_sig \<leftarrow> read_signature e body_sig_mem 0;
     siglen \<leftarrow> table_at siglen_map (unat (private_algorithm signing_key));
     let signed_size = 96 + sig_size body_sig;
     let block_size = signed_size + of_nat siglen;
     let block_size = (if block_size < desired_size then desired_size else block_size);
     let h = replicate (unat block_size) 0;
     let body_sig_dest = 96;
     let block_sig_dest = body_sig_dest + sig_size body_sig;
     h \<leftarrow> wr32 e h 32 2;
     h \<leftarrow> wr32 e h 36 0;
     h \<leftarrow> wr64 e h 0 block_size;
     h \<leftarrow> wr64 e h 40 kern_version;
     h \<leftarrow> wr64 e h 48 load_address;
     h \<leftarrow> wr64 e h 56 loader_address;
     h \<leftarrow> wr64 e h 64 loader_size;
     h \<leftarrow> SignatureInit e h 72 body_sig_dest (sig_size body_sig) 0;
     (_, h) \<leftarrow> SignatureCopy e h 72 body_sig_mem;
     h \<leftarrow> SignatureInit e h 8 block_sig_dest (of_nat siglen) signed_size;
     sigtmp \<leftarrow> CalculateSignature e junk ssl h signed_size signing_key;
     sigtmp \<leftarrow> sigtmp;
     (_, h) \<leftarrow> SignatureCopy e h 8 sigtmp;
     Some h }"

subsection \<open>Digests that are signed elsewhere\<close>

definition PrependDigestInfo :: "nat \<Rightarrow> u8 list \<Rightarrow> u8 list option" where
  "PrependDigestInfo alg digest = do {
     digest_size \<leftarrow> table_at hash_size_map alg;
     digestinfo_size \<leftarrow> table_at digestinfo_size_map alg;
     digestinfo \<leftarrow> table_at hash_digestinfo_map alg;
     info \<leftarrow> mem_read digestinfo 0 digestinfo_size;
     digest \<leftarrow> mem_read digest 0 digest_size;
     Some (info @ digest) }"

definition SignatureDigest :: "u8 list \<Rightarrow> u64 \<Rightarrow> nat \<Rightarrow> u8 list ptr option" where
  "SignatureDigest buf len alg =
     (if kNumAlgorithms \<le> alg then Some None
      else do { digest \<leftarrow> DigestBuf buf len alg; info_digest \<leftarrow> PrependDigestInfo alg digest; Some (Some info_digest) })"

text \<open>The signature that is returned is the uninitialised buffer when the encryption fails.\<close>

definition SignatureBuf :: "u8 \<Rightarrow> 'k openssl \<Rightarrow> disk \<Rightarrow> u8 list \<Rightarrow> u64 \<Rightarrow> string \<Rightarrow> nat \<Rightarrow> u8 list ptr option" where
  "SignatureBuf junk ssl d buf len key_file alg = do {
     signature_digest \<leftarrow> SignatureDigest buf len alg;
     digest_size \<leftarrow> table_at hash_size_map alg;
     digestinfo_size \<leftarrow> table_at digestinfo_size_map alg;
     (case content d key_file of
        None \<Rightarrow> Some None
      | Some key_fp \<Rightarrow> (case PEM_read_RSAPrivateKey ssl key_fp of
            None \<Rightarrow> Some None
          | Some key \<Rightarrow> do {
              siglen \<leftarrow> table_at siglen_map alg;
              let signature = replicate siglen junk;
              message \<leftarrow> signature_digest;
              message \<leftarrow> mem_read message 0 (digest_size + digestinfo_size);
              (case RSA_private_encrypt ssl key message of
                 None \<Rightarrow> Some (Some signature)
               | Some out \<Rightarrow> do { signature \<leftarrow> mem_write signature 0 out; Some (Some signature) }) })) }"

subsection \<open>Memory as a row of fields\<close>

named_theorems fields \<open>reading and writing a region that is a row of fields\<close>

lemma write_fields [fields]:
  "length x \<le> off \<Longrightarrow> mem_write (x @ ys) off bs = map_option ((@) x) (mem_write ys (off - length x) bs)"
  "length x = length bs \<Longrightarrow> mem_write (x @ ys) 0 bs = Some (bs @ ys)"
  "length x = length bs \<Longrightarrow> mem_write x 0 bs = Some bs"
  "length x + length y + length z = length bs \<Longrightarrow> mem_write (x @ y @ z @ ys) 0 bs = Some (bs @ ys)"
  by (auto simp: mem_write_def)

lemma read_fields [fields]:
  "length x \<le> off \<Longrightarrow> mem_read (x @ ys) off n = mem_read ys (off - length x) n"
  "length x = n \<Longrightarrow> mem_read (x @ ys) 0 n = Some x"
  "length x = n \<Longrightarrow> mem_read x 0 n = Some x"
  by (auto simp: mem_read_def)

text \<open>A signature and a key as the fields of their structures.\<close>

definition sig_fields :: "endian \<Rightarrow> u64 \<Rightarrow> u64 \<Rightarrow> u64 \<Rightarrow> u8 list" where
  "sig_fields e off n m = store64 e off @ store64 e n @ store64 e m"

definition key_fields :: "endian \<Rightarrow> u64 \<Rightarrow> u64 \<Rightarrow> u64 \<Rightarrow> u64 \<Rightarrow> u8 list" where
  "key_fields e off n alg v = store64 e off @ store64 e n @ store64 e alg @ store64 e v"

lemmas field_ops = wr64_def wr32_def rd64_def rd32_def load_store64 load_store32 read_signature_def read_public_key_def
  sig_fields_def key_fields_def SignatureInit_def SignatureCopy_def PublicKeyInit_def PublicKeyCopy_def OffsetOf_def

lemma SignatureAlloc_ok:
  assumes "unat sig_len + 24 < 2 ^ 64"
  shows "SignatureAlloc e junk sig_len data_len = Some (sig_fields e 24 sig_len data_len @ replicate (unat sig_len) junk)"
proof -
  have n: "unat (24 + sig_len) = 8 + (8 + (8 + unat sig_len))" using unat_add[of 24 sig_len] assms by simp
  show ?thesis unfolding SignatureAlloc_def Let_def n replicate_add
    by (simp add: field_ops fields)
qed

lemma fields_length [simp]: "length (sig_fields e a b c) = 24" "length (key_fields e a b c v) = 32"
  by (simp_all add: sig_fields_def key_fields_def)

lemma read_struct_fields:
  "read_signature e (sig_fields e a b c @ ys) 0 = Some \<lparr>sig_at = 0, sig_offset = a, sig_size = b, data_size = c\<rparr>"
  "read_public_key e (key_fields e a b c v @ ys) 0 =
     Some \<lparr>key_at = 0, key_offset = a, key_size = b, algorithm = c, key_version = v\<rparr>"
  by (simp_all add: field_ops fields)

lemma CalculateChecksum_ok:
  assumes "unat n \<le> length data" and "len_fits (unat n)"
  shows "CalculateChecksum e junk data n = Some (sig_fields e 24 64 n @ sha512 (take (unat n) data))"
proof -
  have t: "(2 :: nat) < kNumAlgorithms" by (simp add: kNumAlgorithms_def)
  have "length (sha512 (take (unat n) data)) = 64"
    using digest_of_length[OF t, of "take (unat n) data"] by (simp add: digest_of_def hash_size_map_def)
  moreover have "DigestBuf data n 2 = Some (sha512 (take (unat n) data))"
    using DigestBuf_ok[OF t assms] by (simp add: digest_of_def)
  ultimately show ?thesis
    unfolding CalculateChecksum_def by (simp add: SignatureAlloc_ok field_ops fields)
qed

lemma digestinfo_facts:
  assumes "t < kNumAlgorithms"
  shows "length (hash_digestinfo_map ! t) = digestinfo_size_map ! t" and "hash_type_map ! t < kNumAlgorithms"
    and "digest_of (hash_type_map ! t) m = digest_of t m"
    and "digestinfo_size_map ! t + hash_size_map ! t + 11 \<le> siglen_map ! t"
proof -
  have "length (hash_digestinfo_map ! t) = digestinfo_size_map ! t \<and> hash_type_map ! t < kNumAlgorithms \<and>
      digest_of (hash_type_map ! t) m = digest_of t m \<and> digestinfo_size_map ! t + hash_size_map ! t + 11 \<le> siglen_map ! t"
    if "t \<in> {0, 1, 2, 3, 4, 5, 6, 7, 8, 9, 10, 11}" for t
    using that unfolding insert_iff empty_iff
    by (elim disjE) (simp_all add: size_maps hash_digestinfo_map_def digestinfos digest_of_def kNumAlgorithms_def)
  then show "length (hash_digestinfo_map ! t) = digestinfo_size_map ! t" "hash_type_map ! t < kNumAlgorithms"
    "digest_of (hash_type_map ! t) m = digest_of t m"
    "digestinfo_size_map ! t + hash_size_map ! t + 11 \<le> siglen_map ! t" using assms algorithms by blast+
qed

lemma tables_at:
  assumes "t < kNumAlgorithms"
  shows "table_at hash_size_map t = Some (hash_size_map ! t)" and "table_at hash_digestinfo_map t = Some (hash_digestinfo_map ! t)"
    and "table_at digestinfo_size_map t = Some (digestinfo_size_map ! t)" and "table_at hash_type_map t = Some (hash_type_map ! t)"
    and "table_at siglen_map t = Some (siglen_map ! t)"
  using assms by (simp_all add: table_at_def kNumAlgorithms_def size_maps hash_digestinfo_map_def)

definition signed_message :: "nat \<Rightarrow> u8 list \<Rightarrow> u8 list" where
  "signed_message t m = hash_digestinfo_map ! t @ digest_of t m"

lemma signature_digest_ok:
  assumes t: "unat alg < kNumAlgorithms" and n: "unat n \<le> length data" "len_fits (unat n)"
  shows "signature_digest data n alg = Some (signed_message (unat alg) (take (unat n) data))"
  using digestinfo_facts[OF t] DigestBuf_ok[OF digestinfo_facts(2)[OF t] n] digest_of_length[OF t]
  by (simp add: signature_digest_def tables_at[OF t] fields signed_message_def)

lemma siglen_64: "t < kNumAlgorithms \<Longrightarrow> unat (of_nat (siglen_map ! t) :: u64) = siglen_map ! t"
  using table_sizes(3)[of t] by auto

lemma CalculateSignature_ok:
  assumes t: "unat (private_algorithm key) < kNumAlgorithms" and n: "unat n \<le> length data" "len_fits (unat n)"
    and s: "RSA_private_encrypt ssl (rsa_private_key key) (signed_message (unat (private_algorithm key)) (take (unat n) data)) = Some s"
      "length s = siglen_map ! unat (private_algorithm key)"
  shows "CalculateSignature e junk ssl data n key = Some (Some (sig_fields e 24 (of_nat (length s)) n @ s))"
proof -
  have u: "unat (of_nat (length s) :: u64) = length s" using siglen_64[OF t] by (simp add: s(2))
  have l: "length s < 2000" using table_sizes(3)[OF t] s(2) by auto
  have a: "SignatureAlloc e junk (of_nat (length s)) n = Some (sig_fields e 24 (of_nat (length s)) n @ replicate (length s) junk)"
    using SignatureAlloc_ok[of "of_nat (length s)" e junk n] u l by simp
  show ?thesis
    unfolding CalculateSignature_def signature_digest_ok[OF t n] bind.bind_lunit tables_at(5)[OF t] s(1) s(2)[symmetric] a option.case
    by (simp add: fields)
qed

subsection \<open>Key blocks that are created\<close>

definition block_header :: "endian \<Rightarrow> vb_public_key \<Rightarrow> u8 list \<Rightarrow> u64 \<Rightarrow> u8 list \<Rightarrow> u64 \<Rightarrow> u8 list" where
  "block_header e k kd nbytes sig flags =
     take 8 KEY_BLOCK_MAGIC @ store32 e 2 @ store32 e 1 @ store64 e nbytes @ sig @
     sig_fields e (64 + key_size k) 64 (112 + key_size k) @ store64 e flags @
     key_fields e 32 (key_size k) (algorithm k) (key_version k) @ kd"

definition block_sig :: "endian \<Rightarrow> vb_public_key \<Rightarrow> nat option \<Rightarrow> u8 list" where
  "block_sig e k siglen = (case siglen of None \<Rightarrow> replicate 24 0
     | Some n \<Rightarrow> sig_fields e (152 + key_size k) (of_nat n) (112 + key_size k))"

lemma block_header_length [simp]: "length sig = 24 \<Longrightarrow> length (block_header e k kd n sig flags) = 112 + length kd"
  by (simp add: block_header_def KEY_BLOCK_MAGIC_def)

lemma block_sig_length [simp]: "length (block_sig e k siglen) = 24"
  by (simp add: block_sig_def split: option.split)

text \<open>What a key must be for a block to be made of it: all in its region and short enough to be hashed.\<close>

definition key_data :: "endian \<Rightarrow> u8 list \<Rightarrow> vb_public_key \<Rightarrow> u8 list \<Rightarrow> bool" where
  "key_data e kmem k kd \<longleftrightarrow> key_region e kmem \<and> read_public_key e kmem 0 = Some k \<and>
     kd = take (unat (key_size k)) (drop (unat (key_offset k)) kmem) \<and> len_fits (4096 + unat (key_size k))"

lemma key_data_facts:
  assumes "key_data e kmem k kd"
  shows "read_public_key e kmem 0 = Some k" and "length kd = unat (key_size k)" and "key_at k = 0"
    and "mem_read (GetPublicKeyData kmem k) 0 (unat (key_size k)) = Some kd"
    and "m \<le> 4096 \<Longrightarrow> unat (of_nat m + key_size k) = m + unat (key_size k)"
    and "key_size k = of_nat (length kd)" and "len_fits (4096 + length kd)"
proof -
  note K = assms[unfolded key_data_def]
  show r: "read_public_key e kmem 0 = Some k" using K by blast
  show a: "key_at k = 0" using r by (auto simp: read_public_key_def split: Option.bind_splits)
  have l: "unat (key_offset k) + unat (key_size k) \<le> length kmem" using key_region_read K by blast
  then show "length kd = unat (key_size k)" using K by simp
  then show "key_size k = of_nat (length kd)" "len_fits (4096 + length kd)" using K by simp_all
  show "mem_read (GetPublicKeyData kmem k) 0 (unat (key_size k)) = Some kd"
    using l K by (simp add: GetPublicKeyData_def a mem_read_def)
  show "unat (of_nat m + key_size k) = m + unat (key_size k)" if "m \<le> 4096"
    using K that unat_add[of "of_nat m" "key_size k"] by (simp add: len_fits_def unat_of_nat64)
qed

lemma KEY_BLOCK_MAGIC_length [simp]: "length KEY_BLOCK_MAGIC = 9"
  by (simp add: KEY_BLOCK_MAGIC_def)

lemma key_block_layout_ok:
  assumes k: "key_data e kmem k kd" and sl: "sl = (case siglen of None \<Rightarrow> 0 | Some n \<Rightarrow> n)" "sl \<le> 1024"
  shows "key_block_layout e junk kmem siglen flags =
    Some (block_header e k kd (176 + key_size k + of_nat sl) (block_sig e k siglen) flags @ replicate 64 junk @ replicate sl junk)"
proof -
  note K = key_data_facts[OF k]
  have bs: "112 + key_size k + 64 + (case siglen of None \<Rightarrow> 0 | Some n \<Rightarrow> of_nat n) = 176 + key_size k + of_nat sl"
    by (simp add: sl(1) split: option.split)
  have u: "unat (176 + key_size k + of_nat sl) = 8 + (4 + (4 + (8 + (8 + (8 + (8 + (8 + (8 + (8 + (8 + (8 + (8 + (8 + (8 +
      (length kd + (64 + sl))))))))))))))))"
    using K(5)[of "176 + sl"] sl K(2) by (simp add: add_ac)
  show ?thesis
    unfolding key_block_layout_def PublicKeyCopy_def K(1) bind.bind_lunit Let_def bs u replicate_add
    using K(2,4) sl(1) by (cases siglen) (simp_all add: field_ops fields block_header_def block_sig_def)
qed

lemma sha512_length [simp]: "length (sha512 m) = 64"
  using digest_of_length[of 2 m] by (simp add: digest_of_def kNumAlgorithms_def hash_size_map_def)

lemma SignatureCopy_src:
  assumes "length s \<le> 2000"
  shows "SignatureCopy e mem at_dest (sig_fields e 24 (of_nat (length s)) n @ s) = do {
     dest \<leftarrow> read_signature e mem at_dest;
     if sig_size dest < of_nat (length s) then Some (True, mem)
     else do {
       mem \<leftarrow> wr64 e mem (at_dest + 8) (of_nat (length s));
       mem \<leftarrow> wr64 e mem (at_dest + 16) n;
       mem \<leftarrow> mem_write mem (unat (of_nat at_dest + sig_offset dest :: u64)) s;
       Some (False, mem) } }"
proof -
  have u: "unat (of_nat (length s) :: u64) = length s" using assms by (simp add: unat_of_nat64)
  have r: "mem_read s 0 (length s) = Some s" by (simp add: mem_read_def)
  show ?thesis
    unfolding SignatureCopy_def read_struct_fields bind.bind_lunit by (simp add: GetSignatureData_def u r cong: if_cong)
qed

lemma key_block_unsigned_ok:
  assumes k: "key_data e kmem k kd" and sl: "sl = (case siglen of None \<Rightarrow> 0 | Some n \<Rightarrow> n)" "sl \<le> 1024"
    and H: "H = block_header e k kd (176 + key_size k + of_nat sl) (block_sig e k siglen) flags"
  shows "key_block_unsigned e junk kmem siglen flags = Some (H @ sha512 H @ replicate sl junk)"
proof -
  note K = key_data_facts[OF k]
  have u: "unat (112 + key_size k) = 112 + length kd" using K(5)[of 112] K(2) by simp
  have len: "length H = 112 + length kd" by (simp add: H)
  have chk: "CalculateChecksum e junk (H @ rest) (112 + key_size k) = Some (sig_fields e 24 64 (112 + key_size k) @ sha512 H)" for rest
    using CalculateChecksum_ok[of "112 + key_size k" "H @ rest" e junk] u len K(7) by (simp add: len_fits_def)
  have cp: "SignatureCopy e (H @ replicate 64 junk @ replicate sl junk) 48 (sig_fields e 24 64 (112 + key_size k) @ sha512 H) =
      Some (False, H @ sha512 H @ replicate sl junk)"
  proof -
    define c where "c = sha512 H"
    have c: "length c = 64" by (simp add: c_def)
    have src: "SignatureCopy e mem at_dest (sig_fields e 24 64 n @ c) = do {
       dest \<leftarrow> read_signature e mem at_dest;
       if sig_size dest < 64 then Some (True, mem)
       else do { mem \<leftarrow> wr64 e mem (at_dest + 8) 64; mem \<leftarrow> wr64 e mem (at_dest + 16) n;
         mem \<leftarrow> mem_write mem (unat (of_nat at_dest + sig_offset dest :: u64)) c; Some (False, mem) } }" for mem at_dest n
      using SignatureCopy_src[of c e mem at_dest n] by (simp add: c cong: if_cong)
    show ?thesis
      unfolding c_def[symmetric] src using K(2) c u
      by (simp add: H block_header_def field_ops fields)
  qed
  show ?thesis
    unfolding key_block_unsigned_def K(1) bind.bind_lunit key_block_layout_ok[OF k sl] H[symmetric] chk cp by simp
qed

lemma KeyBlockCreate_unsigned:
  assumes "key_data e kmem k kd" and "H = block_header e k kd (176 + key_size k) (block_sig e k None) flags"
  shows "KeyBlockCreate e junk ssl kmem None flags = Some (H @ sha512 H)"
  using key_block_unsigned_ok[OF assms(1), of 0 None H flags junk] assms(2) by (simp add: KeyBlockCreate_def)

lemma KeyBlockCreate_signed:
  assumes k: "key_data e kmem k kd" and t: "unat (private_algorithm key) < kNumAlgorithms"
    and n: "n = siglen_map ! unat (private_algorithm key)"
    and H: "H = block_header e k kd (176 + key_size k + of_nat n) (block_sig e k (Some n)) flags"
    and s: "RSA_private_encrypt ssl (rsa_private_key key) (signed_message (unat (private_algorithm key)) H) = Some s" "length s = n"
  shows "KeyBlockCreate e junk ssl kmem (Some key) flags = Some (H @ sha512 H @ s)"
proof -
  note K = key_data_facts[OF k]
  have nn: "n \<le> 1024" using table_sizes(3)[OF t] n by auto
  have u: "unat (112 + key_size k) = 112 + length kd" using K(5)[of 112] K(2) by simp
  have len: "length H = 112 + length kd" by (simp add: H)
  have b: "key_block_unsigned e junk kmem (Some n) flags = Some (H @ sha512 H @ replicate n junk)"
    by (rule key_block_unsigned_ok[OF k _ nn]) (simp_all add: H)
  have sig: "CalculateSignature e junk ssl (H @ rest) (112 + key_size k) key =
      Some (Some (sig_fields e 24 (of_nat (length s)) (112 + key_size k) @ s))" for rest
    by (rule CalculateSignature_ok[OF t]) (use u len K(7) s n in \<open>simp_all add: len_fits_def\<close>)
  define c where "c = sha512 H"
  have at: "unat (24 + (152 + key_size k)) = 176 + length kd" using K(5)[of 176] K(2) by simp
  have cp: "SignatureCopy e (H @ c @ replicate n junk) 24 (sig_fields e 24 (of_nat (length s)) (112 + key_size k) @ s) =
      Some (False, H @ c @ s)"
  proof -
    have ls: "length s \<le> 2000" using nn s(2) by simp
    have c: "length c = 64" by (simp add: c_def)
    show ?thesis
      unfolding SignatureCopy_src[OF ls] using K(2) c s(2)
      by (simp add: H block_header_def block_sig_def field_ops fields at[simplified])
  qed
  show ?thesis
    unfolding KeyBlockCreate_def option.case n[symmetric] tables_at(5)[OF t] K(1) bind.bind_lunit b sig cp[unfolded c_def]
    by simp
qed

lemma read_block_header:
  "read_key_block e (block_header e k kd n (sig_fields e a b c) flags @ rest) = Some
    \<lparr>magic = take 8 KEY_BLOCK_MAGIC, block_version_major = 2, block_version_minor = 1, key_block_size = n,
     key_block_signature = \<lparr>sig_at = 24, sig_offset = a, sig_size = b, data_size = c\<rparr>,
     key_block_checksum = \<lparr>sig_at = 48, sig_offset = 64 + key_size k, sig_size = 64, data_size = 112 + key_size k\<rparr>,
     key_block_flags = flags,
     data_key = \<lparr>key_at = 80, key_offset = 32, key_size = key_size k, algorithm = algorithm k, key_version = key_version k\<rparr>\<rparr>"
  by (simp add: read_key_block_def block_header_def field_ops fields)

lemma block_sig_None: "block_sig e k None = sig_fields e 0 0 0"
proof -
  have "store64 e 0 = replicate 8 0" by (cases e) (simp_all add: UNPACK64_def eval_nat_numeral)
  then show ?thesis by (simp add: block_sig_def sig_fields_def eval_nat_numeral)
qed

text \<open>A private key and the public key that undoes its signatures, for keys of \<open>n\<close> bytes: what PKCS 1.5 promises.\<close>

definition key_pair :: "'k openssl \<Rightarrow> 'k \<Rightarrow> rsa_key \<Rightarrow> nat \<Rightarrow> bool" where
  "key_pair ssl priv pub n \<longleftrightarrow> (\<forall>m. length m + 11 \<le> n \<longrightarrow>
     (\<exists>s. RSA_private_encrypt ssl priv m = Some s \<and> length s = n \<and> rsa_public pub s = be_val (emsa_pkcs1 n m [])))"

text \<open>What is needed of the two keys that sign and verify.\<close>

definition signing_pair :: "'k openssl \<Rightarrow> 'k private_key \<Rightarrow> rsa_key \<Rightarrow> bool" where
  "signing_pair ssl key pub \<longleftrightarrow> (let t = unat (rsa_algorithm pub) in
     t < kNumAlgorithms \<and> unat (private_algorithm key) = t \<and> good_key pub \<and> unat (rsa_len pub) = siglen_map ! t div 4 \<and>
     key_pair ssl (rsa_private_key key) pub (siglen_map ! t))"

lemma signed_data_iff:
  assumes key: "good_key key" "unat (rsa_algorithm key) < kNumAlgorithms" "unat (rsa_len key) = siglen_map ! unat (rsa_algorithm key) div 4"
    and d: "data_size sig \<le> nbytes" "unat nbytes \<le> length data" "len_fits (unat (data_size sig))"
    and s: "unat (sig_size sig) = siglen_map ! unat (rsa_algorithm key)"
      "sig_at sig + unat (sig_offset sig) + unat (sig_size sig) \<le> length mem"
  shows "signed_data e data nbytes mem sig key \<longleftrightarrow>
    rsa_public key (take (unat (sig_size sig)) (drop (sig_at sig + unat (sig_offset sig)) mem)) =
      be_val (emsa_pkcs1 (unat (sig_size sig)) (hash_digestinfo_map ! unat (rsa_algorithm key))
        (digest_of (unat (rsa_algorithm key)) (take (unat (data_size sig)) data)))"
proof -
  let ?t = "unat (rsa_algorithm key)"
  note u = small_algorithm[OF key(2)]
  have l: "unat (data_size sig) \<le> length data" using d by (simp add: word_le_nat_alt)
  have h: "DigestBuf data (data_size sig) ?t = Some (digest_of ?t (take (unat (data_size sig)) data))"
    by (rule DigestBuf_ok[OF key(2) l d(3)])
  have "RSAVerify (Some key) (Some (drop (sig_at sig + unat (sig_offset sig)) mem)) (of_nat (siglen_map ! ?t)) (ucast (rsa_algorithm key))
      (Some (digest_of ?t (take (unat (data_size sig)) data))) = Some
    (if rsa_public key (take (siglen_map ! ?t) (drop (sig_at sig + unat (sig_offset sig)) mem)) =
       be_val (emsa_pkcs1 (siglen_map ! ?t) (hash_digestinfo_map ! ?t) (digest_of ?t (take (unat (data_size sig)) data))) then 1 else 0)"
    using RSAVerify_ok[OF key(1), of "ucast (rsa_algorithm key)"] u key(2,3) s digest_of_length[OF key(2)] by simp
  then show ?thesis
    using d(1) s(1) u h key(2)
    by (simp add: signed_data_def RSAVerifyBinary_f_def RSAProcessedKeySize_def choose_key_def del: RSAVerify.simps)
qed

text \<open>What such a key signed is accepted, wherever the signature is.\<close>

lemma signing_pair_sign:
  assumes p: "signing_pair ssl key pub"
  obtains s where "RSA_private_encrypt ssl (rsa_private_key key) (signed_message (unat (private_algorithm key)) m) = Some s"
    and "length s = siglen_map ! unat (private_algorithm key)"
    and "rsa_public pub s = be_val (emsa_pkcs1 (siglen_map ! unat (rsa_algorithm pub)) (hash_digestinfo_map ! unat (rsa_algorithm pub))
      (digest_of (unat (rsa_algorithm pub)) m))"
proof -
  define t where "t = unat (rsa_algorithm pub)"
  have P: "t < kNumAlgorithms" "unat (private_algorithm key) = t" "key_pair ssl (rsa_private_key key) pub (siglen_map ! t)"
    using p unfolding signing_pair_def Let_def t_def by blast+
  have "length (signed_message t m) + 11 \<le> siglen_map ! t"
    using digestinfo_facts(1,4)[OF P(1)] digest_of_length[OF P(1)] by (simp add: signed_message_def)
  then obtain s where s: "RSA_private_encrypt ssl (rsa_private_key key) (signed_message t m) = Some s" "length s = siglen_map ! t"
    "rsa_public pub s = be_val (emsa_pkcs1 (siglen_map ! t) (signed_message t m) [])"
    using P(3) unfolding key_pair_def by blast
  have "emsa_pkcs1 (siglen_map ! t) (signed_message t m) [] = emsa_pkcs1 (siglen_map ! t) (hash_digestinfo_map ! t) (digest_of t m)"
    by (simp add: emsa_pkcs1_def signed_message_def diff_diff_add add.assoc)
  with that s P(2) show thesis by (simp add: t_def)
qed

text \<open>The format of a block that was made is right, for both of its signatures.\<close>

lemma created_block:
  assumes k: "key_data e kmem k kd" and n: "n \<le> 1024"
    and H: "H = block_header e k kd (176 + key_size k + of_nat n) (sig_fields e a b c) flags"
    and kb: "read_key_block e (H @ rest) = Some kb"
  shows "unat nbytes = 176 + length kd + n \<Longrightarrow> good_block kb nbytes (key_block_checksum kb)"
    and "unat nbytes = 176 + length kd + n \<Longrightarrow> unat a = 152 + length kd \<Longrightarrow> unat b = n \<Longrightarrow> unat c = 112 + length kd \<Longrightarrow>
      good_block kb nbytes (key_block_signature kb)"
    and "hash_accepted (H @ sha512 H @ s) (key_block_checksum kb)"
proof -
  note K = key_data_facts[OF k]
  have u: "unat (64 + key_size k) = 64 + length kd" "unat (112 + key_size k) = 112 + length kd"
    "unat (176 + key_size k + of_nat n) = 176 + length kd + n" "unat (key_size k) = length kd"
    using K(5)[of 64] K(5)[of 112] K(5)[of "176 + n"] K(2) n by (simp_all add: add_ac)
  have r: "key_block_checksum kb = \<lparr>sig_at = 48, sig_offset = 64 + key_size k, sig_size = 64, data_size = 112 + key_size k\<rparr>"
    "key_block_signature kb = \<lparr>sig_at = 24, sig_offset = a, sig_size = b, data_size = c\<rparr>"
    "data_key kb = \<lparr>key_at = 80, key_offset = 32, key_size = key_size k, algorithm = algorithm k, key_version = key_version k\<rparr>"
    "magic kb = take 8 KEY_BLOCK_MAGIC" "block_version_major kb = 2" "key_block_size kb = 176 + key_size k + of_nat n"
    using kb unfolding H read_block_header by auto
  show "good_block kb nbytes (key_block_checksum kb)" if "unat nbytes = 176 + length kd + n"
    unfolding good_block_def good_data_def inside_def word_le_nat_alt r by (simp add: u that)
  show "good_block kb nbytes (key_block_signature kb)" if "unat nbytes = 176 + length kd + n" "unat a = 152 + length kd"
    "unat b = n" "unat c = 112 + length kd"
    unfolding good_block_def good_data_def inside_def word_le_nat_alt r by (simp add: u that)
  have "length H = 112 + length kd" by (simp add: H)
  then show "hash_accepted (H @ sha512 H @ s) (key_block_checksum kb)"
    unfolding hash_accepted_def r by (simp add: u)
qed

lemma KeyBlockCreate_ok:
  assumes k: "key_data e kmem k kd" and pair: "signing_pair ssl key pub"
    and vkey: "key_region e vmem" "PublicKeyToRSA e junk32 vmem = Some (Some pub)"
  obtains blob kb where "KeyBlockCreate e junk ssl kmem (Some key) flags = Some blob"
    and "KeyBlockVerify e junk32 blob (of_nat (length blob)) (Some vmem) False = Some VBOOT_SUCCESS"
    and "KeyBlockVerify e junk32 blob (of_nat (length blob)) None True = Some VBOOT_SUCCESS"
    and "read_key_block e blob = Some kb" and "unat (key_block_size kb) = length blob" and "key_block_flags kb = flags"
    and "data_key kb = k\<lparr>key_at := 80, key_offset := 32\<rparr>" and "mem_read blob 112 (length kd) = Some kd"
    and "length blob \<le> 2048 + length kd"
proof -
  note K = key_data_facts[OF k]
  define t where "t = unat (rsa_algorithm pub)"
  define n where "n = siglen_map ! t"
  have P: "t < kNumAlgorithms" "unat (private_algorithm key) = t" "good_key pub" "unat (rsa_len pub) = n div 4"
    using pair unfolding signing_pair_def Let_def t_def n_def by blast+
  have n: "n \<le> 1024" using table_sizes(3)[OF P(1)] by (auto simp: n_def)
  define H where "H = block_header e k kd (176 + key_size k + of_nat n) (sig_fields e (152 + key_size k) (of_nat n) (112 + key_size k)) flags"
  obtain s where s: "RSA_private_encrypt ssl (rsa_private_key key) (signed_message (unat (private_algorithm key)) H) = Some s"
    "length s = n" "rsa_public pub s = be_val (emsa_pkcs1 n (hash_digestinfo_map ! t) (digest_of t H))"
    using signing_pair_sign[OF pair] P(2) unfolding n_def t_def by metis
  define blob where "blob = H @ sha512 H @ s"
  have lH: "length H = 112 + length kd" and len: "length blob = 176 + length kd + n"
    by (simp_all add: H_def blob_def s(2))
  have create: "KeyBlockCreate e junk ssl kmem (Some key) flags = Some blob"
    unfolding blob_def using K(1) P(1,2) n_def s(2)
    by (intro KeyBlockCreate_signed[OF k _ _ _ s(1)]) (simp_all add: H_def block_sig_def)
  obtain kb where kb: "read_key_block e blob = Some kb"
    "key_block_signature kb = \<lparr>sig_at = 24, sig_offset = 152 + key_size k, sig_size = of_nat n, data_size = 112 + key_size k\<rparr>"
    "key_block_size kb = 176 + key_size k + of_nat n" "key_block_flags kb = flags" "data_key kb = k\<lparr>key_at := 80, key_offset := 32\<rparr>"
    unfolding blob_def H_def read_block_header using that by (cases k) simp
  have fits: "len_fits (length blob)" using K(7) n len by (simp add: len_fits_def)
  have nb: "unat (of_nat (length blob) :: u64) = length blob" using fits by (simp add: len_fits_def unat_of_nat64)
  have u: "unat (152 + key_size k) = 152 + length kd" "unat (112 + key_size k) = 112 + length kd"
    "unat (176 + key_size k + of_nat n) = 176 + length kd + n" "unat (of_nat n :: u64) = n"
    using K(5)[of 152] K(5)[of 112] K(5)[of "176 + n"] K(2) n by (simp_all add: add_ac unat_of_nat64)
  note g = created_block[OF k n H_def kb(1)[unfolded blob_def]]
  have sd: "signed_by e blob (of_nat (length blob)) (key_block_signature kb) pub"
  proof -
    have "take n (drop (24 + (152 + length kd)) blob) = s" "take (112 + length kd) blob = H" "take n s = s"
      by (simp_all add: blob_def lH s(2))
    then show ?thesis
      using signed_data_iff[OF P(3) P(1)[unfolded t_def], of "key_block_signature kb" "of_nat (length blob)" blob blob e]
        P(4) nb fits len u s(3) K(7) unfolding kb(2) by (simp add: t_def[symmetric] n_def[symmetric] word_le_nat_alt len_fits_def)
  qed
  show thesis
  proof (rule that[OF create])
    obtain r where r: "KeyBlockVerify e junk32 blob (of_nat (length blob)) (Some vmem) False = Some r"
      "r = VBOOT_SUCCESS \<longleftrightarrow> (\<exists>kb. read_key_block e blob = Some kb \<and> good_block kb (of_nat (length blob)) (key_block_signature kb) \<and>
        key_accepted e junk32 blob (of_nat (length blob)) (key_block_signature kb) (Some vmem))"
      using KeyBlockVerify_ok[of "of_nat (length blob)" blob "Some vmem" e junk32 False] vkey(1) nb fits by auto
    moreover have "good_block kb (of_nat (length blob)) (key_block_signature kb)" using g(2) nb len u by simp
    ultimately show "KeyBlockVerify e junk32 blob (of_nat (length blob)) (Some vmem) False = Some VBOOT_SUCCESS"
      using kb(1) sd vkey(2) by (auto simp: key_accepted_def)
    obtain r where r: "KeyBlockVerify e junk32 blob (of_nat (length blob)) None True = Some r"
      "r = VBOOT_SUCCESS \<longleftrightarrow> (\<exists>kb. read_key_block e blob = Some kb \<and> good_block kb (of_nat (length blob)) (key_block_checksum kb) \<and>
        hash_accepted blob (key_block_checksum kb))"
      using KeyBlockVerify_ok[of "of_nat (length blob)" blob None e junk32 True] nb fits by auto
    moreover have "good_block kb (of_nat (length blob)) (key_block_checksum kb)" using g(1) nb len by simp
    ultimately show "KeyBlockVerify e junk32 blob (of_nat (length blob)) None True = Some VBOOT_SUCCESS"
      using kb(1) g(3)[of s] unfolding blob_def by auto
    show "mem_read blob 112 (length kd) = Some kd"
      by (simp add: blob_def H_def block_header_def sig_fields_def key_fields_def fields)
  qed (use kb u len n in simp_all)
qed

subsection \<open>Preambles that are created\<close>

definition preamble_header :: "endian \<Rightarrow> vb_public_key \<Rightarrow> u8 list \<Rightarrow> u64 \<Rightarrow> u8 list \<Rightarrow> nat \<Rightarrow> u64 \<Rightarrow> u32 \<Rightarrow> u8 list" where
  "preamble_header e k kd body_len b n v flags =
     store64 e (108 + key_size k + of_nat (length b) + of_nat n) @
     sig_fields e (100 + key_size k + of_nat (length b)) (of_nat n) (108 + key_size k + of_nat (length b)) @
     store32 e 2 @ store32 e 1 @ store64 e v @ key_fields e 60 (key_size k) (algorithm k) (key_version k) @
     sig_fields e (28 + key_size k) (of_nat (length b)) body_len @ store32 e flags @ kd @ b"

lemma preamble_header_length [simp]: "length (preamble_header e k kd bl b n v flags) = 108 + length kd + length b"
  by (simp add: preamble_header_def)

lemma firmware_preamble_layout_ok:
  assumes k: "key_data e kmem k kd" and b: "length b \<le> 1024" and n: "n \<le> 1024"
  shows "firmware_preamble_layout e n v kmem (sig_fields e 24 (of_nat (length b)) bl @ b) flags =
    Some (108 + key_size k + of_nat (length b), preamble_header e k kd bl b n v flags @ replicate n 0)"
proof -
  note K = key_data_facts[OF k]
  have u: "unat (108 + key_size k + of_nat (length b) + of_nat n) = 8 + (8 + (8 + (8 + (4 + (4 + (8 + (8 + (8 + (8 + (8 + (8 + (8 + (8 +
      (4 + (length kd + (length b + n))))))))))))))))"
    using K(5)[of "108 + length b + n"] b n K(2) by (simp add: add_ac)
  have u2: "unat (108 + key_size k) = 108 + length kd" "unat (of_nat (length b) :: u64) = length b"
    using K(5)[of 108] K(2) b by (simp_all add: unat_of_nat64)
  have ls: "length b \<le> 2000" using b by simp
  show ?thesis
    unfolding firmware_preamble_layout_def PublicKeyCopy_def K(1) read_struct_fields(1) SignatureCopy_src[OF ls] bind.bind_lunit Let_def
      vb_signature.simps u replicate_add
    using K(2,4) u2 by (simp add: field_ops fields preamble_header_def, simp add: add.assoc)
qed

lemma CreateFirmwarePreamble_run:
  assumes k: "key_data e kmem k kd" and b: "length b \<le> 1024" and t: "unat (private_algorithm key) < kNumAlgorithms"
    and n: "n = siglen_map ! unat (private_algorithm key)" and H: "H = preamble_header e k kd bl b n v flags"
    and s: "RSA_private_encrypt ssl (rsa_private_key key) (signed_message (unat (private_algorithm key)) H) = Some s" "length s = n"
  shows "CreateFirmwarePreamble e junk ssl v kmem (sig_fields e 24 (of_nat (length b)) bl @ b) key flags = Some (H @ s)"
proof -
  note K = key_data_facts[OF k]
  have nn: "n \<le> 1024" using table_sizes(3)[OF t] n by auto
  have u: "unat (108 + key_size k + of_nat (length b)) = 108 + length kd + length b"
    using K(5)[of "108 + length b"] b K(2) by (simp add: add_ac)
  have len: "length H = 108 + length kd + length b" by (simp add: H)
  have sig: "CalculateSignature e junk ssl (H @ replicate n 0) (108 + key_size k + of_nat (length b)) key =
      Some (Some (sig_fields e 24 (of_nat (length s)) (108 + key_size k + of_nat (length b)) @ s))"
    by (rule CalculateSignature_ok[OF t]) (use u len K(7) s n b in \<open>simp_all add: len_fits_def\<close>)
  have at: "unat (8 + (100 + key_size k + of_nat (length b))) = 108 + length kd + length b" using u by (simp add: add.assoc)
  have cp: "SignatureCopy e (H @ replicate n 0) 8 (sig_fields e 24 (of_nat (length s)) (108 + key_size k + of_nat (length b)) @ s) =
      Some (False, H @ s)"
  proof -
    have ls: "length s \<le> 2000" using nn s(2) by simp
    show ?thesis
      unfolding SignatureCopy_src[OF ls] using K(2) s(2)
      by (simp add: H preamble_header_def field_ops fields at[simplified])
  qed
  show ?thesis
    unfolding CreateFirmwarePreamble_def n[symmetric] tables_at(5)[OF t] bind.bind_lunit firmware_preamble_layout_ok[OF k b nn]
      prod.case H[symmetric] sig cp by simp
qed

lemma read_preamble_header:
  assumes "key_data e kmem k kd"
  shows "read_firmware_preamble e (preamble_header e k kd bl b n v flags @ rest) = Some
    \<lparr>preamble_size = 108 + key_size k + of_nat (length b) + of_nat n,
     preamble_signature = \<lparr>sig_at = 8, sig_offset = 100 + key_size k + of_nat (length b), sig_size = of_nat n,
       data_size = 108 + key_size k + of_nat (length b)\<rparr>,
     version_major = 2, version_minor = 1, firmware_version = v, kernel_subkey = k\<lparr>key_at := 48, key_offset := 60\<rparr>,
     body_signature = \<lparr>sig_at = 80, sig_offset = 28 + key_size k, sig_size = of_nat (length b), data_size = bl\<rparr>\<rparr>"
    and "VbGetFirmwarePreambleFlags e (preamble_header e k kd bl b n v flags @ rest) = Some flags"
  by (cases k, simp add: read_firmware_preamble_def preamble_header_def field_ops fields)
    (simp add: VbGetFirmwarePreambleFlags_def preamble_header_def field_ops fields)

text \<open>A firmware signed with a pair of keys: its signature, and the preamble that holds it.\<close>

lemma CreateFirmwarePreamble_ok:
  assumes k: "key_data e kmem k kd" and pair: "signing_pair ssl key pub" and fv: "len_fits (length fv)"
  obtains bsig pre p where "CalculateSignature e junk ssl fv (of_nat (length fv)) key = Some (Some bsig)"
    and "CreateFirmwarePreamble e junk ssl v kmem bsig key flags = Some pre"
    and "rd64 e pre 0 = Some (of_nat (length pre))" and "length pre \<le> 2156 + length kd" and "108 \<le> length pre"
    and "unat (preamble_size p) = length pre" and "firmware_version p = v"
    and "kernel_subkey p = k\<lparr>key_at := 48, key_offset := 60\<rparr>"
    and "\<And>rest. read_firmware_preamble e (pre @ rest) = Some p"
    and "\<And>rest. VbGetFirmwarePreambleFlags e (pre @ rest) = Some flags"
    and "\<And>rest nb. unat nb = length (pre @ rest) \<Longrightarrow> good_firmware_preamble e (pre @ rest) nb pub p"
    and "\<And>rest. signed_data e fv (of_nat (length fv)) (pre @ rest) (body_signature p) pub"
proof -
  note K = key_data_facts[OF k]
  define t where "t = unat (rsa_algorithm pub)"
  define n where "n = siglen_map ! t"
  have P: "t < kNumAlgorithms" "unat (private_algorithm key) = t" "good_key pub" "unat (rsa_len pub) = n div 4"
    using pair unfolding signing_pair_def Let_def t_def n_def by blast+
  have pt: "unat (private_algorithm key) < kNumAlgorithms" using P by simp
  have n: "n \<le> 1024" using table_sizes(3)[OF P(1)] by (auto simp: n_def)
  have lf: "unat (of_nat (length fv) :: u64) = length fv" using fv by (simp add: len_fits_def unat_of_nat64)
  obtain b where b: "RSA_private_encrypt ssl (rsa_private_key key) (signed_message (unat (private_algorithm key)) fv) = Some b"
    "length b = n" "rsa_public pub b = be_val (emsa_pkcs1 n (hash_digestinfo_map ! t) (digest_of t fv))"
    using signing_pair_sign[OF pair] P(2) unfolding n_def t_def by metis
  define bl where "bl = (of_nat (length fv) :: u64)"
  define H where "H = preamble_header e k kd bl b n v flags"
  obtain s where s: "RSA_private_encrypt ssl (rsa_private_key key) (signed_message (unat (private_algorithm key)) H) = Some s"
    "length s = n" "rsa_public pub s = be_val (emsa_pkcs1 n (hash_digestinfo_map ! t) (digest_of t H))"
    using signing_pair_sign[OF pair] P(2) unfolding n_def t_def by metis
  define pre where "pre = H @ s"
  have lH: "length H = 108 + length kd + n" by (simp add: H_def b(2))
  have lp: "length pre = 108 + length kd + n + n" by (simp add: pre_def lH s(2))
  have sig: "CalculateSignature e junk ssl fv (of_nat (length fv)) key = Some (Some (sig_fields e 24 (of_nat (length b)) bl @ b))"
    unfolding bl_def by (rule CalculateSignature_ok[OF pt]) (use lf fv b P(2) in \<open>simp_all add: n_def\<close>)
  have create: "CreateFirmwarePreamble e junk ssl v kmem (sig_fields e 24 (of_nat (length b)) bl @ b) key flags = Some pre"
    unfolding pre_def by (rule CreateFirmwarePreamble_run[OF k _ pt _ H_def s(1)]) (use b(2) n P(2) s(2) in \<open>simp_all add: n_def\<close>)
  obtain p where p: "\<And>rest. read_firmware_preamble e (pre @ rest) = Some p"
    "preamble_size p = 108 + key_size k + of_nat n + of_nat n"
    "preamble_signature p = \<lparr>sig_at = 8, sig_offset = 100 + key_size k + of_nat n, sig_size = of_nat n,
       data_size = 108 + key_size k + of_nat n\<rparr>" "version_major p = 2" "firmware_version p = v"
    "kernel_subkey p = k\<lparr>key_at := 48, key_offset := 60\<rparr>"
    "body_signature p = \<lparr>sig_at = 80, sig_offset = 28 + key_size k, sig_size = of_nat n, data_size = bl\<rparr>"
    using read_preamble_header(1)[OF k, of bl b n v flags] unfolding pre_def H_def append_assoc b(2) by (cases k) fastforce
  have u: "unat (108 + key_size k + of_nat n + of_nat n) = length pre" "unat (100 + key_size k + of_nat n) = 100 + length kd + n"
    "unat (108 + key_size k + of_nat n) = 108 + length kd + n" "unat (28 + key_size k) = 28 + length kd" "unat (key_size k) = length kd"
    "unat (of_nat n :: u64) = n"
    using K(5)[of "108 + n + n"] K(5)[of "100 + n"] K(5)[of "108 + n"] K(5)[of 28] K(2) n lp by (simp_all add: add_ac unat_of_nat64)
  note iff = signed_data_iff[OF P(3) P(1)[unfolded t_def]]
  have s1: "signed_by e (pre @ rest) nb (preamble_signature p) pub" if nb: "unat nb = length (pre @ rest)" for rest nb
  proof -
    have "take n (drop (8 + (100 + length kd + n)) (pre @ rest)) = s" "take (108 + length kd + n) (pre @ rest) = H"
      by (simp_all add: pre_def lH s(2))
    moreover have "len_fits (108 + length kd + n)" using K(7) n by (simp add: len_fits_def)
    ultimately show ?thesis using iff[of "preamble_signature p" nb "pre @ rest" "pre @ rest" e] P(4) nb lp u s(2,3)
      unfolding p(3) by (simp add: t_def[symmetric] n_def[symmetric] word_le_nat_alt)
  qed
  have s2: "signed_data e fv (of_nat (length fv)) (pre @ rest) (body_signature p) pub" for rest
  proof -
    have "take n (drop (80 + (28 + length kd)) (pre @ rest)) = b" "take (length fv) fv = fv"
      by (simp_all add: pre_def H_def preamble_header_def b(2))
    then show ?thesis using iff[of "body_signature p" "of_nat (length fv)" fv "pre @ rest" e] P(4) lf fv lp u b(2,3)
      unfolding p(7) bl_def by (simp add: t_def[symmetric] n_def[symmetric])
  qed
  have good: "good_firmware_preamble e (pre @ rest) nb pub p" if nb: "unat nb = length (pre @ rest)" for rest nb
    using s1[OF nb] nb lp u unfolding good_firmware_preamble_def Let_def inside_def word_le_nat_alt p by simp
  have rd: "rd64 e pre 0 = Some (of_nat (length pre))"
  proof -
    have "of_nat (length pre) = 108 + key_size k + of_nat n + of_nat n" unfolding u(1)[symmetric] by simp
    then show ?thesis by (simp add: pre_def H_def preamble_header_def field_ops fields b(2))
  qed
  have fl: "VbGetFirmwarePreambleFlags e (pre @ rest) = Some flags" for rest
    using read_preamble_header(2)[OF k] by (simp add: pre_def H_def)
  show thesis
    by (rule that[OF sig create rd _ _ _ p(5,6,1) fl good s2]) (use lp n u p(2) in simp_all)
qed

end
