(* ===== verification/DumpKey.thy ===== *)
theory DumpKey
  imports HostSign
begin

text \<open>
  The tool that makes the keys for the verifier of a public key, \<open>dumpRSAPublicKey.c\<close> of
  \<open>package/vboot_utils/src/utility\<close>. The numbers of OpenSSL are integers; the modular inverse is a
  parameter. What the tool writes is shown to be parsed as a key the Montgomery arithmetic is right for,
  with the modulus it was given.
\<close>

subsection \<open>The program\<close>

function BN_num_bits :: "int \<Rightarrow> nat" where
  "BN_num_bits n = (if n \<le> 0 then 0 else Suc (BN_num_bits (n div 2)))"
  by pat_completeness auto
termination by (relation "measure nat") auto

declare BN_num_bits.simps [simp del]

definition check :: "int \<Rightarrow> bool" where
  "check n \<longleftrightarrow> (let modulus = BN_num_bits n in
     \<not> (modulus \<noteq> 1024 \<and> modulus \<noteq> 2048 \<and> modulus \<noteq> 4096 \<and> modulus \<noteq> 8192))"

text \<open>One of the loops that write a number word by word, lowest first, and shift it.\<close>

fun out_words :: "nat \<Rightarrow> int \<Rightarrow> u32 list" where
  "out_words 0 N = []"
| "out_words (Suc i) N = of_int (N mod 2 ^ 32) # out_words i (drop_bit 32 N)"

text \<open>The output of the words up to the first write that fails.\<close>

definition output_key :: "endian \<Rightarrow> (int \<Rightarrow> int \<Rightarrow> int) \<Rightarrow> nat \<Rightarrow> int \<Rightarrow> u8 list" where
  "output_key e BN_mod_inverse writes N =
     (let nwords = BN_num_bits N div 32;
          B = 2 ^ 32;
          N0inv = B - BN_mod_inverse N B;
          R = 2 ^ BN_num_bits N;
          RR = (R * R) mod N in
      concat (map (store32 e) (take writes (of_nat nwords # of_int N0inv # out_words nwords N @ out_words nwords RR))))"

text \<open>What \<open>main\<close> writes for the RSA key it read.\<close>

definition dump_key :: "endian \<Rightarrow> (int \<Rightarrow> int \<Rightarrow> int) \<Rightarrow> nat \<Rightarrow> int \<Rightarrow> u8 list" where
  "dump_key e BN_mod_inverse writes N = (if check N then output_key e BN_mod_inverse writes N else [])"

subsection \<open>What is written is a key\<close>

lemma out_words_length [simp]: "length (out_words k N) = k"
  by (induction k arbitrary: N) simp_all

lemma val_out_words: "0 \<le> N \<Longrightarrow> val (out_words k N) = N mod 2 ^ (32 * k)"
proof (induction k arbitrary: N)
  case (Suc k)
  have "0 \<le> drop_bit 32 N" using Suc.prems by (simp add: drop_bit_eq_div)
  then have "val (out_words k (drop_bit 32 N)) = (N div 2 ^ 32) mod 2 ^ (32 * k)"
    using Suc.IH by (simp add: drop_bit_eq_div)
  moreover have "uint (of_int (N mod 2 ^ 32) :: u32) = N mod 2 ^ 32" by (simp add: unsigned_of_int take_bit_eq_mod)
  moreover have "N mod (2 ^ 32 * 2 ^ (32 * k)) = 2 ^ 32 * (N div 2 ^ 32 mod 2 ^ (32 * k)) + N mod 2 ^ 32"
    by (rule zmod_zmult2_eq) simp
  ultimately show ?case by (simp add: power_add)
qed simp

lemma BN_num_bits_bounds: "0 < n \<Longrightarrow> 2 ^ (BN_num_bits n - 1) \<le> n \<and> n < 2 ^ BN_num_bits n \<and> 0 < BN_num_bits n"
proof (induction n rule: BN_num_bits.induct)
  case (1 n)
  show ?case
  proof (cases "n = 1")
    case True
    then show ?thesis by (simp add: BN_num_bits.simps)
  next
    case False
    then have h: "0 < n div 2" using 1(2) by simp
    define b where "b = BN_num_bits (n div 2)"
    have IH: "2 ^ (b - 1) \<le> n div 2" "n div 2 < 2 ^ b" "0 < b" using 1(1) 1(2) h by (auto simp: b_def)
    have b: "BN_num_bits n = Suc b" using 1(2) by (simp add: b_def BN_num_bits.simps[of n])
    have "(2 :: int) ^ b = 2 * 2 ^ (b - 1)" using IH(3) by (cases b) simp_all
    then have "2 ^ b \<le> n" using IH(1) by linarith
    moreover have "n < 2 ^ Suc b" using IH(2) by simp
    ultimately show ?thesis by (simp add: b)
  qed
qed

lemma load_array_words: "load_array e (concat (map (store32 e) ws)) = ws"
proof -
  have d: "take 4 (drop (4 * i) (concat (map (store32 e) ws))) = store32 e (ws ! i)" if "i < length ws" for i
    using that
  proof (induction ws arbitrary: i)
    case (Cons w ws)
    then show ?case by (cases i) (simp_all add: drop_append)
  qed simp
  have l: "length (concat (map (store32 e) ws)) = 4 * length ws" by (induction ws) simp_all
  show ?thesis by (rule nth_equalityI) (simp_all add: load_array_def l d load_store32)
qed

lemma concat_store32_length [simp]: "length (concat (map (store32 e) ws)) = 4 * length ws"
  by (induction ws) simp_all

text \<open>The key in the words that are written.\<close>

definition dumped_key :: "(int \<Rightarrow> int \<Rightarrow> int) \<Rightarrow> int \<Rightarrow> rsa_key" where
  "dumped_key BN_mod_inverse N = (let nwords = BN_num_bits N div 32 in
     \<lparr>rsa_len = of_nat nwords, n0inv = of_int (2 ^ 32 - BN_mod_inverse N (2 ^ 32)), rsa_n = out_words nwords N,
      rsa_rr = out_words nwords ((2 ^ BN_num_bits N * 2 ^ BN_num_bits N) mod N), rsa_algorithm = 12\<rparr>)"

text \<open>What is relied on: the inverse is one, and the modulus is odd and of one of the four lengths.\<close>

definition dumpable :: "(int \<Rightarrow> int \<Rightarrow> int) \<Rightarrow> int \<Rightarrow> bool" where
  "dumpable BN_mod_inverse N \<longleftrightarrow> 0 < N \<and> check N \<and> (N * BN_mod_inverse N (2 ^ 32)) mod 2 ^ 32 = 1"

lemma of_int_low: "of_int (x mod 2 ^ 32) = (of_int x :: u32)"
  by (rule word_uint_eqI) (simp add: unsigned_of_int take_bit_eq_mod)

lemma dumped_key_good:
  assumes "dumpable iv N"
  shows "good_key (dumped_key iv N)" and "val (rsa_n (dumped_key iv N)) = N"
    and "4 * unat (rsa_len (dumped_key iv N)) \<in> {128, 256, 512, 1024}" and "32 * unat (rsa_len (dumped_key iv N)) = BN_num_bits N"
proof -
  have N: "0 < N" "(N * iv N (2 ^ 32)) mod 2 ^ 32 = 1" "BN_num_bits N \<in> {1024, 2048, 4096, 8192}"
    using assms by (auto simp: dumpable_def check_def)
  define k where "k = BN_num_bits N div 32"
  define key where "key = dumped_key iv N"
  have k: "BN_num_bits N = 32 * k" "k \<in> {32, 64, 128, 256}" using N(3) by (auto simp: k_def)
  have b: "2 ^ (32 * k - 1) \<le> N" "N < 2 ^ (32 * k)" using BN_num_bits_bounds[OF N(1)] k(1) by simp_all
  have key: "rsa_len key = of_nat k" "n0inv key = of_int (2 ^ 32 - iv N (2 ^ 32))" "rsa_n key = out_words k N"
    "rsa_rr key = out_words k ((2 ^ (32 * k) * 2 ^ (32 * k)) mod N)"
    by (simp_all add: key_def dumped_key_def Let_def k_def[symmetric] k(1))
  have l: "unat (rsa_len key) = k" unfolding key(1) using k(2) by auto
  then show "4 * unat (rsa_len (dumped_key iv N)) \<in> {128, 256, 512, 1024}"
    "32 * unat (rsa_len (dumped_key iv N)) = BN_num_bits N" using k by (auto simp: key_def[symmetric])
  have v: "val (rsa_n key) = N" using val_out_words[of N k] N(1) b(2) by (simp add: key(3))
  then show "val (rsa_n (dumped_key iv N)) = N" by (simp only: key_def)
  have R: "mont_R key = 2 ^ (32 * k)" by (simp add: mont_R_def l)
  have rr: "val (rsa_rr key) = (2 ^ (32 * k) * 2 ^ (32 * k)) mod N"
  proof -
    have "0 \<le> (2 ^ (32 * k) * 2 ^ (32 * k)) mod N" "(2 ^ (32 * k) * 2 ^ (32 * k)) mod N < 2 ^ (32 * k)"
      using pos_mod_sign[OF N(1)] order.strict_trans[OF pos_mod_bound[OF N(1)] b(2)] by blast+
    then show ?thesis by (simp only: key(4) val_out_words mod_pos_pos_trivial)
  qed
  have "rsa_n key ! 0 = of_int (N mod 2 ^ 32)" using k(2) by (cases k) (auto simp: key(3))
  then have "rsa_n key ! 0 = of_int N" by (simp only: of_int_low)
  moreover have "of_int N * of_int (iv N (2 ^ 32)) = (1 :: u32)"
    using of_int_low[of "N * iv N (2 ^ 32)"] N(2) by simp
  moreover have "n0inv key = - of_int (iv N (2 ^ 32))"
  proof -
    have "(of_int (2 ^ 32) :: u32) = 0" using of_int_low[of "2 ^ 32"] by simp
    then show ?thesis by (simp only: key(2) of_int_diff diff_0)
  qed
  ultimately have "rsa_n key ! 0 * n0inv key = -1" by simp
  then have m: "mont_key key" using k(2) l by (auto simp: mont_key_def key(3,4))
  have "eqm N ((2 ^ (32 * k) * 2 ^ (32 * k)) mod N) (2 ^ (32 * k) * 2 ^ (32 * k))"
    by (simp add: eqm_def mod_eq_dvd_iff[symmetric])
  moreover have "(2 :: int) ^ (32 * k) = 2 * 2 ^ (32 * k - 1)" using k(2) by (cases "32 * k") auto
  ultimately show "good_key (dumped_key iv N)"
    using m b(1) unfolding key_def[symmetric] good_key_def v rr R power2_eq_square by simp
qed

lemma output_parsed:
  fixes e :: endian and iv :: "int \<Rightarrow> int \<Rightarrow> int" and N :: int and writes :: nat
  assumes "dumpable iv N" and w: "2 * (BN_num_bits N div 32) + 2 \<le> writes"
  defines "blob \<equiv> dump_key e iv writes N"
  shows "RSAPublicKeyFromBuf e junk blob (of_nat (length blob)) = Some (Some (dumped_key iv N))"
    and "length blob = 8 + BN_num_bits N div 4"
proof -
  define k where "k = BN_num_bits N div 32"
  have N: "check N" "BN_num_bits N \<in> {1024, 2048, 4096, 8192}" using assms(1) by (auto simp: dumpable_def check_def)
  have k: "BN_num_bits N = 32 * k" "k \<in> {32, 64, 128, 256}" using N(2) by (auto simp: k_def)
  define RR where "RR = (2 ^ BN_num_bits N * 2 ^ BN_num_bits N) mod N"
  have blob: "blob = store32 e (of_nat k) @ store32 e (of_int (2 ^ 32 - iv N (2 ^ 32))) @
      concat (map (store32 e) (out_words k N)) @ concat (map (store32 e) (out_words k RR))"
    using w by (simp add: blob_def dump_key_def N(1) output_key_def Let_def k_def[symmetric] RR_def[symmetric] numeral_2_eq_2)
  have len: "length blob = 8 + 8 * k" by (simp add: blob)
  then show "length blob = 8 + BN_num_bits N div 4" by (simp add: k(1))
  have u: "unat (of_nat (length blob) :: u64) = length blob" using len k(2) by (auto simp: unat_of_nat64)
  have w1: "load32 e (take 4 blob) = of_nat k" by (simp add: blob load_store32)
  have w2: "load32 e (take 4 (drop 4 blob)) = of_int (2 ^ 32 - iv N (2 ^ 32))" by (simp add: blob load_store32)
  have uk: "unat (of_nat k :: u32) = k" using k(2) by auto
  have a: "take (4 * k) (drop 8 blob) = concat (map (store32 e) (out_words k N))"
    "take (4 * k) (drop (8 + 4 * k) blob) = concat (map (store32 e) (out_words k RR))" by (simp_all add: blob)
  have "unat (of_nat (length blob) :: u64) \<le> length blob" by (simp add: u)
  from RSAPublicKeyFromBuf_ok[OF this, of e junk] show
    "RSAPublicKeyFromBuf e junk blob (of_nat (length blob)) = Some (Some (dumped_key iv N))"
    using k(2) unfolding u w1 w2 uk a len load_array_words
    by (auto simp: dumped_key_def Let_def k_def[symmetric] RR_def[symmetric])
qed

subsection \<open>Claim: dumped keys\<close>

lemma BN_num_bits_eq: "2 ^ k \<le> n \<Longrightarrow> n < 2 ^ Suc k \<Longrightarrow> BN_num_bits n = Suc k"
proof -
  assume n: "2 ^ k \<le> n" "n < 2 ^ Suc k"
  then have "0 < n" by (meson less_le_trans zero_less_numeral zero_less_power)
  note b = BN_num_bits_bounds[OF this]
  have "(2 :: int) ^ k < 2 ^ BN_num_bits n" "(2 :: int) ^ (BN_num_bits n - 1) < 2 ^ Suc k" using n b by linarith+
  then have "k < BN_num_bits n" "BN_num_bits n - 1 < Suc k"
    by (simp_all only: power_strict_increasing_iff[of "2 :: int"] one_less_numeral_iff semiring_norm)
  then show ?thesis by simp
qed

text \<open>C23: What \<open>dumpRSAPublicKey\<close> writes for an odd modulus of 1024, 2048, 4096 or 8192 bits, when every write succeeds,
is parsed by \<open>RSAPublicKeyFromBuf\<close> as a key with this modulus for which the Montgomery arithmetic is right: its
\<open>n0inv\<close> and \<open>rr\<close> are what the verifier takes them for.\<close>

theorem dump_key_correct:
  assumes "dumpable iv N" and "2 * (BN_num_bits N div 32) + 2 \<le> writes"
  shows "\<exists>key. RSAPublicKeyFromBuf e junk (dump_key e iv writes N) (of_nat (length (dump_key e iv writes N))) = Some (Some key) \<and>
    good_key key \<and> val (rsa_n key) = N \<and> 32 * unat (rsa_len key) = BN_num_bits N"
  using output_parsed(1)[OF assms] dumped_key_good(1,2,4)[OF assms(1)] by blast

theorem dump_key_correct_witness:
  "\<exists>key. RSAPublicKeyFromBuf Little 0 (dump_key Little (\<lambda>x y. 2 ^ 32 - 1) 100 (2 ^ 1024 - 1))
      (of_nat (length (dump_key Little (\<lambda>x y. 2 ^ 32 - 1) 100 (2 ^ 1024 - 1)))) = Some (Some key) \<and> val (rsa_n key) = 2 ^ 1024 - 1"
proof -
  have b: "BN_num_bits (2 ^ 1024 - 1) = 1024" using BN_num_bits_eq[of 1023 "2 ^ 1024 - 1"] by simp
  have "(2 ^ 1024 - 1) * (2 ^ 32 - 1) mod 2 ^ 32 = (1 :: int)" by simp
  with b have "dumpable (\<lambda>x y. 2 ^ 32 - 1) (2 ^ 1024 - 1)" by (simp only: dumpable_def check_def) simp
  from dump_key_correct[OF this, of 100 Little 0] show ?thesis unfolding b by auto
qed

end
