(* ===== verification/RsaPair.thy ===== *)
theory RsaPair
  imports DumpKey
begin

text \<open>
  A pair of RSA keys on which everything the verifying and the signing side rely on can be shown: its
  modulus is a product of small primes, so that Fermat's little theorem, proved here for primes that
  are checked by trial division, gives that signatures verify. It is no secure key, but its arithmetic
  is that of any other; the hypotheses on keys are shown to hold for it.
\<close>

subsection \<open>Fermat's little theorem\<close>

definition is_prime :: "nat \<Rightarrow> bool" where
  "is_prime p \<longleftrightarrow> 1 < p \<and> (\<forall>q. 1 < q \<and> q < p \<longrightarrow> \<not> q dvd p)"

lemma prime_coprime: "is_prime p \<Longrightarrow> \<not> p dvd a \<Longrightarrow> coprime p a"
proof -
  assume p: "is_prime p" and a: "\<not> p dvd a"
  have g: "gcd p a dvd p" "gcd p a dvd a" "0 < gcd p a" using p by (auto simp: is_prime_def gcd_pos_nat)
  have n: "gcd p a \<noteq> p" using g(2) a by metis
  have "gcd p a \<le> p" using g(1) p by (auto simp: is_prime_def intro: dvd_imp_le)
  then have "gcd p a < p" using n by simp
  then have "\<not> 1 < gcd p a" using p g(1) unfolding is_prime_def by blast
  with g(3) have "gcd p a = 1" by linarith
  then show "coprime p a" by (simp add: coprime_iff_gcd_eq_1)
qed

lemma prime_dvd_binomial: "is_prime p \<Longrightarrow> 0 < k \<Longrightarrow> k < p \<Longrightarrow> p dvd (p choose k)"
proof -
  assume p: "is_prime p" and k: "0 < k" "k < p"
  have "p dvd k * (p choose k)" using times_binomial_minus1_eq[OF k(1), of p] by simp
  moreover have "\<not> p dvd k" using k by (auto dest: dvd_imp_le)
  then have "coprime p k" by (rule prime_coprime[OF p])
  ultimately show ?thesis by (simp add: coprime_dvd_mult_right_iff)
qed

lemma fermat: "is_prime p \<Longrightarrow> x ^ p mod p = x mod p"
proof (induction x)
  case 0
  then show ?case by (auto simp: is_prime_def zero_power)
next
  case (Suc x)
  have p: "1 < p" using Suc.prems by (simp add: is_prime_def)
  have "(x + 1) ^ p = (\<Sum>k\<le>p. (p choose k) * x ^ k)" using binomial_ring[of x 1 p] by simp
  also have "\<dots> = (\<Sum>k\<in>insert 0 (insert p {0<..<p}). (p choose k) * x ^ k)"
    by (rule sum.cong) (use p in \<open>auto simp: set_eq_iff\<close>)
  also have "\<dots> = 1 + (x ^ p + (\<Sum>k\<in>{0<..<p}. (p choose k) * x ^ k))" using p by simp
  finally have e: "(x + 1) ^ p = 1 + (x ^ p + (\<Sum>k\<in>{0<..<p}. (p choose k) * x ^ k))" .
  have "p dvd (\<Sum>k\<in>{0<..<p}. (p choose k) * x ^ k)"
    by (rule dvd_sum) (use prime_dvd_binomial[OF Suc.prems] in auto)
  then obtain s where "(\<Sum>k\<in>{0<..<p}. (p choose k) * x ^ k) = p * s" by (rule dvdE)
  then have "(x + 1) ^ p mod p = (1 + x ^ p + p * s) mod p" unfolding e by (simp only: add.assoc)
  also have "\<dots> = (1 + x ^ p) mod p" by (rule mod_mult_self2)
  also have "\<dots> = (1 + x ^ p mod p) mod p" by (rule mod_add_right_eq[symmetric])
  also have "\<dots> = (1 + x) mod p" unfolding Suc.IH[OF Suc.prems] by (rule mod_add_right_eq)
  finally show ?case by simp
qed

lemma fermat_steps: "is_prime p \<Longrightarrow> x ^ (1 + (p - 1) * j) mod p = x mod p"
proof (induction j)
  case (Suc j)
  have "1 \<le> p" using Suc.prems by (simp add: is_prime_def)
  then have "1 + (p - 1) * Suc j = p + (p - 1) * j" by simp
  then have "x ^ (1 + (p - 1) * Suc j) = x ^ p * x ^ ((p - 1) * j)" by (simp only: power_add)
  also have "\<dots> mod p = x * x ^ ((p - 1) * j) mod p" using fermat[OF Suc.prems, of x] by (metis mod_mult_left_eq)
  finally show ?case using Suc by simp
qed simp

lemma primes_mod:
  assumes "\<forall>p \<in> set ps. is_prime p \<and> (p - 1) dvd m" and "distinct ps"
  shows "x ^ (1 + m) mod prod_list ps = x mod prod_list ps"
proof -
  have c: "coprime p q" if "is_prime p" "is_prime q" "p \<noteq> q" for p q
  proof (rule prime_coprime[OF that(1)])
    show "\<not> p dvd q" using that by (auto simp: is_prime_def dest: dvd_imp_le dest!: spec[of _ p])
  qed
  define y where "y = int x ^ (1 + m) - int x"
  have "int (prod_list ps) dvd y" using assms
  proof (induction ps)
    case (Cons p ps)
    then obtain j where "m = (p - 1) * j" by auto
    then have "int x ^ (1 + m) mod int p = int x mod int p"
      using fermat_steps[of p x j] Cons.prems by (metis list.set_intros(1) of_nat_mod of_nat_power)
    then have "int p dvd y" by (simp add: y_def mod_eq_dvd_iff)
    moreover have "int (prod_list ps) dvd y" using Cons by simp
    moreover have "coprime p (prod_list ps)" by (rule prod_list_coprime_right) (use Cons.prems c in auto)
    ultimately show ?case by (simp add: divides_mult)
  qed simp
  then have "int x ^ (1 + m) mod int (prod_list ps) = int x mod int (prod_list ps)" by (simp add: y_def mod_eq_dvd_iff)
  then show ?thesis by (metis of_nat_eq_iff of_nat_mod of_nat_power)
qed

subsection \<open>The pair of keys\<close>

lemma small_prime:
  assumes "1 < p" and "p < 3481" and "\<forall>q \<in> set [2, 3, 5, 7, 11, 13, 17, 19, 23, 29, 31, 37, 41, 43, 47, 53]. q < p \<longrightarrow> p mod q \<noteq> 0"
  shows "is_prime p"
proof -
  have small: "\<exists>r \<in> set [2, 3, 5, 7, 11, 13, 17, 19, 23, 29, 31, 37, 41, 43, 47, 53]. q mod r = 0" if "1 < q" "q < 59" for q :: nat
  proof -
    have "list_all (\<lambda>q. list_ex (\<lambda>r. q mod r = 0) [2, 3, 5, 7, 11, 13, 17, 19, 23, 29, 31, 37, 41, 43, 47, 53]) [2..<59]"
      by (simp add: upt_rec)
    moreover have "q \<in> set [2..<59]" using that unfolding set_upt atLeastLessThan_iff by simp
    ultimately show ?thesis unfolding list_all_iff list_ex_iff by blast
  qed
  have no: "\<not> q dvd p" if q: "1 < q" "q < p" "q < 59" for q
  proof
    assume d: "q dvd p"
    obtain r where "q mod r = 0" and r3: "r \<in> set [2, 3, 5, 7, 11, 13, 17, 19, 23, 29, 31, 37, 41, 43, 47, 53]"
      by (rule bexE[OF small[OF q(1,3)]])
    then have r: "r dvd q" by (simp only: mod_eq_0_iff_dvd)
    have "r \<le> q" using r q(1) by (auto intro: dvd_imp_le)
    then have "p mod r \<noteq> 0" using assms(3) r3 q(2) by (meson le_less_trans)
    then show False using dvd_trans[OF r d] by (simp add: mod_eq_0_iff_dvd)
  qed
  have "\<not> q dvd p" if q: "1 < q" "q < p" for q
  proof
    assume d: "q dvd p"
    then obtain r where r: "p = q * r" by blast
    then have r1: "1 < r" "r < p" using q by (cases "r = 0"; cases "r = 1"; simp)+
    have "q < 59 \<or> r < 59"
    proof (rule ccontr)
      assume "\<not> (q < 59 \<or> r < 59)"
      then have "59 * 59 \<le> q * r" by (intro mult_le_mono) simp_all
      then show False using assms(2) r by simp
    qed
    then show False using no[OF q] no[OF r1] d r by auto
  qed
  with assms(1) show ?thesis by (simp add: is_prime_def)
qed

text \<open>The primes below 3000 whose predecessors divide \<open>15437822400\<close>, but one, in four groups.\<close>

definition primes1 :: "nat list" where
  "primes1 =
     [23, 29, 31, 37, 41, 43, 53, 61, 67, 71, 73, 79, 89, 97, 101, 103, 109, 113, 127, 131, 137, 151, 157, 163,
     181, 193, 197, 199, 211, 239, 241, 271, 281, 307, 313, 331, 337, 353]"

definition primes2 :: "nat list" where
  "primes2 =
     [379, 397, 401, 409, 421, 433, 443, 449, 463, 491, 521, 541, 547, 577, 601, 613, 617, 631, 661, 673, 701,
     757, 811, 859, 881, 883, 911, 919]"

definition primes3 :: "nat list" where
  "primes3 =
     [937, 953, 991, 1009, 1021, 1051, 1093, 1123, 1171, 1201, 1249, 1297, 1301, 1321, 1327, 1361, 1429, 1471,
     1531, 1601, 1621, 1667, 1783, 1801, 1871]"

definition primes4 :: "nat list" where
  "primes4 =
     [1873, 1951, 2003, 2017, 2081, 2113, 2143, 2161, 2269, 2311, 2341, 2377, 2381, 2521, 2549, 2551, 2593, 2731,
     2801, 2857, 2861, 2971]"

definition smooth_primes :: "nat list" where
  "smooth_primes = primes1 @ primes2 @ primes3 @ primes4"

definition smooth_modulus :: nat where
  "smooth_modulus = prod_list smooth_primes"

definition smooth_exponent :: nat where
  "smooth_exponent = 12230452673"

definition prime_check :: "nat list \<Rightarrow> bool" where
  "prime_check ps \<longleftrightarrow> list_all (\<lambda>p. 1 < p \<and> p < 3481 \<and> 15437822400 mod (p - 1) = 0 \<and>
     list_all (\<lambda>q. q < p \<longrightarrow> p mod q \<noteq> 0) [2, 3, 5, 7, 11, 13, 17, 19, 23, 29, 31, 37, 41, 43, 47, 53]) ps"

lemma primes1_check: "prime_check primes1"
  unfolding prime_check_def primes1_def by simp

lemma primes2_check: "prime_check primes2"
  unfolding prime_check_def primes2_def by simp

lemma primes3_check: "prime_check primes3"
  unfolding prime_check_def primes3_def by simp

lemma primes4_check: "prime_check primes4"
  unfolding prime_check_def primes4_def by simp

lemma smooth_primes_prime: "\<forall>p \<in> set smooth_primes. is_prime p \<and> (p - 1) dvd 15437822400"
proof -
  have c: "prime_check smooth_primes"
    using primes1_check primes2_check primes3_check primes4_check by (auto simp: prime_check_def smooth_primes_def)
  show ?thesis
  proof
    fix p assume "p \<in> set smooth_primes"
    with c have p: "1 < p" "p < 3481" "15437822400 mod (p - 1) = 0"
      "\<forall>q \<in> set [2, 3, 5, 7, 11, 13, 17, 19, 23, 29, 31, 37, 41, 43, 47, 53]. q < p \<longrightarrow> p mod q \<noteq> 0"
      unfolding prime_check_def list_all_iff by blast+
    from small_prime[OF p(1,2,4)] p(3) show "is_prime p \<and> (p - 1) dvd 15437822400" by (simp only: mod_eq_0_iff_dvd simp_thms)
  qed
qed

lemma smooth_exponent_inverse: "smooth_exponent * 65537 = 1 + 15437822400 * 51921"
  by (simp add: smooth_exponent_def)

lemma smooth_distinct: "distinct smooth_primes"
proof -
  have "sorted_wrt (<) smooth_primes"
    unfolding smooth_primes_def primes1_def primes2_def primes3_def primes4_def
    by (simp add: sorted_wrt1 sorted_wrt2[OF transp_on_less] del: sorted_wrt.simps)
  then show ?thesis by (simp add: strict_sorted_iff)
qed

lemma smooth_rsa: "x < smooth_modulus \<Longrightarrow> (x ^ smooth_exponent mod smooth_modulus) ^ 65537 mod smooth_modulus = x"
proof -
  assume x: "x < smooth_modulus"
  have "(x ^ smooth_exponent mod smooth_modulus) ^ 65537 mod smooth_modulus = x ^ (smooth_exponent * 65537) mod smooth_modulus"
    by (simp only: power_mod power_mult)
  also have "\<dots> = x mod smooth_modulus"
    unfolding smooth_exponent_inverse smooth_modulus_def
    by (rule primes_mod[OF _ smooth_distinct]) (use smooth_primes_prime in \<open>blast intro: dvd_mult2\<close>)
  finally show ?thesis using x by simp
qed

lemma product1: "int (prod_list primes1) = 5589319675537984679424087619052015494523857799058051540967974653157322615388863"
  unfolding primes1_def by simp

lemma product2: "int (prod_list primes2) = 277998515734105466871829283766262019428170384784976287155883348443013753933247"
  unfolding primes2_def by simp

lemma product3: "int (prod_list primes3) = 695674444746197179907558562733375914697420359786766089384080866535782683442129"
  unfolding primes3_def by simp

lemma product4: "int (prod_list primes4) = 164921037083121409144101012762443029128282150330892096140464787214470585559"
  unfolding primes4_def by simp

lemma smooth_modulus_eq: "int smooth_modulus = int (prod_list primes1) * int (prod_list primes2) * int (prod_list primes3) * int (prod_list primes4)"
  by (simp add: smooth_modulus_def smooth_primes_def mult.assoc)

lemmas products = product1 product2 product3 product4

lemma smooth_modulus_bounds: "2 ^ 1023 \<le> int smooth_modulus" "int smooth_modulus < 2 ^ 1024"
proof -
  have l: "3239365456 * 2 ^ 230 \<le> int (prod_list primes1)" "2577884511 * 2 ^ 226 \<le> int (prod_list primes2)"
    "3225499911 * 2 ^ 227 \<le> int (prod_list primes3)" "3132037760 * 2 ^ 215 \<le> int (prod_list primes4)" unfolding products by simp_all
  have u: "int (prod_list primes1) \<le> 3239365457 * 2 ^ 230" "int (prod_list primes2) \<le> 2577884512 * 2 ^ 226"
    "int (prod_list primes3) \<le> 3225499912 * 2 ^ 227" "int (prod_list primes4) \<le> 3132037761 * 2 ^ 215" unfolding products by simp_all
  have "(2 :: int) ^ 1023 = 2 ^ 125 * 2 ^ 898" by (simp only: power_add[symmetric]) simp
  also have "\<dots> \<le> (3239365456 * 2577884511 * 3225499911 * 3132037760) * 2 ^ 898" by (rule mult_right_mono) simp_all
  also have "\<dots> = (3239365456 * 2 ^ 230) * (2577884511 * 2 ^ 226) * (3225499911 * 2 ^ 227) * (3132037760 * 2 ^ 215)" by simp
  also have "\<dots> \<le> int smooth_modulus" unfolding smooth_modulus_eq by (intro mult_mono l) simp_all
  finally show "2 ^ 1023 \<le> int smooth_modulus" .
  have "int smooth_modulus \<le> (3239365457 * 2 ^ 230) * (2577884512 * 2 ^ 226) * (3225499912 * 2 ^ 227) * (3132037761 * 2 ^ 215)"
    unfolding smooth_modulus_eq by (intro mult_mono u) simp_all
  also have "\<dots> = (3239365457 * 2577884512 * 3225499912 * 3132037761) * 2 ^ 898" by simp
  also have "\<dots> < 2 ^ 126 * 2 ^ 898" by (rule mult_strict_right_mono) simp_all
  also have "\<dots> = 2 ^ 1024" by (simp only: power_add[symmetric]) simp
  finally show "int smooth_modulus < 2 ^ 1024" .
qed

text \<open>The inverse of the modulus for the words of the key.\<close>

definition smooth_inverse :: "int \<Rightarrow> int \<Rightarrow> int" where
  "smooth_inverse n m = 618614967"

lemma smooth_bits: "BN_num_bits (int smooth_modulus) = 1024"
  using BN_num_bits_eq[of 1023 "int smooth_modulus"] smooth_modulus_bounds by simp

lemma smooth_dumpable: "dumpable smooth_inverse (int smooth_modulus)"
proof -
  have "take_bit 32 (int (prod_list primes1)) = 4123491007" "take_bit 32 (int (prod_list primes2)) = 1393626559"
    "take_bit 32 (int (prod_list primes3)) = 4030921681" "take_bit 32 (int (prod_list primes4)) = 3780746455" unfolding products by simp_all
  then have "int smooth_modulus * 618614967 mod 2 ^ 32 = 4123491007 * 1393626559 * 4030921681 * 3780746455 * 618614967 mod 2 ^ 32"
    unfolding smooth_modulus_eq take_bit_eq_mod by (intro mod_mult_cong) simp_all
  moreover have "0 < int smooth_modulus" using smooth_modulus_bounds(1) by (rule less_le_trans[rotated]) simp
  ultimately show ?thesis by (simp add: dumpable_def check_def smooth_bits smooth_inverse_def)
qed

subsection \<open>What is signed is verified\<close>

lemma be_bytes_Suc: "be_bytes (Suc n) v = of_nat (v div 256 ^ n) # be_bytes n v"
  by (simp add: be_bytes_def)

lemma be_val_bytes: "be_val (be_bytes n v) = int (v mod 256 ^ n)"
proof (induction n)
  case (Suc n)
  have "uint (of_nat (v div 256 ^ n) :: u8) = int (v div 256 ^ n mod 256)"
    by (simp add: unsigned_of_nat take_bit_eq_mod zmod_int)
  moreover have "v mod (256 ^ n * 256) = 256 ^ n * (v div 256 ^ n mod 256) + v mod 256 ^ n" by (rule mod_mult2_eq)
  moreover have "(2 :: int) ^ (8 * n) = 256 ^ n" by (simp add: power_mult)
  ultimately show ?case using Suc by (simp add: be_bytes_Suc mult.commute)
qed (simp add: be_bytes_def)

text \<open>
  OpenSSL with this key: its private encryption pads and raises to the private exponent, its encodings
  of the key do not matter.
\<close>

definition smooth_ssl :: "unit openssl" where
  "smooth_ssl = \<lparr>RSA_private_encrypt = (\<lambda>k m. if length m + 11 \<le> 128
       then Some (be_bytes 128 (nat (be_val (emsa_pkcs1 128 m [])) ^ smooth_exponent mod smooth_modulus)) else None),
     PEM_read_RSAPrivateKey = (\<lambda>f. Some ()), d2i_RSAPrivateKey = (\<lambda>f. Some ()), i2d_RSAPrivateKey = (\<lambda>k. [0])\<rparr>"

definition smooth_key :: rsa_key where
  "smooth_key = (dumped_key smooth_inverse (int smooth_modulus))\<lparr>rsa_algorithm := 0\<rparr>"

lemma smooth_key_facts: "good_key smooth_key" "val (rsa_n smooth_key) = int smooth_modulus" "unat (rsa_len smooth_key) = 32"
  using dumped_key_good[OF smooth_dumpable] smooth_bits
  by (simp_all add: smooth_key_def good_key_def mont_key_def mont_R_def)

lemma smooth_key_pair: "key_pair smooth_ssl () smooth_key 128"
  unfolding key_pair_def
proof (intro allI impI)
  fix m :: "u8 list" assume m: "length m + 11 \<le> 128"
  define x where "x = nat (be_val (emsa_pkcs1 128 m []))"
  define ys where "ys = 1 # replicate (125 - length m) 0xff @ [0] @ m"
  have e: "emsa_pkcs1 128 m [] = 0 # ys" "length ys = 127" using m by (simp_all add: emsa_pkcs1_def ys_def)
  have b: "0 \<le> be_val ys" "be_val ys < 2 ^ (8 * 127)" using be_val_bounds[of ys] e(2) by simp_all
  have x: "int x = be_val (emsa_pkcs1 128 m [])" using b(1) by (simp add: x_def e(1))
  have "int x < 2 ^ 1023" using b(2) by (simp add: x e(1))
  then have "int x < int smooth_modulus" using smooth_modulus_bounds(1) by (rule less_le_trans)
  then have xm: "x < smooth_modulus" by simp
  define s where "s = x ^ smooth_exponent mod smooth_modulus"
  have "smooth_modulus < 256 ^ 128"
  proof -
    have "int smooth_modulus < int (256 ^ 128)" using smooth_modulus_bounds(2) by simp
    then show ?thesis by (simp only: of_nat_less_iff)
  qed
  moreover have "s < smooth_modulus" unfolding s_def by (rule mod_less_divisor) (use xm in linarith)
  ultimately have "s < 256 ^ 128" by linarith
  then have "be_val (be_bytes 128 s) = int s" by (simp add: be_val_bytes)
  then have "rsa_public smooth_key (be_bytes 128 s) = int (s ^ 65537 mod smooth_modulus)"
    by (simp only: rsa_public_def smooth_key_facts(2) of_nat_power of_nat_mod)
  also have "s ^ 65537 mod smooth_modulus = x" unfolding s_def by (rule smooth_rsa[OF xm])
  finally have "rsa_public smooth_key (be_bytes 128 s) = be_val (emsa_pkcs1 128 m [])" unfolding x .
  moreover have "RSA_private_encrypt smooth_ssl () m = Some (be_bytes 128 s)" using m by (simp add: smooth_ssl_def s_def x_def)
  ultimately show "\<exists>s. RSA_private_encrypt smooth_ssl () m = Some s \<and> length s = 128 \<and>
      rsa_public smooth_key s = be_val (emsa_pkcs1 128 m [])" by auto
qed

lemma smooth_signing_pair: "signing_pair smooth_ssl \<lparr>rsa_private_key = (), private_algorithm = 0\<rparr> smooth_key"
proof -
  have "rsa_algorithm smooth_key = 0" by (simp add: smooth_key_def)
  then show ?thesis using smooth_key_pair smooth_key_facts
    by (simp add: signing_pair_def Let_def kNumAlgorithms_def siglen_map_def)
qed

text \<open>The public key as a file.\<close>

definition smooth_blob :: "endian \<Rightarrow> u8 list" where
  "smooth_blob e = dump_key e smooth_inverse 66 (int smooth_modulus)"

definition smooth_pub :: "endian \<Rightarrow> u8 list" where
  "smooth_pub e = key_fields e 32 264 0 1 @ smooth_blob e"

lemma smooth_blob_length [simp]: "length (smooth_blob e) = 264"
  using output_parsed(2)[OF smooth_dumpable, where writes = 66 and e = e] by (simp add: smooth_blob_def smooth_bits)

lemma smooth_pub_read: "read_public_key e (smooth_pub e) 0 =
    Some \<lparr>key_at = 0, key_offset = 32, key_size = 264, algorithm = 0, key_version = 1\<rparr>"
  by (simp add: smooth_pub_def read_struct_fields)

lemma smooth_pub_key: "key_data e (smooth_pub e) \<lparr>key_at = 0, key_offset = 32, key_size = 264, algorithm = 0, key_version = 1\<rparr>
    (smooth_blob e)"
proof -
  have "rd64 e (smooth_pub e) 0 = Some 32" "rd64 e (smooth_pub e) 8 = Some 264" "32 \<le> length (smooth_pub e)"
    by (simp_all add: smooth_pub_def field_ops fields)
  then have "load64 e (take 8 (smooth_pub e)) = 32" "load64 e (take 8 (drop 8 (smooth_pub e))) = 264"
    by (simp_all add: vboot_facts)
  then have "key_region e (smooth_pub e)" by (simp add: key_region_def smooth_pub_def)
  then show ?thesis by (simp add: key_data_def smooth_pub_read len_fits_def) (simp add: smooth_pub_def)
qed

lemma smooth_pub_rsa: "PublicKeyToRSA e junk (smooth_pub e) = Some (Some smooth_key)"
proof -
  have "RSAPublicKeyFromBuf e junk (smooth_blob e) 264 = Some (Some (dumped_key smooth_inverse (int smooth_modulus)))"
    using output_parsed(1)[OF smooth_dumpable, where writes = 66 and junk = junk and e = e] smooth_blob_length[of e] by (simp add: smooth_blob_def smooth_bits)
  then show ?thesis
    unfolding PublicKeyToRSA_def smooth_pub_read bind.bind_lunit
    by (simp add: kNumAlgorithms_def RSAProcessedKeySize_def siglen_map_def
      GetPublicKeyData_def smooth_pub_def smooth_key_def)
qed

end
