(* ===== verification/VbTools.thy ===== *)
theory VbTools
  imports FonVerify RsaPair
begin

text \<open>
  The tools that make firmware images and keys, \<open>vbutil_firmware.c\<close>, \<open>vbutil_keyblock.c\<close> and
  \<open>vbutil_key.c\<close> of \<open>package/vboot_utils/src/utility\<close>: the functions their modes call, with the file
  system as the state. The options are parsed before; what is printed is left out.
\<close>

subsection \<open>Firmware images\<close>

text \<open>
  The key block file, the preamble and, unless only they are wanted, the firmware are written one after
  the other; an output that cannot be written is removed. When it is the firmware that cannot be written
  its buffer is released twice and the file closed twice, which is undefined. The flag is the return
  value 1.
\<close>

definition write_image :: "disk \<Rightarrow> string \<Rightarrow> u8 list \<Rightarrow> u8 list \<Rightarrow> u8 list \<Rightarrow> bool \<Rightarrow> (disk \<times> bool) option" where
  "write_image d outfile key_block preamble fv_data vblockonly =
     (if \<not> can_create d outfile then Some (d, True)
      else if \<not> has_room d outfile (length (key_block @ preamble)) then Some (d\<lparr>content := (content d)(outfile := None)\<rparr>, True)
      else if vblockonly then Some (d\<lparr>content := (content d)(outfile \<mapsto> key_block @ preamble)\<rparr>, False)
      else if \<not> has_room d outfile (length (key_block @ preamble @ fv_data)) then None
      else Some (d\<lparr>content := (content d)(outfile \<mapsto> key_block @ preamble @ fv_data)\<rparr>, False))"

definition sign_image :: "endian \<Rightarrow> u8 \<Rightarrow> 'k openssl \<Rightarrow> disk \<Rightarrow> string \<Rightarrow> u8 list \<Rightarrow> 'k private_key \<Rightarrow> u64 \<Rightarrow> u8 list \<Rightarrow> u8 list
    \<Rightarrow> u32 \<Rightarrow> bool \<Rightarrow> (disk \<times> bool) option" where
  "sign_image e junk ssl d outfile key_block signing_key version subkey fv_data preamble_flags vblockonly = do {
     body_sig \<leftarrow> CalculateSignature e junk ssl fv_data (of_nat (length fv_data)) signing_key;
     (case body_sig of
        None \<Rightarrow> Some (d, True)
      | Some body_sig \<Rightarrow> do {
          preamble \<leftarrow> CreateFirmwarePreamble e junk ssl version subkey body_sig signing_key preamble_flags;
          nbytes \<leftarrow> rd64 e preamble 0;
          preamble \<leftarrow> mem_read preamble 0 (unat nbytes);
          write_image d outfile key_block preamble fv_data vblockonly }) }"

definition Vblock :: "endian \<Rightarrow> u8 \<Rightarrow> 'k openssl \<Rightarrow> disk \<Rightarrow> string ptr \<Rightarrow> string ptr \<Rightarrow> string ptr \<Rightarrow> u64 \<Rightarrow> string ptr
    \<Rightarrow> string ptr \<Rightarrow> u32 \<Rightarrow> bool \<Rightarrow> (disk \<times> bool) option" where
  "Vblock e junk ssl d outfile keyblock_file signprivate version fv_file kernelkey_file preamble_flags vblockonly =
     (case (outfile, keyblock_file, signprivate, kernelkey_file, fv_file) of
        (Some outfile, Some keyblock_file, Some signprivate, Some kernelkey_file, Some fv_file) \<Rightarrow>
          (case ReadFile d keyblock_file of
             None \<Rightarrow> Some (d, True)
           | Some key_block \<Rightarrow> do {
               signing_key \<leftarrow> PrivateKeyRead ssl e d signprivate;
               (case signing_key of
                  None \<Rightarrow> Some (d, True)
                | Some signing_key \<Rightarrow> do {
                    subkey \<leftarrow> PublicKeyRead e d kernelkey_file;
                    (case subkey of
                       None \<Rightarrow> Some (d, True)
                     | Some subkey \<Rightarrow>
                         (case ReadFile d fv_file of
                            None \<Rightarrow> Some (d, True)
                          | Some fv_data \<Rightarrow> sign_image e junk ssl d outfile key_block signing_key version subkey fv_data
                              preamble_flags vblockonly)) }) })
      | _ \<Rightarrow> Some (d, True))"

subsection \<open>Key blocks\<close>

text \<open>The key that signs: none, one in a file of its own, one in a PEM file, or one an external program reads.\<close>

definition keyblock_Pack :: "endian \<Rightarrow> u8 \<Rightarrow> 'k openssl \<Rightarrow> signer \<Rightarrow> disk \<Rightarrow> string ptr \<Rightarrow> string ptr \<Rightarrow> string ptr \<Rightarrow> string ptr
    \<Rightarrow> u64 \<Rightarrow> u64 \<Rightarrow> string ptr \<Rightarrow> (disk \<times> bool) option" where
  "keyblock_Pack e junk ssl run d outfile datapubkey signprivate signprivate_pem pem_algorithm flags external_signer =
     (case (outfile, datapubkey) of
        (Some outfile, Some datapubkey) \<Rightarrow> do {
          kmem \<leftarrow> PublicKeyRead e d datapubkey;
          (case kmem of
             None \<Rightarrow> Some (d, True)
           | Some kmem \<Rightarrow> do {
               made \<leftarrow> (case signprivate_pem of
                 Some pem \<Rightarrow>
                   if kNumAlgorithms \<le> unat pem_algorithm then Some None
                   else (case external_signer of
                       Some signer \<Rightarrow> do {
                         blob \<leftarrow> KeyBlockCreate_external e junk run kmem (Some pem) pem_algorithm flags (Some signer);
                         Some (Some blob) }
                     | None \<Rightarrow> (case PrivateKeyReadPem ssl d pem pem_algorithm of
                           None \<Rightarrow> Some None
                         | Some key \<Rightarrow> do {
                             blob \<leftarrow> KeyBlockCreate e junk ssl kmem (Some key) flags; Some (Some (Some blob)) }))
               | None \<Rightarrow> (case signprivate of
                     Some f \<Rightarrow> do {
                       key \<leftarrow> PrivateKeyRead ssl e d f;
                       (case key of
                          None \<Rightarrow> Some None
                        | Some key \<Rightarrow> do {
                            blob \<leftarrow> KeyBlockCreate e junk ssl kmem (Some key) flags; Some (Some (Some blob)) }) }
                   | None \<Rightarrow> do { blob \<leftarrow> KeyBlockCreate e junk ssl kmem None flags; Some (Some (Some blob)) }));
               (case made of
                  None \<Rightarrow> Some (d, True)
                | Some blob \<Rightarrow> do { blob \<leftarrow> blob; KeyBlockWrite e d outfile blob }) }) }
      | _ \<Rightarrow> Some (d, True))"

definition keyblock_Unpack :: "endian \<Rightarrow> u32 \<Rightarrow> disk \<Rightarrow> string ptr \<Rightarrow> string ptr \<Rightarrow> string ptr \<Rightarrow> (disk \<times> bool) option" where
  "keyblock_Unpack e junk d infile datapubkey signpubkey =
     (case infile of
        None \<Rightarrow> Some (d, True)
      | Some infile \<Rightarrow> do {
          blob \<leftarrow> KeyBlockRead e junk d infile;
          (case blob of
             None \<Rightarrow> Some (d, True)
           | Some blob \<Rightarrow> do {
               kb \<leftarrow> read_key_block e blob;
               failed \<leftarrow> (case signpubkey of
                 Some f \<Rightarrow>
                   if sig_size (key_block_signature kb) = 0 then Some False
                   else do {
                     sign_key \<leftarrow> PublicKeyRead e d f;
                     (case sign_key of
                        None \<Rightarrow> Some True
                      | Some sign_key \<Rightarrow> do {
                          r \<leftarrow> KeyBlockVerify e junk blob (key_block_size kb) (Some sign_key) False;
                          Some (r \<noteq> VBOOT_SUCCESS) }) }
               | None \<Rightarrow> Some False);
               if failed then Some (d, True)
               else do {
                 _ \<leftarrow> PrintPubKeySha1Sum e (drop 80 blob);
                 (case datapubkey of
                    None \<Rightarrow> Some (d, False)
                  | Some f \<Rightarrow> PublicKeyWrite e (ucast junk) d f (drop 80 blob)) } }) })"

subsection \<open>Keys\<close>

definition key_Pack :: "endian \<Rightarrow> u8 \<Rightarrow> 'k openssl \<Rightarrow> disk \<Rightarrow> string ptr \<Rightarrow> string ptr \<Rightarrow> u64 \<Rightarrow> u64 \<Rightarrow> (disk \<times> bool) option" where
  "key_Pack e junk ssl d infile outfile alg version =
     (case (infile, outfile) of
        (Some infile, Some outfile) \<Rightarrow> do {
          pubkey \<leftarrow> PublicKeyReadKeyb e junk d infile alg version;
          (case pubkey of
             Some kmem \<Rightarrow> PublicKeyWrite e junk d outfile kmem
           | None \<Rightarrow> (case PrivateKeyReadPem ssl d infile alg of
                 Some key \<Rightarrow> PrivateKeyWrite ssl e d outfile key
               | None \<Rightarrow> Some (d, True))) }
      | _ \<Rightarrow> Some (d, True))"

definition key_Unpack :: "endian \<Rightarrow> u8 \<Rightarrow> 'k openssl \<Rightarrow> disk \<Rightarrow> string ptr \<Rightarrow> string ptr \<Rightarrow> (disk \<times> bool) option" where
  "key_Unpack e junk ssl d infile outfile =
     (case infile of
        None \<Rightarrow> Some (d, True)
      | Some infile \<Rightarrow> do {
          pubkey \<leftarrow> PublicKeyRead e d infile;
          (case pubkey of
             Some kmem \<Rightarrow> do {
               _ \<leftarrow> PrintPubKeySha1Sum e kmem;
               (case outfile of None \<Rightarrow> Some (d, False) | Some f \<Rightarrow> PublicKeyWrite e junk d f kmem) }
           | None \<Rightarrow> do {
               privkey \<leftarrow> PrivateKeyRead ssl e d infile;
               (case privkey of
                  Some key \<Rightarrow> (case outfile of None \<Rightarrow> Some (d, False) | Some f \<Rightarrow> PrivateKeyWrite ssl e d f key)
                | None \<Rightarrow> Some (d, True)) }) })"

subsection \<open>A data key in a key block\<close>

text \<open>What a verifier makes of a key depends on its algorithm, its size and its data only.\<close>

lemma PublicKeyToRSA_same:
  assumes k: "key_data e kmem k kd" and k': "read_public_key e mem 0 = Some k'"
    and same: "key_size k' = key_size k" "algorithm k' = algorithm k"
    and d: "mem_read mem (unat (key_offset k')) (length kd) = Some kd"
  shows "PublicKeyToRSA e junk mem = PublicKeyToRSA e junk kmem"
proof -
  note K = key_data_facts[OF k]
  have prefix: "\<exists>t. xs = kd @ t" if "take (length kd) xs = kd" for xs
    using that append_take_drop_id[of "length kd" xs] by metis
  have "key_at k' = 0" using k' by (auto simp: read_public_key_def split: Option.bind_splits)
  then have "take (length kd) (GetPublicKeyData mem k') = kd" using d by (auto simp: GetPublicKeyData_def mem_read_def split: if_splits)
  then obtain t' where t': "GetPublicKeyData mem k' = kd @ t'" using prefix by blast
  have "take (length kd) (GetPublicKeyData kmem k) = kd" using K(2,4) by (auto simp: mem_read_def split: if_splits)
  then obtain t where t: "GetPublicKeyData kmem k = kd @ t" using prefix by blast
  have l: "unat (key_size k) \<le> length kd" using K(2) by simp
  show ?thesis
    unfolding PublicKeyToRSA_def K(1) k' bind.bind_lunit same t t' RSAPublicKeyFromBuf_append[OF l] ..
qed

lemma created_block_key:
  assumes k: "key_data e kmem k kd" and g: "good_block kb nbytes sig" and n: "unat nbytes \<le> length mem"
    and kb: "read_key_block e mem = Some kb" "data_key kb = k\<lparr>key_at := 80, key_offset := 32\<rparr>" "mem_read mem 112 (length kd) = Some kd"
  shows "PublicKeyToRSA e junk (drop 80 mem) = PublicKeyToRSA e junk kmem"
proof -
  have i: "inside 80 32 (key_offset (data_key kb)) (key_size (data_key kb)) (data_size sig)" "unat (data_size sig) \<le> length mem"
    using g n unfolding good_block_def good_data_def word_le_nat_alt by auto
  note r = inside_key(2)[OF read_key_block_data_key[OF kb(1)] i]
  have "mem_read (drop 80 mem) 32 (length kd) = Some kd"
    using kb(3) i(1) n by (cases "length kd = 0") (auto simp: mem_read_drop mem_read_def split: if_splits)
  then show ?thesis by (intro PublicKeyToRSA_same[OF k r]) (simp_all add: kb(2))
qed

text \<open>An image made of a key block, a preamble and a firmware that go together.\<close>

lemma made_image:
  assumes root: "key_region e vmem" "PublicKeyToRSA e junk vmem = Some (Some root)" "signing_pair ssl rootkey root"
    and dkey: "key_data e dmem dk dd" "PublicKeyToRSA e junk dmem = Some (Some pub)" "signing_pair ssl key pub"
    and kkey: "key_data e kmem k kd"
    and kblob: "KeyBlockCreate e junk8 ssl dmem (Some rootkey) bflags = Some kblob"
    and fits: "len_fits (8192 + length dd + length kd + length fv)"
  obtains bsig pre kb p where "CalculateSignature e junk8 ssl fv (of_nat (length fv)) key = Some (Some bsig)"
    and "CreateFirmwarePreamble e junk8 ssl v kmem bsig key flags = Some pre"
    and "rd64 e pre 0 = Some (of_nat (length pre))" and "unat (of_nat (length pre) :: u64) = length pre"
    and "len_fits (length (kblob @ pre @ fv))" and "good_headers e junk (kblob @ pre @ fv) vmem kb p pub"
    and "body_accepted e (kblob @ pre @ fv) kb p pub" and "image_body (kblob @ pre @ fv) kb p = fv"
    and "firmware_version p = v" and "data_key kb = dk\<lparr>key_at := 80, key_offset := 32\<rparr>"
    and "kernel_subkey p = k\<lparr>key_at := 48, key_offset := 60\<rparr>" and "len_fits (3000 + length (kblob @ pre @ fv))"
proof -
  obtain kb where kb: "KeyBlockVerify e junk kblob (of_nat (length kblob)) (Some vmem) False = Some VBOOT_SUCCESS"
    "read_key_block e kblob = Some kb" "unat (key_block_size kb) = length kblob" "data_key kb = dk\<lparr>key_at := 80, key_offset := 32\<rparr>"
    "mem_read kblob 112 (length dd) = Some dd" "length kblob \<le> 2048 + length dd"
    using KeyBlockCreate_ok[OF dkey(1) root(3,1,2), of junk8 bflags] kblob by (metis option.inject)
  have fv: "len_fits (length fv)" by (rule fits_le[OF fits]) simp
  obtain bsig pre p where pre: "CalculateSignature e junk8 ssl fv (of_nat (length fv)) key = Some (Some bsig)"
    "CreateFirmwarePreamble e junk8 ssl v kmem bsig key flags = Some pre" "rd64 e pre 0 = Some (of_nat (length pre))"
    "length pre \<le> 2156 + length kd" "108 \<le> length pre" "unat (preamble_size p) = length pre" "firmware_version p = v"
    "kernel_subkey p = k\<lparr>key_at := 48, key_offset := 60\<rparr>"
    "\<And>rest. read_firmware_preamble e (pre @ rest) = Some p"
    "\<And>rest. VbGetFirmwarePreambleFlags e (pre @ rest) = Some flags"
    "\<And>rest nb. unat nb = length (pre @ rest) \<Longrightarrow> good_firmware_preamble e (pre @ rest) nb pub p"
    "\<And>rest. signed_data e fv (of_nat (length fv)) (pre @ rest) (body_signature p) pub"
    using CreateFirmwarePreamble_ok[OF kkey dkey(3) fv] by metis
  define image where "image = kblob @ pre @ fv"
  have len: "len_fits (length kblob)" "len_fits (length image)" "len_fits (length pre)" "len_fits (3000 + length image)"
    by (auto simp: image_def intro!: fits_le[OF fits]) (use kb(6) pre(4) in simp_all)
  note nb = fits64(2)[OF len(1)] fits64(2)[OF len(2)] fits64(2)[OF len(3)]
  obtain r where "KeyBlockVerify e junk kblob (of_nat (length kblob)) (Some vmem) False = Some r"
    "r = VBOOT_SUCCESS \<longleftrightarrow> (\<exists>kb. read_key_block e kblob = Some kb \<and> good_block kb (of_nat (length kblob)) (key_block_signature kb) \<and>
      key_accepted e junk kblob (of_nat (length kblob)) (key_block_signature kb) (Some vmem))"
    using KeyBlockVerify_ok[of "of_nat (length kblob)" kblob "Some vmem" e junk False] root(1) nb len by auto
  then have g0: "good_block kb (of_nat (length kblob)) (key_block_signature kb)"
    "key_accepted e junk kblob (of_nat (length kblob)) (key_block_signature kb) (Some vmem)" using kb(1,2) by auto
  have le: "(of_nat (length kblob) :: u64) \<le> of_nat (length image)" using nb by (simp add: word_le_nat_alt image_def)
  note g = key_block_append(1)[OF g0 root(1) nb(1) len(1) le]
    key_block_append(2)[OF g0 root(1) nb(1) len(1) le, of "pre @ fv", folded image_def]
  have rk: "read_key_block e image = Some kb" unfolding image_def by (rule append_headers(1)[OF kb(2)])
  have pk: "PublicKeyToRSA e junk (drop 80 image) = Some (Some pub)"
    using created_block_key[OF dkey(1) g(1) _ rk kb(4), of junk] append_reads(1)[OF kb(5), of "pre @ fv"] nb dkey(2)
    by (simp add: image_def)
  have rest: "drop (unat (key_block_size kb)) image = pre @ fv" by (simp add: image_def kb(3))
  have lr: "length (pre @ fv) \<le> length image" by (simp add: image_def)
  have gh: "good_headers e junk image vmem kb p pub"
    unfolding good_headers_def Let_def rest
    using rk g pk pre(5,9) pre(11)[of "of_nat (length (pre @ fv))" fv] fits64(2)[OF fits_le[OF len(2) lr]] by simp
  have body: "image_body image kb p = fv" by (simp add: image_body_def image_def kb(3) pre(6))
  have ba: "body_accepted e image kb p pub"
    unfolding body_accepted_def Let_def rest body using pre(12)[of fv] by simp
  show thesis
    by (rule that[OF pre(1-3) nb(3) len(2)[unfolded image_def] gh[unfolded image_def] ba[unfolded image_def]
          body[unfolded image_def] pre(7) kb(4) pre(8) len(4)[unfolded image_def]])
qed

subsection \<open>Claim: images that are signed are accepted\<close>

lemma sign_image_ok:
  assumes pre: "CalculateSignature e junk ssl fv (of_nat (length fv)) key = Some (Some bsig)"
      "CreateFirmwarePreamble e junk ssl v kmem bsig key flags = Some pre"
      "rd64 e pre 0 = Some (of_nat (length pre))" "unat (of_nat (length pre) :: u64) = length pre"
    and room: "can_create d out" "\<And>n. has_room d out n"
  shows "sign_image e junk ssl d out kblob key v kmem fv flags False =
    Some (d\<lparr>content := (content d)(out \<mapsto> kblob @ pre @ fv)\<rparr>, False)"
  using assms by (simp add: sign_image_def write_image_def mem_read_def)

text \<open>The files an image is made of: the root key, the key block it signed, and the private key of that block's key.\<close>

definition signing_files :: "endian \<Rightarrow> u32 \<Rightarrow> u8 \<Rightarrow> 'k openssl \<Rightarrow> disk \<Rightarrow> string \<Rightarrow> string \<Rightarrow> string \<Rightarrow> string \<Rightarrow> string \<Rightarrow> bool" where
  "signing_files e junk junk8 ssl d rootpub keyblock private kernelkey fv_file \<longleftrightarrow>
     (\<exists>vmem root rootkey dmem dk dd pub key kmem k kd kblob bflags fv.
        PublicKeyRead e d rootpub = Some (Some vmem) \<and> length vmem < 2 ^ 64 \<and>
        PublicKeyToRSA e junk vmem = Some (Some root) \<and> signing_pair ssl rootkey root \<and>
        key_data e dmem dk dd \<and> PublicKeyToRSA e junk dmem = Some (Some pub) \<and> signing_pair ssl key pub \<and>
        KeyBlockCreate e junk8 ssl dmem (Some rootkey) bflags = Some kblob \<and> ReadFile d keyblock = Some kblob \<and>
        PrivateKeyRead ssl e d private = Some (Some key) \<and>
        PublicKeyRead e d kernelkey = Some (Some kmem) \<and> key_data e kmem k kd \<and>
        ReadFile d fv_file = Some fv \<and> len_fits (8192 + length dd + length kd + length fv))"

lemma signed_image_runs:
  assumes files: "signing_files e junk junk8 ssl d rootpub keyblock private kernelkey fv_file"
    and room: "can_create d out" "can_create d dest" "\<And>n. has_room d out n" "\<And>n. has_room d dest n" and "out \<noteq> rootpub"
  shows "\<exists>image fv. ReadFile d fv_file = Some fv \<and> image \<noteq> [] \<and> len_fits (3000 + length image) \<and>
    Vblock e junk8 ssl d (Some out) (Some keyblock) (Some private) v (Some fv_file) (Some kernelkey) flags False =
      Some (d\<lparr>content := (content d)(out \<mapsto> image)\<rparr>, False) \<and>
    Fon_Verify e junk (d\<lparr>content := (content d)(out \<mapsto> image)\<rparr>) (Some out) (Some rootpub) (Some dest) =
      Some (d\<lparr>content := (content d)(out \<mapsto> image, dest \<mapsto> fv)\<rparr>, False)"
proof -
  obtain vmem root rootkey dmem dk dd pub key kmem k kd kblob bflags fv where
    r: "PublicKeyRead e d rootpub = Some (Some vmem)" "length vmem < 2 ^ 64" "PublicKeyToRSA e junk vmem = Some (Some root)"
      "signing_pair ssl rootkey root" and
    dd: "key_data e dmem dk dd" "PublicKeyToRSA e junk dmem = Some (Some pub)" "signing_pair ssl key pub" and
    kb: "KeyBlockCreate e junk8 ssl dmem (Some rootkey) bflags = Some kblob" "ReadFile d keyblock = Some kblob" and
    f: "PrivateKeyRead ssl e d private = Some (Some key)" "PublicKeyRead e d kernelkey = Some (Some kmem)" "key_data e kmem k kd"
      "ReadFile d fv_file = Some fv" "len_fits (8192 + length dd + length kd + length fv)"
    using files unfolding signing_files_def by blast
  have region: "key_region e vmem" by (rule PublicKeyRead_region[OF r(1,2)])
  obtain bsig pre hd p where pre: "CalculateSignature e junk8 ssl fv (of_nat (length fv)) key = Some (Some bsig)"
    "CreateFirmwarePreamble e junk8 ssl v kmem bsig key flags = Some pre" "rd64 e pre 0 = Some (of_nat (length pre))"
    "unat (of_nat (length pre) :: u64) = length pre" "len_fits (length (kblob @ pre @ fv))"
    "good_headers e junk (kblob @ pre @ fv) vmem hd p pub" "body_accepted e (kblob @ pre @ fv) hd p pub"
    "image_body (kblob @ pre @ fv) hd p = fv" "len_fits (3000 + length (kblob @ pre @ fv))"
    using made_image[OF region r(3,4) dd f(3) kb(1) f(5), of v flags] by metis
  define d1 where "d1 = d\<lparr>content := (content d)(out \<mapsto> kblob @ pre @ fv)\<rparr>"
  have "Vblock e junk8 ssl d (Some out) (Some keyblock) (Some private) v (Some fv_file) (Some kernelkey) flags False = Some (d1, False)"
    unfolding Vblock_def option.case prod.case kb(2) f(1,2,4) bind.bind_lunit d1_def
    by (rule sign_image_ok[OF pre(1-4) room(1,3)])
  moreover have fv: "fv \<noteq> []" using f(4) by (auto simp: ReadFile_def split: option.splits if_splits)
  have k1: "PublicKeyRead e d1 rootpub = Some (Some vmem)"
    using r(1) \<open>out \<noteq> rootpub\<close> by (simp add: d1_def PublicKeyRead_def ReadFile_def)
  have b1: "ReadFile d1 out = Some (kblob @ pre @ fv)" using fv by (simp add: d1_def ReadFile_def)
  have "Fon_Verify e junk d1 (Some out) (Some rootpub) (Some dest) = WriteFile d1 dest fv"
    using Fon_Verify_ok[OF k1 r(2) b1 pre(5), of junk dest] good_headers_unique[OF pre(6)] pre(6-8) by metis
  moreover have "WriteFile d1 dest fv = Some (d1\<lparr>content := (content d1)(dest \<mapsto> fv)\<rparr>, False)"
    using room(2,4) fv by (simp add: WriteFile_def d1_def)
  ultimately show ?thesis using f(4) fv pre(9) unfolding d1_def by (intro exI[of _ "kblob @ pre @ fv"] exI[of _ fv]) simp
qed

text \<open>C3: A firmware image that \<open>vbutil_firmware\<close> makes of a key block signed with a root key and the private key of the
key in that block is accepted by \<open>Fon_Verify\<close> with the public root key, whatever version and flags it has, and
the firmware comes out as it went in.\<close>

theorem signed_image_accepted:
  assumes files: "signing_files e junk junk8 ssl d rootpub keyblock private kernelkey fv_file"
    and room: "can_create d out" "can_create d dest" "\<And>n. has_room d out n" "\<And>n. has_room d dest n" and "out \<noteq> rootpub"
  shows "\<exists>d1 d2 fv. Vblock e junk8 ssl d (Some out) (Some keyblock) (Some private) v (Some fv_file) (Some kernelkey) flags False =
      Some (d1, False) \<and> Fon_Verify e junk d1 (Some out) (Some rootpub) (Some dest) = Some (d2, False) \<and>
    ReadFile d fv_file = Some fv \<and> ReadFile d2 dest = Some fv"
proof -
  obtain image fv where i: "ReadFile d fv_file = Some fv"
    "Vblock e junk8 ssl d (Some out) (Some keyblock) (Some private) v (Some fv_file) (Some kernelkey) flags False =
      Some (d\<lparr>content := (content d)(out \<mapsto> image)\<rparr>, False)"
    "Fon_Verify e junk (d\<lparr>content := (content d)(out \<mapsto> image)\<rparr>) (Some out) (Some rootpub) (Some dest) =
      Some (d\<lparr>content := (content d)(out \<mapsto> image, dest \<mapsto> fv)\<rparr>, False)"
    using signed_image_runs[OF files room \<open>out \<noteq> rootpub\<close>] by metis
  moreover have "fv \<noteq> []" using i(1) by (auto simp: ReadFile_def split: option.splits if_splits)
  ultimately show ?thesis by (auto simp: ReadFile_def)
qed

text \<open>The files with the pair of keys that was computed, for all three keys.\<close>

definition smooth_disk :: "u8 list \<Rightarrow> disk" where
  "smooth_disk kblob = \<lparr>content = [''root'' \<mapsto> smooth_pub Little, ''block'' \<mapsto> kblob, ''private'' \<mapsto> replicate 8 0,
     ''firmware'' \<mapsto> [1, 2, 3]], can_create = (\<lambda>f. True), has_room = (\<lambda>f n. True)\<rparr>"

lemma smooth_disk_root: "PublicKeyRead Little (smooth_disk kblob) ''root'' = Some (Some (smooth_pub Little))"
proof -
  have l: "length (smooth_pub Little) = 296" by (simp add: smooth_pub_def)
  have r: "rd64 Little (smooth_pub Little) 0 = Some 32" "rd64 Little (smooth_pub Little) 8 = Some 264"
    by (simp_all add: smooth_pub_def field_ops fields PACK64_UNPACK64)
  have "smooth_pub Little \<noteq> []" using l by auto
  then show ?thesis
    by (simp add: PublicKeyRead_def ReadFile_def smooth_disk_def r l smooth_pub_read VerifyMemberInside_def OffsetOf_def
      RSAProcessedKeySize_def kNumAlgorithms_def siglen_map_def)
qed

lemma smooth_files:
  obtains kblob where "signing_files Little 0 0 smooth_ssl (smooth_disk kblob) ''root'' ''block'' ''private'' ''root'' ''firmware''"
proof -
  let ?key = "\<lparr>rsa_private_key = (), private_algorithm = 0\<rparr>"
  note pair = smooth_signing_pair and pub = smooth_pub_key[of Little] and rsa = smooth_pub_rsa[of Little]
  have region: "key_region Little (smooth_pub Little)" using pub by (simp add: key_data_def)
  obtain kblob kb where kb: "KeyBlockCreate Little 0 smooth_ssl (smooth_pub Little) (Some ?key) 0 = Some kblob"
    "read_key_block Little kblob = Some kb" using KeyBlockCreate_ok[OF pub pair region rsa, of 0 0] by metis
  have "kblob \<noteq> []" using kb(2) by (auto simp: read_key_block_def mem_read_def)
  then have b: "ReadFile (smooth_disk kblob) ''block'' = Some kblob" by (simp add: ReadFile_def smooth_disk_def)
  have p: "PrivateKeyRead smooth_ssl Little (smooth_disk kblob) ''private'' = Some (Some ?key)"
    by (simp add: PrivateKeyRead_def ReadFile_def smooth_disk_def smooth_ssl_def vboot_facts PACK64_def)
  have f: "ReadFile (smooth_disk kblob) ''firmware'' = Some [1, 2, 3]" by (simp add: ReadFile_def smooth_disk_def)
  have l: "length (smooth_pub Little) < 2 ^ 64" "len_fits (8192 + length (smooth_blob Little) + length (smooth_blob Little) + length [1, 2, 3 :: u8])"
    by (simp_all add: smooth_pub_def len_fits_def)
  show thesis
    by (rule that[of kblob], unfold signing_files_def)
      (use smooth_disk_root l(1) rsa pair pub kb(1) b p f l(2) in blast)
qed

theorem signed_image_accepted_witness:
  "\<exists>kblob d1 d2. Vblock Little 0 smooth_ssl (smooth_disk kblob) (Some ''image'') (Some ''block'') (Some ''private'') 7
      (Some ''firmware'') (Some ''root'') 0 False = Some (d1, False) \<and>
    Fon_Verify Little 0 d1 (Some ''image'') (Some ''root'') (Some ''out'') = Some (d2, False) \<and> ReadFile d2 ''out'' = Some [1, 2, 3]"
proof -
  obtain kblob where "signing_files Little 0 0 smooth_ssl (smooth_disk kblob) ''root'' ''block'' ''private'' ''root'' ''firmware''"
    by (rule smooth_files)
  from signed_image_accepted[OF this, of "''image''" "''out''" 7 0] show ?thesis
    by (auto simp: smooth_disk_def ReadFile_def)
qed

subsection \<open>Claim: bytes after the image\<close>

text \<open>C25: Bytes appended to an image that is accepted are covered by no signature: the longer image is accepted as well,
and they are written to the output after the firmware.\<close>

theorem Fon_Verify_ignores_tail:
  assumes key: "PublicKeyRead e d pub = Some (Some kmem)" "length kmem < 2 ^ 64"
    and image: "ReadFile d infile = Some blob" "len_fits (length (blob @ extra))" and "infile \<noteq> pub"
    and accepted: "Fon_Verify e junk d (Some infile) (Some pub) (Some out) = Some (d1, False)"
    and longer: "d' = d\<lparr>content := (content d)(infile \<mapsto> blob @ extra)\<rparr>" and room: "\<forall>n. has_room d out n"
  shows "\<exists>body d2. ReadFile d1 out = Some body \<and>
    Fon_Verify e junk d' (Some infile) (Some pub) (Some out) = Some (d2, False) \<and> ReadFile d2 out = Some (body @ extra)"
proof -
  have k: "PublicKeyRead e d' pub = Some (Some kmem)"
    using key(1) \<open>infile \<noteq> pub\<close> by (simp add: longer PublicKeyRead_def ReadFile_def)
  have b: "ReadFile d' infile = Some (blob @ extra)" and f: "len_fits (length blob)"
    using image by (auto simp: longer ReadFile_def len_fits_def split: option.splits if_splits)
  have kr: "key_region e kmem" by (rule PublicKeyRead_region[OF key])
  obtain kb p rsa where g: "good_headers e junk blob kmem kb p rsa" "body_accepted e blob kb p rsa"
    and w: "WriteFile d out (image_body blob kb p) = Some (d1, False)"
    using Fon_Verify_ok[OF key image(1) f, of junk out] accepted by auto
  note ext = image_append[OF image(2) kr g(1)]
  have v: "Fon_Verify e junk d' (Some infile) (Some pub) (Some out) = WriteFile d' out (image_body blob kb p @ extra)"
    using Fon_Verify_ok[OF k key(2) b image(2), of junk out] ext ext(2)[OF g(2)] good_headers_unique[OF ext(1)] by metis
  have d1: "image_body blob kb p \<noteq> []" "can_create d out" "d1 = d\<lparr>content := (content d)(out \<mapsto> image_body blob kb p)\<rparr>"
    using w by (auto simp: WriteFile_def split: if_splits)
  have room': "can_create d' out" "has_room d' out n" for n using d1(2) room by (simp_all add: longer)
  show ?thesis
    by (intro exI[of _ "image_body blob kb p"] exI[of _ "d'\<lparr>content := (content d')(out \<mapsto> image_body blob kb p @ extra)\<rparr>"])
      (use d1(1,3) room' in \<open>simp add: v WriteFile_def ReadFile_def\<close>)
qed

text \<open>The image of the files above, which is accepted, with two bytes more.\<close>

theorem Fon_Verify_ignores_tail_witness:
  "\<exists>image d d1 d2. ReadFile d ''image'' = Some image \<and>
    Fon_Verify Little 0 d (Some ''image'') (Some ''root'') (Some ''out'') = Some (d1, False) \<and> ReadFile d1 ''out'' = Some [1, 2, 3] \<and>
    Fon_Verify Little 0 (d\<lparr>content := (content d)(''image'' \<mapsto> image @ [8, 9])\<rparr>) (Some ''image'') (Some ''root'') (Some ''out'') =
      Some (d2, False) \<and> ReadFile d2 ''out'' = Some [1, 2, 3, 8, 9]"
proof -
  obtain kblob where "signing_files Little 0 0 smooth_ssl (smooth_disk kblob) ''root'' ''block'' ''private'' ''root'' ''firmware''"
    by (rule smooth_files)
  from signed_image_runs[OF this, of "''image''" "''out''" 7 0] obtain image
    where i: "image \<noteq> []" "len_fits (3000 + length image)"
      "Fon_Verify Little 0 (smooth_disk kblob\<lparr>content := (content (smooth_disk kblob))(''image'' \<mapsto> image)\<rparr>)
        (Some ''image'') (Some ''root'') (Some ''out'') =
       Some (smooth_disk kblob\<lparr>content := (content (smooth_disk kblob))(''image'' \<mapsto> image, ''out'' \<mapsto> [1, 2, 3])\<rparr>, False)"
    by (auto simp: smooth_disk_def ReadFile_def)
  define d where "d = smooth_disk kblob\<lparr>content := (content (smooth_disk kblob))(''image'' \<mapsto> image)\<rparr>"
  have k: "PublicKeyRead Little d ''root'' = Some (Some (smooth_pub Little))"
    using smooth_disk_root[of kblob] by (simp add: d_def PublicKeyRead_def ReadFile_def)
  have l: "length (smooth_pub Little) < 2 ^ 64" by (simp add: smooth_pub_def)
  have r: "ReadFile d ''image'' = Some image" using i(1) by (simp add: d_def ReadFile_def)
  have fits: "len_fits (length (image @ [8, 9]))" by (rule fits_le[OF i(2)]) simp
  have room: "\<forall>n. has_room d ''out'' n" by (simp add: d_def smooth_disk_def)
  have out: "ReadFile (smooth_disk kblob\<lparr>content := (content (smooth_disk kblob))(''image'' \<mapsto> image, ''out'' \<mapsto> [1, 2, 3])\<rparr>) ''out'' =
    Some [1, 2, 3]" by (simp add: ReadFile_def)
  note a = i(3)[folded d_def]
  from Fon_Verify_ignores_tail[OF k l r fits _ a refl room] show ?thesis using r a out by auto
qed

subsection \<open>Claim: key blocks that are packed are unpacked\<close>

lemma PublicKeyWrite_ok:
  assumes k: "key_data e kmem k kd"
  shows "PublicKeyWrite e junk d f kmem = WriteFile d f (key_fields e 32 (key_size k) (algorithm k) (key_version k) @ kd)"
proof -
  note K = key_data_facts[OF k]
  have u: "unat (32 + key_size k) = 8 + (8 + (8 + (8 + length kd)))" using K(5)[of 32] K(2) by simp
  have alloc: "PublicKeyAlloc e junk (key_size k) 0 0 = Some (key_fields e 32 (key_size k) 0 0 @ replicate (length kd) junk)"
    unfolding PublicKeyAlloc_def Let_def u replicate_add by (simp add: field_ops fields)
  have copy: "PublicKeyCopy e (key_fields e 32 (key_size k) 0 0 @ replicate (length kd) junk) 0 kmem =
      Some (False, key_fields e 32 (key_size k) (algorithm k) (key_version k) @ kd)"
    unfolding PublicKeyCopy_def K(1) read_struct_fields bind.bind_lunit using K(2,4) by (simp add: field_ops fields)
  show ?thesis
    unfolding PublicKeyWrite_def K(1) alloc copy bind.bind_lunit prod.case read_struct_fields vb_public_key.simps u if_False
    by (simp add: mem_read_def)
qed

lemma created_block_data:
  assumes k: "key_data e kmem k kd" and g: "good_block kb nbytes sig" and n: "unat nbytes \<le> length mem"
    and kb: "read_key_block e mem = Some kb" "data_key kb = k\<lparr>key_at := 80, key_offset := 32\<rparr>" "mem_read mem 112 (length kd) = Some kd"
  shows "key_data e (drop 80 mem) (k\<lparr>key_at := 0, key_offset := 32\<rparr>) kd"
proof -
  have i: "inside 80 32 (key_offset (data_key kb)) (key_size (data_key kb)) (data_size sig)" "unat (data_size sig) \<le> length mem"
    using g n unfolding good_block_def good_data_def word_le_nat_alt by auto
  have "take (length kd) (drop 112 mem) = kd" using kb(3) by (auto simp: mem_read_def split: if_splits)
  then show ?thesis
    using inside_key[OF read_key_block_data_key[OF kb(1)] i] key_data_facts(2)[OF k] k by (simp add: key_data_def kb(2))
qed

text \<open>C24: A key block that \<open>vbutil_keyblock --pack\<close> makes of a data key and signs with a private key is accepted by \<open>--unpack\<close>
with the public key of that private key, and the data key that comes out has the algorithm, the version and the
data of the one that went in.\<close>

theorem key_block_unpacks:
  assumes data: "PublicKeyRead e d datapub = Some (Some dmem)" "key_data e dmem dk dd"
    and priv: "PrivateKeyRead ssl e d private = Some (Some key)" "signing_pair ssl key root"
    and root: "PublicKeyRead e d rootpub = Some (Some vmem)" "length vmem < 2 ^ 64" "PublicKeyToRSA e junk vmem = Some (Some root)"
    and room: "can_create d out" "can_create d dest" "\<And>n. has_room d out n" "\<And>n. has_room d dest n" and "out \<noteq> rootpub"
  shows "\<exists>d1 d2. keyblock_Pack e junk8 ssl run d (Some out) (Some datapub) (Some private) None 0 flags None = Some (d1, False) \<and>
    keyblock_Unpack e junk d1 (Some out) (Some dest) (Some rootpub) = Some (d2, False) \<and>
    ReadFile d2 dest = Some (key_fields e 32 (key_size dk) (algorithm dk) (key_version dk) @ dd)"
proof -
  have region: "key_region e vmem" by (rule PublicKeyRead_region[OF root(1,2)])
  obtain blob kb where b: "KeyBlockCreate e junk8 ssl dmem (Some key) flags = Some blob"
    "KeyBlockVerify e junk blob (of_nat (length blob)) (Some vmem) False = Some VBOOT_SUCCESS"
    "KeyBlockVerify e junk blob (of_nat (length blob)) None True = Some VBOOT_SUCCESS"
    "read_key_block e blob = Some kb" "unat (key_block_size kb) = length blob" "data_key kb = dk\<lparr>key_at := 80, key_offset := 32\<rparr>"
    "mem_read blob 112 (length dd) = Some dd" "length blob \<le> 2048 + length dd"
    using KeyBlockCreate_ok[OF data(2) priv(2) region root(3), of junk8 flags] by metis
  have fits: "len_fits (length blob)" using key_data_facts(7)[OF data(2)] b(8) by (auto intro: fits_le)
  note nb = fits64(2)[OF fits]
  have sz: "key_block_size kb = of_nat (length blob)" using b(5) by (metis of_nat_unat ucast_id)
  have ne: "blob \<noteq> []" using b(4) by (auto simp: read_key_block_def mem_read_def)
  have r16: "rd64 e blob 16 = Some (of_nat (length blob))"
    using b(4) sz by (auto simp: read_key_block_def split: Option.bind_splits)
  define d1 where "d1 = d\<lparr>content := (content d)(out \<mapsto> blob)\<rparr>"
  have "keyblock_Pack e junk8 ssl run d (Some out) (Some datapub) (Some private) None 0 flags None = Some (d1, False)"
    using data(1) priv(1) b(1) r16 nb ne room
    by (simp add: keyblock_Pack_def KeyBlockWrite_def mem_read_def WriteFile_def d1_def)
  moreover have read: "KeyBlockRead e junk d1 out = Some (Some blob)"
    using b(3) ne by (simp add: KeyBlockRead_def ReadFile_def d1_def)
  have k1: "PublicKeyRead e d1 rootpub = Some (Some vmem)"
    using root(1) \<open>out \<noteq> rootpub\<close> by (simp add: d1_def PublicKeyRead_def ReadFile_def)
  obtain r where "KeyBlockVerify e junk blob (of_nat (length blob)) None True = Some r"
    "r = VBOOT_SUCCESS \<longleftrightarrow> (\<exists>kb. read_key_block e blob = Some kb \<and> good_block kb (of_nat (length blob)) (key_block_checksum kb) \<and>
      hash_accepted blob (key_block_checksum kb))"
    using KeyBlockVerify_ok[of "of_nat (length blob)" blob None e junk True] nb fits by auto
  then have "good_block kb (of_nat (length blob)) (key_block_checksum kb)" using b(3,4) by auto
  then have kd: "key_data e (drop 80 blob) (dk\<lparr>key_at := 0, key_offset := 32\<rparr>) dd"
    using created_block_data[OF data(2) _ _ b(4,6,7)] nb by simp
  have "len_fits (length (drop 80 blob))" by (rule fits_le[OF fits]) simp
  then obtain h where h: "PrintPubKeySha1Sum e (drop 80 blob) = Some h"
    using PrintPubKeySha1Sum_ok[of e "drop 80 blob"] kd by (auto simp: key_data_def)
  define kfile where "kfile = key_fields e 32 (key_size dk) (algorithm dk) (key_version dk) @ dd"
  have "32 \<le> length kfile" by (simp add: kfile_def)
  then have "kfile \<noteq> []" by auto
  then have w: "PublicKeyWrite e j d1 dest (drop 80 blob) = Some (d1\<lparr>content := (content d1)(dest \<mapsto> kfile)\<rparr>, False)" for j
    using PublicKeyWrite_ok[OF kd] room by (simp add: WriteFile_def d1_def kfile_def)
  have "keyblock_Unpack e junk d1 (Some out) (Some dest) (Some rootpub) = Some (d1\<lparr>content := (content d1)(dest \<mapsto> kfile)\<rparr>, False)"
    unfolding keyblock_Unpack_def option.case read bind.bind_lunit b(4) k1 sz b(2) h w by simp
  moreover have "ReadFile (d1\<lparr>content := (content d1)(dest \<mapsto> kfile)\<rparr>) dest = Some kfile" using \<open>kfile \<noteq> []\<close> by (simp add: ReadFile_def)
  ultimately show ?thesis unfolding kfile_def by blast
qed

theorem key_block_unpacks_witness:
  "\<exists>d1 d2. keyblock_Pack Little 0 smooth_ssl (\<lambda>a b c. None) (smooth_disk []) (Some ''blob'') (Some ''root'') (Some ''private'') None 0 3 None =
      Some (d1, False) \<and>
    keyblock_Unpack Little 0 d1 (Some ''blob'') (Some ''out'') (Some ''root'') = Some (d2, False) \<and>
    ReadFile d2 ''out'' = Some (key_fields Little 32 264 0 1 @ smooth_blob Little)"
proof -
  have p: "PrivateKeyRead smooth_ssl Little (smooth_disk []) ''private'' = Some (Some \<lparr>rsa_private_key = (), private_algorithm = 0\<rparr>)"
    by (simp add: PrivateKeyRead_def ReadFile_def smooth_disk_def smooth_ssl_def vboot_facts PACK64_def)
  have l: "length (smooth_pub Little) < 2 ^ 64" by (simp add: smooth_pub_def)
  show ?thesis
    using key_block_unpacks[OF smooth_disk_root smooth_pub_key p smooth_signing_pair smooth_disk_root l smooth_pub_rsa,
      of "''blob''" "''out''" 0 "\<lambda>a b c. None" 3]
    by (simp add: smooth_disk_def)
qed

end
