(* ===== verification/RollbackIndex.thy ===== *)
theory RollbackIndex
  imports VbootCommon Crc8
begin

text \<open>
  The versions kept in the TPM against rollback, \<open>package/vboot_utils/src/firmware/lib/rollback_index.c\<close>
  as it is compiled for a TPM, without the two workarounds for prototype hardware. The commands of the
  TPM library and its constants are a parameter; their state is any type. A space is its bytes: the
  structures are packed, with the version of the structure first and the CRC last.
\<close>

subsection \<open>The TPM library\<close>

text \<open>A command returns its result; a read returns the bytes it puts into the buffer.\<close>

record 't tlcl =
  TPM_E_MAXNVWRITES :: u32
  TPM_E_CORRUPTED_STATE :: u32
  TPM_E_BADINDEX :: u32
  TPM_E_INVALID_POSTINIT :: u32
  TPM_E_MUST_REBOOT :: u32
  TPM_NV_PER_PPWRITE :: u32
  TPM_NV_PER_GLOBALLOCK :: u32
  TlclRead :: "u32 \<Rightarrow> nat \<Rightarrow> 't \<Rightarrow> (u32 \<times> (nat \<Rightarrow> u8)) \<times> 't"
  TlclWrite :: "u32 \<Rightarrow> u8 list \<Rightarrow> 't \<Rightarrow> u32 \<times> 't"
  TlclDefineSpace :: "u32 \<Rightarrow> u32 \<Rightarrow> nat \<Rightarrow> 't \<Rightarrow> u32 \<times> 't"
  TlclForceClear :: "'t \<Rightarrow> u32 \<times> 't"
  TlclSetEnable :: "'t \<Rightarrow> u32 \<times> 't"
  TlclSetDeactivated :: "u8 \<Rightarrow> 't \<Rightarrow> u32 \<times> 't"
  TlclSelfTestFull :: "'t \<Rightarrow> u32 \<times> 't"
  TlclGetPermanentFlags :: "'t \<Rightarrow> (u32 \<times> bool \<times> bool) \<times> 't"
  TlclFinalizePhysicalPresence :: "'t \<Rightarrow> u32 \<times> 't"
  TlclSetNvLocked :: "'t \<Rightarrow> u32 \<times> 't"
  TlclLibInit :: "'t \<Rightarrow> u32 \<times> 't"
  TlclStartup :: "'t \<Rightarrow> u32 \<times> 't"
  TlclContinueSelfTest :: "'t \<Rightarrow> u32 \<times> 't"
  TlclResume :: "'t \<Rightarrow> u32 \<times> 't"
  TlclAssertPhysicalPresence :: "'t \<Rightarrow> u32 \<times> 't"
  TlclPhysicalPresenceCMDEnable :: "'t \<Rightarrow> u32 \<times> 't"
  TlclGetFlags :: "'t \<Rightarrow> (u32 \<times> u8 \<times> u8) \<times> 't"
  TlclGetPermissions :: "u32 \<Rightarrow> 't \<Rightarrow> (u32 \<times> u32) \<times> 't"
  TlclSetGlobalLock :: "'t \<Rightarrow> u32 \<times> 't"
  TlclLockPhysicalPresence :: "'t \<Rightarrow> u32 \<times> 't"

definition TPM_SUCCESS :: u32 where
  "TPM_SUCCESS = 0"

definition VBERROR_SUCCESS :: u32 where
  "VBERROR_SUCCESS = 0"

definition VBERROR_TPM_SET_BOOT_MODE_STATE :: u32 where
  "VBERROR_TPM_SET_BOOT_MODE_STATE = 0x10006"

definition VBERROR_TPM_FIRMWARE_SETUP :: u32 where
  "VBERROR_TPM_FIRMWARE_SETUP = 0x10008"

definition FIRMWARE_NV_INDEX :: u32 where
  "FIRMWARE_NV_INDEX = 0x1007"

definition KERNEL_NV_INDEX :: u32 where
  "KERNEL_NV_INDEX = 0x1008"

definition ROLLBACK_SPACE_KERNEL_UID :: u32 where
  "ROLLBACK_SPACE_KERNEL_UID = 0x4752574C"

definition FLAG_LAST_BOOT_DEVELOPER :: u8 where
  "FLAG_LAST_BOOT_DEVELOPER = 1"

definition FLAG_VIRTUAL_DEV_MODE_ON :: u8 where
  "FLAG_VIRTUAL_DEV_MODE_ON = 2"

text \<open>The macro: a command that fails is the end of the function, which returns what \<open>give\<close> makes of the result.\<close>

definition RETURN_ON_FAILURE :: "(u32 \<Rightarrow> 'r) \<Rightarrow> ('t \<Rightarrow> u32 \<times> 't) \<Rightarrow> ('t \<Rightarrow> 'r \<times> 't) \<Rightarrow> 't \<Rightarrow> 'r \<times> 't" where
  "RETURN_ON_FAILURE give tpm_command rest t =
     (case tpm_command t of (result, t) \<Rightarrow> if result \<noteq> TPM_SUCCESS then (give result, t) else rest t)"

definition TPMClearAndReenable :: "'t tlcl \<Rightarrow> 't \<Rightarrow> u32 \<times> 't" where
  "TPMClearAndReenable T =
     RETURN_ON_FAILURE id (TlclForceClear T) (
     RETURN_ON_FAILURE id (TlclSetEnable T) (
     RETURN_ON_FAILURE id (TlclSetDeactivated T 0) (\<lambda>t. (TPM_SUCCESS, t))))"

definition SafeWrite :: "'t tlcl \<Rightarrow> u32 \<Rightarrow> u8 list \<Rightarrow> 't \<Rightarrow> u32 \<times> 't" where
  "SafeWrite T index data t =
     (case TlclWrite T index data t of (result, t) \<Rightarrow>
        if result = TPM_E_MAXNVWRITES T then RETURN_ON_FAILURE id (TPMClearAndReenable T) (TlclWrite T index data) t
        else (result, t))"

definition SafeDefineSpace :: "'t tlcl \<Rightarrow> u32 \<Rightarrow> u32 \<Rightarrow> nat \<Rightarrow> 't \<Rightarrow> u32 \<times> 't" where
  "SafeDefineSpace T index perm n t =
     (case TlclDefineSpace T index perm n t of (result, t) \<Rightarrow>
        if result = TPM_E_MAXNVWRITES T then RETURN_ON_FAILURE id (TPMClearAndReenable T) (TlclDefineSpace T index perm n) t
        else (result, t))"

subsection \<open>Spaces\<close>

text \<open>
  The functions for the firmware space, of 10 bytes, and for the kernel space, of 13, are the same text.
  A space without a CRC becomes one of version 2.
\<close>

fun read_space :: "'t tlcl \<Rightarrow> u32 \<Rightarrow> nat \<Rightarrow> nat \<Rightarrow> u8 list \<Rightarrow> 't \<Rightarrow> (u32 \<times> u8 list) \<times> 't" where
  "read_space T index n 0 rs t = ((TPM_E_CORRUPTED_STATE T, rs), t)"
| "read_space T index n (Suc attempts) rs t =
     (case TlclRead T index n t of ((r, bytes), t) \<Rightarrow>
        let rs = map bytes [0..<n] in
        if r \<noteq> TPM_SUCCESS then ((r, rs), t)
        else if rs ! 0 < 2 then ((TPM_SUCCESS, rs[0 := 2]), t)
        else if Crc8 rs (n - 1) = Some (rs ! (n - 1)) then ((TPM_SUCCESS, rs), t)
        else read_space T index n attempts rs t)"

text \<open>What the write functions do to the space before they write it.\<close>

definition seal_space :: "nat \<Rightarrow> u8 list \<Rightarrow> u8 list" where
  "seal_space n rs = (let rs = (if rs ! 0 < 2 then rs[0 := 2] else rs) in rs[n - 1 := the (Crc8 rs (n - 1))])"

fun write_attempts :: "'t tlcl \<Rightarrow> u32 \<Rightarrow> nat \<Rightarrow> nat \<Rightarrow> u8 list \<Rightarrow> 't \<Rightarrow> u32 \<times> 't" where
  "write_attempts T index n 0 rs t = (TPM_E_CORRUPTED_STATE T, t)"
| "write_attempts T index n (Suc attempts) rs t =
     (case SafeWrite T index rs t of (r, t) \<Rightarrow>
        if r \<noteq> TPM_SUCCESS then (r, t)
        else case read_space T index n 3 [] t of ((r, rs2), t) \<Rightarrow>
          if r = TPM_SUCCESS then (r, t) else write_attempts T index n attempts rs t)"

text \<open>The space is a parameter that is changed, so it is returned.\<close>

definition write_space :: "'t tlcl \<Rightarrow> u32 \<Rightarrow> nat \<Rightarrow> u8 list \<Rightarrow> 't \<Rightarrow> (u32 \<times> u8 list) \<times> 't" where
  "write_space T index n rs t =
     (let rs = seal_space n rs in case write_attempts T index n 3 rs t of (r, t) \<Rightarrow> ((r, rs), t))"

definition ReadSpaceFirmware :: "'t tlcl \<Rightarrow> u8 list \<Rightarrow> 't \<Rightarrow> (u32 \<times> u8 list) \<times> 't" where
  "ReadSpaceFirmware T = read_space T FIRMWARE_NV_INDEX 10 3"

definition WriteSpaceFirmware :: "'t tlcl \<Rightarrow> u8 list \<Rightarrow> 't \<Rightarrow> (u32 \<times> u8 list) \<times> 't" where
  "WriteSpaceFirmware T = write_space T FIRMWARE_NV_INDEX 10"

definition ReadSpaceKernel :: "'t tlcl \<Rightarrow> u8 list \<Rightarrow> 't \<Rightarrow> (u32 \<times> u8 list) \<times> 't" where
  "ReadSpaceKernel T = read_space T KERNEL_NV_INDEX 13 3"

definition WriteSpaceKernel :: "'t tlcl \<Rightarrow> u8 list \<Rightarrow> 't \<Rightarrow> (u32 \<times> u8 list) \<times> 't" where
  "WriteSpaceKernel T = write_space T KERNEL_NV_INDEX 13"

definition SetVirtualDevMode :: "'t tlcl \<Rightarrow> bool \<Rightarrow> 't \<Rightarrow> u32 \<times> 't" where
  "SetVirtualDevMode T v t =
     (case ReadSpaceFirmware T [] t of ((r, rsf), t) \<Rightarrow>
        if r \<noteq> TPM_SUCCESS then (VBERROR_TPM_FIRMWARE_SETUP, t)
        else
          let rsf = (if v then rsf[1 := rsf ! 1 OR FLAG_VIRTUAL_DEV_MODE_ON]
            else rsf[1 := rsf ! 1 AND NOT FLAG_VIRTUAL_DEV_MODE_ON]) in
          case WriteSpaceFirmware T rsf t of ((r, rsf), t) \<Rightarrow>
            if r \<noteq> TPM_SUCCESS then (VBERROR_TPM_SET_BOOT_MODE_STATE, t) else (VBERROR_SUCCESS, t))"

subsection \<open>Setup\<close>

definition rsf_init :: "u8 list" where
  "rsf_init = [2, 0, 0, 0, 0, 0, 0, 0, 0, 0]"

definition rsk_init :: "endian \<Rightarrow> u8 list" where
  "rsk_init e = [2] @ store32 e ROLLBACK_SPACE_KERNEL_UID @ [0, 0, 0, 0, 0, 0, 0, 0]"

definition OneTimeInitializeTPM :: "'t tlcl \<Rightarrow> endian \<Rightarrow> u8 list \<Rightarrow> 't \<Rightarrow> (u32 \<times> u8 list) \<times> 't" where
  "OneTimeInitializeTPM T e rsf =
     RETURN_ON_FAILURE (\<lambda>r. (r, rsf)) (TlclSelfTestFull T) (\<lambda>t.
       case TlclGetPermanentFlags T t of ((result, physicalPresenceLifetimeLock, nvLocked), t) \<Rightarrow>
         if result \<noteq> TPM_SUCCESS then ((result, rsf), t)
         else (RETURN_ON_FAILURE (\<lambda>r. (r, rsf))
             (\<lambda>t. if \<not> physicalPresenceLifetimeLock then TlclFinalizePhysicalPresence T t else (TPM_SUCCESS, t)) (
           RETURN_ON_FAILURE (\<lambda>r. (r, rsf)) (\<lambda>t. if \<not> nvLocked then TlclSetNvLocked T t else (TPM_SUCCESS, t)) (
           RETURN_ON_FAILURE (\<lambda>r. (r, rsf)) (TPMClearAndReenable T) (
           RETURN_ON_FAILURE (\<lambda>r. (r, rsf_init)) (SafeDefineSpace T KERNEL_NV_INDEX (TPM_NV_PER_PPWRITE T) 13) (
           RETURN_ON_FAILURE (\<lambda>r. (r, rsf_init)) (\<lambda>t. map_prod fst id (WriteSpaceKernel T (rsk_init e) t)) (
           RETURN_ON_FAILURE (\<lambda>r. (r, rsf_init))
             (SafeDefineSpace T FIRMWARE_NV_INDEX (TPM_NV_PER_GLOBALLOCK T OR TPM_NV_PER_PPWRITE T) 10) (
           WriteSpaceFirmware T rsf_init))))))) t)"

text \<open>
  The part of \<open>SetupTPM\<close> after the firmware space was read: the flags, the owner and the write of the
  space when it has changed.
\<close>

definition setup_flags :: "'t tlcl \<Rightarrow> bool \<Rightarrow> bool \<Rightarrow> bool \<Rightarrow> u8 list \<Rightarrow> 't \<Rightarrow> (u32 \<times> u8 list) \<times> 't" where
  "setup_flags T developer_mode disable_dev_request clear_tpm_owner_request rsf =
     (let in_flags = rsf ! 1;
          rsf = (if disable_dev_request then rsf[1 := rsf ! 1 AND NOT FLAG_VIRTUAL_DEV_MODE_ON] else rsf);
          developer_mode = (rsf ! 1 AND FLAG_VIRTUAL_DEV_MODE_ON \<noteq> 0 \<or> developer_mode) in
      RETURN_ON_FAILURE (\<lambda>r. (r, rsf))
        (\<lambda>t. if (if developer_mode then FLAG_LAST_BOOT_DEVELOPER else 0) \<noteq> in_flags AND FLAG_LAST_BOOT_DEVELOPER
           then TPMClearAndReenable T t
           else if clear_tpm_owner_request then TPMClearAndReenable T t
           else (TPM_SUCCESS, t)) (\<lambda>t.
        let rsf = (if developer_mode then rsf[1 := rsf ! 1 OR FLAG_LAST_BOOT_DEVELOPER]
          else rsf[1 := rsf ! 1 AND NOT FLAG_LAST_BOOT_DEVELOPER]) in
        if rsf ! 1 \<noteq> in_flags then WriteSpaceFirmware T rsf t else ((TPM_SUCCESS, rsf), t)))"

definition SetupTPM :: "'t tlcl \<Rightarrow> endian \<Rightarrow> bool \<Rightarrow> bool \<Rightarrow> bool \<Rightarrow> 't \<Rightarrow> (u32 \<times> u8 list) \<times> 't" where
  "SetupTPM T e developer_mode disable_dev_request clear_tpm_owner_request =
     RETURN_ON_FAILURE (\<lambda>r. (r, [])) (TlclLibInit T) (
     RETURN_ON_FAILURE (\<lambda>r. (r, [])) (TlclStartup T) (
     RETURN_ON_FAILURE (\<lambda>r. (r, []))
       (\<lambda>t. case TlclAssertPhysicalPresence T t of (result, t) \<Rightarrow>
          if result \<noteq> TPM_SUCCESS then RETURN_ON_FAILURE id (TlclPhysicalPresenceCMDEnable T) (TlclAssertPhysicalPresence T) t
          else (TPM_SUCCESS, t)) (\<lambda>t.
     case TlclGetFlags T t of ((result, disable, deactivated), t) \<Rightarrow>
       if result \<noteq> TPM_SUCCESS then ((result, []), t)
       else if disable \<noteq> 0 \<or> deactivated \<noteq> 0 then
         (RETURN_ON_FAILURE (\<lambda>r. (r, [])) (TlclSetEnable T) (
          RETURN_ON_FAILURE (\<lambda>r. (r, [])) (TlclSetDeactivated T 0) (\<lambda>t. ((TPM_E_MUST_REBOOT T, []), t)))) t
       else case ReadSpaceFirmware T [] t of ((result, rsf), t) \<Rightarrow>
         if result = TPM_E_BADINDEX T then
           (case OneTimeInitializeTPM T e rsf t of ((result, rsf), t) \<Rightarrow>
              if result \<noteq> TPM_SUCCESS then ((result, rsf), t)
              else setup_flags T developer_mode disable_dev_request clear_tpm_owner_request rsf t)
         else if result \<noteq> TPM_SUCCESS then ((TPM_E_CORRUPTED_STATE T, rsf), t)
         else setup_flags T developer_mode disable_dev_request clear_tpm_owner_request rsf t)))"

subsection \<open>Versions\<close>

definition RollbackS3Resume :: "'t tlcl \<Rightarrow> 't \<Rightarrow> u32 \<times> 't" where
  "RollbackS3Resume T =
     RETURN_ON_FAILURE id (TlclLibInit T) (\<lambda>t.
       case TlclResume T t of (result, t) \<Rightarrow> if result = TPM_E_INVALID_POSTINIT T then (TPM_SUCCESS, t) else (result, t))"

text \<open>The result, the version and, when it was set, whether the virtual developer mode is on.\<close>

definition RollbackFirmwareSetup :: "'t tlcl \<Rightarrow> endian \<Rightarrow> bool \<Rightarrow> bool \<Rightarrow> bool \<Rightarrow> 't \<Rightarrow> (u32 \<times> u32 \<times> bool option) \<times> 't" where
  "RollbackFirmwareSetup T e is_hw_dev disable_dev_request clear_tpm_owner_request t =
     (case SetupTPM T e is_hw_dev disable_dev_request clear_tpm_owner_request t of ((result, rsf), t) \<Rightarrow>
        if result \<noteq> TPM_SUCCESS then ((result, 0, None), t)
        else ((TPM_SUCCESS, load32 e (take 4 (drop 2 rsf)), Some (rsf ! 1 AND FLAG_VIRTUAL_DEV_MODE_ON \<noteq> 0)), t))"

definition put_version :: "endian \<Rightarrow> nat \<Rightarrow> u32 \<Rightarrow> u8 list \<Rightarrow> u8 list" where
  "put_version e off version rs = take off rs @ store32 e version @ drop (off + 4) rs"

definition RollbackFirmwareWrite :: "'t tlcl \<Rightarrow> endian \<Rightarrow> u32 \<Rightarrow> 't \<Rightarrow> u32 \<times> 't" where
  "RollbackFirmwareWrite T e version t =
     (case ReadSpaceFirmware T [] t of ((result, rsf), t) \<Rightarrow>
        if result \<noteq> TPM_SUCCESS then (result, t)
        else map_prod fst id (WriteSpaceFirmware T (put_version e 2 version rsf) t))"

definition RollbackFirmwareLock :: "'t tlcl \<Rightarrow> 't \<Rightarrow> u32 \<times> 't" where
  "RollbackFirmwareLock T = TlclSetGlobalLock T"

definition RollbackKernelRead :: "'t tlcl \<Rightarrow> endian \<Rightarrow> 't \<Rightarrow> (u32 \<times> u32 option) \<times> 't" where
  "RollbackKernelRead T e t =
     (case ReadSpaceKernel T [] t of ((result, rsk), t) \<Rightarrow>
        if result \<noteq> TPM_SUCCESS then ((result, None), t)
        else case TlclGetPermissions T KERNEL_NV_INDEX t of ((result, perms), t) \<Rightarrow>
          if result \<noteq> TPM_SUCCESS then ((result, None), t)
          else if TPM_NV_PER_PPWRITE T \<noteq> perms \<or> ROLLBACK_SPACE_KERNEL_UID \<noteq> load32 e (take 4 (drop 1 rsk))
          then ((TPM_E_CORRUPTED_STATE T, None), t)
          else ((TPM_SUCCESS, Some (load32 e (take 4 (drop 5 rsk)))), t))"

definition RollbackKernelWrite :: "'t tlcl \<Rightarrow> endian \<Rightarrow> u32 \<Rightarrow> 't \<Rightarrow> u32 \<times> 't" where
  "RollbackKernelWrite T e version t =
     (case ReadSpaceKernel T [] t of ((result, rsk), t) \<Rightarrow>
        if result \<noteq> TPM_SUCCESS then (result, t)
        else map_prod fst id (WriteSpaceKernel T (put_version e 5 version rsk) t))"

definition RollbackKernelLock :: "'t tlcl \<Rightarrow> bool \<Rightarrow> 't \<Rightarrow> u32 \<times> 't" where
  "RollbackKernelLock T recovery_mode t = (if recovery_mode then (TPM_SUCCESS, t) else TlclLockPhysicalPresence T t)"

subsection \<open>Without the rollback protection\<close>

text \<open>
  The functions as they are compiled with \<open>DISABLE_ROLLBACK_TPM\<close>; outside the Chrome OS environment they start the
  TPM and ignore what it returns.
\<close>

definition RollbackS3Resume_dummy :: "'t tlcl \<Rightarrow> bool \<Rightarrow> 't \<Rightarrow> u32 \<times> 't" where
  "RollbackS3Resume_dummy T chromeos_environment t =
     (TPM_SUCCESS, if \<not> chromeos_environment then snd (TlclResume T (snd (TlclLibInit T t))) else t)"

definition RollbackFirmwareSetup_dummy :: "'t tlcl \<Rightarrow> bool \<Rightarrow> 't \<Rightarrow> (u32 \<times> u32 \<times> bool option) \<times> 't" where
  "RollbackFirmwareSetup_dummy T chromeos_environment t =
     ((TPM_SUCCESS, 0, Some False),
      if \<not> chromeos_environment then snd (TlclContinueSelfTest T (snd (TlclStartup T (snd (TlclLibInit T t))))) else t)"

definition RollbackFirmwareWrite_dummy :: "u32 \<Rightarrow> 't \<Rightarrow> u32 \<times> 't" where
  "RollbackFirmwareWrite_dummy version t = (TPM_SUCCESS, t)"

definition RollbackFirmwareLock_dummy :: "'t \<Rightarrow> u32 \<times> 't" where
  "RollbackFirmwareLock_dummy t = (TPM_SUCCESS, t)"

definition RollbackKernelRead_dummy :: "'t \<Rightarrow> (u32 \<times> u32 option) \<times> 't" where
  "RollbackKernelRead_dummy t = ((TPM_SUCCESS, Some 0), t)"

definition RollbackKernelWrite_dummy :: "u32 \<Rightarrow> 't \<Rightarrow> u32 \<times> 't" where
  "RollbackKernelWrite_dummy version t = (TPM_SUCCESS, t)"

definition RollbackKernelLock_dummy :: "bool \<Rightarrow> 't \<Rightarrow> u32 \<times> 't" where
  "RollbackKernelLock_dummy recovery_mode t = (TPM_SUCCESS, t)"

subsection \<open>A TPM\<close>

text \<open>
  What the code relies on of the commands, on the spaces \<open>nv\<close> of a state. A space that is defined is read as it
  is; a write into it either stores or fails and changes nothing; the commands that do not write keep the spaces.
\<close>

definition keeps :: "('t \<Rightarrow> 'a) \<Rightarrow> ('t \<Rightarrow> 'r \<times> 't) \<Rightarrow> bool" where
  "keeps f command \<longleftrightarrow> (\<forall>t. f (snd (command t)) = f t)"

definition clear_commands_keep :: "'t tlcl \<Rightarrow> ('t \<Rightarrow> 'a) \<Rightarrow> bool" where
  "clear_commands_keep T f \<longleftrightarrow> keeps f (TlclForceClear T) \<and> keeps f (TlclSetEnable T) \<and> keeps f (TlclSetDeactivated T 0)"

definition nv_tpm :: "'t tlcl \<Rightarrow> ('t \<Rightarrow> u32 \<Rightarrow> u8 list option) \<Rightarrow> bool" where
  "nv_tpm T nv \<longleftrightarrow>
     TPM_E_CORRUPTED_STATE T \<noteq> TPM_SUCCESS \<and> TPM_E_MAXNVWRITES T \<noteq> TPM_SUCCESS \<and> TPM_E_BADINDEX T \<noteq> TPM_SUCCESS \<and>
     TPM_E_BADINDEX T \<noteq> TPM_E_CORRUPTED_STATE T \<and>
     (\<forall>i. keeps nv (TlclGetPermissions T i)) \<and> clear_commands_keep T nv \<and>
     (\<forall>t i rs. nv t i = Some rs \<longrightarrow> (\<exists>f t'. TlclRead T i (length rs) t = ((TPM_SUCCESS, f), t') \<and>
        map f [0..<length rs] = rs \<and> nv t' = nv t)) \<and>
     (\<forall>t i rs data r t'. nv t i = Some rs \<longrightarrow> length data = length rs \<longrightarrow> TlclWrite T i data t = (r, t') \<longrightarrow>
        nv t' = (if r = TPM_SUCCESS then (nv t)(i \<mapsto> data) else nv t))"

lemma nv_tpm_facts:
  assumes "nv_tpm T nv"
  shows "TPM_E_CORRUPTED_STATE T \<noteq> TPM_SUCCESS" "TPM_E_MAXNVWRITES T \<noteq> TPM_SUCCESS"
    "TPM_E_BADINDEX T \<noteq> TPM_SUCCESS" "TPM_E_BADINDEX T \<noteq> TPM_E_CORRUPTED_STATE T"
    "clear_commands_keep T nv" "nv (snd (TlclGetPermissions T i t)) = nv t"
  using assms by (simp_all add: nv_tpm_def keeps_def)

lemma nv_tpm_read:
  assumes "nv_tpm T nv" "nv t i = Some rs"
  obtains f t' where "TlclRead T i (length rs) t = ((TPM_SUCCESS, f), t')" "map f [0..<length rs] = rs" "nv t' = nv t"
  using assms unfolding nv_tpm_def by blast

lemma nv_tpm_write:
  assumes "nv_tpm T nv" "nv t i = Some rs" "length data = length rs" "TlclWrite T i data t = (r, t')"
  shows "nv t' = (if r = TPM_SUCCESS then (nv t)(i \<mapsto> data) else nv t)"
  using assms unfolding nv_tpm_def by blast

lemma RETURN_ON_FAILURE_ok: "tpm_command t = (TPM_SUCCESS, t') \<Longrightarrow> RETURN_ON_FAILURE give tpm_command rest t = rest t'"
  by (simp add: RETURN_ON_FAILURE_def)

lemma TPMClearAndReenable_keeps:
  assumes "clear_commands_keep T f"
  shows "f (snd (TPMClearAndReenable T t)) = f t"
  using assms unfolding clear_commands_keep_def keeps_def TPMClearAndReenable_def RETURN_ON_FAILURE_def
  by (auto split: prod.splits) (metis snd_conv)+

subsection \<open>Reading and writing a space\<close>

text \<open>The CRC of the space is the one of its other bytes.\<close>

definition sealed :: "u8 list \<Rightarrow> bool" where
  "sealed rs \<longleftrightarrow> rs \<noteq> [] \<and> fold crc_byte (butlast rs) 0 = last rs"

definition space_value :: "'t tlcl \<Rightarrow> u8 list \<Rightarrow> u32 \<times> u8 list" where
  "space_value T rs = (if rs ! 0 < 2 then (TPM_SUCCESS, rs[0 := 2])
     else if sealed rs then (TPM_SUCCESS, rs) else (TPM_E_CORRUPTED_STATE T, rs))"

lemma Crc8_sealed: "rs \<noteq> [] \<Longrightarrow> Crc8 rs (length rs - 1) = Some (rs ! (length rs - 1)) \<longleftrightarrow> sealed rs"
  by (auto simp: Crc8_fold sealed_def butlast_conv_take last_conv_nth)

lemma read_space_step:
  assumes "TlclRead T i (length rs) t = ((TPM_SUCCESS, f), t')" "map f [0..<length rs] = rs" "rs \<noteq> []"
  shows "read_space T i (length rs) (Suc attempts) junk t = (if rs ! 0 < 2 then ((TPM_SUCCESS, rs[0 := 2]), t')
    else if sealed rs then ((TPM_SUCCESS, rs), t') else read_space T i (length rs) attempts rs t')"
  unfolding read_space.simps assms(1) prod.case assms(2) Let_def Crc8_sealed[OF assms(3)] by simp

lemma read_space_ok:
  assumes "nv_tpm T nv" "nv t i = Some rs" "rs \<noteq> []"
  shows "\<exists>t'. read_space T i (length rs) (Suc attempts) junk t = (space_value T rs, t') \<and> nv t' = nv t"
  using assms(2)
proof (induction attempts arbitrary: junk t)
  case 0
  from assms(1) 0 obtain f t' where r: "TlclRead T i (length rs) t = ((TPM_SUCCESS, f), t')"
    "map f [0..<length rs] = rs" "nv t' = nv t" by (rule nv_tpm_read)
  then show ?case unfolding read_space_step[OF r(1,2) assms(3)] by (simp add: space_value_def)
next
  case (Suc attempts)
  from assms(1) Suc.prems obtain f t' where r: "TlclRead T i (length rs) t = ((TPM_SUCCESS, f), t')"
    "map f [0..<length rs] = rs" "nv t' = nv t" by (rule nv_tpm_read)
  have "\<exists>t''. read_space T i (length rs) (Suc attempts) rs t' = (space_value T rs, t'') \<and> nv t'' = nv t"
    using Suc.IH[of t' rs] Suc.prems r(3) by simp
  then show ?case using r(3) unfolding read_space_step[OF r(1,2) assms(3), of "Suc attempts"]
    by (auto simp: space_value_def simp del: read_space.simps)
qed

lemma SafeWrite_ok:
  assumes "nv_tpm T nv" "nv t i = Some rs" "length data = length rs" "SafeWrite T i data t = (r, t')"
  shows "nv t' = (if r = TPM_SUCCESS then (nv t)(i \<mapsto> data) else nv t)"
proof -
  obtain r1 t1 where w: "TlclWrite T i data t = (r1, t1)" by fastforce
  note n1 = nv_tpm_write[OF assms(1,2,3) w]
  show ?thesis
  proof (cases "r1 = TPM_E_MAXNVWRITES T")
    case True
    then have k1: "nv t1 = nv t" using n1 nv_tpm_facts(2)[OF assms(1)] by simp
    obtain r2 t2 where c: "TPMClearAndReenable T t1 = (r2, t2)" by fastforce
    then have k2: "nv t2 = nv t" using TPMClearAndReenable_keeps[OF nv_tpm_facts(5)[OF assms(1)], of t1] k1 by simp
    obtain r3 t3 where w2: "TlclWrite T i data t2 = (r3, t3)" by fastforce
    have k3: "nv t3 = (if r3 = TPM_SUCCESS then (nv t2)(i \<mapsto> data) else nv t2)"
      using nv_tpm_write[OF assms(1) _ assms(3) w2] assms(2) k2 by simp
    show ?thesis using assms(4) True w c w2 k2 k3
      by (auto simp: SafeWrite_def RETURN_ON_FAILURE_def split: if_splits)
  next
    case False
    then show ?thesis using assms(4) w n1 by (simp add: SafeWrite_def)
  qed
qed

lemma write_attempts_ok:
  assumes "nv_tpm T nv" "nv t i = Some old" "length rs = length old" "sealed rs" "\<not> rs ! 0 < 2"
    and "write_attempts T i (length old) (Suc attempts) rs t = (r, t')"
  shows "nv t' = (if r = TPM_SUCCESS then (nv t)(i \<mapsto> rs) else nv t)"
proof -
  obtain r1 t1 where w: "SafeWrite T i rs t = (r1, t1)" by fastforce
  note n1 = SafeWrite_ok[OF assms(1,2,3) w]
  show ?thesis
  proof (cases "r1 = TPM_SUCCESS")
    case True
    then have n: "nv t1 i = Some rs" using n1 by simp
    have ne: "rs \<noteq> []" using assms(4) by (simp add: sealed_def)
    obtain t2 where "read_space T i (length rs) (Suc 2) [] t1 = (space_value T rs, t2)" "nv t2 = nv t1"
      using read_space_ok[where attempts = 2 and junk = "[]", OF assms(1) n ne] by blast
    then show ?thesis using assms(3-6) True w n1 by (simp add: space_value_def numeral_3_eq_3 numeral_2_eq_2 del: read_space.simps)
  next
    case False
    then show ?thesis using assms(6) w n1 by simp
  qed
qed

lemma seal_space_length [simp]: "length (seal_space n rs) = length rs"
  by (simp add: seal_space_def Let_def)

lemma seal_space_sealed:
  assumes "length rs = n" "2 \<le> n"
  shows "sealed (seal_space n rs)" "\<not> seal_space n rs ! 0 < 2"
    "\<And>k. 0 < k \<Longrightarrow> k < n - 1 \<Longrightarrow> seal_space n rs ! k = rs ! k"
proof -
  define q where "q = (if rs ! 0 < 2 then rs[0 := 2] else rs)"
  have q: "length q = n" "\<not> q ! 0 < 2" "\<And>k. 0 < k \<Longrightarrow> q ! k = rs ! k" using assms by (auto simp: q_def)
  have s: "seal_space n rs = butlast q @ [fold crc_byte (butlast q) 0]"
    using q(1) assms(2) unfolding seal_space_def Let_def q_def[symmetric]
    by (simp add: Crc8_fold butlast_conv_take list_update_append1 upd_conv_take_nth_drop)
  show "sealed (seal_space n rs)" by (simp add: s sealed_def)
  show "\<not> seal_space n rs ! 0 < 2" using q(1,2) assms(2) by (simp add: s nth_append nth_butlast)
  show "seal_space n rs ! k = rs ! k" if "0 < k" "k < n - 1" for k
    using that q(1,3) by (simp add: s nth_append nth_butlast)
qed

lemma write_space_ok:
  assumes "nv_tpm T nv" "nv t i = Some old" "length rs = length old" "2 \<le> length old"
    and "write_space T i (length old) rs t = ((r, out), t')"
  shows "out = seal_space (length old) rs \<and> nv t' = (if r = TPM_SUCCESS then (nv t)(i \<mapsto> out) else nv t)"
proof -
  have s: "sealed (seal_space (length old) rs)" "\<not> seal_space (length old) rs ! 0 < 2"
    using seal_space_sealed[OF assms(3,4)] by simp_all
  show ?thesis
    using assms(5) write_attempts_ok[where attempts = 2, OF assms(1,2) _ s] assms(3)
    by (auto simp: write_space_def Let_def numeral_3_eq_3 numeral_2_eq_2 simp del: write_attempts.simps split: prod.splits)
qed

lemma seal_space_part:
  assumes "length rs = n" "0 < a" "a + m \<le> n - 1"
  shows "take m (drop a (seal_space n rs)) = take m (drop a rs)"
proof (rule nth_equalityI)
  fix i
  assume "i < length (take m (drop a (seal_space n rs)))"
  then have i: "i < m" by simp
  have "2 \<le> n" using assms i by simp
  moreover have "a + i < n - 1" using assms(3) i by simp
  ultimately have "seal_space n rs ! (a + i) = rs ! (a + i)" using assms(2) by (intro seal_space_sealed(3)[OF assms(1)]) simp_all
  then show "take m (drop a (seal_space n rs)) ! i = take m (drop a rs) ! i" using i assms by simp
qed (simp add: assms)

lemma put_version_parts:
  assumes "off + 4 \<le> length rs"
  shows "length (put_version e off version rs) = length rs" "take 4 (drop off (put_version e off version rs)) = store32 e version"
    "\<And>a m. a + m \<le> off \<Longrightarrow> take m (drop a (put_version e off version rs)) = take m (drop a rs)"
proof -
  show "length (put_version e off version rs) = length rs" using assms by (simp add: put_version_def)
  show "take 4 (drop off (put_version e off version rs)) = store32 e version" using assms by (simp add: put_version_def)
  show "take m (drop a (put_version e off version rs)) = take m (drop a rs)" if "a + m \<le> off" for a m
    using assms that by (simp add: put_version_def take_drop min_def)
qed

lemma update_part: "k < a \<Longrightarrow> take m (drop a (rs[k := x])) = take m (drop a rs)"
  by simp

text \<open>The three steps of a change of the version: read, put, write.\<close>

lemma write_version_ok:
  assumes "nv_tpm T nv" "nv t i = Some rs" "length rs = n" "off + 5 \<le> n"
    and "(case read_space T i n 3 [] t of ((result, rs), t) \<Rightarrow>
        if result \<noteq> TPM_SUCCESS then (result, t)
        else map_prod fst id (write_space T i n (put_version e off version rs) t)) = (r, t')"
  shows "nv t' = (if r = TPM_SUCCESS then (nv t)(i \<mapsto> seal_space n (put_version e off version (snd (space_value T rs)))) else nv t)"
    "fst (space_value T rs) \<noteq> TPM_SUCCESS \<Longrightarrow> r = fst (space_value T rs)"
proof -
  let ?v = "space_value T rs"
  from assms(3,4) have ne: "rs \<noteq> []" by auto
  obtain t1 where r1: "read_space T i n 3 [] t = (?v, t1)" "nv t1 = nv t"
    using read_space_ok[where attempts = 2 and junk = "[]", OF assms(1,2) ne] assms(3)
    by (auto simp: numeral_3_eq_3 numeral_2_eq_2 simp del: read_space.simps)
  have l: "length (put_version e off version (snd ?v)) = length rs"
    using assms(3,4) by (simp add: put_version_def space_value_def)
  obtain r2 out t2 where w: "write_space T i n (put_version e off version (snd ?v)) t1 = ((r2, out), t2)" by (metis prod_cases3 surj_pair)
  have n1: "nv t1 i = Some rs" using r1(2) assms(2) by simp
  have w': "write_space T i (length rs) (put_version e off version (snd ?v)) t1 = ((r2, out), t2)" using w assms(3) by simp
  have "2 \<le> length rs" using assms(3,4) by simp
  from write_space_ok[OF assms(1) n1 l this w']
  have k: "out = seal_space n (put_version e off version (snd ?v)) \<and> nv t2 = (if r2 = TPM_SUCCESS then (nv t1)(i \<mapsto> out) else nv t1)"
    using assms(3) by simp
  show "nv t' = (if r = TPM_SUCCESS then (nv t)(i \<mapsto> seal_space n (put_version e off version (snd ?v))) else nv t)"
    using assms(5) r1 w k by (cases "?v") (auto split: if_splits)
  show "fst ?v \<noteq> TPM_SUCCESS \<Longrightarrow> r = fst ?v"
    using assms(5) r1 by (cases "?v") (auto split: if_splits)
qed

lemma space_value_part: "0 < a \<Longrightarrow> take m (drop a (snd (space_value T rs))) = take m (drop a rs)"
  by (simp add: space_value_def)

lemma space_value_length [simp]: "length (snd (space_value T rs)) = length rs"
  by (simp add: space_value_def)

lemma space_value_sealed: "sealed rs \<Longrightarrow> \<not> rs ! 0 < 2 \<Longrightarrow> space_value T rs = (TPM_SUCCESS, rs)"
  by (simp add: space_value_def)

lemma changed_not_sealed:
  assumes "sealed rs" "k < length rs" "b \<noteq> rs ! k"
  shows "\<not> sealed (rs[k := b])"
proof (cases "k = length rs - 1")
  case True
  then have "rs[k := b] = butlast rs @ [b]" using assms(2)
    by (metis append_butlast_last_id length_butlast length_greater_0_conv less_nat_zero_code list.size(3) list_update_length)
  then show ?thesis using assms True by (auto simp: sealed_def last_conv_nth)
next
  case False
  define xs a ys where "xs = take k (butlast rs)" and "a = rs ! k" and "ys = drop (Suc k) (butlast rs)"
  from False assms(2) have k: "k < length (butlast rs)" by simp
  then have d: "butlast rs = xs @ a # ys" unfolding xs_def a_def ys_def using id_take_nth_drop[OF k] nth_butlast[OF k] by simp
  have u: "butlast (rs[k := b]) = xs @ b # ys"
    using k unfolding butlast_list_update xs_def ys_def by (simp add: upd_conv_take_nth_drop)
  have "rs \<noteq> []" using assms(2) by auto
  then have "last (rs[k := b]) = last rs" using False by (simp add: last_list_update)
  moreover have "c XOR b = c XOR a \<longleftrightarrow> b = a" for c :: u8 by (metis xor.assoc xor.left_neutral xor_self_eq)
  ultimately show ?thesis using assms(1,3) d u
    by (auto simp: sealed_def a_def) (metis crc_byte_inject fold_crc_inject)
qed

lemma ReadSpaceFirmware_ok:
  assumes "nv_tpm T nv" "nv t FIRMWARE_NV_INDEX = Some rs" "length rs = 10"
  shows "fst (ReadSpaceFirmware T [] t) = space_value T rs"
proof -
  from assms(3) have "rs \<noteq> []" by auto
  from read_space_ok[where attempts = 2 and junk = "[]", OF assms(1,2) this] assms(3) show ?thesis
    by (auto simp: ReadSpaceFirmware_def numeral_3_eq_3 numeral_2_eq_2 simp del: read_space.simps)
qed

lemma RollbackKernelRead_ok:
  assumes "nv_tpm T nv" "nv t KERNEL_NV_INDEX = Some rs" "length rs = 13" "fst (space_value T rs) = TPM_SUCCESS"
    and "\<forall>t. fst (TlclGetPermissions T KERNEL_NV_INDEX t) = (TPM_SUCCESS, TPM_NV_PER_PPWRITE T)"
    and "load32 e (take 4 (drop 1 rs)) = ROLLBACK_SPACE_KERNEL_UID"
  shows "fst (RollbackKernelRead T e t) = (TPM_SUCCESS, Some (load32 e (take 4 (drop 5 rs))))"
proof -
  from assms(3) have ne: "rs \<noteq> []" by auto
  obtain t1 where r1: "ReadSpaceKernel T [] t = (space_value T rs, t1)"
    using read_space_ok[where attempts = 2 and junk = "[]", OF assms(1,2) ne] assms(3)
    by (auto simp: ReadSpaceKernel_def numeral_3_eq_3 numeral_2_eq_2 simp del: read_space.simps)
  obtain t2 where p: "TlclGetPermissions T KERNEL_NV_INDEX t1 = ((TPM_SUCCESS, TPM_NV_PER_PPWRITE T), t2)"
    using assms(5) by (metis prod.collapse)
  have u: "load32 e (take 4 (drop 1 (snd (space_value T rs)))) = ROLLBACK_SPACE_KERNEL_UID"
    using assms(6) by (simp only: space_value_part zero_less_one)
  have v: "take 4 (drop 5 (snd (space_value T rs))) = take 4 (drop 5 rs)" by (rule space_value_part) simp
  show ?thesis using r1 p u v assms(4)
    by (cases "space_value T rs") (simp add: RollbackKernelRead_def)
qed

subsection \<open>The owner\<close>

text \<open>A clear that succeeds leaves no owner, and none of the commands used after it makes one.\<close>

definition unowned_tpm :: "'t tlcl \<Rightarrow> ('t \<Rightarrow> bool) \<Rightarrow> bool" where
  "unowned_tpm T owner \<longleftrightarrow>
     (\<forall>t t'. TlclForceClear T t = (TPM_SUCCESS, t') \<longrightarrow> \<not> owner t') \<and>
     (\<forall>t. \<not> owner t \<longrightarrow> \<not> owner (snd (TlclForceClear T t)) \<and> \<not> owner (snd (TlclSetEnable T t)) \<and>
       \<not> owner (snd (TlclSetDeactivated T 0 t)) \<and> (\<forall>i n. \<not> owner (snd (TlclRead T i n t))) \<and>
       (\<forall>i data. \<not> owner (snd (TlclWrite T i data t))))"

lemma unowned_tpmD:
  assumes "unowned_tpm T owner"
  shows "TlclForceClear T t = (TPM_SUCCESS, t') \<Longrightarrow> \<not> owner t'"
    "TlclForceClear T t = (r, t') \<Longrightarrow> \<not> owner t \<Longrightarrow> \<not> owner t'"
    "TlclSetEnable T t = (r, t') \<Longrightarrow> \<not> owner t \<Longrightarrow> \<not> owner t'"
    "TlclSetDeactivated T 0 t = (r, t') \<Longrightarrow> \<not> owner t \<Longrightarrow> \<not> owner t'"
    "TlclRead T i n t = (q, t') \<Longrightarrow> \<not> owner t \<Longrightarrow> \<not> owner t'"
    "TlclWrite T i data t = (r, t') \<Longrightarrow> \<not> owner t \<Longrightarrow> \<not> owner t'"
  using assms unfolding unowned_tpm_def by (metis snd_conv)+

lemma clear_unowned:
  assumes "unowned_tpm T owner" "TPMClearAndReenable T t = (r, t')"
  shows "r = TPM_SUCCESS \<Longrightarrow> \<not> owner t'" "\<not> owner t \<Longrightarrow> \<not> owner t'"
  using assms(2) unfolding TPMClearAndReenable_def RETURN_ON_FAILURE_def
  by (auto split: prod.splits if_splits dest: unowned_tpmD[OF assms(1)])

lemma SafeWrite_unowned:
  "unowned_tpm T owner \<Longrightarrow> SafeWrite T i data t = (r, t') \<Longrightarrow> \<not> owner t \<Longrightarrow> \<not> owner t'"
  unfolding SafeWrite_def RETURN_ON_FAILURE_def
  by (auto split: prod.splits if_splits dest: unowned_tpmD clear_unowned)

lemma read_space_unowned:
  assumes "unowned_tpm T owner"
  shows "read_space T i n attempts rs t = (q, t') \<Longrightarrow> \<not> owner t \<Longrightarrow> \<not> owner t'"
  by (induction attempts arbitrary: rs t)
    (auto simp: Let_def split: prod.splits if_splits dest: unowned_tpmD[OF assms])

lemma write_attempts_unowned:
  assumes "unowned_tpm T owner"
  shows "write_attempts T i n attempts rs t = (q, t') \<Longrightarrow> \<not> owner t \<Longrightarrow> \<not> owner t'"
  by (induction attempts arbitrary: t)
    (auto split: prod.splits if_splits dest: SafeWrite_unowned[OF assms] read_space_unowned[OF assms])

lemma write_space_unowned:
  "unowned_tpm T owner \<Longrightarrow> write_space T i n rs t = (q, t') \<Longrightarrow> \<not> owner t \<Longrightarrow> \<not> owner t'"
  unfolding write_space_def Let_def by (auto split: prod.splits dest: write_attempts_unowned)

subsection \<open>The setup\<close>

definition setup_commands_keep :: "'t tlcl \<Rightarrow> ('t \<Rightarrow> 'a) \<Rightarrow> bool" where
  "setup_commands_keep T f \<longleftrightarrow> keeps f (TlclLibInit T) \<and> keeps f (TlclStartup T) \<and> keeps f (TlclAssertPhysicalPresence T) \<and>
     keeps f (TlclPhysicalPresenceCMDEnable T) \<and> keeps f (TlclGetFlags T)"

lemma keepsD: "keeps f command \<Longrightarrow> command t = (r, t') \<Longrightarrow> f t' = f t"
  unfolding keeps_def by (metis snd_conv)

lemma setup_commands_keepD:
  assumes "setup_commands_keep T f"
  shows "TlclLibInit T t = (r, t') \<Longrightarrow> f t' = f t" "TlclStartup T t = (r, t') \<Longrightarrow> f t' = f t"
    "TlclAssertPhysicalPresence T t = (r, t') \<Longrightarrow> f t' = f t" "TlclPhysicalPresenceCMDEnable T t = (r, t') \<Longrightarrow> f t' = f t"
    "TlclGetFlags T t = (q, t') \<Longrightarrow> f t' = f t"
  using assms unfolding setup_commands_keep_def by (blast dest: keepsD)+

text \<open>A device that is set up reads its firmware space and goes on to the flags.\<close>

lemma SetupTPM_flags:
  assumes "nv_tpm T nv" "setup_commands_keep T nv" "TPM_E_MUST_REBOOT T \<noteq> TPM_SUCCESS"
    and "nv t FIRMWARE_NV_INDEX = Some rs" "length rs = 10"
    and "SetupTPM T e developer_mode disable_dev_request clear_tpm_owner_request t = ((TPM_SUCCESS, rsf), t')"
  shows "fst (space_value T rs) = TPM_SUCCESS \<and> (\<exists>t1. nv t1 = nv t \<and> setup_flags T developer_mode disable_dev_request
    clear_tpm_owner_request (snd (space_value T rs)) t1 = ((TPM_SUCCESS, rsf), t'))"
proof -
  define G where "G t = (case ReadSpaceFirmware T [] t of ((result, rsf), t) \<Rightarrow>
         if result = TPM_E_BADINDEX T then
           (case OneTimeInitializeTPM T e rsf t of ((result, rsf), t) \<Rightarrow>
              if result \<noteq> TPM_SUCCESS then ((result, rsf), t)
              else setup_flags T developer_mode disable_dev_request clear_tpm_owner_request rsf t)
         else if result \<noteq> TPM_SUCCESS then ((TPM_E_CORRUPTED_STATE T, rsf), t)
         else setup_flags T developer_mode disable_dev_request clear_tpm_owner_request rsf t)" for t
  note k = setup_commands_keepD[OF assms(2)]
  obtain t1 where n1: "nv t1 = nv t" and s: "G t1 = ((TPM_SUCCESS, rsf), t')"
    using assms(6,3) unfolding SetupTPM_def RETURN_ON_FAILURE_def G_def[symmetric]
    by (auto split: prod.splits if_splits) (metis k)+
  have ne: "rs \<noteq> []" using assms(5) by auto
  obtain t2 where r: "ReadSpaceFirmware T [] t1 = (space_value T rs, t2)" "nv t2 = nv t"
    using read_space_ok[where attempts = 2 and junk = "[]", OF assms(1) _ ne, of t1 FIRMWARE_NV_INDEX] assms(4,5) n1
    by (auto simp: ReadSpaceFirmware_def numeral_3_eq_3 numeral_2_eq_2 simp del: read_space.simps)
  have c: "fst (space_value T rs) = TPM_SUCCESS \<or> fst (space_value T rs) = TPM_E_CORRUPTED_STATE T"
    by (simp add: space_value_def)
  show ?thesis using s[unfolded G_def] r c nv_tpm_facts(1,3,4)[OF assms(1)]
    by (cases "space_value T rs") (auto split: if_splits)
qed

text \<open>The mode the device boots in, and the flags it leaves.\<close>

definition boots_developer :: "bool \<Rightarrow> bool \<Rightarrow> u8 \<Rightarrow> bool" where
  "boots_developer developer_mode disable_dev_request flags \<longleftrightarrow>
     developer_mode \<or> (\<not> disable_dev_request \<and> flags AND FLAG_VIRTUAL_DEV_MODE_ON \<noteq> 0)"

definition flags_after :: "bool \<Rightarrow> bool \<Rightarrow> u8 \<Rightarrow> u8" where
  "flags_after developer_mode disable_dev_request flags =
     (let f = (if disable_dev_request then flags AND NOT FLAG_VIRTUAL_DEV_MODE_ON else flags) in
      if boots_developer developer_mode disable_dev_request flags then f OR FLAG_LAST_BOOT_DEVELOPER
      else f AND NOT FLAG_LAST_BOOT_DEVELOPER)"

definition clears_owner :: "bool \<Rightarrow> bool \<Rightarrow> bool \<Rightarrow> u8 \<Rightarrow> bool" where
  "clears_owner developer_mode disable_dev_request clear_tpm_owner_request flags \<longleftrightarrow>
     (flags AND FLAG_LAST_BOOT_DEVELOPER \<noteq> 0) \<noteq> boots_developer developer_mode disable_dev_request flags \<or>
     clear_tpm_owner_request"

lemma and_and_not_self: "(x AND NOT y) AND y = (0 :: u8)"
  by (simp add: and.assoc)

lemma last_boot_flag:
  "(if b then FLAG_LAST_BOOT_DEVELOPER else 0) \<noteq> x AND FLAG_LAST_BOOT_DEVELOPER \<longleftrightarrow> (x AND FLAG_LAST_BOOT_DEVELOPER \<noteq> 0) \<noteq> b"
proof -
  have "x AND 1 = 0 \<or> x AND 1 = 1" by (simp add: and_one_eq of_bool_def mod_2_eq_odd)
  then show ?thesis by (auto simp: FLAG_LAST_BOOT_DEVELOPER_def)
qed

lemma setup_flags_eq:
  fixes developer_mode disable_dev_request :: bool
  assumes "length rs = 10"
  defines "f \<equiv> flags_after developer_mode disable_dev_request (rs ! 1)"
  shows "setup_flags T developer_mode disable_dev_request clear_tpm_owner_request rs t =
    RETURN_ON_FAILURE (\<lambda>r. (r, if disable_dev_request then rs[1 := rs ! 1 AND NOT FLAG_VIRTUAL_DEV_MODE_ON] else rs))
      (\<lambda>t. if clears_owner developer_mode disable_dev_request clear_tpm_owner_request (rs ! 1)
         then TPMClearAndReenable T t else (TPM_SUCCESS, t))
      (\<lambda>t. if f \<noteq> rs ! 1 then WriteSpaceFirmware T (rs[1 := f]) t else ((TPM_SUCCESS, rs[1 := f]), t)) t"
proof -
  let ?d = "if disable_dev_request then rs[1 := rs ! 1 AND NOT FLAG_VIRTUAL_DEV_MODE_ON] else rs"
  let ?b = "boots_developer developer_mode disable_dev_request (rs ! 1)"
  have b: "(?d ! 1 AND FLAG_VIRTUAL_DEV_MODE_ON \<noteq> 0 \<or> developer_mode) = ?b"
    using assms(1) by (auto simp: boots_developer_def and_and_not_self)
  have d: "(if ?b then ?d[1 := ?d ! 1 OR FLAG_LAST_BOOT_DEVELOPER] else ?d[1 := ?d ! 1 AND NOT FLAG_LAST_BOOT_DEVELOPER]) = rs[1 := f]"
    using assms(1) by (simp add: f_def flags_after_def Let_def)
  have l: "(if (if ?b then FLAG_LAST_BOOT_DEVELOPER else 0) \<noteq> rs ! 1 AND FLAG_LAST_BOOT_DEVELOPER then c t
      else if clear_tpm_owner_request then c t else z t) =
      (if clears_owner developer_mode disable_dev_request clear_tpm_owner_request (rs ! 1) then c t else z t)" for c z :: "'a \<Rightarrow> u32 \<times> 'a" and t
    unfolding last_boot_flag clears_owner_def by simp
  have n: "rs[1 := f] ! 1 = f" using assms(1) by simp
  show ?thesis unfolding setup_flags_def Let_def b d l n by (rule refl)
qed

lemma setup_flags_ok:
  fixes developer_mode disable_dev_request :: bool
  assumes "nv_tpm T nv" "unowned_tpm T owner" "nv t FIRMWARE_NV_INDEX = Some old" "length old = 10" "length rs = 10"
    and "setup_flags T developer_mode disable_dev_request clear_tpm_owner_request rs t = ((TPM_SUCCESS, rsf), t')"
  defines "f \<equiv> flags_after developer_mode disable_dev_request (rs ! 1)"
  shows "rsf = rs[1 := f] \<and> f = rs ! 1 \<and> nv t' = nv t \<or>
      rsf = seal_space 10 (rs[1 := f]) \<and> nv t' = (nv t)(FIRMWARE_NV_INDEX \<mapsto> rsf)"
    and "clears_owner developer_mode disable_dev_request clear_tpm_owner_request (rs ! 1) \<Longrightarrow> \<not> owner t'"
proof -
  let ?c = "clears_owner developer_mode disable_dev_request clear_tpm_owner_request (rs ! 1)"
  obtain t1 where t1: "(if ?c then TPMClearAndReenable T t else (TPM_SUCCESS, t)) = (TPM_SUCCESS, t1)"
    "(if f \<noteq> rs ! 1 then WriteSpaceFirmware T (rs[1 := f]) t1 else ((TPM_SUCCESS, rs[1 := f]), t1)) = ((TPM_SUCCESS, rsf), t')"
    using assms(6) unfolding setup_flags_eq[OF assms(5)] RETURN_ON_FAILURE_def f_def[symmetric]
    by (cases "if ?c then TPMClearAndReenable T t else (TPM_SUCCESS, t)") (auto split: if_splits)
  have n: "nv t1 = nv t"
    using t1(1) TPMClearAndReenable_keeps[OF nv_tpm_facts(5)[OF assms(1)], of t] by (auto split: if_splits)
  have n1: "nv t1 FIRMWARE_NV_INDEX = Some old" using n assms(3) by simp
  have w: "length (rs[1 := f]) = length old" "2 \<le> length old" using assms(4,5) by simp_all
  show "rsf = rs[1 := f] \<and> f = rs ! 1 \<and> nv t' = nv t \<or>
      rsf = seal_space 10 (rs[1 := f]) \<and> nv t' = (nv t)(FIRMWARE_NV_INDEX \<mapsto> rsf)"
    using t1(2) n write_space_ok[OF assms(1) n1 w] assms(4)
    by (auto simp: WriteSpaceFirmware_def split: if_splits)
  show "\<not> owner t'" if ?c
  proof -
    have "\<not> owner t1" using t1(1) that clear_unowned(1)[OF assms(2)] by simp
    then show ?thesis using t1(2) write_space_unowned[OF assms(2)]
      by (auto simp: WriteSpaceFirmware_def split: if_splits)
  qed
qed

subsection \<open>A TPM to evaluate on\<close>

text \<open>Spaces in memory, and an owner.\<close>

definition ram_tpm :: "((u32 \<Rightarrow> u8 list option) \<times> bool) tlcl" where
  "ram_tpm = \<lparr> TPM_E_MAXNVWRITES = 72, TPM_E_CORRUPTED_STATE = 0x5003, TPM_E_BADINDEX = 2, TPM_E_INVALID_POSTINIT = 38,
     TPM_E_MUST_REBOOT = 0x5004, TPM_NV_PER_PPWRITE = 1, TPM_NV_PER_GLOBALLOCK = 0x8000,
     TlclRead = (\<lambda>i n t. case fst t i of Some rs \<Rightarrow> ((0, (!) rs), t) | None \<Rightarrow> ((2, \<lambda>k. 0), t)),
     TlclWrite = (\<lambda>i data t. case fst t i of Some rs \<Rightarrow> (0, (fst t)(i \<mapsto> data), snd t) | None \<Rightarrow> (2, t)),
     TlclDefineSpace = (\<lambda>i p n t. (0, (fst t)(i \<mapsto> replicate n 255), snd t)),
     TlclForceClear = (\<lambda>t. (0, fst t, False)), TlclSetEnable = Pair 0, TlclSetDeactivated = (\<lambda>f. Pair 0),
     TlclSelfTestFull = Pair 0, TlclGetPermanentFlags = Pair (0, True, True), TlclFinalizePhysicalPresence = Pair 0,
     TlclSetNvLocked = Pair 0, TlclLibInit = Pair 0, TlclStartup = Pair 0, TlclContinueSelfTest = Pair 0, TlclResume = Pair 0,
     TlclAssertPhysicalPresence = Pair 0, TlclPhysicalPresenceCMDEnable = Pair 0, TlclGetFlags = Pair (0, 0, 0),
     TlclGetPermissions = (\<lambda>i. Pair (0, 1)), TlclSetGlobalLock = Pair 0, TlclLockPhysicalPresence = Pair 0 \<rparr>"

lemma ram_tpm_ok:
  "nv_tpm ram_tpm fst" "unowned_tpm ram_tpm snd" "setup_commands_keep ram_tpm fst"
  "TPM_E_MUST_REBOOT ram_tpm \<noteq> TPM_SUCCESS"
  "fst (TlclGetPermissions ram_tpm KERNEL_NV_INDEX t) = (TPM_SUCCESS, TPM_NV_PER_PPWRITE ram_tpm)"
proof -
  show "nv_tpm ram_tpm fst"
    by (auto simp: nv_tpm_def ram_tpm_def TPM_SUCCESS_def keeps_def clear_commands_keep_def map_nth split: option.splits)
  show "unowned_tpm ram_tpm snd"
    by (auto simp: unowned_tpm_def ram_tpm_def split: option.splits)
qed (auto simp: setup_commands_keep_def keeps_def ram_tpm_def TPM_SUCCESS_def)

subsection \<open>Properties\<close>

text \<open>C9: A write of the kernel version to a TPM whose kernel space has the right identifier and permissions either
  succeeds, after which the version that is read is the one written and no other space has changed, or it returns
  an error and no space has changed.\<close>

theorem RollbackKernelWrite_Read:
  assumes "nv_tpm T nv" "nv t KERNEL_NV_INDEX = Some rs" "length rs = 13"
    and "\<forall>t. fst (TlclGetPermissions T KERNEL_NV_INDEX t) = (TPM_SUCCESS, TPM_NV_PER_PPWRITE T)"
    and "load32 e (take 4 (drop 1 rs)) = ROLLBACK_SPACE_KERNEL_UID"
    and "RollbackKernelWrite T e version t = (r, t')"
  shows "if r = TPM_SUCCESS then fst (RollbackKernelRead T e t') = (TPM_SUCCESS, Some version) \<and>
      (\<forall>i. i \<noteq> KERNEL_NV_INDEX \<longrightarrow> nv t' i = nv t i)
    else nv t' = nv t"
proof -
  let ?q = "put_version e 5 version (snd (space_value T rs))"
  let ?s = "seal_space 13 ?q"
  have o: "(5 :: nat) + 5 \<le> 13" by simp
  have n: "nv t' = (if r = TPM_SUCCESS then (nv t)(KERNEL_NV_INDEX \<mapsto> ?s) else nv t)"
    using write_version_ok(1)[OF assms(1-3) o, of e version r t'] assms(6)
    unfolding RollbackKernelWrite_def ReadSpaceKernel_def WriteSpaceKernel_def by simp
  have p: "5 + 4 \<le> length (snd (space_value T rs))" using assms(3) by simp
  have l: "length ?q = 13" using put_version_parts(1)[OF p] assms(3) by simp
  have s: "sealed ?s" "\<not> ?s ! 0 < 2" using seal_space_sealed[OF l] by simp_all
  have u: "take 4 (drop 1 ?s) = take 4 (drop 1 rs)"
    using seal_space_part[OF l, of 1 4] put_version_parts(3)[OF p, of 1 4] space_value_part[of 1 4 T rs] by simp
  have v: "take 4 (drop 5 ?s) = store32 e version"
    using seal_space_part[OF l, of 5 4] put_version_parts(2)[OF p] by simp
  have "fst (RollbackKernelRead T e t') = (TPM_SUCCESS, Some version)" if "r = TPM_SUCCESS"
    using RollbackKernelRead_ok[OF assms(1), of t' ?s e] n that l s u v assms(4,5)
    by (simp add: space_value_sealed load_store32)
  then show ?thesis using n by simp
qed

text \<open>A kernel space as the one-time initialisation leaves it.\<close>

definition kernel_space :: "u8 list" where
  "kernel_space = seal_space 13 (rsk_init Little)"

lemma kernel_space_value: "kernel_space = [2, 0x4C, 0x57, 0x52, 0x47, 0, 0, 0, 0, 0, 0, 0, 232]"
  by code_simp

lemma RollbackKernelWrite_Read_witness:
  "fst (RollbackKernelRead ram_tpm Little (snd (RollbackKernelWrite ram_tpm Little 0x10002
     ([KERNEL_NV_INDEX \<mapsto> kernel_space], True)))) = (TPM_SUCCESS, Some 0x10002)"
proof -
  let ?t = "([KERNEL_NV_INDEX \<mapsto> kernel_space], True)"
  obtain r t' where w: "RollbackKernelWrite ram_tpm Little 0x10002 ?t = (r, t')" by (metis surj_pair)
  have "fst (RollbackKernelWrite ram_tpm Little 0x10002 ?t) = TPM_SUCCESS" by code_simp
  with w have r: "r = TPM_SUCCESS" by simp
  have n: "fst ?t KERNEL_NV_INDEX = Some kernel_space" by simp
  have l: "length kernel_space = 13" "load32 Little (take 4 (drop 1 kernel_space)) = ROLLBACK_SPACE_KERNEL_UID"
    by code_simp+
  have p: "\<forall>t. fst (TlclGetPermissions ram_tpm KERNEL_NV_INDEX t) = (TPM_SUCCESS, TPM_NV_PER_PPWRITE ram_tpm)"
    using ram_tpm_ok(5) by blast
  show ?thesis using RollbackKernelWrite_Read[OF ram_tpm_ok(1) n l(1) p l(2) w] w r by simp
qed

text \<open>C40: A sealed kernel space of version 2 or later with one byte changed is refused, as long as the change does not
  lower the version below 2: the version cannot be read, and a write returns an error and leaves the spaces.\<close>

theorem corrupted_kernel_space_refused:
  assumes "nv_tpm T nv" "sealed rs" "length rs = 13" "k < 13" "b \<noteq> rs ! k" "\<not> rs[k := b] ! 0 < 2"
    and "nv t KERNEL_NV_INDEX = Some (rs[k := b])"
  shows "fst (RollbackKernelRead T e t) = (TPM_E_CORRUPTED_STATE T, None) \<and>
    fst (RollbackKernelWrite T e version t) = TPM_E_CORRUPTED_STATE T \<and>
    nv (snd (RollbackKernelWrite T e version t)) = nv t"
proof -
  let ?s = "rs[k := b]"
  have c: "space_value T ?s = (TPM_E_CORRUPTED_STATE T, ?s)"
    using changed_not_sealed[OF assms(2) _ assms(5)] assms(3,4,6) by (simp add: space_value_def)
  have l: "length ?s = 13" "?s \<noteq> []" using assms(3) by auto
  obtain t1 where r1: "ReadSpaceKernel T [] t = ((TPM_E_CORRUPTED_STATE T, ?s), t1)"
    using read_space_ok[where attempts = 2 and junk = "[]", OF assms(1,7) l(2)] l(1) c
    by (auto simp: ReadSpaceKernel_def numeral_3_eq_3 numeral_2_eq_2 simp del: read_space.simps)
  obtain r t' where w: "RollbackKernelWrite T e version t = (r, t')" by (metis surj_pair)
  have o: "(5 :: nat) + 5 \<le> 13" by simp
  have "r = TPM_E_CORRUPTED_STATE T \<and> nv t' = nv t"
    using write_version_ok[OF assms(1,7) l(1) o, of e version r t'] w c nv_tpm_facts(1)[OF assms(1)]
    unfolding RollbackKernelWrite_def ReadSpaceKernel_def WriteSpaceKernel_def by simp
  then show ?thesis using r1 w nv_tpm_facts(1)[OF assms(1)] by (simp add: RollbackKernelRead_def)
qed

lemma corrupted_kernel_space_refused_witness:
  "fst (RollbackKernelRead ram_tpm Little ([KERNEL_NV_INDEX \<mapsto> kernel_space[5 := 9]], True)) =
     (TPM_E_CORRUPTED_STATE ram_tpm, None)"
proof -
  have s: "sealed kernel_space" "length kernel_space = 13" "5 < (13 :: nat)" "9 \<noteq> kernel_space ! 5" "\<not> kernel_space[5 := 9] ! 0 < 2"
    by code_simp+
  have n: "fst ([KERNEL_NV_INDEX \<mapsto> kernel_space[5 := 9]], True) KERNEL_NV_INDEX = Some (kernel_space[5 := 9])" by simp
  show ?thesis using corrupted_kernel_space_refused[OF ram_tpm_ok(1) s n] by blast
qed

text \<open>C8: When the setup of a device with a firmware space succeeds, the space that is read next is the one it
  returned; the versions in it are as before, its flags are those of the mode the device boots in; and when that
  mode is not the one of the last boot, or the clear was requested, the TPM has no owner.\<close>

theorem SetupTPM_correct:
  assumes "nv_tpm T nv" "setup_commands_keep T nv" "TPM_E_MUST_REBOOT T \<noteq> TPM_SUCCESS" "unowned_tpm T owner"
    and "nv t FIRMWARE_NV_INDEX = Some rs" "length rs = 10"
    and "SetupTPM T e developer_mode disable_dev_request clear_tpm_owner_request t = ((TPM_SUCCESS, rsf), t')"
  shows "fst (ReadSpaceFirmware T [] t') = (TPM_SUCCESS, rsf) \<and> take 4 (drop 2 rsf) = take 4 (drop 2 rs) \<and>
    rsf ! 1 = flags_after developer_mode disable_dev_request (rs ! 1) \<and>
    (clears_owner developer_mode disable_dev_request clear_tpm_owner_request (rs ! 1) \<longrightarrow> \<not> owner t')"
proof -
  let ?v = "snd (space_value T rs)" and ?f = "flags_after developer_mode disable_dev_request (rs ! 1)"
  obtain t1 where c: "fst (space_value T rs) = TPM_SUCCESS" and t1: "nv t1 = nv t"
    "setup_flags T developer_mode disable_dev_request clear_tpm_owner_request ?v t1 = ((TPM_SUCCESS, rsf), t')"
    using SetupTPM_flags[OF assms(1-3,5-7)] by blast
  have n1: "nv t1 FIRMWARE_NV_INDEX = Some rs" using t1(1) assms(5) by simp
  have l: "length ?v = 10" using assms(6) by simp
  have v1: "?v ! 1 = rs ! 1" using assms(6) by (simp add: space_value_def)
  note s = setup_flags_ok[OF assms(1,4) n1 assms(6) l t1(2), unfolded v1]
  have z: "?v[1 := rs ! 1] = ?v" using v1 by (metis list_update_id)
  from s(1) have e: "(rsf = ?v \<and> ?f = rs ! 1 \<and> nv t' FIRMWARE_NV_INDEX = Some rs) \<or>
      (rsf = seal_space 10 (?v[1 := ?f]) \<and> nv t' FIRMWARE_NV_INDEX = Some rsf)"
    using t1(1) assms(5) z by auto
  then have "fst (ReadSpaceFirmware T [] t') = (TPM_SUCCESS, rsf)"
  proof
    assume "rsf = ?v \<and> ?f = rs ! 1 \<and> nv t' FIRMWARE_NV_INDEX = Some rs"
    then show ?thesis using ReadSpaceFirmware_ok[OF assms(1) _ assms(6), of t'] c by (metis prod.collapse)
  next
    assume a: "rsf = seal_space 10 (?v[1 := ?f]) \<and> nv t' FIRMWARE_NV_INDEX = Some rsf"
    have q: "length (?v[1 := ?f]) = 10" using l by simp
    have "sealed rsf" "\<not> rsf ! 0 < 2" using a seal_space_sealed[OF q] by simp_all
    then show ?thesis using ReadSpaceFirmware_ok[OF assms(1), of t' rsf] a l by (simp add: space_value_sealed)
  qed
  moreover have "take 4 (drop 2 rsf) = take 4 (drop 2 rs)"
    using e seal_space_part[of "?v[1 := ?f]" 10 2 4] l space_value_part[of 2 4 T rs] by auto
  moreover have "rsf ! 1 = ?f"
    using e seal_space_sealed(3)[of "?v[1 := ?f]" 10 1] l v1 by auto
  ultimately show ?thesis using s(2) by blast
qed

text \<open>A device that has been set up, in developer mode at its last boot, boots without it.\<close>

lemma SetupTPM_correct_witness:
  "\<not> snd (snd (SetupTPM ram_tpm Little False False False ([FIRMWARE_NV_INDEX \<mapsto> seal_space 10 (rsf_init[1 := 1])], True)))"
proof -
  let ?rs = "seal_space 10 (rsf_init[1 := 1])"
  let ?t = "([FIRMWARE_NV_INDEX \<mapsto> ?rs], True)"
  obtain r rsf t' where w: "SetupTPM ram_tpm Little False False False ?t = ((r, rsf), t')" by (metis surj_pair)
  have "fst (fst (SetupTPM ram_tpm Little False False False ?t)) = TPM_SUCCESS" by code_simp
  with w have w': "SetupTPM ram_tpm Little False False False ?t = ((TPM_SUCCESS, rsf), t')" by simp
  have n: "fst ?t FIRMWARE_NV_INDEX = Some ?rs" "length ?rs = 10" by (simp_all add: rsf_init_def)
  have "clears_owner False False False (?rs ! 1)" by code_simp
  with SetupTPM_correct[OF ram_tpm_ok(1,3,4,2) n w'] w' show ?thesis by simp
qed

end
