(* ===== verification/CLib.thy ===== *)
theory CLib
  imports CString
begin

text \<open>
  What the daemons use of the C library beyond strings: signed integers whose overflow is undefined
  (\<open>None\<close>), fixed character arrays, the first line of a file, and the contract of a client that must
  react: from every good state, in a good environment, an output comes within a number of steps.
\<close>

named_theorems daemon_facts \<open>buffers and integers of the daemons\<close>

subsection \<open>Signed integers\<close>

definition int_max :: int where
  "int_max = 2 ^ 31 - 1"

definition checked :: "int \<Rightarrow> int option" where
  "checked i = (if - int_max - 1 \<le> i \<and> i \<le> int_max then Some i else None)"

lemma checked_Some [daemon_facts]: "- int_max - 1 \<le> i \<Longrightarrow> i \<le> int_max \<Longrightarrow> checked i = Some i"
  by (simp add: checked_def)

text \<open>\<open>atoi\<close>: white space, a sign, digits. A number outside \<open>int\<close> is undefined.\<close>

definition isspace :: "char \<Rightarrow> bool" where
  "isspace c \<longleftrightarrow> c = CHR 0x20 \<or> 9 \<le> (of_char c :: nat) \<and> (of_char c :: nat) \<le> 13"

definition isdigit :: "char \<Rightarrow> bool" where
  "isdigit c \<longleftrightarrow> 48 \<le> (of_char c :: nat) \<and> (of_char c :: nat) \<le> 57"

definition digits_value :: "string \<Rightarrow> int" where
  "digits_value ds = foldl (\<lambda>v d. 10 * v + (of_char d - of_char (CHR ''0''))) 0 ds"

definition atoi :: "string \<Rightarrow> int option" where
  "atoi str =
     (let t = dropWhile isspace str;
          (neg, t) = (case t of c # r \<Rightarrow> if c = CHR ''-'' then (True, r) else if c = CHR ''+'' then (False, r) else (False, t)
            | [] \<Rightarrow> (False, []));
          v = digits_value (takeWhile isdigit t)
      in checked (if neg then - v else v))"

subsection \<open>Character arrays\<close>

text \<open>An array of characters is the list of all its cells; as a string it ends at the first \<open>NUL\<close>.\<close>

definition array_str :: "char list \<Rightarrow> string option" where
  "array_str cells = (if NUL \<in> set cells then Some (takeWhile (\<lambda>c. c \<noteq> NUL) cells) else None)"

lemma array_str_app [daemon_facts]: "NUL \<notin> set s \<Longrightarrow> array_str (s @ NUL # cells) = Some s"
  by (induction s) (auto simp: array_str_def)

lemma array_str_none [daemon_facts]: "NUL \<notin> set cells \<Longrightarrow> array_str cells = None"
  by (simp add: array_str_def)

text \<open>\<open>strcpy\<close> into an array of \<open>n\<close> characters, of a string.\<close>

definition strcpy_array :: "nat \<Rightarrow> string \<Rightarrow> string option" where
  "strcpy_array n s = (if length s < n then Some s else None)"

definition strncpy_array :: "nat \<Rightarrow> string \<Rightarrow> char list" where
  "strncpy_array n s = take n (s @ replicate n NUL)"

lemma strncpy_array_length [simp]: "length (strncpy_array n s) = n"
  by (simp add: strncpy_array_def)

lemma strncpy_array_str [daemon_facts]:
  assumes "NUL \<notin> set s"
  shows "array_str (strncpy_array n s) = (if length s < n then Some s else None)"
proof (cases "length s < n")
  case True
  then obtain k where "n = length s + Suc k" using less_iff_Suc_add by auto
  then have "strncpy_array n s = s @ NUL # replicate k NUL"
    by (simp add: strncpy_array_def min_def)
  then show ?thesis using True assms by (simp add: array_str_app)
next
  case False
  then have "strncpy_array n s = take n s" by (simp add: strncpy_array_def)
  then show ?thesis using False assms by (simp add: array_str_none) (meson in_set_takeD array_str_none)
qed

text \<open>\<open>fgets\<close> on a file that is just opened; at its end at once the buffer stays as it is (\<open>None\<close>).\<close>

definition fgets_first :: "nat \<Rightarrow> char list \<Rightarrow> string option" where
  "fgets_first n contents =
     (if contents = [] then None
      else let line = takeWhile (\<lambda>c. c \<noteq> CHR 0x0A) contents;
               line = (if length line < length contents then line @ [CHR 0x0A] else line)
           in Some (takeWhile (\<lambda>c. c \<noteq> NUL) (take (n - 1) line)))"

subsection \<open>Clients that must react\<close>

text \<open>The run of a step function on a list of inputs, with its outputs in order.\<close>

fun run_steps :: "('e \<Rightarrow> 's \<Rightarrow> ('s \<times> 'o list) option) \<Rightarrow> 'e list \<Rightarrow> 's \<Rightarrow> ('s \<times> 'o list) option" where
  "run_steps f [] s = Some (s, [])"
| "run_steps f (e # es) s = do {
     (s, out) \<leftarrow> f e s;
     (s, out') \<leftarrow> run_steps f es s;
     Some (s, out @ out') }"

lemma run_steps_append:
  "run_steps f (es @ es') s = do {
     (s, out) \<leftarrow> run_steps f es s; (s, out') \<leftarrow> run_steps f es' s; Some (s, out @ out') }"
  by (induction es arbitrary: s) (auto split: bind_splits)

locale responsive =
  fixes f :: "'e \<Rightarrow> 's \<Rightarrow> ('s \<times> 'o list) option"
    and inv :: "'s \<Rightarrow> bool" and env :: "'e \<Rightarrow> bool" and goal :: "'o list \<Rightarrow> 's \<Rightarrow> bool" and rank :: "'s \<Rightarrow> nat"
  assumes progress: "inv s \<Longrightarrow> env e \<Longrightarrow>
    \<exists>s' out. f e s = Some (s', out) \<and> (goal out s' \<or> inv s' \<and> rank s' < rank s)"
begin

lemma responds:
  "inv s \<Longrightarrow> \<forall>e \<in> set es. env e \<Longrightarrow> rank s < length es \<Longrightarrow>
    \<exists>n s' out out'. n < length es \<and> run_steps f (take (Suc n) es) s = Some (s', out @ out') \<and> goal out' s'"
proof (induction es arbitrary: s)
  case (Cons e es)
  obtain s1 out where 1: "f e s = Some (s1, out)" "goal out s1 \<or> inv s1 \<and> rank s1 < rank s"
    using progress[of s e] Cons.prems by auto
  show ?case
  proof (cases "goal out s1")
    case True
    have "run_steps f (take (Suc 0) (e # es)) s = Some (s1, [] @ out)" using 1 by simp
    then show ?thesis using True by blast
  next
    case False
    then have "inv s1" "rank s1 < rank s" using 1(2) by auto
    moreover from this have "rank s1 < length es" using Cons.prems(3) by simp
    ultimately obtain n s' out1 out2 where n: "n < length es" "run_steps f (take (Suc n) es) s1 = Some (s', out1 @ out2)"
      "goal out2 s'" using Cons.IH[of s1] Cons.prems(2) by auto
    then have "run_steps f (take (Suc (Suc n)) (e # es)) s = Some (s', (out @ out1) @ out2)" using 1(1) by simp
    moreover have "Suc n < length (e # es)" using n(1) by simp
    ultimately show ?thesis using n(3) by blast
  qed
qed simp

end

text \<open>A client whose steps keep an invariant whatever the inputs.\<close>

locale invariant_client =
  fixes f :: "'e \<Rightarrow> 's \<Rightarrow> ('s \<times> 'o list) option" and inv :: "nat \<Rightarrow> 's \<Rightarrow> bool" and bound :: nat
  assumes keeps: "inv n s \<Longrightarrow> n < bound \<Longrightarrow> \<exists>s' out. f e s = Some (s', out) \<and> inv (Suc n) s'"
begin

lemma runs: "inv n s \<Longrightarrow> n + length es \<le> bound \<Longrightarrow> \<exists>s' out. run_steps f es s = Some (s', out) \<and> inv (n + length es) s'"
proof (induction es arbitrary: n s)
  case (Cons e es)
  obtain s1 out where 1: "f e s = Some (s1, out)" "inv (Suc n) s1" using keeps[of n s e] Cons.prems by auto
  with Cons.IH[of "Suc n" s1] Cons.prems(2) show ?case by auto
qed simp

end

end
