(* ===== verification/ListHead.thy ===== *)
theory ListHead
  imports CLib
begin

text \<open>
  The intrusive circular lists of \<open>package/fonstate/src/include/lib/list.h\<close>: a list head and the heads in the
  elements point at each other in a ring. The operations are on an explicit store of heads; a head that is not
  in the store, and a \<open>NULL\<close> pointer that is followed, is \<open>None\<close>. \<open>ring\<close> says which elements a head has, in order.
\<close>

subsection \<open>Heads in the store\<close>

type_synonym head_addr = nat

record list_head =
  lh_next :: "head_addr ptr"
  lh_prev :: "head_addr ptr"

type_synonym heads = "head_addr \<rightharpoonup> list_head"

definition set_next :: "head_addr \<Rightarrow> head_addr ptr \<Rightarrow> heads \<Rightarrow> heads option" where
  "set_next a p m = do { n \<leftarrow> m a; Some (m(a \<mapsto> n\<lparr>lh_next := p\<rparr>)) }"

definition set_prev :: "head_addr \<Rightarrow> head_addr ptr \<Rightarrow> heads \<Rightarrow> heads option" where
  "set_prev a p m = do { n \<leftarrow> m a; Some (m(a \<mapsto> n\<lparr>lh_prev := p\<rparr>)) }"

definition next_of :: "heads \<Rightarrow> head_addr \<Rightarrow> head_addr option" where
  "next_of m a = do { n \<leftarrow> m a; lh_next n }"

definition prev_of :: "heads \<Rightarrow> head_addr \<Rightarrow> head_addr option" where
  "prev_of m a = do { n \<leftarrow> m a; lh_prev n }"

definition INIT_LIST_HEAD :: "head_addr \<Rightarrow> heads \<Rightarrow> heads option" where
  "INIT_LIST_HEAD l m = do { m \<leftarrow> set_next l (Some l) m; set_prev l (Some l) m }"

definition list_add_between :: "head_addr \<Rightarrow> head_addr \<Rightarrow> head_addr \<Rightarrow> heads \<Rightarrow> heads option" where
  "list_add_between new prv nxt m = do {
     m \<leftarrow> set_prev nxt (Some new) m;
     m \<leftarrow> set_next new (Some nxt) m;
     m \<leftarrow> set_prev new (Some prv) m;
     set_next prv (Some new) m }"

definition list_add :: "head_addr \<Rightarrow> head_addr \<Rightarrow> heads \<Rightarrow> heads option" where
  "list_add new head m = do { n \<leftarrow> next_of m head; list_add_between new head n m }"

definition list_add_tail :: "head_addr \<Rightarrow> head_addr \<Rightarrow> heads \<Rightarrow> heads option" where
  "list_add_tail new head m = do { p \<leftarrow> prev_of m head; list_add_between new p head m }"

definition list_del_between :: "head_addr \<Rightarrow> head_addr \<Rightarrow> heads \<Rightarrow> heads option" where
  "list_del_between prv nxt m = do { m \<leftarrow> set_prev nxt (Some prv) m; set_next prv (Some nxt) m }"

definition list_del :: "head_addr \<Rightarrow> heads \<Rightarrow> heads option" where
  "list_del entry m = do {
     p \<leftarrow> prev_of m entry;
     n \<leftarrow> next_of m entry;
     m \<leftarrow> list_del_between p n m;
     m \<leftarrow> set_next entry None m;
     set_prev entry None m }"

definition list_del_init :: "head_addr \<Rightarrow> heads \<Rightarrow> heads option" where
  "list_del_init entry m = do {
     p \<leftarrow> prev_of m entry;
     n \<leftarrow> next_of m entry;
     m \<leftarrow> list_del_between p n m;
     INIT_LIST_HEAD entry m }"

definition list_move :: "head_addr \<Rightarrow> head_addr \<Rightarrow> heads \<Rightarrow> heads option" where
  "list_move l head m = do {
     p \<leftarrow> prev_of m l;
     n \<leftarrow> next_of m l;
     m \<leftarrow> list_del_between p n m;
     list_add l head m }"

definition list_move_tail :: "head_addr \<Rightarrow> head_addr \<Rightarrow> heads \<Rightarrow> heads option" where
  "list_move_tail l head m = do {
     p \<leftarrow> prev_of m l;
     n \<leftarrow> next_of m l;
     m \<leftarrow> list_del_between p n m;
     list_add_tail l head m }"

definition list_is_last :: "head_addr \<Rightarrow> head_addr \<Rightarrow> heads \<Rightarrow> bool option" where
  "list_is_last l head m = do { n \<leftarrow> next_of m l; Some (n = head) }"

definition list_empty :: "head_addr \<Rightarrow> heads \<Rightarrow> bool option" where
  "list_empty head m = do { n \<leftarrow> next_of m head; Some (n = head) }"

text \<open>\<open>list_for_each\<close>: the positions the loop takes; \<open>fuel\<close> bounds them.\<close>

partial_function (option) list_positions :: "heads \<Rightarrow> head_addr \<Rightarrow> head_addr \<Rightarrow> head_addr list option" where
  "list_positions m head pos = (if pos = head then Some []
     else do { n \<leftarrow> next_of m pos; ps \<leftarrow> list_positions m head n; Some (pos # ps) })"

definition list_for_each :: "heads \<Rightarrow> head_addr \<Rightarrow> head_addr list option" where
  "list_for_each m head = do { n \<leftarrow> next_of m head; list_positions m head n }"

text \<open>The list part of \<open>pop_queue\<close> in \<open>fon/state.c\<close>, which unlinks the first element by hand.\<close>

definition pop_front :: "head_addr \<Rightarrow> heads \<Rightarrow> (head_addr ptr \<times> heads) option" where
  "pop_front head m = do {
     empty \<leftarrow> list_empty head m;
     if empty then Some (None, m)
     else do {
       q \<leftarrow> next_of m head;
       n \<leftarrow> next_of m q;
       m \<leftarrow> set_next head (Some n) m;
       m \<leftarrow> set_prev n (Some head) m;
       Some (Some q, m) } }"

subsection \<open>Rings\<close>

text \<open>Two heads that point at each other, and a chain of them.\<close>

definition edge :: "heads \<Rightarrow> head_addr \<Rightarrow> head_addr \<Rightarrow> bool" where
  "edge m a b \<longleftrightarrow> next_of m a = Some b \<and> prev_of m b = Some a"

fun chain :: "heads \<Rightarrow> head_addr \<Rightarrow> head_addr list \<Rightarrow> head_addr \<Rightarrow> bool" where
  "chain m a [] b = edge m a b"
| "chain m a (x # xs) b = (edge m a x \<and> chain m x xs b)"

definition ring :: "heads \<Rightarrow> head_addr \<Rightarrow> head_addr list \<Rightarrow> bool" where
  "ring m h xs \<longleftrightarrow> distinct (h # xs) \<and> chain m h xs h"

lemma chain_append: "chain m a (xs @ x # ys) b \<longleftrightarrow> chain m a xs x \<and> chain m x ys b"
  by (induction xs arbitrary: a) auto

lemma chain_first: "chain m a xs b \<Longrightarrow> next_of m a = Some (hd (xs @ [b]))"
  by (cases xs) (auto simp: edge_def)

lemma chain_last: "chain m a xs b \<Longrightarrow> prev_of m b = Some (last (a # xs))"
  by (induction xs arbitrary: a) (auto simp: edge_def)

lemma chain_frame:
  "(\<And>x. x \<in> set (a # xs) \<Longrightarrow> next_of m' x = next_of m x) \<Longrightarrow> (\<And>x. x \<in> set (xs @ [b]) \<Longrightarrow> prev_of m' x = prev_of m x) \<Longrightarrow>
    chain m' a xs b = chain m a xs b"
  by (induction xs arbitrary: a) (auto simp: edge_def)

lemma next_prev_Some [heap_facts]: "next_of m a = Some b \<Longrightarrow> \<exists>n. m a = Some n" "prev_of m a = Some b \<Longrightarrow> \<exists>n. m a = Some n"
  by (auto simp: next_of_def prev_of_def split: bind_splits)

lemma set_next_ok:
  assumes "a \<in> dom m"
  obtains m' where "set_next a p m = Some m'" and "next_of m' = (next_of m)(a := p)" and "prev_of m' = prev_of m"
    and "dom m' = dom m"
  proof -
  obtain n where n: "m a = Some n" using assms by auto
  let ?m = "m(a \<mapsto> n\<lparr>lh_next := p\<rparr>)"
  have "set_next a p m = Some ?m" "next_of ?m = (next_of m)(a := p)" "prev_of ?m = prev_of m" "dom ?m = dom m"
    using n by (auto simp: set_next_def next_of_def prev_of_def fun_eq_iff)
  then show thesis by (rule that)
qed

lemma set_prev_ok:
  assumes "a \<in> dom m"
  obtains m' where "set_prev a p m = Some m'" and "prev_of m' = (prev_of m)(a := p)" and "next_of m' = next_of m"
    and "dom m' = dom m"
  proof -
  obtain n where n: "m a = Some n" using assms by auto
  let ?m = "m(a \<mapsto> n\<lparr>lh_prev := p\<rparr>)"
  have "set_prev a p m = Some ?m" "prev_of ?m = (prev_of m)(a := p)" "next_of ?m = next_of m" "dom ?m = dom m"
    using n by (auto simp: set_prev_def next_of_def prev_of_def fun_eq_iff)
  then show thesis by (rule that)
qed

text \<open>The two kinds of change: a new element between two neighbours, and two ends that close over what was between.\<close>

lemma list_add_between_ok:
  assumes "new \<in> dom m" and "prv \<in> dom m" and "nxt \<in> dom m"
  obtains m' where "list_add_between new prv nxt m = Some m'"
    and "next_of m' = (next_of m)(new := Some nxt, prv := Some new)"
    and "prev_of m' = (prev_of m)(nxt := Some new, new := Some prv)"
    and "dom m' = dom m"
proof -
  obtain m1 where 1: "set_prev nxt (Some new) m = Some m1" "prev_of m1 = (prev_of m)(nxt := Some new)" "next_of m1 = next_of m"
    "dom m1 = dom m" using set_prev_ok[OF assms(3)] by metis
  obtain m2 where 2: "set_next new (Some nxt) m1 = Some m2" "next_of m2 = (next_of m1)(new := Some nxt)" "prev_of m2 = prev_of m1"
    "dom m2 = dom m1" using set_next_ok[of new m1] assms(1) 1(4) by metis
  obtain m3 where 3: "set_prev new (Some prv) m2 = Some m3" "prev_of m3 = (prev_of m2)(new := Some prv)" "next_of m3 = next_of m2"
    "dom m3 = dom m2" using set_prev_ok[of new m2] assms(1) 1(4) 2(4) by metis
  obtain m4 where 4: "set_next prv (Some new) m3 = Some m4" "next_of m4 = (next_of m3)(prv := Some new)" "prev_of m4 = prev_of m3"
    "dom m4 = dom m3" using set_next_ok[of prv m3] assms(2) 1(4) 2(4) 3(4) by metis
  show thesis by (rule that[of m4]) (use 1 2 3 4 in \<open>simp_all add: list_add_between_def\<close>)
qed

lemma list_del_between_ok:
  assumes "prv \<in> dom m" and "nxt \<in> dom m"
  obtains m' where "list_del_between prv nxt m = Some m'" and "next_of m' = (next_of m)(prv := Some nxt)"
    and "prev_of m' = (prev_of m)(nxt := Some prv)" and "dom m' = dom m"
proof -
  obtain m1 where 1: "set_prev nxt (Some prv) m = Some m1" "prev_of m1 = (prev_of m)(nxt := Some prv)" "next_of m1 = next_of m"
    "dom m1 = dom m" using set_prev_ok[OF assms(2)] by metis
  obtain m2 where 2: "set_next prv (Some nxt) m1 = Some m2" "next_of m2 = (next_of m1)(prv := Some nxt)" "prev_of m2 = prev_of m1"
    "dom m2 = dom m1" using set_next_ok[of prv m1] assms(1) 1(4) by metis
  show thesis by (rule that[of m2]) (use 1 2 in \<open>simp_all add: list_del_between_def\<close>)
qed

lemma ring_alloc: "ring m h xs \<Longrightarrow> x \<in> set (h # xs) \<Longrightarrow> x \<in> dom m"
proof -
  have "chain m a xs b \<Longrightarrow> x \<in> set (a # xs) \<Longrightarrow> x \<in> dom m" for a b
    by (induction xs arbitrary: a) (auto simp: edge_def dest: next_prev_Some)
  then show "ring m h xs \<Longrightarrow> x \<in> set (h # xs) \<Longrightarrow> x \<in> dom m" by (auto simp: ring_def)
qed

subsection \<open>The operations on rings\<close>

lemma INIT_LIST_HEAD_ok:
  assumes "h \<in> dom m"
  obtains m' where "INIT_LIST_HEAD h m = Some m'" and "ring m' h []"
    and "next_of m' = (next_of m)(h := Some h)" and "prev_of m' = (prev_of m)(h := Some h)"
proof -
  obtain m1 where 1: "set_next h (Some h) m = Some m1" "next_of m1 = (next_of m)(h := Some h)" "prev_of m1 = prev_of m"
    "dom m1 = dom m" using set_next_ok[OF assms] by metis
  obtain m2 where 2: "set_prev h (Some h) m1 = Some m2" "prev_of m2 = (prev_of m1)(h := Some h)" "next_of m2 = next_of m1"
    using set_prev_ok[of h m1] assms 1(4) by metis
  show thesis by (rule that[of m2]) (use 1 2 in \<open>simp_all add: INIT_LIST_HEAD_def ring_def edge_def\<close>)
qed

text \<open>An element enters between two neighbours of the ring.\<close>

lemma ring_insert:
  assumes "chain m h (xs @ ys) h" and "distinct (h # xs @ ys)" and "new \<notin> set (h # xs @ ys)"
    and "next_of m' = (next_of m)(new := Some (hd (ys @ [h])), last (h # xs) := Some new)"
    and "prev_of m' = (prev_of m)(hd (ys @ [h]) := Some new, new := Some (last (h # xs)))"
  shows "ring m' h (xs @ new # ys)"
proof -
  have "chain m' a (xs @ new # ys) b"
    if "chain m a (xs @ ys) b" "distinct (a # xs @ ys)" "new \<notin> set (a # xs @ ys)" "new \<noteq> b" "b \<notin> set (xs @ ys)"
      "next_of m' = (next_of m)(new := Some (hd (ys @ [b])), last (a # xs) := Some new)"
      "prev_of m' = (prev_of m)(hd (ys @ [b]) := Some new, new := Some (last (a # xs)))" for a b
    using that
  proof (induction xs arbitrary: a)
    case Nil
    show ?case
    proof (cases ys)
      case Nil
      then show ?thesis using \<open>new \<notin> set (a # [] @ ys)\<close> Nil.prems by (auto simp: edge_def)
    next
      case (Cons y ys')
      have "chain m' y ys' b = chain m y ys' b"
        by (rule chain_frame) (use Nil.prems Cons in auto)
      then show ?thesis using Nil.prems Cons by (auto simp: edge_def)
    qed
  next
    case (Cons x xs)
    have "edge m' a x" using Cons.prems by (auto simp: edge_def hd_append split: list.splits)
    moreover have "chain m' x (xs @ new # ys) b" by (rule Cons.IH) (use Cons.prems in auto)
    ultimately show ?case by simp
  qed
  from this[of h h] assms show ?thesis by (auto simp: ring_def)
qed

lemma list_add_ok:
  assumes "ring m h xs" and "new \<in> dom m" and "new \<notin> set (h # xs)"
  shows "\<exists>m'. list_add new h m = Some m' \<and> ring m' h (new # xs)"
proof -
  have n: "next_of m h = Some (hd (xs @ [h]))" using assms(1) by (auto simp: ring_def intro: chain_first)
  have "h \<in> dom m" "hd (xs @ [h]) \<in> dom m" using ring_alloc[OF assms(1)] by (cases xs; auto)+
  from list_add_between_ok[OF assms(2) this] obtain m' where
    m': "list_add_between new h (hd (xs @ [h])) m = Some m'"
    "next_of m' = (next_of m)(new := Some (hd (xs @ [h])), h := Some new)"
    "prev_of m' = (prev_of m)(hd (xs @ [h]) := Some new, new := Some h)" by metis
  then have "ring m' h ([] @ new # xs)"
    by (intro ring_insert[of m]) (use assms in \<open>auto simp: ring_def\<close>)
  then show ?thesis using n m'(1) by (simp add: list_add_def)
qed

lemma list_add_tail_ok:
  assumes "ring m h xs" and "new \<in> dom m" and "new \<notin> set (h # xs)"
  shows "\<exists>m'. list_add_tail new h m = Some m' \<and> ring m' h (xs @ [new])"
proof -
  have p: "prev_of m h = Some (last (h # xs))" using assms(1) by (auto simp: ring_def simp del: last.simps intro: chain_last)
  have "last (h # xs) \<in> dom m" "h \<in> dom m" using ring_alloc[OF assms(1)] last_in_set[of "h # xs"] by (auto simp del: last.simps)
  from list_add_between_ok[OF assms(2) this] obtain m' where
    m': "list_add_between new (last (h # xs)) h m = Some m'"
    "next_of m' = (next_of m)(new := Some h, last (h # xs) := Some new)"
    "prev_of m' = (prev_of m)(h := Some new, new := Some (last (h # xs)))" by metis
  then have "ring m' h (xs @ new # [])"
    by (intro ring_insert[of m]) (use assms in \<open>auto simp: ring_def\<close>)
  then show ?thesis using p m'(1) by (simp add: list_add_tail_def)
qed

text \<open>An element leaves: its neighbours close over it.\<close>

lemma ring_delete:
  assumes "ring m h (xs @ e # ys)"
    and "next_of m' = (next_of m)(last (h # xs) := Some (hd (ys @ [h])))"
    and "prev_of m' = (prev_of m)(hd (ys @ [h]) := Some (last (h # xs)))"
  shows "ring m' h (xs @ ys)"
proof -
  have "chain m' a (xs @ ys) b"
    if "chain m a (xs @ e # ys) b" "distinct (a # xs @ e # ys)" "b \<notin> set (xs @ e # ys)"
      "next_of m' = (next_of m)(last (a # xs) := Some (hd (ys @ [b])))"
      "prev_of m' = (prev_of m)(hd (ys @ [b]) := Some (last (a # xs)))" for a b
    using that
  proof (induction xs arbitrary: a)
    case Nil
    show ?case
    proof (cases ys)
      case Nil
      then show ?thesis using Nil.prems by (auto simp: edge_def)
    next
      case (Cons y ys')
      have "chain m' y ys' b = chain m y ys' b" by (rule chain_frame) (use Nil.prems Cons in auto)
      then show ?thesis using Nil.prems Cons by (auto simp: edge_def)
    qed
  next
    case (Cons x xs)
    have "edge m' a x" using Cons.prems by (auto simp: edge_def hd_append split: list.splits)
    moreover have "chain m' x (xs @ ys) b" by (rule Cons.IH) (use Cons.prems in auto)
    ultimately show ?case by simp
  qed
  from this[of h h] assms show ?thesis by (auto simp: ring_def)
qed

lemma ring_neighbours:
  assumes "ring m h (xs @ e # ys)"
  shows "prev_of m e = Some (last (h # xs))" and "next_of m e = Some (hd (ys @ [h]))"
    and "last (h # xs) \<in> dom m" and "hd (ys @ [h]) \<in> dom m"
proof -
  have c: "chain m h xs e" "chain m e ys h" using assms by (auto simp: ring_def chain_append)
  show "prev_of m e = Some (last (h # xs))" by (rule chain_last[OF c(1)])
  show "next_of m e = Some (hd (ys @ [h]))" by (rule chain_first[OF c(2)])
  show "last (h # xs) \<in> dom m" "hd (ys @ [h]) \<in> dom m"
    using ring_alloc[OF assms] by (auto simp: last_in_set hd_append split: list.splits)
qed

lemma list_del_ok:
  assumes "ring m h (xs @ e # ys)"
  shows "\<exists>m'. list_del e m = Some m' \<and> ring m' h (xs @ ys) \<and> dom m' = dom m"
proof -
  note n = ring_neighbours[OF assms]
  have e: "e \<in> dom m" "e \<notin> set (h # xs @ ys)" using ring_alloc[OF assms, of e] assms by (auto simp: ring_def)
  obtain m1 where 1: "list_del_between (last (h # xs)) (hd (ys @ [h])) m = Some m1"
    "next_of m1 = (next_of m)(last (h # xs) := Some (hd (ys @ [h])))"
    "prev_of m1 = (prev_of m)(hd (ys @ [h]) := Some (last (h # xs)))" "dom m1 = dom m"
    using list_del_between_ok[OF n(3,4)] by metis
  have r: "ring m1 h (xs @ ys)" by (rule ring_delete[OF assms 1(2,3)])
  obtain m2 where 2: "set_next e None m1 = Some m2" "next_of m2 = (next_of m1)(e := None)" "prev_of m2 = prev_of m1"
    "dom m2 = dom m1" using set_next_ok[of e m1] e(1) 1(4) by metis
  obtain m3 where 3: "set_prev e None m2 = Some m3" "prev_of m3 = (prev_of m2)(e := None)" "next_of m3 = next_of m2"
    "dom m3 = dom m2" using set_prev_ok[of e m2] e(1) 1(4) 2(4) by metis
  have "chain m3 h (xs @ ys) h = chain m1 h (xs @ ys) h"
    by (rule chain_frame) (use 2 3 e(2) in auto)
  then have "ring m3 h (xs @ ys)" using r by (simp add: ring_def)
  moreover have "list_del e m = Some m3" by (simp only: list_del_def n(1,2) 1(1) 2(1) 3(1) bind.bind_lunit)
  ultimately show ?thesis using 1(4) 2(4) 3(4) by (intro exI[of _ m3]) simp
qed

lemma list_empty_ok: "ring m h xs \<Longrightarrow> list_empty h m = Some (xs = [])"
  using chain_first[of m h xs h] by (cases xs) (auto simp: list_empty_def ring_def)

lemma list_is_last_ok: "ring m h (xs @ e # ys) \<Longrightarrow> list_is_last e h m = Some (ys = [])"
  using ring_neighbours(2)[of m h xs e ys] by (cases ys) (auto simp: list_is_last_def ring_def)

lemma list_positions_ok: "chain m a xs h \<Longrightarrow> h \<notin> set xs \<Longrightarrow> next_of m a = Some p \<Longrightarrow> list_positions m h p = Some xs"
proof (induction xs arbitrary: a p)
  case Nil
  then show ?case by (subst list_positions.simps) (auto simp: edge_def)
next
  case (Cons x xs)
  then have p: "p = x" "p \<noteq> h" by (auto simp: edge_def)
  obtain n where "next_of m x = Some n" using Cons.prems(1) chain_first[of m x xs h] by auto
  then show ?case using Cons p by (subst list_positions.simps) auto
qed

lemma list_for_each_ok: "ring m h xs \<Longrightarrow> list_for_each m h = Some xs"
  using chain_first[of m h xs h] list_positions_ok[of m h xs h] by (auto simp: list_for_each_def ring_def)

lemma pop_front_ok:
  assumes "ring m h (q # xs)"
  shows "\<exists>m'. pop_front h m = Some (Some q, m') \<and> ring m' h xs \<and> dom m' = dom m"
proof -
  have r: "ring m h ([] @ q # xs)" using assms by simp
  note n = ring_neighbours[OF r]
  have q: "next_of m h = Some q" using assms chain_first[of m h "q # xs" h] by (auto simp: ring_def)
  have h: "h \<in> dom m" by (rule ring_alloc[OF assms]) simp
  obtain m1 where 1: "set_next h (Some (hd (xs @ [h]))) m = Some m1"
    "next_of m1 = (next_of m)(h := Some (hd (xs @ [h])))" "prev_of m1 = prev_of m" "dom m1 = dom m"
    using set_next_ok[OF h] by metis
  obtain m2 where 2: "set_prev (hd (xs @ [h])) (Some h) m1 = Some m2"
    "prev_of m2 = (prev_of m1)(hd (xs @ [h]) := Some h)" "next_of m2 = next_of m1" "dom m2 = dom m1"
    using set_prev_ok[of "hd (xs @ [h])" m1] n(4) 1(4) by metis
  have "ring m2 h ([] @ xs)" by (rule ring_delete[OF r]) (use 1 2 in simp_all)
  moreover have "pop_front h m = Some (Some q, m2)"
    using list_empty_ok[OF assms] q n(2) 1(1) 2(1) by (simp add: pop_front_def)
  ultimately show ?thesis using 1(4) 2(4) by auto
qed

subsection \<open>The queue of jobs on the pointers\<close>

text \<open>What \<open>enqueue_job\<close> and \<open>process_queue\<close> do with the heads: allocate, initialise and append, or unlink and free.\<close>

datatype head_op = Append head_addr | Take

fun head_queue_op :: "head_addr \<Rightarrow> head_op \<Rightarrow> heads \<Rightarrow> (heads \<times> head_addr list) option" where
  "head_queue_op h (Append a) m = do {
     m \<leftarrow> INIT_LIST_HEAD a (m(a \<mapsto> \<lparr>lh_next = None, lh_prev = None\<rparr>));
     m \<leftarrow> list_add_tail a h m;
     Some (m, []) }"
| "head_queue_op h Take m = do {
     (q, m) \<leftarrow> pop_front h m;
     (case q of None \<Rightarrow> Some (m, []) | Some a \<Rightarrow> Some (m(a := None), [a])) }"

fun list_queue_op :: "head_op \<Rightarrow> head_addr list \<Rightarrow> head_addr list \<times> head_addr list" where
  "list_queue_op (Append a) xs = (xs @ [a], [])"
| "list_queue_op Take [] = ([], [])"
| "list_queue_op Take (x # xs) = (xs, [x])"

text \<open>The run of the list, and whether \<open>malloc\<close> gives addresses that are not in use.\<close>

fun list_queue_run :: "head_op list \<Rightarrow> head_addr list \<Rightarrow> head_addr list \<times> head_addr list" where
  "list_queue_run [] xs = (xs, [])"
| "list_queue_run (a # as) xs =
     (let (xs, out) = list_queue_op a xs; (xs, out') = list_queue_run as xs in (xs, out @ out'))"

fun fresh_run :: "head_addr \<Rightarrow> head_op list \<Rightarrow> head_addr list \<Rightarrow> bool" where
  "fresh_run h [] xs = True"
| "fresh_run h (Append a # as) xs = (a \<notin> set (h # xs) \<and> fresh_run h as (xs @ [a]))"
| "fresh_run h (Take # as) xs = fresh_run h as (tl xs)"

lemma ring_forget:
  assumes "ring m h xs" and "a \<notin> set (h # xs)"
  shows "ring (m(a := x)) h xs"
proof -
  have "chain (m(a := x)) h xs h = chain m h xs h"
    by (rule chain_frame) (use assms(2) in \<open>auto simp: next_of_def prev_of_def\<close>)
  then show ?thesis using assms(1) by (simp add: ring_def)
qed

lemma head_queue_append:
  assumes "ring m h xs" and "a \<notin> set (h # xs)"
  shows "\<exists>m'. head_queue_op h (Append a) m = Some (m', []) \<and> ring m' h (xs @ [a])"
proof -
  let ?m = "m(a \<mapsto> \<lparr>lh_next = None, lh_prev = None\<rparr>)"
  have r: "ring ?m h xs" by (rule ring_forget[OF assms])
  have "a \<in> dom ?m" by simp
  from INIT_LIST_HEAD_ok[OF this] obtain m1 where 1: "INIT_LIST_HEAD a ?m = Some m1" "ring m1 a []"
    "next_of m1 = (next_of ?m)(a := Some a)" "prev_of m1 = (prev_of ?m)(a := Some a)" by metis
  have "chain m1 h xs h = chain ?m h xs h" by (rule chain_frame) (use assms(2) 1 in auto)
  then have r1: "ring m1 h xs" using r by (simp add: ring_def)
  have a1: "a \<in> dom m1" using ring_alloc[OF 1(2)] by simp
  from list_add_tail_ok[OF r1 a1 assms(2)] 1(1) show ?thesis by auto
qed

lemma head_queue_take:
  assumes "ring m h xs"
  shows "\<exists>m'. head_queue_op h Take m = Some (m', take 1 xs) \<and> ring m' h (tl xs)"
proof (cases xs)
  case Nil
  then show ?thesis using assms list_empty_ok[OF assms] by (simp add: pop_front_def)
next
  case (Cons q ys)
  then obtain m1 where 1: "pop_front h m = Some (Some q, m1)" "ring m1 h ys" using pop_front_ok assms by blast
  have "ring (m1(q := None)) h ys" by (rule ring_forget[OF 1(2)]) (use assms Cons in \<open>auto simp: ring_def\<close>)
  then show ?thesis using 1(1) Cons by simp
qed

lemma list_queue_op_Take: "list_queue_op Take xs = (tl xs, take 1 xs)"
  by (cases xs) simp_all

text \<open>C17: The queue of jobs on the pointers of the intrusive list is a queue: any sequence of appends of fresh elements
and removals from the front, as \<open>enqueue_job\<close> and \<open>pop_queue\<close> do them, runs without following a \<open>NULL\<close> or freed
pointer, hands out the elements in the order they came, and leaves a ring of the remaining ones, which
\<open>list_for_each\<close> walks in this order.\<close>

theorem head_queue_refines:
  assumes "ring m h xs" and "fresh_run h as xs"
  shows "\<exists>m'. run_steps (head_queue_op h) as m = Some (m', snd (list_queue_run as xs)) \<and>
    ring m' h (fst (list_queue_run as xs)) \<and> list_for_each m' h = Some (fst (list_queue_run as xs))"
proof -
  have "\<exists>m'. run_steps (head_queue_op h) as m = Some (m', snd (list_queue_run as xs)) \<and> ring m' h (fst (list_queue_run as xs))"
    using assms
  proof (induction as arbitrary: m xs)
    case (Cons a as)
    show ?case
    proof (cases a)
      case (Append b)
      then obtain m1 where 1: "head_queue_op h (Append b) m = Some (m1, [])" "ring m1 h (xs @ [b])"
        using head_queue_append[OF Cons.prems(1)] Cons.prems(2) by auto
      with Cons.IH[OF 1(2)] Cons.prems(2) Append show ?thesis by (auto simp: case_prod_beta simp del: head_queue_op.simps)
    next
      case Take
      obtain m1 where 1: "head_queue_op h Take m = Some (m1, take 1 xs)" "ring m1 h (tl xs)"
        using head_queue_take[OF Cons.prems(1)] by blast
      with Cons.IH[OF 1(2)] Cons.prems(2) Take show ?thesis
        by (auto simp: case_prod_beta list_queue_op_Take simp del: head_queue_op.simps)
    qed
  qed simp
  then show ?thesis using list_for_each_ok by blast
qed

theorem head_queue_refines_witness:
  "\<exists>m m'. INIT_LIST_HEAD 0 [0 \<mapsto> \<lparr>lh_next = None, lh_prev = None\<rparr>] = Some m \<and>
    run_steps (head_queue_op 0) [Append 1, Append 2, Take, Append 1, Take] m = Some (m', [1, 2]) \<and>
    list_for_each m' 0 = Some [1]"
proof -
  let ?m = "[0 \<mapsto> \<lparr>lh_next = Some 0, lh_prev = Some 0\<rparr>]"
  have i: "INIT_LIST_HEAD 0 [0 \<mapsto> \<lparr>lh_next = None, lh_prev = None\<rparr>] = Some ?m"
    by (simp add: INIT_LIST_HEAD_def set_next_def set_prev_def)
  have r: "ring ?m 0 []" by (simp add: ring_def edge_def next_of_def prev_of_def)
  have f: "\<not> fresh_run 0 [Append 1, Append 2, Take, Append 1, Take] [] \<longrightarrow> False" by simp
  from head_queue_refines[OF r, of "[Append 1, Append 2, Take, Append 1, Take]"] f
  obtain m' where "run_steps (head_queue_op 0) [Append 1, Append 2, Take, Append 1, Take] ?m = Some (m', [1, 2])"
    "list_for_each m' 0 = Some [1]" by (auto simp: Let_def simp del: run_steps.simps head_queue_op.simps)
  then show ?thesis using i by blast
qed

end
