(* ===== verification/FonPlugins.thy ===== *)
theory FonPlugins
  imports CLib
begin

text \<open>
  The plug-ins of fonstated: finding, loading and killing them in
  \<open>package/fonstate/src/plugin/plugin.c\<close>, and the turn of the LED daemon in \<open>plugin/usbled.c\<close>. What a shared
  object contains is input: whether it opens, whether it has the entry point, and what that fills in.
\<close>

subsection \<open>Finding\<close>

record dirent =
  file_name :: string
  directory :: bool

definition strncmp_eq :: "string \<Rightarrow> string \<Rightarrow> nat \<Rightarrow> bool" where
  "strncmp_eq s t n \<longleftrightarrow> take n (s @ [NUL]) = take n (t @ [NUL])"

definition strcasecmp :: "string \<Rightarrow> string \<Rightarrow> int" where
  "strcasecmp s t = strcmp (map tolower s) (map tolower t)"

definition dir_filter :: "dirent \<Rightarrow> int" where
  "dir_filter a =
     (if \<not> strncmp_eq (file_name a) ''fonstate_'' 9 then 0
      else if strstr (file_name a) ''.so'' \<noteq> None then 1 else 0)"

definition dir_sort :: "dirent \<Rightarrow> dirent \<Rightarrow> int" where
  "dir_sort a b =
     (if directory a \<and> \<not> directory b then 1
      else if \<not> directory a \<and> directory b then -1
      else 0 - strcasecmp (file_name a) (file_name b))"

subsection \<open>Loading\<close>

text \<open>A plug-in as the loader sees it; \<open>fork_pid\<close> is what \<open>fork\<close> gives the parent.\<close>

record shared_object =
  opens :: bool
  registers :: bool
  is_daemon :: bool
  start_result :: int
  fork_pid :: int

datatype plugin_act = Forked string int | Started string | Failed string | Killed int

text \<open>\<open>garbage\<close> is what the memory of the new \<open>fonpid\<close> holds; its field is never written.\<close>

definition do_load_plugin :: "(string \<Rightarrow> shared_object) \<Rightarrow> int \<Rightarrow> string \<Rightarrow> string \<Rightarrow> int list \<Rightarrow> int \<times> int list \<times> plugin_act list" where
  "do_load_plugin so garbage path filename fonpids =
     (let tmp = take 127 (path @ filename); d = so tmp in
      if \<not> opens d then (1, fonpids, [])
      else if \<not> registers d then (1, fonpids, [])
      else if is_daemon d then (0, garbage # fonpids, [Forked tmp (fork_pid d)])
      else (0, fonpids, [Started tmp] @ (if start_result d \<noteq> 0 then [Failed tmp] else [])))"

definition DEFAULT_PLUGIN_DIR :: string where
  "DEFAULT_PLUGIN_DIR = ''/usr/lib/fonstate/''"

text \<open>The loop \<open>while(n--)\<close> over the names, from the last.\<close>

fun load_loop :: "(string \<Rightarrow> shared_object) \<Rightarrow> int \<Rightarrow> dirent list \<Rightarrow> int list \<Rightarrow> int list \<times> plugin_act list" where
  "load_loop so garbage [] fonpids = (fonpids, [])"
| "load_loop so garbage (d # ds) fonpids =
     (let (r, fonpids, out) = do_load_plugin so garbage DEFAULT_PLUGIN_DIR (file_name d) fonpids;
          (fonpids, out') = load_loop so garbage ds fonpids
      in (fonpids, out @ (if r \<noteq> 0 then [Failed (file_name d)] else []) @ out'))"

definition load_plugins :: "(string \<Rightarrow> shared_object) \<Rightarrow> int \<Rightarrow> dirent list \<Rightarrow> int list \<times> plugin_act list" where
  "load_plugins so garbage namelist = load_loop so garbage (rev namelist) []"

definition kill_plugins :: "int list \<Rightarrow> plugin_act list" where
  "kill_plugins fonpids = map Killed fonpids"

subsection \<open>The LED\<close>

definition led_turn :: "int \<Rightarrow> int \<Rightarrow> int \<Rightarrow> int \<times> int" where
  "led_turn mounted count prev =
     (let led = 1;
          led = (if count = 0 then 0 else led);
          led = (if count \<noteq> 0 \<and> mounted = 0 then 1 else led)
      in if count \<noteq> 0 \<and> mounted \<noteq> 0 then ((prev + 1) mod 2, (prev + 1) mod 2) else (led, prev))"

text \<open>The brightness it writes in each second.\<close>

fun led_run :: "(int \<times> int) list \<Rightarrow> int \<Rightarrow> int list" where
  "led_run [] prev = []"
| "led_run ((mounted, count) # es) prev = (let (led, prev) = led_turn mounted count prev in led # led_run es prev)"

subsection \<open>Facts\<close>

text \<open>The comparison is a preorder to sort with: directories last, then by name, backwards.\<close>

lemma strcasecmp_swap: "strcasecmp t s = - strcasecmp s t"
  unfolding strcasecmp_def by (rule strcmp_swap)

lemma dir_sort_swap: "dir_sort b a = - dir_sort a b"
  using strcasecmp_swap[of "file_name a" "file_name b"] by (auto simp: dir_sort_def)

lemma dir_sort_trans: "dir_sort a b \<le> 0 \<Longrightarrow> dir_sort b c \<le> 0 \<Longrightarrow> dir_sort a c \<le> 0"
  using strcmp_trans[of "map tolower (file_name c)" "map tolower (file_name b)" "map tolower (file_name a)"]
    strcasecmp_swap[of "file_name a" "file_name b"] strcasecmp_swap[of "file_name b" "file_name c"]
    strcasecmp_swap[of "file_name a" "file_name c"]
  by (auto simp: dir_sort_def strcasecmp_def split: if_splits)

text \<open>What loading one name adds.\<close>

definition plugin_of :: "(string \<Rightarrow> shared_object) \<Rightarrow> dirent \<Rightarrow> shared_object" where
  "plugin_of so d = so (take 127 (DEFAULT_PLUGIN_DIR @ file_name d))"

definition daemon_of :: "(string \<Rightarrow> shared_object) \<Rightarrow> dirent \<Rightarrow> bool" where
  "daemon_of so d \<longleftrightarrow> opens (plugin_of so d) \<and> registers (plugin_of so d) \<and> is_daemon (plugin_of so d)"

lemma load_loop_pids:
  "fst (load_loop so garbage ds pids) = replicate (length (filter (daemon_of so) ds)) garbage @ pids"
proof (induction ds arbitrary: pids)
  case (Cons d ds)
  show ?case
  proof (cases "daemon_of so d")
    case True
    then show ?thesis using Cons[of "garbage # pids"]
      by (simp add: do_load_plugin_def daemon_of_def plugin_of_def Let_def case_prod_beta replicate_app_Cons_same)
  next
    case False
    then show ?thesis using Cons[of pids]
      by (auto simp: do_load_plugin_def daemon_of_def plugin_of_def Let_def case_prod_beta)
  qed
qed simp

lemma load_loop_forks:
  "[p. Forked t p \<leftarrow> snd (load_loop so garbage ds pids)] = map (fork_pid \<circ> plugin_of so) (filter (daemon_of so) ds)"
proof (induction ds arbitrary: pids)
  case (Cons d ds)
  show ?case
    using Cons by (auto simp: do_load_plugin_def daemon_of_def plugin_of_def Let_def case_prod_beta)
qed simp

text \<open>C33: Every daemon plug-in found is forked once, from the last of the sorted names to the first, but the list that
\<open>kill_plugins\<close> works off has, for each of them, not the process it was given by \<open>fork\<close> but whatever the memory
of its entry held: the signal never reaches a plug-in unless this happens to be its number.\<close>

theorem kill_plugins_misses:
  "[p. Forked t p \<leftarrow> snd (load_plugins so garbage names)] = map (fork_pid \<circ> plugin_of so) (filter (daemon_of so) (rev names)) \<and>
   kill_plugins (fst (load_plugins so garbage names)) =
     replicate (length [p. Forked t p \<leftarrow> snd (load_plugins so garbage names)]) (Killed garbage)"
  unfolding load_plugins_def kill_plugins_def load_loop_pids load_loop_forks by (simp add: rev_filter map_replicate_const)

lemma led_blinks:
  assumes "mounted \<noteq> 0" and "count \<noteq> 0" and "prev \<in> {0, 1}"
  shows "led_run (replicate n (mounted, count)) prev = map (\<lambda>i. (prev + int i + 1) mod 2) [0..<n]"
  using assms(3)
proof (induction n arbitrary: prev)
  case (Suc n)
  define l where "l = (prev + 1) mod 2"
  have l: "l \<in> {0, 1}" by (auto simp: l_def)
  have "(l + int i + 1) mod 2 = (prev + int (Suc i) + 1) mod 2" for i unfolding l_def by presburger
  then have "map (\<lambda>i. (l + int i + 1) mod 2) [0..<n] = map (\<lambda>i. (prev + int i + 1) mod 2) (map Suc [0..<n])" by simp
  then show ?case
    using Suc.IH[OF l] assms(1,2) by (simp add: led_turn_def upt_conv_Cons map_Suc_upt l_def[symmetric] del: upt_Suc)
qed simp

end
