(* ===== verification/Onlined.thy ===== *)
theory Onlined
  imports CLib
begin

text \<open>
  The daemon \<open>package/onlined/src/online.c\<close>, which watches the network and tells fonstate to go online or
  offline, and the plug-in \<open>package/fonstate/src/plugin/online.c\<close> it replaces. One step is one turn of
  the endless loop, that is one second; its inputs are what the network and the state file
  \<open>/tmp/run/fonstate\<close> answer in it, its outputs the commands it sends.
\<close>

subsection \<open>The daemon\<close>

definition INTERVAL_OFFLINE_MIN :: int where "INTERVAL_OFFLINE_MIN = 1"
definition INTERVAL_OFFLINE_DOUBLE_TIME :: int where "INTERVAL_OFFLINE_DOUBLE_TIME = 60"
definition INTERVAL_OFFLINE_MAX :: int where "INTERVAL_OFFLINE_MAX = 64"
definition INTERVAL_ONLINE :: int where "INTERVAL_ONLINE = 60"
definition INTERVAL_ERROR :: int where "INTERVAL_ERROR = 1"
definition ERRORS_NEEDED :: int where "ERRORS_NEEDED = 5"

lemmas online_constants [daemon_facts] = INTERVAL_OFFLINE_MIN_def INTERVAL_OFFLINE_DOUBLE_TIME_def
  INTERVAL_OFFLINE_MAX_def INTERVAL_ONLINE_def INTERVAL_ERROR_def ERRORS_NEEDED_def

record onlined =
  error_count :: int
  is_online :: bool
  delay :: int
  double_delay :: int
  offline_interval :: int
  curr_state :: string

definition onlined_init :: onlined where
  "onlined_init = \<lparr>error_count = 0, is_online = False, delay = 0, double_delay = INTERVAL_OFFLINE_DOUBLE_TIME,
     offline_interval = INTERVAL_OFFLINE_MIN, curr_state = ''Offline''\<rparr>"

text \<open>What a turn of the loop gets: the answer of the name server and the contents of the state file, if it opens.\<close>

record second =
  resolves :: bool
  state_file :: "char list option"

definition send_cmd :: "string \<Rightarrow> string list" where
  "send_cmd c = [''fs -l '' @ c]"

text \<open>While offline the interval between checks doubles every so many seconds.\<close>

definition stretch_interval :: "onlined \<Rightarrow> onlined option" where
  "stretch_interval s =
     (if \<not> is_online s \<and> offline_interval s < INTERVAL_OFFLINE_MAX
      then do {
        d \<leftarrow> checked (double_delay s - 1);
        let s = s\<lparr>double_delay := d\<rparr>;
        if d = 0 then do {
          i \<leftarrow> checked (offline_interval s * 2);
          Some (s\<lparr>offline_interval := i, double_delay := INTERVAL_OFFLINE_DOUBLE_TIME\<rparr>) }
        else Some s }
      else Some s)"

definition test_request :: "bool \<Rightarrow> onlined \<Rightarrow> (onlined \<times> string list) option" where
  "test_request success s =
     (if \<not> success
      then if is_online s
        then do {
          ec \<leftarrow> checked (error_count s + 1);
          let s = s\<lparr>error_count := ec\<rparr>;
          if ec \<ge> ERRORS_NEEDED
          then Some (s\<lparr>delay := INTERVAL_OFFLINE_MIN, offline_interval := INTERVAL_OFFLINE_MIN,
              double_delay := INTERVAL_OFFLINE_DOUBLE_TIME\<rparr>, send_cmd ''Offline'')
          else Some (s\<lparr>delay := INTERVAL_ERROR\<rparr>, []) }
        else Some (s\<lparr>delay := offline_interval s\<rparr>, [])
      else Some (s\<lparr>error_count := 0, delay := INTERVAL_ONLINE\<rparr>,
        if \<not> is_online s then send_cmd ''Online'' else []))"

definition read_state :: "char list option \<Rightarrow> onlined \<Rightarrow> onlined" where
  "read_state file s =
     (case file of None \<Rightarrow> s
      | Some contents \<Rightarrow>
          let s = (case fgets_first 16 contents of None \<Rightarrow> s | Some line \<Rightarrow> s\<lparr>curr_state := line\<rparr>)
          in s\<lparr>is_online := (strcmp (curr_state s) ''Online'' = 0)\<rparr>)"

definition online_turn :: "second \<Rightarrow> onlined \<Rightarrow> (onlined \<times> string list) option" where
  "online_turn e s = do {
     s \<leftarrow> stretch_interval s;
     (s, out) \<leftarrow> (if delay s = 0 then test_request (resolves e) s else Some (s, []));
     d \<leftarrow> checked (delay s - 1);
     Some (read_state (state_file e) (s\<lparr>delay := d\<rparr>), out) }"

subsection \<open>Its invariant\<close>

text \<open>After \<open>n\<close> seconds: the counters are in their ranges and the delay is never skipped past 0.\<close>

definition onlined_ok :: "nat \<Rightarrow> onlined \<Rightarrow> bool" where
  "onlined_ok n s \<longleftrightarrow> 0 \<le> error_count s \<and> error_count s \<le> int n \<and> 0 \<le> delay s \<and> delay s < 64 \<and>
     0 < double_delay s \<and> double_delay s \<le> 60 \<and> offline_interval s \<in> {1, 2, 4, 8, 16, 32, 64}"

lemma read_state_simps [simp]:
  "error_count (read_state f s) = error_count s" "delay (read_state f s) = delay s"
  "double_delay (read_state f s) = double_delay s" "offline_interval (read_state f s) = offline_interval s"
  by (simp_all add: read_state_def Let_def split: option.splits)

lemma stretch_interval_ok:
  assumes "onlined_ok n s"
  obtains s' where "stretch_interval s = Some s'" and "onlined_ok n s'" and "error_count s' = error_count s"
    and "is_online s' = is_online s" and "delay s' = delay s" and "curr_state s' = curr_state s"
proof -
  have "\<exists>s'. stretch_interval s = Some s' \<and> onlined_ok n s' \<and> error_count s' = error_count s \<and>
      is_online s' = is_online s \<and> delay s' = delay s \<and> curr_state s' = curr_state s"
    using assms unfolding stretch_interval_def onlined_ok_def
    by (auto simp: checked_def int_max_def daemon_facts Let_def)
  then show thesis using that by blast
qed

text \<open>What the rest of a turn does with the two answers of the test.\<close>

lemma online_turn_waits:
  assumes "stretch_interval s = Some s1" and "0 < delay s1" and "delay s1 < 64"
  shows "online_turn e s = Some (read_state (state_file e) (s1\<lparr>delay := delay s1 - 1\<rparr>), [])"
  using assms by (simp add: online_turn_def checked_def int_max_def)

lemma online_turn_tests:
  assumes "stretch_interval s = Some s1" and "delay s1 = 0" and "error_count s1 + 1 \<le> int_max"
    and "0 \<le> error_count s1" and "offline_interval s1 \<in> {1, 2, 4, 8, 16, 32, 64}"
  shows "online_turn e s = Some (read_state (state_file e)
    (if resolves e then s1\<lparr>error_count := 0, delay := 59\<rparr>
     else if \<not> is_online s1 then s1\<lparr>delay := offline_interval s1 - 1\<rparr>
     else if error_count s1 < 4 then s1\<lparr>error_count := error_count s1 + 1, delay := 0\<rparr>
     else s1\<lparr>error_count := error_count s1 + 1, offline_interval := 1, double_delay := 60, delay := 0\<rparr>),
    if resolves e then (if is_online s1 then [] else send_cmd ''Online'')
    else if is_online s1 \<and> 4 \<le> error_count s1 then send_cmd ''Offline'' else [])"
proof -
  have c: "checked (error_count s1 + 1) = Some (error_count s1 + 1)" using assms(3,4) by (simp add: checked_def int_max_def)
  have d: "checked (offline_interval s1 - 1) = Some (offline_interval s1 - 1)" "checked 59 = Some 59" "checked 0 = Some 0"
    using assms(5) by (auto simp: checked_def int_max_def)
  show ?thesis
    unfolding online_turn_def assms(1) bind.bind_lunit assms(2) test_request_def c
    by (auto simp: d daemon_facts Let_def)
qed

interpretation onlined: invariant_client online_turn onlined_ok "nat int_max"
proof unfold_locales
  fix n s e assume ok: "onlined_ok n s" and n: "n < nat int_max"
  obtain s1 where s1: "stretch_interval s = Some s1" "onlined_ok n s1" using stretch_interval_ok[OF ok] by metis
  show "\<exists>s' out. online_turn e s = Some (s', out) \<and> onlined_ok (Suc n) s'"
  proof (cases "delay s1 = 0")
    case True
    have "error_count s1 + 1 \<le> int_max" using s1(2) n by (simp add: onlined_ok_def int_max_def)
    from online_turn_tests[OF s1(1) True this] s1(2) True show ?thesis by (auto simp: onlined_ok_def)
  next
    case False
    with online_turn_waits[OF s1(1)] s1(2) show ?thesis by (auto simp: onlined_ok_def)
  qed
qed

subsection \<open>Its reactions\<close>

definition rising :: "onlined \<Rightarrow> bool" where
  "rising s \<longleftrightarrow> onlined_ok (nat (int_max - 1)) s \<and> \<not> is_online s"

definition failing :: "onlined \<Rightarrow> bool" where
  "failing s \<longleftrightarrow> onlined_ok (nat (int_max - 1)) s \<and> is_online s"

definition network_up :: "second \<Rightarrow> bool" where
  "network_up e \<longleftrightarrow> resolves e \<and> (case state_file e of None \<Rightarrow> True | Some f \<Rightarrow> fgets_first 16 f = Some ''Offline'')"

definition network_down :: "second \<Rightarrow> bool" where
  "network_down e \<longleftrightarrow> \<not> resolves e \<and> (case state_file e of None \<Rightarrow> True | Some f \<Rightarrow> fgets_first 16 f = Some ''Online'')"

lemma read_state_up: "network_up e \<Longrightarrow> \<not> is_online t \<Longrightarrow> \<not> is_online (read_state (state_file e) t)"
  by (auto simp: read_state_def network_up_def strcmp_eq_0 Let_def split: option.splits)

lemma read_state_down: "network_down e \<Longrightarrow> is_online t \<Longrightarrow> is_online (read_state (state_file e) t)"
  by (auto simp: read_state_def network_down_def strcmp_eq_0 Let_def split: option.splits)

interpretation goes_online: responsive online_turn rising network_up "\<lambda>out s. ''fs -l Online'' \<in> set out" "\<lambda>s. nat (delay s)"
proof unfold_locales
  fix s e assume s: "rising s" and e: "network_up e"
  obtain s1 where s1: "stretch_interval s = Some s1" "onlined_ok (nat (int_max - 1)) s1" "\<not> is_online s1" "delay s1 = delay s"
    using s stretch_interval_ok unfolding rising_def by metis
  show "\<exists>s' out. online_turn e s = Some (s', out) \<and>
      (''fs -l Online'' \<in> set out \<or> rising s' \<and> nat (delay s') < nat (delay s))"
  proof (cases "delay s1 = 0")
    case True
    have "error_count s1 + 1 \<le> int_max" using s1(2) by (simp add: onlined_ok_def int_max_def)
    from online_turn_tests[OF s1(1) True this, of e] s1 e show ?thesis
      by (simp add: onlined_ok_def network_up_def send_cmd_def)
  next
    case False
    with online_turn_waits[OF s1(1), of e] s1 read_state_up[OF e] show ?thesis
      by (auto simp: onlined_ok_def rising_def)
  qed
qed

interpretation goes_offline: responsive online_turn failing network_down "\<lambda>out s. ''fs -l Offline'' \<in> set out"
  "\<lambda>s. nat (delay s) + nat (5 - error_count s)"
proof unfold_locales
  fix s e assume s: "failing s" and e: "network_down e"
  have s1: "stretch_interval s = Some s" using s by (simp add: stretch_interval_def failing_def)
  show "\<exists>s' out. online_turn e s = Some (s', out) \<and> (''fs -l Offline'' \<in> set out \<or>
      failing s' \<and> nat (delay s') + nat (5 - error_count s') < nat (delay s) + nat (5 - error_count s))"
  proof (cases "delay s = 0")
    case True
    have b: "error_count s + 1 \<le> int_max" using s by (simp add: failing_def onlined_ok_def int_max_def)
    show ?thesis
    proof (cases "error_count s < 4")
      case True
      then show ?thesis
        using online_turn_tests[OF s1 \<open>delay s = 0\<close> b, of e] s e read_state_down[OF e]
        by (auto simp: failing_def onlined_ok_def network_down_def int_max_def)
    next
      case False
      then show ?thesis
        using online_turn_tests[OF s1 \<open>delay s = 0\<close> b, of e] s e
        by (auto simp: failing_def onlined_ok_def network_down_def send_cmd_def)
    qed
  next
    case False
    with online_turn_waits[OF s1, of e] s read_state_down[OF e] show ?thesis
      by (auto simp: onlined_ok_def failing_def)
  qed
qed

subsection \<open>The plug-in\<close>

text \<open>What the network answers to a request; \<open>Received\<close> is the return value of \<open>recv\<close>.\<close>

datatype net_answer = No_host | No_socket | No_connection | Send_failed | Received int

text \<open>\<open>buf[retval] = '\0'\<close> after a failed \<open>recv\<close> is a write before the buffer.\<close>

fun test_url :: "int \<Rightarrow> net_answer \<Rightarrow> int option" where
  "test_url len (Received r) = (if 0 \<le> r \<and> r \<le> len - 1 then Some r else None)"
| "test_url len No_host = Some 0"
| "test_url len No_socket = Some 0"
| "test_url len No_connection = Some 0"
| "test_url len Send_failed = Some 0"

definition TOUT_OFFLINE :: int where "TOUT_OFFLINE = 1"
definition TOUT_ONLINE :: int where "TOUT_ONLINE = 10"

record plugin =
  plugin_state :: string
  plugin_count :: int

record plugin_second =
  google :: net_answer
  fon :: net_answer
  plugin_file :: "char list option"

definition plugin_init :: plugin where
  "plugin_init = \<lparr>plugin_state = ''Offline'', plugin_count = 0\<rparr>"

definition check_online :: "plugin_second \<Rightarrow> plugin \<Rightarrow> (plugin \<times> string list) option" where
  "check_online e s =
     (if strcmp (plugin_state s) ''Online'' = 0 \<and> plugin_count s > TOUT_ONLINE
      then do {
        g \<leftarrow> test_url 1024 (google e);
        f \<leftarrow> test_url 1024 (fon e);
        Some (s\<lparr>plugin_count := 0\<rparr>, if g = 0 \<and> f = 0 then [''Offline''] else []) }
      else Some (s, []))"

definition check_offline :: "plugin_second \<Rightarrow> plugin \<Rightarrow> (plugin \<times> string list) option" where
  "check_offline e s =
     (if strcmp (plugin_state s) ''Offline'' = 0 \<and> plugin_count s > TOUT_OFFLINE
      then do {
        g \<leftarrow> test_url 1024 (google e);
        f \<leftarrow> (if g = 0 then test_url 1024 (fon e) else Some 0);
        Some (s\<lparr>plugin_count := 0\<rparr>, if g \<noteq> 0 \<or> f \<noteq> 0 then [''Online''] else []) }
      else Some (s, []))"

definition plugin_turn :: "plugin_second \<Rightarrow> plugin \<Rightarrow> (plugin \<times> string list) option" where
  "plugin_turn e s = do {
     (s, out) \<leftarrow> check_online e s;
     (s, out') \<leftarrow> check_offline e s;
     c \<leftarrow> checked (plugin_count s + 1);
     let s = s\<lparr>plugin_count := c\<rparr>;
     let s = (case plugin_file e of None \<Rightarrow> s
       | Some contents \<Rightarrow>
           (case fgets_first 16 contents of None \<Rightarrow> s | Some line \<Rightarrow> s\<lparr>plugin_state := line\<rparr>));
     Some (s, out @ out') }"

definition answers :: "net_answer \<Rightarrow> bool" where
  "answers a \<longleftrightarrow> (\<exists>r. a = Received r \<and> 0 < r \<and> r < 1024)"

definition silent :: "net_answer \<Rightarrow> bool" where
  "silent a \<longleftrightarrow> test_url 1024 a = Some 0"

definition keeps_state :: "string \<Rightarrow> plugin_second \<Rightarrow> bool" where
  "keeps_state st e \<longleftrightarrow> (case plugin_file e of None \<Rightarrow> True | Some f \<Rightarrow> fgets_first 16 f = Some st)"

lemma answers_url: "answers a \<Longrightarrow> \<exists>r. test_url 1024 a = Some r \<and> r \<noteq> 0"
  by (auto simp: answers_def)

lemma plugin_file_keeps:
  "keeps_state st e \<Longrightarrow> plugin_state s = st \<Longrightarrow>
    (case plugin_file e of None \<Rightarrow> s
     | Some contents \<Rightarrow>
         (case fgets_first 16 contents of None \<Rightarrow> s | Some line \<Rightarrow> s\<lparr>plugin_state := line\<rparr>)) = s"
  by (auto simp: keeps_state_def split: option.splits)

definition plugin_in :: "string \<Rightarrow> plugin \<Rightarrow> bool" where
  "plugin_in st s \<longleftrightarrow> plugin_state s = st \<and> 0 \<le> plugin_count s \<and> plugin_count s < int_max"

interpretation plugin_online: responsive plugin_turn "plugin_in ''Offline''"
  "\<lambda>e. (answers (google e) \<or> silent (google e) \<and> answers (fon e)) \<and> keeps_state ''Offline'' e" "\<lambda>out s. ''Online'' \<in> set out"
  "\<lambda>s. nat (2 - plugin_count s)"
proof unfold_locales
  fix s e
  assume s: "plugin_in ''Offline'' s"
    and e: "(answers (google e) \<or> silent (google e) \<and> answers (fon e)) \<and> keeps_state ''Offline'' e"
  have on: "check_online e s = Some (s, [])" using s by (simp add: check_online_def plugin_in_def)
  show "\<exists>s' out. plugin_turn e s = Some (s', out) \<and> (''Online'' \<in> set out \<or>
      plugin_in ''Offline'' s' \<and> nat (2 - plugin_count s') < nat (2 - plugin_count s))"
  proof (cases "plugin_count s > 1")
    case True
    then have "check_offline e s = Some (s\<lparr>plugin_count := 0\<rparr>, [''Online''])"
      using s e answers_url by (force simp: check_offline_def plugin_in_def TOUT_OFFLINE_def silent_def)
    then show ?thesis by (simp add: plugin_turn_def on checked_def int_max_def Let_def)
  next
    case False
    then have "check_offline e s = Some (s, [])" by (simp add: check_offline_def TOUT_OFFLINE_def)
    then show ?thesis using False s e
      by (auto simp: plugin_turn_def on checked_def int_max_def plugin_in_def plugin_file_keeps Let_def)
  qed
qed

interpretation plugin_offline: responsive plugin_turn "plugin_in ''Online''"
  "\<lambda>e. silent (google e) \<and> silent (fon e) \<and> keeps_state ''Online'' e" "\<lambda>out s. ''Offline'' \<in> set out"
  "\<lambda>s. nat (11 - plugin_count s)"
proof unfold_locales
  fix s e
  assume s: "plugin_in ''Online'' s" and e: "silent (google e) \<and> silent (fon e) \<and> keeps_state ''Online'' e"
  show "\<exists>s' out. plugin_turn e s = Some (s', out) \<and> (''Offline'' \<in> set out \<or>
      plugin_in ''Online'' s' \<and> nat (11 - plugin_count s') < nat (11 - plugin_count s))"
  proof (cases "plugin_count s > 10")
    case True
    then have "check_online e s = Some (s\<lparr>plugin_count := 0\<rparr>, [''Offline''])"
      using s e by (simp add: check_online_def plugin_in_def TOUT_ONLINE_def silent_def)
    moreover have "check_offline e (s\<lparr>plugin_count := 0\<rparr>) = Some (s\<lparr>plugin_count := 0\<rparr>, [])"
      by (simp add: check_offline_def TOUT_OFFLINE_def)
    ultimately show ?thesis by (simp add: plugin_turn_def checked_def int_max_def Let_def)
  next
    case False
    then have "check_online e s = Some (s, [])" by (simp add: check_online_def TOUT_ONLINE_def)
    moreover have "check_offline e s = Some (s, [])" using s by (simp add: check_offline_def plugin_in_def)
    ultimately show ?thesis using False s e
      by (auto simp: plugin_turn_def checked_def int_max_def plugin_in_def plugin_file_keeps Let_def)
  qed
qed

subsection \<open>Claims\<close>

text \<open>C14: The daemon reacts, whatever happened before: after any history of seconds from its start (up to the range
of its counters) its step is defined; if it is then offline and the name server answers in every second, it
sends the command to go online within 64 seconds, and if it is online and no request succeeds, it sends the
command to go offline within 69 seconds, as long as nobody else changes the state.\<close>

theorem onlined_reacts:
  assumes "length es \<le> nat (int_max - 1)"
  shows "\<exists>s out. run_steps online_turn es onlined_init = Some (s, out) \<and>
    (\<not> is_online s \<longrightarrow> (\<forall>fs. length fs = 64 \<longrightarrow> (\<forall>e \<in> set fs. network_up e) \<longrightarrow>
      (\<exists>n<64. \<exists>s' out'. run_steps online_turn (take (Suc n) fs) s = Some (s', out') \<and> ''fs -l Online'' \<in> set out'))) \<and>
    (is_online s \<longrightarrow> (\<forall>fs. length fs = 69 \<longrightarrow> (\<forall>e \<in> set fs. network_down e) \<longrightarrow>
      (\<exists>n<69. \<exists>s' out'. run_steps online_turn (take (Suc n) fs) s = Some (s', out') \<and> ''fs -l Offline'' \<in> set out')))"
proof -
  have i: "onlined_ok 0 onlined_init" by (simp add: onlined_ok_def onlined_init_def daemon_facts)
  have "0 + length es \<le> nat int_max" using assms by (simp add: int_max_def)
  from onlined.runs[OF i this]
  obtain s out where s: "run_steps online_turn es onlined_init = Some (s, out)" "onlined_ok (length es) s" by auto
  then have ok: "onlined_ok (nat (int_max - 1)) s" using assms by (auto simp: onlined_ok_def)
  have up: "\<exists>n<64. \<exists>s' out'. run_steps online_turn (take (Suc n) fs) s = Some (s', out') \<and> ''fs -l Online'' \<in> set out'"
    if "\<not> is_online s" "length fs = 64" "\<forall>e \<in> set fs. network_up e" for fs
  proof -
    have r: "rising s" "nat (delay s) < length fs" using ok that by (auto simp: rising_def onlined_ok_def)
    from goes_online.responds[OF r(1) that(3) r(2)] obtain n s' out1 out2 where
      "n < length fs" "run_steps online_turn (take (Suc n) fs) s = Some (s', out1 @ out2)" "''fs -l Online'' \<in> set (out1 @ out2)" by auto
    then show ?thesis unfolding that(2) by blast
  qed
  have down: "\<exists>n<69. \<exists>s' out'. run_steps online_turn (take (Suc n) fs) s = Some (s', out') \<and> ''fs -l Offline'' \<in> set out'"
    if "is_online s" "length fs = 69" "\<forall>e \<in> set fs. network_down e" for fs
  proof -
    have r: "failing s" "nat (delay s) + nat (5 - error_count s) < length fs"
      using ok that by (auto simp: failing_def onlined_ok_def)
    from goes_offline.responds[OF r(1) that(3) r(2)] obtain n s' out1 out2 where
      "n < length fs" "run_steps online_turn (take (Suc n) fs) s = Some (s', out1 @ out2)" "''fs -l Offline'' \<in> set (out1 @ out2)" by auto
    then show ?thesis unfolding that(2) by blast
  qed
  show ?thesis using s(1) up down by blast
qed

theorem onlined_reacts_witness:
  "\<exists>n<64. \<exists>s' out'. run_steps online_turn (take (Suc n) (replicate 64 \<lparr>resolves = True, state_file = None\<rparr>)) onlined_init =
    Some (s', out') \<and> ''fs -l Online'' \<in> set out'"
proof -
  let ?fs = "replicate 64 \<lparr>resolves = True, state_file = None\<rparr>"
  have "length ?fs = 64" "\<forall>e \<in> set ?fs. network_up e" by (simp_all add: network_up_def)
  moreover have "\<not> is_online onlined_init" by (simp add: onlined_init_def)
  moreover have "length ([] :: second list) \<le> nat (int_max - 1)" by simp
  from onlined_reacts[OF this] obtain s out where "Some (onlined_init, [] :: string list) = Some (s, out)"
    "\<not> is_online s \<longrightarrow> (\<forall>fs. length fs = 64 \<longrightarrow> (\<forall>e \<in> set fs. network_up e) \<longrightarrow>
      (\<exists>n<64. \<exists>s' out'. run_steps online_turn (take (Suc n) fs) s = Some (s', out') \<and> ''fs -l Online'' \<in> set out'))"
    unfolding run_steps.simps(1) by blast
  moreover from this(1) have "s = onlined_init" by simp
  ultimately show ?thesis by blast
qed

text \<open>C30: The plug-in reacts: offline it sends the command to go online at the latest in the third second in which one of
the two servers answers, and online it sends the command to go offline within 12 seconds without an answer.\<close>

theorem online_plugin_reacts:
  assumes s: "0 \<le> plugin_count s" "plugin_count s < int_max"
  shows "(plugin_state s = ''Offline'' \<longrightarrow> (\<forall>fs. length fs = 3 \<longrightarrow>
      (\<forall>e \<in> set fs. (answers (google e) \<or> silent (google e) \<and> answers (fon e)) \<and> keeps_state ''Offline'' e) \<longrightarrow>
      (\<exists>n<3. \<exists>s' out. run_steps plugin_turn (take (Suc n) fs) s = Some (s', out) \<and> ''Online'' \<in> set out))) \<and>
    (plugin_state s = ''Online'' \<longrightarrow> (\<forall>fs. length fs = 12 \<longrightarrow>
      (\<forall>e \<in> set fs. silent (google e) \<and> silent (fon e) \<and> keeps_state ''Online'' e) \<longrightarrow>
      (\<exists>n<12. \<exists>s' out. run_steps plugin_turn (take (Suc n) fs) s = Some (s', out) \<and> ''Offline'' \<in> set out)))"
proof (intro conjI impI allI)
  fix fs assume a: "plugin_state s = ''Offline''" "length fs = 3"
    "\<forall>e \<in> set fs. (answers (google e) \<or> silent (google e) \<and> answers (fon e)) \<and> keeps_state ''Offline'' e"
  have r: "plugin_in ''Offline'' s" "nat (2 - plugin_count s) < length fs" using s a by (auto simp: plugin_in_def)
  from plugin_online.responds[OF r(1) a(3) r(2)] obtain n s' out1 out2 where
    "n < length fs" "run_steps plugin_turn (take (Suc n) fs) s = Some (s', out1 @ out2)" "''Online'' \<in> set (out1 @ out2)" by auto
  then show "\<exists>n<3. \<exists>s' out. run_steps plugin_turn (take (Suc n) fs) s = Some (s', out) \<and> ''Online'' \<in> set out"
    unfolding a(2) by blast
next
  fix fs assume a: "plugin_state s = ''Online''" "length fs = 12"
    "\<forall>e \<in> set fs. silent (google e) \<and> silent (fon e) \<and> keeps_state ''Online'' e"
  have r: "plugin_in ''Online'' s" "nat (11 - plugin_count s) < length fs" using s a by (auto simp: plugin_in_def)
  from plugin_offline.responds[OF r(1) a(3) r(2)] obtain n s' out1 out2 where
    "n < length fs" "run_steps plugin_turn (take (Suc n) fs) s = Some (s', out1 @ out2)" "''Offline'' \<in> set (out1 @ out2)" by auto
  then show "\<exists>n<12. \<exists>s' out. run_steps plugin_turn (take (Suc n) fs) s = Some (s', out) \<and> ''Offline'' \<in> set out"
    unfolding a(2) by blast
qed

theorem online_plugin_reacts_witness:
  "\<exists>n<3. \<exists>s' out. run_steps plugin_turn (take (Suc n)
      (replicate 3 \<lparr>google = Send_failed, fon = Received 7, plugin_file = Some ''Offline''\<rparr>)) plugin_init = Some (s', out) \<and>
    ''Online'' \<in> set out"
proof -
  let ?fs = "replicate 3 \<lparr>google = Send_failed, fon = Received 7, plugin_file = Some ''Offline''\<rparr>"
  have l: "length ?fs = 3" by simp
  have e: "\<forall>e \<in> set ?fs. (answers (google e) \<or> silent (google e) \<and> answers (fon e)) \<and> keeps_state ''Offline'' e"
    by (simp add: answers_def silent_def keeps_state_def fgets_first_def NUL_def)
  have "0 \<le> plugin_count plugin_init" "plugin_count plugin_init < int_max" "plugin_state plugin_init = ''Offline''"
    by (simp_all add: plugin_init_def int_max_def)
  with online_plugin_reacts[of plugin_init] l e show ?thesis by blast
qed

end
