(* ===== verification/FonState.thy ===== *)
theory FonState
  imports CLib
begin

text \<open>
  The daemon fonstated, \<open>package/fonstate/src\<close>: the timers, events and queue of jobs in \<open>fon/state.c\<close>, the
  process table in \<open>lib/ps.c\<close>, the command socket in \<open>net/socket.c\<close>, the pings and the main loop. The
  intrusive lists of \<open>state.c\<close> are lists here, in the order of the pointers; the theory ListHead shows that
  the operations on the pointers do what these lists do. What is outside the program is input: the
  configuration, the files, the datagrams. What the program starts is output.
\<close>

subsection \<open>Types\<close>

text \<open>A callback that is set is a value of \<open>'c\<close>; the program itself never sets one.\<close>

datatype 'c act = System string | Callback 'c | Open_dog | Write_dog int

record 'c fontimer =
  action :: string
  pidfile :: string
  period :: int
  count :: int
  timercb :: "'c ptr"

record 'c fonevent =
  event :: string
  event_action :: string
  fast :: int
  eventcb :: "'c ptr"

record 'c fonqueue =
  queued :: "'c fonevent ptr"
  cmdline :: "char list"

datatype ping = Ping_ps | Ping_usb | Ping_dog

record 'c fonstate =
  fontimers :: "'c fontimer list"
  fonevents :: "'c fonevent list"
  fonqueue :: "'c fonqueue list"
  fonpings :: "ping list"
  pstable :: "(int \<times> string) list"
  dog_counter :: int
  wdt :: int

definition no_state :: "'c fonstate" where
  "no_state = \<lparr>fontimers = [], fonevents = [], fonqueue = [], fonpings = [], pstable = [], dog_counter = 0, wdt = 0\<rparr>"

text \<open>The command line is printed into an array of 256 characters before the shell gets it.\<close>

definition system_printf :: "string \<Rightarrow> 'c act" where
  "system_printf cmd = System (take 255 cmd)"

subsection \<open>Events and the queue\<close>

text \<open>What is written to \<open>/tmp/fonstate.queue\<close>, when it opens.\<close>

fun dump_lines :: "'c fonqueue list \<Rightarrow> string option" where
  "dump_lines [] = Some ''''"
| "dump_lines (q # qs) = do {
     line \<leftarrow> (case queued q of Some e \<Rightarrow> Some (event e) | None \<Rightarrow> array_str (cmdline q));
     rest \<leftarrow> dump_lines qs;
     Some (line @ [CHR 0x0A] @ rest) }"

definition dump_queue :: "bool \<Rightarrow> 'c fonstate \<Rightarrow> string option" where
  "dump_queue opens s = (if opens then dump_lines (fonqueue s) else Some '''')"

fun find_event :: "string \<Rightarrow> 'c fonevent list \<Rightarrow> 'c fonevent ptr" where
  "find_event name [] = None"
| "find_event name (e # es) = (if strcmp name (event e) = 0 then Some e else find_event name es)"

definition run_event :: "string \<Rightarrow> 'c fonevent \<Rightarrow> 'c act list" where
  "run_event redirect e = (case eventcb e of Some cb \<Rightarrow> [Callback cb] | None \<Rightarrow> [system_printf (event_action e @ redirect)])"

text \<open>\<open>garbage\<close> is what the allocated \<open>cmdline\<close> holds, which only a job without an event overwrites.\<close>

definition enqueue_job :: "bool \<Rightarrow> char list \<Rightarrow> string \<Rightarrow> 'c fonstate \<Rightarrow> ('c fonstate \<times> 'c act list) option" where
  "enqueue_job opens garbage q s =
     (let e = find_event q (fonevents s) in
      case e of
        Some ev \<Rightarrow>
          if fast ev \<noteq> 0 then Some (s, run_event '' 2> /dev/null'' ev)
          else do {
            let s = s\<lparr>fonqueue := fonqueue s @ [\<lparr>queued = e, cmdline = garbage\<rparr>]\<rparr>;
            _ \<leftarrow> dump_queue opens s;
            Some (s, []) }
      | None \<Rightarrow> do {
            let s = s\<lparr>fonqueue := fonqueue s @ [\<lparr>queued = None, cmdline = strncpy_array 128 q\<rparr>]\<rparr>;
            _ \<leftarrow> dump_queue opens s;
            Some (s, []) })"

definition pop_queue :: "bool \<Rightarrow> 'c fonstate \<Rightarrow> ('c fonstate \<times> 'c fonqueue ptr) option" where
  "pop_queue opens s =
     (case fonqueue s of
        [] \<Rightarrow> Some (s, None)
      | q # qs \<Rightarrow> do {
          let s = s\<lparr>fonqueue := qs\<rparr>;
          _ \<leftarrow> dump_queue opens s;
          Some (s, Some q) })"

text \<open>The test \<open>if(q->cmdline)\<close> is of an array and always true.\<close>

definition run_job :: "'c fonqueue \<Rightarrow> 'c act list option" where
  "run_job q = do {
     cmd \<leftarrow> array_str (cmdline q);
     Some ((case queued q of Some e \<Rightarrow> run_event '' > /dev/null <&1 2>&1'' e | None \<Rightarrow> []) @
       [system_printf (''/etc/fonstated/'' @ cmd @ '' > /dev/null <&1 2>&1'')]) }"

partial_function (option) process_queue :: "bool \<Rightarrow> 'c fonstate \<Rightarrow> ('c fonstate \<times> 'c act list) option" where
  "process_queue opens s = do {
     (s, q) \<leftarrow> pop_queue opens s;
     (case q of
        None \<Rightarrow> Some (s, [])
      | Some q \<Rightarrow> do {
          out \<leftarrow> run_job q;
          (s, out') \<leftarrow> process_queue opens s;
          Some (s, out @ out') }) }"

subsection \<open>Loading\<close>

definition add_timer :: "string ptr \<Rightarrow> string ptr \<Rightarrow> int \<Rightarrow> 'c ptr \<Rightarrow> 'c fonstate \<Rightarrow> 'c fonstate option" where
  "add_timer a f p cb s = do {
     act \<leftarrow> (case a of Some a \<Rightarrow> strcpy_array 64 a | None \<Rightarrow> Some '''');
     pid \<leftarrow> (case f of Some f \<Rightarrow> strcpy_array 64 f | None \<Rightarrow> Some '''');
     per \<leftarrow> checked (p * 5);
     Some (s\<lparr>fontimers := fontimers s @ [\<lparr>action = act, pidfile = pid, period = per, count = 0, timercb = cb\<rparr>]\<rparr>) }"

definition add_event :: "string \<Rightarrow> string ptr \<Rightarrow> 'c ptr \<Rightarrow> int \<Rightarrow> 'c fonstate \<Rightarrow> 'c fonstate option" where
  "add_event e a cb fas s = do {
     ev \<leftarrow> strcpy_array 64 e;
     act \<leftarrow> (case a of Some a \<Rightarrow> strcpy_array 64 a | None \<Rightarrow> Some '''');
     Some (s\<lparr>fonevents := fonevents s @ [\<lparr>event = ev, event_action = act, fast = fas, eventcb = cb\<rparr>]\<rparr>) }"

text \<open>A configuration: its sections in order with their types and options, through \<open>lib/uci.c\<close>.\<close>

type_synonym uci = "(string \<times> (string \<rightharpoonup> string)) list"

definition get_option_int :: "(string \<rightharpoonup> string) \<Rightarrow> string \<Rightarrow> int \<Rightarrow> int option" where
  "get_option_int sec name def = (case sec name of Some v \<Rightarrow> atoi v | None \<Rightarrow> Some def)"

definition load_timers :: "(string \<rightharpoonup> string) \<Rightarrow> 'c fonstate \<Rightarrow> 'c fonstate option" where
  "load_timers sec s = do {
     let a = sec ''action'';
     let f = sec ''pidfile'';
     p \<leftarrow> get_option_int sec ''period'' 0;
     if a = None \<or> p = 0 then Some s else add_timer a f p None s }"

definition load_events :: "(string \<rightharpoonup> string) \<Rightarrow> 'c fonstate \<Rightarrow> 'c fonstate option" where
  "load_events sec s = do {
     let e = sec ''event'';
     let a = sec ''action'';
     f \<leftarrow> get_option_int sec ''fast'' 0;
     (case e of
        None \<Rightarrow> Some s
      | Some e \<Rightarrow> if a = None then Some s else add_event e a None f s) }"

definition for_each_section_type :: "uci \<Rightarrow> string \<Rightarrow> ((string \<rightharpoonup> string) \<Rightarrow> 's \<Rightarrow> 's option) \<Rightarrow> 's \<Rightarrow> 's option" where
  "for_each_section_type conf t cb = for_each conf (\<lambda>(type, sec) s. if strcmp t type = 0 then cb sec s else Some s)"

definition load_uci :: "uci \<Rightarrow> 'c fonstate \<Rightarrow> 'c fonstate option" where
  "load_uci conf s = do {
     let s = s\<lparr>fontimers := [], fonqueue := [], fonevents := [], fonpings := []\<rparr>;
     s \<leftarrow> for_each_section_type conf ''fontimer'' load_timers s;
     for_each_section_type conf ''fonevent'' load_events s }"

definition load_boot :: "bool \<Rightarrow> char list \<Rightarrow> (string \<rightharpoonup> string) \<Rightarrow> 'c fonstate \<times> 'c act list \<Rightarrow> ('c fonstate \<times> 'c act list) option" where
  "load_boot opens garbage sec = (\<lambda>(s, out).
     case sec ''event'' of None \<Rightarrow> Some (s, out)
     | Some e \<Rightarrow> do { (s, out') \<leftarrow> enqueue_job opens garbage e s; Some (s, out @ out') })"

definition enqueue_boot_jobs :: "bool \<Rightarrow> char list \<Rightarrow> uci \<Rightarrow> 'c fonstate \<Rightarrow> ('c fonstate \<times> 'c act list) option" where
  "enqueue_boot_jobs opens garbage conf s = for_each_section_type conf ''fonboot'' (load_boot opens garbage) (s, [])"

subsection \<open>The process table\<close>

fun numeric :: "string \<Rightarrow> int" where
  "numeric [] = 0"
| "numeric (c # cs) = (if \<not> isdigit c then 1 else numeric cs)"

definition basename :: "string \<Rightarrow> string" where
  "basename path =
     (if path = [] then ''.''
      else let p = rev (dropWhile (\<lambda>c. c = CHR ''/'') (rev path))
           in if p = [] then ''/'' else rev (takeWhile (\<lambda>c. c \<noteq> CHR ''/'') (rev p)))"

text \<open>An entry of \<open>/proc\<close>: its name, whether it is a directory, and its command line, if it opens.\<close>

record proc_entry =
  d_name :: string
  is_dir :: bool
  proc_cmdline :: "char list option"

definition add_proc :: "proc_entry \<Rightarrow> (int \<times> string) list \<Rightarrow> (int \<times> string) list option" where
  "add_proc d table =
     (if is_dir d \<and> numeric (d_name d) = 0
      then do {
        _ \<leftarrow> strcpy_array 64 (''/proc/'' @ d_name d @ ''/cmdline'');
        (case proc_cmdline d of
           None \<Rightarrow> Some table
         | Some contents \<Rightarrow>
             (case fgets_first 64 contents of
                None \<Rightarrow> Some table
              | Some tmp \<Rightarrow>
                  if length table < 128
                  then do {
                    pid \<leftarrow> atoi (d_name d);
                    p \<leftarrow> strcpy_array 64 (basename tmp);
                    Some (table @ [(pid, p)]) }
                  else Some table)) }
      else Some table)"

text \<open>\<open>scandir\<close> gives the entries, which are taken from the last to the first.\<close>

definition ps :: "proc_entry list \<Rightarrow> 'c fonstate \<Rightarrow> 'c fonstate option" where
  "ps namelist s = do { t \<leftarrow> for_each (rev namelist) add_proc []; Some (s\<lparr>pstable := t\<rparr>) }"

fun ps_find :: "int \<Rightarrow> (int \<times> string) list \<Rightarrow> string ptr" where
  "ps_find pid [] = None"
| "ps_find pid ((p, name) # t) = (if p = pid then Some name else ps_find pid t)"

subsection \<open>Timers\<close>

text \<open>The files, by name; an empty pid file leaves the buffer unset and what \<open>atoi\<close> reads undefined.\<close>

definition process_wdt :: "(string \<rightharpoonup> char list) \<Rightarrow> 'c fonstate \<Rightarrow> 'c fontimer \<Rightarrow> 'c act list option" where
  "process_wdt files s t =
     (let restart = Some [system_printf (action t @ '' start 2> /dev/null'')] in
      case files (pidfile t) of
        None \<Rightarrow> restart
      | Some contents \<Rightarrow> do {
          p \<leftarrow> fgets_first 256 contents;
          pid \<leftarrow> atoi p;
          if ps_find pid (pstable s) = None then restart else Some [] })"

text \<open>The remainder is C's, with the sign of the count; to be 0 it does not depend on the sign.\<close>

definition process_timer :: "(string \<rightharpoonup> char list) \<Rightarrow> 'c fonstate \<Rightarrow> 'c fontimer \<Rightarrow> ('c fontimer \<times> 'c act list) option" where
  "process_timer files s t = do {
     c \<leftarrow> checked (count t + 1);
     let t = t\<lparr>count := c\<rparr>;
     if period t = 0 then None
     else if c mod period t = 0 then do {
       out \<leftarrow> (if pidfile t \<noteq> '''' then process_wdt files s t
         else (case timercb t of Some cb \<Rightarrow> Some [Callback cb] | None \<Rightarrow> Some [system_printf (action t @ '' 2> /dev/null'')]));
       Some (t, out) }
     else Some (t, []) }"

fun timers_loop :: "(string \<rightharpoonup> char list) \<Rightarrow> 'c fonstate \<Rightarrow> 'c fontimer list \<Rightarrow> ('c fontimer list \<times> 'c act list) option" where
  "timers_loop files s [] = Some ([], [])"
| "timers_loop files s (t # ts) = do {
     (t, out) \<leftarrow> process_timer files s t;
     (ts, out') \<leftarrow> timers_loop files s ts;
     Some (t # ts, out @ out') }"

definition process_timers :: "(string \<rightharpoonup> char list) \<Rightarrow> 'c fonstate \<Rightarrow> ('c fonstate \<times> 'c act list) option" where
  "process_timers files s = do {
     (ts, out) \<leftarrow> timers_loop files s (fontimers s);
     Some (s\<lparr>fontimers := ts\<rparr>, out) }"

subsection \<open>Pings\<close>

definition add_ping :: "ping \<Rightarrow> 'c fonstate \<Rightarrow> 'c fonstate" where
  "add_ping p s = s\<lparr>fonpings := fonpings s @ [p]\<rparr>"

definition ps_init :: "'c fonstate \<Rightarrow> 'c fonstate" where
  "ps_init = add_ping Ping_ps"

definition usb_status_start :: "'c fonstate \<Rightarrow> 'c fonstate" where
  "usb_status_start = add_ping Ping_usb"

definition watchdog_start :: "'c fonstate \<Rightarrow> 'c fonstate" where
  "watchdog_start = add_ping Ping_dog"

text \<open>\<open>dog\<close> is what \<open>open\<close> returns for the device.\<close>

definition kick_the_dog :: "int \<Rightarrow> 'c fonstate \<Rightarrow> ('c fonstate \<times> 'c act list) option" where
  "kick_the_dog dog s = do {
     c \<leftarrow> checked (dog_counter s + 1);
     let s = s\<lparr>dog_counter := c\<rparr>;
     if c mod 5 = 0
     then if wdt s = 0 then Some (s\<lparr>wdt := dog\<rparr>, [Open_dog]) else Some (s, [Write_dog (wdt s)])
     else Some (s, []) }"

definition ping_one :: "proc_entry list \<Rightarrow> int \<Rightarrow> ping \<Rightarrow> 'c fonstate \<times> 'c act list \<Rightarrow> ('c fonstate \<times> 'c act list) option" where
  "ping_one procs dog p = (\<lambda>(s, out).
     case p of
       Ping_ps \<Rightarrow> do { s \<leftarrow> ps procs s; Some (s, out) }
     | Ping_usb \<Rightarrow> Some (s, out)
     | Ping_dog \<Rightarrow> do { (s, out') \<leftarrow> kick_the_dog dog s; Some (s, out @ out') })"

definition state_ping :: "proc_entry list \<Rightarrow> int \<Rightarrow> 'c fonstate \<Rightarrow> ('c fonstate \<times> 'c act list) option" where
  "state_ping procs dog s = for_each (fonpings s) (ping_one procs dog) (s, [])"

subsection \<open>The socket and the main loop\<close>

text \<open>
  \<open>recv\<close> cuts a datagram to the 1024 bytes of the buffer and returns their number; the terminator goes to
  \<open>buf[nbytes]\<close>, after the last byte of a full buffer it is a write outside. An empty datagram ends the loop.
\<close>

fun fon_socket_handle :: "bool \<Rightarrow> char list \<Rightarrow> char list list \<Rightarrow> 'c fonstate \<Rightarrow> ('c fonstate \<times> 'c act list) option" where
  "fon_socket_handle opens garbage [] s = Some (s, [])"
| "fon_socket_handle opens garbage (d # ds) s =
     (let buf = take 1024 d; nbytes = length buf in
      if nbytes = 0 then Some (s, [])
      else if nbytes = 1024 then None
      else do {
        (s, out) \<leftarrow> enqueue_job opens garbage (takeWhile (\<lambda>c. c \<noteq> NUL) buf) s;
        (s, out') \<leftarrow> fon_socket_handle opens garbage ds s;
        Some (s, out @ out') })"

text \<open>What a turn of the main loop gets.\<close>

record turn =
  dump_opens :: bool
  heap_garbage :: "char list"
  datagrams :: "char list list"
  pid_files :: "string \<rightharpoonup> char list"

definition main_turn :: "turn \<Rightarrow> 'c fonstate \<Rightarrow> ('c fonstate \<times> 'c act list) option" where
  "main_turn e s = do {
     (s, out1) \<leftarrow> fon_socket_handle (dump_opens e) (heap_garbage e) (datagrams e) s;
     (s, out2) \<leftarrow> process_queue (dump_opens e) s;
     (s, out3) \<leftarrow> process_timers (pid_files e) s;
     Some (s, out1 @ out2 @ out3) }"

text \<open>The start of the daemon up to the main loop; \<open>starts\<close> are the plug-ins that are not daemons.\<close>

definition main_start :: "uci \<Rightarrow> bool \<Rightarrow> char list \<Rightarrow> ('c fonstate \<Rightarrow> 'c fonstate) list \<Rightarrow> ('c fonstate \<times> 'c act list) option" where
  "main_start conf opens garbage starts = do {
     s \<leftarrow> load_uci conf no_state;
     let s = fold (\<lambda>f. f) starts s;
     enqueue_boot_jobs opens garbage conf (ps_init s) }"

subsection \<open>The queue runs in order\<close>

definition job_ready :: "'c fonqueue \<Rightarrow> bool" where
  "job_ready q \<longleftrightarrow> NUL \<in> set (cmdline q)"

definition job_acts :: "'c fonqueue \<Rightarrow> 'c act list" where
  "job_acts q = (case queued q of Some e \<Rightarrow> run_event '' > /dev/null <&1 2>&1'' e | None \<Rightarrow> []) @
     [system_printf (''/etc/fonstated/'' @ takeWhile (\<lambda>c. c \<noteq> NUL) (cmdline q) @ '' > /dev/null <&1 2>&1'')]"

lemma run_job_ok: "run_job q = (if job_ready q then Some (job_acts q) else None)"
  by (simp add: run_job_def job_ready_def job_acts_def array_str_def)

lemma dump_ok: "\<forall>q \<in> set qs. job_ready q \<Longrightarrow> \<exists>d. dump_lines qs = Some d"
  by (induction qs) (auto simp: job_ready_def array_str_def split: option.split)

lemma dump_queue_ok: "\<forall>q \<in> set (fonqueue s). job_ready q \<Longrightarrow> \<exists>d. dump_queue opens s = Some d"
  using dump_ok by (auto simp: dump_queue_def)

lemma process_queue_Nil: "fonqueue s = [] \<Longrightarrow> process_queue opens s = Some (s, [])"
  by (subst process_queue.simps) (simp add: pop_queue_def)

lemma process_queue_Cons:
  "fonqueue s = q # qs \<Longrightarrow> process_queue opens s = do {
     _ \<leftarrow> dump_queue opens (s\<lparr>fonqueue := qs\<rparr>);
     out \<leftarrow> run_job q;
     (s, out') \<leftarrow> process_queue opens (s\<lparr>fonqueue := qs\<rparr>);
     Some (s, out @ out') }"
  by (subst process_queue.simps) (simp add: pop_queue_def Let_def)

lemma process_queue_ok:
  "\<forall>q \<in> set (fonqueue s). job_ready q \<Longrightarrow>
    process_queue opens s = Some (s\<lparr>fonqueue := []\<rparr>, concat (map job_acts (fonqueue s)))"
proof (induction "fonqueue s" arbitrary: s)
  case Nil
  then show ?case by (simp add: process_queue_Nil)
next
  case (Cons q qs)
  let ?s = "s\<lparr>fonqueue := qs\<rparr>"
  have r: "\<forall>q \<in> set (fonqueue ?s). job_ready q" "job_ready q" using Cons(2,3) by (simp_all flip: Cons(2))
  obtain d where d: "dump_queue opens ?s = Some d" using dump_queue_ok[OF r(1)] by blast
  have "process_queue opens ?s = Some (s\<lparr>fonqueue := []\<rparr>, concat (map job_acts qs))"
    using Cons.hyps(1)[of ?s] r(1) by simp
  then show ?case using d r(2) process_queue_Cons[OF Cons(2)[symmetric], of opens]
    by (simp add: run_job_ok flip: Cons(2))
qed

lemma process_queue_stuck:
  "q \<in> set (fonqueue s) \<Longrightarrow> \<not> job_ready q \<Longrightarrow> process_queue opens s = None"
proof (induction "fonqueue s" arbitrary: s)
  case (Cons q' qs)
  let ?s = "s\<lparr>fonqueue := qs\<rparr>"
  have "q \<in> set qs \<Longrightarrow> process_queue opens ?s = None" using Cons.hyps(1)[of ?s] Cons.prems(2) by simp
  moreover have "q = q' \<or> q \<in> set qs" using Cons.prems(1) by (simp flip: Cons(2))
  ultimately show ?case
    unfolding process_queue_Cons[OF Cons(2)[symmetric]] using Cons.prems(2)
    by (cases "dump_queue opens ?s") (auto simp: run_job_ok)
qed simp

subsection \<open>Jobs enter the queue\<close>

definition fast_acts :: "'c fonevent list \<Rightarrow> string \<Rightarrow> 'c act list" where
  "fast_acts evs q = (case find_event q evs of
     Some ev \<Rightarrow> if fast ev \<noteq> 0 then run_event '' 2> /dev/null'' ev else [] | None \<Rightarrow> [])"

definition new_jobs :: "'c fonevent list \<Rightarrow> char list \<Rightarrow> string \<Rightarrow> 'c fonqueue list" where
  "new_jobs evs garbage q = (case find_event q evs of
     Some ev \<Rightarrow> if fast ev \<noteq> 0 then [] else [\<lparr>queued = Some ev, cmdline = garbage\<rparr>]
   | None \<Rightarrow> [\<lparr>queued = None, cmdline = strncpy_array 128 q\<rparr>])"

lemma enqueue_job_ok:
  assumes "\<forall>j \<in> set (fonqueue s @ new_jobs (fonevents s) garbage q). job_ready j"
  shows "enqueue_job opens garbage q s =
    Some (s\<lparr>fonqueue := fonqueue s @ new_jobs (fonevents s) garbage q\<rparr>, fast_acts (fonevents s) q)"
proof (cases "\<exists>ev. find_event q (fonevents s) = Some ev \<and> fast ev \<noteq> 0")
  case True
  then show ?thesis by (auto simp: enqueue_job_def new_jobs_def fast_acts_def)
next
  case False
  obtain d where "dump_queue opens (s\<lparr>fonqueue := fonqueue s @ new_jobs (fonevents s) garbage q\<rparr>) = Some d"
    using dump_queue_ok[of "s\<lparr>fonqueue := fonqueue s @ new_jobs (fonevents s) garbage q\<rparr>"] assms by auto
  with False show ?thesis
    by (auto simp: enqueue_job_def new_jobs_def fast_acts_def Let_def split: option.splits)
qed

text \<open>A command: a datagram that is the name of an event or of a script and fits the buffers.\<close>

definition command :: "'c fonevent list \<Rightarrow> char list \<Rightarrow> bool" where
  "command evs d \<longleftrightarrow> d \<noteq> [] \<and> NUL \<notin> set d \<and> length d < 1024 \<and> (find_event d evs = None \<longrightarrow> length d < 128)"

lemma new_jobs_ready:
  "command evs d \<Longrightarrow> NUL \<in> set garbage \<Longrightarrow> \<forall>j \<in> set (new_jobs evs garbage d). job_ready j"
  by (auto simp: command_def new_jobs_def job_ready_def strncpy_array_def split: option.splits)

lemma socket_ok:
  assumes "NUL \<in> set garbage" and "\<forall>d \<in> set ds. command (fonevents s) d" and "\<forall>j \<in> set (fonqueue s). job_ready j"
  shows "fon_socket_handle opens garbage ds s =
    Some (s\<lparr>fonqueue := fonqueue s @ concat (map (new_jobs (fonevents s) garbage) ds)\<rparr>,
      concat (map (fast_acts (fonevents s)) ds))"
  using assms(2,3)
proof (induction ds arbitrary: s)
  case (Cons d ds)
  let ?s = "s\<lparr>fonqueue := fonqueue s @ new_jobs (fonevents s) garbage d\<rparr>"
  have d: "take 1024 d = d" "takeWhile (\<lambda>c. c \<noteq> NUL) d = d" "d \<noteq> []" "length d \<noteq> 1024"
    using Cons.prems(1) by (auto simp: command_def takeWhile_eq_all_conv)
  have r: "\<forall>j \<in> set (fonqueue s @ new_jobs (fonevents s) garbage d). job_ready j"
    using new_jobs_ready[OF _ assms(1), of "fonevents s" d] Cons.prems by auto
  show ?case
    using Cons.IH[of ?s] Cons.prems r d(3,4) enqueue_job_ok[OF r, of opens] by (simp add: Let_def d(1,2))
qed simp

lemma socket_only_queue:
  "fon_socket_handle opens garbage ds s = Some (s', out) \<Longrightarrow> \<exists>js. s' = s\<lparr>fonqueue := fonqueue s @ js\<rparr>"
proof (induction ds arbitrary: s s' out)
  case Nil
  then show ?case by (auto intro!: exI[of _ "[]"])
next
  case (Cons d ds)
  have e: "\<exists>js. s1 = s\<lparr>fonqueue := fonqueue s @ js\<rparr>" if "enqueue_job opens garbage q s = Some (s1, out1)" for q s1 out1
    using that by (auto simp: enqueue_job_def Let_def intro: exI[of _ "[]"] split: option.splits bind_splits if_splits)
  show ?case
  proof (cases "take 1024 d = []")
    case True
    then show ?thesis using Cons.prems by (auto simp: Let_def intro!: exI[of _ "[]"])
  next
    case False
    then obtain s1 out1 out2 where s1: "enqueue_job opens garbage (takeWhile (\<lambda>c. c \<noteq> NUL) (take 1024 d)) s = Some (s1, out1)"
      "fon_socket_handle opens garbage ds s1 = Some (s', out2)"
      using Cons.prems by (auto simp: Let_def split: bind_splits if_splits)
    obtain js where "s1 = s\<lparr>fonqueue := fonqueue s @ js\<rparr>" using e[OF s1(1)] by blast
    moreover obtain js' where "s' = s1\<lparr>fonqueue := fonqueue s1 @ js'\<rparr>" using Cons.IH[OF s1(2)] by blast
    ultimately show ?thesis by (intro exI[of _ "js @ js'"]) simp
  qed
qed

lemma process_timers_queue:
  assumes "pstable s' = pstable s" and "fontimers s' = fontimers s"
  shows "process_timers files s' = map_option (\<lambda>(t, out). (s'\<lparr>fontimers := fontimers t\<rparr>, out)) (process_timers files s)"
proof -
  have w: "process_wdt files s' t = process_wdt files s t" for t
    unfolding process_wdt_def assms(1) ..
  have "process_timer files s' = process_timer files s" by (intro ext) (simp only: process_timer_def w)
  then have "timers_loop files s' ts = timers_loop files s ts" for ts by (induction ts) auto
  then show ?thesis using assms(2) by (auto simp: process_timers_def split: bind_splits)
qed

text \<open>A turn of the main loop.\<close>

lemma main_turn_ok:
  assumes garbage: "NUL \<in> set (heap_garbage e)" and cmds: "\<forall>d \<in> set (datagrams e). command (fonevents s) d"
    and queue: "\<forall>j \<in> set (fonqueue s). job_ready j" and timers: "process_timers (pid_files e) s = Some (st, timer_out)"
  shows "main_turn e s = Some (s\<lparr>fonqueue := [], fontimers := fontimers st\<rparr>,
    concat (map (fast_acts (fonevents s)) (datagrams e)) @
    concat (map job_acts (fonqueue s @ concat (map (new_jobs (fonevents s) (heap_garbage e)) (datagrams e)))) @ timer_out)"
proof -
  define js where "js = fonqueue s @ concat (map (new_jobs (fonevents s) (heap_garbage e)) (datagrams e))"
  have r: "\<forall>j \<in> set (fonqueue (s\<lparr>fonqueue := js\<rparr>)). job_ready j"
    using queue cmds new_jobs_ready[OF _ garbage] by (fastforce simp: js_def)
  have "process_queue (dump_opens e) (s\<lparr>fonqueue := js\<rparr>) = Some (s\<lparr>fonqueue := []\<rparr>, concat (map job_acts js))"
    using process_queue_ok[OF r, of "dump_opens e"] by simp
  moreover have "process_timers (pid_files e) (s\<lparr>fonqueue := []\<rparr>) = Some (s\<lparr>fonqueue := [], fontimers := fontimers st\<rparr>, timer_out)"
    using process_timers_queue[of "s\<lparr>fonqueue := []\<rparr>" s "pid_files e"] timers by simp
  ultimately show ?thesis
    using socket_ok[OF garbage cmds queue, of "dump_opens e"] by (simp add: main_turn_def js_def)
qed

subsection \<open>Timers fire in time\<close>

text \<open>A timer that just runs its action, with room in its counter for \<open>n\<close> more turns.\<close>

definition plain_timer :: "nat \<Rightarrow> 'c fontimer \<Rightarrow> bool" where
  "plain_timer n t \<longleftrightarrow> pidfile t = '''' \<and> timercb t = None \<and> 0 < period t \<and> 0 \<le> count t \<and> count t + int n \<le> int_max"

definition timer_cmd :: "'c fontimer \<Rightarrow> 'c act" where
  "timer_cmd t = system_printf (action t @ '' 2> /dev/null'')"

definition ticked :: "nat \<Rightarrow> 'c fontimer \<Rightarrow> 'c fontimer" where
  "ticked n t = t\<lparr>count := count t + int n\<rparr>"

text \<open>How often a timer fires in \<open>n\<close> turns.\<close>

definition firings :: "nat \<Rightarrow> 'c fontimer \<Rightarrow> nat" where
  "firings n t = (nat (count t) + n) div nat (period t) - nat (count t) div nat (period t)"

lemma firings_Suc:
  assumes "0 \<le> count t" and "0 < period t"
  shows "firings (Suc n) t = firings 1 t + firings n (ticked 1 t)"
proof -
  define c p where "c = nat (count t)" and "p = nat (period t)"
  have n: "nat (count t + 1) = Suc c" using assms by (simp add: c_def nat_add_distrib)
  have "c div p \<le> Suc c div p" "Suc c div p \<le> Suc (c + n) div p" by (rule div_le_mono; simp)+
  then show ?thesis by (simp add: firings_def ticked_def n flip: c_def p_def)
qed

lemma firings_1:
  assumes "0 \<le> count t" and "0 < period t"
  shows "firings 1 t = (if (count t + 1) mod period t = 0 then 1 else 0)"
proof -
  define c p where "c = nat (count t)" and "p = nat (period t)"
  have p: "count t = int c" "period t = int p" using assms by (simp_all add: c_def p_def)
  have "(count t + 1) mod period t = int (Suc c mod p)" by (simp add: p zmod_int add.commute)
  then show ?thesis by (simp add: firings_def p div_Suc flip: of_nat_Suc)
qed

lemma process_timer_ok:
  assumes "plain_timer (Suc n) t"
  shows "process_timer files s t = Some (ticked 1 t, replicate (firings 1 t) (timer_cmd t))"
    and "plain_timer n (ticked 1 t)" and "timer_cmd (ticked k t) = timer_cmd t"
  using assms firings_1[of t]
  by (auto simp: plain_timer_def process_timer_def checked_def int_max_def ticked_def timer_cmd_def Let_def)

lemma timers_loop_ok:
  assumes "\<forall>t \<in> set ts. plain_timer (Suc n) t"
  shows "timers_loop files s ts = Some (map (ticked 1) ts, concat (map (\<lambda>t. replicate (firings 1 t) (timer_cmd t)) ts))"
  using assms by (induction ts) (auto simp: process_timer_ok)

lemma count_list_replicate: "count_list (replicate n x) y = (if x = y then n else 0)"
  by (induction n) auto

lemma count_timers:
  "count_list (concat (map (\<lambda>t. replicate (f t) (timer_cmd t)) ts)) cmd = (\<Sum>t \<leftarrow> ts. if timer_cmd t = cmd then f t else 0)"
  by (induction ts) (auto simp: count_list_replicate count_list_append)

lemma ticked_ticked: "ticked n (ticked m t) = ticked (m + n) t"
  by (simp add: ticked_def algebra_simps)

lemma timers_run:
  assumes "\<forall>t \<in> set (fontimers s). plain_timer (length fs) t"
  shows "\<exists>out. run_steps process_timers fs s = Some (s\<lparr>fontimers := map (ticked (length fs)) (fontimers s)\<rparr>, out) \<and>
    (\<forall>cmd. count_list out cmd = (\<Sum>t \<leftarrow> fontimers s. if timer_cmd t = cmd then firings (length fs) t else 0))"
  using assms
proof (induction fs arbitrary: s)
  case Nil
  have "map (ticked 0) (fontimers s) = fontimers s" by (rule map_idI) (simp add: ticked_def)
  then show ?case by (auto simp: firings_def)
next
  case (Cons e fs)
  let ?s = "s\<lparr>fontimers := map (ticked 1) (fontimers s)\<rparr>"
  define now where "now = concat (map (\<lambda>t. replicate (firings 1 t) (timer_cmd t)) (fontimers s))"
  have p: "\<forall>t \<in> set (fontimers s). plain_timer (Suc (length fs)) t" using Cons.prems by simp
  have 1: "process_timers e s = Some (?s, now)"
    using timers_loop_ok[OF p] by (simp add: process_timers_def now_def)
  have "\<forall>t \<in> set (fontimers ?s). plain_timer (length fs) t" using p process_timer_ok(2) by auto
  from Cons.IH[OF this] obtain out where out:
    "run_steps process_timers fs ?s = Some (?s\<lparr>fontimers := map (ticked (length fs)) (fontimers ?s)\<rparr>, out)"
    "\<forall>cmd. count_list out cmd = (\<Sum>t \<leftarrow> fontimers ?s. if timer_cmd t = cmd then firings (length fs) t else 0)" by blast
  have t: "map (ticked (length fs) \<circ> ticked 1) (fontimers s) = map (ticked (length (e # fs))) (fontimers s)"
    by (simp add: ticked_ticked comp_def)
  have "count_list (now @ out) cmd = (\<Sum>t \<leftarrow> fontimers s. if timer_cmd t = cmd then firings (length (e # fs)) t else 0)" for cmd
  proof -
    have "count_list (now @ out) cmd = (\<Sum>t \<leftarrow> fontimers s. (if timer_cmd t = cmd then firings 1 t else 0)) +
        (\<Sum>t \<leftarrow> fontimers s. if timer_cmd (ticked 1 t) = cmd then firings (length fs) (ticked 1 t) else 0)"
      by (simp add: count_list_append out(2) now_def count_timers comp_def del: One_nat_def)
    also have "\<dots> = (\<Sum>t \<leftarrow> fontimers s. (if timer_cmd t = cmd then firings 1 t else 0) +
        (if timer_cmd (ticked 1 t) = cmd then firings (length fs) (ticked 1 t) else 0))"
      by (simp add: sum_list_addf)
    also have "\<dots> = (\<Sum>t \<leftarrow> fontimers s. if timer_cmd t = cmd then firings (length (e # fs)) t else 0)"
    proof (rule arg_cong[where f = sum_list], rule map_cong[OF refl])
      fix t assume "t \<in> set (fontimers s)"
      then have "firings (length (e # fs)) t = firings 1 t + firings (length fs) (ticked 1 t)"
        using firings_Suc[of t "length fs"] p by (simp add: plain_timer_def)
      then show "(if timer_cmd t = cmd then firings 1 t else 0) +
          (if timer_cmd (ticked 1 t) = cmd then firings (length fs) (ticked 1 t) else 0) =
          (if timer_cmd t = cmd then firings (length (e # fs)) t else 0)" by (simp add: timer_cmd_def ticked_def)
    qed
    finally show ?thesis .
  qed
  then show ?case using 1 out(1) t by simp
qed

subsection \<open>The daemon as a transition system\<close>

text \<open>
  A turn of the main loop or the alarm that pings. (The alarm is a signal; here it comes between two turns.)
\<close>

inductive fon_step :: "'c fonstate \<Rightarrow> 'c act list \<Rightarrow> 'c fonstate \<Rightarrow> bool" where
  Turn: "main_turn e s = Some (s', out) \<Longrightarrow> length (heap_garbage e) = 128 \<Longrightarrow> fon_step s out s'"
| Alarm: "state_ping procs dog s = Some (s', out) \<Longrightarrow> fon_step s out s'"

inductive_cases fon_stepE: "fon_step s out s'"

inductive fon_reachable :: "uci \<Rightarrow> 'c fonstate \<Rightarrow> bool" for conf :: uci where
  Start: "main_start conf opens garbage starts = Some (s, out) \<Longrightarrow> set starts \<subseteq> {usb_status_start, watchdog_start} \<Longrightarrow>
    length garbage = 128 \<Longrightarrow> fon_reachable conf s"
| Step: "fon_reachable conf s \<Longrightarrow> fon_step s out s' \<Longrightarrow> fon_reachable conf s'"

text \<open>Every array holds what its type has room for, with a terminator where it is a string.\<close>

definition event_typed :: "'c fonevent \<Rightarrow> bool" where
  "event_typed e \<longleftrightarrow> length (event e) < 64 \<and> length (event_action e) < 64"

definition timer_typed :: "'c fontimer \<Rightarrow> bool" where
  "timer_typed t \<longleftrightarrow> length (action t) < 64 \<and> length (pidfile t) < 64 \<and> period t \<noteq> 0 \<and> \<bar>period t\<bar> \<le> int_max + 1 \<and>
     0 \<le> count t \<and> count t \<le> int_max"

definition job_typed :: "'c fonevent list \<Rightarrow> 'c fonqueue \<Rightarrow> bool" where
  "job_typed evs q \<longleftrightarrow> length (cmdline q) = 128 \<and> (\<forall>e. queued q = Some e \<longrightarrow> e \<in> set evs \<and> fast e = 0)"

definition table_typed :: "(int \<times> string) list \<Rightarrow> bool" where
  "table_typed t \<longleftrightarrow> length t \<le> 128 \<and> (\<forall>(pid, name) \<in> set t. \<bar>pid\<bar> \<le> int_max + 1 \<and> length name < 64)"

definition state_typed :: "'c fonstate \<Rightarrow> bool" where
  "state_typed s \<longleftrightarrow> (\<forall>e \<in> set (fonevents s). event_typed e) \<and> (\<forall>t \<in> set (fontimers s). timer_typed t) \<and>
     (\<forall>q \<in> set (fonqueue s). job_typed (fonevents s) q) \<and> table_typed (pstable s) \<and>
     0 \<le> dog_counter s \<and> dog_counter s \<le> int_max"

lemma for_each_preserves:
  assumes "for_each xs f s = Some s'" and "P s" and "\<And>x s s'. x \<in> set xs \<Longrightarrow> f x s = Some s' \<Longrightarrow> P s \<Longrightarrow> P s'"
  shows "P s'"
  using assms
proof (induction xs arbitrary: s)
  case (Cons x xs)
  then obtain s1 where "f x s = Some s1" "for_each xs f s1 = Some s'" by (auto split: bind_splits)
  with Cons show ?case by (metis list.set_intros)
qed simp

lemma find_event_set: "find_event q evs = Some e \<Longrightarrow> e \<in> set evs"
  by (induction evs) (auto split: if_splits)

lemma enqueue_typed:
  assumes "enqueue_job opens garbage q s = Some (s', out)" and "state_typed s" and "length garbage = 128"
  shows "state_typed s'"
  using assms find_event_set[of q "fonevents s"]
  by (auto simp: enqueue_job_def state_typed_def job_typed_def Let_def split: option.splits bind_splits if_splits)

lemma socket_typed:
  "fon_socket_handle opens garbage ds s = Some (s', out) \<Longrightarrow> state_typed s \<Longrightarrow> length garbage = 128 \<Longrightarrow> state_typed s'"
proof (induction ds arbitrary: s s' out)
  case (Cons d ds)
  show ?case
  proof (cases "take 1024 d = []")
    case False
    then obtain s1 out1 out2 where s1: "enqueue_job opens garbage (takeWhile (\<lambda>c. c \<noteq> NUL) (take 1024 d)) s = Some (s1, out1)"
      "fon_socket_handle opens garbage ds s1 = Some (s', out2)"
      using Cons.prems(1) by (auto simp: Let_def split: bind_splits if_splits)
    then show ?thesis using Cons.IH[OF s1(2)] enqueue_typed[OF s1(1)] Cons.prems(2,3) by blast
  qed (use Cons.prems in \<open>auto simp: Let_def\<close>)
qed simp

lemma process_queue_typed:
  assumes "process_queue opens s = Some (s', out)"
  shows "s' = s\<lparr>fonqueue := []\<rparr>"
proof (cases "\<forall>q \<in> set (fonqueue s). job_ready q")
  case True
  then show ?thesis using process_queue_ok[OF True, of opens] assms by simp
next
  case False
  then show ?thesis using process_queue_stuck[of _ s opens] assms by auto
qed

lemma timers_loop_typed:
  "timers_loop files s ts = Some (ts', out) \<Longrightarrow> \<forall>t \<in> set ts. timer_typed t \<Longrightarrow> \<forall>t \<in> set ts'. timer_typed t"
proof (induction ts arbitrary: ts' out)
  case (Cons t ts)
  then obtain t1 out1 ts1 out2 where t1: "process_timer files s t = Some (t1, out1)" "ts' = t1 # ts1"
    "timers_loop files s ts = Some (ts1, out2)" by (auto split: bind_splits)
  have "timer_typed t1" using t1(1) Cons.prems(2)
    by (auto simp: process_timer_def timer_typed_def checked_def int_max_def Let_def split: bind_splits if_splits)
  then show ?case using Cons.IH[OF t1(3)] Cons.prems(2) t1(2) by simp
qed simp

lemma main_turn_typed:
  assumes "main_turn e s = Some (s', out)" and "state_typed s" and "length (heap_garbage e) = 128"
  shows "state_typed s' \<and> fonqueue s' = []"
proof -
  obtain s1 out1 s2 out2 out3 where 1: "fon_socket_handle (dump_opens e) (heap_garbage e) (datagrams e) s = Some (s1, out1)"
    "process_queue (dump_opens e) s1 = Some (s2, out2)" "process_timers (pid_files e) s2 = Some (s', out3)"
    using assms(1) by (auto simp: main_turn_def split: bind_splits)
  have s1: "state_typed s1" by (rule socket_typed[OF 1(1) assms(2,3)])
  have s2: "s2 = s1\<lparr>fonqueue := []\<rparr>" by (rule process_queue_typed[OF 1(2)])
  obtain ts where ts: "timers_loop (pid_files e) s2 (fontimers s2) = Some (ts, out3)" "s' = s2\<lparr>fontimers := ts\<rparr>"
    using 1(3) by (auto simp: process_timers_def split: bind_splits)
  with timers_loop_typed[OF ts(1)] s1 s2 show ?thesis by (simp add: state_typed_def)
qed

lemma atoi_range: "atoi s = Some i \<Longrightarrow> \<bar>i\<bar> \<le> int_max + 1"
  by (auto simp: atoi_def checked_def int_max_def Let_def split: if_splits prod.splits)

lemma add_proc_typed:
  "add_proc d t = Some t' \<Longrightarrow> table_typed t \<Longrightarrow> table_typed t'"
  using atoi_range[of "d_name d"]
  by (auto simp: add_proc_def table_typed_def strcpy_array_def split: if_splits option.splits bind_splits)

lemma ps_typed:
  assumes "ps procs s = Some s'" and "state_typed s"
  shows "state_typed s'"
proof -
  obtain t where t: "for_each (rev procs) add_proc [] = Some t" "s' = s\<lparr>pstable := t\<rparr>"
    using assms(1) by (auto simp: ps_def split: bind_splits)
  have "table_typed t" by (rule for_each_preserves[OF t(1)]) (auto simp: table_typed_def[of "[]"] intro: add_proc_typed)
  with t(2) assms(2) show ?thesis by (simp add: state_typed_def)
qed

lemma kick_typed: "kick_the_dog dog s = Some (s', out) \<Longrightarrow> state_typed s \<Longrightarrow> state_typed s'"
  by (auto simp: kick_the_dog_def state_typed_def checked_def int_max_def Let_def split: if_splits bind_splits)

lemma state_ping_typed:
  assumes "state_ping procs dog s = Some (s', out)" and "state_typed s"
  shows "state_typed s'"
proof -
  have "(\<lambda>(s, out). state_typed s) (s', out)"
    by (rule for_each_preserves[OF assms(1)[unfolded state_ping_def]])
      (auto simp: assms(2) ping_one_def split: ping.splits bind_splits dest: ps_typed kick_typed)
  then show ?thesis by simp
qed

lemma add_timer_typed:
  assumes "add_timer a f p cb s = Some s'" and "p \<noteq> 0" and "state_typed s"
  shows "state_typed s' \<and> fonqueue s' = fonqueue s"
proof -
  obtain act pid per where t: "s' = s\<lparr>fontimers := fontimers s @ [\<lparr>action = act, pidfile = pid, period = per, count = 0, timercb = cb\<rparr>]\<rparr>"
    "length act < 64" "length pid < 64" "checked (p * 5) = Some per"
    using assms(1) by (auto simp: add_timer_def strcpy_array_def split: bind_splits option.splits if_splits)
  have "per \<noteq> 0 \<and> \<bar>per\<bar> \<le> int_max + 1" using t(4) assms(2) by (auto simp: checked_def int_max_def split: if_splits)
  with t assms(3) show ?thesis by (simp add: state_typed_def timer_typed_def int_max_def)
qed

lemma load_timers_typed:
  assumes "load_timers sec s = Some s'" and "state_typed s" and "fonqueue s = []"
  shows "state_typed s' \<and> fonqueue s' = []"
  using assms add_timer_typed by (fastforce simp: load_timers_def Let_def split: if_splits bind_splits)

lemma load_events_typed:
  assumes "load_events sec s = Some s'" and "state_typed s" and "fonqueue s = []"
  shows "state_typed s' \<and> fonqueue s' = []"
proof (cases "s' = s")
  case False
  then obtain ev act f where "s' = s\<lparr>fonevents := fonevents s @ [\<lparr>event = ev, event_action = act, fast = f, eventcb = None\<rparr>]\<rparr>"
    "length ev < 64" "length act < 64"
    using assms(1) by (auto simp: load_events_def add_event_def strcpy_array_def Let_def split: if_splits bind_splits option.splits)
  then show ?thesis using assms(2,3) by (simp add: state_typed_def event_typed_def)
qed (use assms in simp)

lemma pings_typed: "state_typed s \<Longrightarrow> state_typed (add_ping p s)"
  by (simp add: add_ping_def state_typed_def)

lemma starts_typed:
  "state_typed s \<Longrightarrow> set starts \<subseteq> {usb_status_start, watchdog_start} \<Longrightarrow> state_typed (fold (\<lambda>f. f) starts s)"
proof (induction starts arbitrary: s)
  case (Cons f fs)
  then have "state_typed (f s)" by (auto simp: usb_status_start_def watchdog_start_def intro: pings_typed)
  with Cons show ?case by simp
qed simp

lemma load_typed:
  assumes "main_start conf opens garbage starts = Some (s :: 'c fonstate, out)"
    and "set starts \<subseteq> {usb_status_start, watchdog_start}" and "length garbage = 128"
  shows "state_typed s"
proof -
  let ?P = "\<lambda>s :: 'c fonstate. state_typed s \<and> fonqueue s = []"
  have n: "(no_state :: 'c fonstate)\<lparr>fontimers := [], fonqueue := [], fonevents := [], fonpings := []\<rparr> = no_state"
    by (simp add: no_state_def)
  obtain s1 s2 where 1: "for_each_section_type conf ''fontimer'' load_timers (no_state :: 'c fonstate) = Some s1"
    "for_each_section_type conf ''fonevent'' load_events s1 = Some s2"
    "enqueue_boot_jobs opens garbage conf (ps_init (fold (\<lambda>f. f) starts s2)) = Some (s, out)"
    using assms(1) by (auto simp: main_start_def load_uci_def n Let_def split: bind_splits)
  have "?P no_state" by (simp add: no_state_def state_typed_def table_typed_def int_max_def)
  then have "?P s1"
    by (rule for_each_preserves[OF 1(1)[unfolded for_each_section_type_def]])
      (auto split: if_splits dest: load_timers_typed)
  then have "?P s2"
    by (rule for_each_preserves[OF 1(2)[unfolded for_each_section_type_def]])
      (auto split: if_splits dest: load_events_typed)
  then have "state_typed (fold (\<lambda>f. f) starts s2)"
    using starts_typed assms(2) by blast
  then have p: "state_typed (ps_init (fold (\<lambda>f. f) starts s2))" by (simp add: ps_init_def pings_typed)
  have "state_typed (fst (s, out))"
    by (rule for_each_preserves[OF 1(3)[unfolded enqueue_boot_jobs_def for_each_section_type_def], where P = "\<lambda>p. state_typed (fst p)"])
      (auto simp: p load_boot_def split: if_splits option.splits bind_splits intro: enqueue_typed[OF _ _ assms(3)])
  then show ?thesis by simp
qed

lemma step_typed: "fon_step s out s' \<Longrightarrow> state_typed s \<Longrightarrow> state_typed s'"
  by (erule fon_stepE) (auto dest: main_turn_typed state_ping_typed)

subsection \<open>What the configuration describes\<close>

definition pidfile_of :: "(string \<rightharpoonup> string) \<Rightarrow> string" where
  "pidfile_of sec = (case sec ''pidfile'' of Some f \<Rightarrow> f | None \<Rightarrow> '''')"

definition timer_of :: "string \<times> (string \<rightharpoonup> string) \<Rightarrow> 'c fontimer list" where
  "timer_of section = (case section of (type, sec) \<Rightarrow>
     case (sec ''action'', get_option_int sec ''period'' 0) of
       (Some a, Some p) \<Rightarrow>
         if type = ''fontimer'' \<and> p \<noteq> 0
         then [\<lparr>action = a, pidfile = pidfile_of sec, period = p * 5, count = 0, timercb = None\<rparr>]
         else []
     | _ \<Rightarrow> [])"

definition event_of :: "string \<times> (string \<rightharpoonup> string) \<Rightarrow> 'c fonevent list" where
  "event_of section = (case section of (type, sec) \<Rightarrow>
     case (sec ''event'', sec ''action'', get_option_int sec ''fast'' 0) of
       (Some e, Some a, Some f) \<Rightarrow> if type = ''fonevent'' then [\<lparr>event = e, event_action = a, fast = f, eventcb = None\<rparr>] else []
     | _ \<Rightarrow> [])"

text \<open>A section fits when its numbers are in range and the strings that are copied have fewer than 64 characters.\<close>

definition timer_fits :: "(string \<rightharpoonup> string) \<Rightarrow> bool" where
  "timer_fits sec \<longleftrightarrow> (case get_option_int sec ''period'' 0 of None \<Rightarrow> False
     | Some p \<Rightarrow> p = 0 \<or> (case sec ''action'' of None \<Rightarrow> True
         | Some a \<Rightarrow> length a < 64 \<and> length (pidfile_of sec) < 64 \<and> - int_max - 1 \<le> p * 5 \<and> p * 5 \<le> int_max))"

definition event_fits :: "(string \<rightharpoonup> string) \<Rightarrow> bool" where
  "event_fits sec \<longleftrightarrow> get_option_int sec ''fast'' 0 \<noteq> None \<and>
     (case (sec ''event'', sec ''action'') of (Some e, Some a) \<Rightarrow> length e < 64 \<and> length a < 64 | _ \<Rightarrow> True)"

definition section_fits :: "string \<times> (string \<rightharpoonup> string) \<Rightarrow> bool" where
  "section_fits section \<longleftrightarrow> (fst section = ''fontimer'' \<longrightarrow> timer_fits (snd section)) \<and>
     (fst section = ''fonevent'' \<longrightarrow> event_fits (snd section))"

lemma load_timers_result:
  "load_timers sec s = (if timer_fits sec then Some (s\<lparr>fontimers := fontimers s @ timer_of (''fontimer'', sec)\<rparr>) else None)"
  by (auto simp: load_timers_def timer_fits_def timer_of_def add_timer_def strcpy_array_def checked_def pidfile_of_def Let_def
    split: option.splits)

lemma load_events_result:
  "load_events sec s = (if event_fits sec then Some (s\<lparr>fonevents := fonevents s @ event_of (''fonevent'', sec)\<rparr>) else None)"
  by (auto simp: load_events_def event_fits_def event_of_def add_event_def strcpy_array_def Let_def split: option.splits)

lemma timers_result:
  "for_each_section_type conf ''fontimer'' load_timers s =
    (if \<forall>x \<in> set conf. fst x = ''fontimer'' \<longrightarrow> timer_fits (snd x)
     then Some (s\<lparr>fontimers := fontimers s @ concat (map timer_of conf)\<rparr>) else None)"
proof (induction conf arbitrary: s)
  case (Cons x conf)
  obtain type sec where x: "x = (type, sec)" by (cases x)
  show ?case
  proof (cases "type = ''fontimer''")
    case True
    then show ?thesis using Cons.IH by (simp add: for_each_section_type_def load_timers_result strcmp_eq_0 x)
  next
    case False
    then have "timer_of x = ([] :: 'a fontimer list)" by (auto simp: timer_of_def x split: option.splits)
    then show ?thesis using False Cons.IH by (simp add: for_each_section_type_def strcmp_eq_0 x eq_commute[of "''fontimer''"])
  qed
qed (simp add: for_each_section_type_def)

lemma events_result:
  "for_each_section_type conf ''fonevent'' load_events s =
    (if \<forall>x \<in> set conf. fst x = ''fonevent'' \<longrightarrow> event_fits (snd x)
     then Some (s\<lparr>fonevents := fonevents s @ concat (map event_of conf)\<rparr>) else None)"
proof (induction conf arbitrary: s)
  case (Cons x conf)
  obtain type sec where x: "x = (type, sec)" by (cases x)
  show ?case
  proof (cases "type = ''fonevent''")
    case True
    then show ?thesis using Cons.IH by (simp add: for_each_section_type_def load_events_result strcmp_eq_0 x)
  next
    case False
    then have "event_of x = ([] :: 'a fonevent list)" by (auto simp: event_of_def x split: option.splits)
    then show ?thesis using False Cons.IH by (simp add: for_each_section_type_def strcmp_eq_0 x eq_commute[of "''fonevent''"])
  qed
qed (simp add: for_each_section_type_def)

lemma load_uci_result:
  "load_uci conf no_state = (if \<forall>x \<in> set conf. section_fits x
     then Some (no_state\<lparr>fontimers := concat (map timer_of conf), fonevents := concat (map event_of conf)\<rparr>) else None)"
  unfolding load_uci_def Let_def timers_result events_result section_fits_def
  by (cases "\<forall>x \<in> set conf. fst x = ''fontimer'' \<longrightarrow> timer_fits (snd x)") (auto simp: no_state_def)

text \<open>What a state has of the configuration: its events, and its timers but for their counters.\<close>

definition has_config :: "uci \<Rightarrow> 'c fonstate \<Rightarrow> bool" where
  "has_config conf s \<longleftrightarrow> map (\<lambda>t. t\<lparr>count := 0\<rparr>) (fontimers s) = concat (map timer_of conf) \<and>
     fonevents s = concat (map event_of conf)"

lemma enqueue_config: "enqueue_job opens garbage q s = Some (s', out) \<Longrightarrow> has_config conf s \<Longrightarrow> has_config conf s'"
  by (auto simp: enqueue_job_def has_config_def Let_def split: option.splits bind_splits if_splits)

lemma timers_loop_config:
  "timers_loop files s ts = Some (ts', out) \<Longrightarrow> map (\<lambda>t. t\<lparr>count := 0\<rparr>) ts' = map (\<lambda>t. t\<lparr>count := 0\<rparr>) ts"
proof (induction ts arbitrary: ts' out)
  case (Cons t ts)
  then obtain t1 out1 ts1 out2 where "process_timer files s t = Some (t1, out1)" "ts' = t1 # ts1"
    "timers_loop files s ts = Some (ts1, out2)" by (auto split: bind_splits)
  moreover have "t1\<lparr>count := 0\<rparr> = t\<lparr>count := 0\<rparr>" if "process_timer files s t = Some (t1, out1)" for out1
    using that by (auto simp: process_timer_def Let_def split: bind_splits if_splits)
  ultimately show ?case using Cons.IH by simp
qed simp

lemma main_turn_config:
  assumes "main_turn e s = Some (s', out)" and "has_config conf s"
  shows "has_config conf s'"
proof -
  obtain s1 out1 s2 out2 out3 where 1: "fon_socket_handle (dump_opens e) (heap_garbage e) (datagrams e) s = Some (s1, out1)"
    "process_queue (dump_opens e) s1 = Some (s2, out2)" "process_timers (pid_files e) s2 = Some (s', out3)"
    using assms(1) by (auto simp: main_turn_def split: bind_splits)
  obtain js where "s1 = s\<lparr>fonqueue := js\<rparr>" using socket_only_queue[OF 1(1)] by blast
  moreover have "s2 = s1\<lparr>fonqueue := []\<rparr>" by (rule process_queue_typed[OF 1(2)])
  moreover obtain ts where ts: "timers_loop (pid_files e) s2 (fontimers s2) = Some (ts, out3)" "s' = s2\<lparr>fontimers := ts\<rparr>"
    using 1(3) by (auto simp: process_timers_def split: bind_splits)
  moreover have "map (\<lambda>t. t\<lparr>count := 0\<rparr>) ts = map (\<lambda>t. t\<lparr>count := 0\<rparr>) (fontimers s2)" by (rule timers_loop_config[OF ts(1)])
  ultimately show ?thesis using assms(2) by (simp add: has_config_def)
qed

lemma state_ping_config:
  assumes "state_ping procs dog s = Some (s', out)" and "has_config conf s"
  shows "has_config conf s'"
proof -
  have "(\<lambda>(s, out). has_config conf s) (s', out)"
    by (rule for_each_preserves[OF assms(1)[unfolded state_ping_def]])
      (use assms(2) in \<open>auto simp: ping_one_def ps_def kick_the_dog_def has_config_def Let_def split: ping.splits bind_splits if_splits\<close>)
  then show ?thesis by simp
qed

lemma starts_config:
  "has_config conf s \<Longrightarrow> set starts \<subseteq> {usb_status_start, watchdog_start} \<Longrightarrow> has_config conf (fold (\<lambda>f. f) starts s)"
proof (induction starts arbitrary: s)
  case (Cons f fs)
  then have "has_config conf (f s)" by (auto simp: usb_status_start_def watchdog_start_def add_ping_def has_config_def)
  with Cons show ?case by simp
qed simp

lemma start_config:
  assumes "main_start conf opens garbage starts = Some (s :: 'c fonstate, out)"
    and "set starts \<subseteq> {usb_status_start, watchdog_start}"
  shows "(\<forall>x \<in> set conf. section_fits x) \<and> has_config conf s"
proof -
  obtain s1 :: "'c fonstate" where 1: "load_uci conf no_state = Some s1"
    "enqueue_boot_jobs opens garbage conf (ps_init (fold (\<lambda>f. f) starts s1)) = Some (s, out)"
    using assms(1) by (auto simp: main_start_def Let_def split: bind_splits)
  have f: "\<forall>x \<in> set conf. section_fits x"
    and s1: "s1 = no_state\<lparr>fontimers := concat (map timer_of conf), fonevents := concat (map event_of conf)\<rparr>"
    using 1(1) by (auto simp: load_uci_result split: if_splits)
  have "map (\<lambda>t. t\<lparr>count := 0\<rparr>) (concat (map timer_of conf)) = (concat (map timer_of conf) :: 'c fontimer list)"
    by (rule map_idI) (auto simp: timer_of_def split: option.splits if_splits)
  then have "has_config conf s1" by (simp add: s1 has_config_def)
  then have p: "has_config conf (ps_init (fold (\<lambda>f. f) starts s1))"
    using starts_config assms(2) by (fastforce simp: ps_init_def add_ping_def has_config_def)
  have "has_config conf (fst (s, out))"
    by (rule for_each_preserves[OF 1(2)[unfolded enqueue_boot_jobs_def for_each_section_type_def], where P = "\<lambda>p. has_config conf (fst p)"])
      (auto simp: p load_boot_def split: if_splits option.splits bind_splits intro: enqueue_config)
  with f show ?thesis by simp
qed

lemma reachable_typed:
  assumes "fon_reachable conf s"
  shows "(\<forall>x \<in> set conf. section_fits x) \<and> state_typed s \<and> has_config conf s"
  using assms
proof (induction rule: fon_reachable.induct)
  case (Start opens garbage starts s out)
  then show ?case using load_typed start_config by blast
next
  case (Step s out s')
  then have "state_typed s'" using step_typed by blast
  moreover have "has_config conf s'" using Step(2,3) by (auto elim!: fon_stepE dest: main_turn_config state_ping_config)
  ultimately show ?case using Step(3) by blast
qed

subsection \<open>Claims\<close>

text \<open>C5: A turn of the main loop runs every job exactly once and in order. The commands that arrive are the names of
events or scripts that fit the buffers; fast events run as they arrive, then the queue runs, the jobs that
waited first, then the timers. The queue is empty afterwards and events, pings and the process table are as
before. A job for an event runs, besides the event's action, the script named by whatever its memory held.\<close>

theorem main_turn_runs_all_jobs:
  assumes garbage: "NUL \<in> set (heap_garbage e)" and cmds: "\<forall>d \<in> set (datagrams e). command (fonevents s) d"
    and queue: "\<forall>j \<in> set (fonqueue s). job_ready j" and timers: "process_timers (pid_files e) s = Some (st, timer_out)"
  shows "main_turn e s = Some (s\<lparr>fonqueue := [], fontimers := fontimers st\<rparr>,
    concat (map (fast_acts (fonevents s)) (datagrams e)) @
    concat (map job_acts (fonqueue s @ concat (map (new_jobs (fonevents s) (heap_garbage e)) (datagrams e)))) @ timer_out)"
  by (rule main_turn_ok) (rule assms)+

definition example_turn :: turn where
  "example_turn = \<lparr>dump_opens = True, heap_garbage = ''x'' @ replicate 127 NUL, datagrams = [''Online'', ''button'', ''reset''],
     pid_files = Map.empty\<rparr>"

definition example_state :: "unit fonstate" where
  "example_state = no_state\<lparr>fonevents :=
     [\<lparr>event = ''button'', event_action = ''reboot'', fast = 1, eventcb = None\<rparr>,
      \<lparr>event = ''reset'', event_action = ''firstboot'', fast = 0, eventcb = None\<rparr>]\<rparr>"

theorem main_turn_runs_all_jobs_witness:
  "main_turn example_turn example_state = Some (example_state,
    [System ''reboot 2> /dev/null'', System ''/etc/fonstated/Online > /dev/null <&1 2>&1'',
     System ''firstboot > /dev/null <&1 2>&1'', System ''/etc/fonstated/x > /dev/null <&1 2>&1''])"
proof -
  have f: "find_event ''Online'' (fonevents example_state) = None"
    "find_event ''button'' (fonevents example_state) = Some \<lparr>event = ''button'', event_action = ''reboot'', fast = 1, eventcb = None\<rparr>"
    "find_event ''reset'' (fonevents example_state) = Some \<lparr>event = ''reset'', event_action = ''firstboot'', fast = 0, eventcb = None\<rparr>"
    by (simp_all add: example_state_def strcmp_eq_0)
  have c: "NUL \<in> set (heap_garbage example_turn)" "\<forall>d \<in> set (datagrams example_turn). command (fonevents example_state) d"
    by (simp_all add: example_turn_def command_def f NUL_def)
  have q: "\<forall>j \<in> set (fonqueue example_state). job_ready j" "process_timers (pid_files example_turn) example_state = Some (example_state, [])"
    by (simp_all add: example_state_def no_state_def process_timers_def)
  show ?thesis
    using main_turn_runs_all_jobs[OF c q]
    by (simp add: example_turn_def fast_acts_def new_jobs_def f run_event_def job_acts_def system_printf_def strncpy_array_def)
      (simp add: example_state_def no_state_def NUL_def)
qed

text \<open>C31: A command the buffers have no room for ruins the daemon, whatever its state: a datagram that fills the receive
buffer is terminated outside of it, and an unknown name of 128 characters or more is copied without terminator
and read past its array when the queue is dumped or run.\<close>

theorem long_command_overruns:
  assumes "1024 \<le> length d \<or> NUL \<notin> set d \<and> 128 \<le> length d \<and> find_event (take 1024 d) (fonevents s) = None"
    and "datagrams e = d # ds"
  shows "main_turn e s = None"
proof (cases "1024 \<le> length d")
  case True
  then have "d \<noteq> []" by auto
  with True show ?thesis using assms(2) by (simp add: main_turn_def Let_def)
next
  case False
  then have d: "NUL \<notin> set d" "128 \<le> length d" "find_event d (fonevents s) = None" "take 1024 d = d"
    "takeWhile (\<lambda>c. c \<noteq> NUL) d = d" "d \<noteq> []" using assms(1) by (auto simp: takeWhile_eq_all_conv)
  define j :: "'a fonqueue" where "j = \<lparr>queued = None, cmdline = strncpy_array 128 d\<rparr>"
  have j: "\<not> job_ready j" using d(1,2) in_set_takeD[of NUL 128 d] by (auto simp: j_def job_ready_def strncpy_array_def)
  have "process_queue (dump_opens e) s' = None" if socket: "fon_socket_handle (dump_opens e) (heap_garbage e) (datagrams e) s = Some (s', out)"
    for s' out
  proof -
    have "j \<in> set (fonqueue s')"
      using socket d(3,6) False socket_only_queue[of _ _ ds]
      by (auto simp: assms(2) Let_def d(4,5) enqueue_job_def j_def split: bind_splits if_splits) fastforce
    then show ?thesis using process_queue_stuck j by blast
  qed
  then show ?thesis by (auto simp: main_turn_def split: bind_splits)
qed

theorem long_command_overruns_witness:
  "main_turn (example_turn\<lparr>datagrams := [replicate 128 (CHR ''a'')]\<rparr>) example_state = None"
proof -
  have "NUL \<notin> set (replicate 128 (CHR ''a''))" by (simp add: NUL_def)
  moreover have "find_event (take 1024 (replicate 128 (CHR ''a''))) (fonevents example_state) = None"
    by (simp add: example_state_def strcmp_eq_0 numeral_eq_Suc)
  ultimately show ?thesis by (intro long_command_overruns[of "replicate 128 (CHR ''a'')" _ _ "[]"]) simp_all
qed

text \<open>C32: Timers fire in time: in any number of turns (as long as its counter has room) the command of a timer runs as
often as multiples of its period, five times the configured one, lie in the interval its counter passes.\<close>

theorem timers_fire_in_time:
  assumes "\<forall>t \<in> set (fontimers s). plain_timer (length fs) t"
  shows "\<exists>out. run_steps process_timers fs s = Some (s\<lparr>fontimers := map (ticked (length fs)) (fontimers s)\<rparr>, out) \<and>
    (\<forall>cmd. count_list out cmd = (\<Sum>t \<leftarrow> fontimers s. if timer_cmd t = cmd then firings (length fs) t else 0))"
  by (rule timers_run) (rule assms)

theorem timers_fire_in_time_witness:
  "\<exists>s out. add_timer (Some ''ntp'') None 2 None (no_state :: unit fonstate) = Some s \<and>
    run_steps process_timers (replicate 35 Map.empty) s = Some (s\<lparr>fontimers := map (ticked 35) (fontimers s)\<rparr>, out) \<and>
    count_list out (System ''ntp 2> /dev/null'') = 3"
proof -
  let ?t = "\<lparr>action = ''ntp'', pidfile = [], period = 10, count = 0, timercb = None\<rparr> :: unit fontimer"
  let ?s = "no_state\<lparr>fontimers := [?t]\<rparr>"
  have a: "add_timer (Some ''ntp'') None 2 None no_state = Some ?s"
    by (simp add: add_timer_def strcpy_array_def checked_def int_max_def no_state_def)
  have "\<forall>t \<in> set (fontimers ?s). plain_timer (length (replicate 35 Map.empty)) t"
    by (simp add: plain_timer_def int_max_def)
  from timers_fire_in_time[OF this] obtain out where o:
    "run_steps process_timers (replicate 35 Map.empty) ?s = Some (?s\<lparr>fontimers := map (ticked 35) (fontimers ?s)\<rparr>, out)"
    "\<forall>cmd. count_list out cmd = (\<Sum>t \<leftarrow> fontimers ?s. if timer_cmd t = cmd then firings 35 t else 0)" by auto
  have "count_list out (System ''ntp 2> /dev/null'') = 3"
    using o(2)[rule_format, of "System ''ntp 2> /dev/null''"] by (simp add: timer_cmd_def system_printf_def firings_def)
  with a o(1) show ?thesis by blast
qed

text \<open>C15: Type safety of the daemon's state. The configuration is loaded exactly when it fits: its numbers are in range
and every string that is copied has fewer than 64 characters; otherwise a number overflows or the unchecked \<open>strcpy\<close>
writes past its array. When it fits, then after any turns and alarms, whatever the commands, files and processes, the
events and timers are the configured ones, every string fits its array, every queued job has the full array and refers
to a slow event of the list, no timer has period 0, and the process table has at most 128 rows.\<close>

theorem fonstate_typed:
  "if \<forall>x \<in> set conf. section_fits x
   then (\<exists>s :: 'c fonstate. load_uci conf no_state = Some s) \<and>
     (\<forall>s :: 'c fonstate. fon_reachable conf s \<longrightarrow> state_typed s \<and> has_config conf s)
   else load_uci conf (no_state :: 'c fonstate) = None"
  using reachable_typed by (auto simp: load_uci_result)

definition example_config :: uci where
  "example_config =
     [(''fontimer'', [''action'' \<mapsto> ''ntp'', ''period'' \<mapsto> ''2'']),
      (''fonevent'', [''event'' \<mapsto> ''reset'', ''action'' \<mapsto> ''firstboot'']),
      (''fonboot'', [''event'' \<mapsto> ''reset'']), (''fonboot'', [''event'' \<mapsto> ''BootServices''])]"

definition example_reached :: "unit fonstate" where
  "example_reached =
     (let e = \<lparr>event = ''reset'', event_action = ''firstboot'', fast = 0, eventcb = None\<rparr> in
      no_state\<lparr>fontimers := [\<lparr>action = ''ntp'', pidfile = '''', period = 10, count = 0, timercb = None\<rparr>],
        fonevents := [e],
        fonqueue := [\<lparr>queued = Some e, cmdline = replicate 128 NUL\<rparr>,
          \<lparr>queued = None, cmdline = strncpy_array 128 ''BootServices''\<rparr>],
        fonpings := [Ping_dog, Ping_ps], pstable := [(1, ''init'')], dog_counter := 1\<rparr>)"

lemma example_reachable: "fon_reachable example_config example_reached"
proof -
  define s where "s = example_reached\<lparr>pstable := [], dog_counter := 0\<rparr>"
  have n: "atoi ''2'' = Some 2" "atoi ''1'' = Some 1"
    by (simp_all add: atoi_def isspace_def isdigit_def digits_value_def checked_def int_max_def)
  have q: "array_str (strncpy_array 128 ''BootServices'') = Some ''BootServices''" by (simp add: daemon_facts NUL_def)
  have "main_start example_config True (replicate 128 NUL) [watchdog_start] = Some (s, [])"
    unfolding main_start_def load_uci_result
    by (simp add: example_config_def section_fits_def timer_fits_def event_fits_def timer_of_def event_of_def pidfile_of_def
      get_option_int_def n int_max_def watchdog_start_def ps_init_def add_ping_def enqueue_boot_jobs_def for_each_section_type_def
      strcmp_eq_0 load_boot_def enqueue_job_def dump_queue_def q no_state_def s_def example_reached_def Let_def)
  then have 1: "fon_reachable example_config s" by (rule fon_reachable.Start) simp_all
  have "state_ping [\<lparr>d_name = ''1'', is_dir = True, proc_cmdline = Some ''/sbin/init''\<rparr>] 5 s = Some (example_reached, [])"
    by (simp add: state_ping_def s_def example_reached_def no_state_def ping_one_def ps_def kick_the_dog_def checked_def int_max_def Let_def
      add_proc_def isdigit_def strcpy_array_def fgets_first_def NUL_def n basename_def)
  then show ?thesis by (intro fon_reachable.Step[OF 1] fon_step.Alarm)
qed

theorem fonstate_typed_witness:
  "state_typed example_reached \<and> has_config example_config example_reached \<and>
   (\<exists>s :: unit fonstate. load_uci example_config no_state = Some s) \<and>
   load_uci [(''fonevent'', [''event'' \<mapsto> replicate 64 (CHR ''x''), ''action'' \<mapsto> ''a''])] (no_state :: unit fonstate) = None"
proof -
  have f: "\<forall>x \<in> set example_config. section_fits x" using reachable_typed[OF example_reachable] by blast
  have "\<not> section_fits (''fonevent'', [''event'' \<mapsto> replicate 64 (CHR ''x''), ''action'' \<mapsto> ''a''])"
    by (simp add: section_fits_def event_fits_def get_option_int_def)
  then show ?thesis
    using fonstate_typed[of example_config, where ?'c = unit] f example_reachable
      fonstate_typed[of "[(''fonevent'', [''event'' \<mapsto> replicate 64 (CHR ''x''), ''action'' \<mapsto> ''a''])]", where ?'c = unit]
    by simp
qed

end
