(* ===== verification/FonSystem.thy ===== *)
theory FonSystem
  imports Onlined FonState
begin

text \<open>
  onlined and fonstated together: the commands onlined runs become datagrams through the client half of
  fonstated (\<open>main_client\<close> in \<open>package/fonstate/src/main.c\<close>, \<open>issue_command\<close> in \<open>net/socket.c\<close>), the jobs
  fonstated runs call the scripts \<open>Online\<close> and \<open>Offline\<close> of \<open>package/fonstate/files/etc/fonstated\<close>, that is
  \<open>state.setOnline\<close> and \<open>state.setOffline\<close> of \<open>package/fon-luci/luci/libs/fon/luasrc/fon.lua\<close>, these write the
  state file, and onlined reads it. Outside of the program are the shell with \<open>getopt\<close>, which split the
  command line of the client, and the other commands the daemon runs; both are parameters.
\<close>

subsection \<open>The scripts\<close>

text \<open>What the two scripts read and write: the state file and the option \<open>fon.state.online\<close> of the run-time
configuration. (They also start and stop services and set the LEDs.)\<close>

record box =
  run_fonstate :: "char list option"
  online_uci :: "string ptr"

definition state_online :: "box \<Rightarrow> bool" where
  "state_online b \<longleftrightarrow> online_uci b = Some ''1''"

definition setOnline :: "box \<Rightarrow> box" where
  "setOnline b = (if state_online b then b else b\<lparr>run_fonstate := Some ''Online'', online_uci := Some ''1''\<rparr>)"

definition setOffline :: "box \<Rightarrow> box" where
  "setOffline b = (if \<not> state_online b then b else b\<lparr>run_fonstate := Some ''Offline'', online_uci := Some ''0''\<rparr>)"

definition script_job :: "string \<Rightarrow> 'c act" where
  "script_job name = system_printf (''/etc/fonstated/'' @ name @ '' > /dev/null <&1 2>&1'')"

text \<open>The effect of what the daemon runs; \<open>other\<close> is that of all commands but the two.\<close>

definition run_act :: "(string \<Rightarrow> box \<Rightarrow> box) \<Rightarrow> 'c act \<Rightarrow> box \<Rightarrow> box" where
  "run_act other a b =
     (case a of
        System cmd \<Rightarrow>
          if a = script_job ''Online'' then setOnline b
          else if a = script_job ''Offline'' then setOffline b
          else other cmd b
      | _ \<Rightarrow> b)"

subsection \<open>The client and the two daemons\<close>

definition issue_command :: "string \<Rightarrow> char list list" where
  "issue_command str = [str]"

text \<open>The client on the options and arguments that \<open>getopt\<close> finds in the words of the command.\<close>

fun main_client :: "(char \<times> string) list \<Rightarrow> char list list" where
  "main_client [] = []"
| "main_client ((c, optarg) # opts) =
     (if c = CHR ''v'' then main_client opts
      else if c = CHR ''l'' then issue_command optarg @ main_client opts
      else if c = CHR ''s'' then main_client opts
      else [])"

record 'c world =
  watcher :: onlined
  daemon :: "'c fonstate"
  box :: box

text \<open>A second: the answer of the network, what each of the turns the main loop takes in it gets besides the
commands of onlined (it waits 200 ms after each), and the turn at which those arrive.\<close>

record world_second =
  network :: bool
  polls :: "turn list"
  arrival :: nat

definition daemon_turn :: "(string \<Rightarrow> box \<Rightarrow> box) \<Rightarrow> turn \<Rightarrow> 'c fonstate \<times> box \<Rightarrow> (('c fonstate \<times> box) \<times> 'c act list) option" where
  "daemon_turn other t = (\<lambda>(d, b). do { (d, acts) \<leftarrow> main_turn t d; Some ((d, fold (run_act other) acts b), acts) })"

definition deliver :: "nat \<Rightarrow> char list list \<Rightarrow> turn list \<Rightarrow> turn list" where
  "deliver k cmds ts = ts[k := (ts ! k)\<lparr>datagrams := datagrams (ts ! k) @ cmds\<rparr>]"

definition system_second :: "(string \<Rightarrow> (char \<times> string) list) \<Rightarrow> (string \<Rightarrow> box \<Rightarrow> box) \<Rightarrow>
    world_second \<Rightarrow> 'c world \<Rightarrow> ('c world \<times> 'c act list) option" where
  "system_second sh other e w = do {
     (o', cmds) \<leftarrow> online_turn \<lparr>resolves = network e, state_file = run_fonstate (box w)\<rparr> (watcher w);
     ((d, b), acts) \<leftarrow> run_steps (daemon_turn other)
       (deliver (arrival e) (concat (map (main_client \<circ> sh) cmds)) (polls e)) (daemon w, box w);
     Some (\<lparr>watcher = o', daemon = d, box = b\<rparr>, acts) }"

text \<open>What the shell is relied on for.\<close>

definition shell_splits :: "(string \<Rightarrow> (char \<times> string) list) \<Rightarrow> bool" where
  "shell_splits sh \<longleftrightarrow> (\<forall>name \<in> {''Online'', ''Offline''}. sh (''fs -l '' @ name) = [(CHR ''l'', name)])"

subsection \<open>The daemon at rest\<close>

definition harmless :: "(string \<Rightarrow> box \<Rightarrow> box) \<Rightarrow> 'c act \<Rightarrow> bool" where
  "harmless other a \<longleftrightarrow> (\<forall>b. run_act other a b = b)"

text \<open>A timer with room in its counter for \<open>n\<close> turns whose commands leave the box as it is.\<close>

definition timer_at_rest :: "(string \<Rightarrow> box \<Rightarrow> box) \<Rightarrow> nat \<Rightarrow> 'c fontimer \<Rightarrow> bool" where
  "timer_at_rest other n t \<longleftrightarrow> timercb t = None \<and> 0 < period t \<and> 0 \<le> count t \<and> count t + int n \<le> int_max \<and>
     harmless other (timer_cmd t) \<and> harmless other (system_printf (action t @ '' start 2> /dev/null'') :: 'c act)"

definition at_rest :: "(string \<Rightarrow> box \<Rightarrow> box) \<Rightarrow> nat \<Rightarrow> 'c fonstate \<Rightarrow> bool" where
  "at_rest other n d \<longleftrightarrow> fonqueue d = [] \<and> find_event ''Online'' (fonevents d) = None \<and>
     (\<forall>t \<in> set (fontimers d). timer_at_rest other n t)"

text \<open>A turn in which the pid files hold numbers and all commands that arrive leave the box as it is.\<close>

definition pids_readable :: "(string \<rightharpoonup> char list) \<Rightarrow> bool" where
  "pids_readable files \<longleftrightarrow> (\<forall>f c. files f = Some c \<longrightarrow> (\<exists>l pid. fgets_first 256 c = Some l \<and> atoi l = Some pid))"

definition command_acts :: "'c fonevent list \<Rightarrow> char list \<Rightarrow> string \<Rightarrow> 'c act list" where
  "command_acts evs garbage d = fast_acts evs d @ concat (map job_acts (new_jobs evs garbage d))"

definition quiet :: "(string \<Rightarrow> box \<Rightarrow> box) \<Rightarrow> 'c fonevent list \<Rightarrow> turn \<Rightarrow> bool" where
  "quiet other evs t \<longleftrightarrow> NUL \<in> set (heap_garbage t) \<and> pids_readable (pid_files t) \<and>
     (\<forall>d \<in> set (datagrams t). command evs d \<and> (\<forall>a \<in> set (command_acts evs (heap_garbage t) d). harmless other a))"

lemma harmless_fold: "\<forall>a \<in> set acts. harmless other a \<Longrightarrow> fold (run_act other) acts b = b"
  by (induction acts) (simp_all add: harmless_def)

lemma timer_at_rest_mono: "timer_at_rest other n t \<Longrightarrow> m \<le> n \<Longrightarrow> timer_at_rest other m t"
  by (auto simp: timer_at_rest_def)

lemma at_rest_mono: "at_rest other n d \<Longrightarrow> m \<le> n \<Longrightarrow> at_rest other m d"
  by (auto simp: at_rest_def intro: timer_at_rest_mono)

lemma ticked_at_rest: "timer_at_rest other (Suc n) t \<Longrightarrow> timer_at_rest other n (ticked 1 t)"
  by (simp add: timer_at_rest_def ticked_def timer_cmd_def)

lemma process_wdt_rest:
  assumes "harmless other (system_printf (action u @ '' start 2> /dev/null'') :: 'c act)" and "pids_readable files"
  shows "\<exists>out. process_wdt files s u = Some out \<and> (\<forall>a \<in> set out. harmless other (a :: 'c act))"
proof (cases "files (pidfile u)")
  case None
  then show ?thesis using assms(1) by (simp add: process_wdt_def Let_def)
next
  case (Some c)
  then obtain l pid where "fgets_first 256 c = Some l" "atoi l = Some pid" using assms(2) unfolding pids_readable_def by blast
  with Some show ?thesis using assms(1) by (simp add: process_wdt_def Let_def)
qed

lemma process_timer_rest:
  assumes "timer_at_rest other (Suc n) t" and "pids_readable files"
  shows "\<exists>out. process_timer files s t = Some (ticked 1 t, out) \<and> (\<forall>a \<in> set out. harmless other a)"
proof -
  have t: "checked (count t + 1) = Some (count t + 1)" "timercb t = None" "period t \<noteq> 0" "harmless other (timer_cmd t)"
    using assms(1) by (auto simp: checked_def int_max_def timer_at_rest_def)
  let ?t = "t\<lparr>count := count t + 1\<rparr>"
  have "harmless other (system_printf (action ?t @ '' start 2> /dev/null'') :: 'a act)" using assms(1) by (simp add: timer_at_rest_def)
  from process_wdt_rest[OF this assms(2)] obtain out
    where out: "process_wdt files s ?t = Some out" "\<forall>a \<in> set out. harmless other a" by blast
  have c: "timer_cmd t = system_printf (action t @ '' 2> /dev/null'')" by (simp add: timer_cmd_def)
  show ?thesis
    using out(2) t(4) unfolding process_timer_def t(1) c by (simp add: Let_def t(2,3) out(1) ticked_def)
qed

lemma timers_loop_rest:
  assumes "\<forall>t \<in> set ts. timer_at_rest other (Suc n) t" and "pids_readable files"
  shows "\<exists>out. timers_loop files s ts = Some (map (ticked 1) ts, out) \<and> (\<forall>a \<in> set out. harmless other a)"
  using assms(1)
proof (induction ts)
  case (Cons t ts)
  then obtain out where "timers_loop files s ts = Some (map (ticked 1) ts, out)" "\<forall>a \<in> set out. harmless other a" by auto
  moreover obtain out' where "process_timer files s t = Some (ticked 1 t, out')" "\<forall>a \<in> set out'. harmless other a"
    using process_timer_rest[OF _ assms(2)] Cons.prems by (metis list.set_intros(1))
  ultimately show ?case by auto
qed simp

text \<open>A turn in which commands arrive.\<close>

lemma daemon_turn_rest:
  assumes rest: "at_rest other (Suc n) d" and t: "NUL \<in> set (heap_garbage t)" "pids_readable (pid_files t)"
    and cmds: "\<forall>c \<in> set (datagrams t). command (fonevents d) c"
  obtains d' out where "at_rest other n d'" and "fonevents d' = fonevents d" and "\<forall>a \<in> set out. harmless other a"
    and "main_turn t d = Some (d', concat (map (fast_acts (fonevents d)) (datagrams t)) @
      concat (map job_acts (concat (map (new_jobs (fonevents d) (heap_garbage t)) (datagrams t)))) @ out)"
proof -
  obtain out where out: "timers_loop (pid_files t) d (fontimers d) = Some (map (ticked 1) (fontimers d), out)"
    "\<forall>a \<in> set out. harmless other a" using timers_loop_rest[OF _ t(2)] rest by (metis at_rest_def)
  let ?d = "d\<lparr>fontimers := map (ticked 1) (fontimers d)\<rparr>"
  have p: "process_timers (pid_files t) d = Some (?d, out)" using out(1) by (simp add: process_timers_def)
  have q: "\<forall>j \<in> set (fonqueue d). job_ready j" "fonqueue d = []" using rest by (simp_all add: at_rest_def)
  show thesis
  proof (rule that[OF _ _ out(2)])
    show "at_rest other n (d\<lparr>fonqueue := [], fontimers := fontimers ?d\<rparr>)"
      using rest ticked_at_rest by (auto simp: at_rest_def)
    show "main_turn t d = Some (d\<lparr>fonqueue := [], fontimers := fontimers ?d\<rparr>, concat (map (fast_acts (fonevents d)) (datagrams t)) @
      concat (map job_acts (concat (map (new_jobs (fonevents d) (heap_garbage t)) (datagrams t)))) @ out)"
      using main_turn_ok[OF t(1) cmds q(1) p] by (simp add: q(2))
  qed simp
qed

text \<open>A turn without a command of onlined, and one with the command to go online.\<close>

lemma quiet_acts:
  assumes "quiet other evs t"
  shows "\<forall>a \<in> set (concat (map (fast_acts evs) (datagrams t))). harmless other a"
    and "\<forall>a \<in> set (concat (map job_acts (concat (map (new_jobs evs (heap_garbage t)) (datagrams t))))). harmless other a"
  using assms by (fastforce simp: quiet_def command_acts_def)+

lemma daemon_turn_quiet:
  assumes "at_rest other (Suc n) d" and "quiet other (fonevents d) t"
  shows "\<exists>d' out. daemon_turn other t (d, b) = Some ((d', b), out) \<and> at_rest other n d' \<and> fonevents d' = fonevents d"
proof -
  have t: "NUL \<in> set (heap_garbage t)" "pids_readable (pid_files t)" "\<forall>c \<in> set (datagrams t). command (fonevents d) c"
    using assms(2) by (simp_all add: quiet_def)
  obtain d' out where d: "at_rest other n d'" "fonevents d' = fonevents d" "\<forall>a \<in> set out. harmless other a"
    "main_turn t d = Some (d', concat (map (fast_acts (fonevents d)) (datagrams t)) @
      concat (map job_acts (concat (map (new_jobs (fonevents d) (heap_garbage t)) (datagrams t)))) @ out)"
    by (rule daemon_turn_rest[OF assms(1) t])
  show ?thesis
    using d(1,2) harmless_fold[OF d(3)] harmless_fold[OF quiet_acts(1)[OF assms(2)]] harmless_fold[OF quiet_acts(2)[OF assms(2)]]
    by (simp add: daemon_turn_def d(4))
qed

lemma online_command:
  assumes "find_event ''Online'' evs = None"
  shows "command evs ''Online''" and "fast_acts evs ''Online'' = []"
    and "concat (map job_acts (new_jobs evs garbage ''Online'')) = [script_job ''Online'']"
  using assms by (simp_all add: command_def fast_acts_def new_jobs_def job_acts_def script_job_def strncpy_array_def NUL_def)

lemma run_online: "run_act other (script_job ''Online'') b = setOnline b"
  by (simp add: run_act_def script_job_def system_printf_def)

lemma daemon_turn_online:
  assumes "at_rest other (Suc n) d" and q: "quiet other (fonevents d) t"
  shows "\<exists>d' out. daemon_turn other (t\<lparr>datagrams := datagrams t @ [''Online'']\<rparr>) (d, b) = Some ((d', setOnline b), out) \<and>
    at_rest other n d' \<and> fonevents d' = fonevents d \<and> script_job ''Online'' \<in> set out"
proof -
  let ?t = "t\<lparr>datagrams := datagrams t @ [''Online'']\<rparr>"
  have f: "find_event ''Online'' (fonevents d) = None" using assms(1) by (simp add: at_rest_def)
  have t: "NUL \<in> set (heap_garbage ?t)" "pids_readable (pid_files ?t)" "\<forall>c \<in> set (datagrams ?t). command (fonevents d) c"
    using q online_command(1)[OF f] by (auto simp: quiet_def)
  obtain d' out where d: "at_rest other n d'" "fonevents d' = fonevents d" "\<forall>a \<in> set out. harmless other a"
    "main_turn ?t d = Some (d', concat (map (fast_acts (fonevents d)) (datagrams ?t)) @
      concat (map job_acts (concat (map (new_jobs (fonevents d) (heap_garbage ?t)) (datagrams ?t)))) @ out)"
    by (rule daemon_turn_rest[OF assms(1) t])
  show ?thesis
    using d(1,2) harmless_fold[OF d(3)] harmless_fold[OF quiet_acts(1)[OF q]] harmless_fold[OF quiet_acts(2)[OF q]]
    by (simp add: daemon_turn_def d(4) online_command(2,3)[OF f] run_online)
qed

text \<open>The turns of a second.\<close>

lemma quiet_turns:
  assumes "at_rest other (length ts + n) d" and "\<forall>t \<in> set ts. quiet other (fonevents d) t"
  shows "\<exists>d' out. run_steps (daemon_turn other) ts (d, b) = Some ((d', b), out) \<and> at_rest other n d' \<and> fonevents d' = fonevents d"
  using assms
proof (induction ts arbitrary: d)
  case (Cons t ts)
  have "at_rest other (Suc (length ts + n)) d" using Cons.prems(1) by simp
  from daemon_turn_quiet[OF this, of t b] Cons.prems(2) obtain d1 out1
    where d1: "daemon_turn other t (d, b) = Some ((d1, b), out1)" "at_rest other (length ts + n) d1" "fonevents d1 = fonevents d" by auto
  from Cons.IH[OF d1(2)] Cons.prems(2) d1(3) obtain d2 out2
    where "run_steps (daemon_turn other) ts (d1, b) = Some ((d2, b), out2)" "at_rest other n d2" "fonevents d2 = fonevents d" by auto
  with d1(1) show ?case by simp
qed simp

lemma online_turns:
  assumes "at_rest other (length ts) d" and "\<forall>t \<in> set ts. quiet other (fonevents d) t" and "k < length ts"
  shows "\<exists>d' out. run_steps (daemon_turn other) (deliver k [''Online''] ts) (d, b) = Some ((d', setOnline b), out) \<and>
    script_job ''Online'' \<in> set out"
  using assms
proof (induction ts arbitrary: d k)
  case (Cons t ts)
  have r: "at_rest other (Suc (length ts)) d" using Cons.prems(1) by simp
  show ?case
  proof (cases k)
    case 0
    from daemon_turn_online[OF r, of t b] Cons.prems(2) obtain d1 out1
      where d1: "daemon_turn other (t\<lparr>datagrams := datagrams t @ [''Online'']\<rparr>) (d, b) = Some ((d1, setOnline b), out1)"
      "at_rest other (length ts) d1" "fonevents d1 = fonevents d" "script_job ''Online'' \<in> set out1" by auto
    from quiet_turns[of other ts 0 d1 "setOnline b"] d1(2,3) Cons.prems(2) d1(1,4) 0 show ?thesis
      by (fastforce simp: deliver_def)
  next
    case (Suc j)
    from daemon_turn_quiet[OF r, of t b] Cons.prems(2) obtain d1 out1
      where d1: "daemon_turn other t (d, b) = Some ((d1, b), out1)" "at_rest other (length ts) d1" "fonevents d1 = fonevents d" by auto
    from Cons.IH[OF d1(2), of j] Cons.prems(2,3) d1(3) Suc obtain d2 out2
      where "run_steps (daemon_turn other) (deliver j [''Online''] ts) (d1, b) = Some ((d2, setOnline b), out2)"
      "script_job ''Online'' \<in> set out2" by auto
    with d1(1) Suc show ?thesis by (simp add: deliver_def)
  qed
qed simp

subsection \<open>The system comes online\<close>

text \<open>A second with a working network in which nothing but onlined changes the box.\<close>

definition good_second :: "(string \<Rightarrow> box \<Rightarrow> box) \<Rightarrow> 'c fonevent list \<Rightarrow> world_second \<Rightarrow> bool" where
  "good_second other evs e \<longleftrightarrow> network e \<and> length (polls e) \<le> 5 \<and> arrival e < length (polls e) \<and>
     (\<forall>t \<in> set (polls e). quiet other evs t)"

definition box_offline :: "box \<Rightarrow> bool" where
  "box_offline b \<longleftrightarrow> run_fonstate b = Some ''Offline'' \<and> \<not> state_online b"

definition coming_up :: "(string \<Rightarrow> box \<Rightarrow> box) \<Rightarrow> 'c fonevent list \<Rightarrow> 'c world \<Rightarrow> bool" where
  "coming_up other evs w \<longleftrightarrow> rising (watcher w) \<and> box_offline (box w) \<and>
     at_rest other (5 * Suc (nat (delay (watcher w)))) (daemon w) \<and> fonevents (daemon w) = evs"

lemma main_client_online: "shell_splits sh \<Longrightarrow> main_client (sh (''fs -l Online'')) = [''Online'']"
  by (simp add: shell_splits_def issue_command_def)

lemma system_progress:
  assumes sh: "shell_splits sh" and w: "coming_up other evs w" and e: "good_second other evs e"
  shows "\<exists>w' out. system_second sh other e w = Some (w', out) \<and>
    (script_job ''Online'' \<in> set out \<and> run_fonstate (box w') = Some ''Online'' \<and> state_online (box w') \<or>
     coming_up other evs w' \<and> nat (delay (watcher w')) < nat (delay (watcher w)))"
proof -
  let ?e = "\<lparr>resolves = network e, state_file = run_fonstate (box w)\<rparr>"
  let ?n = "nat (int_max - 1)"
  have o: "onlined_ok ?n (watcher w)" "\<not> is_online (watcher w)" using w by (simp_all add: coming_up_def rising_def)
  obtain s1 where s1: "stretch_interval (watcher w) = Some s1" "onlined_ok ?n s1" "\<not> is_online s1" "delay s1 = delay (watcher w)"
    using stretch_interval_ok[OF o(1)] o(2) by metis
  have up: "network_up ?e" using w e by (simp add: network_up_def coming_up_def box_offline_def good_second_def fgets_first_def NUL_def)
  have rest: "at_rest other (5 * Suc (nat (delay s1))) (daemon w)" "fonevents (daemon w) = evs"
    using w s1(4) by (simp_all add: coming_up_def)
  have q: "\<forall>t \<in> set (polls e). quiet other (fonevents (daemon w)) t" "length (polls e) \<le> 5" "arrival e < length (polls e)" "network e"
    using e rest(2) by (simp_all add: good_second_def)
  show ?thesis
  proof (cases "delay s1 = 0")
    case True
    have "error_count s1 + 1 \<le> int_max" using s1(2) by (simp add: onlined_ok_def int_max_def)
    from online_turn_tests[OF s1(1) True this, of ?e] s1(2,3) q(4)
    obtain s2 where s2: "online_turn ?e (watcher w) = Some (s2, [''fs -l Online''])" by (auto simp: onlined_ok_def send_cmd_def)
    obtain d out where d: "run_steps (daemon_turn other) (deliver (arrival e) [''Online''] (polls e)) (daemon w, box w) =
        Some ((d, setOnline (box w)), out)" "script_job ''Online'' \<in> set out"
      using online_turns[OF _ q(1,3), of "box w"] at_rest_mono[OF rest(1)] q(2) by fastforce
    then show ?thesis using s2 main_client_online[OF sh] w
      by (simp add: system_second_def setOnline_def coming_up_def box_offline_def state_online_def)
  next
    case False
    then have dl: "0 < delay s1" "delay s1 < 64" using s1(2) by (auto simp: onlined_ok_def)
    define s2 where "s2 = read_state (run_fonstate (box w)) (s1\<lparr>delay := delay s1 - 1\<rparr>)"
    have s2: "online_turn ?e (watcher w) = Some (s2, [])" using online_turn_waits[OF s1(1) dl, of ?e] by (simp add: s2_def)
    have n: "nat (delay s1) = Suc (nat (delay s2))" using dl by (simp add: s2_def)
    have r: "at_rest other (length (polls e) + 5 * Suc (nat (delay s2))) (daemon w)"
      using at_rest_mono[OF rest(1)] q(2) n by simp
    obtain d out where d: "run_steps (daemon_turn other) (polls e) (daemon w, box w) = Some ((d, box w), out)"
      "at_rest other (5 * Suc (nat (delay s2))) d" "fonevents d = evs"
      using quiet_turns[OF r q(1), of "box w"] rest(2) by auto
    have "rising s2" using s1(2,3) dl read_state_up[OF up, of "s1\<lparr>delay := delay s1 - 1\<rparr>"]
      by (auto simp: rising_def onlined_ok_def s2_def)
    then show ?thesis
      using s2 d w s1(4) n by (simp add: system_second_def coming_up_def deliver_def)
  qed
qed

text \<open>C7: The two daemons together bring the box online: when both are at rest and offline and the network works, then
within 64 seconds fonstated runs the script that goes online, and afterwards the state file and the run-time
configuration say so. fonstated takes up to five turns a second, onlined's command arrives at any of them, and
other commands may arrive and timers fire all the time, as long as they do not go online or offline themselves.\<close>

theorem system_comes_online:
  assumes "shell_splits sh" and "rising (watcher w)" and "box_offline (box w)" and "at_rest other 320 (daemon w)"
    and "length es = 64" and "\<forall>e \<in> set es. good_second other (fonevents (daemon w)) e"
  shows "\<exists>n<64. \<exists>w' out. run_steps (system_second sh other) (take (Suc n) es) w = Some (w', out) \<and>
    script_job ''Online'' \<in> set out \<and> run_fonstate (box w') = Some ''Online'' \<and> state_online (box w')"
proof -
  have d: "nat (delay (watcher w)) < length es" using assms(2,5) by (auto simp: rising_def onlined_ok_def)
  then have "5 * Suc (nat (delay (watcher w))) \<le> 320" using assms(5) by simp
  from at_rest_mono[OF assms(4) this] have c: "coming_up other (fonevents (daemon w)) w"
    using assms(2,3) by (simp add: coming_up_def)
  have "responsive (system_second sh other) (coming_up other (fonevents (daemon w))) (good_second other (fonevents (daemon w)))
    (\<lambda>out w'. script_job ''Online'' \<in> set out \<and> run_fonstate (box w') = Some ''Online'' \<and> state_online (box w'))
    (\<lambda>w. nat (delay (watcher w)))"
    by unfold_locales (use system_progress[OF assms(1)] in blast)
  from responsive.responds[OF this c assms(6) d] show ?thesis unfolding assms(5) by fastforce
qed

text \<open>The timers of the shipped \<open>/etc/config/fonstate\<close>, and commands to restart services at every turn.\<close>

definition example_world :: "unit world" where
  "example_world = \<lparr>watcher = onlined_init,
     daemon = no_state\<lparr>fontimers :=
       [\<lparr>action = ''/etc/fonstated/RestartNtpclient'', pidfile = [], period = 86400, count = 0, timercb = None\<rparr>,
        \<lparr>action = ''/etc/init.d/fonsmcd'', pidfile = ''/tmp/run/fonsmcd.pid'', period = 60, count = 0, timercb = None\<rparr>,
        \<lparr>action = ''/etc/fonstated/StartHttpd'', pidfile = [], period = 10750, count = 0, timercb = None\<rparr>]\<rparr>,
     box = \<lparr>run_fonstate = Some ''Offline'', online_uci = None\<rparr>\<rparr>"

definition example_second :: world_second where
  "example_second = \<lparr>network = True,
     polls = replicate 5 \<lparr>dump_opens = True, heap_garbage = replicate 128 NUL, datagrams = [''RestartQoS''],
       pid_files = [''/tmp/run/fonsmcd.pid'' \<mapsto> ''731'']\<rparr>,
     arrival = 3\<rparr>"

theorem system_comes_online_witness:
  "\<exists>n<64. \<exists>w' out. run_steps (system_second (\<lambda>cmd. [(CHR ''l'', drop 6 cmd)]) (\<lambda>cmd b. b))
      (take (Suc n) (replicate 64 example_second)) example_world = Some (w', out) \<and>
    script_job ''Online'' \<in> set out \<and> run_fonstate (box w') = Some ''Online'' \<and> state_online (box w')"
proof (rule system_comes_online)
  show "shell_splits (\<lambda>cmd. [(CHR ''l'', drop 6 cmd)])" by (simp add: shell_splits_def)
  show "rising (watcher example_world)"
    by (simp add: example_world_def rising_def onlined_ok_def onlined_init_def daemon_facts int_max_def)
  show "box_offline (box example_world)" by (simp add: example_world_def box_offline_def state_online_def)
  show "at_rest (\<lambda>cmd b. b) 320 (daemon example_world)"
    by (simp add: example_world_def at_rest_def no_state_def timer_at_rest_def harmless_def run_act_def timer_cmd_def
      script_job_def system_printf_def int_max_def)
  have pid: "fgets_first 256 ''731'' = Some ''731''" "atoi ''731'' = Some 731"
    by (simp_all add: fgets_first_def NUL_def atoi_def isspace_def isdigit_def digits_value_def checked_def int_max_def)
  have "quiet (\<lambda>cmd b. b) [] t" if "t \<in> set (polls example_second)" for t
    using that by (simp add: example_second_def quiet_def pids_readable_def command_def command_acts_def fast_acts_def new_jobs_def
      job_acts_def harmless_def run_act_def script_job_def system_printf_def strncpy_array_def NUL_def pid)
  then show "\<forall>e \<in> set (replicate 64 example_second). good_second (\<lambda>cmd b. b) (fonevents (daemon example_world)) e"
    by (simp add: good_second_def example_world_def no_state_def) (simp add: example_second_def)
qed simp

end
