(* ===== verification/Calendar.thy ===== *)
theory Calendar
  imports CLib
begin

text \<open>
  The calendar and the broken-down times of the C library, which \<open>package/libiptbwctl\<close> uses: days from 1970, dates, and
  \<open>gmtime\<close>, \<open>localtime\<close> and \<open>mktime\<close> over the data of a time zone. A \<open>time_t\<close> of the targets is a signed
  number of 32 bits, an integer here.
\<close>

subsection \<open>The calendar\<close>

definition leap :: "int \<Rightarrow> bool" where
  "leap y \<longleftrightarrow> 4 dvd y \<and> (\<not> 100 dvd y \<or> 400 dvd y)"

definition year_days :: "int \<Rightarrow> int" where
  "year_days y = (if leap y then 366 else 365)"

definition month_days :: "int \<Rightarrow> nat \<Rightarrow> int" where
  "month_days y m = (if m = 1 then (if leap y then 29 else 28) else if m \<in> {3, 5, 8, 10} then 30 else 31)"

text \<open>Days from the first of January 1970 to that of a year, and from there to the first of a month.\<close>

definition year_start :: "int \<Rightarrow> int" where
  "year_start y = 365 * (y - 1970) + (y - 1969) div 4 - (y - 1901) div 100 + (y - 1601) div 400"

definition month_start :: "int \<Rightarrow> nat \<Rightarrow> int" where
  "month_start y m = (\<Sum>k \<leftarrow> [0..<m]. month_days y k)"

text \<open>A month outside the year, and a day outside the month, are of another one.\<close>

definition days_of :: "int \<Rightarrow> int \<Rightarrow> int \<Rightarrow> int" where
  "days_of y m d = year_start (y + m div 12) + month_start (y + m div 12) (nat (m mod 12)) + (d - 1)"

function year_loop :: "int \<Rightarrow> int \<Rightarrow> int \<times> int" where
  "year_loop y d = (if d < 0 then year_loop (y - 1) (d + year_days (y - 1))
     else if d < year_days y then (y, d) else year_loop (y + 1) (d - year_days y))"
  by auto
termination
  by (relation "measure (\<lambda>(y, d). if d < 0 then nat (400 - d) else nat d)") (auto simp: year_days_def split: if_splits)

declare year_loop.simps [simp del]

fun month_loop :: "nat \<Rightarrow> int \<Rightarrow> nat \<Rightarrow> int \<Rightarrow> nat \<times> int" where
  "month_loop 0 y m d = (m, d)"
| "month_loop (Suc n) y m d = (if d < month_days y m then (m, d) else month_loop n y (Suc m) (d - month_days y m))"

definition civil :: "int \<Rightarrow> int \<times> nat \<times> int" where
  "civil days = (case year_loop 1970 days of (y, d) \<Rightarrow> case month_loop 11 y 0 d of (m, d) \<Rightarrow> (y, m, d + 1))"

subsection \<open>Broken-down time\<close>

record tm =
  tm_sec :: int
  tm_min :: int
  tm_hour :: int
  tm_mday :: int
  tm_mon :: int
  tm_year :: int
  tm_wday :: int
  tm_isdst :: "bool option"

definition tm_of :: "bool option \<Rightarrow> int \<Rightarrow> tm" where
  "tm_of dst secs =
     (case civil (secs div 86400) of (y, m, d) \<Rightarrow>
        \<lparr>tm_sec = secs mod 60, tm_min = secs mod 3600 div 60, tm_hour = secs mod 86400 div 3600,
         tm_mday = d, tm_mon = int m, tm_year = y - 1900, tm_wday = (secs div 86400 + 4) mod 7, tm_isdst = dst\<rparr>)"

definition secs_of :: "tm \<Rightarrow> int" where
  "secs_of c = 86400 * days_of (tm_year c + 1900) (tm_mon c) (tm_mday c) + 3600 * tm_hour c + 60 * tm_min c + tm_sec c"

text \<open>
  The time zone: its offset at a time, whether that is daylight saving time, and the time that \<open>mktime\<close> finds for a local
  time.
\<close>

record zone =
  utc_offset :: "int \<Rightarrow> int"
  is_dst :: "int \<Rightarrow> bool"
  resolve :: "bool option \<Rightarrow> int \<Rightarrow> int"

definition gmtime :: "int \<Rightarrow> tm" where
  "gmtime t = tm_of (Some False) t"

definition localtime :: "zone \<Rightarrow> int \<Rightarrow> tm" where
  "localtime Z t = tm_of (Some (is_dst Z t)) (t + utc_offset Z t)"

definition mktime :: "zone \<Rightarrow> tm \<Rightarrow> int" where
  "mktime Z c = (case checked (resolve Z (tm_isdst c) (secs_of c)) of None \<Rightarrow> - 1 | Some t \<Rightarrow> t)"

subsection \<open>The calendar is right\<close>

lemma year_days_bounds: "365 \<le> year_days y \<and> year_days y \<le> 366"
  by (simp add: year_days_def)

lemma div_step:
  fixes a k :: int
  assumes "0 < k"
  shows "(a + 1) div k = a div k + of_bool (k dvd a + 1)"
proof -
  define q r where "q = (a + 1) div k" and "r = (a + 1) mod k"
  have qr: "a + 1 = k * q + r" "0 \<le> r" "r < k" using assms by (simp_all add: q_def r_def)
  have d: "k dvd a + 1 \<longleftrightarrow> r = 0" by (simp add: r_def dvd_eq_mod_eq_0)
  show ?thesis
  proof (cases "r = 0")
    case True
    then have "a div k = q - 1"
      using qr assms by (intro int_div_pos_eq[of a k "q - 1" "k - 1"]) (simp_all add: algebra_simps)
    then show ?thesis using d True q_def by simp
  next
    case False
    then have "a div k = q" using qr by (intro int_div_pos_eq[of a k q "r - 1"]) simp_all
    then show ?thesis using d False q_def by simp
  qed
qed

lemma dvd_shift: "(k :: int) dvd a - n * k \<longleftrightarrow> k dvd a"
  by (metis diff_add_cancel dvd_add_times_triv_right_iff)

lemma leap_dvd:
  "100 dvd y \<Longrightarrow> 4 dvd y" "400 dvd y \<Longrightarrow> 100 dvd y" for y :: int
  by (erule dvd_trans[rotated], simp)+

lemma year_start_step: "year_start (y + 1) = year_start y + year_days y"
proof -
  have s: "y - 1969 + 1 = y - 492 * 4" "y - 1901 + 1 = y - 19 * 100" "y - 1601 + 1 = y - 4 * 400" by simp_all
  have e: "y + 1 - 1969 = y - 492 * 4" "y + 1 - 1901 = y - 19 * 100" "y + 1 - 1601 = y - 4 * 400" by simp_all
  have d: "(y - 492 * 4) div 4 = (y - 1969) div 4 + of_bool (4 dvd y)"
    "(y - 19 * 100) div 100 = (y - 1901) div 100 + of_bool (100 dvd y)"
    "(y - 4 * 400) div 400 = (y - 1601) div 400 + of_bool (400 dvd y)"
    using div_step[of 4 "y - 1969"] div_step[of 100 "y - 1901"] div_step[of 400 "y - 1601"]
    unfolding s dvd_shift by simp_all
  have l: "year_days y = 365 + of_bool (4 dvd y) - of_bool (100 dvd y) + of_bool (400 dvd y)"
    unfolding year_days_def leap_def using leap_dvd[of y] by (cases "4 dvd y"; cases "100 dvd y"; cases "400 dvd y") simp_all
  have "365 * (y + 1 - 1970) = 365 * (y - 1970) + 365" by (simp add: algebra_simps)
  then show ?thesis unfolding year_start_def e d l by linarith
qed

lemma year_start_le: "y < y' \<Longrightarrow> year_start y + year_days y \<le> year_start y'"
proof (induction y' rule: int_gr_induct)
  case (step i)
  then show ?case using year_start_step[of i] year_days_bounds[of i] by linarith
qed (simp add: year_start_step)

lemma month_days_bounds: "28 \<le> month_days y m \<and> month_days y m \<le> 31"
  by (simp add: month_days_def)

lemma month_start_Suc: "month_start y (Suc m) = month_start y m + month_days y m"
  by (simp add: month_start_def)

lemma month_start_12: "month_start y 12 = year_days y"
  by (simp add: month_start_def month_days_def year_days_def upt_rec)

lemma month_start_le: "m < m' \<Longrightarrow> month_start y m + month_days y m \<le> month_start y m'"
proof (induction m')
  case (Suc k)
  then show ?case using month_days_bounds[of y k] by (cases "m = k") (auto simp: month_start_Suc)
qed simp

lemma year_loop_ok:
  "year_loop y d = (y', d') \<Longrightarrow> 0 \<le> d' \<and> d' < year_days y' \<and> year_start y' + d' = year_start y + d"
proof (induction y d rule: year_loop.induct)
  case (1 y d)
  consider "d < 0" | "0 \<le> d" "d < year_days y" | "year_days y \<le> d" "0 \<le> d" using year_days_bounds[of y] by linarith
  then show ?case
  proof cases
    case 1
    then show ?thesis using "1.IH"(1) "1.prems" year_start_step[of "y - 1"] by (simp add: year_loop.simps[of y d])
  next
    case 2
    then show ?thesis using "1.prems" by (simp add: year_loop.simps[of y d])
  next
    case 3
    then show ?thesis using "1.IH"(2) "1.prems" year_start_step[of y] by (simp add: year_loop.simps[of y d])
  qed
qed

lemma month_loop_ok:
  "month_loop n y m d = (m', d') \<Longrightarrow> n + m = 11 \<Longrightarrow> 0 \<le> d \<Longrightarrow> month_start y m + d < year_days y \<Longrightarrow>
    m' < 12 \<and> 0 \<le> d' \<and> d' < month_days y m' \<and> month_start y m' + d' = month_start y m + d"
proof (induction n y m d rule: month_loop.induct)
  case (1 y m d)
  then show ?case using month_start_12[of y] month_start_Suc[of y 11] by simp
next
  case (2 n y m d)
  then show ?case by (auto simp: month_start_Suc split: if_splits)
qed

definition valid_date :: "int \<Rightarrow> nat \<Rightarrow> int \<Rightarrow> bool" where
  "valid_date y m d \<longleftrightarrow> m < 12 \<and> 1 \<le> d \<and> d \<le> month_days y m"

definition day_number :: "int \<Rightarrow> nat \<Rightarrow> int \<Rightarrow> int" where
  "day_number y m d = year_start y + month_start y m + d - 1"

lemma civil_ok:
  assumes "civil days = (y, m, d)"
  shows "valid_date y m d \<and> day_number y m d = days"
proof -
  obtain d1 where y: "year_loop 1970 days = (y, d1)" and m: "month_loop 11 y 0 d1 = (m, d - 1)"
    using assms by (auto simp: civil_def split: prod.splits)
  have "year_start 1970 = 0" by (simp add: year_start_def)
  then show ?thesis using year_loop_ok[OF y] month_loop_ok[OF m]
    by (auto simp: valid_date_def day_number_def month_start_def)
qed

lemma day_number_less:
  assumes "valid_date y m d" "valid_date y' m' d'" "y < y' \<or> y = y' \<and> (m < m' \<or> m = m' \<and> d < d')"
  shows "day_number y m d < day_number y' m' d'"
proof -
  have b: "0 \<le> month_start y m" "month_start y m + d - 1 < year_days y" if "valid_date y m d" for y m d
  proof -
    show "0 \<le> month_start y m" unfolding month_start_def by (rule sum_list_nonneg) (auto simp: month_days_def)
    have "month_start y m + month_days y m \<le> month_start y 12"
      using that month_start_le[of m 12 y] by (simp add: valid_date_def)
    then show "month_start y m + d - 1 < year_days y" using that by (simp add: valid_date_def month_start_12)
  qed
  consider "y < y'" | "y = y'" "m < m'" | "y = y'" "m = m'" "d < d'" using assms(3) by blast
  then show ?thesis
  proof cases
    case 1
    then show ?thesis using year_start_le[OF 1] b[OF assms(1)] b[OF assms(2)] assms(2)
      by (simp add: day_number_def valid_date_def)
  next
    case 2
    then show ?thesis using month_start_le[OF 2(2), of y] assms(1,2) by (simp add: day_number_def valid_date_def)
  next
    case 3
    then show ?thesis by (simp add: day_number_def)
  qed
qed

lemma civil_day_number:
  assumes "valid_date y m d"
  shows "civil (day_number y m d) = (y, m, d)"
proof -
  obtain y' m' d' where c: "civil (day_number y m d) = (y', m', d')" by (metis prod_cases3)
  note v = civil_ok[OF c]
  have "\<not> (y < y' \<or> y = y' \<and> (m < m' \<or> m = m' \<and> d < d'))" using day_number_less[OF assms] v by fastforce
  moreover have "\<not> (y' < y \<or> y' = y \<and> (m' < m \<or> m' = m \<and> d' < d))" using day_number_less[OF _ assms] v by fastforce
  ultimately show ?thesis using c by auto
qed

lemma days_of_valid: "m < 12 \<Longrightarrow> days_of y (int m) d = day_number y m d"
  by (simp add: days_of_def day_number_def)

text \<open>Two days that follow each other: the day of the month goes up by one, or it was at least 28 and is 1.\<close>

lemma civil_next_day:
  assumes "civil D = (y, m, d)" "civil (D + 1) = (y', m', d')"
  shows "d' = d + 1 \<or> d' = 1 \<and> 28 \<le> d"
proof -
  note v = civil_ok[OF assms(1)]
  show ?thesis
  proof (cases "d < month_days y m")
    case True
    then have "valid_date y m (d + 1)" "day_number y m (d + 1) = D + 1" using v by (simp_all add: valid_date_def day_number_def)
    then show ?thesis using civil_day_number assms(2) by fastforce
  next
    case False
    then have d: "d = month_days y m" using v by (simp add: valid_date_def)
    have "civil (D + 1) = (if m = 11 then (y + 1, 0, 1) else (y, Suc m, 1))"
    proof (cases "m = 11")
      case True
      have "day_number (y + 1) 0 1 = D + 1"
        using v True d month_start_12[of y] month_start_Suc[of y 11]
        by (simp add: day_number_def year_start_step month_start_def)
      moreover have "valid_date (y + 1) 0 1" using month_days_bounds[of "y + 1" 0] by (simp add: valid_date_def)
      ultimately show ?thesis using civil_day_number True by fastforce
    next
      case False
      then have "valid_date y (Suc m) 1" "day_number y (Suc m) 1 = D + 1"
        using v d month_days_bounds[of y "Suc m"] by (simp_all add: valid_date_def day_number_def month_start_Suc)
      then show ?thesis using civil_day_number False by fastforce
    qed
    then show ?thesis using assms(2) d month_days_bounds[of y m] by (auto split: if_splits)
  qed
qed

subsection \<open>Broken-down times and back\<close>

lemma mixed_radix:
  "x = a * q + s \<Longrightarrow> s = b * u + r \<Longrightarrow> a = b * c \<Longrightarrow> x = b * (c * q + u) + r" for x :: int
  by (simp add: algebra_simps)

lemma split_day:
  fixes x :: int
  shows "x mod 86400 = 3600 * (x mod 86400 div 3600) + (60 * (x mod 3600 div 60) + x mod 60)"
proof -
  have "x mod 86400 mod 3600 = x mod 3600" "x mod 3600 mod 60 = x mod 60" by (simp_all add: mod_mod_cancel)
  then show ?thesis using mult_div_mod_eq[of 3600 "x mod 86400"] mult_div_mod_eq[of 60 "x mod 3600"] by simp
qed

lemma day_sum: "x = D + s \<Longrightarrow> s = a + (b + c) \<Longrightarrow> D + a + b + c = x" for x :: int
  by simp

lemma tm_of_sel:
  assumes "civil (x div 86400) = (y, m, d)"
  shows "tm_of dst x = \<lparr>tm_sec = x mod 60, tm_min = x mod 3600 div 60, tm_hour = x mod 86400 div 3600,
    tm_mday = d, tm_mon = int m, tm_year = y - 1900, tm_wday = (x div 86400 + 4) mod 7, tm_isdst = dst\<rparr>"
  by (simp add: tm_of_def assms)

lemma days_of_civil: "civil D = (y, m, d) \<Longrightarrow> days_of y (int m) (d + k) = D + k"
  using civil_ok[of D y m d] by (simp add: days_of_valid valid_date_def day_number_def)

lemma secs_of_tm_of: "secs_of (tm_of dst x) = x"
proof -
  obtain y m d where c: "civil (x div 86400) = (y, m, d)" by (metis prod_cases3)
  have "86400 * (x div 86400) + 3600 * (x mod 86400 div 3600) + 60 * (x mod 3600 div 60) + x mod 60 = x"
    by (rule day_sum[OF mult_div_mod_eq[symmetric] split_day])
  then show ?thesis using days_of_civil[OF c, of 0] by (simp add: tm_of_sel[OF c] secs_of_def)
qed

lemma minute_of_day: "60 * (x mod 86400 div 3600) + x mod 3600 div 60 = x mod 86400 div 60" for x :: int
  by (rule int_div_pos_eq[symmetric, where r = "x mod 60"], rule mixed_radix[OF split_day refl]) simp_all

lemma minutes_split: "x div 60 = 1440 * (x div 86400) + x mod 86400 div 60" for x :: int
proof (rule int_div_pos_eq)
  have "x mod 86400 = 60 * (x mod 86400 div 60) + x mod 60"
    using mult_div_mod_eq[of 60 "x mod 86400"] by (simp add: mod_mod_cancel)
  then show "x = 60 * (1440 * (x div 86400) + x mod 86400 div 60) + x mod 60"
    by (rule mixed_radix[OF mult_div_mod_eq[symmetric]]) simp
qed simp_all

end
