(* ===== verification/BwTime.thy ===== *)
theory BwTime
  imports Calendar
begin

text \<open>
  The times of \<open>package/libiptbwctl/src/ipt_bwctl.c\<close>: the offset of the time zone and the starts of the intervals
  of a bandwidth history. A \<open>time_t\<close> of the targets is a signed number of 32 bits, an integer here, whose overflow
  is undefined. The data of the time zone are a parameter.
\<close>

subsection \<open>The offset of the time zone\<close>

definition get_minutes_west :: "zone \<Rightarrow> int \<Rightarrow> int" where
  "get_minutes_west Z now =
     (let utc_info = gmtime now; tz_info = localtime Z now;
          utc_day = tm_mday utc_info; tz_day = tm_mday tz_info;
          utc_day = (if utc_day < tz_day - 1 then tz_day + 1 else utc_day);
          tz_day = (if tz_day < utc_day - 1 then utc_day + 1 else tz_day)
      in (24 * 60 * utc_day + 60 * tm_hour utc_info + tm_min utc_info) -
         (24 * 60 * tz_day + 60 * tm_hour tz_info + tm_min tz_info))"

subsection \<open>Intervals\<close>

definition BANDWIDTH_MINUTE :: int where "BANDWIDTH_MINUTE = 80"
definition BANDWIDTH_HOUR :: int where "BANDWIDTH_HOUR = 81"
definition BANDWIDTH_DAY :: int where "BANDWIDTH_DAY = 82"
definition BANDWIDTH_WEEK :: int where "BANDWIDTH_WEEK = 83"
definition BANDWIDTH_MONTH :: int where "BANDWIDTH_MONTH = 84"

text \<open>The loop over the days of a week, which ends on a Sunday.\<close>

partial_function (option) week_loop :: "zone \<Rightarrow> tm \<Rightarrow> tm option" where
  "week_loop Z cur =
     (if tm_wday cur \<noteq> 0 then week_loop Z (localtime Z (mktime Z (cur\<lparr>tm_mday := tm_mday cur + 1\<rparr>))) else Some cur)"

text \<open>One turn of the loop; an interval that is none of these changes nothing.\<close>

definition next_turn :: "zone \<Rightarrow> int \<Rightarrow> int \<Rightarrow> int \<Rightarrow> int option" where
  "next_turn Z current_start_time reset_interval nxt =
     (let cur = (localtime Z current_start_time)\<lparr>tm_isdst := None\<rparr> in
      if reset_interval = BANDWIDTH_MINUTE then
        Some (mktime Z (cur\<lparr>tm_sec := 0, tm_min := tm_min cur + 1\<rparr>))
      else if reset_interval = BANDWIDTH_HOUR then
        Some (mktime Z (cur\<lparr>tm_sec := 0, tm_min := 0, tm_hour := tm_hour cur + 1\<rparr>))
      else if reset_interval = BANDWIDTH_DAY then
        Some (mktime Z (cur\<lparr>tm_sec := 0, tm_min := 0, tm_hour := 0, tm_mday := tm_mday cur + 1\<rparr>))
      else if reset_interval = BANDWIDTH_WEEK then do {
        cur \<leftarrow> week_loop Z (localtime Z
          (mktime Z (cur\<lparr>tm_sec := 0, tm_min := 0, tm_hour := 0, tm_mday := tm_mday cur + 1\<rparr>)));
        Some (mktime Z cur) }
      else if reset_interval = BANDWIDTH_MONTH then
        Some (mktime Z (cur\<lparr>tm_sec := 0, tm_min := 0, tm_hour := 0, tm_mday := 1, tm_mon := tm_mon cur + 1\<rparr>))
      else Some nxt)"

partial_function (option) next_loop :: "zone \<Rightarrow> int \<Rightarrow> int \<Rightarrow> int \<Rightarrow> int \<Rightarrow> int option" where
  "next_loop Z current_start_time reset_interval reset_time nxt = do {
     s \<leftarrow> checked (nxt + reset_time);
     if s \<le> current_start_time then do {
       nxt \<leftarrow> next_turn Z current_start_time reset_interval nxt;
       next_loop Z current_start_time reset_interval reset_time nxt }
     else Some nxt }"

definition get_next_node_start_time :: "zone \<Rightarrow> int \<Rightarrow> int \<Rightarrow> int \<Rightarrow> bool \<Rightarrow> int option" where
  "get_next_node_start_time Z current_start_time reset_interval reset_time is_constant_interval =
     (if is_constant_interval then checked (current_start_time + reset_interval)
      else do {
        nxt \<leftarrow> next_loop Z current_start_time reset_interval reset_time current_start_time;
        checked (nxt + reset_time) })"

text \<open>The start of the interval after the last is computed too.\<close>

fun starts_loop :: "(int \<Rightarrow> int option) \<Rightarrow> nat \<Rightarrow> int \<Rightarrow> int \<Rightarrow> int list option" where
  "starts_loop following 0 next_start next_end = Some []"
| "starts_loop following (Suc n) next_start next_end = do {
     after \<leftarrow> following next_end;
     starts \<leftarrow> starts_loop following n next_end after;
     Some (next_start # starts) }"

text \<open>A history; the bandwidths are in an array of its own.\<close>

record ip_bw_history =
  hist_ip :: u32
  num_nodes :: u32
  reset_interval :: int
  reset_time :: int
  is_constant_interval :: u8
  first_start :: int
  first_end :: int
  last_end :: int
  history_bws :: "u64 list ptr"

definition next_of :: "zone \<Rightarrow> ip_bw_history \<Rightarrow> int \<Rightarrow> int option" where
  "next_of Z h t = get_next_node_start_time Z t (reset_interval h) (reset_time h) (is_constant_interval h \<noteq> 0)"

definition get_interval_starts_for_history :: "zone \<Rightarrow> ip_bw_history \<Rightarrow> int list ptr option" where
  "get_interval_starts_for_history Z h =
     (if 0 < num_nodes h then do {
        next_end \<leftarrow> next_of Z h (first_start h);
        starts \<leftarrow> starts_loop (next_of Z h) (unat (num_nodes h)) (first_start h) next_end;
        Some (Some starts) }
      else Some None)"

subsection \<open>The offset is right\<close>

lemma west_sum: "w = 1440 * k + p - q \<Longrightarrow> k = D - E \<Longrightarrow> a = 1440 * D + p \<Longrightarrow> b = 1440 * E + q \<Longrightarrow> w = a - b" for w :: int
  by simp

lemma get_minutes_west_ok:
  assumes "\<bar>utc_offset Z now\<bar> < 86400"
  shows "get_minutes_west Z now = now div 60 - (now + utc_offset Z now) div 60"
proof -
  define L where "L = now + utc_offset Z now"
  obtain y m d where u: "civil (now div 86400) = (y, m, d)" by (metis prod_cases3)
  obtain y' m' d' where l: "civil (L div 86400) = (y', m', d')" by (metis prod_cases3)
  note vu = civil_ok[OF u, unfolded valid_date_def] and vl = civil_ok[OF l, unfolded valid_date_def]
  define ud td where "ud = (if d < d' - 1 then d' + 1 else d)" and "td = (if d' < ud - 1 then ud + 1 else d')"
  have "L div 86400 = now div 86400 - 1 \<or> L div 86400 = now div 86400 \<or> L div 86400 = now div 86400 + 1"
    using assms unfolding L_def by linarith
  then have k: "ud - td = now div 86400 - L div 86400"
  proof (elim disjE)
    assume a: "L div 86400 = now div 86400 - 1"
    then have "civil (L div 86400 + 1) = (y, m, d)" using u by simp
    from civil_next_day[OF l this] show ?thesis using a by (auto simp: ud_def td_def)
  next
    assume a: "L div 86400 = now div 86400"
    then show ?thesis using u l by (simp add: ud_def td_def)
  next
    assume a: "L div 86400 = now div 86400 + 1"
    then have "civil (now div 86400 + 1) = (y', m', d')" using l by simp
    from civil_next_day[OF u this] show ?thesis using a vu by (auto simp: ud_def td_def)
  qed
  have "get_minutes_west Z now = 1440 * (ud - td) + now mod 86400 div 60 - L mod 86400 div 60"
    unfolding minute_of_day[symmetric]
    unfolding get_minutes_west_def gmtime_def localtime_def L_def[symmetric] tm_of_sel[OF u] tm_of_sel[OF l]
    by (simp add: Let_def ud_def td_def)
  from west_sum[OF this k minutes_split minutes_split] show ?thesis unfolding L_def .
qed

subsection \<open>The next interval\<close>

text \<open>A time zone without daylight saving time, and what a start of an interval is in local time.\<close>

definition fixed_zone :: "int \<Rightarrow> zone" where
  "fixed_zone o1 = \<lparr>utc_offset = \<lambda>t. o1, is_dst = \<lambda>t. False, resolve = \<lambda>dst l. l - o1\<rparr>"

definition boundary :: "int \<Rightarrow> int \<Rightarrow> bool" where
  "boundary interval l \<longleftrightarrow>
     (if interval = BANDWIDTH_MINUTE then 60 dvd l
      else if interval = BANDWIDTH_HOUR then 3600 dvd l
      else if interval = BANDWIDTH_DAY then 86400 dvd l
      else if interval = BANDWIDTH_WEEK then 86400 dvd l \<and> (l div 86400 + 4) mod 7 = 0
      else 86400 dvd l \<and> snd (snd (civil (l div 86400))) = 1)"

lemmas bandwidth_intervals = BANDWIDTH_MINUTE_def BANDWIDTH_HOUR_def BANDWIDTH_DAY_def BANDWIDTH_WEEK_def BANDWIDTH_MONTH_def

definition in_time :: "int \<Rightarrow> bool" where
  "in_time t \<longleftrightarrow> - int_max - 1 \<le> t \<and> t \<le> int_max"

lemma mktime_fixed: "in_time (secs_of c - o1) \<Longrightarrow> mktime (fixed_zone o1) c = secs_of c - o1"
  by (simp add: mktime_def fixed_zone_def checked_def in_time_def)

lemma localtime_fixed: "localtime (fixed_zone o1) t = tm_of (Some False) (t + o1)"
  by (simp add: localtime_def fixed_zone_def)

lemma secs_of_parts:
  assumes "civil (x div 86400) = (y, m, d)"
  shows "secs_of (tm_of dst x\<lparr>tm_isdst := dst', tm_sec := 0, tm_min := tm_min (tm_of dst x) + 1\<rparr>) = 60 * (x div 60 + 1)"
    "secs_of (tm_of dst x\<lparr>tm_isdst := dst', tm_sec := 0, tm_min := 0, tm_hour := tm_hour (tm_of dst x) + 1\<rparr>) = 3600 * (x div 3600 + 1)"
    "secs_of (tm_of dst x\<lparr>tm_isdst := dst', tm_sec := 0, tm_min := 0, tm_hour := 0, tm_mday := d + 1\<rparr>) = 86400 * (x div 86400 + 1)"
proof -
  have m: "86400 * (x div 86400) + 3600 * (x mod 86400 div 3600) + 60 * (x mod 3600 div 60) = 60 * (x div 60)"
    using minutes_split[of x] minute_of_day[of x] by (simp add: algebra_simps)
  show "secs_of (tm_of dst x\<lparr>tm_isdst := dst', tm_sec := 0, tm_min := tm_min (tm_of dst x) + 1\<rparr>) = 60 * (x div 60 + 1)"
    using days_of_civil[OF assms, of 0] m by (simp add: tm_of_sel[OF assms] secs_of_def algebra_simps)
  have "x = 3600 * (24 * (x div 86400) + x mod 86400 div 3600) + x mod 3600"
    by (rule mixed_radix[OF mult_div_mod_eq[symmetric]]) (use mult_div_mod_eq[of 3600 "x mod 86400"] in \<open>simp_all add: mod_mod_cancel\<close>)
  then have "x div 3600 = 24 * (x div 86400) + x mod 86400 div 3600" by (rule int_div_pos_eq) simp_all
  then show "secs_of (tm_of dst x\<lparr>tm_isdst := dst', tm_sec := 0, tm_min := 0, tm_hour := tm_hour (tm_of dst x) + 1\<rparr>) = 3600 * (x div 3600 + 1)"
    using days_of_civil[OF assms, of 0] by (simp add: tm_of_sel[OF assms] secs_of_def algebra_simps)
  show "secs_of (tm_of dst x\<lparr>tm_isdst := dst', tm_sec := 0, tm_min := 0, tm_hour := 0, tm_mday := d + 1\<rparr>) = 86400 * (x div 86400 + 1)"
    using days_of_civil[OF assms, of 1] by (simp add: tm_of_sel[OF assms] secs_of_def)
qed

text \<open>A multiple is followed by no other before the next.\<close>

lemma next_multiple:
  fixes k l t :: int
  assumes "0 < k"
  shows "l < k * (l div k + 1)" "l < t \<Longrightarrow> t < k * (l div k + 1) \<Longrightarrow> \<not> k dvd t"
proof -
  show "l < k * (l div k + 1)" 
    using mult_div_mod_eq[of k l] pos_mod_bound[OF assms, of l] unfolding distrib_left mult_1_right by linarith
  assume t: "l < t" "t < k * (l div k + 1)"
  show "\<not> k dvd t"
  proof
    assume "k dvd t"
    then obtain q where q: "t = k * q" ..
    with t(2) assms have "q < l div k + 1" by simp
    then have "k * q \<le> k * (l div k)" using assms by simp
    also have "\<dots> \<le> l" using mult_div_mod_eq[of k l] pos_mod_sign[OF assms, of l] by linarith
    finally show False using t(1) q by simp
  qed
qed

lemma week_loop_ok:
  assumes "\<And>k. 0 \<le> k \<Longrightarrow> k \<le> n \<Longrightarrow> in_time (86400 * (D + k) - o1)"
    and "n = (- (D + 4)) mod 7"
  shows "week_loop (fixed_zone o1) (tm_of (Some False) (86400 * D)) = Some (tm_of (Some False) (86400 * (D + n)))"
  using assms
proof (induction "nat n" arbitrary: D n)
  case 0
  then have "n = 0" by (metis nat_0_iff order_antisym pos_mod_sign zero_less_numeral)
  then have "(D + 4) mod 7 = 0" using 0(3) zmod_zminus1_not_zero[of "- (D + 4)" 7] by (metis minus_minus)
  then show ?case using \<open>n = 0\<close> by (subst week_loop.simps) (simp add: tm_of_def split: prod.splits)
next
  case (Suc j)
  have "n < 7" unfolding Suc(4) by (rule pos_mod_bound) simp
  moreover have "n = int (Suc j)" using Suc(2) by linarith
  ultimately have n: "n = int (Suc j)" "n < 7" by blast+
  have "(- (D + 4)) mod 7 \<noteq> 0" unfolding Suc(4)[symmetric] using n by simp
  then have w0: "(D + 4) mod 7 \<noteq> 0" by (rule zmod_zminus1_not_zero)
  have "(- (D + 1 + 4)) mod 7 = ((- (D + 4)) mod 7 - 1) mod 7"
    unfolding mod_diff_left_eq by (rule arg_cong[where f = "\<lambda>x. x mod 7"]) simp
  also have "\<dots> = n - 1" unfolding Suc(4)[symmetric] using n by (intro mod_pos_pos_trivial) simp_all
  finally have w: "n - 1 = (- (D + 1 + 4)) mod 7" ..
  obtain y m d where c: "civil (86400 * D div 86400) = (y, m, d)" by (metis prod_cases3)
  have wd: "tm_wday (tm_of (Some False) (86400 * D)) \<noteq> 0" using w0 by (simp add: tm_of_sel[OF c])
  have md: "tm_mday (tm_of (Some False) (86400 * D)) = d" by (simp add: tm_of_sel[OF c])
  have s: "secs_of (tm_of (Some False) (86400 * D)\<lparr>tm_mday := d + 1\<rparr>) = 86400 * (D + 1)"
    using days_of_civil[OF c, of 1] by (simp add: tm_of_sel[OF c] secs_of_def)
  have "in_time (86400 * (D + 1) - o1)" using Suc(3)[of 1] n by simp
  then have "localtime (fixed_zone o1) (mktime (fixed_zone o1) (tm_of (Some False) (86400 * D)\<lparr>tm_mday := d + 1\<rparr>)) =
      tm_of (Some False) (86400 * (D + 1))"
    by (simp add: mktime_fixed localtime_fixed s)
  then have "week_loop (fixed_zone o1) (tm_of (Some False) (86400 * D)) =
      week_loop (fixed_zone o1) (tm_of (Some False) (86400 * (D + 1)))"
    using wd md by (subst week_loop.simps) simp
  also have "\<dots> = Some (tm_of (Some False) (86400 * (D + 1 + (n - 1))))"
  proof (rule Suc(1)[OF _ _ w])
    show "j = nat (n - 1)" using n by simp
    show "in_time (86400 * (D + 1 + k) - o1)" if "0 \<le> k" "k \<le> n - 1" for k
      using Suc(3)[of "k + 1"] that by (simp add: algebra_simps)
  qed
  finally show ?case by simp
qed

text \<open>The local time \<open>n1\<close> is the next start of an interval after the local time \<open>l\<close>.\<close>

definition next_boundary :: "int \<Rightarrow> int \<Rightarrow> int \<Rightarrow> bool" where
  "next_boundary interval l n1 \<longleftrightarrow> l < n1 \<and> n1 \<le> l + 32 * 86400 \<and> boundary interval n1 \<and>
     (\<forall>t. l < t \<longrightarrow> t < n1 \<longrightarrow> \<not> boundary interval t)"

lemma next_boundary_multiple:
  assumes "0 < k" "k \<le> 86400" "\<And>t. boundary interval t \<longleftrightarrow> k dvd t"
  shows "next_boundary interval l (k * (l div k + 1))"
proof -
  have "k * (l div k) \<le> l" using mult_div_mod_eq[of k l] pos_mod_sign[OF assms(1), of l] by linarith
  then have "k * (l div k + 1) \<le> l + 32 * 86400" unfolding distrib_left mult_1_right using assms(2) by linarith
  then show ?thesis using next_multiple[OF assms(1), of l] assms(3) by (simp add: next_boundary_def)
qed

lemma next_boundary_week:
  assumes "D = l div 86400 + 1" "n = (- (D + 4)) mod 7"
  shows "next_boundary BANDWIDTH_WEEK l (86400 * (D + n))"
proof -
  have n: "0 \<le> n" "n < 7" by (simp_all add: assms(2))
  have "(D + n + 4) mod 7 = (D + 4 + (- (D + 4)) mod 7) mod 7" unfolding assms(2) by (rule arg_cong[where f = "\<lambda>x. x mod 7"]) simp
  then have z: "(D + n + 4) mod 7 = 0" unfolding mod_add_right_eq by simp
  have l: "l < 86400 * D" "86400 * D \<le> l + 86400"
    using next_multiple(1)[of 86400 l] mult_div_mod_eq[of 86400 l] pos_mod_sign[of 86400 l] unfolding assms(1) distrib_left by linarith+
  have "\<not> boundary BANDWIDTH_WEEK t" if "l < t" "t < 86400 * (D + n)" for t
  proof
    assume "boundary BANDWIDTH_WEEK t"
    then have t: "86400 dvd t" "(t div 86400 + 4) mod 7 = 0" by (simp_all add: boundary_def bandwidth_intervals)
    then obtain E where E: "t = 86400 * E" by auto
    have "D \<le> E"
    proof (rule ccontr)
      assume "\<not> D \<le> E"
      then have "t < 86400 * (l div 86400 + 1)" using E assms(1) by simp
      then show False using next_multiple(2)[of 86400 l t] that(1) t(1) by simp
    qed
    define k where "k = E - D"
    have k: "0 \<le> k" "k < n" "E = D + k" using \<open>D \<le> E\<close> that(2) E by (simp_all add: k_def)
    have "7 dvd (D + n + 4) - (E + 4)" using z t(2) E by (intro dvd_diff) (simp_all add: mod_0_imp_dvd)
    then have "7 dvd n - k" using k(3) by (simp add: algebra_simps)
    then show False using zdvd_not_zless[of "n - k" 7] k n by simp
  qed
  moreover have "boundary BANDWIDTH_WEEK (86400 * (D + n))" using z by (simp add: boundary_def bandwidth_intervals)
  ultimately show ?thesis using l n by (auto simp: next_boundary_def distrib_left)
qed

lemma within_month:
  "86400 * q \<le> l \<Longrightarrow> l < 86400 * q + 86400 \<Longrightarrow> q < n1 \<Longrightarrow> n1 \<le> q + 31 \<Longrightarrow> l < 86400 * n1 \<and> 86400 * n1 \<le> l + 32 * 86400"
  for q :: int
  by linarith

lemma next_boundary_month:
  assumes "civil (l div 86400) = (y, m, d)"
  shows "next_boundary BANDWIDTH_MONTH l (86400 * days_of y (int m + 1) 1)"
proof -
  note v = civil_ok[OF assms]
  let ?N = "day_number y m (month_days y m) + 1"
  have f: "days_of y (int m + 1) 1 = ?N \<and> snd (snd (civil ?N)) = 1"
  proof (cases "m = 11")
    case True
    then have "days_of y (int m + 1) 1 = day_number (y + 1) 0 1" by (simp add: days_of_def day_number_def)
    moreover have "day_number (y + 1) 0 1 = ?N"
      using True month_start_12[of y] month_start_Suc[of y 11] by (simp add: day_number_def year_start_step month_start_def)
    moreover have "valid_date (y + 1) 0 1" using month_days_bounds[of "y + 1" 0] by (simp add: valid_date_def)
    ultimately show ?thesis using civil_day_number by fastforce
  next
    case False
    then have "Suc m < 12" using v by (simp add: valid_date_def)
    then have "days_of y (int m + 1) 1 = day_number y (Suc m) 1" using days_of_valid[of "Suc m" y 1] by (simp add: add.commute)
    moreover have "valid_date y (Suc m) 1" "day_number y (Suc m) 1 = ?N"
      using \<open>Suc m < 12\<close> month_days_bounds[of y "Suc m"] by (simp_all add: valid_date_def day_number_def month_start_Suc)
    ultimately show ?thesis using civil_day_number by fastforce
  qed
  have D: "l div 86400 < ?N" "?N \<le> l div 86400 + 31"
    using v month_days_bounds[of y m] by (auto simp: day_number_def valid_date_def)
  have L: "86400 * (l div 86400) \<le> l" "l < 86400 * (l div 86400) + 86400"
    using mult_div_mod_eq[of 86400 l] pos_mod_sign[of 86400 l] pos_mod_bound[of 86400 l] by linarith+
  have "\<not> boundary BANDWIDTH_MONTH t" if "l < t" "t < 86400 * ?N" for t
  proof
    assume b: "boundary BANDWIDTH_MONTH t"
    then have "86400 dvd t" by (simp add: boundary_def bandwidth_intervals)
    then obtain E where E: "t = 86400 * E" ..
    with b have one: "snd (snd (civil E)) = 1" by (simp add: boundary_def bandwidth_intervals)
    have "86400 * (l div 86400) < 86400 * E" using that(1) E L(1) by linarith
    then have "l div 86400 < E" "E < ?N" using that(2) E by simp_all
    then have "valid_date y m (d + (E - l div 86400))" "day_number y m (d + (E - l div 86400)) = E"
      using v by (auto simp: valid_date_def day_number_def)
    then have "civil E = (y, m, d + (E - l div 86400))" using civil_day_number by metis
    then show False using one v \<open>l div 86400 < E\<close> by (simp add: valid_date_def)
  qed
  moreover have "boundary BANDWIDTH_MONTH (86400 * ?N)" using f by (simp add: boundary_def bandwidth_intervals)
  moreover have "l < 86400 * ?N \<and> 86400 * ?N \<le> l + 32 * 86400" using within_month[OF L D] .
  ultimately show ?thesis using f by (simp add: next_boundary_def)
qed

lemma next_turn_ok:
  assumes "interval \<in> {BANDWIDTH_MINUTE, BANDWIDTH_HOUR, BANDWIDTH_DAY, BANDWIDTH_WEEK, BANDWIDTH_MONTH}"
    and "in_time t1" "in_time (t1 + 32 * 86400)"
  shows "\<exists>r. next_turn (fixed_zone o1) t1 interval nxt = Some r \<and> next_boundary interval (t1 + o1) (r + o1)"
proof -
  define l where "l = t1 + o1"
  obtain y m d where c: "civil (l div 86400) = (y, m, d)" by (metis prod_cases3)
  have d: "tm_mday (tm_of (Some False) l) = d" by (simp add: tm_of_sel[OF c])
  have mk: "mktime (fixed_zone o1) cur = n1 - o1" if "secs_of cur = n1" "next_boundary i l n1" for cur n1 i
    using that assms(2,3) mktime_fixed[of cur o1] by (auto simp: next_boundary_def in_time_def l_def)
  note parts = secs_of_parts[OF c, where dst = "Some False" and dst' = None]
  consider "interval = BANDWIDTH_MINUTE" | "interval = BANDWIDTH_HOUR" | "interval = BANDWIDTH_DAY" | "interval = BANDWIDTH_WEEK"
    | "interval = BANDWIDTH_MONTH" using assms(1) by blast
  then show ?thesis
  proof cases
    case 1
    have "next_boundary BANDWIDTH_MINUTE l (60 * (l div 60 + 1))"
      by (rule next_boundary_multiple) (simp_all add: boundary_def)
    then show ?thesis using mk[OF parts(1)] 1
      by (simp add: next_turn_def localtime_fixed l_def[symmetric])
  next
    case 2
    have "next_boundary BANDWIDTH_HOUR l (3600 * (l div 3600 + 1))"
      by (rule next_boundary_multiple) (simp_all add: boundary_def bandwidth_intervals)
    then show ?thesis using mk[OF parts(2)] 2
      by (simp add: next_turn_def localtime_fixed l_def[symmetric] bandwidth_intervals)
  next
    case 3
    have "next_boundary BANDWIDTH_DAY l (86400 * (l div 86400 + 1))"
      by (rule next_boundary_multiple) (simp_all add: boundary_def bandwidth_intervals)
    then show ?thesis using mk[OF parts(3)] 3 d
      by (simp add: next_turn_def localtime_fixed l_def[symmetric] bandwidth_intervals)
  next
    case 4
    define D n where "D = l div 86400 + 1" and "n = (- (D + 4)) mod 7"
    have b: "next_boundary BANDWIDTH_WEEK l (86400 * (D + n))" by (rule next_boundary_week[OF D_def n_def])
    have day: "next_boundary BANDWIDTH_DAY l (86400 * D)"
      unfolding D_def by (rule next_boundary_multiple) (simp_all add: boundary_def bandwidth_intervals)
    have "week_loop (fixed_zone o1) (tm_of (Some False) (86400 * D)) = Some (tm_of (Some False) (86400 * (D + n)))"
    proof (rule week_loop_ok[OF _ n_def])
      fix k :: int
      assume "0 \<le> k" "k \<le> n"
      then have "86400 * D \<le> 86400 * (D + k)" "86400 * (D + k) \<le> 86400 * (D + n)" by simp_all
      then show "in_time (86400 * (D + k) - o1)"
        using day b assms(2,3) unfolding next_boundary_def in_time_def l_def by linarith
    qed
    moreover have "mktime (fixed_zone o1) (tm_of (Some False) (86400 * (D + n))) = 86400 * (D + n) - o1"
      by (rule mk[OF secs_of_tm_of b])
    ultimately show ?thesis using mk[OF parts(3)[folded D_def] day] 4 d b
      by (simp add: next_turn_def localtime_fixed l_def[symmetric] bandwidth_intervals)
  next
    case 5
    have "secs_of (tm_of (Some False) l\<lparr>tm_isdst := None, tm_sec := 0, tm_min := 0, tm_hour := 0, tm_mday := 1,
        tm_mon := tm_mon (tm_of (Some False) l) + 1\<rparr>) = 86400 * days_of y (int m + 1) 1"
      by (simp add: tm_of_sel[OF c] secs_of_def)
    from mk[OF this next_boundary_month[OF c]] show ?thesis using 5 next_boundary_month[OF c]
      by (simp add: next_turn_def localtime_fixed l_def[symmetric] bandwidth_intervals)
  qed
qed

text \<open>With a reset time of 0 the loop takes one turn.\<close>

lemma get_next_node_start_time_ok:
  assumes "interval \<in> {BANDWIDTH_MINUTE, BANDWIDTH_HOUR, BANDWIDTH_DAY, BANDWIDTH_WEEK, BANDWIDTH_MONTH}"
    and "in_time t1" "in_time (t1 + 32 * 86400)"
  shows "\<exists>r. get_next_node_start_time (fixed_zone o1) t1 interval 0 False = Some r \<and> next_boundary interval (t1 + o1) (r + o1)"
proof -
  obtain r where r: "next_turn (fixed_zone o1) t1 interval t1 = Some r" "next_boundary interval (t1 + o1) (r + o1)"
    using next_turn_ok[OF assms] by blast
  have c: "checked t1 = Some t1" "checked r = Some r" "t1 < r"
    using r(2) assms(2,3) by (simp_all add: checked_def in_time_def next_boundary_def)
  have "next_loop (fixed_zone o1) t1 interval 0 r = Some r" using c by (subst next_loop.simps) simp
  then have "next_loop (fixed_zone o1) t1 interval 0 t1 = Some r" using c r(1) by (subst next_loop.simps) simp
  then show ?thesis using r(2) c by (simp add: get_next_node_start_time_def)
qed

text \<open>With any other the loop takes none.\<close>

lemma get_next_node_start_time_shifted:
  assumes "0 < shift" "in_time (t1 + shift)"
  shows "get_next_node_start_time Z t1 interval shift False = Some (t1 + shift)"
proof -
  have c: "checked (t1 + shift) = Some (t1 + shift)" using assms(2) by (simp add: checked_def in_time_def)
  then have "next_loop Z t1 interval shift t1 = Some t1" using assms(1) by (subst next_loop.simps) simp
  then show ?thesis using c by (simp add: get_next_node_start_time_def)
qed

subsection \<open>The starts of a history\<close>

lemma starts_loop_ok:
  "(\<And>k. k < n \<Longrightarrow> following (s (Suc (j + k))) = Some (s (Suc (Suc (j + k))))) \<Longrightarrow>
    starts_loop following n (s j) (s (Suc j)) = Some (map s [j..<j + n])"
proof (induction n arbitrary: j)
  case (Suc n)
  have "following (s (Suc (Suc j + k))) = Some (s (Suc (Suc (Suc j + k))))" if "k < n" for k
    using Suc.prems[of "Suc k"] that by simp
  from Suc.IH[of "Suc j", OF this] show ?case using Suc.prems[of 0]
    by (simp add: upt_conv_Cons del: upt_Suc)
qed simp

lemma get_interval_starts_ok:
  assumes "s 0 = first_start h" "\<And>k. k \<le> unat (num_nodes h) \<Longrightarrow> next_of Z h (s k) = Some (s (Suc k))" "0 < num_nodes h"
  shows "get_interval_starts_for_history Z h = Some (Some (map s [0..<unat (num_nodes h)]))"
proof -
  have "next_of Z h (first_start h) = Some (s (Suc 0))" using assms(1) assms(2)[of 0] by simp
  then show ?thesis using starts_loop_ok[of "unat (num_nodes h)" "next_of Z h" s 0] assms
    by (simp add: get_interval_starts_for_history_def)
qed

definition the_next :: "zone \<Rightarrow> ip_bw_history \<Rightarrow> nat \<Rightarrow> int" where
  "the_next Z h k = ((\<lambda>t. the (next_of Z h t)) ^^ k) (first_start h)"

lemma the_next_ok:
  assumes "reset_interval h \<in> {BANDWIDTH_MINUTE, BANDWIDTH_HOUR, BANDWIDTH_DAY, BANDWIDTH_WEEK, BANDWIDTH_MONTH}"
    and "reset_time h = 0" "is_constant_interval h = 0" "in_time (first_start h)"
    and "in_time (first_start h + (int n + 1) * (32 * 86400))"
  shows "k \<le> n \<Longrightarrow> next_of (fixed_zone o1) h (the_next (fixed_zone o1) h k) = Some (the_next (fixed_zone o1) h (Suc k)) \<and>
    next_boundary (reset_interval h) (the_next (fixed_zone o1) h k + o1) (the_next (fixed_zone o1) h (Suc k) + o1) \<and>
    first_start h \<le> the_next (fixed_zone o1) h k \<and>
    the_next (fixed_zone o1) h (Suc k) \<le> first_start h + (int k + 1) * (32 * 86400)"
proof (induction k)
  case 0
  have "(int 0 + 1) * (32 * 86400) \<le> (int n + 1) * (32 * 86400)" by (rule mult_right_mono) simp_all
  then have "in_time (first_start h + 32 * 86400)" using assms(4,5) by (simp add: in_time_def)
  from get_next_node_start_time_ok[OF assms(1,4) this, of o1] show ?case
    by (auto simp: the_next_def next_of_def assms(2,3) next_boundary_def)
next
  case (Suc k)
  then have IH: "first_start h \<le> the_next (fixed_zone o1) h (Suc k)"
    "the_next (fixed_zone o1) h (Suc k) \<le> first_start h + (int k + 1) * (32 * 86400)"
    by (auto simp: next_boundary_def)
  have "(int (Suc k) + 1) * (32 * 86400) \<le> (int n + 1) * (32 * 86400)" using Suc.prems by (intro mult_right_mono) simp_all
  then have t: "in_time (the_next (fixed_zone o1) h (Suc k))" "in_time (the_next (fixed_zone o1) h (Suc k) + 32 * 86400)"
    using IH assms(4,5) by (simp_all add: in_time_def)
  from get_next_node_start_time_ok[OF assms(1) t, of o1] obtain r where
    r: "get_next_node_start_time (fixed_zone o1) (the_next (fixed_zone o1) h (Suc k)) (reset_interval h) 0 False = Some r"
      "next_boundary (reset_interval h) (the_next (fixed_zone o1) h (Suc k) + o1) (r + o1)" by blast
  moreover have "the_next (fixed_zone o1) h (Suc (Suc k)) = r"
    using r(1) by (simp add: the_next_def next_of_def assms(2,3))
  ultimately show ?case using IH by (auto simp: next_of_def assms(2,3) next_boundary_def)
qed

subsection \<open>Properties\<close>

text \<open>For an offset of whole minutes, less than a day, \<open>get_minutes_west\<close> is the minutes local time is behind
  UTC, whatever the dates: the day of the month may be the same, one more or less, or on both sides of the end
  of a month.\<close>

theorem get_minutes_west_correct:
  assumes "utc_offset Z now = 60 * m" "\<bar>m\<bar> < 1440"
  shows "get_minutes_west Z now = - m"
  using assms by (simp add: get_minutes_west_ok)

text \<open>The last evening of February in a zone one hour ahead.\<close>

lemma get_minutes_west_correct_witness: "get_minutes_west (fixed_zone 3600) 1330558200 = - 60"
  using get_minutes_west_correct[of "fixed_zone 3600" 1330558200 60] by (simp add: fixed_zone_def)

text \<open>C22: In a time zone without daylight saving time, the starts of a history with intervals of a minute to a month and
  no reset time are as many as it has nodes, from the first start on, and each is the next start of an
  interval in local time after the one before.\<close>

theorem interval_starts_are_boundaries:
  assumes "reset_interval h \<in> {BANDWIDTH_MINUTE, BANDWIDTH_HOUR, BANDWIDTH_DAY, BANDWIDTH_WEEK, BANDWIDTH_MONTH}"
    and "reset_time h = 0" "is_constant_interval h = 0" "0 < num_nodes h" "in_time (first_start h)"
    and "in_time (first_start h + (int (unat (num_nodes h)) + 1) * (32 * 86400))"
  shows "\<exists>starts. get_interval_starts_for_history (fixed_zone o1) h = Some (Some starts) \<and>
    length starts = unat (num_nodes h) \<and> starts ! 0 = first_start h \<and>
    (\<forall>k. Suc k < length starts \<longrightarrow> next_boundary (reset_interval h) (starts ! k + o1) (starts ! Suc k + o1))"
proof -
  let ?s = "the_next (fixed_zone o1) h"
  note n = the_next_ok[OF assms(1-3,5,6), of _ o1]
  have "0 < unat (num_nodes h)" using assms(4) by (simp add: word_less_nat_alt)
  moreover have "?s 0 = first_start h" by (simp add: the_next_def)
  moreover from this have "get_interval_starts_for_history (fixed_zone o1) h = Some (Some (map ?s [0..<unat (num_nodes h)]))"
    by (rule get_interval_starts_ok) (use n assms(4) in auto)
  ultimately show ?thesis using n by (auto simp: nth_append)
qed

text \<open>Four months from the first of November 2011.\<close>

definition monthly_history :: "int \<Rightarrow> ip_bw_history" where
  "monthly_history shift = \<lparr>hist_ip = 0, num_nodes = 4, reset_interval = BANDWIDTH_MONTH, reset_time = shift, is_constant_interval = 0,
     first_start = 1320105600, first_end = 1322697600, last_end = 1330560000, history_bws = Some [1, 2, 3, 4]\<rparr>"

lemma interval_starts_are_boundaries_witness:
  "\<exists>starts. get_interval_starts_for_history (fixed_zone 0) (monthly_history 0) = Some (Some starts) \<and>
    length starts = 4 \<and> starts ! 0 = 1320105600"
  using interval_starts_are_boundaries[of "monthly_history 0" 0]
  by (auto simp: monthly_history_def in_time_def int_max_def)

text \<open>C34: With a reset time, which moves the start of an interval within it, the starts are the first one and
  then every \<open>reset_time\<close> seconds: the length of the interval is ignored, in any time zone.\<close>

theorem reset_time_replaces_interval:
  assumes "0 < reset_time h" "is_constant_interval h = 0" "0 < num_nodes h" "in_time (first_start h)"
    and "in_time (first_start h + (int (unat (num_nodes h)) + 1) * reset_time h)"
  shows "get_interval_starts_for_history Z h =
    Some (Some (map (\<lambda>k. first_start h + int k * reset_time h) [0..<unat (num_nodes h)]))"
proof (rule get_interval_starts_ok)
  fix k
  assume k: "k \<le> unat (num_nodes h)"
  have "int (Suc k) \<le> int (unat (num_nodes h)) + 1" using k by linarith
  then have "int (Suc k) * reset_time h \<le> (int (unat (num_nodes h)) + 1) * reset_time h"
    using assms(1) by (intro mult_right_mono) simp_all
  moreover have "0 \<le> int (Suc k) * reset_time h" using assms(1) by simp
  ultimately have "in_time (first_start h + int (Suc k) * reset_time h)"
    using assms(4,5) unfolding in_time_def by linarith
  then have "in_time (first_start h + int k * reset_time h + reset_time h)" by (simp add: algebra_simps)
  from get_next_node_start_time_shifted[OF assms(1) this]
  show "next_of Z h (first_start h + int k * reset_time h) = Some (first_start h + int (Suc k) * reset_time h)"
    using assms(2) by (simp add: next_of_def algebra_simps)
qed (use assms(3) in simp_all)

text \<open>Monthly intervals that begin on the 15th: the starts are two weeks apart.\<close>

lemma reset_time_replaces_interval_witness:
  "get_interval_starts_for_history (fixed_zone 3600) (monthly_history 1209600) =
    Some (Some (map (\<lambda>k. 1320105600 + int k * 1209600) [0..<4]))"
  using reset_time_replaces_interval[of "monthly_history 1209600" "fixed_zone 3600"]
  by (simp add: monthly_history_def in_time_def int_max_def del: upt_Suc set_upt)

end
