(* ===== verification/BwKernel.thy ===== *)
theory BwKernel
  imports BwTime VbootCommon
begin

text \<open>
  The exchange of bandwidth counters with the kernel module in \<open>package/libiptbwctl/src/ipt_bwctl.c\<close>: the semaphore
  that lets one query in at a time, the requests and answers in one buffer of 16384 bytes, and the conversion of
  histories between the clock of the kernel module and the local one. The system calls are a parameter with
  a state of any type. The buffer is in the byte order of the machine, which is a parameter.
\<close>

subsection \<open>The system\<close>

record 'k bw_sys =
  sys_semget :: "bool \<Rightarrow> 'k \<Rightarrow> int \<times> 'k"
  sys_setval :: "int \<Rightarrow> 'k \<Rightarrow> 'k"
  sys_getval :: "int \<Rightarrow> 'k \<Rightarrow> int \<times> 'k"
  sys_semop :: "int \<Rightarrow> int \<Rightarrow> 'k \<Rightarrow> bool \<times> 'k"
  sys_usleep :: "nat \<Rightarrow> 'k \<Rightarrow> 'k"
  sys_socket :: "'k \<Rightarrow> bool \<times> 'k"
  sys_getsockopt :: "u8 list \<Rightarrow> 'k \<Rightarrow> u8 list \<times> 'k"
  sys_setsockopt :: "u8 list \<Rightarrow> 'k \<Rightarrow> 'k"
  sys_close :: "'k \<Rightarrow> 'k"
  sys_time :: "'k \<Rightarrow> int \<times> 'k"

text \<open>The id of the semaphore is a global variable, \<open>-1\<close> at first.\<close>

record 'k bw_state =
  bandwidth_semaphore :: int
  kernel :: 'k

subsection \<open>The semaphore\<close>

text \<open>The semaphore is made, with value 1, or it is there already. The first argument is that it is to be made.\<close>

definition get_sem :: "'k bw_sys \<Rightarrow> 'k bw_state \<Rightarrow> bool \<times> 'k bw_state" where
  "get_sem S s =
     (case sys_semget S True (kernel s) of (sid, k) \<Rightarrow>
        if sid \<noteq> - 1 then (True, \<lparr>bandwidth_semaphore = sid, kernel = sys_setval S sid k\<rparr>)
        else case sys_semget S False k of (sid, k) \<Rightarrow> (sid \<noteq> - 1, \<lparr>bandwidth_semaphore = sid, kernel = k\<rparr>))"

definition get_sem_val :: "'k bw_sys \<Rightarrow> int \<Rightarrow> 'k \<Rightarrow> int \<times> 'k" where
  "get_sem_val S sid k = sys_getval S sid k"

definition lock_sem :: "'k bw_sys \<Rightarrow> int \<Rightarrow> 'k \<Rightarrow> bool \<times> 'k" where
  "lock_sem S sid k =
     (case get_sem_val S sid k of (semval, k) \<Rightarrow> if 0 < semval then sys_semop S sid (- 1) k else (False, k))"

definition unlock_sem :: "'k bw_sys \<Rightarrow> int \<Rightarrow> 'k \<Rightarrow> bool \<times> 'k" where
  "unlock_sem S sid k =
     (case get_sem_val S sid k of (semval, k) \<Rightarrow> if semval = 0 then sys_semop S sid 1 k else (True, k))"

function lock_loop :: "'k bw_sys \<Rightarrow> int \<Rightarrow> ulong \<Rightarrow> 'k \<Rightarrow> bool \<times> 'k" where
  "lock_loop S sid max_wait_milliseconds k =
     (case lock_sem S sid k of (locked, k) \<Rightarrow>
        let k = (if \<not> locked \<and> 25 < max_wait_milliseconds then sys_usleep S 25000 k else k);
            max_wait_milliseconds = (if 25 < max_wait_milliseconds then max_wait_milliseconds - 25 else 0) in
        if \<not> locked \<and> 0 < max_wait_milliseconds then lock_loop S sid max_wait_milliseconds k else (locked, k))"
  by auto
termination
  by (relation "measure (\<lambda>(S, sid, m, k). unat m)") (auto simp: unat_sub word_less_nat_alt word_le_nat_alt split: if_splits)

declare lock_loop.simps [simp del]

definition with_semaphore :: "'k bw_sys \<Rightarrow> 'k bw_state \<Rightarrow> 'k bw_state" where
  "with_semaphore S s = (if bandwidth_semaphore s = - 1 then snd (get_sem S s) else s)"

definition lock :: "'k bw_sys \<Rightarrow> ulong \<Rightarrow> 'k bw_state \<Rightarrow> bool \<times> 'k bw_state" where
  "lock S max_wait_milliseconds s =
     (let s = with_semaphore S s in
      if bandwidth_semaphore s \<noteq> - 1
      then case lock_loop S (bandwidth_semaphore s) max_wait_milliseconds (kernel s) of (locked, k) \<Rightarrow> (locked, s\<lparr>kernel := k\<rparr>)
      else (False, s))"

definition unlock :: "'k bw_sys \<Rightarrow> 'k bw_state \<Rightarrow> bool \<times> 'k bw_state" where
  "unlock S s =
     (let s = with_semaphore S s in
      if bandwidth_semaphore s \<noteq> - 1
      then case unlock_sem S (bandwidth_semaphore s) (kernel s) of (unlocked, k) \<Rightarrow> (unlocked, s\<lparr>kernel := k\<rparr>)
      else (False, s))"

subsection \<open>The items\<close>

record ip_bw =
  usage_ip :: u32
  bw :: u64

text \<open>An element of the array that is returned, which has elements of one of the two kinds.\<close>

datatype bw_item = Usage ip_bw | History ip_bw_history

definition zero_item :: "bool \<Rightarrow> bw_item" where
  "zero_item get_history =
     (if get_history then History \<lparr>hist_ip = 0, num_nodes = 0, reset_interval = 0, reset_time = 0, is_constant_interval = 0,
        first_start = 0, first_end = 0, last_end = 0, history_bws = None\<rparr>
      else Usage \<lparr>usage_ip = 0, bw = 0\<rparr>)"

text \<open>How many elements an array has whose size in bytes is computed in 32 bits.\<close>

definition array_len :: "u32 \<Rightarrow> u32 \<Rightarrow> nat" where
  "array_len element n = unat (element * n) div unat element"

definition item_size :: "bool \<Rightarrow> u32" where
  "item_size get_history = (if get_history then 33 else 12)"

definition time_of_u64 :: "u64 \<Rightarrow> int" where
  "time_of_u64 x = sint (ucast x :: u32)"

fun read_bws :: "endian \<Rightarrow> u8 list \<Rightarrow> nat \<Rightarrow> nat \<Rightarrow> u64 list option" where
  "read_bws e buf off 0 = Some []"
| "read_bws e buf off (Suc n) = do {
     b \<leftarrow> rd64 e buf off;
     bs \<leftarrow> read_bws e buf (off + 8) n;
     Some (b # bs) }"

text \<open>The shift between the clock of the kernel, which knows one offset from UTC, and the real one.\<close>

definition shift_time :: "zone \<Rightarrow> int \<Rightarrow> int \<Rightarrow> int option" where
  "shift_time Z now t = checked (t + 60 * (get_minutes_west Z t - get_minutes_west Z now))"

text \<open>
  The array of the bandwidths has one element more than is used; with more than 2^29 of them its size overflows.
\<close>

definition parse_returned_ip_data ::
    "'k bw_sys \<Rightarrow> zone \<Rightarrow> endian \<Rightarrow> bw_item list \<Rightarrow> nat \<Rightarrow> u8 list \<Rightarrow> nat \<Rightarrow> bool \<Rightarrow> int \<Rightarrow> int \<Rightarrow> u8 \<Rightarrow> 'k
      \<Rightarrow> (bw_item list \<times> nat \<times> nat \<times> 'k) option" where
  "parse_returned_ip_data S Z e out_data out_index in_buffer in_index get_history interval shift constant k = do {
     ip \<leftarrow> rd32 e in_buffer in_index;
     if \<not> get_history then do {
       b \<leftarrow> rd64 e in_buffer (in_index + 4);
       out_data \<leftarrow> buf_write out_data out_index (Usage \<lparr>usage_ip = ip, bw = b\<rparr>);
       Some (out_data, Suc out_index, in_index + 12, k) }
     else do {
       n \<leftarrow> rd32 e in_buffer (in_index + 4);
       start \<leftarrow> rd64 e in_buffer (in_index + 8);
       fst_end \<leftarrow> rd64 e in_buffer (in_index + 16);
       lst_end \<leftarrow> rd64 e in_buffer (in_index + 24);
       bws \<leftarrow> read_bws e in_buffer (in_index + 32) (unat n);
       if array_len 8 (n + 1) < unat n then None
       else do {
         let (now, k) = sys_time S k;
         start \<leftarrow> shift_time Z now (time_of_u64 start);
         fst_end \<leftarrow> shift_time Z now (time_of_u64 fst_end);
         lst_end \<leftarrow> shift_time Z now (time_of_u64 lst_end);
         out_data \<leftarrow> buf_write out_data out_index (History \<lparr>hist_ip = ip, num_nodes = n, reset_interval = interval,
           reset_time = shift, is_constant_interval = constant, first_start = start, first_end = fst_end,
           last_end = lst_end, history_bws = Some bws\<rparr>);
         Some (out_data, Suc out_index, in_index + 32 + 8 * unat n, k) } } }"

subsection \<open>Queries\<close>

definition BANDWIDTH_QUERY_LENGTH :: nat where "BANDWIDTH_QUERY_LENGTH = 16384"
definition BANDWIDTH_MAX_ID_LENGTH :: nat where "BANDWIDTH_MAX_ID_LENGTH = 50"

fun parse_items :: "'k bw_sys \<Rightarrow> zone \<Rightarrow> endian \<Rightarrow> u8 list \<Rightarrow> bool \<Rightarrow> int \<Rightarrow> int \<Rightarrow> u8 \<Rightarrow> nat \<Rightarrow> bw_item list \<Rightarrow> nat \<Rightarrow> nat \<Rightarrow> 'k
    \<Rightarrow> (bw_item list \<times> nat \<times> 'k) option" where
  "parse_items S Z e buf get_history interval shift constant 0 out_data out_index in_index k = Some (out_data, out_index, k)"
| "parse_items S Z e buf get_history interval shift constant (Suc n) out_data out_index in_index k = do {
     (out_data, out_index, in_index, k) \<leftarrow>
       parse_returned_ip_data S Z e out_data out_index buf in_index get_history interval shift constant k;
     parse_items S Z e buf get_history interval shift constant n out_data out_index in_index k }"

text \<open>
  The answer is put where the request was, so that the index of the next request is computed from what is
  there then. \<open>data_initialized\<close> is never set: every answer gets a new array, with no element from the ones
  before. The flag of the result is that the error byte is 0.
\<close>

partial_function (option) get_loop :: "'k bw_sys \<Rightarrow> zone \<Rightarrow> endian \<Rightarrow> bool \<Rightarrow> u8 list \<Rightarrow> bw_item list ptr \<Rightarrow> u32 \<Rightarrow> nat \<Rightarrow> 'k
    \<Rightarrow> (bool \<times> bw_item list ptr \<times> u32 \<times> 'k) option" where
  "get_loop S Z e get_history buf data num_ips data_index k =
     (case sys_getsockopt S buf k of (buf, k) \<Rightarrow> do {
        err \<leftarrow> mem_read buf 0 1;
        if err \<noteq> [0] then Some (False, data, num_ips, k)
        else do {
          total_ips \<leftarrow> rd32 e buf 1;
          response_ips \<leftarrow> rd32 e buf 9;
          interval \<leftarrow> rd64 e buf 13;
          shift \<leftarrow> rd64 e buf 21;
          constant \<leftarrow> mem_read buf 29 1;
          (out, data_index, k) \<leftarrow> parse_items S Z e buf get_history (time_of_u64 interval) (time_of_u64 shift) (hd constant)
            (unat response_ips) (replicate (array_len (item_size get_history) (total_ips + 1)) (zero_item get_history)) data_index 30 k;
          request_index \<leftarrow> rd32 e buf 4;
          buf \<leftarrow> wr32 e buf 4 (request_index + response_ips);
          if request_index + response_ips < total_ips then get_loop S Z e get_history buf (Some out) total_ips data_index k
          else Some (True, Some out, total_ips, k) } })"

text \<open>The request: the address, the index, the kind and the name; of an invalid address nothing is known.\<close>

definition query_request :: "endian \<Rightarrow> (string \<Rightarrow> u32 option) \<Rightarrow> u8 list \<Rightarrow> bool \<Rightarrow> string \<Rightarrow> u8 list option" where
  "query_request e inet_aton id_str get_history ip = do {
     addr \<leftarrow> (if ip = ''ALL'' then Some 0 else inet_aton ip);
     buf \<leftarrow> wr32 e (replicate BANDWIDTH_QUERY_LENGTH 0) 0 addr;
     buf \<leftarrow> wr32 e buf 4 0;
     buf \<leftarrow> mem_write buf 8 [if get_history then 1 else 0];
     mem_write buf 9 (id_str @ [0]) }"

definition get_bandwidth_data :: "'k bw_sys \<Rightarrow> zone \<Rightarrow> endian \<Rightarrow> (string \<Rightarrow> u32 option) \<Rightarrow> u8 list \<Rightarrow> bool \<Rightarrow> string \<Rightarrow> ulong \<Rightarrow> 'k bw_state
    \<Rightarrow> (bool \<times> u32 \<times> bw_item list ptr \<times> 'k bw_state) option" where
  "get_bandwidth_data S Z e inet_aton id_str get_history ip max_wait_milliseconds s =
     (let (got_lock, s) = lock S max_wait_milliseconds s;
          (sock, k) = (if got_lock then sys_socket S (kernel s) else (False, kernel s)) in do {
        buf \<leftarrow> query_request e inet_aton id_str get_history ip;
        (ok, data, num_ips, k) \<leftarrow> (if sock then get_loop S Z e get_history buf None 0 0 k else Some (True, None, 0, k));
        let k = (if sock then sys_close S k else k);
        let s = s\<lparr>kernel := k\<rparr>;
        let s = (if got_lock then snd (unlock S s) else s);
        Some (got_lock \<and> ok, num_ips, data, s) })"

definition get_all_bandwidth_history_for_rule_id where
  "get_all_bandwidth_history_for_rule_id S Z e inet_aton id_str = get_bandwidth_data S Z e inet_aton id_str True ''ALL''"
definition get_ip_bandwidth_history_for_rule_id where
  "get_ip_bandwidth_history_for_rule_id S Z e inet_aton id_str ip = get_bandwidth_data S Z e inet_aton id_str True ip"
definition get_all_bandwidth_usage_for_rule_id where
  "get_all_bandwidth_usage_for_rule_id S Z e inet_aton id_str = get_bandwidth_data S Z e inet_aton id_str False ''ALL''"
definition get_ip_bandwidth_usage_for_rule_id where
  "get_ip_bandwidth_usage_for_rule_id S Z e inet_aton id_str ip = get_bandwidth_data S Z e inet_aton id_str False ip"

subsection \<open>Updates\<close>

definition shift_back :: "zone \<Rightarrow> int \<Rightarrow> int \<Rightarrow> int option" where
  "shift_back Z now t = checked (t + (get_minutes_west Z t - get_minutes_west Z now))"

fun write_bws :: "endian \<Rightarrow> u8 list \<Rightarrow> nat \<Rightarrow> u64 list \<Rightarrow> nat \<Rightarrow> u8 list option" where
  "write_bws e buf off bws 0 = Some buf"
| "write_bws e buf off [] (Suc n) = None"
| "write_bws e buf off (b # bws) (Suc n) = do { buf \<leftarrow> wr64 e buf off b; write_bws e buf (off + 8) bws n }"

text \<open>The result is whether the buffer is full, the buffer and the index in it.\<close>

definition set_ip_block :: "'k bw_sys \<Rightarrow> zone \<Rightarrow> endian \<Rightarrow> bw_item \<Rightarrow> u8 list \<Rightarrow> u32 \<Rightarrow> u32 \<Rightarrow> 'k \<Rightarrow> (bool \<times> u8 list \<times> u32 \<times> 'k) option" where
  "set_ip_block S Z e ip_block_data output_buffer current_output_index output_buffer_length k =
     (case ip_block_data of
        History h \<Rightarrow>
          if output_buffer_length < current_output_index + (32 + 8 * num_nodes h)
          then Some (True, output_buffer, current_output_index, k)
          else do {
            buf \<leftarrow> wr32 e output_buffer (unat current_output_index) (hist_ip h);
            buf \<leftarrow> wr32 e buf (unat current_output_index + 4) (num_nodes h);
            let (now, k) = sys_time S k;
            start \<leftarrow> shift_back Z now (first_start h);
            fst_end \<leftarrow> shift_back Z now (first_end h);
            lst_end \<leftarrow> shift_back Z now (last_end h);
            buf \<leftarrow> wr64 e buf (unat current_output_index + 8) (word_of_int start);
            buf \<leftarrow> wr64 e buf (unat current_output_index + 16) (word_of_int fst_end);
            buf \<leftarrow> wr64 e buf (unat current_output_index + 24) (word_of_int lst_end);
            buf \<leftarrow> (case history_bws h of
                None \<Rightarrow> if num_nodes h = 0 then Some buf else None
              | Some bws \<Rightarrow> write_bws e buf (unat current_output_index + 32) bws (unat (num_nodes h)));
            Some (False, buf, current_output_index + (32 + 8 * num_nodes h), k) }
      | Usage u \<Rightarrow>
          if output_buffer_length < current_output_index + 12 then Some (True, output_buffer, current_output_index, k)
          else do {
            buf \<leftarrow> wr32 e output_buffer (unat current_output_index) (usage_ip u);
            buf \<leftarrow> wr64 e buf (unat current_output_index + 4) (bw u);
            Some (False, buf, current_output_index + 12, k) })"

definition item_at :: "'a list \<Rightarrow> nat \<Rightarrow> 'a option" where
  "item_at xs i = (if i < length xs then Some (xs ! i) else None)"

text \<open>The items of one buffer, from the index \<open>ip_index\<close> on; the first argument is how many are left.\<close>

fun fill_buffer :: "nat \<Rightarrow> 'k bw_sys \<Rightarrow> zone \<Rightarrow> endian \<Rightarrow> bw_item list \<Rightarrow> u8 list \<Rightarrow> u32 \<Rightarrow> u32 \<Rightarrow> u32 \<Rightarrow> 'k
    \<Rightarrow> (u8 list \<times> u32 \<times> u32 \<times> 'k) option" where
  "fill_buffer 0 S Z e data buf buf_index ip_index num_ips_in_buffer k = Some (buf, ip_index, num_ips_in_buffer, k)"
| "fill_buffer (Suc n) S Z e data buf buf_index ip_index num_ips_in_buffer k = do {
     next_data \<leftarrow> item_at data (unat ip_index);
     (buffer_full, buf, buf_index, k) \<leftarrow> set_ip_block S Z e next_data buf buf_index (of_nat BANDWIDTH_QUERY_LENGTH) k;
     if buffer_full then Some (buf, ip_index, num_ips_in_buffer, k)
     else fill_buffer n S Z e data buf buf_index (ip_index + 1) (num_ips_in_buffer + 1) k }"

text \<open>
  One turn makes a buffer and sends it. The number of its items is kept in the buffer; it is written there at
  the end. The first result of the turn is that nothing is left.
\<close>

definition set_turn :: "'k bw_sys \<Rightarrow> zone \<Rightarrow> endian \<Rightarrow> bw_item list \<Rightarrow> u32 \<Rightarrow> u8 list \<Rightarrow> 'k \<Rightarrow> (bool \<times> u8 list \<times> 'k) option" where
  "set_turn S Z e data total_ips buf k = do {
     ip_index \<leftarrow> rd32 e buf 4;
     let buf = take 72 buf @ replicate (BANDWIDTH_QUERY_LENGTH - 72) 0;
     (buf, ip_index, num_ips_in_buffer, k) \<leftarrow>
       fill_buffer (unat total_ips - unat ip_index) S Z e data buf 72 ip_index 0 k;
     buf \<leftarrow> wr32 e buf 8 num_ips_in_buffer;
     let k = sys_setsockopt S buf k;
     buf \<leftarrow> wr32 e buf 4 ip_index;
     Some (total_ips \<le> ip_index, buf, k) }"

partial_function (option) set_loop :: "'k bw_sys \<Rightarrow> zone \<Rightarrow> endian \<Rightarrow> bw_item list \<Rightarrow> u32 \<Rightarrow> u8 list \<Rightarrow> 'k \<Rightarrow> 'k option" where
  "set_loop S Z e data total_ips buf k = do {
     (finished, buf, k) \<leftarrow> set_turn S Z e data total_ips buf k;
     if finished then Some k else set_loop S Z e data total_ips buf k }"

text \<open>The first \<open>n\<close> turns of the loop, when it takes one more after them.\<close>

fun set_turns :: "nat \<Rightarrow> 'k bw_sys \<Rightarrow> zone \<Rightarrow> endian \<Rightarrow> bw_item list \<Rightarrow> u32 \<Rightarrow> u8 list \<Rightarrow> 'k \<Rightarrow> (u8 list \<times> 'k) option" where
  "set_turns 0 S Z e data total_ips buf k = Some (buf, k)"
| "set_turns (Suc n) S Z e data total_ips buf k = do {
     (finished, buf, k) \<leftarrow> set_turn S Z e data total_ips buf k;
     if finished then None else set_turns n S Z e data total_ips buf k }"

text \<open>The name is copied with its full length, whatever it has.\<close>

definition update_header :: "endian \<Rightarrow> u8 list \<Rightarrow> bool \<Rightarrow> bool \<Rightarrow> u32 \<Rightarrow> int \<Rightarrow> u8 list option" where
  "update_header e id_cells zero_unset set_history num_ips last_backup = do {
     buf \<leftarrow> wr32 e (replicate BANDWIDTH_QUERY_LENGTH 0) 0 num_ips;
     buf \<leftarrow> mem_write buf 12 [if set_history then 1 else 0, if zero_unset then 1 else 0];
     buf \<leftarrow> wr64 e buf 14 (word_of_int last_backup);
     name \<leftarrow> mem_read id_cells 0 BANDWIDTH_MAX_ID_LENGTH;
     mem_write buf 22 (name[BANDWIDTH_MAX_ID_LENGTH - 1 := 0]) }"

definition set_bandwidth_data :: "'k bw_sys \<Rightarrow> zone \<Rightarrow> endian \<Rightarrow> u8 list \<Rightarrow> bool \<Rightarrow> bool \<Rightarrow> u32 \<Rightarrow> int \<Rightarrow> bw_item list \<Rightarrow> ulong \<Rightarrow> 'k bw_state
    \<Rightarrow> (bool \<times> 'k bw_state) option" where
  "set_bandwidth_data S Z e id_cells zero_unset set_history num_ips last_backup data max_wait_milliseconds s =
     (let (got_lock, s) = lock S max_wait_milliseconds s;
          (sock, k) = (if got_lock then sys_socket S (kernel s) else (False, kernel s)) in do {
        buf \<leftarrow> update_header e id_cells zero_unset set_history num_ips last_backup;
        k \<leftarrow> (if sock then set_loop S Z e data num_ips buf k else Some k);
        let k = (if sock then sys_close S k else k);
        let s = s\<lparr>kernel := k\<rparr>;
        let s = (if got_lock then snd (unlock S s) else s);
        Some (got_lock, s) })"

definition set_bandwidth_history_for_rule_id where
  "set_bandwidth_history_for_rule_id S Z e id_cells zero_unset num_ips data =
     set_bandwidth_data S Z e id_cells zero_unset True num_ips 0 (map History data)"
definition set_bandwidth_usage_for_rule_id where
  "set_bandwidth_usage_for_rule_id S Z e id_cells zero_unset num_ips last_backup data =
     set_bandwidth_data S Z e id_cells zero_unset False num_ips last_backup (map Usage data)"

subsection \<open>Bytes in the buffer\<close>

named_theorems bw_facts \<open>fields of a buffer that is built from pieces\<close>

lemma mem_read_shift [bw_facts]: "mem_read (xs @ ys) (length xs + off) n = mem_read ys off n"
  by (simp add: mem_read_def)

lemma rd32_front [bw_facts]: "rd32 e (store32 e x @ ys) 0 = Some x"
  by (simp add: rd32_def mem_read_def load_store32)

lemma rd64_front [bw_facts]: "rd64 e (store64 e x @ ys) 0 = Some x"
  by (simp add: rd64_def mem_read_def load_store64)

lemma rd_shift [bw_facts]:
  "rd32 e (xs @ ys) (length xs + off) = rd32 e ys off" "rd64 e (xs @ ys) (length xs + off) = rd64 e ys off"
  by (simp_all add: rd32_def rd64_def mem_read_shift)

text \<open>Past a piece of known length.\<close>

lemma rd_past [bw_facts]:
  "length xs \<le> off \<Longrightarrow> rd32 e (xs @ ys) off = rd32 e ys (off - length xs)"
  "length xs \<le> off \<Longrightarrow> rd64 e (xs @ ys) off = rd64 e ys (off - length xs)"
  "length xs \<le> off \<Longrightarrow> mem_read (xs @ ys) off n = mem_read ys (off - length xs) n"
  using rd_shift[of e xs ys "off - length xs"] mem_read_shift[of xs ys "off - length xs" n] by simp_all

lemma read_bws_shift: "read_bws e (xs @ ys) (length xs + off) n = read_bws e ys off n"
proof (induction n arbitrary: off)
  case (Suc n)
  show ?case using Suc.IH[of "off + 8"] by (simp add: rd_shift add.assoc)
qed simp

lemma read_bws_past: "length xs \<le> off \<Longrightarrow> read_bws e (xs @ ys) off n = read_bws e ys (off - length xs) n"
  using read_bws_shift[of e xs ys "off - length xs" n] by simp

definition bws_bytes :: "endian \<Rightarrow> u64 list \<Rightarrow> u8 list" where
  "bws_bytes e bws = concat (map (store64 e) bws)"

lemma bws_bytes_length [simp]: "length (bws_bytes e bws) = 8 * length bws"
  by (induction bws) (simp_all add: bws_bytes_def)

lemma read_bws_front: "read_bws e (bws_bytes e bws @ ys) 0 (length bws) = Some bws"
proof (induction bws)
  case (Cons b bws)
  have "read_bws e (store64 e b @ (bws_bytes e bws @ ys)) (length (store64 e b) + 0) (length bws) = Some bws"
    unfolding read_bws_shift by (rule Cons)
  then show ?case by (simp add: bws_bytes_def rd64_front)
qed simp

subsection \<open>The bytes of an item\<close>

fun item_bytes :: "endian \<Rightarrow> bw_item \<Rightarrow> u8 list" where
  "item_bytes e (Usage u) = store32 e (usage_ip u) @ store64 e (bw u)"
| "item_bytes e (History h) = store32 e (hist_ip h) @ store32 e (num_nodes h) @ store64 e (word_of_int (first_start h)) @
     store64 e (word_of_int (first_end h)) @ store64 e (word_of_int (last_end h)) @ bws_bytes e (the (history_bws h))"

text \<open>What is needed of an item: its times are of 32 bits, and it has its bandwidths.\<close>

fun item_ok :: "bool \<Rightarrow> bw_item \<Rightarrow> bool" where
  "item_ok get_history (Usage u) = (\<not> get_history)"
| "item_ok get_history (History h) = (get_history \<and> in_time (first_start h) \<and> in_time (first_end h) \<and> in_time (last_end h) \<and>
     history_bws h \<noteq> None \<and> length (the (history_bws h)) = unat (num_nodes h) \<and> unat (num_nodes h) < 2 ^ 28)"

text \<open>An item of the kernel as the library gives it to its caller.\<close>

fun received :: "zone \<Rightarrow> int \<Rightarrow> int \<Rightarrow> int \<Rightarrow> u8 \<Rightarrow> bw_item \<Rightarrow> bw_item option" where
  "received Z now interval shift constant (Usage u) = Some (Usage u)"
| "received Z now interval shift constant (History h) = do {
     start \<leftarrow> shift_time Z now (first_start h);
     fst_end \<leftarrow> shift_time Z now (first_end h);
     lst_end \<leftarrow> shift_time Z now (last_end h);
     Some (History (h\<lparr>reset_interval := interval, reset_time := shift, is_constant_interval := constant,
       first_start := start, first_end := fst_end, last_end := lst_end\<rparr>)) }"

lemma time_of_u64_of_int: "in_time t \<Longrightarrow> time_of_u64 (word_of_int t) = t"
proof -
  assume t: "in_time t"
  have "(ucast (word_of_int t :: u64) :: u32) = word_of_int t"
    by (rule bit_word_eqI) (simp add: bit_simps)
  then have "time_of_u64 (word_of_int t) = signed_take_bit 31 t" by (simp add: time_of_u64_def signed_of_int)
  also have "\<dots> = t" using t by (intro signed_take_bit_int_eq_self) (simp_all add: in_time_def int_max_def)
  finally show ?thesis .
qed

lemma array_len_ok:
  assumes "unat n < 2 ^ 28"
  shows "unat n \<le> array_len 8 (n + 1)"
proof -
  have "unat (n + 1) = unat n + 1" using assms by (subst unat_add_lem[THEN iffD1]) simp_all
  moreover from this have "unat (8 * (n + 1)) = 8 * (unat n + 1)" using assms by (subst unat_mult_lem[THEN iffD1]) simp_all
  ultimately show ?thesis by (simp add: array_len_def)
qed

lemma parse_item:
  assumes "item_ok get_history it" "received Z now interval shift constant it = Some it'" "\<And>k. sys_time S k = (now, k)"
    and "buf = pre @ item_bytes e it @ post" "out_index < length out_data"
  shows "parse_returned_ip_data S Z e out_data out_index buf (length pre) get_history interval shift constant k =
    Some (out_data[out_index := it'], Suc out_index, length pre + length (item_bytes e it), k)"
proof (cases it)
  case (Usage u)
  with assms(1,2) have "\<not> get_history" "it' = Usage u" by simp_all
  then show ?thesis using Usage assms(4,5) rd_shift[of e pre _ 0] rd_shift[of e pre _ 4]
    by (cases u) (simp add: parse_returned_ip_data_def bw_facts buf_write_Some)
next
  case (History h)
  obtain bws where b: "history_bws h = Some bws" "length bws = unat (num_nodes h)" "unat (num_nodes h) < 2 ^ 28"
    using assms(1) History by auto
  obtain start fst_end lst_end where t: "shift_time Z now (first_start h) = Some start" "shift_time Z now (first_end h) = Some fst_end"
    "shift_time Z now (last_end h) = Some lst_end" and it': "it' = bw_item.History (h\<lparr>reset_interval := interval, reset_time := shift,
      is_constant_interval := constant, first_start := start, first_end := fst_end, last_end := lst_end\<rparr>)"
    using assms(2) History by (auto split: bind_splits)
  have "(array_len 8 (num_nodes h + 1) < unat (num_nodes h)) = False" using array_len_ok[OF b(3)] by simp
  moreover have "rd32 e buf (length pre) = Some (hist_ip h)" "rd32 e buf (length pre + 4) = Some (num_nodes h)"
    "rd64 e buf (length pre + 8) = Some (word_of_int (first_start h))" "rd64 e buf (length pre + 16) = Some (word_of_int (first_end h))"
    "rd64 e buf (length pre + 24) = Some (word_of_int (last_end h))" "read_bws e buf (length pre + 32) (unat (num_nodes h)) = Some bws"
    using rd_shift(1)[of e pre _ 0] read_bws_front[of e bws] History assms(4) b
    by (simp_all add: bw_facts read_bws_past)
  moreover have "time_of_u64 (word_of_int (first_start h)) = first_start h" "time_of_u64 (word_of_int (first_end h)) = first_end h"
    "time_of_u64 (word_of_int (last_end h)) = last_end h"
    using assms(1) History by (simp_all add: time_of_u64_of_int)
  moreover have "get_history" using assms(1) History by simp
  ultimately show ?thesis using t it' b History assms(3,5)
    by (simp add: parse_returned_ip_data_def buf_write_Some) (cases h, simp)
qed

subsection \<open>An answer\<close>

lemma parse_items_ok:
  assumes "\<And>k. sys_time S k = (now, k)"
  shows "list_all2 (\<lambda>it it'. item_ok get_history it \<and> received Z now interval shift constant it = Some it') items outs \<Longrightarrow>
    length outs \<le> length zs \<Longrightarrow>
    parse_items S Z e (pre @ concat (map (item_bytes e) items) @ post) get_history interval shift constant (length items)
      (xs @ zs) (length xs) (length pre) k = Some (xs @ outs @ drop (length outs) zs, length xs + length outs, k)"
proof (induction items outs arbitrary: pre xs zs rule: list_all2_induct)
  case (Cons it items it' outs)
  obtain z zs' where z: "zs = z # zs'" using Cons.prems by (cases zs) auto
  have "parse_returned_ip_data S Z e (xs @ zs) (length xs) (pre @ concat (map (item_bytes e) (it # items)) @ post) (length pre)
      get_history interval shift constant k = Some ((xs @ [it']) @ zs', Suc (length xs), length (pre @ item_bytes e it), k)"
    using Cons.hyps(1) assms z
    by (subst parse_item[of _ it _ now _ _ _ it' _ _ pre e "concat (map (item_bytes e) items) @ post"]) simp_all
  moreover have "parse_items S Z e ((pre @ item_bytes e it) @ concat (map (item_bytes e) items) @ post) get_history interval shift constant
      (length items) ((xs @ [it']) @ zs') (length (xs @ [it'])) (length (pre @ item_bytes e it)) k =
      Some ((xs @ [it']) @ outs @ drop (length outs) zs', length (xs @ [it']) + length outs, k)"
    using Cons.prems z by (intro Cons.IH) simp
  ultimately show ?case by (simp add: z)
qed simp

text \<open>The bytes of an answer without error, with room after it in the buffer.\<close>

definition answer_head :: "endian \<Rightarrow> u32 \<Rightarrow> u32 \<Rightarrow> u32 \<Rightarrow> u64 \<Rightarrow> u64 \<Rightarrow> u8 \<Rightarrow> u8 list" where
  "answer_head e all_ips start num interval shift constant =
     [0] @ store32 e all_ips @ store32 e start @ store32 e num @ store64 e interval @ store64 e shift @ [constant]"

definition answer :: "endian \<Rightarrow> u32 \<Rightarrow> u32 \<Rightarrow> bw_item list \<Rightarrow> u64 \<Rightarrow> u64 \<Rightarrow> u8 \<Rightarrow> u8 list \<Rightarrow> u8 list" where
  "answer e all_ips start items interval shift constant rest =
     answer_head e all_ips start (of_nat (length items)) interval shift constant @ concat (map (item_bytes e) items) @ rest"

text \<open>What \<open>*request_index\<close> is after an answer: a part of the total and a part of the start of the answer.\<close>

definition stale_index :: "endian \<Rightarrow> u32 \<Rightarrow> u32 \<Rightarrow> u32" where
  "stale_index e all_ips start = load32 e (drop 3 (store32 e all_ips) @ take 3 (store32 e start))"

lemma rd_Cons [bw_facts]:
  "0 < off \<Longrightarrow> rd32 e (b # ys) off = rd32 e ys (off - 1)" "0 < off \<Longrightarrow> rd64 e (b # ys) off = rd64 e ys (off - 1)"
  using rd_past(1,2)[of "[b]" off e ys] by simp_all

lemma answer_fields:
  "mem_read (answer e all_ips start items interval shift constant rest) 0 1 = Some [0]"
  "rd32 e (answer e all_ips start items interval shift constant rest) 1 = Some all_ips"
  "rd32 e (answer e all_ips start items interval shift constant rest) 4 = Some (stale_index e all_ips start)"
  "rd32 e (answer e all_ips start items interval shift constant rest) 9 = Some (of_nat (length items))"
  "rd64 e (answer e all_ips start items interval shift constant rest) 13 = Some interval"
  "rd64 e (answer e all_ips start items interval shift constant rest) 21 = Some shift"
  "mem_read (answer e all_ips start items interval shift constant rest) 29 1 = Some [constant]"
  "length (answer_head e all_ips start num interval shift constant) = 30"
proof -
  show "rd32 e (answer e all_ips start items interval shift constant rest) 4 = Some (stale_index e all_ips start)"
    by (simp add: rd32_def mem_read_def answer_def answer_head_def stale_index_def)
qed (simp_all only: answer_def answer_head_def append.assoc, simp_all add: bw_facts, simp_all add: mem_read_def)

lemma array_len_items:
  assumes "unat all_ips < 2 ^ 26"
  shows "array_len (item_size get_history) (all_ips + 1) = unat all_ips + 1"
proof -
  have "unat (all_ips + 1) = unat all_ips + 1" using assms by (subst unat_add_lem[THEN iffD1]) simp_all
  moreover from this have "unat (item_size get_history * (all_ips + 1)) = unat (item_size get_history) * (unat all_ips + 1)"
    using assms by (subst unat_mult_lem[THEN iffD1]) (simp_all add: item_size_def)
  ultimately show ?thesis by (simp add: array_len_def item_size_def)
qed

lemma get_turn:
  assumes "sys_getsockopt S req k = (answer e all_ips start items interval shift constant rest, k2)"
    and "\<And>k. sys_time S k = (now, k)" "unat all_ips < 2 ^ 26" "di + length items \<le> unat all_ips + 1"
    and "list_all2 (\<lambda>it it'. item_ok get_history it \<and>
      received Z now (time_of_u64 interval) (time_of_u64 shift) constant it = Some it') items outs"
  shows "\<exists>buf'. get_loop S Z e get_history req data num_ips di k =
    (let out = replicate di (zero_item get_history) @ outs @ replicate (unat all_ips + 1 - di - length items) (zero_item get_history) in
     if stale_index e all_ips start + of_nat (length items) < all_ips
     then get_loop S Z e get_history buf' (Some out) all_ips (di + length items) k2
     else Some (True, Some out, all_ips, k2))"
proof -
  let ?a = "answer e all_ips start items interval shift constant rest" and ?z = "zero_item get_history"
  have lo: "length outs = length items" using assms(5) by (simp add: list_all2_lengthD)
  have u: "unat (of_nat (length items) :: u32) = length items" using assms(3,4) by (simp add: unsigned_of_nat take_bit_nat_eq_self_iff)
  have r: "replicate (unat all_ips + 1) ?z = replicate di ?z @ replicate (unat all_ips + 1 - di) ?z"
    using assms(4) by (simp add: replicate_add[symmetric])
  have "parse_items S Z e ?a get_history (time_of_u64 interval) (time_of_u64 shift) constant (length items)
      (replicate (unat all_ips + 1) ?z) di 30 k2 =
      Some (replicate di ?z @ outs @ replicate (unat all_ips + 1 - di - length items) ?z, di + length items, k2)"
    using parse_items_ok[OF assms(2) assms(5), of "replicate (unat all_ips + 1 - di) ?z" e "answer_head e all_ips start (of_nat (length items)) interval shift constant" rest "replicate di ?z" k2]
      assms(4) lo unfolding r answer_def answer_fields(8) by simp
  moreover obtain buf' where "wr32 e ?a 4 (stale_index e all_ips start + of_nat (length items)) = Some buf'"
    by (simp add: wr32_def mem_write_def answer_def answer_fields(8))
  ultimately show ?thesis using assms(1)
    by (subst get_loop.simps) (auto simp: answer_fields array_len_items[OF assms(3)] u Let_def simp del: One_nat_def)
qed

lemma top_byte_0: "unat (x :: u32) < 2 ^ 24 \<Longrightarrow> (ucast (drop_bit 24 x) :: u8) = 0"
proof -
  assume "unat x < 2 ^ 24"
  then have "unat (drop_bit 24 x) = 0" by (subst unat_drop_bit_eq) (simp add: drop_bit_eq_div)
  then have "drop_bit 24 x = 0" by (simp only: unat_eq_0)
  then show ?thesis by simp
qed

lemma stale_index_Little:
  assumes "unat all_ips < 2 ^ 24"
  shows "stale_index Little all_ips start = push_bit 8 start"
proof -
  have "stale_index Little all_ips start = push_bit 8 (ucast (ucast start :: u8)) OR
      push_bit 16 (ucast (ucast (drop_bit 8 start) :: u8)) OR push_bit 24 (ucast (ucast (drop_bit 16 start) :: u8))"
    using top_byte_0[OF assms] by (simp add: stale_index_def UNPACK32_def buf_w_def)
  also have "\<dots> = push_bit 8 start"
  proof (rule bit_word_eqI)
    fix n assume "n < LENGTH(32)"
    then have n: "n < 32" by simp
    show "bit (push_bit 8 (ucast (ucast start :: u8)) OR push_bit 16 (ucast (ucast (drop_bit 8 start) :: u8)) OR
        push_bit 24 (ucast (ucast (drop_bit 16 start) :: u8)) :: u32) n = bit (push_bit 8 start) n"
      using n by (cases "n < 8"; cases "n < 16"; cases "n < 24") (auto simp: bit_simps)
  qed
  finally show ?thesis .
qed

lemma stale_index_Big: "unat (stale_index Big all_ips 0) \<le> 255 * 2 ^ 24"
proof -
  define b where "b = (ucast (ucast all_ips :: u8) :: u32)"
  have b: "unat b < 256" unfolding b_def unat_ucast_u8 using unsigned_less[of "ucast all_ips :: u8"] by simp
  have "stale_index Big all_ips 0 = b * 2 ^ 24"
    by (simp add: stale_index_def UNPACK32_def PACK32_def b_def push_bit_eq_mult)
  moreover have "unat (b * 2 ^ 24) = unat b * 2 ^ 24" using b by (subst unat_mult_lem[THEN iffD1]) simp_all
  ultimately show ?thesis using b by simp
qed

lemma not_less_sum: "unat (a :: u32) + unat b < 2 ^ 32 \<Longrightarrow> \<not> a + b < b"
  by (simp add: word_less_nat_alt unat_word_ariths)

lemma first_answer_is_last:
  assumes "unat all_ips < 2 ^ 24"
  shows "\<not> stale_index e all_ips 0 + all_ips < all_ips"
  using assms stale_index_Little[OF assms, of 0] stale_index_Big[of all_ips]
  by (cases e) (auto intro!: not_less_sum)

subsection \<open>A buffer that is sent\<close>

fun item_len :: "bw_item \<Rightarrow> nat" where
  "item_len (Usage u) = 12"
| "item_len (History h) = 32 + 8 * unat (num_nodes h)"

text \<open>An item of the caller as it is sent to the kernel.\<close>

fun sent :: "zone \<Rightarrow> int \<Rightarrow> bw_item \<Rightarrow> bw_item option" where
  "sent Z now (Usage u) = Some (Usage u)"
| "sent Z now (History h) = do {
     start \<leftarrow> shift_back Z now (first_start h);
     fst_end \<leftarrow> shift_back Z now (first_end h);
     lst_end \<leftarrow> shift_back Z now (last_end h);
     Some (History (h\<lparr>first_start := start, first_end := fst_end, last_end := lst_end\<rparr>)) }"

lemma sent_len: "sent Z now it = Some it' \<Longrightarrow> item_len it' = item_len it"
  by (cases it) (auto split: bind_splits)

lemma item_bytes_length: "item_ok b it \<Longrightarrow> length (item_bytes e it) = item_len it"
  by (cases it) auto

lemma wr_front:
  "length xs = off \<Longrightarrow> wr32 e (xs @ replicate (4 + n) 0) off x = Some ((xs @ store32 e x) @ replicate n 0)"
  "length xs = off \<Longrightarrow> wr64 e (xs @ replicate (8 + n) 0) off y = Some ((xs @ store64 e y) @ replicate n 0)"
  by (simp_all add: wr32_def wr64_def mem_write_def)

lemma write_bws_front:
  "write_bws e (xs @ replicate (8 * length bws + n) 0) (length xs) bws (length bws) = Some ((xs @ bws_bytes e bws) @ replicate n 0)"
proof (induction bws arbitrary: xs)
  case (Cons b bws)
  have "wr64 e (xs @ replicate (8 * length (b # bws) + n) 0) (length xs) b =
      Some ((xs @ store64 e b) @ replicate (8 * length bws + n) 0)"
    using wr_front(2)[of xs "length xs" e "8 * length bws + n" b] by (simp add: add.assoc)
  then show ?case using Cons.IH[of "xs @ store64 e b"] by (simp add: bws_bytes_def)
qed (simp add: bws_bytes_def)

lemma set_block_ok:
  assumes "item_ok b it" "sent Z now it = Some it'" "\<And>k. sys_time S k = (now, k)" "length pre = unat i" "unat i + z = 16384"
  shows "set_ip_block S Z e it (pre @ replicate z 0) i (of_nat BANDWIDTH_QUERY_LENGTH) k =
    Some (if item_len it \<le> z then (False, (pre @ item_bytes e it') @ replicate (z - item_len it) 0, i + of_nat (item_len it), k)
      else (True, pre @ replicate z 0, i, k))"
proof -
  have len: "(of_nat BANDWIDTH_QUERY_LENGTH < i + of_nat (item_len it) :: bool) \<longleftrightarrow> \<not> item_len it \<le> z"
  proof -
    have "item_len it < 2 ^ 31 + 32" using assms(1) by (cases it) auto
    then have u: "unat (of_nat (item_len it) :: u32) = item_len it" by (simp add: unsigned_of_nat take_bit_nat_eq_self_iff)
    have "unat i + item_len it < 2 ^ 32" using \<open>item_len it < 2 ^ 31 + 32\<close> assms(5) by simp
    then have "unat (i + of_nat (item_len it)) = unat i + item_len it"
      using u by (subst unat_add_lem[THEN iffD1]) simp_all
    then show ?thesis using assms(5) by (simp add: word_less_nat_alt BANDWIDTH_QUERY_LENGTH_def) linarith
  qed
  show ?thesis
  proof (cases it)
    case (Usage u)
    with assms(2) have it': "it' = Usage u" by simp
    show ?thesis
    proof (cases "12 \<le> z")
      case True
      then obtain n where n: "z = 12 + n" using le_Suc_ex by blast
      have "wr32 e (pre @ replicate z 0) (unat i) (usage_ip u) = Some ((pre @ store32 e (usage_ip u)) @ replicate (8 + n) 0)"
        using wr_front(1)[of pre "unat i" e "8 + n"] assms(4) n by (simp add: add.assoc)
      moreover have "wr64 e ((pre @ store32 e (usage_ip u)) @ replicate (8 + n) 0) (unat i + 4) (bw u) =
          Some (((pre @ store32 e (usage_ip u)) @ store64 e (bw u)) @ replicate n 0)"
        using assms(4) by (intro wr_front(2)) simp
      ultimately show ?thesis using len True Usage it' n by (simp add: set_ip_block_def)
    next
      case False
      then show ?thesis using len Usage by (simp add: set_ip_block_def)
    qed
  next
    case (History h)
    obtain bws where b: "history_bws h = Some bws" "length bws = unat (num_nodes h)"
      using assms(1) History by auto
    obtain start fst_end lst_end where t: "shift_back Z now (first_start h) = Some start" "shift_back Z now (first_end h) = Some fst_end"
      "shift_back Z now (last_end h) = Some lst_end" and it': "it' = bw_item.History (h\<lparr>first_start := start, first_end := fst_end, last_end := lst_end\<rparr>)"
      using assms(2) History by (auto split: bind_splits)
    have w: "of_nat (item_len it) = 32 + 8 * num_nodes h" using History by simp
    show ?thesis
    proof (cases "item_len it \<le> z")
      case True
      then obtain n where "z = 32 + 8 * length bws + n" using History b(2) le_Suc_ex by auto
      then have z: "z = 4 + (4 + (8 + (8 + (8 + (8 * length bws + n)))))" by simp
      define p1 p2 where "p1 = pre @ store32 e (hist_ip h)" and "p2 = p1 @ store32 e (num_nodes h)"
      define p3 p4 where "p3 = p2 @ store64 e (word_of_int start)" and "p4 = p3 @ store64 e (word_of_int fst_end)"
      define p5 where "p5 = p4 @ store64 e (word_of_int lst_end)"
      have l: "length p1 = unat i + 4" "length p2 = unat i + 8" "length p3 = unat i + 16" "length p4 = unat i + 24" "length p5 = unat i + 32"
        using assms(4) by (simp_all add: p1_def p2_def p3_def p4_def p5_def)
      note f = wr_front(1)[OF assms(4), where e = e and x = "hist_ip h", folded p1_def] wr_front(1)[OF l(1), where e = e and x = "num_nodes h", folded p2_def]
        wr_front(2)[OF l(2), where e = e and y = "word_of_int start", folded p3_def] wr_front(2)[OF l(3), where e = e and y = "word_of_int fst_end", folded p4_def]
        wr_front(2)[OF l(4), where e = e and y = "word_of_int lst_end", folded p5_def]
        write_bws_front[of e p5 bws n, unfolded l(5) b(2)]
      have "z - item_len it = n" using z History b(2) by simp
      moreover have "pre @ item_bytes e it' = p5 @ bws_bytes e bws"
        by (simp add: it' p1_def p2_def p3_def p4_def p5_def b(1))
      moreover have "(of_nat BANDWIDTH_QUERY_LENGTH < i + (32 + 8 * num_nodes h)) = False" using len True w by simp
      ultimately show ?thesis using True
        unfolding set_ip_block_def History bw_item.case z f b(2) w[unfolded History]
        by (simp only: bind.simps option.case f b t assms(3) Let_def prod.case if_False if_True simp_thms)
    next
      case False
      then show ?thesis using len w History by (simp add: set_ip_block_def)
    qed
  qed
qed

subsection \<open>The buffers of an update\<close>

definition sendable :: "bool \<Rightarrow> zone \<Rightarrow> int \<Rightarrow> bw_item \<Rightarrow> bw_item \<Rightarrow> bool" where
  "sendable b Z now it it' \<longleftrightarrow> item_ok b it \<and> sent Z now it = Some it'"

lemma sendable_bytes: "sendable b Z now it it' \<Longrightarrow> length (item_bytes e it') = item_len it' \<and> item_len it' = item_len it"
  by (cases it) (auto simp: sendable_def split: bind_splits)

fun take_fit :: "nat \<Rightarrow> bw_item list \<Rightarrow> bw_item list" where
  "take_fit room [] = []"
| "take_fit room (it # its) = (if item_len it \<le> room then it # take_fit (room - item_len it) its else [])"

definition items_len :: "bw_item list \<Rightarrow> nat" where
  "items_len its = (\<Sum>it \<leftarrow> its. item_len it)"

lemma take_fit_prefix: "take_fit room its = take (length (take_fit room its)) its \<and> length (take_fit room its) \<le> length its \<and>
    items_len (take_fit room its) \<le> room"
  by (induction room its rule: take_fit.induct) (auto simp: items_len_def)

definition items_bytes :: "endian \<Rightarrow> bw_item list \<Rightarrow> u8 list" where
  "items_bytes e its = concat (map (item_bytes e) its)"

lemma fill_buffer_ok:
  assumes "\<And>k. sys_time S k = (now, k)"
  shows "list_all2 (sendable b Z now) rest outs \<Longrightarrow> length front = unat ip_index \<Longrightarrow> length front + length rest < 2 ^ 32 \<Longrightarrow>
    length pre = unat i \<Longrightarrow> unat i + z = 16384 \<Longrightarrow>
    fill_buffer (length rest) S Z e (front @ rest) (pre @ replicate z 0) i ip_index cnt k =
      Some ((pre @ items_bytes e (take_fit z outs)) @ replicate (z - items_len (take_fit z outs)) 0,
        ip_index + of_nat (length (take_fit z outs)), cnt + of_nat (length (take_fit z outs)), k)"
proof (induction rest outs arbitrary: front ip_index pre i z cnt rule: list_all2_induct)
  case (Cons it rest it' outs)
  have s: "item_ok b it" "sent Z now it = Some it'" using Cons.hyps(1) by (simp_all add: sendable_def)
  note l = sendable_bytes[OF Cons.hyps(1), of e]
  have d: "item_at (front @ it # rest) (unat ip_index) = Some it"
    using Cons.prems(1) by (simp add: item_at_def nth_append)
  note step = set_block_ok[OF s assms Cons.prems(3,4), of e k]
  show ?case
  proof (cases "item_len it \<le> z")
    case True
    have "take_bit 32 (item_len it) = item_len it" using True Cons.prems(4) by (intro take_bit_nat_eq_self) simp
    then have "unat (i + of_nat (item_len it)) = unat i + item_len it"
      using True Cons.prems(4) by (simp add: unat_word_ariths unsigned_of_nat)
    then have i: "length (pre @ item_bytes e it') = unat (i + of_nat (item_len it))"
      "unat (i + of_nat (item_len it)) + (z - item_len it) = 16384" using l Cons.prems(3,4) True by simp_all
    have "unat (ip_index + 1) = unat ip_index + 1" using Cons.prems(1,2) by (simp add: unat_word_ariths)
    then have f: "length (front @ [it]) = unat (ip_index + 1)" "length (front @ [it]) + length rest < 2 ^ 32"
      using Cons.prems(1,2) by simp_all
    from Cons.IH[OF f i, of "cnt + 1"] show ?thesis using d step True l
      by (simp add: items_bytes_def items_len_def add.assoc)
  next
    case False
    then show ?thesis using d step l by (simp add: items_bytes_def items_len_def)
  qed
qed (simp add: items_bytes_def items_len_def)

text \<open>The header with the fields that change, and a buffer for some of the items.\<close>

definition update_frame :: "endian \<Rightarrow> u32 \<Rightarrow> u8 list \<Rightarrow> nat \<Rightarrow> bw_item list \<Rightarrow> u8 list" where
  "update_frame e num_ips tail start items =
     (store32 e num_ips @ store32 e (of_nat start) @ store32 e (of_nat (length items)) @ tail) @
     items_bytes e items @ replicate (16312 - items_len items) 0"

fun update_frames :: "endian \<Rightarrow> u32 \<Rightarrow> u8 list \<Rightarrow> nat \<Rightarrow> bw_item list list \<Rightarrow> u8 list list" where
  "update_frames e num_ips tail start [] = []"
| "update_frames e num_ips tail start (c # cs) =
     update_frame e num_ips tail start c # update_frames e num_ips tail (start + length c) cs"

lemma wr32_mid: "length xs = off \<Longrightarrow> length ys = 4 \<Longrightarrow> wr32 e (xs @ ys @ zs) off x = Some (xs @ store32 e x @ zs)"
  by (simp add: wr32_def mem_write_def)

lemma take_fit_progress: "its \<noteq> [] \<Longrightarrow> \<forall>it \<in> set its. item_len it \<le> room \<Longrightarrow> take_fit room its \<noteq> []"
  by (cases its) auto

text \<open>The buffer after a turn, in which the index has been moved on.\<close>

definition next_frame :: "endian \<Rightarrow> u32 \<Rightarrow> u8 list \<Rightarrow> nat \<Rightarrow> bw_item list \<Rightarrow> u8 list" where
  "next_frame e num_ips tail start items =
     (store32 e num_ips @ store32 e (of_nat (start + length items)) @ store32 e (of_nat (length items)) @ tail) @
     items_bytes e items @ replicate (16312 - items_len items) 0"

lemma set_turn_ok:
  assumes "\<And>k. sys_time S k = (now, k)" "length tail = 60" "length data < 2 ^ 32" "list_all2 (sendable b Z now) data outs"
    and "start \<le> length data" "buf = (store32 e (of_nat (length data)) @ store32 e (of_nat start) @ x @ tail) @ body" "length x = 4"
    and c: "c = take_fit 16312 (drop start outs)"
  shows "set_turn S Z e data (of_nat (length data)) buf k = Some (length data \<le> start + length c,
    next_frame e (of_nat (length data)) tail start c, sys_setsockopt S (update_frame e (of_nat (length data)) tail start c) k)"
proof -
  let ?n = "of_nat (length data) :: u32"
  have lo: "length outs = length data" using assms(4) by (simp add: list_all2_lengthD)
  have u: "unat (of_nat j :: u32) = j" if "j \<le> length data" for j
    using that assms(3) by (simp add: unsigned_of_nat take_bit_nat_eq_self_iff)
  have drops: "list_all2 (sendable b Z now) (drop start data) (drop start outs)" using assms(4) by (rule list_all2_dropI)
  have t: "take 72 buf = store32 e ?n @ store32 e (of_nat start) @ x @ tail" using assms(2,6,7) by simp
  have fill: "fill_buffer (unat ?n - unat (of_nat start :: u32)) S Z e data (take 72 buf @ replicate (BANDWIDTH_QUERY_LENGTH - 72) 0) 72
      (of_nat start) 0 k = Some (((store32 e ?n @ store32 e (of_nat start) @ x @ tail) @ items_bytes e c) @
        replicate (16312 - items_len c) 0, of_nat start + of_nat (length c), of_nat (length c), k)"
    using fill_buffer_ok[OF assms(1) drops, of "take start data" "of_nat start" "store32 e ?n @ store32 e (of_nat start) @ x @ tail" 72 16312 e 0 k]
      assms(2,3,5,7) u[OF assms(5)] u[of "length data"]
    by (simp add: t BANDWIDTH_QUERY_LENGTH_def c)
  have r: "rd32 e buf 4 = Some (of_nat start)" using assms(6) by (simp add: bw_facts)
  have frame: "wr32 e (((store32 e ?n @ store32 e (of_nat start) @ x @ tail) @ items_bytes e c) @
      replicate (16312 - items_len c) 0) 8 (of_nat (length c)) = Some (update_frame e ?n tail start c)"
    using wr32_mid[of "store32 e ?n @ store32 e (of_nat start)" 8 x e _ "of_nat (length c)"] assms(7)
    by (simp add: update_frame_def)
  have nxt: "wr32 e (update_frame e ?n tail start c) 4 (of_nat start + of_nat (length c)) = Some (next_frame e ?n tail start c)"
    using wr32_mid[of "store32 e ?n" 4 "store32 e (of_nat start)" e _ "of_nat start + of_nat (length c)"]
    by (simp add: update_frame_def next_frame_def)
  have "length c \<le> length data - start" using take_fit_prefix[of 16312 "drop start outs"] lo by (simp add: c)
  then have "(?n \<le> of_nat start + of_nat (length c)) = (length data \<le> start + length c)"
    using u[of "start + length c"] u[of "length data"] assms(5) by (simp add: word_le_nat_alt)
  then show ?thesis using fill r frame nxt by (simp add: set_turn_def Let_def)
qed

lemma set_loop_ok:
  assumes "\<And>k. sys_time S k = (now, k)" "length tail = 60" "\<forall>it \<in> set data. item_len it \<le> 16312" "length data < 2 ^ 32"
    and "list_all2 (sendable b Z now) data outs"
  shows "start \<le> length data \<Longrightarrow>
    buf = (store32 e (of_nat (length data)) @ store32 e (of_nat start) @ x @ tail) @ body \<Longrightarrow> length x = 4 \<Longrightarrow>
    \<exists>chunks. concat chunks = drop start outs \<and> chunks \<noteq> [] \<and> (drop start outs \<noteq> [] \<longrightarrow> [] \<notin> set chunks) \<and>
      (\<forall>c \<in> set chunks. items_len c \<le> 16312) \<and>
      set_loop S Z e data (of_nat (length data)) buf k =
        Some (fold (sys_setsockopt S) (update_frames e (of_nat (length data)) tail start chunks) k)"
proof (induction "length data - start" arbitrary: start buf x body k rule: less_induct)
  case less
  let ?n = "of_nat (length data) :: u32"
  define c where "c = take_fit 16312 (drop start outs)"
  define m where "m = length c"
  have lo: "length outs = length data" using assms(5) by (simp add: list_all2_lengthD)
  have c: "c = take m (drop start outs)" "m \<le> length data - start" "items_len c \<le> 16312"
    using take_fit_prefix[of 16312 "drop start outs"] lo unfolding m_def c_def by auto
  have turn: "set_loop S Z e data ?n buf k =
      (if length data \<le> start + m then Some (sys_setsockopt S (update_frame e ?n tail start c) k)
       else set_loop S Z e data ?n (next_frame e ?n tail start c) (sys_setsockopt S (update_frame e ?n tail start c) k))"
    by (subst set_loop.simps) (simp add: set_turn_ok[OF assms(1,2,4,5) less.prems c_def] m_def)
  show ?case
  proof (cases "length data \<le> start + m")
    case True
    then have "c = drop start outs" using c(1,2) lo by simp
    then show ?thesis using turn True c(3) by (intro exI[of _ "[c]"]) auto
  next
    case False
    then have "drop start outs \<noteq> []" using lo by simp
    moreover have "item_len it \<le> 16312" if it: "it \<in> set (drop start outs)" for it
    proof -
      obtain j where "j < length outs" "it = outs ! j" using it in_set_dropD in_set_conv_nth by metis
      then show ?thesis using list_all2_nthD2[OF assms(5), of j] assms(3) lo sendable_bytes by (metis nth_mem)
    qed
    ultimately have m: "0 < m" using take_fit_progress[of "drop start outs" 16312] unfolding m_def c_def by simp
    have h: "length data - (start + m) < length data - start" "start + m \<le> length data" using False m by simp_all
    obtain chunks where ch: "concat chunks = drop (start + m) outs" "chunks \<noteq> []" "drop (start + m) outs \<noteq> [] \<longrightarrow> [] \<notin> set chunks"
      "\<forall>c \<in> set chunks. items_len c \<le> 16312"
      "set_loop S Z e data ?n (next_frame e ?n tail start c) (sys_setsockopt S (update_frame e ?n tail start c) k) =
        Some (fold (sys_setsockopt S) (update_frames e ?n tail (start + m) chunks) (sys_setsockopt S (update_frame e ?n tail start c) k))"
      using less.hyps[OF h next_frame_def[of e ?n tail start c, folded m_def] store32_length,
        of "sys_setsockopt S (update_frame e ?n tail start c) k"] by blast
    have "c \<noteq> []" using m by (auto simp: m_def)
    moreover have "drop (start + m) outs \<noteq> []" using False lo by simp
    moreover have "concat (c # chunks) = drop start outs" using c(1) ch(1) by (simp add: add.commute flip: drop_drop)
    ultimately show ?thesis using turn False ch c(3) by (intro exI[of _ "c # chunks"]) (simp add: m_def[symmetric])
  qed
qed

subsection \<open>An item that never fits\<close>

lemma take_fit_stops: "j < length its \<Longrightarrow> room < item_len (its ! j) \<Longrightarrow> length (take_fit room its) \<le> j"
proof (induction room its arbitrary: j rule: take_fit.induct)
  case (2 room it its)
  then show ?case by (cases j) auto
qed simp

text \<open>Turn after turn is taken, and only items before the one that does not fit are sent.\<close>

lemma set_turns_stuck:
  assumes "\<And>k. sys_time S k = (now, k)" "length tail = 60" "length data < 2 ^ 32" "list_all2 (sendable b Z now) data outs"
    and "j < length data" "16312 < item_len (data ! j)"
  shows "start \<le> j \<Longrightarrow> buf = (store32 e (of_nat (length data)) @ store32 e (of_nat start) @ x @ tail) @ body \<Longrightarrow> length x = 4 \<Longrightarrow>
    \<exists>chunks buf'. length chunks = n \<and> concat chunks = take (length (concat chunks)) (drop start outs) \<and>
      start + length (concat chunks) \<le> j \<and>
      set_turns n S Z e data (of_nat (length data)) buf k =
        Some (buf', fold (sys_setsockopt S) (update_frames e (of_nat (length data)) tail start chunks) k)"
proof (induction n arbitrary: start buf x body k)
  case (Suc n)
  let ?n = "of_nat (length data) :: u32"
  define c where "c = take_fit 16312 (drop start outs)"
  have lo: "length outs = length data" using assms(4) by (simp add: list_all2_lengthD)
  have "item_len (outs ! j) = item_len (data ! j)"
    using list_all2_nthD2[OF assms(4), of j] assms(5) lo sendable_bytes by simp
  then have "length c \<le> j - start"
    using take_fit_stops[of "j - start" "drop start outs" 16312] Suc.prems(1) assms(5,6) lo by (simp add: c_def)
  then have m: "start + length c \<le> j" using Suc.prems(1) by simp
  have s: "start \<le> length data" using Suc.prems(1) assms(5) by simp
  note turn = set_turn_ok[OF assms(1-4) s Suc.prems(2,3) c_def, of k]
  obtain chunks buf' where ch: "length chunks = n" "concat chunks = take (length (concat chunks)) (drop (start + length c) outs)"
    "start + length c + length (concat chunks) \<le> j"
    "set_turns n S Z e data ?n (next_frame e ?n tail start c) (sys_setsockopt S (update_frame e ?n tail start c) k) =
      Some (buf', fold (sys_setsockopt S) (update_frames e ?n tail (start + length c) chunks)
        (sys_setsockopt S (update_frame e ?n tail start c) k))"
    using Suc.IH[OF m next_frame_def store32_length] by blast
  have c: "c = take (length c) (drop start outs)" using take_fit_prefix[of 16312 "drop start outs"] by (simp add: c_def)
  have "concat (c # chunks) = take (length (concat (c # chunks))) (drop start outs)"
    using c ch(2) by (simp add: take_add add.commute)
  moreover have "length (c # chunks) = Suc n" "start + length (concat (c # chunks)) \<le> j" using ch(1,3) by simp_all
  moreover have "set_turns (Suc n) S Z e data ?n buf k =
      Some (buf', fold (sys_setsockopt S) (update_frames e ?n tail start (c # chunks)) k)"
    using turn m assms(5) ch(4) by simp
  ultimately show ?case by blast
qed (auto intro: exI[of _ "[]"])

text \<open>A loop that returns takes a last turn.\<close>

lemma set_loop_turns: "set_loop S Z e data num_ips buf k = Some k' \<Longrightarrow> \<exists>n. set_turns n S Z e data num_ips buf k = None"
proof (rule set_loop.raw_induct[rotated, where P = "\<lambda>S Z e data num_ips buf k k'. \<exists>n. set_turns n S Z e data num_ips buf k = None"])
  fix f S Z e data num_ips buf k k'
  assume IH: "\<And>S Z e data num_ips buf k k'. f S Z e data num_ips buf k = Some k' \<Longrightarrow> \<exists>n. set_turns n S Z e data num_ips buf k = None"
    and step: "do { (finished, buf, k) \<leftarrow> set_turn S Z e data num_ips buf k;
      if finished then Some k else f S Z e data num_ips buf k } = Some k'"
  obtain finished buf1 k1 where t: "set_turn S Z e data num_ips buf k = Some (finished, buf1, k1)"
    and r: "(if finished then Some k1 else f S Z e data num_ips buf1 k1) = Some k'"
    using step by (auto split: bind_splits)
  show "\<exists>n. set_turns n S Z e data num_ips buf k = None"
  proof (cases finished)
    case True
    then show ?thesis using t by (intro exI[of _ "Suc 0"]) simp
  next
    case False
    then obtain n where "set_turns n S Z e data num_ips buf1 k1 = None" using IH r by fastforce
    then show ?thesis using t False by (intro exI[of _ "Suc n"]) simp
  qed
qed

subsection \<open>The header\<close>

lemma update_header_ok:
  assumes "50 \<le> length id_cells"
  shows "\<exists>tail. length tail = 60 \<and> update_header e id_cells zero_unset set_history num_ips last_backup =
    Some ((store32 e num_ips @ store32 e (of_nat 0) @ [0, 0, 0, 0] @ tail) @ replicate 16312 0)"
proof -
  define name where "name = (take 50 id_cells)[49 := 0]"
  define tail where "tail = [if set_history then 1 else 0, if zero_unset then 1 else 0 :: u8] @ store64 e (word_of_int last_backup) @ name"
  have n: "length name = 50" using assms by (simp add: name_def)
  have z: "replicate 16384 (0 :: u8) = [] @ replicate 4 0 @ (replicate 8 0 @ replicate 2 0 @ replicate 8 0 @ replicate 50 0 @ replicate 16312 0)"
    unfolding replicate_add[symmetric] append_Nil by simp
  have s0: "store32 e 0 = [0, 0, 0, 0]" by (cases e) (simp_all add: UNPACK32_def)
  have "mem_read id_cells 0 50 = Some (take 50 id_cells)" using assms by (simp add: mem_read_def)
  then have "update_header e id_cells zero_unset set_history num_ips last_backup =
      Some (store32 e num_ips @ replicate 8 0 @ tail @ replicate 16312 0)"
    unfolding update_header_def BANDWIDTH_QUERY_LENGTH_def BANDWIDTH_MAX_ID_LENGTH_def z
    by (simp add: wr32_def wr64_def mem_write_def tail_def n name_def[symmetric] min_absorb2[OF assms] del: replicate_Suc)
  moreover have "replicate 8 (0 :: u8) = store32 e (of_nat 0) @ [0, 0, 0, 0]" by (simp add: s0 numeral_eq_Suc)
  ultimately show ?thesis using n by (intro exI[of _ tail]) (simp add: tail_def)
qed

subsection \<open>Properties\<close>

text \<open>C21: A query whose lock and socket are had, and which the kernel answers at once with fewer than 2^24 items,
  returns success, the number of items, and an array of the items as they came, with the times of a history shifted to
  the real clock, and one element of zeros after them. It holds in both byte orders.\<close>

theorem get_bandwidth_data_correct:
  assumes "lock S max_wait_milliseconds s = (True, s1)" "sys_socket S (kernel s1) = (True, k1)"
    and "query_request e inet_aton id_str get_history ip = Some req"
    and "sys_getsockopt S req k1 = (answer e (of_nat (length items)) 0 items interval shift constant rest, k2)"
    and "\<forall>k. sys_time S k = (now, k)" "length items < 2 ^ 24"
    and "list_all2 (\<lambda>it it'. item_ok get_history it \<and>
      received Z now (time_of_u64 interval) (time_of_u64 shift) constant it = Some it') items outs"
  shows "\<exists>s'. get_bandwidth_data S Z e inet_aton id_str get_history ip max_wait_milliseconds s =
    Some (True, of_nat (length items), Some (outs @ [zero_item get_history]), s')"
proof -
  have u: "unat (of_nat (length items) :: u32) = length items"
    using assms(6) by (simp add: unsigned_of_nat take_bit_nat_eq_self_iff)
  then have n: "unat (of_nat (length items) :: u32) < 2 ^ 24" "unat (of_nat (length items) :: u32) < 2 ^ 26" using assms(6) by simp_all
  have t: "\<And>k. sys_time S k = (now, k)" using assms(5) by blast
  have "0 + length items \<le> unat (of_nat (length items) :: u32) + 1" by (simp add: u)
  from get_turn[OF assms(4) t n(2) this assms(7), of None 0] first_answer_is_last[OF n(1), of e]
  have "get_loop S Z e get_history req None 0 0 k1 = Some (True, Some (outs @ [zero_item get_history]), of_nat (length items), k2)"
    by (auto simp: u Let_def)
  then show ?thesis using assms(1-3) by (simp add: get_bandwidth_data_def)
qed

text \<open>C35: When the kernel has more items than its first answer holds, on a little-endian machine, and answers the second
  request with the rest, the query returns success and the number of all items, but the items of the first
  answer are lost: their elements are zeros.\<close>

theorem second_answer_loses_first:
  assumes "lock S max_wait_milliseconds s = (True, s1)" "sys_socket S (kernel s1) = (True, k1)"
    and "query_request Little inet_aton id_str get_history ip = Some req"
    and "sys_getsockopt S req k1 = (answer Little (of_nat (n + m)) 0 items1 interval shift constant rest1, k2)"
    and "\<forall>buf. sys_getsockopt S buf k2 = (answer Little (of_nat (n + m)) (of_nat n) items2 interval shift constant rest2, k3)"
    and "length items1 = n" "length items2 = m" "0 < n" "0 < m" "n + m < 2 ^ 24" "\<forall>k. sys_time S k = (now, k)"
    and "list_all2 (\<lambda>it it'. item_ok get_history it \<and>
      received Z now (time_of_u64 interval) (time_of_u64 shift) constant it = Some it') items1 outs1"
    and "list_all2 (\<lambda>it it'. item_ok get_history it \<and>
      received Z now (time_of_u64 interval) (time_of_u64 shift) constant it = Some it') items2 outs2"
  shows "\<exists>s'. get_bandwidth_data S Z Little inet_aton id_str get_history ip max_wait_milliseconds s =
    Some (True, of_nat (n + m), Some (replicate n (zero_item get_history) @ outs2 @ [zero_item get_history]), s')"
proof -
  have w: "unat (of_nat j :: u32) = j" if "j \<le> n + m" for j
    using that assms(10) by (simp add: unsigned_of_nat take_bit_nat_eq_self_iff)
  have u: "unat (of_nat (n + m) :: u32) = n + m" "unat (of_nat n :: u32) = n" "unat (of_nat m :: u32) = m" by (rule w, simp)+
  have b: "unat (of_nat (n + m) :: u32) < 2 ^ 24" "unat (of_nat (n + m) :: u32) < 2 ^ 26" using u assms(10) by simp_all
  have t: "\<And>k. sys_time S k = (now, k)" using assms(11) by blast
  have more: "stale_index Little (of_nat (n + m)) 0 + of_nat (length items1) < (of_nat (n + m) :: u32)"
    using u assms(6,9) stale_index_Little[OF b(1), of 0] by (simp add: word_less_nat_alt)
  have "unat (of_nat (256 * n) :: u32) = 256 * n"
    using assms(9,10) by (simp add: unsigned_of_nat take_bit_nat_eq_self_iff del: of_nat_mult)
  moreover have "push_bit 8 (of_nat n :: u32) = of_nat (256 * n)" by (simp add: push_bit_eq_mult mult.commute)
  ultimately have "unat (push_bit 8 (of_nat n :: u32)) = 256 * n" by (simp only:)
  then have "unat (push_bit 8 (of_nat n :: u32) + of_nat m) = 256 * n + m"
    using u(3) assms(10) by (subst unat_add_lem[THEN iffD1]) simp_all
  then have last: "\<not> stale_index Little (of_nat (n + m)) (of_nat n) + of_nat (length items2) < (of_nat (n + m) :: u32)"
    using u(1) assms(7) stale_index_Little[OF b(1), of "of_nat n"] by (simp add: word_less_nat_alt)
  have l: "0 + length items1 \<le> unat (of_nat (n + m) :: u32) + 1" "n + length items2 \<le> unat (of_nat (n + m) :: u32) + 1"
    using u(1) assms(6,7) by simp_all
  from get_turn[OF assms(4) t b(2) l(1) assms(12), of None 0] obtain buf' out1 where
    1: "get_loop S Z Little get_history req None 0 0 k1 = get_loop S Z Little get_history buf' (Some out1) (of_nat (n + m)) n k2"
    using more assms(6) by (auto simp: Let_def)
  have g: "sys_getsockopt S buf' k2 = (answer Little (of_nat (n + m)) (of_nat n) items2 interval shift constant rest2, k3)"
    using assms(5) by blast
  from get_turn[OF g t b(2) l(2) assms(13), of "Some out1" "of_nat (n + m)"]
  have "get_loop S Z Little get_history buf' (Some out1) (of_nat (n + m)) n k2 =
      Some (True, Some (replicate n (zero_item get_history) @ outs2 @ [zero_item get_history]), of_nat (n + m), k3)"
    using last u(1) assms(7) by (auto simp: Let_def)
  then show ?thesis using 1 assms(1-3) by (simp add: get_bandwidth_data_def)
qed

text \<open>C19: An update whose lock and socket are had, of items that each fit into one buffer, sends all of them to the kernel,
  in order and each once: in buffers that say how many items there are in all, which is the first in the
  buffer and how many are in it, and releases the lock.\<close>

theorem set_bandwidth_data_correct:
  assumes "lock S max_wait_milliseconds s = (True, s1)" "sys_socket S (kernel s1) = (True, k1)" "\<forall>k. sys_time S k = (now, k)"
    and "50 \<le> length id_cells" "\<forall>it \<in> set data. item_len it \<le> 16312" "length data < 2 ^ 32"
    and "list_all2 (sendable set_history Z now) data outs"
  shows "\<exists>tail chunks. concat chunks = outs \<and> (outs \<noteq> [] \<longrightarrow> [] \<notin> set chunks) \<and> (\<forall>c \<in> set chunks. items_len c \<le> 16312) \<and>
    set_bandwidth_data S Z e id_cells zero_unset set_history (of_nat (length data)) last_backup data max_wait_milliseconds s =
      Some (True, snd (unlock S (s1\<lparr>kernel := sys_close S
        (fold (sys_setsockopt S) (update_frames e (of_nat (length data)) tail 0 chunks) k1)\<rparr>)))"
proof -
  obtain tail where t: "length tail = 60" "update_header e id_cells zero_unset set_history (of_nat (length data)) last_backup =
      Some ((store32 e (of_nat (length data)) @ store32 e (of_nat 0) @ [0, 0, 0, 0] @ tail) @ replicate 16312 0)"
    using update_header_ok[OF assms(4)] by metis
  have now: "\<And>k. sys_time S k = (now, k)" using assms(3) by blast
  obtain chunks where "concat chunks = drop 0 outs" "drop 0 outs \<noteq> [] \<longrightarrow> [] \<notin> set chunks" "\<forall>c \<in> set chunks. items_len c \<le> 16312"
    "set_loop S Z e data (of_nat (length data)) ((store32 e (of_nat (length data)) @ store32 e (of_nat 0) @ [0, 0, 0, 0] @ tail) @ replicate 16312 0) k1 =
      Some (fold (sys_setsockopt S) (update_frames e (of_nat (length data)) tail 0 chunks) k1)"
    using set_loop_ok[OF now t(1) assms(5-7) le0 refl, of "[0, 0, 0, 0]" e "replicate 16312 0" k1] by auto
  then show ?thesis using assms(1,2) t(2) by (intro exI[of _ tail] exI[of _ chunks]) (simp add: set_bandwidth_data_def)
qed

text \<open>C36: An update with a history of more than 2035 nodes, which does not fit into a buffer of its own, never returns once
  the lock and the socket are had. However many turns the loop has taken, each of them has sent a buffer
  without any error, only items before that history have been sent (so that all but finitely many of the
  buffers have no items at all), and another turn follows.\<close>

theorem long_history_never_sent:
  assumes "lock S max_wait_milliseconds s = (True, s1)" "sys_socket S (kernel s1) = (True, k1)" "\<forall>k. sys_time S k = (now, k)"
    and "50 \<le> length id_cells" "length data < 2 ^ 32" "list_all2 (sendable set_history Z now) data outs"
    and "j < length data" "16312 < item_len (data ! j)"
  shows "\<exists>header tail. update_header e id_cells zero_unset set_history (of_nat (length data)) last_backup = Some header \<and>
    (\<forall>n. \<exists>chunks buf. length chunks = n \<and> concat chunks = take (length (concat chunks)) outs \<and> length (concat chunks) \<le> j \<and>
      set_turns n S Z e data (of_nat (length data)) header k1 =
        Some (buf, fold (sys_setsockopt S) (update_frames e (of_nat (length data)) tail 0 chunks) k1)) \<and>
    set_bandwidth_data S Z e id_cells zero_unset set_history (of_nat (length data)) last_backup data max_wait_milliseconds s = None"
proof -
  obtain tail where t: "length tail = 60" "update_header e id_cells zero_unset set_history (of_nat (length data)) last_backup =
      Some ((store32 e (of_nat (length data)) @ store32 e (of_nat 0) @ [0, 0, 0, 0] @ tail) @ replicate 16312 0)" (is "_ = Some ?b")
    using update_header_ok[OF assms(4)] by metis
  have now: "\<And>k. sys_time S k = (now, k)" using assms(3) by blast
  have turns: "\<exists>chunks buf. length chunks = n \<and> concat chunks = take (length (concat chunks)) outs \<and> length (concat chunks) \<le> j \<and>
      set_turns n S Z e data (of_nat (length data)) ?b k1 =
        Some (buf, fold (sys_setsockopt S) (update_frames e (of_nat (length data)) tail 0 chunks) k1)" for n
    using set_turns_stuck[OF now t(1) assms(5-8) le0 refl, of "[0, 0, 0, 0]" n e "replicate 16312 0" k1] by simp
  then have "set_loop S Z e data (of_nat (length data)) ?b k1 = None" using set_loop_turns by (metis not_None_eq)
  then have "set_bandwidth_data S Z e id_cells zero_unset set_history (of_nat (length data)) last_backup data max_wait_milliseconds s = None"
    using assms(1,2) t(2) by (simp add: set_bandwidth_data_def)
  with t(2) turns show ?thesis by blast
qed

subsection \<open>A system to evaluate on\<close>

text \<open>A semaphore that is free, a list of answers, and the buffers that were sent.\<close>

definition demo_sys :: "int \<Rightarrow> (u8 list list \<times> u8 list list) bw_sys" where
  "demo_sys now = \<lparr>sys_semget = \<lambda>new k. (1, k), sys_setval = \<lambda>sid k. k, sys_getval = \<lambda>sid k. (1, k),
     sys_semop = \<lambda>sid d k. (True, k), sys_usleep = \<lambda>n k. k, sys_socket = \<lambda>k. (True, k),
     sys_getsockopt = \<lambda>b k. (case fst k of [] \<Rightarrow> (b, k) | a # as \<Rightarrow> (a, (as, snd k))),
     sys_setsockopt = \<lambda>b k. (fst k, snd k @ [b]), sys_close = \<lambda>k. k, sys_time = \<lambda>k. (now, k)\<rparr>"

definition demo_state :: "u8 list list \<Rightarrow> (u8 list list \<times> u8 list list) bw_state" where
  "demo_state answers = \<lparr>bandwidth_semaphore = - 1, kernel = (answers, [])\<rparr>"

lemma demo_lock: "lock (demo_sys now) w (demo_state answers) = (True, \<lparr>bandwidth_semaphore = 1, kernel = (answers, [])\<rparr>)"
  by (simp add: lock_def with_semaphore_def get_sem_def demo_state_def demo_sys_def lock_loop.simps lock_sem_def get_sem_val_def)

lemma demo_query: "\<exists>req. query_request e inet_aton [97] b ''ALL'' = Some req"
  by (simp add: query_request_def wr32_def mem_write_def BANDWIDTH_QUERY_LENGTH_def)

lemma demo_calls:
  "sys_socket (demo_sys now) k = (True, k)" "sys_time (demo_sys now) k = (now, k)"
  "sys_getsockopt (demo_sys now) b (a # as, snt) = (a, (as, snt))"
  by (simp_all add: demo_sys_def)

lemma get_bandwidth_data_correct_witness:
  "\<exists>s'. get_bandwidth_data (demo_sys 0) (fixed_zone 0) Big (\<lambda>ip. None) [97] False ''ALL'' 1000
      (demo_state [answer Big 1 0 [Usage \<lparr>usage_ip = 7, bw = 5\<rparr>] 0 0 0 []]) =
    Some (True, 1, Some [Usage \<lparr>usage_ip = 7, bw = 5\<rparr>, zero_item False], s')"
proof -
  obtain req where q: "query_request Big (\<lambda>ip. None) [97] False ''ALL'' = Some req" using demo_query by blast
  let ?i = "[Usage \<lparr>usage_ip = 7, bw = 5\<rparr>]"
  let ?a = "answer Big (of_nat (length ?i)) 0 ?i 0 0 0 []"
  have k: "sys_socket (demo_sys 0) (kernel \<lparr>bandwidth_semaphore = 1, kernel = ([?a], [])\<rparr>) = (True, ([?a], []))"
    by (simp add: demo_calls)
  have t: "\<forall>k. sys_time (demo_sys 0) k = (0, k)" "length ?i < 2 ^ 24" by (simp_all add: demo_calls)
  from get_bandwidth_data_correct[OF demo_lock k q demo_calls(3) t, of "fixed_zone 0" ?i 1000] show ?thesis by simp
qed

lemma second_answer_loses_first_witness:
  "\<exists>s'. get_bandwidth_data (demo_sys 0) (fixed_zone 0) Little (\<lambda>ip. None) [97] False ''ALL'' 1000
      (demo_state [answer Little (of_nat (1 + 1)) 0 [Usage \<lparr>usage_ip = 7, bw = 5\<rparr>] 0 0 0 [],
        answer Little (of_nat (1 + 1)) (of_nat 1) [Usage \<lparr>usage_ip = 8, bw = 6\<rparr>] 0 0 0 []]) =
    Some (True, 2, Some [zero_item False, Usage \<lparr>usage_ip = 8, bw = 6\<rparr>, zero_item False], s')"
proof -
  let ?a1 = "answer Little (of_nat (1 + 1)) 0 [Usage \<lparr>usage_ip = 7, bw = 5\<rparr>] 0 0 0 []"
  let ?a2 = "answer Little (of_nat (1 + 1)) (of_nat 1) [Usage \<lparr>usage_ip = 8, bw = 6\<rparr>] 0 0 0 []"
  obtain req where q: "query_request Little (\<lambda>ip. None) [97] False ''ALL'' = Some req" using demo_query by blast
  have k: "sys_socket (demo_sys 0) (kernel \<lparr>bandwidth_semaphore = 1, kernel = ([?a1, ?a2], [])\<rparr>) = (True, ([?a1, ?a2], []))"
    by (simp add: demo_calls)
  have g: "\<forall>buf. sys_getsockopt (demo_sys 0) buf ([?a2], []) = (?a2, ([], []))" by (simp add: demo_calls)
  from second_answer_loses_first[OF demo_lock k q demo_calls(3) g, of 0 "fixed_zone 0" "[Usage \<lparr>usage_ip = 7, bw = 5\<rparr>]" "[Usage \<lparr>usage_ip = 8, bw = 6\<rparr>]" 1000]
  show ?thesis by (simp add: demo_calls(2))
qed

lemma set_bandwidth_data_correct_witness:
  "\<exists>s'. set_bandwidth_data (demo_sys 0) (fixed_zone 0) Little (replicate 50 97) False False (of_nat (length [Usage \<lparr>usage_ip = 7, bw = 5\<rparr>])) 0
    [Usage \<lparr>usage_ip = 7, bw = 5\<rparr>] 1000 (demo_state []) = Some (True, s')"
proof -
  have k: "sys_socket (demo_sys 0) (kernel \<lparr>bandwidth_semaphore = 1, kernel = ([], [])\<rparr>) = (True, ([], []))" by (simp add: demo_calls)
  have t: "\<forall>k. sys_time (demo_sys 0) k = (0, k)" by (simp add: demo_calls)
  have l: "50 \<le> length (replicate 50 (97 :: u8))" "\<forall>it \<in> set [Usage \<lparr>usage_ip = 7, bw = 5\<rparr>]. item_len it \<le> 16312"
    "length [Usage \<lparr>usage_ip = 7, bw = 5\<rparr>] < 2 ^ 32"
    "list_all2 (sendable False (fixed_zone 0) 0) [Usage \<lparr>usage_ip = 7, bw = 5\<rparr>] [Usage \<lparr>usage_ip = 7, bw = 5\<rparr>]"
    by (simp_all add: sendable_def)
  from set_bandwidth_data_correct[OF demo_lock k t l, of Little False 0] show ?thesis by blast
qed

definition long_history :: bw_item where
  "long_history = History (monthly_history 0\<lparr>num_nodes := 3000, history_bws := Some (replicate 3000 0)\<rparr>)"

lemma long_history_never_sent_witness:
  "\<exists>header. update_header Little (replicate 50 97) False True (of_nat (length [long_history])) 0 = Some header \<and>
    (\<forall>n. \<exists>buf k. set_turns n (demo_sys 0) (fixed_zone 0) Little [long_history] (of_nat (length [long_history])) header ([], []) = Some (buf, k)) \<and>
    set_bandwidth_data (demo_sys 0) (fixed_zone 0) Little (replicate 50 97) False True (of_nat (length [long_history])) 0
      [long_history] 1000 (demo_state []) = None"
proof -
  have k: "sys_socket (demo_sys 0) (kernel \<lparr>bandwidth_semaphore = 1, kernel = ([], [])\<rparr>) = (True, ([], []))" by (simp add: demo_calls)
  have t: "\<forall>k. sys_time (demo_sys 0) k = (0, k)" by (simp add: demo_calls)
  have z: "shift_back (fixed_zone 0) 0 x = checked x" for x
    by (simp add: shift_back_def get_minutes_west_ok fixed_zone_def)
  have l: "50 \<le> length (replicate 50 (97 :: u8))" "length [long_history] < 2 ^ 32"
    "list_all2 (sendable True (fixed_zone 0) 0) [long_history] [long_history]"
    "0 < length [long_history]" "16312 < item_len ([long_history] ! 0)"
    by (simp_all add: long_history_def sendable_def monthly_history_def in_time_def int_max_def z checked_def)
  from long_history_never_sent[OF demo_lock k t l, of Little False 0] show ?thesis by blast
qed

end
