(* ===== verification/BwFiles.thy ===== *)
theory BwFiles
  imports BwKernel StringUtil
begin

text \<open>
  The files of \<open>package/libiptbwctl/src/ipt_bwctl.c\<close> that counters are kept in over a restart: histories in binary, usage in
  text. What is written is shown to be read back. The library does not look at the results of its writes and
  reads: a file that is too short leaves variables as they are, which is \<open>None\<close> where they have no value.
\<close>

subsection \<open>Files\<close>

text \<open>Whether a file can be opened for writing, and how much of what is written to it is kept.\<close>

record 'c bw_disk =
  files :: "string \<Rightarrow> 'c list option"
  writable :: "string \<Rightarrow> bool"
  kept :: "string \<Rightarrow> nat \<Rightarrow> nat"

definition write_out :: "'c bw_disk \<Rightarrow> string \<Rightarrow> 'c list \<Rightarrow> 'c bw_disk" where
  "write_out d path cs = d\<lparr>files := (files d)(path \<mapsto> take (kept d path (length cs)) cs)\<rparr>"

text \<open>\<open>fread\<close> of one object: at the end of the file a part of its cells, or none, is set.\<close>

definition fread :: "nat \<Rightarrow> u8 option list \<Rightarrow> u8 list \<Rightarrow> u8 option list \<times> u8 list" where
  "fread n cells f = (map Some (take n f) @ drop (length (take n f)) cells, drop n f)"

definition cells_val :: "u8 option list \<Rightarrow> u8 list option" where
  "cells_val cells = (if None \<in> set cells then None else Some (map the cells))"

definition read32 :: "endian \<Rightarrow> u8 option \<Rightarrow> u8 list \<Rightarrow> u32 option \<times> u8 list" where
  "read32 e before f = (case fread 4 (replicate 4 before) f of (cells, f) \<Rightarrow> (map_option (load32 e) (cells_val cells), f))"

definition read64 :: "endian \<Rightarrow> u8 option \<Rightarrow> u8 list \<Rightarrow> u64 option \<times> u8 list" where
  "read64 e before f = (case fread 8 (replicate 8 before) f of (cells, f) \<Rightarrow> (map_option (load64 e) (cells_val cells), f))"

definition read8 :: "u8 list \<Rightarrow> u8 option \<times> u8 list" where
  "read8 f = (case fread 1 [None] f of (cells, f) \<Rightarrow> (map_option hd (cells_val cells), f))"

subsection \<open>Histories\<close>

definition fits32 :: "u64 \<Rightarrow> bool" where
  "fits32 b \<longleftrightarrow> b < 0x7FFFFFFF"

text \<open>The first \<open>n\<close> bandwidths of an array that may be \<open>NULL\<close> or too short.\<close>

definition history_nodes :: "ip_bw_history \<Rightarrow> u64 list option" where
  "history_nodes h =
     (case history_bws h of
        None \<Rightarrow> if num_nodes h = 0 then Some [] else None
      | Some bws \<Rightarrow> if unat (num_nodes h) \<le> length bws then Some (take (unat (num_nodes h)) bws) else None)"

definition history_entry :: "endian \<Rightarrow> ip_bw_history \<Rightarrow> u8 list option" where
  "history_entry e h =
     (if num_nodes h = 0 then
        Some (store32 e (hist_ip h) @ store32 e 0 @ store64 e 0 @ store64 e 0 @ store64 e 0 @ [32])
      else do {
        bws \<leftarrow> history_nodes h;
        let bw_bits = (if list_all fits32 bws then 32 else 64 :: u8);
        Some (store32 e (hist_ip h) @ store32 e (num_nodes h) @
          store64 e (word_of_int (first_start h)) @ store64 e (word_of_int (first_end h)) @ store64 e (word_of_int (last_end h)) @
          [bw_bits] @ concat (map (\<lambda>b. if bw_bits = 32 then store32 e (ucast b) else store64 e b) bws)) })"

fun history_entries :: "endian \<Rightarrow> ip_bw_history list \<Rightarrow> nat \<Rightarrow> u8 list option" where
  "history_entries e data 0 = Some []"
| "history_entries e [] (Suc n) = None"
| "history_entries e (h # data) (Suc n) = do {
     entry \<leftarrow> history_entry e h;
     rest \<leftarrow> history_entries e data n;
     Some (entry @ rest) }"

text \<open>The loop that computes \<open>bw_fits_in_32bits\<close>, which nothing uses, is left out.\<close>

definition history_file :: "endian \<Rightarrow> ip_bw_history list \<Rightarrow> u32 \<Rightarrow> u8 list option" where
  "history_file e data num_ips = do {
     head \<leftarrow> (if 0 < num_ips then
         (case data of [] \<Rightarrow> None
          | h # data \<Rightarrow> Some (store64 e (word_of_int (reset_interval h)) @ store64 e (word_of_int (reset_time h)) @ [is_constant_interval h]))
       else Some []);
     entries \<leftarrow> history_entries e data (unat num_ips);
     Some (store32 e num_ips @ head @ entries) }"

definition save_history_to_file :: "endian \<Rightarrow> u8 bw_disk \<Rightarrow> ip_bw_history list \<Rightarrow> u32 \<Rightarrow> string \<Rightarrow> (u8 bw_disk \<times> bool) option" where
  "save_history_to_file e d data num_ips out_file_path =
     (if \<not> writable d out_file_path then Some (d, False)
      else do {
        bytes \<leftarrow> history_file e data num_ips;
        Some (write_out d out_file_path bytes, True) })"

fun load_bws :: "endian \<Rightarrow> bool \<Rightarrow> nat \<Rightarrow> u8 list \<Rightarrow> (u64 list \<times> u8 list) option" where
  "load_bws e bits32 0 f = Some ([], f)"
| "load_bws e bits32 (Suc n) f =
     (let (b, f) = (if bits32 then (case read32 e (Some 0) f of (b, f) \<Rightarrow> (map_option ucast b, f)) else read64 e (Some 0) f) in do {
        b \<leftarrow> b;
        (bws, f) \<leftarrow> load_bws e bits32 n f;
        Some (b # bws, f) })"

text \<open>Of the variables of an entry that the file is too short for nothing is known.\<close>

definition load_entry :: "endian \<Rightarrow> int \<Rightarrow> int \<Rightarrow> u8 \<Rightarrow> u8 list \<Rightarrow> (ip_bw_history \<times> u8 list) option" where
  "load_entry e interval shift constant f =
     (let (ip, f) = read32 e None f; (n, f) = read32 e None f; (start, f) = read64 e None f; (fst_end, f) = read64 e None f;
          (lst_end, f) = read64 e None f; (bw_bits, f) = read8 f in do {
        ip \<leftarrow> ip; n \<leftarrow> n; start \<leftarrow> start; fst_end \<leftarrow> fst_end; lst_end \<leftarrow> lst_end; bw_bits \<leftarrow> bw_bits;
        (bws, f) \<leftarrow> (if 0 < n then
            (if array_len 8 n < unat n then None
             else do { (bws, f) \<leftarrow> load_bws e (bw_bits = 32) (unat n) f; Some (Some bws, f) })
          else Some (None, f));
        Some (\<lparr>hist_ip = ip, num_nodes = n, reset_interval = interval, reset_time = shift, is_constant_interval = constant,
          first_start = time_of_u64 start, first_end = time_of_u64 fst_end, last_end = time_of_u64 lst_end, history_bws = bws\<rparr>, f) })"

fun load_entries :: "endian \<Rightarrow> int \<Rightarrow> int \<Rightarrow> u8 \<Rightarrow> nat \<Rightarrow> u8 list \<Rightarrow> ip_bw_history list option" where
  "load_entries e interval shift constant 0 f = Some []"
| "load_entries e interval shift constant (Suc n) f = do {
     (h, f) \<leftarrow> load_entry e interval shift constant f;
     hs \<leftarrow> load_entries e interval shift constant n f;
     Some (h # hs) }"

text \<open>The result is the array, \<open>NULL\<close> for no file and for a file with no entries, and the number of its elements.\<close>

definition load_history_from_file :: "endian \<Rightarrow> u8 bw_disk \<Rightarrow> string \<Rightarrow> (ip_bw_history list ptr \<times> u32) option" where
  "load_history_from_file e d in_file_path =
     (case files d in_file_path of
        None \<Rightarrow> Some (None, 0)
      | Some f \<Rightarrow>
          let (nips, f) = read32 e (Some 0) f in do {
          nips \<leftarrow> nips;
          if nips = 0 then Some (None, 0)
          else
            let (interval, f) = read64 e None f; (shift, f) = read64 e None f; (constant, f) = read8 f in do {
            interval \<leftarrow> interval; shift \<leftarrow> shift; constant \<leftarrow> constant;
            if array_len 33 nips < unat nips then None
            else do {
              hs \<leftarrow> load_entries e (time_of_u64 interval) (time_of_u64 shift) constant (unat nips) f;
              Some (Some hs, nips) } } })"

subsection \<open>Usage\<close>

fun dec :: "nat \<Rightarrow> string" where
  "dec n = (if n < 10 then [digit_char n] else dec (n div 10) @ [digit_char (n mod 10)])"

declare dec.simps [simp del]

definition dec_int :: "int \<Rightarrow> string" where
  "dec_int i = (if i < 0 then CHR ''-'' # dec (nat (- i)) else dec (nat i))"

text \<open>The conversion \<open>%-15s\<close>.\<close>

definition pad15 :: "string \<Rightarrow> string" where
  "pad15 s = s @ replicate (15 - length s) CHR '' ''"

text \<open>An address in memory is in the order of the network.\<close>

definition inet_ntoa :: "endian \<Rightarrow> u32 \<Rightarrow> string" where
  "inet_ntoa e a =
     (case store32 e a of [b0, b1, b2, b3] \<Rightarrow>
        dec (unat b0) @ ''.'' @ dec (unat b1) @ ''.'' @ dec (unat b2) @ ''.'' @ dec (unat b3))"

definition usage_line :: "endian \<Rightarrow> ip_bw \<Rightarrow> string" where
  "usage_line e u = pad15 (inet_ntoa e (usage_ip u)) @ [CHR 0x09] @ dec_int (sint (bw u)) @ [CHR 0x0A]"

fun usage_lines :: "endian \<Rightarrow> ip_bw list \<Rightarrow> nat \<Rightarrow> string option" where
  "usage_lines e data 0 = Some []"
| "usage_lines e [] (Suc n) = None"
| "usage_lines e (u # data) (Suc n) = do { rest \<leftarrow> usage_lines e data n; Some (usage_line e u @ rest) }"

definition save_usage_to_file :: "endian \<Rightarrow> int \<Rightarrow> char bw_disk \<Rightarrow> ip_bw list \<Rightarrow> u32 \<Rightarrow> string \<Rightarrow> (char bw_disk \<times> bool) option" where
  "save_usage_to_file e now d data num_ips out_file_path =
     (if \<not> writable d out_file_path then Some (d, False)
      else do {
        lines \<leftarrow> usage_lines e data (unat num_ips);
        Some (write_out d out_file_path (pad15 (dec_int now) @ [CHR 0x0A] @ lines), True) })"

text \<open>
  \<open>sscanf\<close> with \<open>%ld\<close> or \<open>%lld\<close>, for numbers of \<open>w\<close> bits: nothing matches, or a number; one that does not fit is
  undefined.
\<close>

definition scan_int :: "nat \<Rightarrow> string \<Rightarrow> int option option" where
  "scan_int w str =
     (let t = dropWhile isspace str;
          (neg, t) = (case t of c # r \<Rightarrow> if c = CHR ''-'' then (True, r) else if c = CHR ''+'' then (False, r) else (False, t)
            | [] \<Rightarrow> (False, []));
          ds = takeWhile isdigit t;
          v = (if neg then - digits_value ds else digits_value ds)
      in if ds = [] then Some None
         else if - (2 ^ (w - 1)) \<le> v \<and> v < 2 ^ (w - 1) then Some (Some v) else None)"

text \<open>
  The loop over the pieces; \<open>inet_aton\<close> is a parameter. A piece that is no address is taken for the time of the
  backup. An address that is the last piece makes the loop read the \<open>NULL\<close> at the end of the pieces.
\<close>

fun load_pieces :: "(string \<Rightarrow> u32 option) \<Rightarrow> nat \<Rightarrow> string list \<Rightarrow> ip_bw list \<Rightarrow> int \<Rightarrow> (ip_bw list \<times> int) option" where
  "load_pieces inet_aton num_data_parts [] data last_backup = Some (data, last_backup)"
| "load_pieces inet_aton num_data_parts (p # ps) data last_backup =
     (case inet_aton p of
        None \<Rightarrow> do {
          t \<leftarrow> scan_int 32 p;
          load_pieces inet_aton num_data_parts ps data (case t of None \<Rightarrow> last_backup | Some t \<Rightarrow> t) }
      | Some ip \<Rightarrow>
          if \<not> length data < num_data_parts then load_pieces inet_aton num_data_parts ps data last_backup
          else (case ps of
              [] \<Rightarrow> None
            | q # ps \<Rightarrow> do {
                b \<leftarrow> scan_int 64 q;
                (case b of
                   None \<Rightarrow> load_pieces inet_aton num_data_parts ps data last_backup
                 | Some b \<Rightarrow>
                     if num_data_parts div 2 + 1 \<le> length data then None
                     else load_pieces inet_aton num_data_parts ps (data @ [\<lparr>usage_ip = ip, bw = word_of_int b\<rparr>]) last_backup) }))"

definition whitespace :: string where
  "whitespace = [CHR 0x0A, CHR 0x0D, CHR 0x09, CHR '' '']"

text \<open>
  The local copies of \<open>read_entire_file\<close> and \<open>split_on_separators\<close> have the text of those of libericstools. The array
  that is returned has the elements; its number is the other result.
\<close>

definition load_usage_from_file :: "(string \<Rightarrow> u32 option) \<Rightarrow> char bw_disk \<Rightarrow> string \<Rightarrow> (ip_bw list ptr \<times> nat \<times> int) option" where
  "load_usage_from_file inet_aton d in_file_path =
     (case files d in_file_path of
        None \<Rightarrow> Some (None, 0, 0)
      | Some f \<Rightarrow> do {
          (_, file_data, _) \<leftarrow> read_entire_file \<lparr>contents = f, fpos = 0\<rparr> 4086;
          line \<leftarrow> cstr_of file_data;
          (data_parts, num_data_parts) \<leftarrow> split_on_separators (Some line) whitespace 4 (- 1) 0;
          parts \<leftarrow> pieces_in data_parts;
          (data, last_backup) \<leftarrow> load_pieces inet_aton num_data_parts (take num_data_parts parts) [] 0;
          Some (Some data, length data, last_backup) })"

subsection \<open>Histories are read as they were written\<close>

lemma cells_val_Some [simp]: "cells_val (map Some xs) = Some xs"
  by (simp add: cells_val_def comp_def)

lemma fread_front: "length xs = n \<Longrightarrow> length cells = n \<Longrightarrow> fread n cells (xs @ ys) = (map Some xs, ys)"
  by (simp add: fread_def)

lemma read_front [bw_facts]:
  "read32 e before (store32 e x @ ys) = (Some x, ys)" "read64 e before (store64 e y @ ys) = (Some y, ys)" "read8 (b # ys) = (Some b, ys)"
  using fread_front[of "[b]" 1 "[None]" ys]
  by (simp_all add: read32_def read64_def read8_def fread_front load_store32 load_store64 cells_val_def[of "[Some b]"])

lemma fits32_ucast: "fits32 b \<Longrightarrow> (ucast (ucast b :: u32) :: u64) = b"
proof -
  assume "fits32 b"
  then have "unat b < 2 ^ 32" by (simp add: fits32_def word_less_nat_alt)
  then show ?thesis by (simp add: word_unat_eq_iff unsigned_ucast_eq take_bit_nat_eq_self_iff unsigned_take_bit_eq)
qed

lemma load_bws_ok:
  "(b32 \<longrightarrow> list_all fits32 bws) \<Longrightarrow>
    load_bws e b32 (length bws) (concat (map (\<lambda>b. if b32 then store32 e (ucast b) else store64 e b) bws) @ f) = Some (bws, f)"
  by (induction bws) (auto simp: bw_facts fits32_ucast)

text \<open>
  A history with given parameters. Without nodes it has no times and no array, as the library reads it from a file;
  the answer to a query can have other times and an empty array in such a history, and these are not written.
\<close>

definition history_ok :: "int \<Rightarrow> int \<Rightarrow> u8 \<Rightarrow> ip_bw_history \<Rightarrow> bool" where
  "history_ok interval shift constant h \<longleftrightarrow>
     reset_interval h = interval \<and> reset_time h = shift \<and> is_constant_interval h = constant \<and>
     in_time (first_start h) \<and> in_time (first_end h) \<and> in_time (last_end h) \<and>
     (if num_nodes h = 0 then first_start h = 0 \<and> first_end h = 0 \<and> last_end h = 0 \<and> history_bws h = None
      else unat (num_nodes h) < 2 ^ 28 \<and> (\<exists>bws. history_bws h = Some bws \<and> length bws = unat (num_nodes h)))"

lemma array_len_8: "unat n < 2 ^ 28 \<Longrightarrow> array_len 8 n = unat n"
proof -
  assume n: "unat n < 2 ^ 28"
  then have "unat (8 * n) = 8 * unat n" by (subst unat_mult_lem[THEN iffD1]) simp_all
  then show ?thesis by (simp add: array_len_def)
qed

lemma load_entry_ok:
  assumes "history_ok interval shift constant h"
  shows "\<exists>entry. history_entry e h = Some entry \<and> load_entry e interval shift constant (entry @ f) = Some (h, f)"
proof (cases "num_nodes h = 0")
  case True
  have "time_of_u64 0 = 0" by (simp add: time_of_u64_def)
  then show ?thesis using assms True
    by (cases h) (simp add: history_entry_def load_entry_def bw_facts history_ok_def)
next
  case False
  then obtain bws where b: "history_bws h = Some bws" "length bws = unat (num_nodes h)" "unat (num_nodes h) < 2 ^ 28"
    using assms by (auto simp: history_ok_def)
  have t: "time_of_u64 (word_of_int (first_start h)) = first_start h" "time_of_u64 (word_of_int (first_end h)) = first_end h"
    "time_of_u64 (word_of_int (last_end h)) = last_end h"
    using assms by (simp_all add: history_ok_def time_of_u64_of_int)
  have n: "history_nodes h = Some bws" using b by (simp add: history_nodes_def)
  define bits where "bits = (if list_all fits32 bws then 32 else 64 :: u8)"
  have "bits = 32 \<longleftrightarrow> list_all fits32 bws" by (simp add: bits_def)
  then have l: "load_bws e (bits = 32) (unat (num_nodes h))
      (concat (map (\<lambda>b. if bits = 32 then store32 e (ucast b) else store64 e b) bws) @ f) = Some (bws, f)"
    using load_bws_ok[of "bits = 32" bws e f] b(2) by simp
  have g: "0 < num_nodes h" using False by (simp add: word_neq_0_conv)
  show ?thesis using assms False g n l t array_len_8[OF b(3)] b(1)
    by (cases h) (simp add: history_entry_def load_entry_def bw_facts history_ok_def bits_def[symmetric] Let_def)
qed

lemma load_entries_ok:
  "list_all (history_ok interval shift constant) hists \<Longrightarrow>
    \<exists>entries. history_entries e hists (length hists) = Some entries \<and>
      load_entries e interval shift constant (length hists) (entries @ f) = Some hists"
proof (induction hists)
  case (Cons h hists)
  then obtain entries where r: "history_entries e hists (length hists) = Some entries"
    "load_entries e interval shift constant (length hists) (entries @ f) = Some hists" by auto
  obtain entry where "history_entry e h = Some entry"
    "load_entry e interval shift constant (entry @ (entries @ f)) = Some (h, entries @ f)"
    using load_entry_ok[where h = h and e = e and f = "entries @ f"] Cons.prems by fastforce
  then show ?case using r by simp
qed simp

lemma write_out_all: "\<forall>n. n \<le> kept d path n \<Longrightarrow> files (write_out d path cs) path = Some cs"
  by (simp add: write_out_def)

lemma array_len_33: "unat n < 2 ^ 26 \<Longrightarrow> array_len 33 n = unat n"
proof -
  assume n: "unat n < 2 ^ 26"
  then have "unat (33 * n) = 33 * unat n" by (subst unat_mult_lem[THEN iffD1]) simp_all
  then show ?thesis by (simp add: array_len_def)
qed

subsection \<open>Numbers in text\<close>

lemma digit_char_10:
  assumes "k < 10"
  shows "isdigit (digit_char k)" "(of_char (digit_char k) :: int) = int k + 48"
proof -
  have "(of_char (digit_char k) :: nat) = k + 48" using assms by (simp add: digit_char_def)
  then show "isdigit (digit_char k)" "(of_char (digit_char k) :: int) = int k + 48"
    using assms by (simp_all add: isdigit_def) (metis of_nat_add of_nat_numeral of_nat_of_char)
qed

lemma dec_digits: "c \<in> set (dec n) \<Longrightarrow> isdigit c"
proof (induction n rule: dec.induct)
  case (1 n)
  then show ?case by (cases "n < 10") (auto simp: dec.simps[of n] digit_char_10)
qed

lemma dec_nonempty [simp]: "dec n \<noteq> []"
  by (subst dec.simps) simp

lemma digits_value_snoc: "digits_value (ds @ [d]) = 10 * digits_value ds + (of_char d - 48)"
  by (simp add: digits_value_def)

lemma digits_value_dec: "digits_value (dec n) = int n"
proof (induction n rule: dec.induct)
  case (1 n)
  show ?case
  proof (cases "n < 10")
    case True
    then show ?thesis by (simp add: dec.simps[of n] digits_value_def digit_char_10)
  next
    case False
    have "int n = 10 * int (n div 10) + int (n mod 10)" by presburger
    then show ?thesis using False 1 by (simp add: dec.simps[of n] digits_value_snoc digit_char_10)
  qed
qed

lemma isdigit_facts: "isdigit c \<Longrightarrow> c \<noteq> CHR ''-'' \<and> c \<noteq> CHR ''+'' \<and> \<not> isspace c \<and> c \<notin> set whitespace \<and> c \<noteq> NUL"
  by (auto simp: isdigit_def isspace_def whitespace_def NUL_def)

text \<open>A number is scanned up to what follows it.\<close>

lemma scan_int_dec:
  assumes "rest = [] \<or> \<not> isdigit (hd rest)" "int n < 2 ^ (w - 1)"
  shows "scan_int w (dec n @ rest) = Some (Some (int n))"
proof -
  obtain c cs where d: "dec n = c # cs" by (cases "dec n") auto
  then have c: "isdigit c" using dec_digits[of c n] by simp
  have "takeWhile isdigit (dec n @ rest) = dec n"
    using assms(1) dec_digits by (cases rest) (auto simp: takeWhile_append2)
  moreover have "- (2 ^ (w - 1)) \<le> int n" by (rule order_trans[of _ 0]) simp_all
  ultimately show ?thesis using isdigit_facts[OF c] assms(2) digits_value_dec[of n] d
    by (simp add: scan_int_def Let_def)
qed

lemma scan_dec_int:
  assumes "- (2 ^ (w - 1)) \<le> i" "i < 2 ^ (w - 1)"
  shows "scan_int w (dec_int i) = Some (Some i)"
proof (cases "i < 0")
  case True
  obtain c cs where d: "dec (nat (- i)) = c # cs" by (cases "dec (nat (- i))") auto
  have "takeWhile isdigit (dec (nat (- i))) = dec (nat (- i))" using dec_digits by (simp add: takeWhile_eq_all_conv)
  then show ?thesis using True assms digits_value_dec[of "nat (- i)"] d
    by (simp add: scan_int_def dec_int_def Let_def isspace_def)
next
  case False
  then show ?thesis using scan_int_dec[of "[]" "nat i" w] assms by (simp add: dec_int_def)
qed

subsection \<open>The pieces of a usage file\<close>

definition plain :: "string \<Rightarrow> bool" where
  "plain s \<longleftrightarrow> s \<noteq> [] \<and> (\<forall>c \<in> set s. c \<notin> set whitespace \<and> c \<noteq> NUL)"

lemma plain_dec: "plain (dec n)"
  using dec_digits isdigit_facts by (auto simp: plain_def)

lemma plain_dec_int: "plain (dec_int i)"
  using plain_dec[of "nat i"] plain_dec[of "nat (- i)"] by (auto simp: dec_int_def plain_def whitespace_def NUL_def)

lemma inet_ntoa_eq:
  "\<exists>b0 b1 b2 b3. store32 e a = [b0, b1, b2, b3] \<and>
    inet_ntoa e a = dec (unat b0) @ ''.'' @ dec (unat b1) @ ''.'' @ dec (unat b2) @ ''.'' @ dec (unat b3)"
  by (cases e) (simp_all add: inet_ntoa_def UNPACK32_def)

lemma plain_ntoa: "plain (inet_ntoa e a)"
proof -
  obtain b0 b1 b2 b3 :: u8 where "inet_ntoa e a = dec (unat b0) @ ''.'' @ dec (unat b1) @ ''.'' @ dec (unat b2) @ ''.'' @ dec (unat b3)"
    using inet_ntoa_eq[of e a] by blast
  moreover have "CHR ''.'' \<notin> set whitespace" "CHR ''.'' \<noteq> NUL" by (simp_all add: whitespace_def NUL_def)
  ultimately show ?thesis using plain_dec unfolding plain_def by auto
qed

definition usage_pieces :: "endian \<Rightarrow> ip_bw list \<Rightarrow> string list" where
  "usage_pieces e us = concat (map (\<lambda>u. [inet_ntoa e (usage_ip u), dec_int (sint (bw u))]) us)"

definition in_whitespace :: "char \<Rightarrow> bool" where
  "in_whitespace = (\<lambda>c. c \<in> set whitespace)"

lemma tokens_padded: "plain w \<Longrightarrow> in_whitespace c \<Longrightarrow> tokens in_whitespace (pad15 w @ c # s) = w # tokens in_whitespace s"
proof -
  assume w: "plain w" and c: "in_whitespace c"
  have sp: "tokens in_whitespace (replicate k CHR '' '' @ c # s) = tokens in_whitespace s" for k
    using c by (induction k) (simp_all add: in_whitespace_def whitespace_def)
  have "tokens in_whitespace (w @ replicate (15 - length w) CHR '' '' @ c # s) =
      w # tokens in_whitespace (replicate (15 - length w) CHR '' '' @ c # s)"
    using w c by (intro tokens_word) (auto simp: plain_def in_whitespace_def whitespace_def hd_append)
  then show ?thesis unfolding sp by (simp add: pad15_def)
qed

lemma tokens_usage:
  "usage_lines e us (length us) = Some lines \<Longrightarrow> tokens in_whitespace lines = usage_pieces e us"
proof (induction us arbitrary: lines)
  case (Cons u us)
  then obtain rest where r: "usage_lines e us (length us) = Some rest" "lines = usage_line e u @ rest" by (auto split: bind_splits)
  have w: "in_whitespace (CHR 0x09)" "in_whitespace (CHR 0x0A)" by (simp_all add: in_whitespace_def whitespace_def)
  have "tokens in_whitespace (dec_int (sint (bw u)) @ CHR 0x0A # rest) = dec_int (sint (bw u)) # tokens in_whitespace (CHR 0x0A # rest)"
    using plain_dec_int w(2) by (intro tokens_word) (auto simp: plain_def in_whitespace_def)
  then show ?case using tokens_padded[OF plain_ntoa w(1)] Cons.IH[OF r(1)] w(2)
    by (simp add: r(2) usage_line_def usage_pieces_def)
qed (simp add: usage_pieces_def)

lemma usage_lines_total: "\<exists>lines. usage_lines e us (length us) = Some lines"
  by (induction us) auto

lemma plain_NUL: "plain s \<Longrightarrow> NUL \<notin> set s"
  by (auto simp: plain_def)

lemma NUL_not_space: "NUL \<noteq> CHR '' ''" "NUL \<noteq> CHR 0x09" "NUL \<noteq> CHR 0x0A"
  by (simp_all add: NUL_def)

lemma usage_line_NUL: "NUL \<notin> set (usage_line e u)"
  using plain_NUL[OF plain_ntoa] plain_NUL[OF plain_dec_int] NUL_not_space by (simp add: usage_line_def pad15_def)

lemma usage_lines_NUL: "usage_lines e us (length us) = Some lines \<Longrightarrow> NUL \<notin> set lines"
proof (induction us arbitrary: lines)
  case (Cons u us)
  then obtain rest where "usage_lines e us (length us) = Some rest" "lines = usage_line e u @ rest" by (auto split: bind_splits)
  then show ?case using Cons.IH usage_line_NUL by simp
qed simp

lemma load_usage_pieces:
  assumes "files d path = Some (pad15 (dec_int now) @ CHR 0x0A # lines)" "usage_lines e us (length us) = Some lines"
  shows "load_usage_from_file inet_aton d path = do {
    (data, last_backup) \<leftarrow> load_pieces inet_aton (1 + 2 * length us) (dec_int now # usage_pieces e us) [] 0;
    Some (Some data, length data, last_backup) }"
proof -
  let ?f = "pad15 (dec_int now) @ CHR 0x0A # lines" and ?ps = "dec_int now # usage_pieces e us"
  have nul: "NUL \<notin> set ?f" using plain_NUL[OF plain_dec_int] usage_lines_NUL[OF assms(2)] NUL_not_space by (simp add: pad15_def)
  obtain cells where r: "read_entire_file \<lparr>contents = ?f, fpos = 0\<rparr> 4086 =
      Some (\<lparr>contents = ?f, fpos = length ?f\<rparr>, map Some ?f @ Some NUL # cells, length ?f)"
    using read_entire_file_ok[of 4086 "\<lparr>contents = ?f, fpos = 0\<rparr>"] by auto
  have t: "split_pieces whitespace (- 1) 0 ?f = ?ps"
    using tokens_padded[OF plain_dec_int[of now], of "CHR 0x0A" lines] tokens_usage[OF assms(2)]
    by (simp add: split_pieces_def in_whitespace_def[symmetric]) (simp add: in_whitespace_def whitespace_def)
  have l: "length ?ps = 1 + 2 * length us" by (induction us) (simp_all add: usage_pieces_def)
  have ws: "length whitespace = 4" "whitespace \<noteq> []" by (simp_all add: whitespace_def)
  obtain cells2 where "split_on_separators (Some ?f) whitespace 4 (- 1) 0 = Some (cells_of ?ps @ Some None # cells2, length ?ps)"
    using split_ok[OF ws(2) nul, of "- 1" 0] unfolding t ws(1) by blast
  then show ?thesis using r l pieces_in_cells[of ?ps cells2] nul
    by (simp add: load_usage_from_file_def assms(1) cstr_of_app del: map_append list.map)
qed

subsection \<open>Properties\<close>

text \<open>C20: Histories of one rule that are saved to a file that can be written are loaded from it as they were, with their
  number, in both byte orders and with bandwidths of 32 or 64 bits; of no histories none are loaded.\<close>

theorem saved_histories_are_loaded:
  assumes "list_all (history_ok interval shift constant) hists" "in_time interval" "in_time shift" "length hists < 2 ^ 26"
    and "writable d path" "\<forall>n. n \<le> kept d path n"
  shows "\<exists>d'. save_history_to_file e d hists (of_nat (length hists)) path = Some (d', True) \<and>
    load_history_from_file e d' path = Some (if hists = [] then None else Some hists, of_nat (length hists))"
proof -
  have u: "unat (of_nat (length hists) :: u32) = length hists"
    using assms(4) by (simp add: unsigned_of_nat take_bit_nat_eq_self_iff)
  obtain entries where e: "history_entries e hists (length hists) = Some entries"
    "load_entries e interval shift constant (length hists) (entries @ []) = Some hists"
    using load_entries_ok[OF assms(1)] by blast
  show ?thesis
  proof (cases hists)
    case Nil
    then show ?thesis using assms(5,6) read_front(1)[of e "Some 0" 0 "[]"]
      by (simp add: save_history_to_file_def history_file_def write_out_def load_history_from_file_def)
  next
    case (Cons h hists')
    then have h: "reset_interval h = interval" "reset_time h = shift" "is_constant_interval h = constant"
      using assms(1) by (simp_all add: history_ok_def)
    have nz: "(0 :: u32) < of_nat (length hists)" "of_nat (length hists) \<noteq> (0 :: u32)"
      using u Cons by (auto simp: word_less_nat_alt word_unat_eq_iff)
    let ?bytes = "store32 e (of_nat (length hists)) @ (store64 e (word_of_int interval) @ store64 e (word_of_int shift) @ [constant]) @ entries"
    have f: "history_file e hists (of_nat (length hists)) = Some ?bytes"
      using e(1) nz u h by (simp add: history_file_def Cons)
    have a: "array_len 33 (of_nat (length hists)) = length hists" using array_len_33[of "of_nat (length hists)"] u assms(4) by simp
    have "load_history_from_file e (write_out d path ?bytes) path = Some (Some hists, of_nat (length hists))"
      using e(2) nz u a assms(2,3,6)
      by (simp add: load_history_from_file_def write_out_all bw_facts time_of_u64_of_int)
    then show ?thesis using f assms(5) Cons by (simp add: save_history_to_file_def)
  qed
qed

lemma load_pieces_ok:
  assumes "\<forall>a. inet_aton (inet_ntoa e a) = Some a"
  shows "2 * (length acc + length us) + 1 \<le> num \<Longrightarrow>
    load_pieces inet_aton num (usage_pieces e us) acc last_backup = Some (acc @ us, last_backup)"
proof (induction us arbitrary: acc)
  case (Cons u us)
  have "scan_int 64 (dec_int (sint (bw u))) = Some (Some (sint (bw u)))"
    using sint_ge[of "bw u"] sint_less[of "bw u"] by (intro scan_dec_int) simp_all
  moreover have "2 * (length acc + 1) div 2 \<le> num div 2" using Cons.prems by (intro div_le_mono) simp
  then have "\<not> num div 2 + 1 \<le> length acc" by simp
  moreover have "length acc < num" using Cons.prems by simp
  moreover have "load_pieces inet_aton num (usage_pieces e us) (acc @ [u]) last_backup = Some ((acc @ [u]) @ us, last_backup)"
    using Cons.prems by (intro Cons.IH) simp
  ultimately show ?case using assms by (cases u) (simp add: usage_pieces_def)
qed (simp add: usage_pieces_def)

lemma saved_usage_file:
  assumes "writable d path" "\<forall>n. n \<le> kept d path n" "length us < 2 ^ 32"
  shows "\<exists>d' lines. save_usage_to_file e now d us (of_nat (length us)) path = Some (d', True) \<and>
    files d' path = Some (pad15 (dec_int now) @ CHR 0x0A # lines) \<and> usage_lines e us (length us) = Some lines"
proof -
  have "unat (of_nat (length us) :: u32) = length us" using assms(3) by (simp add: unsigned_of_nat take_bit_nat_eq_self_iff)
  moreover obtain lines where "usage_lines e us (length us) = Some lines" using usage_lines_total by blast
  ultimately show ?thesis using assms(1,2) write_out_all[OF assms(2)] by (simp add: save_usage_to_file_def)
qed

text \<open>C37: With an \<open>inet_aton\<close> that reads back what \<open>inet_ntoa\<close> writes and does not take the time of the backup for an
  address, usage that is saved to a file that can be written is loaded from it as it was, with the time of the backup.\<close>

theorem saved_usage_is_loaded:
  assumes "\<forall>a. inet_aton (inet_ntoa e a) = Some a" "inet_aton (dec_int now) = None" "in_time now"
    and "writable d path" "\<forall>n. n \<le> kept d path n" "length us < 2 ^ 32"
  shows "\<exists>d'. save_usage_to_file e now d us (of_nat (length us)) path = Some (d', True) \<and>
    load_usage_from_file inet_aton d' path = Some (Some us, length us, now)"
proof -
  obtain d' lines where s: "save_usage_to_file e now d us (of_nat (length us)) path = Some (d', True)"
    "files d' path = Some (pad15 (dec_int now) @ CHR 0x0A # lines)" "usage_lines e us (length us) = Some lines"
    using saved_usage_file[OF assms(4-6)] by blast
  have "scan_int 32 (dec_int now) = Some (Some now)"
    using assms(3) by (intro scan_dec_int) (simp_all add: in_time_def int_max_def)
  then show ?thesis using s(1) load_usage_pieces[OF s(2,3), of inet_aton] load_pieces_ok[OF assms(1), of "[]" us "1 + 2 * length us" now] assms(2)
    by simp
qed

text \<open>An \<open>inet_aton\<close> that takes decimal numbers: each number is taken for the address of the next piece.\<close>

lemma load_pieces_shifted:
  assumes "\<forall>n<2 ^ 32. inet_aton (dec n) \<noteq> None"
  shows "k < 2 ^ 32 \<Longrightarrow> \<forall>u \<in> set us. 0 \<le> sint (bw u) \<and> sint (bw u) < 2 ^ 32 \<Longrightarrow> length acc + length us < num \<Longrightarrow>
    length acc + length us \<le> num div 2 \<Longrightarrow>
    \<exists>wrong. length wrong = length us \<and> load_pieces inet_aton num (dec k # usage_pieces e us) acc last_backup =
      load_pieces inet_aton num [dec (last (k # map (\<lambda>u. nat (sint (bw u))) us))] (acc @ wrong) last_backup"
proof (induction us arbitrary: k acc)
  case (Cons u us)
  obtain b0 b1 b2 b3 :: u8 where n: "inet_ntoa e (usage_ip u) = dec (unat b0) @ ''.'' @ dec (unat b1) @ ''.'' @ dec (unat b2) @ ''.'' @ dec (unat b3)"
    using inet_ntoa_eq[of e "usage_ip u"] by blast
  have "unat b0 < 256" using unsigned_less[of b0] by simp
  then have b0: "int (unat b0) < 2 ^ (64 - 1)" by (rule less_trans[OF of_nat_less_iff[THEN iffD2]]) simp
  have scan: "scan_int 64 (inet_ntoa e (usage_ip u)) = Some (Some (int (unat b0)))"
    unfolding n by (rule scan_int_dec[OF _ b0]) (simp add: isdigit_def)
  let ?k = "nat (sint (bw u))"
  have k: "dec_int (sint (bw u)) = dec ?k" "?k < 2 ^ 32" using Cons.prems(2) by (simp_all add: dec_int_def nat_less_iff)
  obtain a where a: "inet_aton (dec k) = Some a" using assms Cons.prems(1) by blast
  let ?x = "\<lparr>usage_ip = a, bw = word_of_int (int (unat b0))\<rparr>"
  obtain wrong where w: "length wrong = length us" "load_pieces inet_aton num (dec ?k # usage_pieces e us) (acc @ [?x]) last_backup =
      load_pieces inet_aton num [dec (last (?k # map (\<lambda>u. nat (sint (bw u))) us))] ((acc @ [?x]) @ wrong) last_backup"
    using Cons.IH[OF k(2), of "acc @ [?x]"] Cons.prems(2-4) by auto
  have "load_pieces inet_aton num (dec k # usage_pieces e (u # us)) acc last_backup =
      load_pieces inet_aton num (dec ?k # usage_pieces e us) (acc @ [?x]) last_backup"
    using a scan k(1) Cons.prems(3,4) by (simp add: usage_pieces_def)
  then show ?case using w by (intro exI[of _ "?x # wrong"]) simp
qed (simp add: usage_pieces_def del: load_pieces.simps)

text \<open>C38: With an \<open>inet_aton\<close> that takes decimal numbers below 2^32 for addresses, as that of glibc does, the time of the backup
  is taken for the first address and every later piece for the one before it. When all byte counts are below
  2^32, the loader has so many wrong elements as were saved when it takes the last piece for an address, for which
  it reads the bytes through the \<open>NULL\<close> after the pieces.\<close>

theorem time_taken_for_address:
  assumes "\<forall>n<2 ^ 32. inet_aton (dec n) \<noteq> None" "in_time now" "0 \<le> now"
    and "\<forall>u \<in> set us. 0 \<le> sint (bw u) \<and> sint (bw u) < 2 ^ 32"
    and "writable d path" "\<forall>n. n \<le> kept d path n" "length us < 2 ^ 32"
  shows "\<exists>d' wrong p. save_usage_to_file e now d us (of_nat (length us)) path = Some (d', True) \<and>
    length wrong = length us \<and> inet_aton p \<noteq> None \<and>
    load_pieces inet_aton (1 + 2 * length us) (dec_int now # usage_pieces e us) [] 0 =
      load_pieces inet_aton (1 + 2 * length us) [p] wrong 0 \<and>
    load_usage_from_file inet_aton d' path = None"
proof -
  obtain d' lines where s: "save_usage_to_file e now d us (of_nat (length us)) path = Some (d', True)"
    "files d' path = Some (pad15 (dec_int now) @ CHR 0x0A # lines)" "usage_lines e us (length us) = Some lines"
    using saved_usage_file[OF assms(5-7)] by blast
  have now: "dec_int now = dec (nat now)" "nat now < 2 ^ 32" using assms(2,3) by (simp_all add: dec_int_def in_time_def int_max_def)
  let ?p = "last (nat now # map (\<lambda>u. nat (sint (bw u))) us)"
  have "?p \<in> set (nat now # map (\<lambda>u. nat (sint (bw u))) us)" by (rule last_in_set) simp
  then have "?p < 2 ^ 32" using now(2) assms(4) by (auto simp: nat_less_iff)
  then obtain a where a: "inet_aton (dec ?p) = Some a" using assms(1) by blast
  obtain wrong where w: "length wrong = length us"
    "load_pieces inet_aton (1 + 2 * length us) (dec_int now # usage_pieces e us) [] 0 = load_pieces inet_aton (1 + 2 * length us) [dec ?p] wrong 0"
    using load_pieces_shifted[OF assms(1) now(2) assms(4), of "[]" "1 + 2 * length us" e 0] by (auto simp: now(1))
  then have "load_pieces inet_aton (1 + 2 * length us) (dec_int now # usage_pieces e us) [] 0 = None" using a by simp
  then have "load_usage_from_file inet_aton d' path = None" using load_usage_pieces[OF s(2,3), of inet_aton] by simp
  then show ?thesis using s(1) w a by blast
qed

text \<open>A disk with room for everything.\<close>

definition empty_disk :: "'c bw_disk" where
  "empty_disk = \<lparr>files = \<lambda>p. None, writable = \<lambda>p. True, kept = \<lambda>p n. n\<rparr>"

lemma saved_histories_are_loaded_witness:
  "\<exists>d'. save_history_to_file Big empty_disk [monthly_history 0] 1 ''/tmp/bw'' = Some (d', True) \<and>
    load_history_from_file Big d' ''/tmp/bw'' = Some (Some [monthly_history 0], 1)"
proof -
  have h: "list_all (history_ok BANDWIDTH_MONTH 0 0) [monthly_history 0]" "in_time BANDWIDTH_MONTH" "in_time 0" "length [monthly_history 0] < 2 ^ 26"
    "writable empty_disk ''/tmp/bw''" "\<forall>n. n \<le> kept empty_disk ''/tmp/bw'' n"
    by (simp_all add: history_ok_def monthly_history_def in_time_def int_max_def BANDWIDTH_MONTH_def empty_disk_def)
  from saved_histories_are_loaded[OF h, of Big] show ?thesis by simp
qed

text \<open>An \<open>inet_aton\<close> that takes four decimal numbers only, as the one of uClibc does.\<close>

definition octet :: "string \<Rightarrow> (u8 \<times> string) option" where
  "octet s = (let ds = takeWhile isdigit s in
     if ds = [] \<or> 255 < digits_value ds then None else Some (of_int (digits_value ds), dropWhile isdigit s))"

fun after_dot :: "string \<Rightarrow> string option" where
  "after_dot (c # s) = (if c = CHR ''.'' then Some s else None)"
| "after_dot [] = None"

definition dotted_aton :: "endian \<Rightarrow> string \<Rightarrow> u32 option" where
  "dotted_aton e s = do {
     (b0, s) \<leftarrow> octet s; s \<leftarrow> after_dot s; (b1, s) \<leftarrow> octet s; s \<leftarrow> after_dot s;
     (b2, s) \<leftarrow> octet s; s \<leftarrow> after_dot s; (b3, s) \<leftarrow> octet s;
     if s = [] then Some (load32 e [b0, b1, b2, b3]) else None }"

lemma octet_dec:
  fixes b :: u8
  assumes "rest = [] \<or> \<not> isdigit (hd rest)"
  shows "octet (dec (unat b) @ rest) = Some (b, rest)"
proof -
  have "takeWhile isdigit (dec (unat b) @ rest) = dec (unat b)" "dropWhile isdigit (dec (unat b) @ rest) = rest"
    using assms dec_digits by (cases rest; auto simp: takeWhile_append2 dropWhile_append2)+
  moreover have "dec (unat b) \<noteq> []" using dec_nonempty by simp
  moreover have "digits_value (dec (unat b)) = int (unat b)" by (rule digits_value_dec)
  moreover have "unat b < 256" by (rule unsigned_less[of b, simplified])
  moreover have "(of_int (int (unat b)) :: u8) = b" by simp
  ultimately show ?thesis unfolding octet_def Let_def by presburger
qed

lemma dotted_aton_ntoa: "dotted_aton e (inet_ntoa e a) = Some a"
proof -
  obtain b0 b1 b2 b3 :: u8 where "store32 e a = [b0, b1, b2, b3]"
    "inet_ntoa e a = dec (unat b0) @ ''.'' @ dec (unat b1) @ ''.'' @ dec (unat b2) @ ''.'' @ dec (unat b3)"
    using inet_ntoa_eq[of e a] by blast
  moreover from this have "load32 e [b0, b1, b2, b3] = a" using load_store32[of e a] by simp
  ultimately show ?thesis using octet_dec[of "[]" b3] by (simp add: dotted_aton_def octet_dec isdigit_def)
qed

lemma saved_usage_is_loaded_witness:
  "\<exists>d'. save_usage_to_file Little 1381000000 empty_disk [\<lparr>usage_ip = 7, bw = 5\<rparr>] 1 ''/tmp/bw'' = Some (d', True) \<and>
    load_usage_from_file (dotted_aton Little) d' ''/tmp/bw'' = Some (Some [\<lparr>usage_ip = 7, bw = 5\<rparr>], 1, 1381000000)"
proof -
  have a: "\<forall>a. dotted_aton Little (inet_ntoa Little a) = Some a" by (simp add: dotted_aton_ntoa)
  have "takeWhile isdigit (dec 1381000000) = dec 1381000000" using dec_digits by (simp add: takeWhile_eq_all_conv)
  then have "octet (dec 1381000000) = None" unfolding octet_def by (simp only: digits_value_dec Let_def) simp
  then have b: "dotted_aton Little (dec_int 1381000000) = None" by (simp add: dotted_aton_def dec_int_def)
  have c: "in_time 1381000000" "writable empty_disk ''/tmp/bw''" "\<forall>n. n \<le> kept empty_disk ''/tmp/bw'' n"
    "length [\<lparr>usage_ip = 7, bw = 5\<rparr>] < 2 ^ 32" by (simp_all add: in_time_def int_max_def empty_disk_def)
  from saved_usage_is_loaded[OF a b c] show ?thesis by simp
qed

text \<open>An \<open>inet_aton\<close> that also takes a number below 2^32, in network byte order.\<close>

definition number_aton :: "endian \<Rightarrow> string \<Rightarrow> u32 option" where
  "number_aton e s =
     (if s \<noteq> [] \<and> list_all isdigit s
      then if digits_value s < 2 ^ 32 then Some (load32 e (store32 Big (word_of_int (digits_value s)))) else None
      else dotted_aton e s)"

lemma time_taken_for_address_witness:
  "number_aton Little ''192.168.1.7'' = dotted_aton Little ''192.168.1.7'' \<and> number_aton Little ''4294967296'' = None \<and>
   (\<exists>d' wrong p. save_usage_to_file Little 1381000000 empty_disk [\<lparr>usage_ip = 7, bw = 5\<rparr>, \<lparr>usage_ip = 9, bw = 70000\<rparr>] 2 ''/tmp/bw'' =
      Some (d', True) \<and> length wrong = 2 \<and>
    load_pieces (number_aton Little) 5 (dec_int 1381000000 # usage_pieces Little [\<lparr>usage_ip = 7, bw = 5\<rparr>, \<lparr>usage_ip = 9, bw = 70000\<rparr>]) [] 0 =
      load_pieces (number_aton Little) 5 [p] wrong 0 \<and>
    load_usage_from_file (number_aton Little) d' ''/tmp/bw'' = None)"
proof -
  let ?us = "[\<lparr>usage_ip = 7, bw = 5\<rparr>, \<lparr>usage_ip = 9, bw = 70000\<rparr>]"
  have dec: "number_aton Little (dec n) \<noteq> None" if "n < 2 ^ 32" for n
  proof -
    have "digits_value (dec n) < 2 ^ 32" using that by (simp add: digits_value_dec)
    then show ?thesis using dec_digits by (simp add: number_aton_def list_all_iff)
  qed
  have c: "\<forall>n<2 ^ 32. number_aton Little (dec n) \<noteq> None" "in_time 1381000000" "(0 :: int) \<le> 1381000000"
    "\<forall>u \<in> set ?us. 0 \<le> sint (bw u) \<and> sint (bw u) < 2 ^ 32"
    "writable empty_disk ''/tmp/bw''" "\<forall>n. n \<le> kept empty_disk ''/tmp/bw'' n" "length ?us < 2 ^ 32"
    using dec by (simp_all add: empty_disk_def in_time_def int_max_def)
  have "number_aton Little ''192.168.1.7'' = dotted_aton Little ''192.168.1.7''" "number_aton Little ''4294967296'' = None"
    by (simp_all add: number_aton_def isdigit_def digits_value_def)
  moreover have n: "length ?us = 2" "(of_nat 2 :: u32) = 2" "1 + 2 * 2 = (5 :: nat)" by simp_all
  moreover note time_taken_for_address[OF c, of Little, unfolded n]
  ultimately show ?thesis by blast
qed

end
