(* ===== verification/FwOptions.thy ===== *)
theory FwOptions
  imports StringUtil CLib
begin

unbundle bit_operations_syntax

text \<open>
  The options of a firewall rule (gargoyle-firewall-util/src/make_iptables_rules.c): how the section of a
  configuration becomes a rule definition. The configuration library is a parameter: the options of a section,
  in their order. The string functions are those of \<open>StringUtil\<close>.
\<close>

subsection \<open>String functions on strings\<close>

text \<open>The functions of libericstools change buffers; here a string is put into one and read back.\<close>

definition in_place :: "(char option list \<Rightarrow> char option list option) \<Rightarrow> string \<Rightarrow> string option" where
  "in_place f s = do { b \<leftarrow> f (map Some s @ [Some NUL]); cstr_of b }"

definition trim :: "string \<Rightarrow> string option" where
  "trim s = in_place trim_flanking_whitespace s"

definition lower :: "string \<Rightarrow> string option" where
  "lower s = in_place to_lowercase s"

definition upper :: "string \<Rightarrow> string option" where
  "upper s = in_place to_uppercase s"

definition split_at :: "string ptr \<Rightarrow> char \<Rightarrow> int \<Rightarrow> int \<Rightarrow> string list option" where
  "split_at line c max_pieces include_remainder = do {
     (cells, n) \<leftarrow> split_on_separators line [c] 1 max_pieces include_remainder;
     pieces_in cells }"

text \<open>\<open>sscanf\<close> with \<open>%d\<close>: no number, or the rest of the string; a number that is no \<open>int\<close> is undefined.\<close>

definition scan_d :: "string \<Rightarrow> string ptr option" where
  "scan_d s =
     (let t = dropWhile isspace s;
          t = (case t of c # r \<Rightarrow> if c = CHR ''-'' \<or> c = CHR ''+'' then r else t | [] \<Rightarrow> []);
          ds = takeWhile isdigit t
      in if ds = [] then Some None else if digits_value ds \<le> int_max then Some (Some (dropWhile isdigit t)) else None)"

text \<open>How many of the numbers between dots are there, of the four of an address.\<close>

fun scan_fields :: "nat \<Rightarrow> string \<Rightarrow> nat option" where
  "scan_fields 0 s = Some 0"
| "scan_fields (Suc n) s = do {
     r \<leftarrow> scan_d s;
     (case r of None \<Rightarrow> Some 0
      | Some [] \<Rightarrow> Some 1
      | Some (c # s) \<Rightarrow> if c = CHR ''.'' then map_option Suc (scan_fields n s) else Some 1) }"

subsection \<open>The rule definition\<close>

text \<open>
  The string map of a rule definition has values of four types: a string, an array of strings, the three arrays
  of an address and a list. The name of an option determines the type of its value.
\<close>

record rule_def =
  text_of :: "string \<rightharpoonup> string"
  parts_of :: "string \<rightharpoonup> string list"
  addrs_of :: "string \<rightharpoonup> string list \<times> string list \<times> string list"
  urls_of :: "string \<rightharpoonup> string list"

definition initial_definition :: rule_def where
  "initial_definition = \<lparr>text_of = Map.empty, parts_of = Map.empty, addrs_of = Map.empty, urls_of = Map.empty\<rparr>"

subsection \<open>Parsing of values\<close>

definition parse_ports :: "string ptr \<Rightarrow> string list option" where
  "parse_ports port_str = do {
     ports \<leftarrow> split_at port_str CHR '','' (- 1) 0;
     those (map (\<lambda>p. trim (map (\<lambda>c. if c = CHR ''-'' then CHR '':'' else c) p)) ports) }"

text \<open>The conversion \<open>%lX\<close>.\<close>

fun hex_digits :: "nat \<Rightarrow> string" where
  "hex_digits n = (if n < 16 then [''0123456789ABCDEF'' ! n] else hex_digits (n div 16) @ [''0123456789ABCDEF'' ! (n mod 16)])"

declare hex_digits.simps [simp del]

definition hex_str :: "u32 \<Rightarrow> string" where
  "hex_str x = ''0x'' @ hex_digits (unat x)"

text \<open>\<open>sscanf\<close> with \<open>%lX\<close>, of a number without a sign; nothing matches, or a number; one that does not fit is undefined.\<close>

definition hex_value :: "char \<Rightarrow> nat ptr" where
  "hex_value c =
     (let n = of_char c in
      if 48 \<le> n \<and> n \<le> (57 :: nat) then Some (n - 48)
      else if 65 \<le> n \<and> n \<le> 70 then Some (n - 55) else if 97 \<le> n \<and> n \<le> 102 then Some (n - 87) else None)"

definition scan_hex :: "string \<Rightarrow> u32 ptr option" where
  "scan_hex s =
     (let t = dropWhile isspace s;
          t = (if (prefix ''0x'' t \<or> prefix ''0X'' t) \<and> 2 < length t \<and> hex_value (t ! 2) \<noteq> None then drop 2 t else t);
          ds = takeWhile (\<lambda>c. hex_value c \<noteq> None) t;
          v = foldl (\<lambda>v c. 16 * v + the (hex_value c)) 0 ds
      in if ds = [] then Some None else if v < 2 ^ 32 then Some (Some (of_nat v)) else None)"

definition mask_mark :: "u32 \<Rightarrow> string \<Rightarrow> string option" where
  "mask_mark max_mask m =
     (if CHR ''/'' \<in> set m then do {
        let upto = takeWhile (\<lambda>c. c \<noteq> CHR ''/'') m @ ''/'';
        mask \<leftarrow> scan_hex (drop (length upto) m);
        let mask = (case mask of None \<Rightarrow> 0xFFFFFFFF | Some x \<Rightarrow> x) AND max_mask;
        Some (upto @ hex_str mask) }
      else Some (m @ ''/'' @ hex_str max_mask))"

definition parse_marks :: "string ptr \<Rightarrow> u32 \<Rightarrow> string list ptr option" where
  "parse_marks list_str max_mask =
     (case list_str of
        None \<Rightarrow> Some None
      | Some s \<Rightarrow> do {
          marks \<leftarrow> split_at (Some s) CHR '','' (- 1) 0;
          if marks = [] then Some None
          else do {
            marks \<leftarrow> those (map (\<lambda>m. do {
              m \<leftarrow> trim m;
              if max_mask \<noteq> 0xFFFFFFFF then mask_mark max_mask m else Some m }) marks);
            Some (Some marks) } })"

text \<open>Addresses, ranges of addresses and MAC addresses.\<close>

fun parse_addr_parts :: "string list \<Rightarrow> string list \<times> string list \<times> string list \<Rightarrow> (string list \<times> string list \<times> string list) option" where
  "parse_addr_parts [] found = Some found"
| "parse_addr_parts (next_str # addr_parts) (ips, ranges, macs) =
     (if CHR '':'' \<in> set next_str then do {
        next_str \<leftarrow> trim next_str;
        if length next_str = 17 then do {
          m \<leftarrow> trim next_str;
          parse_addr_parts addr_parts (ips, ranges, macs @ [m]) }
        else parse_addr_parts addr_parts (ips, ranges, macs) }
      else if CHR ''-'' \<in> set next_str then do {
        range_parts \<leftarrow> split_at (Some next_str) CHR ''-'' 2 1;
        (case range_parts of
           [start, fin] \<Rightarrow> do {
             start \<leftarrow> trim start;
             fin \<leftarrow> trim fin;
             start_valid \<leftarrow> scan_fields 4 start;
             end_valid \<leftarrow> scan_fields 4 fin;
             if start_valid = 4 \<and> end_valid = 4 then do {
               r \<leftarrow> trim next_str;
               parse_addr_parts addr_parts (ips, ranges @ [r], macs) }
             else parse_addr_parts addr_parts (ips, ranges, macs) }
         | _ \<Rightarrow> None) }
      else do {
        valid \<leftarrow> scan_fields 4 next_str;
        if valid = 4 then do {
          a \<leftarrow> trim next_str;
          parse_addr_parts addr_parts (ips @ [a], ranges, macs) }
        else parse_addr_parts addr_parts (ips, ranges, macs) })"

definition parse_ips_and_macs :: "string ptr \<Rightarrow> (string list \<times> string list \<times> string list) ptr option" where
  "parse_ips_and_macs addr_str = do {
     addr_parts \<leftarrow> split_at addr_str CHR '','' (- 1) 0;
     found \<leftarrow> parse_addr_parts addr_parts ([], [], []);
     Some (if found = ([], [], []) then None else Some found) }"

text \<open>Quoted strings. The first loop counts the quotes, for the size of the array; the second one makes the pieces.\<close>

fun count_quotes :: "char \<Rightarrow> char \<Rightarrow> string \<Rightarrow> bool \<Rightarrow> nat \<Rightarrow> nat" where
  "count_quotes quote esc [] previous_is_quoted num_quotes = num_quotes"
| "count_quotes quote esc (c # cs) previous_is_quoted num_quotes =
     count_quotes quote esc cs (c = esc \<and> \<not> previous_is_quoted)
       (num_quotes + (if c = quote \<and> \<not> previous_is_quoted then 1 else 0))"

fun quoted_loop :: "string \<Rightarrow> char \<Rightarrow> char \<Rightarrow> string \<Rightarrow> nat \<Rightarrow> bool \<Rightarrow> nat ptr \<Rightarrow> str_array \<Rightarrow> nat \<Rightarrow> (str_array \<times> nat \<times> nat ptr) option" where
  "quoted_loop list_str quote esc [] list_index previous_is_quoted next_start_index ps piece_index =
     Some (ps, piece_index, next_start_index)"
| "quoted_loop list_str quote esc (c # cs) list_index previous_is_quoted next_start_index ps piece_index = do {
     (ps, piece_index, next_start_index) \<leftarrow>
       (if c = quote \<and> \<not> previous_is_quoted then
          (case next_start_index of
             None \<Rightarrow> Some (ps, piece_index, Some (list_index + 1))
           | Some start \<Rightarrow> do {
               ps \<leftarrow> buf_write ps piece_index (Some (Some (take (list_index - start) (drop start list_str))));
               Some (ps, piece_index + 1, None) })
        else Some (ps, piece_index, next_start_index));
     quoted_loop list_str quote esc cs (list_index + 1) (c = esc \<and> \<not> previous_is_quoted)
       next_start_index ps piece_index }"

definition parse_quoted_list :: "string \<Rightarrow> char \<Rightarrow> char \<Rightarrow> bool \<Rightarrow> string list option" where
  "parse_quoted_list list_str quote esc add_remainder_if_uneven_quotes = do {
     let num_quotes = count_quotes quote esc list_str False 0;
     (ps, piece_index, next_start_index) \<leftarrow>
       quoted_loop list_str quote esc list_str 0 False None (replicate (num_quotes div 2 + 2) None) 0;
     (ps, piece_index) \<leftarrow>
       (case next_start_index of
          Some start \<Rightarrow> if add_remainder_if_uneven_quotes
            then do { ps \<leftarrow> buf_write ps piece_index (Some (Some (drop start list_str))); Some (ps, piece_index + 1) }
            else Some (ps, piece_index)
        | None \<Rightarrow> Some (ps, piece_index));
     ps \<leftarrow> buf_write ps piece_index (Some None);
     quoted \<leftarrow> pieces_in ps;
     Some (if quoted \<noteq> [] then quoted else [list_str]) }"

subsection \<open>Options\<close>

definition truncate_if_starts_with :: "string \<Rightarrow> string \<Rightarrow> string \<times> bool" where
  "truncate_if_starts_with test_str pre = (if prefix pre test_str then (pre, True) else (test_str, False))"

fun truncate_to_any :: "string \<Rightarrow> string list \<Rightarrow> string ptr" where
  "truncate_to_any test_str [] = None"
| "truncate_to_any test_str (p # ps) =
     (case truncate_if_starts_with test_str p of (s, matches) \<Rightarrow> if matches then Some s else truncate_to_any s ps)"

definition url_names :: "string list" where
  "url_names = [''url_contains'', ''url_regex'', ''url_exact'', ''url_domain_contains'', ''url_domain_regex'', ''url_domain_exact'']"

definition not_url_names :: "string list" where
  "not_url_names = [''not_url_contains'', ''not_url_regex'', ''not_url_exact'', ''not_url_domain_contains'',
     ''not_url_domain_regex'', ''not_url_domain_exact'']"

text \<open>The value is \<open>NULL\<close> for a list without elements. The result has whether the option is valid.\<close>

definition parse_option :: "string \<Rightarrow> string ptr \<Rightarrow> rule_def \<Rightarrow> (bool \<times> rule_def) option" where
  "parse_option option_name option_value d =
     (if option_name \<in> {''proto'', ''layer7'', ''ipp2p'', ''max_pkt_size'', ''min_pkt_size''}
      then do { v \<leftarrow> option_value; Some (True, d\<lparr>text_of := (text_of d)(option_name \<mapsto> v)\<rparr>) }
      else if option_name \<in> {''active_hours'', ''active_weekly_ranges'', ''active_weekdays''} then do {
        v \<leftarrow> option_value;
        v \<leftarrow> lower v;
        if v \<noteq> ''all'' then Some (True, d\<lparr>text_of := (text_of d)(option_name \<mapsto> v)\<rparr>) else Some (False, d) }
      else if option_name \<in> {''mark'', ''connmark'', ''not_mark'', ''not_connmark''} then do {
        marks \<leftarrow> parse_marks option_value 0xFFFFFFFF;
        Some (True, d\<lparr>parts_of := (parts_of d)(option_name := marks)\<rparr>) }
      else if option_name \<in> {''remote_addr'', ''local_addr'', ''not_remote_addr'', ''not_local_addr''} then do {
        parsed_addr \<leftarrow> parse_ips_and_macs option_value;
        (case parsed_addr of
           None \<Rightarrow> Some (False, d)
         | Some (ips, ranges, macs) \<Rightarrow>
             let macs = (if option_name \<in> {''not_remote_addr'', ''remote_addr''} then [] else macs)
             in Some (True, d\<lparr>addrs_of := (addrs_of d)(option_name \<mapsto> (ips, ranges, macs))\<rparr>)) }
      else if option_name \<in> {''remote_port'', ''local_port'', ''not_remote_port'', ''not_local_port''} then do {
        parsed_ports \<leftarrow> parse_ports option_value;
        Some (True, d\<lparr>parts_of := (parts_of d)(option_name \<mapsto> parsed_ports)\<rparr>) }
      else (case truncate_to_any option_name (url_names @ not_url_names) of
          None \<Rightarrow> Some (False, d)
        | Some option_name \<Rightarrow> do {
            v \<leftarrow> option_value;
            parsed_quoted \<leftarrow> parse_quoted_list v CHR 0x22 CHR 0x5C False;
            let parsed_quoted = (case urls_of d option_name of None \<Rightarrow> parsed_quoted | Some old_parsed \<Rightarrow> old_parsed @ parsed_quoted);
            if parsed_quoted \<noteq> [] then Some (True, d\<lparr>urls_of := (urls_of d)(option_name \<mapsto> parsed_quoted)\<rparr>)
            else Some (False, d) }))"

text \<open>A value in the configuration; the elements of a list are joined with blanks.\<close>

datatype uci_value = Uci_string string | Uci_list "string list"

fun join_elements :: "string list \<Rightarrow> string ptr \<Rightarrow> string ptr" where
  "join_elements [] opt_str = opt_str"
| "join_elements (e # es) opt_str = join_elements es (Some (case opt_str of None \<Rightarrow> e | Some s \<Rightarrow> s @ '' '' @ e))"

definition get_option_value_string :: "uci_value \<Rightarrow> string ptr" where
  "get_option_value_string uopt = (case uopt of Uci_string s \<Rightarrow> Some s | Uci_list es \<Rightarrow> join_elements es None)"

fun parse_options :: "(string \<times> uci_value) list \<Rightarrow> rule_def \<Rightarrow> rule_def option" where
  "parse_options [] definition = Some definition"
| "parse_options ((name, value) # es) definition = do {
     option_name \<leftarrow> lower name;
     (_, definition) \<leftarrow> parse_option option_name (get_option_value_string value) definition;
     parse_options es definition }"

text \<open>The options of the section; \<open>None\<close> of the parameter is a package or a section that is not there.\<close>

definition get_rule_definition :: "(string \<Rightarrow> string \<Rightarrow> (string \<times> uci_value) list ptr) \<Rightarrow> string \<Rightarrow> string \<Rightarrow> rule_def ptr option" where
  "get_rule_definition uci package section =
     (case uci package section of
        None \<Rightarrow> Some None
      | Some options \<Rightarrow> map_option Some (parse_options options initial_definition))"

subsection \<open>The string functions\<close>

lemma trim_eq: "NUL \<notin> set s \<Longrightarrow> trim s = Some (trimmed s)"
proof -
  assume s: "NUL \<notin> set s"
  obtain cs where "trim_flanking_whitespace (map Some s @ [Some NUL]) = Some (map Some (trimmed s) @ Some NUL # cs)"
    using trim_ok[OF s, of "[]"] by auto
  moreover have "set (trimmed s) \<subseteq> set s"
    by (auto simp: trimmed_def trimr_def dest!: set_dropWhileD)
  then have "NUL \<notin> set (trimmed s)" using s by auto
  ultimately show ?thesis by (simp add: trim_def in_place_def cstr_of_app)
qed

lemma split_at_eq: "NUL \<notin> set s \<Longrightarrow> split_at (Some s) c max_pieces r = Some (split_pieces [c] max_pieces r s)"
  using split_ok[of "[c]" s max_pieces r] pieces_in_cells by (auto simp: split_at_def)

lemma tokens_one: "s \<noteq> [] \<Longrightarrow> c \<notin> set s \<Longrightarrow> tokens (\<lambda>x. x = c) s = [s]"
proof (cases s)
  case (Cons a t)
  assume "c \<notin> set s"
  then have "takeWhile (\<lambda>x. x \<noteq> c) t = t" "dropWhile (\<lambda>x. x \<noteq> c) t = []" "a \<noteq> c" using Cons by (auto simp: takeWhile_eq_all_conv)
  moreover from this have "tokens (\<lambda>x. x = c) (dropWhile (\<lambda>x. x \<noteq> c) t) = []" by (simp only: tokens.simps)
  ultimately show ?thesis using Cons by simp
qed simp

subsection \<open>Quoted strings\<close>

text \<open>What the two loops are for: the strings between quotes; a quote after an escape is none.\<close>

fun quoted_strings :: "char \<Rightarrow> char \<Rightarrow> bool \<Rightarrow> string ptr \<Rightarrow> string \<Rightarrow> string list" where
  "quoted_strings quote esc previous_is_quoted started [] = []"
| "quoted_strings quote esc previous_is_quoted started (c # cs) =
     (if c = quote \<and> \<not> previous_is_quoted
      then (case started of None \<Rightarrow> quoted_strings quote esc (c = esc) (Some []) cs
        | Some w \<Rightarrow> w # quoted_strings quote esc (c = esc) None cs)
      else quoted_strings quote esc (c = esc \<and> \<not> previous_is_quoted) (map_option (\<lambda>w. w @ [c]) started) cs)"

lemma count_quotes_add: "count_quotes quote esc cs prev n = n + count_quotes quote esc cs prev 0"
proof (induction cs arbitrary: prev n)
  case (Cons c cs)
  from Cons.IH[of _ "n + 1"] Cons.IH[of _ 1] Cons.IH[of _ n] show ?case by simp
qed simp

text \<open>The array has room for the pieces that are still to come.\<close>

lemma quoted_loop_ok:
  assumes "list_str = front @ cs" "list_index = length front"
    and "next_start_index = map_option (\<lambda>w. length front - length w) started" "\<forall>w. started = Some w \<longrightarrow> (\<exists>f. front = f @ w)"
    and "length room = (count_quotes quote esc cs prev 0 + (if started = None then 0 else 1)) div 2 + 2"
  shows "\<exists>room' start. quoted_loop list_str quote esc cs list_index prev next_start_index (cells_of got @ room) (length got) =
    Some (cells_of (got @ quoted_strings quote esc prev started cs) @ room', length (got @ quoted_strings quote esc prev started cs), start) \<and>
    2 \<le> length room' \<and> (\<forall>s. start = Some s \<longrightarrow> s \<le> length list_str)"
  using assms
proof (induction cs arbitrary: front list_index next_start_index started room got prev)
  case Nil
  then show ?case by auto
next
  case (Cons c cs)
  define p where "p \<longleftrightarrow> c = esc \<and> \<not> prev"
  have ls: "list_str = (front @ [c]) @ cs" "list_index + 1 = length (front @ [c])" using Cons.prems(1,2) by simp_all
  show ?case
  proof (cases "c = quote \<and> \<not> prev")
    case quote: True
    then have n: "count_quotes quote esc (c # cs) prev 0 = Suc (count_quotes quote esc cs p 0)"
      using count_quotes_add[of quote esc cs p 1] by (simp add: p_def)
    show ?thesis
    proof (cases started)
      case None
      from Cons.IH[OF ls, of "Some (list_index + 1)" "Some []" room p got] Cons.prems(2,3,5) None n quote
      show ?thesis by (simp add: p_def)
    next
      case (Some w)
      obtain f where f: "front = f @ w" using Cons.prems(4) Some by blast
      obtain r room1 where room: "room = r # room1" using Cons.prems(5) by (cases room) auto
      have piece: "take (list_index - (length front - length w)) (drop (length front - length w) list_str) = w"
        using Cons.prems(1,2) f by simp
      have wr: "buf_write (cells_of got @ room) (length got) (Some (Some w)) = Some (cells_of (got @ [w]) @ room1)"
        by (simp add: room buf_write_def list_update_append)
      have l: "length room1 = (count_quotes quote esc cs p 0 + (if (None :: string option) = None then 0 else 1)) div 2 + 2"
        using Cons.prems(5) Some n room by simp
      obtain room' start where "quoted_loop list_str quote esc cs (list_index + 1) p None (cells_of (got @ [w]) @ room1) (length (got @ [w])) =
          Some (cells_of ((got @ [w]) @ quoted_strings quote esc p None cs) @ room', length ((got @ [w]) @ quoted_strings quote esc p None cs), start)"
        "2 \<le> length room'" "\<forall>s. start = Some s \<longrightarrow> s \<le> length list_str"
        using Cons.IH[OF ls _ _ l, where next_start_index = None and got = "got @ [w]"] by auto
      then show ?thesis using quote Some Cons.prems(3) piece wr by (simp add: p_def)
    qed
  next
    case False
    then have n: "count_quotes quote esc (c # cs) prev 0 = count_quotes quote esc cs p 0" by (auto simp: p_def)
    have st: "\<forall>w. map_option (\<lambda>w. w @ [c]) started = Some w \<longrightarrow> (\<exists>f. front @ [c] = f @ w)" using Cons.prems(4) by auto
    have nx: "next_start_index = map_option (\<lambda>w. length (front @ [c]) - length w) (map_option (\<lambda>w. w @ [c]) started)"
      using Cons.prems(3) by (cases started) auto
    from Cons.IH[OF ls nx st, of room p got] Cons.prems(5) n False show ?thesis by (auto simp: p_def)
  qed
qed

lemma parse_quoted_list_ok:
  "parse_quoted_list list_str quote esc False = Some (let qs = quoted_strings quote esc False None list_str in if qs = [] then [list_str] else qs)"
proof -
  define qs where "qs = quoted_strings quote esc False None list_str"
  obtain room' start where loop: "quoted_loop list_str quote esc list_str 0 False None
      (replicate (count_quotes quote esc list_str False 0 div 2 + 2) None) 0 = Some (cells_of qs @ room', length qs, start)" "2 \<le> length room'"
    using quoted_loop_ok[of list_str "[]" list_str 0 None None "replicate (count_quotes quote esc list_str False 0 div 2 + 2) None" quote esc False "[]"]
    by (auto simp: qs_def)
  obtain r rest where r: "room' = r # rest" using loop(2) by (cases room') auto
  have "buf_write (cells_of qs @ room') (length qs) (Some None) = Some (cells_of qs @ Some None # rest)"
    by (simp add: r buf_write_def list_update_append)
  then show ?thesis
    using loop(1) by (cases "qs = []") (simp_all add: r buf_write_def parse_quoted_list_def pieces_in_cells qs_def[symmetric] Let_def split: option.splits)
qed

text \<open>No quote in it counts, and the last character is no escape that counts.\<close>

fun well_escaped :: "char \<Rightarrow> char \<Rightarrow> bool \<Rightarrow> string \<Rightarrow> bool" where
  "well_escaped quote esc prev [] = (\<not> prev)"
| "well_escaped quote esc prev (c # cs) = (\<not> (c = quote \<and> \<not> prev) \<and> well_escaped quote esc (c = esc \<and> \<not> prev) cs)"

definition quoted_text :: "char \<Rightarrow> string \<times> string \<Rightarrow> string" where
  "quoted_text quote p = fst p @ [quote] @ snd p @ [quote]"

lemma quoted_strings_inside:
  "well_escaped quote esc prev u \<Longrightarrow> quote \<noteq> esc \<Longrightarrow>
    quoted_strings quote esc prev (Some w) (u @ quote # cs) = (w @ u) # quoted_strings quote esc False None cs"
  by (induction u arbitrary: prev w) auto

lemma quoted_strings_outside:
  "well_escaped quote esc prev u \<Longrightarrow> quote \<noteq> esc \<Longrightarrow> quoted_strings quote esc prev None (u @ quote # cs) = quoted_strings quote esc False (Some []) cs"
  by (induction u arbitrary: prev) auto

text \<open>Strings in quotes, with any text before each in which no quote counts, are read back as they were, escapes included; the array
  of the pieces is never left. Text with no quote that counts is one string.\<close>

lemma parse_quoted_list_correct:
  assumes "quote \<noteq> esc" "\<forall>p \<in> set ps. well_escaped quote esc False (fst p) \<and> well_escaped quote esc False (snd p)"
    and "well_escaped quote esc False rest"
  shows "parse_quoted_list (concat (map (quoted_text quote) ps) @ rest) quote esc False = Some (if ps = [] then [rest] else map snd ps)"
proof -
  have none: "well_escaped quote esc prev u \<Longrightarrow> quoted_strings quote esc prev None u = []" for prev u
    by (induction u arbitrary: prev) auto
  have "quoted_strings quote esc False None (concat (map (quoted_text quote) ps) @ rest) = map snd ps"
    using assms(2)
  proof (induction ps)
    case (Cons p ps)
    then show ?case using quoted_strings_outside[OF _ assms(1)] quoted_strings_inside[OF _ assms(1)] by (simp add: quoted_text_def)
  qed (simp add: none[OF assms(3)])
  then show ?thesis by (simp add: parse_quoted_list_ok Let_def)
qed

subsection \<open>Addresses\<close>

lemma scan_d_digits:
  "ds \<noteq> [] \<Longrightarrow> list_all isdigit ds \<Longrightarrow> digits_value ds \<le> int_max \<Longrightarrow> rest = [] \<or> \<not> isdigit (hd rest) \<Longrightarrow> scan_d (ds @ rest) = Some (Some rest)"
proof -
  assume a: "ds \<noteq> []" "list_all isdigit ds" "digits_value ds \<le> int_max" "rest = [] \<or> \<not> isdigit (hd rest)"
  obtain x xs where ds: "ds = x # xs" using a(1) by (cases ds) auto
  have x: "isdigit x" using a(2) ds by simp
  have ns: "\<not> isspace x" "x \<noteq> CHR ''-''" "x \<noteq> CHR ''+''" using x by (auto simp: isdigit_def isspace_def)
  have t: "takeWhile isdigit (ds @ rest) = ds" "dropWhile isdigit (ds @ rest) = rest"
    using a(2,4) by (cases rest; auto simp: takeWhile_append2 dropWhile_append2 list_all_iff)+
  have d: "dropWhile isspace (ds @ rest) = ds @ rest" using ns by (simp add: ds)
  have c: "(case ds @ rest of c # r \<Rightarrow> if c = CHR ''-'' \<or> c = CHR ''+'' then r else ds @ rest | [] \<Rightarrow> []) = ds @ rest"
    using ns by (simp add: ds)
  show ?thesis unfolding scan_d_def d Let_def c t using a(1,3) by simp
qed

text \<open>Four numbers with dots between them.\<close>

definition is_number :: "string \<Rightarrow> bool" where
  "is_number ds \<longleftrightarrow> ds \<noteq> [] \<and> list_all isdigit ds \<and> digits_value ds \<le> int_max"

definition dotted :: "string \<Rightarrow> string \<Rightarrow> string \<Rightarrow> string \<Rightarrow> string" where
  "dotted a b c d = a @ ''.'' @ b @ ''.'' @ c @ ''.'' @ d"

lemma scan_fields_dotted:
  assumes "is_number a" "is_number b" "is_number c" "is_number d" "tail = [] \<or> \<not> isdigit (hd tail)"
  shows "scan_fields 4 (dotted a b c d @ tail) = Some 4"
proof -
  have dot: "scan_d (x @ CHR ''.'' # r) = Some (Some (CHR ''.'' # r))" if "is_number x" for x r
    using that scan_d_digits[of x "CHR ''.'' # r"] by (simp add: is_number_def isdigit_def)
  have "scan_d (d @ tail) = Some (Some tail)" using assms(4,5) scan_d_digits[of d tail] by (simp add: is_number_def)
  then have "scan_fields 1 (d @ tail) = Some 1" by (auto split: list.splits)
  then show ?thesis using dot[OF assms(1)] dot[OF assms(2)] dot[OF assms(3)] by (simp add: dotted_def numeral_eq_Suc)
qed

lemma dotted_chars: "is_number a \<Longrightarrow> is_number b \<Longrightarrow> is_number c \<Longrightarrow> is_number d \<Longrightarrow>
  set (dotted a b c d) \<inter> {NUL, CHR '','', CHR '':'', CHR ''-''} = {} \<and> dotted a b c d \<noteq> []"
  by (auto simp: dotted_def is_number_def list_all_iff isdigit_def NUL_def)

lemma parse_address_tail:
  assumes "is_number a" "is_number b" "is_number c" "is_number d" "tail = [] \<or> \<not> isdigit (hd tail)"
    and "set tail \<inter> {NUL, CHR '','', CHR '':'', CHR ''-''} = {}"
  shows "parse_ips_and_macs (Some (dotted a b c d @ tail)) = Some (Some ([trimmed (dotted a b c d @ tail)], [], []))"
proof -
  define s where "s = dotted a b c d @ tail"
  have s: "NUL \<notin> set s" "CHR '','' \<notin> set s" "CHR '':'' \<notin> set s" "CHR ''-'' \<notin> set s" "s \<noteq> []"
    using assms(6) dotted_chars[OF assms(1-4)] by (auto simp: s_def)
  have "split_at (Some s) CHR '','' (- 1) 0 = Some [s]"
    using split_at_eq[OF s(1), of "CHR '',''" "- 1" 0] tokens_one[OF s(5,2)] by (simp add: split_pieces_def)
  moreover have "scan_fields 4 s = Some 4" unfolding s_def by (rule scan_fields_dotted[OF assms(1-5)])
  ultimately show ?thesis
    using s trim_eq[OF s(1)] by (simp add: parse_ips_and_macs_def s_def[symmetric])
qed

end
