(* ===== verification/FwRules.thy ===== *)
theory FwRules
  imports FwOptions
begin

unbundle bit_operations_syntax

text \<open>
  The commands of a firewall rule (gargoyle-firewall-util/src/make_iptables_rules.c). \<open>dynamic_strcat\<close> and
  \<open>dcat_and_free\<close> of strings that are there are concatenations (\<open>dynamic_strcat_ok\<close>), which are written so.
  A dimension with several tests has a bit of the highest byte of the mark of a connection.
\<close>

subsection \<open>Tests\<close>

definition QUOTE :: char where "QUOTE = CHR 0x22"

definition arg_open :: "bool \<Rightarrow> string" where
  "arg_open quoted_args = (if quoted_args then [CHR '' '', QUOTE] else '' '')"

definition arg_close :: "bool \<Rightarrow> string" where
  "arg_close quoted_args = (if quoted_args then [QUOTE, CHR '' ''] else '' '')"

definition mask_bit :: "nat \<Rightarrow> u32" where
  "mask_bit mask_byte_index = 0x01000000 * of_nat (2 ^ mask_byte_index)"

text \<open>The result has the type of the parse, the rules and the single check.\<close>

definition compute_multi_rules :: "string list ptr \<Rightarrow> string list \<Rightarrow> string \<Rightarrow> bool \<Rightarrow> string \<Rightarrow> string \<Rightarrow> string \<Rightarrow> bool \<Rightarrow> nat \<Rightarrow> string
    \<Rightarrow> bool \<Rightarrow> bool \<Rightarrow> nat \<times> string list \<times> string" where
  "compute_multi_rules def multi_rules single_check never_single rule_prefix test_prefix1 test_prefix2 is_negation mask_byte_index
     proto requires_proto quoted_args =
     (case def of
        None \<Rightarrow> (0, multi_rules, single_check)
      | Some ds \<Rightarrow>
          if length ds = 1 \<and> \<not> never_single then
            (1, multi_rules, '' '' @ test_prefix1 @ (if is_negation then '' ! '' else '' '') @ test_prefix2 @ arg_open quoted_args @ hd ds @
               arg_close quoted_args @ single_check)
          else
            let mask_str = hex_str (mask_bit mask_byte_index);
                connmark_part = '' -j CONNMARK --set-mark '' @ (if is_negation then ''0x0'' else mask_str) @ ''/'' @ mask_str in
            (2, multi_rules @ concat (map (\<lambda>d.
               let common_part = test_prefix1 @ '' '' @ test_prefix2 @ arg_open quoted_args @ d @ arg_close quoted_args @ connmark_part in
               if proto = ''both'' then
                 (if requires_proto then [rule_prefix @ '' -p tcp '' @ common_part, rule_prefix @ '' -p udp '' @ common_part]
                  else [rule_prefix @ '' '' @ common_part])
               else [rule_prefix @ '' -p '' @ proto @ '' '' @ common_part]) ds), single_check))"

text \<open>The tests that are not in the rules of a dimension.\<close>

definition in_quotes :: "string \<Rightarrow> string" where
  "in_quotes s = [QUOTE] @ s @ [QUOTE, CHR '' '']"

definition time_check :: "rule_def \<Rightarrow> string" where
  "time_check d =
     (case text_of d ''active_weekly_ranges'' of
        Some active_weekly_ranges \<Rightarrow> '' -m timerange --weekly_ranges '' @ in_quotes active_weekly_ranges
      | None \<Rightarrow> (case (text_of d ''active_hours'', text_of d ''active_weekdays'') of
            (Some active_hours, Some active_weekdays) \<Rightarrow>
              '' -m timerange --hours '' @ in_quotes active_hours @ ''--weekdays '' @ in_quotes active_weekdays
          | (Some active_hours, None) \<Rightarrow> '' -m timerange --hours '' @ in_quotes active_hours
          | (None, Some active_weekdays) \<Rightarrow> '' -m timerange --weekdays '' @ in_quotes active_weekdays
          | (None, None) \<Rightarrow> []))"

definition base_check :: "rule_def \<Rightarrow> string" where
  "base_check d =
     time_check d @
     (case text_of d ''layer7'' of None \<Rightarrow> [] | Some layer7_def \<Rightarrow> '' -m layer7 --l7proto '' @ layer7_def) @
     (case text_of d ''ipp2p'' of None \<Rightarrow> [] | Some ipp2p_def \<Rightarrow> '' -m ipp2p --'' @ ipp2p_def) @
     (case (text_of d ''min_pkt_size'', text_of d ''max_pkt_size'') of
        (Some min_def, Some max_def) \<Rightarrow> '' -m length --length '' @ min_def @ '':'' @ max_def @ '' ''
      | _ \<Rightarrow> [])"

definition rule_proto :: "rule_def \<Rightarrow> string option" where
  "rule_proto d = do {
     proto \<leftarrow> lower (case text_of d ''proto'' of None \<Rightarrow> ''both'' | Some p \<Rightarrow> p);
     Some (if proto \<in> {''udp'', ''tcp'', ''both''} then proto else ''both'') }"

subsection \<open>Dimensions\<close>

text \<open>The rules, the single check, the index of the next bit, and for each index whether its bit is set at first and at the end.\<close>

record build =
  multi_rules :: "string list"
  single_check :: string
  mask_byte_index :: nat
  initial_mask :: "bool list"
  final_mask :: "bool list"

definition add_rules :: "string list ptr \<Rightarrow> bool \<Rightarrow> string \<Rightarrow> string \<Rightarrow> string \<Rightarrow> bool \<Rightarrow> string \<Rightarrow> bool \<Rightarrow> bool \<Rightarrow> build \<Rightarrow> nat \<times> build" where
  "add_rules def never_single rule_prefix test_prefix1 test_prefix2 is_negation proto requires_proto quoted_args b =
     (case compute_multi_rules def (multi_rules b) (single_check b) never_single rule_prefix test_prefix1 test_prefix2 is_negation
        (mask_byte_index b) proto requires_proto quoted_args of
        (parse_type, rules, check) \<Rightarrow> (parse_type, b\<lparr>multi_rules := rules, single_check := check\<rparr>))"

definition push_masks :: "bool \<Rightarrow> bool \<Rightarrow> build \<Rightarrow> build" where
  "push_masks is_negated is_multi b = b\<lparr>mask_byte_index := mask_byte_index b + 1,
     initial_mask := initial_mask b @ [is_negated], final_mask := final_mask b @ [is_multi]\<rparr>"

text \<open>The lists of the names that are not negated, or of the negated ones when those have no element.\<close>

definition url_count :: "string list ptr list \<Rightarrow> nat" where
  "url_count url_lists = sum_list (map (\<lambda>l. case l of None \<Rightarrow> 0 | Some us \<Rightarrow> length us) url_lists)"

definition url_choice :: "rule_def \<Rightarrow> bool \<times> string list ptr list" where
  "url_choice d =
     (if url_count (map (urls_of d) url_names) = 0 then (True, map (urls_of d) not_url_names)
      else (False, map (urls_of d) url_names))"

definition url_prefixes :: "string list" where
  "url_prefixes = ['' -m weburl --contains '', '' -m weburl --contains_regex '', '' -m weburl --matches_exactly '',
     '' -m weburl --domain_only --contains '', '' -m weburl --domain_only --contains_regex '', '' -m weburl --domain_only --matches_exactly '']"

definition url_dimension :: "rule_def \<Rightarrow> string \<Rightarrow> string \<Rightarrow> bool \<Rightarrow> build \<Rightarrow> build" where
  "url_dimension d rule_prefix proto include_proto b =
     (case url_choice d of (url_is_negated, url_lists) \<Rightarrow>
        let url_is_multi = 1 < url_count url_lists;
            b = fold (\<lambda>(pre, url_list) b. case url_list of
                None \<Rightarrow> b
              | Some us \<Rightarrow> if 0 < length us
                  then snd (add_rules (Some us) url_is_multi rule_prefix pre [] url_is_negated proto include_proto True b) else b)
              (zip url_prefixes url_lists) b
        in push_masks url_is_negated url_is_multi b)"

text \<open>Marks and ports: the option, or else the negated one. Negated marks always get a bit.\<close>

definition parts_choice :: "rule_def \<Rightarrow> string \<Rightarrow> string \<Rightarrow> bool \<times> string list ptr" where
  "parts_choice d name not_name =
     (case parts_of d name of
        Some ps \<Rightarrow> (False, Some ps)
      | None \<Rightarrow> (parts_of d not_name \<noteq> None, parts_of d not_name))"

definition parts_dimension :: "rule_def \<Rightarrow> string \<Rightarrow> string \<Rightarrow> bool \<Rightarrow> string \<Rightarrow> string \<Rightarrow> string \<Rightarrow> string \<Rightarrow> bool \<Rightarrow> build \<Rightarrow> build" where
  "parts_dimension d name not_name never_single_negated rule_prefix test_prefix1 test_prefix2 proto requires_proto b =
     (case parts_choice d name not_name of (is_negated, def) \<Rightarrow>
        case add_rules def (never_single_negated \<and> is_negated) rule_prefix test_prefix1 test_prefix2 is_negated proto requires_proto False b of
          (parse_type, b) \<Rightarrow> push_masks is_negated (parse_type = 2) b)"

text \<open>Addresses: the three arrays with their prefixes, of which the one for MAC addresses may be missing.\<close>

definition addr_choice :: "rule_def \<Rightarrow> string \<Rightarrow> string \<Rightarrow> bool \<times> (string list \<times> string list \<times> string list) ptr" where
  "addr_choice d name not_name =
     (if addrs_of d name = None \<and> addrs_of d not_name \<noteq> None then (True, addrs_of d not_name) else (False, addrs_of d name))"

definition addr_tests :: "bool \<Rightarrow> string list \<times> string list \<times> string list \<Rightarrow> (string \<times> string \<times> string list) list" where
  "addr_tests is_dst lists3 =
     (case lists3 of (ips, ranges, macs) \<Rightarrow>
        if is_dst then [('' -d'', [], ips), (''-m iprange '', '' --dst-range '', ranges)]
        else [('' -s '', [], ips), ('' -m iprange '', '' --src-range '', ranges), ('' -m mac --mac-source '', [], macs)])"

definition addr_dimension :: "rule_def \<Rightarrow> string \<Rightarrow> string \<Rightarrow> bool \<Rightarrow> string \<Rightarrow> string \<Rightarrow> bool \<Rightarrow> build \<Rightarrow> build" where
  "addr_dimension d name not_name is_dst rule_prefix proto include_proto b =
     (case addr_choice d name not_name of
        (is_negated, None) \<Rightarrow> b
      | (is_negated, Some found) \<Rightarrow>
          let is_multi = 1 < sum_list (map (\<lambda>(pre1, pre2, test_list). length test_list) (addr_tests is_dst found));
              b = fold (\<lambda>(pre1, pre2, test_list) b. if test_list \<noteq> []
                  then snd (add_rules (Some test_list) is_multi rule_prefix pre1 pre2 is_negated proto include_proto False b) else b)
                (addr_tests is_dst found) b
          in push_masks is_negated is_multi b)"

subsection \<open>The marks\<close>

text \<open>The value the mark has at first, and the one at which every dimension matches; the index of the urls is 0.\<close>

fun mask_loop :: "nat \<Rightarrow> nat \<Rightarrow> bool list \<Rightarrow> bool list \<Rightarrow> u32 \<Rightarrow> u32 \<Rightarrow> u32 \<times> u32" where
  "mask_loop next_mask_index 0 initial_list final_list initial_main_mark final_match = (initial_main_mark, final_match)"
| "mask_loop next_mask_index (Suc n) initial_list final_list initial_main_mark final_match =
     (let (next_is_multi, final_list) = (case final_list of [] \<Rightarrow> (True, []) | m # ms \<Rightarrow> (m, ms));
          next_mark_bit = (if next_is_multi then mask_bit next_mask_index else 0);
          final_match = final_match + next_mark_bit;
          (is_negation, initial_list) = (case initial_list of [] \<Rightarrow> (False, []) | m # ms \<Rightarrow> (m, ms));
          initial_main_mark = (if is_negation \<and> next_mask_index \<noteq> 0 then initial_main_mark + next_mark_bit else initial_main_mark)
      in mask_loop (next_mask_index + 1) n initial_list final_list initial_main_mark final_match)"

subsection \<open>All rules\<close>

definition all_dimensions :: "rule_def \<Rightarrow> bool \<Rightarrow> string \<Rightarrow> string \<Rightarrow> bool \<Rightarrow> build" where
  "all_dimensions d is_ingress rule_prefix proto include_proto =
     (let (remote, local) = (if is_ingress then (''local'', ''remote'') else (''remote'', ''local'')) in
      (parts_dimension d (remote @ ''_port'') (''not_'' @ remote @ ''_port'') False rule_prefix '' --dport '' [] proto True \<circ>
       parts_dimension d (local @ ''_port'') (''not_'' @ local @ ''_port'') False rule_prefix '' --sport '' [] proto True \<circ>
       addr_dimension d (remote @ ''_addr'') (''not_'' @ remote @ ''_addr'') True rule_prefix proto include_proto \<circ>
       addr_dimension d (local @ ''_addr'') (''not_'' @ local @ ''_addr'') False rule_prefix proto include_proto \<circ>
       parts_dimension d ''connmark'' ''not_connmark'' False rule_prefix '' -m connmark '' '' --mark '' proto include_proto \<circ>
       parts_dimension d ''mark'' ''not_mark'' True rule_prefix '' -m mark '' '' --mark '' proto include_proto \<circ>
       url_dimension d rule_prefix proto include_proto)
      \<lparr>multi_rules = [], single_check = base_check d, mask_byte_index = 0, initial_mask = [], final_mask = []\<rparr>)"

text \<open>There is a definition of ports, of either side.\<close>

definition has_ports :: "rule_def \<Rightarrow> bool" where
  "has_ports d \<longleftrightarrow> snd (parts_choice d ''remote_port'' ''not_remote_port'') \<noteq> None \<or> snd (parts_choice d ''local_port'' ''not_local_port'') \<noteq> None"

definition url_is_multi :: "rule_def \<Rightarrow> bool" where
  "url_is_multi d \<longleftrightarrow> 1 < url_count (snd (url_choice d))"

text \<open>The rules with bits in the mark.\<close>

definition marked_rules :: "rule_def \<Rightarrow> string \<Rightarrow> string \<Rightarrow> string \<Rightarrow> string \<Rightarrow> build \<Rightarrow> string list" where
  "marked_rules d rule_prefix target target_options proto b =
     (let b = (if single_check b \<noteq> [] then
            let requires_proto = \<not> (proto = ''both'' \<and> \<not> has_ports d);
                b = snd (add_rules (Some [single_check b]) True rule_prefix '' '' [] False proto requires_proto False b)
            in b\<lparr>mask_byte_index := mask_byte_index b + 1\<rparr>
          else b);
          initial_url_mark = (if fst (url_choice d) \<and> url_is_multi d then 0x01000000 else 0);
          (initial_main_mark, final_match) = mask_loop 0 (mask_byte_index b) (initial_mask b) (final_mask b) 0 0 in
      (if 0 < initial_main_mark then [rule_prefix @ '' -j CONNMARK --set-mark '' @ hex_str initial_main_mark @ ''/0xFF000000''] else []) @
      (if 0 < initial_url_mark
       then [rule_prefix @ '' -p tcp  -m weburl --contains http -j CONNMARK --set-mark '' @ hex_str initial_url_mark @ ''/'' @ hex_str initial_url_mark]
       else []) @
      multi_rules b @
      (if target = ''REJECT'' \<and> target_options = [] \<and> proto \<noteq> ''both'' then
         [rule_prefix @ '' -p tcp -m connmark --mark '' @ hex_str final_match @ ''/0xFF000000 -j REJECT --reject-with tcp-reset'',
          rule_prefix @ '' -m connmark --mark '' @ hex_str final_match @ ''/0xFF000000 -j REJECT'']
       else
         [rule_prefix @ (if strstr target_options ''tcp-reset'' = None then [] else '' -p tcp '') @ '' -m connmark --mark '' @
            hex_str final_match @ ''/0xFF000000 -j '' @ target @ target_options]) @
      [rule_prefix @ '' -j CONNMARK --set-mark 0x0/0xFF000000''])"

text \<open>The rules without.\<close>

definition plain_rules :: "rule_def \<Rightarrow> string \<Rightarrow> string \<Rightarrow> string \<Rightarrow> string \<Rightarrow> string \<Rightarrow> string list" where
  "plain_rules d rule_prefix target target_options proto check =
     (if proto = ''both'' then
        if \<not> has_ports d then
          (if target = ''REJECT'' \<and> target_options = []
           then [rule_prefix @ '' -p tcp '' @ check @ '' -j REJECT --reject-with tcp-reset''] else []) @
          [rule_prefix @ check @ '' -j '' @ target @ target_options]
        else
          [rule_prefix @ '' -p tcp '' @ check @
             (if target = ''REJECT'' \<and> target_options = [] then '' -j REJECT --reject-with tcp-reset'' else '' -j '' @ target @ target_options),
           rule_prefix @ '' -p udp '' @ check @ '' -j '' @ target @ target_options]
      else [rule_prefix @ '' -p '' @ proto @ '' '' @ check @ '' -j '' @ target @ target_options])"

definition compute_rules :: "rule_def \<Rightarrow> string \<Rightarrow> string \<Rightarrow> bool \<Rightarrow> string \<Rightarrow> string ptr \<Rightarrow> string list option" where
  "compute_rules d table chain is_ingress target target_options = do {
     let rule_prefix = ''iptables -t '' @ table @ '' -A '' @ chain @ '' '';
     target \<leftarrow> upper target;
     def_proto \<leftarrow> rule_proto d;
     let include_proto = (def_proto \<noteq> ''both'');
     let url_rule_count = url_count (snd (url_choice d));
     let proto = (if 0 < url_rule_count then ''tcp'' else def_proto);
     let b = all_dimensions d is_ingress rule_prefix proto include_proto;
     let target_options = (case target_options of None \<Rightarrow> [] | Some t \<Rightarrow> t);
     let target_options = (if target_options = [] \<and> proto = ''tcp'' \<and> target = ''REJECT'' then '' --reject-with tcp-reset '' else target_options);
     Some ((if multi_rules b \<noteq> [] then marked_rules d rule_prefix target target_options proto b
            else plain_rules d rule_prefix target target_options proto (single_check b)) @
       (if 0 < url_rule_count \<and> target = ''ACCEPT'' \<and> \<not> is_ingress then
          [rule_prefix @ '' -p tcp -m weburl --contains  http -j CONNMARK --set-mark 0xFF000000/0xFF000000'',
           rule_prefix @ '' -p tcp --dport 80 -m connmark ! --mark 0xFF000000/0xFF000000 -j ACCEPT '',
           rule_prefix @ '' -j CONNMARK --set-mark 0x0/0xFF000000'']
        else [])) }"

subsection \<open>The program\<close>

text \<open>
  The options of the command line, as \<open>getopt\<close> returns them. The option for ingress packets is read, and
  \<open>compute_rules\<close> is called with 0 for it. The result is the commands that are printed or run, and whether they are run.
\<close>

record rule_args =
  arg_package :: "string ptr"
  arg_section :: "string ptr"
  arg_table :: "string ptr"
  arg_chain :: "string ptr"
  arg_target :: "string ptr"
  arg_target_options :: "string ptr"
  arg_is_ingress :: bool
  arg_run_commands :: bool

fun read_args :: "(char \<times> string) list \<Rightarrow> rule_args \<Rightarrow> rule_args" where
  "read_args [] a = a"
| "read_args ((c, optarg) # opts) a = read_args opts
     (if c \<in> set ''Pp'' then a\<lparr>arg_package := Some optarg\<rparr>
      else if c \<in> set ''Ss'' then a\<lparr>arg_section := Some optarg\<rparr>
      else if c \<in> set ''Tt'' then a\<lparr>arg_table := Some optarg\<rparr>
      else if c \<in> set ''Cc'' then a\<lparr>arg_chain := Some optarg\<rparr>
      else if c \<in> set ''Gg'' then a\<lparr>arg_target := Some optarg\<rparr>
      else if c \<in> set ''Oo'' then a\<lparr>arg_target_options := Some optarg\<rparr>
      else if c \<in> set ''Ii'' then a\<lparr>arg_is_ingress := True\<rparr>
      else if c \<in> set ''Rr'' then a\<lparr>arg_run_commands := True\<rparr>
      else a)"

definition main_rules :: "(string \<Rightarrow> string \<Rightarrow> (string \<times> uci_value) list ptr) \<Rightarrow> (char \<times> string) list \<Rightarrow> (bool \<times> string list) ptr option" where
  "main_rules uci opts =
     (let a = read_args opts \<lparr>arg_package = None, arg_section = None, arg_table = None, arg_chain = None, arg_target = None,
            arg_target_options = None, arg_is_ingress = False, arg_run_commands = False\<rparr> in
      case (arg_package a, arg_section a, arg_table a, arg_chain a, arg_target a) of
        (Some package, Some section, Some table, Some chain, Some target) \<Rightarrow> do {
          def \<leftarrow> get_rule_definition uci package section;
          (case def of
             None \<Rightarrow> Some None
           | Some d \<Rightarrow> do {
               rules \<leftarrow> compute_rules d table chain False target (arg_target_options a);
               Some (Some (arg_run_commands a, rules)) }) }
      | _ \<Rightarrow> Some None)"

end
