(* ===== verification/FwMatch.thy ===== *)
theory FwMatch
  imports FwRules
begin

unbundle bit_operations_syntax

text \<open>
  What the commands of a firewall rule mean. A rule of the packet filter has conditions and an action; the
  commands are shown to be the text of such rules, and these to reach the target for the packets the definition
  describes. The tests of a packet are a parameter.
\<close>

subsection \<open>Rules of the packet filter\<close>

text \<open>A test has two parts before its argument, the argument, and whether that is quoted.\<close>

type_synonym test = "string \<times> string \<times> string \<times> bool"

datatype item = Blank | Proto string bool | Raw string | Test test | Check bool test | Marked bool u32

datatype action = Set_mark u32 u32 | Jump string

type_synonym filter_rule = "item list \<times> action"

fun show_item :: "item \<Rightarrow> string" where
  "show_item Blank = '' ''"
| "show_item (Proto p blank) = '' -p '' @ p @ (if blank then '' '' else [])"
| "show_item (Raw s) = s"
| "show_item (Test (pre1, pre2, arg, quoted)) = pre1 @ '' '' @ pre2 @ arg_open quoted @ arg @ arg_close quoted"
| "show_item (Check is_negated (pre1, pre2, arg, quoted)) =
     '' '' @ pre1 @ (if is_negated then '' ! '' else '' '') @ pre2 @ arg_open quoted @ arg @ arg_close quoted"
| "show_item (Marked is_negated v) = '' -m connmark '' @ (if is_negated then ''! '' else []) @ ''--mark '' @ hex_str v @ ''/0xFF000000''"

definition show_items :: "item list \<Rightarrow> string" where
  "show_items its = concat (map show_item its)"

fun show_action :: "action \<Rightarrow> string" where
  "show_action (Set_mark v k) = '' -j CONNMARK --set-mark '' @ hex_str v @ ''/'' @ hex_str k"
| "show_action (Jump t) = '' -j '' @ t"

definition show_rule :: "string \<Rightarrow> filter_rule \<Rightarrow> string" where
  "show_rule rule_prefix r = rule_prefix @ show_items (fst r) @ show_action (snd r)"

text \<open>A packet: its protocol, and the tests that hold for it, which may depend on the mark of its connection.\<close>

record packet =
  pkt_proto :: string
  test_holds :: "string \<times> string \<times> string \<Rightarrow> u32 \<Rightarrow> bool"
  raw_holds :: "string \<Rightarrow> u32 \<Rightarrow> bool"

fun item_holds :: "packet \<Rightarrow> u32 \<Rightarrow> item \<Rightarrow> bool" where
  "item_holds E m Blank = True"
| "item_holds E m (Proto p blank) = (pkt_proto E = p)"
| "item_holds E m (Raw s) = raw_holds E s m"
| "item_holds E m (Test (pre1, pre2, arg, quoted)) = test_holds E (pre1, pre2, arg) m"
| "item_holds E m (Check is_negated (pre1, pre2, arg, quoted)) = (test_holds E (pre1, pre2, arg) m \<noteq> is_negated)"
| "item_holds E m (Marked is_negated v) = ((m AND 0xFF000000 = v) \<noteq> is_negated)"

text \<open>A packet goes through the rules up to the first jump; the result is the target and the mark.\<close>

fun run :: "packet \<Rightarrow> filter_rule list \<Rightarrow> u32 \<Rightarrow> string ptr \<times> u32" where
  "run E [] m = (None, m)"
| "run E ((its, act) # rs) m =
     (if list_all (item_holds E m) its then
        (case act of
           Jump t \<Rightarrow> (Some t, m)
         | Set_mark v k \<Rightarrow> run E rs ((m AND NOT k) OR v))
      else run E rs m)"

subsection \<open>Dimensions\<close>

text \<open>
  A dimension of a rule definition: with several tests they are rules of their own, of which each has a list of
  conditions; a single test, or none, is a part of the single check.
\<close>

record dim =
  negated :: bool
  multi :: bool
  tests :: "item list list"
  single :: "item list"
  with_proto :: bool

definition make_dim :: "bool \<Rightarrow> bool \<Rightarrow> bool \<Rightarrow> test list \<Rightarrow> dim" where
  "make_dim is_negated is_multi requires_proto ts =
     \<lparr>negated = is_negated, multi = is_multi, tests = (if is_multi then map (\<lambda>t. [Test t]) ts else []),
      single = (if is_multi then [] else map (Check is_negated) ts), with_proto = requires_proto\<rparr>"

definition url_tests :: "string list ptr list \<Rightarrow> test list" where
  "url_tests url_lists = concat (map (\<lambda>(pre, l). map (\<lambda>u. (pre, [], u, True)) (case l of None \<Rightarrow> [] | Some us \<Rightarrow> us)) (zip url_prefixes url_lists))"

definition url_dim :: "rule_def \<Rightarrow> bool \<Rightarrow> dim" where
  "url_dim d include_proto = make_dim (fst (url_choice d)) (url_is_multi d) include_proto (url_tests (snd (url_choice d)))"

definition parts_dim :: "rule_def \<Rightarrow> string \<Rightarrow> string \<Rightarrow> bool \<Rightarrow> string \<Rightarrow> string \<Rightarrow> bool \<Rightarrow> dim" where
  "parts_dim d name not_name never_single_negated pre1 pre2 requires_proto =
     (case parts_choice d name not_name of
        (is_negated, None) \<Rightarrow> make_dim is_negated False requires_proto []
      | (is_negated, Some ps) \<Rightarrow> make_dim is_negated (length ps \<noteq> 1 \<or> never_single_negated \<and> is_negated) requires_proto (map (\<lambda>p. (pre1, pre2, p, False)) ps))"

definition flat_tests :: "(string \<times> string \<times> string list) list \<Rightarrow> test list" where
  "flat_tests ls = concat (map (\<lambda>(pre1, pre2, l). map (\<lambda>a. (pre1, pre2, a, False)) l) ls)"

definition addr_dims :: "rule_def \<Rightarrow> string \<Rightarrow> string \<Rightarrow> bool \<Rightarrow> bool \<Rightarrow> dim list" where
  "addr_dims d name not_name is_dst include_proto =
     (case addr_choice d name not_name of
        (is_negated, None) \<Rightarrow> []
      | (is_negated, Some found) \<Rightarrow>
          [make_dim is_negated (1 < length (flat_tests (addr_tests is_dst found))) include_proto (flat_tests (addr_tests is_dst found))])"

definition dims :: "rule_def \<Rightarrow> bool \<Rightarrow> bool \<Rightarrow> dim list" where
  "dims d is_ingress include_proto =
     (let (remote, local) = (if is_ingress then (''local'', ''remote'') else (''remote'', ''local'')) in
      [url_dim d include_proto,
       parts_dim d ''mark'' ''not_mark'' True '' -m mark '' '' --mark '' include_proto,
       parts_dim d ''connmark'' ''not_connmark'' False '' -m connmark '' '' --mark '' include_proto] @
      addr_dims d (local @ ''_addr'') (''not_'' @ local @ ''_addr'') False include_proto @
      addr_dims d (remote @ ''_addr'') (''not_'' @ remote @ ''_addr'') True include_proto @
      [parts_dim d (local @ ''_port'') (''not_'' @ local @ ''_port'') False '' --sport '' [] True,
       parts_dim d (remote @ ''_port'') (''not_'' @ remote @ ''_port'') False '' --dport '' [] True])"

text \<open>The rules of a dimension with the bit \<open>i\<close>.\<close>

definition protos :: "string \<Rightarrow> bool \<Rightarrow> item list list" where
  "protos proto requires_proto =
     (if proto = ''both'' then if requires_proto then [[Proto ''tcp'' True], [Proto ''udp'' True]] else [[Blank]]
      else [[Proto proto True]])"

definition test_rules :: "string \<Rightarrow> bool \<Rightarrow> bool \<Rightarrow> nat \<Rightarrow> item list list \<Rightarrow> filter_rule list" where
  "test_rules proto requires_proto is_negated i tss =
     concat (map (\<lambda>its. map (\<lambda>ps. (ps @ its, Set_mark (if is_negated then 0 else mask_bit i) (mask_bit i))) (protos proto requires_proto)) tss)"

definition dim_rules :: "string \<Rightarrow> nat \<Rightarrow> dim \<Rightarrow> filter_rule list" where
  "dim_rules proto i dm = test_rules proto (with_proto dm) (negated dm) i (tests dm)"

definition apply_dim :: "string \<Rightarrow> string \<Rightarrow> dim \<Rightarrow> build \<Rightarrow> build" where
  "apply_dim rule_prefix proto dm b = push_masks (negated dm) (multi dm)
     (b\<lparr>multi_rules := multi_rules b @ map (show_rule rule_prefix) (dim_rules proto (mask_byte_index b) dm),
        single_check := show_items (single dm) @ single_check b\<rparr>)"

subsection \<open>The commands of the dimensions\<close>

named_theorems fw_text \<open>how rules are written\<close>

lemma hex_str_simps [fw_text]: "hex_str 0 = ''0x0''" "hex_str 0xFF000000 = ''0xFF000000''"
  by (simp_all add: hex_str_def hex_digits.simps)

lemma show_items_simps [fw_text]:
  "show_items [] = []" "show_items (it # its) = show_item it @ show_items its" "show_items (its @ its') = show_items its @ show_items its'"
  by (simp_all add: show_items_def)

lemma add_rules_None: "add_rules None ns pre p1 p2 neg proto wp q b = (0, b)"
  by (simp add: add_rules_def compute_multi_rules_def)

lemma add_rules_Some:
  "add_rules (Some ds) ns pre p1 p2 neg proto wp q b =
     (if length ds = 1 \<and> \<not> ns then (1, b\<lparr>single_check := show_items [Check neg (p1, p2, hd ds, q)] @ single_check b\<rparr>)
      else (2, b\<lparr>multi_rules := multi_rules b @
        map (show_rule pre) (test_rules proto wp neg (mask_byte_index b) (map (\<lambda>d. [Test (p1, p2, d, q)]) ds))\<rparr>))"
  by (simp add: add_rules_def compute_multi_rules_def test_rules_def protos_def map_concat comp_def show_rule_def fw_text Let_def)

text \<open>A dimension whose tests are in several arrays.\<close>

lemma test_rules_append [fw_text]:
  "test_rules proto wp neg i (tss @ tss') = test_rules proto wp neg i tss @ test_rules proto wp neg i tss'"
  by (simp add: test_rules_def)

lemma test_rules_Nil [fw_text]: "test_rules proto wp neg i [] = []"
  by (simp add: test_rules_def)

lemma fold_multi:
  "fold (\<lambda>(p1, p2, l) b. if l \<noteq> [] then snd (add_rules (Some l) True pre p1 p2 neg proto wp q b) else b) ls b =
     b\<lparr>multi_rules := multi_rules b @ map (show_rule pre) (test_rules proto wp neg (mask_byte_index b)
       (map (\<lambda>t. [Test t]) (concat (map (\<lambda>(p1, p2, l). map (\<lambda>a. (p1, p2, a, q)) l) ls))))\<rparr>"
  by (induction ls arbitrary: b) (auto simp: add_rules_Some fw_text comp_def)

lemma fold_single:
  "length (concat (map (\<lambda>(p1, p2, l). l) ls)) \<le> 1 \<Longrightarrow>
    fold (\<lambda>(p1, p2, l) b. if l \<noteq> [] then snd (add_rules (Some l) False pre p1 p2 neg proto wp q b) else b) ls b =
     b\<lparr>single_check := show_items (map (Check neg) (concat (map (\<lambda>(p1, p2, l). map (\<lambda>a. (p1, p2, a, q)) l) ls))) @ single_check b\<rparr>"
proof (induction ls arbitrary: b)
  case (Cons x ls)
  obtain p1 p2 l where x: "x = (p1, p2, l)" by (metis prod_cases3)
  show ?case
  proof (cases l)
    case Nil
    with Cons x show ?thesis by (simp add: fw_text)
  next
    case (Cons u us)
    with Cons.prems x have us: "us = []" "concat (map (\<lambda>(p1, p2, l). l) ls) = []" by auto
    then have none: "\<forall>y \<in> set ls. snd (snd y) = []" by auto
    then have t: "concat (map (\<lambda>(p1, p2, l). map (\<lambda>a. (p1, p2, a, q)) l) ls) = []" by auto
    then have t: "show_items (map (Check neg) (concat (map (\<lambda>(p1, p2, l). map (\<lambda>a. (p1, p2, a, q)) l) ls))) = []"
      by (simp only: list.map show_items_simps)
    have "fold (\<lambda>(p1, p2, l) b. if l \<noteq> [] then snd (add_rules (Some l) False pre p1 p2 neg proto wp q b) else b) ls
        (snd (add_rules (Some l) False pre p1 p2 neg proto wp q b)) = snd (add_rules (Some l) False pre p1 p2 neg proto wp q b)"
      using Cons.IH[of "snd (add_rules (Some l) False pre p1 p2 neg proto wp q b)"] us(2) t by simp
    then show ?thesis using x us(1) Cons t by (simp add: add_rules_Some fw_text)
  qed
qed (simp add: fw_text)

text \<open>Both cases in one: the tests of the arrays, and the result of the fold.\<close>

lemma fold_dim:
  assumes "ts = concat (map (\<lambda>(p1, p2, l). map (\<lambda>a. (p1, p2, a, q)) l) ls)" "is_multi = (1 < length ts)"
  shows "push_masks neg is_multi
      (fold (\<lambda>(p1, p2, l) b. if l \<noteq> [] then snd (add_rules (Some l) is_multi pre p1 p2 neg proto wp q b) else b) ls b) =
    apply_dim pre proto (make_dim neg is_multi wp ts) b"
proof (cases is_multi)
  case True
  then have t: "is_multi = True" by simp
  show ?thesis unfolding t fold_multi assms(1) by (simp add: apply_dim_def make_dim_def dim_rules_def fw_text)
next
  case False
  then have t: "is_multi = False" by simp
  have "map length (map (\<lambda>(p1, p2, l). map (\<lambda>a. (p1, p2, a, q)) l) ls) = map length (map (\<lambda>(p1, p2, l). l) ls)" by auto
  then have "length ts = length (concat (map (\<lambda>(p1, p2, l). l) ls))" by (simp only: assms(1) length_concat)
  then have "length (concat (map (\<lambda>(p1, p2, l). l) ls)) \<le> 1" using False assms(2) by linarith
  then show ?thesis unfolding t assms(1) by (simp only: fold_single) (simp add: apply_dim_def make_dim_def dim_rules_def fw_text)
qed

lemma url_choice_length: "length (snd (url_choice d)) = 6"
  by (simp add: url_choice_def url_names_def not_url_names_def)

lemma url_tests_eq:
  "url_tests ls = concat (map (\<lambda>(p1, p2, l). map (\<lambda>a. (p1, p2, a, True)) l)
     (map (\<lambda>(pre, l). (pre, [], case l of None \<Rightarrow> [] | Some us \<Rightarrow> us)) (zip url_prefixes ls)))"
  by (simp add: url_tests_def comp_def split_def)

lemma url_tests_length: "length ls = 6 \<Longrightarrow> length (url_tests ls) = url_count ls"
proof -
  assume l: "length ls = 6"
  have "map (\<lambda>x. length (case snd x of None \<Rightarrow> [] | Some us \<Rightarrow> us)) (zip url_prefixes ls) =
      map (\<lambda>l. case l of None \<Rightarrow> 0 | Some us \<Rightarrow> length us) (map snd (zip url_prefixes ls))"
    by (auto simp: comp_def split: option.splits)
  moreover have "map snd (zip url_prefixes ls) = ls" using l by (simp add: url_prefixes_def)
  ultimately show ?thesis by (simp add: url_tests_def url_count_def length_concat comp_def split_def)
qed

lemma url_dimension_eq: "url_dimension d pre proto ip b = apply_dim pre proto (url_dim d ip) b"
proof -
  define ls where "ls = snd (url_choice d)"
  define neg where "neg = fst (url_choice d)"
  define m where "m = (1 < url_count ls)"
  have c: "url_choice d = (neg, ls)" by (simp add: ls_def neg_def)
  have l: "length ls = 6" unfolding ls_def by (rule url_choice_length)
  have f: "fold (\<lambda>(p, url_list) b. case url_list of None \<Rightarrow> b
        | Some us \<Rightarrow> if 0 < length us then snd (add_rules (Some us) m pre p [] neg proto ip True b) else b) (zip url_prefixes ls) b =
      fold (\<lambda>(p1, p2, l) b. if l \<noteq> [] then snd (add_rules (Some l) m pre p1 p2 neg proto ip True b) else b)
        (map (\<lambda>(pre, l). (pre, [], case l of None \<Rightarrow> [] | Some us \<Rightarrow> us)) (zip url_prefixes ls)) b"
    by (auto simp: fold_map comp_def split_def intro!: fold_cong split: option.splits)
  have "m = (1 < length (url_tests ls))" by (simp add: m_def url_tests_length[OF l])
  note fold_dim[OF url_tests_eq this, of neg pre proto ip b]
  then show ?thesis unfolding url_dimension_def c prod.case Let_def m_def[symmetric] f url_dim_def url_is_multi_def fst_conv snd_conv .
qed

lemma parts_dimension_eq:
  "parts_dimension d name not_name ns pre p1 p2 proto wp b = apply_dim pre proto (parts_dim d name not_name ns p1 p2 wp) b"
proof -
  obtain neg def where c: "parts_choice d name not_name = (neg, def)" by (cases "parts_choice d name not_name")
  show ?thesis
  proof (cases def)
    case None
    then show ?thesis using c
      by (simp add: parts_dimension_def parts_dim_def add_rules_None apply_dim_def make_dim_def dim_rules_def fw_text)
  next
    case (Some ps)
    have h: "length ps = 1 \<Longrightarrow> [(p1, p2, hd ps, False)] = map (\<lambda>p. (p1, p2, p, False)) ps" by (cases ps) auto
    show ?thesis
    proof (cases "length ps = 1 \<and> \<not> (ns \<and> neg)")
      case True
      then show ?thesis using c Some h[symmetric]
        by (simp add: parts_dimension_def parts_dim_def add_rules_Some apply_dim_def make_dim_def dim_rules_def fw_text)
    next
      case False
      then have "(length ps \<noteq> 1 \<or> ns \<and> neg) = True" by blast
      then show ?thesis using c Some False
        by (auto simp: parts_dimension_def parts_dim_def add_rules_Some apply_dim_def make_dim_def dim_rules_def fw_text comp_def)
    qed
  qed
qed

lemma addr_dimension_eq:
  "addr_dimension d name not_name dst pre proto ip b = fold (apply_dim pre proto) (addr_dims d name not_name dst ip) b"
proof -
  obtain neg def where c: "addr_choice d name not_name = (neg, def)" by (cases "addr_choice d name not_name")
  show ?thesis
  proof (cases def)
    case None
    then show ?thesis using c by (simp add: addr_dimension_def addr_dims_def)
  next
    case (Some found)
    define ls where "ls = addr_tests dst found"
    have l: "sum_list (map (\<lambda>(p1, p2, l). length l) ls) = length (flat_tests ls)"
      by (simp add: flat_tests_def length_concat comp_def split_def)
    note fold_dim[OF flat_tests_def[of ls] refl, of neg pre proto ip b]
    then have "addr_dimension d name not_name dst pre proto ip b = apply_dim pre proto
        (make_dim neg (1 < length (flat_tests ls)) ip (flat_tests ls)) b"
      unfolding addr_dimension_def c Some prod.case option.case ls_def[symmetric] l Let_def .
    then show ?thesis using c Some by (simp add: addr_dims_def ls_def)
  qed
qed

definition initial_build :: "rule_def \<Rightarrow> build" where
  "initial_build d = \<lparr>multi_rules = [], single_check = base_check d, mask_byte_index = 0, initial_mask = [], final_mask = []\<rparr>"

lemma all_dimensions_eq:
  "all_dimensions d is_ingress pre proto ip = fold (apply_dim pre proto) (dims d is_ingress ip) (initial_build d)"
  by (simp add: all_dimensions_def dims_def initial_build_def url_dimension_eq parts_dimension_eq addr_dimension_eq Let_def split: if_splits)

subsection \<open>The commands are rules\<close>

fun rules_from :: "string \<Rightarrow> nat \<Rightarrow> dim list \<Rightarrow> filter_rule list" where
  "rules_from proto i [] = []"
| "rules_from proto i (dm # dms) = dim_rules proto i dm @ rules_from proto (Suc i) dms"

lemma fold_apply_dim:
  "fold (apply_dim pre proto) dms b =
     b\<lparr>multi_rules := multi_rules b @ map (show_rule pre) (rules_from proto (mask_byte_index b) dms),
       single_check := show_items (concat (map single (rev dms))) @ single_check b,
       mask_byte_index := mask_byte_index b + length dms,
       initial_mask := initial_mask b @ map negated dms, final_mask := final_mask b @ map multi dms\<rparr>"
  by (induction dms arbitrary: b) (simp_all add: apply_dim_def push_masks_def fw_text)

text \<open>The single check, and the dimension it becomes when there are bits.\<close>

definition check_items :: "rule_def \<Rightarrow> dim list \<Rightarrow> item list" where
  "check_items d dms = concat (map single (rev dms)) @ (if base_check d = [] then [] else [Raw (base_check d)])"

definition check_dims :: "rule_def \<Rightarrow> string \<Rightarrow> dim list \<Rightarrow> dim list" where
  "check_dims d proto dms =
     (if check_items d dms = [] then []
      else [\<lparr>negated = False, multi = True, tests = [[Blank, Blank, Blank] @ check_items d dms @ [Blank]], single = [],
        with_proto = \<not> (proto = ''both'' \<and> \<not> has_ports d)\<rparr>])"

definition http_rule :: filter_rule where
  "http_rule = ([Proto ''tcp'' True, Raw '' -m weburl --contains http''], Set_mark 0x01000000 0x01000000)"

definition final_rules :: "string \<Rightarrow> string \<Rightarrow> string \<Rightarrow> u32 \<Rightarrow> filter_rule list" where
  "final_rules target target_options proto final_match =
     (if target = ''REJECT'' \<and> target_options = [] \<and> proto \<noteq> ''both'' then
        [([Proto ''tcp'' False, Marked False final_match], Jump ''REJECT --reject-with tcp-reset''),
         ([Marked False final_match], Jump ''REJECT'')]
      else [((if strstr target_options ''tcp-reset'' = None then [] else [Proto ''tcp'' True]) @ [Marked False final_match], Jump (target @ target_options))]) @
     [([], Set_mark 0 0xFF000000)]"

definition mark_rules :: "u32 \<Rightarrow> bool \<Rightarrow> filter_rule list" where
  "mark_rules initial_main_mark url_bit =
     (if 0 < initial_main_mark then [([], Set_mark initial_main_mark 0xFF000000)] else []) @ (if url_bit then [http_rule] else [])"

definition marks :: "dim list \<Rightarrow> u32 \<times> u32" where
  "marks dms = mask_loop 0 (length dms) (map negated dms) (map multi dms) 0 0"

definition filter_marked :: "string \<Rightarrow> string \<Rightarrow> string \<Rightarrow> dim list \<Rightarrow> filter_rule list" where
  "filter_marked target target_options proto dms =
     mark_rules (fst (marks dms)) (negated (hd dms) \<and> multi (hd dms)) @ rules_from proto 0 dms @
     final_rules target target_options proto (snd (marks dms))"

definition filter_plain :: "rule_def \<Rightarrow> string \<Rightarrow> string \<Rightarrow> string \<Rightarrow> item list \<Rightarrow> filter_rule list" where
  "filter_plain d target target_options proto its =
     (if proto = ''both'' then
        if \<not> has_ports d then
          (if target = ''REJECT'' \<and> target_options = [] then [(Proto ''tcp'' True # its, Jump ''REJECT --reject-with tcp-reset'')] else []) @
          [(its, Jump (target @ target_options))]
        else
          [(Proto ''tcp'' True # its, if target = ''REJECT'' \<and> target_options = [] then Jump ''REJECT --reject-with tcp-reset'' else Jump (target @ target_options)),
           (Proto ''udp'' True # its, Jump (target @ target_options))]
      else [(Proto proto True # its, Jump (target @ target_options))])"

lemma mask_loop_default:
  "length initial_list = k \<Longrightarrow> length final_list = k \<Longrightarrow>
    mask_loop i (k + 1) initial_list final_list x y = mask_loop i (k + 1) (initial_list @ [False]) (final_list @ [True]) x y"
proof (induction k arbitrary: i initial_list final_list x y)
  case (Suc k)
  then obtain a as c cs where l: "initial_list = a # as" "final_list = c # cs" by (metis length_Suc_conv)
  with Suc.prems have "length as = k" "length cs = k" by simp_all
  note Suc.IH[OF this]
  then show ?case unfolding l by (simp only: add_Suc mask_loop.simps(2) list.case prod.case Let_def append_Cons)
qed simp

lemma show_items_empty: "\<forall>it \<in> set its. show_item it \<noteq> [] \<Longrightarrow> show_items its = [] \<longleftrightarrow> its = []"
  by (cases its) (auto simp: show_items_def)

lemma single_make_dim: "single (make_dim neg m wp ts) = (if m then [] else map (Check neg) ts)"
  by (simp add: make_dim_def)

lemma show_Check: "show_item (Check neg t) \<noteq> []"
  by (cases t) simp

lemma dims_make: "dm \<in> set (dims d is_ingress ip) \<Longrightarrow> \<exists>neg m wp ts. dm = make_dim neg m wp ts"
  by (auto simp: dims_def url_dim_def parts_dim_def addr_dims_def Let_def split: if_splits prod.splits option.splits)

lemma check_items_shown:
  assumes "\<forall>dm \<in> set dms. \<exists>neg m wp ts. dm = make_dim neg m wp ts"
  shows "show_items (check_items d dms) = [] \<longleftrightarrow> check_items d dms = []"
proof (rule show_items_empty, rule ballI)
  fix it assume "it \<in> set (check_items d dms)"
  then consider dm where "dm \<in> set dms" "it \<in> set (single dm)" | "it = Raw (base_check d)" "base_check d \<noteq> []"
    by (auto simp: check_items_def split: if_splits)
  then show "show_item it \<noteq> []"
  proof cases
    case 1
    with assms obtain neg m wp ts where "dm = make_dim neg m wp ts" by blast
    with 1 show ?thesis by (auto simp: single_make_dim show_Check split: if_splits)
  qed simp
qed

definition http_tail :: "filter_rule list" where
  "http_tail =
     [([Proto ''tcp'' False, Raw '' -m weburl --contains  http''], Set_mark 0xFF000000 0xFF000000),
      ([Proto ''tcp'' False, Raw '' --dport 80'', Marked True 0xFF000000], Jump ''ACCEPT ''),
      ([], Set_mark 0 0xFF000000)]"

definition filter_rules :: "rule_def \<Rightarrow> dim list \<Rightarrow> string \<Rightarrow> string \<Rightarrow> string \<Rightarrow> filter_rule list" where
  "filter_rules d dms target target_options proto =
     (if rules_from proto 0 dms \<noteq> [] then filter_marked target target_options proto (dms @ check_dims d proto dms)
      else filter_plain d target target_options proto (check_items d dms))"

definition final_build :: "rule_def \<Rightarrow> string \<Rightarrow> string \<Rightarrow> dim list \<Rightarrow> build" where
  "final_build d pre proto dms = fold (apply_dim pre proto) dms (initial_build d)"

lemma final_build_simps:
  "multi_rules (final_build d pre proto dms) = map (show_rule pre) (rules_from proto 0 dms)"
  "single_check (final_build d pre proto dms) = show_items (check_items d dms)"
  "mask_byte_index (final_build d pre proto dms) = length dms"
  "initial_mask (final_build d pre proto dms) = map negated dms" "final_mask (final_build d pre proto dms) = map multi dms"
  by (simp_all add: final_build_def fold_apply_dim initial_build_def check_items_def fw_text)

lemma rules_from_append: "rules_from proto i (dms @ dms') = rules_from proto i dms @ rules_from proto (i + length dms) dms'"
  by (induction dms arbitrary: i) simp_all

lemma dims_Cons: "\<exists>dms. dims d is_ingress ip = url_dim d ip # dms"
  by (simp add: dims_def Let_def)

lemma tcp_rules_text:
  "show_rule pre http_rule = pre @ '' -p tcp  -m weburl --contains http -j CONNMARK --set-mark '' @ hex_str 0x01000000 @ ''/'' @ hex_str 0x01000000"
  "map (show_rule pre) http_tail = [pre @ '' -p tcp -m weburl --contains  http -j CONNMARK --set-mark 0xFF000000/0xFF000000'',
     pre @ '' -p tcp --dport 80 -m connmark ! --mark 0xFF000000/0xFF000000 -j ACCEPT '', pre @ '' -j CONNMARK --set-mark 0x0/0xFF000000'']"
  by (simp_all add: show_rule_def http_rule_def http_tail_def fw_text)

lemma final_rules_text:
  "map (show_rule pre) (final_rules target target_options proto fin) =
     (if target = ''REJECT'' \<and> target_options = [] \<and> proto \<noteq> ''both'' then
         [pre @ '' -p tcp -m connmark --mark '' @ hex_str fin @ ''/0xFF000000 -j REJECT --reject-with tcp-reset'',
          pre @ '' -m connmark --mark '' @ hex_str fin @ ''/0xFF000000 -j REJECT'']
       else
         [pre @ (if strstr target_options ''tcp-reset'' = None then [] else '' -p tcp '') @ '' -m connmark --mark '' @
            hex_str fin @ ''/0xFF000000 -j '' @ target @ target_options]) @
      [pre @ '' -j CONNMARK --set-mark 0x0/0xFF000000'']"
  by (simp add: final_rules_def show_rule_def fw_text)

lemma mark_rules_text:
  "map (show_rule pre) (mark_rules main u) =
     (if 0 < main then [pre @ '' -j CONNMARK --set-mark '' @ hex_str main @ ''/0xFF000000''] else []) @
     (if u then [pre @ '' -p tcp  -m weburl --contains http -j CONNMARK --set-mark '' @ hex_str 0x01000000 @ ''/'' @ hex_str 0x01000000] else [])"
  by (simp add: mark_rules_def tcp_rules_text) (simp add: show_rule_def fw_text)

lemma marked_rules_alt:
  "marked_rules d pre target target_options proto b =
     (let b = (if single_check b \<noteq> [] then
            (snd (add_rules (Some [single_check b]) True pre '' '' [] False proto (\<not> (proto = ''both'' \<and> \<not> has_ports d)) False b))
              \<lparr>mask_byte_index := mask_byte_index b + 1\<rparr>
          else b);
          (main, fin) = mask_loop 0 (mask_byte_index b) (initial_mask b) (final_mask b) 0 0
      in map (show_rule pre) (mark_rules main (fst (url_choice d) \<and> url_is_multi d)) @ multi_rules b @
        map (show_rule pre) (final_rules target target_options proto fin))"
proof -
  have "mask_byte_index (snd (add_rules def True pre p1 p2 neg proto w q b)) = mask_byte_index b" for def p1 p2 neg w q b
    by (simp add: add_rules_def split_def)
  then have e: "(let b = snd (add_rules def True pre p1 p2 neg proto w q b) in b\<lparr>mask_byte_index := mask_byte_index b + 1\<rparr>) =
      (snd (add_rules def True pre p1 p2 neg proto w q b))\<lparr>mask_byte_index := mask_byte_index b + 1\<rparr>" for def p1 p2 neg w q b
    by (simp add: Let_def)
  have p: "0 < (0x01000000 :: u32)" "\<not> 0 < (0 :: u32)" by simp_all
  show ?thesis
    unfolding mark_rules_text final_rules_text marked_rules_def e Let_def[of "\<not> (proto = ''both'' \<and> \<not> has_ports d)"]
    by (cases "fst (url_choice d) \<and> url_is_multi d") (simp_all only: Let_def split_def p simp_thms if_True if_False append_assoc append_Nil)
qed

lemma marked_rules_text:
  assumes "dms = dims d is_ingress ip"
  shows "marked_rules d pre target target_options proto (final_build d pre proto dms) =
    map (show_rule pre) (filter_marked target target_options proto (dms @ check_dims d proto dms))"
proof -
  obtain rest where c: "dms = url_dim d ip # rest" using dims_Cons assms by blast
  have u: "negated (hd (dms @ xs)) = fst (url_choice d)" "multi (hd (dms @ xs)) = url_is_multi d" for xs
    by (simp_all add: c url_dim_def make_dim_def)
  have e: "show_items (check_items d dms) = [] \<longleftrightarrow> check_items d dms = []"
    using check_items_shown dims_make assms by blast
  define wp where "wp = (proto = ''both'' \<longrightarrow> has_ports d)"
  define main where "main = fst (marks (dms @ check_dims d proto dms))"
  define fin where "fin = snd (marks (dms @ check_dims d proto dms))"
  have m: "marks (dms @ check_dims d proto dms) = (main, fin)" by (simp add: main_def fin_def)
  have shown: "map (show_rule pre) (filter_marked target target_options proto (dms @ check_dims d proto dms)) =
      map (show_rule pre) (mark_rules main (fst (url_choice d) \<and> url_is_multi d)) @
      map (show_rule pre) (rules_from proto 0 (dms @ check_dims d proto dms)) @ map (show_rule pre) (final_rules target target_options proto fin)"
    by (simp add: filter_marked_def u m)
  show ?thesis
  proof (cases "check_items d dms = []")
    case True
    then have "mask_loop 0 (length dms) (map negated dms) (map multi dms) 0 0 = (main, fin)" using m by (simp add: marks_def check_dims_def)
    with True e show ?thesis unfolding shown
      by (simp add: marked_rules_alt final_build_simps Let_def check_dims_def)
  next
    case False
    define dm where "dm = \<lparr>negated = False, multi = True, tests = [[Blank, Blank, Blank] @ check_items d dms @ [Blank]], single = [], with_proto = wp\<rparr>"
    have cd: "check_dims d proto dms = [dm]" using False by (simp add: check_dims_def dm_def wp_def)
    have ml: "mask_loop 0 (Suc (length dms)) (map negated dms) (map multi dms) 0 0 = (main, fin)"
      using m mask_loop_default[of "map negated dms" "length dms" "map multi dms" 0 0 0] by (simp add: marks_def cd dm_def)
    have r: "multi_rules (snd (add_rules (Some [show_items (check_items d dms)]) True pre '' '' [] False proto wp False (final_build d pre proto dms))) =
        map (show_rule pre) (rules_from proto 0 (dms @ [dm]))"
      by (simp add: add_rules_Some final_build_simps rules_from_append dim_rules_def dm_def test_rules_def show_rule_def fw_text arg_open_def arg_close_def)
    have keep: "mask_byte_index (snd (add_rules def True pre p1 p2 neg proto w q b)) = mask_byte_index b"
      "initial_mask (snd (add_rules def True pre p1 p2 neg proto w q b)) = initial_mask b"
      "final_mask (snd (add_rules def True pre p1 p2 neg proto w q b)) = final_mask b" for def p1 p2 neg w q b
      by (simp_all add: add_rules_def split_def)
    from False e show ?thesis unfolding cd shown[unfolded cd]
      by (simp add: marked_rules_alt final_build_simps Let_def wp_def[symmetric] keep r ml del: mask_loop.simps)
  qed
qed

lemma plain_rules_text:
  "plain_rules d pre target target_options proto (show_items its) = map (show_rule pre) (filter_plain d target target_options proto its)"
  by (simp add: plain_rules_def filter_plain_def show_rule_def fw_text)

text \<open>The protocol of the rules, and the options of the target.\<close>

definition rules_proto :: "rule_def \<Rightarrow> string \<Rightarrow> string" where
  "rules_proto d proto = (if 0 < url_count (snd (url_choice d)) then ''tcp'' else proto)"

definition used_options :: "string \<Rightarrow> string \<Rightarrow> string ptr \<Rightarrow> string" where
  "used_options target proto target_options =
     (let t = (case target_options of None \<Rightarrow> [] | Some t \<Rightarrow> t) in
      if t = [] \<and> proto = ''tcp'' \<and> target = ''REJECT'' then '' --reject-with tcp-reset '' else t)"

definition prefix_of :: "string \<Rightarrow> string \<Rightarrow> string" where
  "prefix_of table chain = ''iptables -t '' @ table @ '' -A '' @ chain @ '' ''"

lemma compute_rules_text:
  assumes "upper target = Some T" "rule_proto d = Some p"
  shows "compute_rules d table chain is_ingress target target_options = Some (map (show_rule (prefix_of table chain))
    (filter_rules d (dims d is_ingress (p \<noteq> ''both'')) T (used_options T (rules_proto d p) target_options) (rules_proto d p) @
     (if 0 < url_count (snd (url_choice d)) \<and> T = ''ACCEPT'' \<and> \<not> is_ingress then http_tail else [])))"
proof -
  define dms where "dms = dims d is_ingress (p \<noteq> ''both'')"
  define pre where "pre = prefix_of table chain"
  define proto where "proto = rules_proto d p"
  define b where "b = final_build d pre proto dms"
  have b: "all_dimensions d is_ingress pre proto (p \<noteq> ''both'') = b" by (simp add: b_def all_dimensions_eq final_build_def dms_def)
  have m: "multi_rules b = [] \<longleftrightarrow> rules_from proto 0 dms = []" by (simp add: b_def final_build_simps)
  have check: "single_check b = show_items (check_items d dms)" by (simp add: b_def final_build_simps)
  have rules: "(if multi_rules b \<noteq> [] then marked_rules d pre T t proto b else plain_rules d pre T t proto (single_check b)) =
      map (show_rule pre) (filter_rules d dms T t proto)" for t
    using marked_rules_text[OF dms_def, of pre T t proto] plain_rules_text[of d pre T t proto]
    by (simp add: filter_rules_def check m) (simp add: b_def)
  have tail: "(if P then [pre @ '' -p tcp -m weburl --contains  http -j CONNMARK --set-mark 0xFF000000/0xFF000000'',
      pre @ '' -p tcp --dport 80 -m connmark ! --mark 0xFF000000/0xFF000000 -j ACCEPT '', pre @ '' -j CONNMARK --set-mark 0x0/0xFF000000''] else []) =
      map (show_rule pre) (if P then http_tail else [])" for P
    by (simp add: tcp_rules_text)
  have pr: "pre = ''iptables -t '' @ table @ '' -A '' @ chain @ '' ''" by (simp add: pre_def prefix_of_def)
  have "compute_rules d table chain is_ingress target target_options = Some
      ((if multi_rules b \<noteq> [] then marked_rules d pre T (used_options T proto target_options) proto b
        else plain_rules d pre T (used_options T proto target_options) proto (single_check b)) @
       (if 0 < url_count (snd (url_choice d)) \<and> T = ''ACCEPT'' \<and> \<not> is_ingress then
          [pre @ '' -p tcp -m weburl --contains  http -j CONNMARK --set-mark 0xFF000000/0xFF000000'',
           pre @ '' -p tcp --dport 80 -m connmark ! --mark 0xFF000000/0xFF000000 -j ACCEPT '', pre @ '' -j CONNMARK --set-mark 0x0/0xFF000000'']
        else []))"
    unfolding compute_rules_def assms pr[symmetric] bind.bind_lunit Let_def rules_proto_def[symmetric] proto_def[symmetric] b
      used_options_def[unfolded Let_def] by (rule refl)
  then show ?thesis unfolding rules tail by (simp add: dms_def pre_def proto_def)
qed

lemma compute_rules_Some:
  assumes "compute_rules d table chain is_ingress target target_options = Some cmds"
  obtains T p where "upper target = Some T" "rule_proto d = Some p"
  using assms that by (auto simp: compute_rules_def Option.bind_eq_Some_conv Let_def)

text \<open>All rules of a definition, for a protocol \<open>p\<close> and a target in upper case.\<close>

definition firewall_rules :: "rule_def \<Rightarrow> bool \<Rightarrow> string \<Rightarrow> string ptr \<Rightarrow> string \<Rightarrow> filter_rule list" where
  "firewall_rules d is_ingress target target_options p =
     filter_rules d (dims d is_ingress (p \<noteq> ''both'')) target (used_options target (rules_proto d p) target_options) (rules_proto d p) @
     (if 0 < url_count (snd (url_choice d)) \<and> target = ''ACCEPT'' \<and> \<not> is_ingress then http_tail else [])"

lemmas compute_firewall_rules = compute_rules_text[folded firewall_rules_def]

text \<open>They jump to the target only, perhaps with options.\<close>

lemma rules_from_no_jump: "(its, Jump t) \<notin> set (rules_from proto i dms)"
  by (induction dms arbitrary: i) (auto simp: dim_rules_def test_rules_def)

lemma firewall_rules_jump: "(its, Jump t) \<in> set (firewall_rules d is_ingress T target_options p) \<Longrightarrow> prefix T t"
  by (auto simp: firewall_rules_def filter_rules_def filter_marked_def mark_rules_def http_rule_def final_rules_def filter_plain_def
    http_tail_def rules_from_no_jump split: if_splits)

end
