(* ===== verification/FwMeaning.thy ===== *)
theory FwMeaning
  imports FwMatch
begin

unbundle bit_operations_syntax

text \<open>
  The rules reach the target for the packets that the rule definition describes. The bits of the mark are
  followed one by one; the proof is over the list of dimensions, whatever they are.
\<close>

subsection \<open>Bits\<close>

lemma mask_bit_exp: "mask_bit i = 2 ^ (24 + i)"
  by (simp add: mask_bit_def power_add)

lemma bit_mask_bit: "i < 8 \<Longrightarrow> bit (mask_bit i) n \<longleftrightarrow> n = 24 + i"
  unfolding mask_bit_exp by (auto simp: bit_exp_iff)

lemma bit_high: "bit (0xFF000000 :: u32) n \<longleftrightarrow> 24 \<le> n \<and> n < 32"
proof -
  have "(0xFF000000 :: u32) = push_bit 24 (mask 8)" by (simp add: mask_eq_exp_minus_1 push_bit_eq_mult)
  note this
  show ?thesis unfolding \<open>0xFF000000 = push_bit 24 (mask 8)\<close> by (auto simp: bit_push_bit_iff bit_mask_iff)
qed

definition low_eq :: "u32 \<Rightarrow> u32 \<Rightarrow> bool" where
  "low_eq m m' \<longleftrightarrow> (\<forall>n < 24. bit m n = bit m' n)"


lemma low_eq_trans: "low_eq a b \<Longrightarrow> low_eq b c \<Longrightarrow> low_eq a c"
  by (simp add: low_eq_def)

lemma low_eq_sym: "low_eq a b \<Longrightarrow> low_eq b a"
  by (simp add: low_eq_def)

lemma low_eq_and: "low_eq m (m AND 0x00FFFFFF)"
proof -
  have "(0x00FFFFFF :: u32) = mask 24" by (simp add: mask_eq_exp_minus_1)
  show ?thesis unfolding \<open>0x00FFFFFF = mask 24\<close> by (simp add: low_eq_def bit_and_iff bit_mask_iff)
qed

text \<open>A word with no low bits is told by its high ones.\<close>

lemma high_eq_iff:
  assumes "\<forall>n < 24. \<not> bit v n"
  shows "m AND 0xFF000000 = v \<longleftrightarrow> (\<forall>j < 8. bit m (24 + j) = bit (v :: u32) (24 + j))"
proof
  assume a: "m AND 0xFF000000 = v"
  show "\<forall>j < 8. bit m (24 + j) = bit v (24 + j)"
    unfolding a[symmetric] bit_and_iff bit_high by simp
next
  assume a: "\<forall>j < 8. bit m (24 + j) = bit v (24 + j)"
  show "m AND 0xFF000000 = v"
  proof (rule bit_word_eqI)
    fix n assume n: "n < LENGTH(32)"
    show "bit (m AND 0xFF000000) n = bit v n"
    proof (cases "n < 24")
      case True
      then show ?thesis using assms unfolding bit_and_iff bit_high by simp
    next
      case False
      then have "n = 24 + (n - 24)" "n - 24 < 8" using n by simp_all
      moreover have "bit (0xFF000000 :: u32) n" unfolding bit_high using False n by simp
      ultimately show ?thesis using a by (metis bit_and_iff)
    qed
  qed
qed


lemma bit_set: "bit ((m AND NOT k) OR v) n \<longleftrightarrow> bit m n \<and> \<not> bit k n \<or> bit (v :: u32) n"
proof (cases "n < 32")
  case True
  then show ?thesis by (auto simp: bit_or_iff bit_and_iff bit_not_iff)
next
  case False
  then show ?thesis using bit_imp_le_length[of _ n] by fastforce
qed



text \<open>The marks of the dimensions.\<close>

lemma add_mask_bit:
  assumes "i < 8" "\<forall>k. bit x k \<longrightarrow> k < 24 + i"
  shows "bit (x + mask_bit i) k \<longleftrightarrow> bit x k \<or> k = 24 + i"
proof -
  have "x AND mask_bit i = 0" using assms by (auto intro!: bit_eqI simp: bit_and_iff bit_mask_bit)
  then have "x + mask_bit i = x OR mask_bit i" by (rule disjunctive_add_eq_or)
  then show ?thesis using assms(1) by (simp add: bit_or_iff bit_mask_bit)
qed

lemma mask_loop_bits:
  assumes "i + length ns \<le> 8" "length ms = length ns" "\<forall>k. bit x k \<longrightarrow> k < 24 + i" "\<forall>k. bit y k \<longrightarrow> k < 24 + i"
  shows "bit (fst (mask_loop i (length ns) ns ms x y)) k \<longleftrightarrow>
      bit x k \<or> 24 + i \<le> k \<and> k < 24 + i + length ns \<and> ns ! (k - 24 - i) \<and> ms ! (k - 24 - i) \<and> k \<noteq> 24"
    and "bit (snd (mask_loop i (length ns) ns ms x y)) k \<longleftrightarrow>
      bit y k \<or> 24 + i \<le> k \<and> k < 24 + i + length ns \<and> ms ! (k - 24 - i)"
  using assms
proof (induction ns arbitrary: i ms x y)
  case (Cons a ns)
  {
    case 1
    then obtain c ms' where ms: "ms = c # ms'" by (cases ms) auto
    define b where "b = (if c then mask_bit i else 0)"
    have i: "i < 8" using 1 by simp
    define x' where "x' = (if a \<and> i \<noteq> 0 then x + b else x)"
    have bound: "\<forall>k. bit (y + b) k \<longrightarrow> k < 24 + Suc i" "\<forall>k. bit x' k \<longrightarrow> k < 24 + Suc i"
      using 1 add_mask_bit[OF i] by (auto simp: b_def x'_def less_Suc_eq)
    have x: "bit x' k \<longleftrightarrow> bit x k \<or> k = 24 + i \<and> a \<and> c \<and> i \<noteq> 0"
      using 1 add_mask_bit[OF i] by (auto simp: b_def x'_def)
    from 1 ms have "Suc i + length ns \<le> 8" "length ms' = length ns" by simp_all
    note IH = Cons.IH(1)[OF this bound(2) bound(1)]
    have "mask_loop i (length (a # ns)) (a # ns) ms x y = mask_loop (Suc i) (length ns) ns ms' x' (y + b)"
      by (simp add: ms b_def[symmetric] x'_def Let_def)
    with IH x show ?case by (cases "k = 24 + i") (auto simp: ms nth_Cons' Suc_le_eq)
  next
    case 2
    then obtain c ms' where ms: "ms = c # ms'" by (cases ms) auto
    define b where "b = (if c then mask_bit i else 0)"
    have i: "i < 8" using 2 by simp
    define x' where "x' = (if a \<and> i \<noteq> 0 then x + b else x)"
    have bound: "\<forall>k. bit (y + b) k \<longrightarrow> k < 24 + Suc i" "\<forall>k. bit x' k \<longrightarrow> k < 24 + Suc i"
      using 2 add_mask_bit[OF i] by (auto simp: b_def x'_def less_Suc_eq)
    have y: "bit (y + b) k \<longleftrightarrow> bit y k \<or> k = 24 + i \<and> c"
      using 2 add_mask_bit[OF i] by (auto simp: b_def)
    from 2 ms have "Suc i + length ns \<le> 8" "length ms' = length ns" by simp_all
    note IH = Cons.IH(2)[OF this bound(2) bound(1)]
    have "mask_loop i (length (a # ns)) (a # ns) ms x y = mask_loop (Suc i) (length ns) ns ms' x' (y + b)"
      by (simp add: ms b_def[symmetric] x'_def Let_def)
    with IH y show ?case by (cases "k = 24 + i") (auto simp: ms nth_Cons' Suc_le_eq)
  }
qed auto

subsection \<open>Runs\<close>

text \<open>The tests of a packet do not look at the highest byte of the mark, which the rules use.\<close>

definition ignores_high_byte :: "packet \<Rightarrow> bool" where
  "ignores_high_byte E \<longleftrightarrow> (\<forall>t m. test_holds E t m = test_holds E t (m AND 0x00FFFFFF)) \<and> (\<forall>s m. raw_holds E s m = raw_holds E s (m AND 0x00FFFFFF))"

fun unmarked :: "item \<Rightarrow> bool" where
  "unmarked (Marked neg v) = False"
| "unmarked it = True"

lemma low_and_eq: "low_eq m m' \<Longrightarrow> m AND 0x00FFFFFF = m' AND 0x00FFFFFF"
proof -
  assume a: "low_eq m m'"
  have "(0x00FFFFFF :: u32) = mask 24" by (simp add: mask_eq_exp_minus_1)
  with a show ?thesis unfolding \<open>0x00FFFFFF = mask 24\<close> by (auto intro!: bit_eqI simp: low_eq_def bit_and_iff bit_mask_iff)
qed

lemma item_holds_low:
  assumes "ignores_high_byte E" "unmarked it" "low_eq m m'"
  shows "item_holds E m it = item_holds E m' it"
proof (cases it)
  case (Raw s)
  then show ?thesis using assms low_and_eq[OF assms(3)] unfolding ignores_high_byte_def by (metis item_holds.simps(3))
next
  case (Test t)
  then show ?thesis using assms low_and_eq[OF assms(3)] unfolding ignores_high_byte_def by (cases t) (metis item_holds.simps(4))
next
  case (Check neg t)
  then show ?thesis using assms low_and_eq[OF assms(3)] unfolding ignores_high_byte_def by (cases t) (metis item_holds.simps(5))
qed (use assms in auto)

definition all_hold :: "packet \<Rightarrow> u32 \<Rightarrow> item list \<Rightarrow> bool" where
  "all_hold E m its = list_all (item_holds E m) its"

lemma all_hold_simps [simp]:
  "all_hold E m []" "all_hold E m (it # its) \<longleftrightarrow> item_holds E m it \<and> all_hold E m its"
  "all_hold E m (its @ its') \<longleftrightarrow> all_hold E m its \<and> all_hold E m its'"
  by (simp_all add: all_hold_def)


lemma run_Cons:
  "run E ((its, Jump t) # rs) m = (if all_hold E m its then (Some t, m) else run E rs m)"
  "run E ((its, Set_mark v k) # rs) m = run E rs (if all_hold E m its then (m AND NOT k) OR v else m)"
  by (simp_all add: all_hold_def)

declare run.simps(2) [simp del]



subsection \<open>The bits of the dimensions\<close>



definition mark_set :: "nat \<Rightarrow> bool \<Rightarrow> u32 \<Rightarrow> u32" where
  "mark_set i neg m = (m AND NOT (mask_bit i)) OR (if neg then 0 else mask_bit i)"

lemma bit_mark_set: "i < 8 \<Longrightarrow> bit (mark_set i neg m) n \<longleftrightarrow> (if n = 24 + i then \<not> neg else bit m n)"
  by (auto simp: mark_set_def bit_set bit_mask_bit)




lemma test_rules_alt: "test_rules proto wp neg i tss = map (\<lambda>its. (its, Set_mark (if neg then 0 else mask_bit i) (mask_bit i)))
    (concat (map (\<lambda>its. map (\<lambda>ps. ps @ its) (protos proto wp)) tss))"
  by (simp add: test_rules_def map_concat comp_def)





lemma low_eq_mark_set: "i < 8 \<Longrightarrow> low_eq m (mark_set i neg m)"
  by (simp add: low_eq_def bit_mark_set)


subsection \<open>The marked rules\<close>

definition is_http :: "packet \<Rightarrow> u32 \<Rightarrow> bool" where
  "is_http E m \<longleftrightarrow> pkt_proto E = ''tcp'' \<and> raw_holds E '' -m weburl --contains http'' m"

lemma marks_bits:
  assumes "length dms \<le> 8"
  shows "bit (fst (marks dms)) k \<longleftrightarrow> (\<exists>j. k = 24 + j \<and> 0 < j \<and> j < length dms \<and> negated (dms ! j) \<and> multi (dms ! j))"
    and "bit (snd (marks dms)) k \<longleftrightarrow> (\<exists>j. k = 24 + j \<and> j < length dms \<and> multi (dms ! j))"
proof -
  have "\<exists>j. k = 24 + j" if "24 \<le> k" using that by presburger
  then show "bit (fst (marks dms)) k \<longleftrightarrow> (\<exists>j. k = 24 + j \<and> 0 < j \<and> j < length dms \<and> negated (dms ! j) \<and> multi (dms ! j))"
    "bit (snd (marks dms)) k \<longleftrightarrow> (\<exists>j. k = 24 + j \<and> j < length dms \<and> multi (dms ! j))"
    using mask_loop_bits(1)[of 0 "map negated dms" "map multi dms" 0 0 k] mask_loop_bits(2)[of 0 "map negated dms" "map multi dms" 0 0 k] assms
    by (auto simp: marks_def)
qed

lemma run_mark_rules:
  assumes "ignores_high_byte E" "length dms \<le> 8" "\<forall>j < 8. \<not> bit m (24 + j)"
  obtains m1 where "run E (mark_rules (fst (marks dms)) u @ rest) m = run E rest m1" "low_eq m m1"
    "\<forall>j < 8. bit m1 (24 + j) \<longleftrightarrow> 0 < j \<and> j < length dms \<and> negated (dms ! j) \<and> multi (dms ! j) \<or> j = 0 \<and> u \<and> is_http E m"
proof -
  define main where "main = fst (marks dms)"
  have main: "bit main k \<longleftrightarrow> (\<exists>j. k = 24 + j \<and> 0 < j \<and> j < length dms \<and> negated (dms ! j) \<and> multi (dms ! j))" for k
    unfolding main_def by (rule marks_bits(1)[OF assms(2)])
  define m0 where "m0 = (if 0 < main then (m AND NOT 0xFF000000) OR main else m)"
  have z: "\<not> bit main k" if "\<not> 0 < main" for k
  proof -
    have "main = 0" using that by (metis word_gt_0)
    then show ?thesis by simp
  qed
  have b0: "bit m0 (24 + j) \<longleftrightarrow> bit main (24 + j)" if "j < 8" for j
    using assms(3) that z[of "24 + j"] by (cases "0 < main") (simp_all only: m0_def if_True if_False bit_set simp_thms)
  have l0: "low_eq m m0"
    unfolding low_eq_def m0_def by (cases "0 < main") (auto simp only: if_True if_False bit_set bit_high main)
  have e: "(0x01000000 :: u32) = mask_bit 0" by (simp add: mask_bit_def)
  define m1 where "m1 = (if u \<and> is_http E m then mark_set 0 False m0 else m0)"
  have h: "raw_holds E s m0 = raw_holds E s m" for s
    using item_holds_low[OF assms(1), of "Raw s" m m0] l0 by simp
  have "run E (mark_rules main u @ rest) m = run E ((if u then [http_rule] else []) @ rest) m0"
    by (simp add: mark_rules_def m0_def run_Cons)
  also have "\<dots> = run E rest m1"
    by (simp add: http_rule_def run_Cons m1_def h is_http_def mark_set_def e)
  finally have "run E (mark_rules (fst (marks dms)) u @ rest) m = run E rest m1" by (simp add: main_def)
  moreover have "low_eq m m1" using l0 low_eq_mark_set[of 0 m0 False] by (auto simp: m1_def intro: low_eq_trans)
  moreover have "bit m1 (24 + j) \<longleftrightarrow> 0 < j \<and> j < length dms \<and> negated (dms ! j) \<and> multi (dms ! j) \<or> j = 0 \<and> u \<and> is_http E m" if "j < 8" for j
    using b0[OF that] main[of "24 + j"] by (auto simp: m1_def bit_mark_set)
  ultimately show ?thesis using that by blast
qed

lemma run_final_rules:
  assumes "strstr target_options ''tcp-reset'' = None \<or> pkt_proto E = ''tcp''"
  shows "m2 AND 0xFF000000 = fin \<Longrightarrow> fst (run E (final_rules T target_options proto fin @ rest) m2) \<noteq> None"
    "m2 AND 0xFF000000 \<noteq> fin \<Longrightarrow> run E (final_rules T target_options proto fin @ rest) m2 = run E rest (m2 AND NOT 0xFF000000)"
  using assms by (auto simp: final_rules_def run_Cons)


subsection \<open>What a rule definition describes\<close>

text \<open>
  The criteria of a definition that are given: whether it is negated, and its tests. An address that has no test,
  as one of MAC addresses only that is remote, is none.
\<close>

definition url_criterion :: "rule_def \<Rightarrow> (bool \<times> test list) list" where
  "url_criterion d = (if url_count (snd (url_choice d)) = 0 then [] else [(fst (url_choice d), url_tests (snd (url_choice d)))])"

definition parts_criterion :: "rule_def \<Rightarrow> string \<Rightarrow> string \<Rightarrow> string \<Rightarrow> string \<Rightarrow> (bool \<times> test list) list" where
  "parts_criterion d name not_name pre1 pre2 =
     (case parts_choice d name not_name of
        (is_negated, None) \<Rightarrow> []
      | (is_negated, Some ps) \<Rightarrow> [(is_negated, map (\<lambda>p. (pre1, pre2, p, False)) ps)])"

definition addr_criterion :: "rule_def \<Rightarrow> string \<Rightarrow> string \<Rightarrow> bool \<Rightarrow> (bool \<times> test list) list" where
  "addr_criterion d name not_name is_dst =
     (case addr_choice d name not_name of
        (is_negated, None) \<Rightarrow> []
      | (is_negated, Some found) \<Rightarrow>
          if flat_tests (addr_tests is_dst found) = [] then [] else [(is_negated, flat_tests (addr_tests is_dst found))])"

definition criteria :: "rule_def \<Rightarrow> bool \<Rightarrow> (bool \<times> test list) list" where
  "criteria d is_ingress =
     (let (remote, local) = (if is_ingress then (''local'', ''remote'') else (''remote'', ''local'')) in
      url_criterion d @ parts_criterion d ''mark'' ''not_mark'' '' -m mark '' '' --mark '' @
      parts_criterion d ''connmark'' ''not_connmark'' '' -m connmark '' '' --mark '' @
      addr_criterion d (local @ ''_addr'') (''not_'' @ local @ ''_addr'') False @
      addr_criterion d (remote @ ''_addr'') (''not_'' @ remote @ ''_addr'') True @
      parts_criterion d (local @ ''_port'') (''not_'' @ local @ ''_port'') '' --sport '' [] @
      parts_criterion d (remote @ ''_port'') (''not_'' @ remote @ ''_port'') '' --dport '' [])"











subsection \<open>The rules reach the target\<close>

lemma dims_length: "length (dims d is_ingress ip) \<le> 7"
  by (simp add: dims_def addr_dims_def Let_def split: prod.splits option.splits)



lemma rules_from_Nil: "rules_from proto i dms = [] \<longleftrightarrow> (\<forall>dm \<in> set dms. tests dm = [])"
  by (induction dms arbitrary: i) (auto simp: dim_rules_def test_rules_def protos_def)





lemma run_jump_item: "run E rs m = (Some t, m') \<Longrightarrow> \<exists>its. (its, Jump t) \<in> set rs \<and> all_hold E m' its"
proof (induction rs arbitrary: m)
  case (Cons r rs)
  obtain its act where r: "r = (its, act)" by (cases r)
  show ?case
    using Cons r by (cases act) (auto simp: run_Cons split: if_splits)
qed simp


subsection \<open>Witnesses\<close>

definition sample_packet :: "string \<Rightarrow> string \<Rightarrow> packet" where
  "sample_packet proto address = \<lparr>pkt_proto = proto, test_holds = (\<lambda>(pre1, pre2, arg) m. arg = address), raw_holds = (\<lambda>s m. False)\<rparr>"

definition sample_definition :: "string \<Rightarrow> rule_def" where
  "sample_definition name = initial_definition\<lparr>text_of := [''proto'' \<mapsto> ''tcp''], addrs_of := [name \<mapsto> ([''10.0.0.1'', ''10.0.0.2''], [], [])]\<rparr>"

lemma change_case:
  assumes "NUL \<notin> set s"
  shows "upper s = Some (map toupper s)" "lower s = Some (map tolower s)"
proof -
  have "NUL \<notin> set (map toupper s)" "NUL \<notin> set (map tolower s)" using assms by (auto simp: eq_commute[of NUL])
  then show "upper s = Some (map toupper s)" "lower s = Some (map tolower s)"
    using to_case_ok[OF assms, of "[]"] cstr_of_app[of "map toupper s" "[]"] cstr_of_app[of "map tolower s" "[]"]
    by (simp_all add: upper_def lower_def in_place_def)
qed

lemma sample_facts:
  "rule_proto (sample_definition name) = Some ''tcp''" "upper ''DROP'' = Some ''DROP''"
  "url_count (snd (url_choice (sample_definition name))) = 0" "ran (parts_of (sample_definition name)) = {}"
  "rules_proto (sample_definition name) ''tcp'' = ''tcp''" "ignores_high_byte (sample_packet proto address)" "base_check (sample_definition name) = []"
proof -
  show u: "url_count (snd (url_choice (sample_definition name))) = 0"
    by (simp add: url_choice_def url_count_def sample_definition_def initial_definition_def url_names_def not_url_names_def)
  show "rule_proto (sample_definition name) = Some ''tcp''"
    by (simp add: rule_proto_def sample_definition_def initial_definition_def change_case NUL_def) (simp add: tolower_def)
  show "rules_proto (sample_definition name) ''tcp'' = ''tcp''" by (simp add: rules_proto_def)
qed (simp_all add: change_case NUL_def toupper_def sample_definition_def initial_definition_def ignores_high_byte_def sample_packet_def base_check_def time_check_def)



subsection \<open>Packets of another protocol\<close>

lemma run_other_proto:
  assumes "proto \<noteq> ''both''" "pkt_proto E \<noteq> proto"
  shows "run E (rules_from proto i dms @ rest) m = run E rest m"
proof -
  have "run E (map (\<lambda>its. (Proto proto True # its, Set_mark v k)) itss @ rest) m = run E rest m" for v k itss rest
    by (induction itss) (simp_all add: run_Cons assms(2))
  then have "run E (dim_rules proto i dm @ rest) m = run E rest m" for i dm rest
    by (simp add: dim_rules_def test_rules_def protos_def assms(1))
  then show ?thesis by (induction dms arbitrary: i) simp_all
qed

text \<open>The dimensions of a definition whose criteria are all negated, with several tests each.\<close>

definition all_negated :: "(bool \<times> test list) list \<Rightarrow> bool" where
  "all_negated cs \<longleftrightarrow> (\<forall>c \<in> set cs. fst c \<and> 1 < length (snd c))"

definition negated_dim :: "dim \<Rightarrow> bool" where
  "negated_dim dm \<longleftrightarrow> single dm = [] \<and> (multi dm \<longrightarrow> negated dm \<and> tests dm \<noteq> [])"

lemma negated_parts:
  "all_negated (parts_criterion d name not_name p1 p2) \<Longrightarrow> negated_dim (parts_dim d name not_name ns p1 p2 wp) \<and>
    (multi (parts_dim d name not_name ns p1 p2 wp) \<longleftrightarrow> parts_criterion d name not_name p1 p2 \<noteq> [])"
  by (auto simp: all_negated_def negated_dim_def parts_criterion_def parts_dim_def make_dim_def split: prod.splits option.splits)

lemma negated_addrs:
  assumes "all_negated (addr_criterion d name not_name dst)"
  shows "\<forall>dm \<in> set (addr_dims d name not_name dst ip). negated_dim dm"
    and "(\<exists>dm \<in> set (addr_dims d name not_name dst ip). multi dm) \<longleftrightarrow> addr_criterion d name not_name dst \<noteq> []"
proof -
  obtain neg def where c: "addr_choice d name not_name = (neg, def)" by (cases "addr_choice d name not_name")
  have "(\<forall>dm \<in> set (addr_dims d name not_name dst ip). negated_dim dm) \<and>
    ((\<exists>dm \<in> set (addr_dims d name not_name dst ip). multi dm) \<longleftrightarrow> addr_criterion d name not_name dst \<noteq> [])"
  proof (cases def)
    case None
    then show ?thesis using c by (simp add: addr_dims_def addr_criterion_def)
  next
    case (Some found)
    define ts where "ts = flat_tests (addr_tests dst found)"
    have "ts \<noteq> [] \<Longrightarrow> neg \<and> 1 < length ts" using assms c Some by (simp add: all_negated_def addr_criterion_def ts_def)
    then show ?thesis using c Some
      by (cases "ts = []") (simp_all add: addr_dims_def addr_criterion_def ts_def[symmetric] negated_dim_def make_dim_def)
  qed
  then show "\<forall>dm \<in> set (addr_dims d name not_name dst ip). negated_dim dm"
    "(\<exists>dm \<in> set (addr_dims d name not_name dst ip). multi dm) \<longleftrightarrow> addr_criterion d name not_name dst \<noteq> []" by blast+
qed

lemma no_urls: "url_count (snd (url_choice d)) = 0 \<Longrightarrow> negated_dim (url_dim d ip) \<and> \<not> multi (url_dim d ip) \<and> url_criterion d = []"
  using url_tests_length[OF url_choice_length, of d] by (simp add: negated_dim_def url_dim_def make_dim_def url_criterion_def url_is_multi_def)

lemma negated_dims:
  assumes "url_count (snd (url_choice d)) = 0" "all_negated (criteria d is_ingress)"
  shows "\<forall>dm \<in> set (dims d is_ingress ip). negated_dim dm"
    and "(\<exists>dm \<in> set (dims d is_ingress ip). multi dm) \<longleftrightarrow> criteria d is_ingress \<noteq> []"
proof -
  have app: "all_negated (xs @ ys) \<longleftrightarrow> all_negated xs \<and> all_negated ys" for xs ys by (auto simp: all_negated_def)
  show "\<forall>dm \<in> set (dims d is_ingress ip). negated_dim dm"
    using assms no_urls[OF assms(1)] negated_parts negated_addrs(1)
    by (cases is_ingress) (auto simp: dims_def criteria_def app)
  show "(\<exists>dm \<in> set (dims d is_ingress ip). multi dm) \<longleftrightarrow> criteria d is_ingress \<noteq> []"
    using assms no_urls[OF assms(1)] negated_parts negated_addrs(2)
    by (cases is_ingress; simp add: dims_def criteria_def app bex_Un; blast)
qed


text \<open>A rule for one protocol whose criteria are all negated, with several tests each, also reaches its target for every packet of
  another protocol, whatever holds for it: the rule that jumps tests the mark only.\<close>

lemma negated_rule_hits_other_protocols:
  assumes "upper target = Some T" "rule_proto d = Some p" "p \<noteq> ''both''" "base_check d = []" "url_count (snd (url_choice d)) = 0"
    and "criteria d is_ingress \<noteq> []" "all_negated (criteria d is_ingress)"
    and "pkt_proto E \<noteq> p" "ignores_high_byte E" "m AND 0xFF000000 = 0" "strstr (used_options T p target_options) ''tcp-reset'' = None"
  shows "compute_rules d table chain is_ingress target target_options =
      Some (map (show_rule (prefix_of table chain)) (firewall_rules d is_ingress T target_options p)) \<and>
    fst (run E (firewall_rules d is_ingress T target_options p) m) \<noteq> None"
proof -
  define dms where "dms = dims d is_ingress (p \<noteq> ''both'')"
  define opts where "opts = used_options T p target_options"
  have p: "rules_proto d p = p" using assms(5) by (simp add: rules_proto_def)
  have neg: "\<forall>dm \<in> set dms. negated_dim dm" "\<exists>dm \<in> set dms. multi dm"
    using negated_dims[OF assms(5,7), of "p \<noteq> ''both''"] assms(6) by (simp_all add: dms_def)
  have len: "length dms \<le> 8" using dims_length[of d is_ingress "p \<noteq> ''both''"] by (simp add: dms_def)
  obtain rest where c: "dms = url_dim d (p \<noteq> ''both'') # rest" using dims_Cons dms_def by blast
  have hd: "\<not> multi (dms ! 0)" "\<not> multi (hd dms)" using no_urls[OF assms(5)] c by simp_all
  have "check_items d dms = []" using neg(1) assms(4) by (auto simp: check_items_def negated_dim_def)
  moreover have "rules_from p 0 dms \<noteq> []" using neg by (auto simp: rules_from_Nil negated_dim_def)
  ultimately have rules: "filter_rules d dms T opts p = filter_marked T opts p dms" by (simp add: filter_rules_def check_dims_def)
  have high: "\<forall>j < 8. \<not> bit m (24 + j)" using high_eq_iff[of 0 m] assms(10) by simp
  define fin where "fin = snd (marks dms)"
  have fin: "bit fin k \<longleftrightarrow> (\<exists>j. k = 24 + j \<and> j < length dms \<and> multi (dms ! j))" for k
    unfolding fin_def by (rule marks_bits(2)[OF len])
  have run: "fst (run E (filter_marked T opts p dms @ rest') m) \<noteq> None" for rest'
  proof -
    obtain m1 where m1: "run E (mark_rules (fst (marks dms)) (negated (hd dms) \<and> multi (hd dms)) @ rules_from p 0 dms @ final_rules T opts p fin @ rest') m =
        run E (rules_from p 0 dms @ final_rules T opts p fin @ rest') m1"
      "\<forall>j < 8. bit m1 (24 + j) \<longleftrightarrow> 0 < j \<and> j < length dms \<and> negated (dms ! j) \<and> multi (dms ! j) \<or> j = 0 \<and> (negated (hd dms) \<and> multi (hd dms)) \<and> is_http E m"
      using run_mark_rules[OF assms(9) len high] by blast
    have "bit m1 (24 + j) = bit fin (24 + j)" if "j < 8" for j
    proof (cases "j < length dms")
      case True
      then have "multi (dms ! j) \<Longrightarrow> negated (dms ! j) \<and> 0 < j" using neg(1) hd(1) by (cases j) (auto simp: negated_dim_def)
      with m1(2) fin[of "24 + j"] that hd True show ?thesis by auto
    next
      case False
      with m1(2) fin[of "24 + j"] that hd show ?thesis by auto
    qed
    then have "m1 AND 0xFF000000 = fin" by (subst high_eq_iff) (auto simp: fin)
    then have "fst (run E (final_rules T opts p fin @ rest') m1) \<noteq> None"
      using run_final_rules(1)[of opts E m1 fin T p rest'] assms(11) by (simp add: opts_def)
    then show ?thesis using m1(1) run_other_proto[OF assms(3,8)] by (simp add: filter_marked_def fin_def)
  qed
  show ?thesis
    using compute_firewall_rules[OF assms(1,2), of table chain is_ingress target_options] rules run[of "[]"] assms(5)
    by (simp add: firewall_rules_def p dms_def opts_def)
qed

subsection \<open>The mark that a jump leaves\<close>

definition keeps_marks :: "dim \<Rightarrow> bool" where
  "keeps_marks dm \<longleftrightarrow> (multi dm \<longrightarrow> \<not> negated dm)"

definition few_negated :: "(bool \<times> test list) list \<Rightarrow> bool" where
  "few_negated cs \<longleftrightarrow> (\<forall>c \<in> set cs. fst c \<longrightarrow> length (snd c) = 1)"

lemma parts_keep:
  assumes "few_negated (parts_criterion d name not_name p1 p2)" "ns \<longrightarrow> (\<forall>c \<in> set (parts_criterion d name not_name p1 p2). \<not> fst c)"
  shows "keeps_marks (parts_dim d name not_name ns p1 p2 wp)"
    and "(\<exists>c \<in> set (parts_criterion d name not_name p1 p2). 1 < length (snd c)) \<longrightarrow> tests (parts_dim d name not_name ns p1 p2 wp) \<noteq> []"
    and "tests (parts_dim d name not_name ns p1 p2 wp) \<noteq> [] \<longrightarrow> multi (parts_dim d name not_name ns p1 p2 wp)"
  using assms by (auto simp: few_negated_def keeps_marks_def parts_criterion_def parts_dim_def make_dim_def split: prod.splits option.splits)

lemma addrs_keep:
  assumes "few_negated (addr_criterion d name not_name dst)"
  shows "\<forall>dm \<in> set (addr_dims d name not_name dst ip). keeps_marks dm \<and> (tests dm \<noteq> [] \<longrightarrow> multi dm)"
    and "(\<exists>c \<in> set (addr_criterion d name not_name dst). 1 < length (snd c)) \<longrightarrow> (\<exists>dm \<in> set (addr_dims d name not_name dst ip). tests dm \<noteq> [])"
proof -
  obtain neg def where c: "addr_choice d name not_name = (neg, def)" by (cases "addr_choice d name not_name")
  have "(\<forall>dm \<in> set (addr_dims d name not_name dst ip). keeps_marks dm \<and> (tests dm \<noteq> [] \<longrightarrow> multi dm)) \<and>
    ((\<exists>c \<in> set (addr_criterion d name not_name dst). 1 < length (snd c)) \<longrightarrow> (\<exists>dm \<in> set (addr_dims d name not_name dst ip). tests dm \<noteq> []))"
  proof (cases def)
    case None
    then show ?thesis using c by (simp add: addr_dims_def addr_criterion_def)
  next
    case (Some found)
    define ts where "ts = flat_tests (addr_tests dst found)"
    have "ts \<noteq> [] \<Longrightarrow> neg \<Longrightarrow> length ts = 1" using assms c Some by (simp add: few_negated_def addr_criterion_def ts_def)
    then show ?thesis using c Some
      by (cases "ts = []") (auto simp: addr_dims_def addr_criterion_def ts_def[symmetric] keeps_marks_def make_dim_def)
  qed
  then show "\<forall>dm \<in> set (addr_dims d name not_name dst ip). keeps_marks dm \<and> (tests dm \<noteq> [] \<longrightarrow> multi dm)"
    "(\<exists>c \<in> set (addr_criterion d name not_name dst). 1 < length (snd c)) \<longrightarrow> (\<exists>dm \<in> set (addr_dims d name not_name dst ip). tests dm \<noteq> [])" by blast+
qed

lemma dims_criteria:
  obtains r l where "dims d is_ingress ip = [url_dim d ip, parts_dim d ''mark'' ''not_mark'' True '' -m mark '' '' --mark '' ip,
      parts_dim d ''connmark'' ''not_connmark'' False '' -m connmark '' '' --mark '' ip] @
      addr_dims d (l @ ''_addr'') (''not_'' @ l @ ''_addr'') False ip @ addr_dims d (r @ ''_addr'') (''not_'' @ r @ ''_addr'') True ip @
      [parts_dim d (l @ ''_port'') (''not_'' @ l @ ''_port'') False '' --sport '' [] True,
       parts_dim d (r @ ''_port'') (''not_'' @ r @ ''_port'') False '' --dport '' [] True]"
    "criteria d is_ingress = url_criterion d @ parts_criterion d ''mark'' ''not_mark'' '' -m mark '' '' --mark '' @
      parts_criterion d ''connmark'' ''not_connmark'' '' -m connmark '' '' --mark '' @
      addr_criterion d (l @ ''_addr'') (''not_'' @ l @ ''_addr'') False @ addr_criterion d (r @ ''_addr'') (''not_'' @ r @ ''_addr'') True @
      parts_criterion d (l @ ''_port'') (''not_'' @ l @ ''_port'') '' --sport '' [] @ parts_criterion d (r @ ''_port'') (''not_'' @ r @ ''_port'') '' --dport '' []"
  using that[of "if is_ingress then ''remote'' else ''local''" "if is_ingress then ''local'' else ''remote''"]
  by (cases is_ingress) (simp_all add: dims_def criteria_def)

lemma dims_keep:
  assumes "url_count (snd (url_choice d)) = 0" "few_negated (criteria d is_ingress)"
    and "\<forall>c \<in> set (parts_criterion d ''mark'' ''not_mark'' '' -m mark '' '' --mark ''). \<not> fst c"
  shows "\<forall>dm \<in> set (dims d is_ingress ip). keeps_marks dm \<and> (tests dm \<noteq> [] \<longrightarrow> multi dm)"
    and "(\<exists>c \<in> set (criteria d is_ingress). 1 < length (snd c)) \<Longrightarrow> \<exists>dm \<in> set (dims d is_ingress ip). tests dm \<noteq> []"
proof -
  have app: "few_negated (xs @ ys) \<longleftrightarrow> few_negated xs \<and> few_negated ys" for xs ys by (auto simp: few_negated_def)
  have url: "keeps_marks (url_dim d ip)" "tests (url_dim d ip) = []"
    using assms(1) by (simp_all add: keeps_marks_def url_dim_def make_dim_def url_is_multi_def)
  obtain r l where D: "dims d is_ingress ip = [url_dim d ip, parts_dim d ''mark'' ''not_mark'' True '' -m mark '' '' --mark '' ip,
      parts_dim d ''connmark'' ''not_connmark'' False '' -m connmark '' '' --mark '' ip] @
      addr_dims d (l @ ''_addr'') (''not_'' @ l @ ''_addr'') False ip @ addr_dims d (r @ ''_addr'') (''not_'' @ r @ ''_addr'') True ip @
      [parts_dim d (l @ ''_port'') (''not_'' @ l @ ''_port'') False '' --sport '' [] True,
       parts_dim d (r @ ''_port'') (''not_'' @ r @ ''_port'') False '' --dport '' [] True]" (is "_ = [_, ?m, ?c] @ ?al @ ?ar @ [?pl, ?pr]")
    and C: "criteria d is_ingress = url_criterion d @ parts_criterion d ''mark'' ''not_mark'' '' -m mark '' '' --mark '' @
      parts_criterion d ''connmark'' ''not_connmark'' '' -m connmark '' '' --mark '' @
      addr_criterion d (l @ ''_addr'') (''not_'' @ l @ ''_addr'') False @ addr_criterion d (r @ ''_addr'') (''not_'' @ r @ ''_addr'') True @
      parts_criterion d (l @ ''_port'') (''not_'' @ l @ ''_port'') '' --sport '' [] @ parts_criterion d (r @ ''_port'') (''not_'' @ r @ ''_port'') '' --dport '' []"
    by (rule dims_criteria)
  have few: "few_negated (parts_criterion d ''mark'' ''not_mark'' '' -m mark '' '' --mark '')"
    "few_negated (parts_criterion d ''connmark'' ''not_connmark'' '' -m connmark '' '' --mark '')"
    "few_negated (addr_criterion d (l @ ''_addr'') (''not_'' @ l @ ''_addr'') False)" "few_negated (addr_criterion d (r @ ''_addr'') (''not_'' @ r @ ''_addr'') True)"
    "few_negated (parts_criterion d (l @ ''_port'') (''not_'' @ l @ ''_port'') '' --sport '' [])"
    "few_negated (parts_criterion d (r @ ''_port'') (''not_'' @ r @ ''_port'') '' --dport '' [])"
    using assms(2) unfolding C app by simp_all
  have no: "False \<longrightarrow> P" for P by simp
  have yes: "True \<longrightarrow> (\<forall>c \<in> set (parts_criterion d ''mark'' ''not_mark'' '' -m mark '' '' --mark ''). \<not> fst c)" using assms(3) by simp
  note mk = parts_keep[OF few(1) yes, of ip] and ck = parts_keep[OF few(2) no, of ip]
    and lk = addrs_keep[OF few(3), of ip] and rk = addrs_keep[OF few(4), of ip]
    and sk = parts_keep[OF few(5) no, of True] and dk = parts_keep[OF few(6) no, of True]
  show "\<forall>dm \<in> set (dims d is_ingress ip). keeps_marks dm \<and> (tests dm \<noteq> [] \<longrightarrow> multi dm)"
    unfolding D set_append list.set ball_Un ball_simps(7) ball_simps(5) using url(1,2) mk(1,3) ck(1,3) lk(1) rk(1) sk(1,3) dk(1,3) by simp
  show "\<exists>dm \<in> set (dims d is_ingress ip). tests dm \<noteq> []" if "\<exists>c \<in> set (criteria d is_ingress). 1 < length (snd c)"
    using that no_urls[OF assms(1)] mk(2) ck(2) lk(2) rk(2) sk(2) dk(2) unfolding C D set_append bex_Un list.set bex_simps
    by (elim disjE) simp_all
qed

lemma set_again: "bit m (24 + i) \<Longrightarrow> i < 8 \<Longrightarrow> (m AND NOT (mask_bit i)) OR mask_bit i = m"
  by (rule bit_eqI) (auto simp: bit_set bit_mask_bit)

lemma run_kept:
  "\<forall>dm \<in> set dms. \<not> negated dm \<or> tests dm = [] \<Longrightarrow> \<forall>j < length dms. tests (dms ! j) \<noteq> [] \<longrightarrow> bit m (24 + (i + j)) \<Longrightarrow> i + length dms \<le> 8 \<Longrightarrow>
    run E (rules_from proto i dms @ rest) m = run E rest m"
proof (induction dms arbitrary: i)
  case (Cons dm dms)
  have same: "run E (map (\<lambda>its. (its, Set_mark (mask_bit i) (mask_bit i))) itss @ rest') m = run E rest' m" if "bit m (24 + i)" for itss rest'
    using set_again[OF that] Cons.prems(3) by (induction itss) (simp_all add: run_Cons)
  have "run E (dim_rules proto i dm @ rest') m = run E rest' m" for rest'
    using Cons.prems(1,2) same by (cases "tests dm = []") (force simp: dim_rules_def test_rules_alt)+
  moreover have "\<forall>j < length dms. tests (dms ! j) \<noteq> [] \<longrightarrow> bit m (24 + (Suc i + j))" using Cons.prems(2) by force
  ultimately show ?case using Cons.IH[of "Suc i"] Cons.prems by simp
qed simp

lemma marked_jump:
  assumes "run E (filter_marked T opts proto dms) m = (Some t, m')"
  shows "m' AND 0xFF000000 = snd (marks dms)"
proof -
  have set_only: "(its, Jump t) \<notin> set (rules_from proto i dms)" for its i
    by (induction dms arbitrary: i) (auto simp: dim_rules_def test_rules_def)
  obtain its where "(its, Jump t) \<in> set (filter_marked T opts proto dms)" "all_hold E m' its"
    using run_jump_item[OF assms] by blast
  then have "Marked False (snd (marks dms)) \<in> set its \<and> all_hold E m' its"
    using set_only by (auto simp: filter_marked_def mark_rules_def http_rule_def final_rules_def split: if_splits)
  then show ?thesis by (auto simp: all_hold_def list_all_iff)
qed

text \<open>When a rule with several tests in a criterion, and none of those negated, has jumped for a packet of a connection, it jumps for
  every later packet of that connection, whatever holds for it: the jump leaves the mark as the tests have set it.\<close>

lemma target_mark_sticks:
  assumes "upper target = Some T" "rule_proto d = Some p" "url_count (snd (url_choice d)) = 0"
    and "few_negated (criteria d is_ingress)" "\<forall>c \<in> set (parts_criterion d ''mark'' ''not_mark'' '' -m mark '' '' --mark ''). \<not> fst c"
    and "\<exists>c \<in> set (criteria d is_ingress). 1 < length (snd c)"
    and "strstr (used_options T p target_options) ''tcp-reset'' = None"
  shows "compute_rules d table chain is_ingress target target_options =
      Some (map (show_rule (prefix_of table chain)) (firewall_rules d is_ingress T target_options p)) \<and>
    (\<forall>E m t m'. run E (firewall_rules d is_ingress T target_options p) m = (Some t, m') \<longrightarrow>
      (\<forall>E2. fst (run E2 (firewall_rules d is_ingress T target_options p) m') \<noteq> None))"
proof -
  define all where "all = dims d is_ingress (p \<noteq> ''both'') @ check_dims d p (dims d is_ingress (p \<noteq> ''both''))"
  define opts where "opts = used_options T p target_options"
  have p: "rules_proto d p = p" using assms(3) by (simp add: rules_proto_def)
  note keep = dims_keep[OF assms(3,4,5), of "p \<noteq> ''both''"]
  have "rules_from p 0 (dims d is_ingress (p \<noteq> ''both'')) \<noteq> []" using keep(2)[OF assms(6)] by (auto simp: rules_from_Nil)
  then have rules: "filter_rules d (dims d is_ingress (p \<noteq> ''both'')) T opts p = filter_marked T opts p all"
    by (simp add: filter_rules_def all_def)
  have len: "length all \<le> 8" using dims_length[of d is_ingress "p \<noteq> ''both''"] by (simp add: all_def check_dims_def)
  have all: "\<forall>dm \<in> set all. keeps_marks dm \<and> (tests dm \<noteq> [] \<longrightarrow> multi dm)"
    using keep(1) by (auto simp: all_def check_dims_def keeps_marks_def)
  obtain rest where c: "all = url_dim d (p \<noteq> ''both'') # rest" using dims_Cons[of d is_ingress "p \<noteq> ''both''"] by (auto simp: all_def)
  have "\<not> bit (fst (marks all)) k" for k using all unfolding marks_bits(1)[OF len] by (auto simp: keeps_marks_def)
  then have main: "fst (marks all) = 0" by (intro bit_eqI) simp
  have stick: "fst (run E2 (filter_marked T opts p all) m') \<noteq> None" if "run E (filter_marked T opts p all) m = (Some t, m')" for E E2 m t m'
  proof -
    define fin where "fin = snd (marks all)"
    have m': "m' AND 0xFF000000 = fin" using marked_jump[OF that] by (simp add: fin_def)
    have bits: "bit m' (24 + j)" if "j < length all" "tests (all ! j) \<noteq> []" for j
    proof -
      have "bit fin (24 + j)" using that all unfolding fin_def marks_bits(2)[OF len] by auto
      then show ?thesis unfolding m'[symmetric] by (simp add: bit_and_iff)
    qed
    have "\<forall>dm \<in> set all. \<not> negated dm \<or> tests dm = []" using all by (auto simp: keeps_marks_def)
    then have "run E2 (filter_marked T opts p all) m' = run E2 (final_rules T opts p fin) m'"
      using run_kept[of all m' 0 E2 p "final_rules T opts p fin"] bits len main no_urls[OF assms(3)] c
      by (simp add: filter_marked_def mark_rules_def fin_def)
    then show ?thesis using run_final_rules(1)[of opts E2 m' fin T p "[]"] m' assms(7) by (simp add: opts_def)
  qed
  have "firewall_rules d is_ingress T target_options p = filter_marked T opts p all"
    using rules assms(3) by (simp add: firewall_rules_def p opts_def)
  then show ?thesis using stick compute_firewall_rules[OF assms(1,2)] by auto
qed

subsection \<open>Text after an address\<close>

text \<open>C39: An address is valid when it begins with four numbers, and is put into the command as it is: whatever follows them, but
  for a comma, a colon or a dash, becomes a part of the command, which is given to the shell.\<close>

theorem address_tail_in_command:
  assumes "is_number a" "is_number b" "is_number c" "is_number d" "tail = [] \<or> \<not> isdigit (hd tail)"
    and "set tail \<inter> {NUL, CHR '','', CHR '':'', CHR ''-''} = {}" "upper target = Some T" "T \<noteq> ''REJECT''"
  shows "\<exists>def. parse_options [(''local_addr'', Uci_string (dotted a b c d @ tail))] initial_definition = Some def \<and>
    compute_rules def table chain False target None =
      Some [prefix_of table chain @ ''  -s   '' @ trimmed (dotted a b c d @ tail) @ ''  -j '' @ T]"
proof -
  define s where "s = trimmed (dotted a b c d @ tail)"
  define def where "def = initial_definition\<lparr>addrs_of := [''local_addr'' \<mapsto> ([s], [], [])]\<rparr>"
  have parse: "parse_options [(''local_addr'', Uci_string (dotted a b c d @ tail))] initial_definition = Some def"
    using parse_address_tail[OF assms(1-6)]
    by (simp add: change_case NUL_def) (simp add: tolower_def parse_option_def get_option_value_string_def s_def[symmetric] def_def initial_definition_def)
  have u: "url_count (snd (url_choice def)) = 0" "url_tests (snd (url_choice def)) = []"
    by (simp_all add: url_choice_def url_count_def url_tests_def def_def initial_definition_def url_names_def not_url_names_def url_prefixes_def)
  have b: "base_check def = []" "\<not> has_ports def" "rule_proto def = Some ''both''"
    by (simp_all add: base_check_def time_check_def has_ports_def parts_choice_def rule_proto_def def_def initial_definition_def change_case NUL_def)
  define dms where "dms = dims def False False"
  have dms: "dms = [make_dim (fst (url_choice def)) False False [], make_dim False False False [], make_dim False False False [],
      make_dim False False False [('' -s '', [], s, False)], make_dim False False True [], make_dim False False True []]"
    using u by (simp add: dms_def dims_def url_dim_def url_is_multi_def parts_dim_def parts_choice_def addr_dims_def addr_choice_def flat_tests_def addr_tests_def)
      (simp add: def_def initial_definition_def flat_tests_def)
  have "rules_from ''both'' 0 dms = []" unfolding rules_from_Nil by (simp add: dms make_dim_def)
  moreover have "check_items def dms = [Check False ('' -s '', [], s, False)]" by (simp add: check_items_def dms make_dim_def b)
  ultimately have r: "filter_rules def dms T [] ''both'' = [([Check False ('' -s '', [], s, False)], Jump T)]"
    using b(2) assms(8) by (simp add: filter_rules_def filter_plain_def)
  have o: "used_options T ''both'' None = []" "rules_proto def ''both'' = ''both''" by (simp_all add: used_options_def rules_proto_def u)
  have "compute_rules def table chain False target None = Some [prefix_of table chain @ ''  -s   '' @ s @ ''  -j '' @ T]"
    using compute_rules_text[OF assms(7) b(3), of table chain False None] r by (simp add: o u dms_def show_rule_def fw_text arg_open_def arg_close_def)
  with parse show ?thesis unfolding s_def by blast
qed

lemma address_tail_in_command_witness:
  "\<exists>def. parse_options [(''local_addr'', Uci_string (dotted ''1'' ''2'' ''3'' ''4'' @ ''; reboot''))] initial_definition = Some def \<and>
    compute_rules def ''filter'' ''fw'' False ''DROP'' None =
      Some [prefix_of ''filter'' ''fw'' @ ''  -s   '' @ trimmed (dotted ''1'' ''2'' ''3'' ''4'' @ ''; reboot'') @ ''  -j '' @ ''DROP'']"
  by (rule address_tail_in_command)
    (simp_all add: is_number_def isdigit_def digits_value_def int_max_def NUL_def sample_facts)

end
